(* ===== verification/Mantids_Prelude.thy ===== *)
theory Mantids_Prelude
  imports Main "HOL-Library.Sublist" "HOL-Library.Word"
begin

text \<open>
  Shared vocabulary of the development: the C++ scalar types the sources use, modelled on
  \<open>nat\<close> and \<open>int\<close> with the wrap-around written out, the byte-string type, and the generic
  list lemmas that the container, parser and codec theories rely on.

  A \<open>size_t\<close> is a \<open>nat\<close> below \<open>2 ^ 64\<close> (the library targets 64-bit systems: it names
  \<open>ftruncate64\<close>, \<open>stat64\<close>); additions and subtractions whose overflow the code tests, or
  relies on, go through \<open>add64\<close> and \<open>sub64\<close>. A byte is a \<open>char\<close>; a C++
  \<open>std::string\<close> or a \<open>(void *, size_t)\<close> pair is a \<open>char list\<close>.
\<close>

section \<open>Fact collections\<close>

named_theorems u64_simps \<open>arithmetic of the 64-bit size type\<close>
named_theorems byte_simps \<open>characters as byte values\<close>
named_theorems list_pos \<open>facts on positions, slices and first occurrences in byte strings\<close>

section \<open>The 64-bit size type\<close>

type_synonym bytes = "char list"

abbreviation two64 :: nat where
  "two64 \<equiv> 18446744073709551616"

definition size_max :: nat where
  "size_max = 18446744073709551615"

definition add64 :: "nat \<Rightarrow> nat \<Rightarrow> nat" where
  "add64 a b = (a + b) mod two64"

definition sub64 :: "nat \<Rightarrow> nat \<Rightarrow> nat" where
  "sub64 a b = (a + (two64 - b)) mod two64"

definition CHECK_UINT_OVERFLOW_SUM :: "nat \<Rightarrow> nat \<Rightarrow> bool" where
  "CHECK_UINT_OVERFLOW_SUM a b \<longleftrightarrow> add64 a b < a \<or> add64 a b < b"

lemma size_max_less [u64_simps]: "size_max < two64"
  by (simp add: size_max_def)

lemma le_size_max_iff [u64_simps]: "n \<le> size_max \<longleftrightarrow> n < two64"
  by (auto simp: size_max_def)

lemma add64_small [u64_simps]: "a + b < two64 \<Longrightarrow> add64 a b = a + b"
  by (simp add: add64_def)

lemma sub64_small [u64_simps]: "b \<le> a \<Longrightarrow> a < two64 \<Longrightarrow> sub64 a b = a - b"
proof -
  assume "b \<le> a" "a < two64"
  then have "a + (two64 - b) = (a - b) + two64" by linarith
  moreover have "a - b < two64" using \<open>a < two64\<close> by simp
  ultimately show ?thesis by (simp add: sub64_def)
qed

lemma sub64_wrap [u64_simps]: "a < b \<Longrightarrow> b < two64 \<Longrightarrow> sub64 a b = two64 - (b - a)"
  by (simp add: sub64_def)

lemma add64_sub64_cancel: "a < two64 \<Longrightarrow> b < two64 \<Longrightarrow> add64 (sub64 a b) b = a"
  by (cases "b \<le> a") (simp_all add: sub64_small sub64_wrap add64_def)

text \<open>The macro of \<open>Helpers/mem.h\<close> is exact: on representable operands it tells whether the
  mathematical sum leaves the type.\<close>

lemma overflow_sum_iff [u64_simps]:
  assumes "a < two64" "b < two64"
  shows "CHECK_UINT_OVERFLOW_SUM a b \<longleftrightarrow> two64 \<le> a + b"
proof (cases "a + b < two64")
  case True
  then show ?thesis by (simp add: CHECK_UINT_OVERFLOW_SUM_def add64_def)
next
  case False
  then have "(a + b) mod two64 = a + b - two64"
    using assms by (simp add: mod_if)
  moreover have "a + b - two64 < a" using False assms by linarith
  ultimately show ?thesis
    using False by (simp add: CHECK_UINT_OVERFLOW_SUM_def add64_def)
qed

section \<open>Bytes\<close>

abbreviation byte_of :: "char \<Rightarrow> nat" where
  "byte_of c \<equiv> of_char c"

abbreviation CR :: char where "CR \<equiv> CHR 0x0D"
abbreviation LF :: char where "LF \<equiv> CHR 0x0A"

text \<open>On the supported platforms a plain \<open>char\<close> is signed: the value the arithmetic of the
  sources sees.\<close>

definition schar :: "char \<Rightarrow> int" where
  "schar c = (if byte_of c < 128 then int (byte_of c) else int (byte_of c) - 256)"

definition char_of_int :: "int \<Rightarrow> char" where
  "char_of_int i = char_of (nat (i mod 256))"

lemma byte_of_less [byte_simps, simp]: "byte_of c < (256::nat)"
  using of_char_mod_256 [of c] by (metis mod_less_divisor zero_less_numeral)

lemma char_of_byte_of [byte_simps, simp]: "char_of (byte_of c :: nat) = c"
  by simp

lemma byte_of_char_of [byte_simps, simp]: "n < 256 \<Longrightarrow> byte_of (char_of n) = (n::nat)"
  by (simp add: of_char_of)

lemma byte_of_inject [byte_simps]: "byte_of c = (byte_of d :: nat) \<longleftrightarrow> c = d"
  by simp

lemma schar_bounds [byte_simps]: "- 128 \<le> schar c" "schar c \<le> 127"
  using byte_of_less [of c] by (auto simp: schar_def simp del: byte_of_less)

lemma char_of_int_schar [byte_simps, simp]: "char_of_int (schar c) = c"
  using byte_of_less [of c] by (auto simp: schar_def char_of_int_def)

lemma byte_of_char_of_int [byte_simps]: "byte_of (char_of_int i) = nat (i mod 256)"
  by (simp add: char_of_int_def)

text \<open>The exclusive or of two bytes.\<close>

definition xor_char :: "char \<Rightarrow> char \<Rightarrow> char" where
  "xor_char a b = char_of (xor (byte_of a) (byte_of b :: nat))"

lemma xor_char_xor_char [simp]: "xor_char (xor_char c k) k = c"
proof -
  have "take_bit 8 (byte_of c) = byte_of c" "take_bit 8 (byte_of k :: nat) = byte_of k"
    by (simp_all add: take_bit_nat_eq_self)
  then have "take_bit 8 (xor (byte_of c) (byte_of k)) = xor (byte_of c) (byte_of k :: nat)" by (simp only: take_bit_xor)
  then have "xor (byte_of c) (byte_of k) < (2 :: nat) ^ 8" by (metis take_bit_nat_less_exp)
  then show ?thesis by (simp add: xor_char_def xor.assoc)
qed

text \<open>The classification functions of \<open>cctype\<close> in the "C" locale, on unsigned byte values.\<close>

definition isdigit :: "char \<Rightarrow> bool" where
  "isdigit c \<longleftrightarrow> 48 \<le> byte_of c \<and> byte_of c \<le> (57::nat)"

definition isupper :: "char \<Rightarrow> bool" where
  "isupper c \<longleftrightarrow> 65 \<le> byte_of c \<and> byte_of c \<le> (90::nat)"

definition islower :: "char \<Rightarrow> bool" where
  "islower c \<longleftrightarrow> 97 \<le> byte_of c \<and> byte_of c \<le> (122::nat)"

definition isalpha :: "char \<Rightarrow> bool" where
  "isalpha c \<longleftrightarrow> isupper c \<or> islower c"

definition isalnum :: "char \<Rightarrow> bool" where
  "isalnum c \<longleftrightarrow> isalpha c \<or> isdigit c"

definition isxdigit :: "char \<Rightarrow> bool" where
  "isxdigit c \<longleftrightarrow> isdigit c \<or> 65 \<le> byte_of c \<and> byte_of c \<le> (70::nat)
     \<or> 97 \<le> byte_of c \<and> byte_of c \<le> (102::nat)"

definition toupper :: "char \<Rightarrow> char" where
  "toupper c = (if islower c then char_of (byte_of c - 32 :: nat) else c)"

definition tolower :: "char \<Rightarrow> char" where
  "tolower c = (if isupper c then char_of (byte_of c + 32 :: nat) else c)"

lemmas cctype_defs = isdigit_def isupper_def islower_def isalpha_def isalnum_def isxdigit_def

section \<open>Occurrences in byte strings\<close>

text \<open>\<open>occurs_at n xs i\<close>: the string \<open>n\<close> stands in \<open>xs\<close> at position \<open>i\<close>.
  \<open>first_at\<close> is the reference search the containers are compared with.\<close>

definition occurs_at :: "'a list \<Rightarrow> 'a list \<Rightarrow> nat \<Rightarrow> bool" where
  "occurs_at n xs i \<longleftrightarrow> i + length n \<le> length xs \<and> take (length n) (drop i xs) = n"

definition first_at :: "'a list \<Rightarrow> 'a list \<Rightarrow> nat \<Rightarrow> bool" where
  "first_at n xs i \<longleftrightarrow> occurs_at n xs i \<and> (\<forall>j<i. \<not> occurs_at n xs j)"

fun find_sub :: "'a list \<Rightarrow> 'a list \<Rightarrow> nat option" where
  "find_sub n [] = (if n = [] then Some 0 else None)"
| "find_sub n (x # xs) =
     (if take (length n) (x # xs) = n then Some 0 else map_option Suc (find_sub n xs))"

lemma occurs_at_0 [list_pos]: "occurs_at n xs 0 \<longleftrightarrow> take (length n) xs = n"
  by (auto simp: occurs_at_def) (metis length_take min.absorb_iff2 min.commute)

lemma occurs_at_Cons_Suc [list_pos]: "occurs_at n (x # xs) (Suc i) = occurs_at n xs i"
  by (simp add: occurs_at_def)

lemma occurs_at_split [list_pos]:
  "occurs_at n xs i \<longleftrightarrow> (\<exists>as bs. xs = as @ n @ bs \<and> length as = i)"
proof
  assume occ: "occurs_at n xs i"
  then have "xs = take i xs @ n @ drop (i + length n) xs"
    by (metis append_take_drop_id drop_drop occurs_at_def add.commute)
  moreover have "length (take i xs) = i" using occ by (simp add: occurs_at_def)
  ultimately show "\<exists>as bs. xs = as @ n @ bs \<and> length as = i" by blast
qed (auto simp: occurs_at_def)

lemma occurs_at_append: "occurs_at n xs i \<Longrightarrow> occurs_at n (xs @ ys) i"
  by (auto simp: occurs_at_def)

lemma find_sub_None_iff [list_pos]:
  "find_sub n xs = None \<longleftrightarrow> (\<forall>i. \<not> occurs_at n xs i)"
proof (induction xs)
  case Nil
  then show ?case by (auto simp: occurs_at_def)
next
  case (Cons x xs)
  have "(\<forall>i. \<not> occurs_at n (x # xs) i) \<longleftrightarrow>
      \<not> occurs_at n (x # xs) 0 \<and> (\<forall>i. \<not> occurs_at n xs i)"
    by (metis not0_implies_Suc occurs_at_Cons_Suc)
  with Cons show ?case by (auto simp: occurs_at_0)
qed

lemma find_sub_Some_iff [list_pos]: "find_sub n xs = Some i \<longleftrightarrow> first_at n xs i"
proof (induction xs arbitrary: i)
  case Nil
  then show ?case by (auto simp: first_at_def occurs_at_def)
next
  case (Cons x xs)
  show ?case
  proof (cases i)
    case 0
    then show ?thesis by (auto simp: first_at_def occurs_at_0)
  next
    case (Suc j)
    have "first_at n (x # xs) (Suc j) \<longleftrightarrow> \<not> occurs_at n (x # xs) 0 \<and> first_at n xs j"
      by (auto simp: first_at_def occurs_at_Cons_Suc less_Suc_eq_0_disj)
    with Suc Cons show ?thesis by (auto simp: occurs_at_0)
  qed
qed

lemma first_at_unique: "first_at n xs i \<Longrightarrow> first_at n xs j \<Longrightarrow> i = j"
  by (metis find_sub_Some_iff option.inject)

lemma first_at_bound: "first_at n xs i \<Longrightarrow> i + length n \<le> length xs"
  by (simp add: first_at_def occurs_at_def)

section \<open>Generic list lemmas\<close>

lemma take_drop_all: "take (length xs - i) (drop i xs) = drop i xs"
  by simp

lemma drop_concat_Cons [list_pos]:
  "drop k (x @ y) = (if k \<le> length x then drop k x @ y else drop (k - length x) y)"
  by simp

lemma sum_list_length_concat: "sum_list (map length xss) = length (concat xss)"
  by (simp add: length_concat)

end
