(* ===== verification/Safe_Int.thy ===== *)
theory Safe_Int
  imports Mantids_Prelude "HOL-Library.Signed_Division"
begin

text \<open>
  \<open>Helpers/safeint.h\<close>: overflow-checked arithmetic and the range-checked integral cast.
  The template parameter \<open>T\<close> is a value of \<open>ctype\<close> (its \<open>std::numeric_limits\<close>);
  operands are \<open>int\<close>s of that range and a thrown exception is an \<open>Inl\<close>.
\<close>

section \<open>Integral types\<close>

record ctype =
  t_min :: int
  t_max :: int
  t_signed :: bool
  t_digits :: nat

definition sint_t :: "nat \<Rightarrow> ctype" where
  "sint_t w = \<lparr>t_min = - (2 ^ (w - 1)), t_max = 2 ^ (w - 1) - 1, t_signed = True, t_digits = w - 1\<rparr>"

definition uint_t :: "nat \<Rightarrow> ctype" where
  "uint_t w = \<lparr>t_min = 0, t_max = 2 ^ w - 1, t_signed = False, t_digits = w\<rparr>"

definition wf_ctype :: "ctype \<Rightarrow> bool" where
  "wf_ctype T \<longleftrightarrow>
     t_max T = 2 ^ t_digits T - 1 \<and> t_min T = (if t_signed T then - (2 ^ t_digits T) else 0)"

definition in_type :: "ctype \<Rightarrow> int \<Rightarrow> bool" where
  "in_type T x \<longleftrightarrow> t_min T \<le> x \<and> x \<le> t_max T"

definition cast_to :: "ctype \<Rightarrow> int \<Rightarrow> int" where
  "cast_to T x = t_min T + (x - t_min T) mod (t_max T - t_min T + 1)"

lemma wf_sint_t: "0 < w \<Longrightarrow> wf_ctype (sint_t w)"
  by (simp add: wf_ctype_def sint_t_def)

lemma wf_uint_t: "wf_ctype (uint_t w)"
  by (simp add: wf_ctype_def uint_t_def)

lemma wf_ctype_bounds: "wf_ctype T \<Longrightarrow> t_min T \<le> 0 \<and> 0 \<le> t_max T"
  by (auto simp: wf_ctype_def)

lemma cast_to_id: "in_type T x \<Longrightarrow> cast_to T x = x"
  by (simp add: in_type_def cast_to_def)

section \<open>Checked operations\<close>

datatype arith_exn = Overflow_error | Underflow_error | Invalid_argument

definition safe_add :: "ctype \<Rightarrow> int \<Rightarrow> int \<Rightarrow> arith_exn + int" where
  "safe_add T a b =
     (if a > 0 \<and> b > 0 \<and> t_max T - a < b then Inl Overflow_error
      else if a < 0 \<and> b < 0 \<and> t_min T - a > b then Inl Underflow_error
      else Inr (cast_to T (a + b)))"

definition safe_sub :: "ctype \<Rightarrow> int \<Rightarrow> int \<Rightarrow> arith_exn + int" where
  "safe_sub T a b =
     (if b > 0 \<and> a < t_min T + b then Inl Underflow_error
      else if b < 0 \<and> a > t_max T + b then Inl Overflow_error
      else Inr (cast_to T (a - b)))"

definition safe_mul :: "ctype \<Rightarrow> int \<Rightarrow> int \<Rightarrow> arith_exn + int" where
  "safe_mul T a b =
     (if a > 0 \<and> b > 0 \<and> a > t_max T sdiv b then Inl Overflow_error
      else if a < 0 \<and> b < 0 \<and> a < t_max T sdiv b then Inl Overflow_error
      else if a > 0 \<and> b < 0 \<and> b < t_min T sdiv a then Inl Underflow_error
      else if a < 0 \<and> b > 0 \<and> a < t_min T sdiv b then Inl Underflow_error
      else Inr (cast_to T (a * b)))"

text \<open>The comparison \<open>b == -1\<close> of \<open>safe_div\<close> follows the usual arithmetic conversions: an
  unsigned \<open>T\<close> of at least 32 bits converts \<open>-1\<close> to its maximum, a narrower one is promoted.\<close>

definition eq_minus_one :: "ctype \<Rightarrow> int \<Rightarrow> bool" where
  "eq_minus_one T b \<longleftrightarrow> (if \<not> t_signed T \<and> 32 \<le> t_digits T then b = t_max T else b = - 1)"

definition safe_div :: "ctype \<Rightarrow> int \<Rightarrow> int \<Rightarrow> arith_exn + int" where
  "safe_div T a b =
     (if b = 0 then Inl Invalid_argument
      else if a = t_min T \<and> eq_minus_one T b then Inl Overflow_error
      else Inr (cast_to T (a sdiv b)))"

definition in_range_17 :: "ctype \<Rightarrow> ctype \<Rightarrow> int \<Rightarrow> bool" where
  "in_range_17 To From v =
     (if t_signed To \<and> t_signed From then
        (if t_digits To > t_digits From then True
         else v \<ge> cast_to From (t_min To) \<and> v \<le> cast_to From (t_max To))
      else if t_signed To \<and> \<not> t_signed From then
        (if t_digits To > t_digits From then True else v \<le> cast_to From (t_max To))
      else if \<not> t_signed To \<and> t_signed From then
        (if v < 0 then False
         else if t_digits To \<ge> t_digits From then True
         else v \<le> cast_to From (t_max To))
      else (if t_digits To > t_digits From then True else v \<le> cast_to From (t_max To)))"

definition safe_cast_or :: "ctype \<Rightarrow> ctype \<Rightarrow> int \<Rightarrow> int \<Rightarrow> int" where
  "safe_cast_or To From v d = (if in_range_17 To From v then cast_to To v else d)"

section \<open>Correctness\<close>

lemma div_less_iff_mult_int: "0 < b \<Longrightarrow> m div b < (a::int) \<longleftrightarrow> m < a * b"
proof -
  assume b: "0 < b"
  have "a * b \<le> m \<Longrightarrow> a \<le> m div b"
    using zdiv_mono1 [of "a * b" m b] b by simp
  moreover have "a \<le> m div b \<Longrightarrow> a * b \<le> m"
    using mult_right_mono [of a "m div b" b] b
      minus_mod_eq_div_mult [of m b] pos_mod_sign [of b m] by linarith
  ultimately show ?thesis by (meson linorder_not_less)
qed

lemma sdiv_signs:
  "0 \<le> m \<Longrightarrow> 0 < b \<Longrightarrow> m sdiv b = m div (b::int)"
  "0 \<le> m \<Longrightarrow> b < 0 \<Longrightarrow> m sdiv b = - (m div (- b))"
  "m \<le> 0 \<Longrightarrow> 0 < b \<Longrightarrow> m sdiv b = - ((- m) div b)"
  "m \<le> 0 \<Longrightarrow> b < 0 \<Longrightarrow> m sdiv b = (- m) div (- b)"
  by (auto simp: signed_divide_int_def sgn_if)

text \<open>The four guards of \<open>safe_mul\<close>, each an exact overflow test in its sign quadrant.\<close>

lemma mul_guard_pp: "0 \<le> M \<Longrightarrow> 0 < a \<Longrightarrow> 0 < b \<Longrightarrow> a > M sdiv b \<longleftrightarrow> a * b > (M::int)"
  by (simp add: sdiv_signs div_less_iff_mult_int)

lemma mul_guard_nn: "0 \<le> M \<Longrightarrow> a < 0 \<Longrightarrow> b < 0 \<Longrightarrow> a < M sdiv b \<longleftrightarrow> a * b > (M::int)"
  using div_less_iff_mult_int [of "- b" M "- a"] by (simp add: sdiv_signs less_minus_iff)

lemma mul_guard_pn: "m \<le> 0 \<Longrightarrow> 0 < a \<Longrightarrow> b < 0 \<Longrightarrow> b < m sdiv a \<longleftrightarrow> a * b < (m::int)"
  using div_less_iff_mult_int [of a "- m" "- b"] by (simp add: sdiv_signs less_minus_iff mult.commute)

lemma mul_guard_np: "m \<le> 0 \<Longrightarrow> a < 0 \<Longrightarrow> 0 < b \<Longrightarrow> a < m sdiv b \<longleftrightarrow> a * b < (m::int)"
  using div_less_iff_mult_int [of b "- m" "- a"] by (simp add: sdiv_signs less_minus_iff)

lemma abs_sdiv_le: "\<bar>a sdiv b\<bar> \<le> \<bar>a :: int\<bar>"
proof (cases "b = 0")
  case False
  then have "\<bar>a\<bar> div \<bar>b\<bar> \<le> \<bar>a\<bar>"
    by (metis abs_ge_zero abs_of_pos div_by_1 zdiv_mono2 zero_less_abs_iff zero_less_one
        linorder_not_less int_one_le_iff_zero_less)
  moreover have "0 \<le> \<bar>a\<bar> div \<bar>b\<bar>"
    using False by (simp add: pos_imp_zdiv_nonneg_iff)
  ultimately show ?thesis by (auto simp: signed_divide_int_def abs_mult abs_sgn_eq)
qed (simp add: signed_divide_int_def)

lemma safe_add_eq:
  assumes "wf_ctype T" "in_type T a" "in_type T b"
  shows "safe_add T a b =
    (if in_type T (a + b) then Inr (a + b)
     else if t_max T < a + b then Inl Overflow_error else Inl Underflow_error)"
  using assms wf_ctype_bounds [OF assms(1)]
  by (auto simp: safe_add_def in_type_def cast_to_id)

lemma safe_sub_eq:
  assumes "wf_ctype T" "in_type T a" "in_type T b"
  shows "safe_sub T a b =
    (if in_type T (a - b) then Inr (a - b)
     else if t_max T < a - b then Inl Overflow_error else Inl Underflow_error)"
  using assms wf_ctype_bounds [OF assms(1)]
  by (auto simp: safe_sub_def in_type_def cast_to_id)

lemma safe_mul_eq:
  assumes wf: "wf_ctype T" and "in_type T a" "in_type T b"
  shows "safe_mul T a b =
    (if in_type T (a * b) then Inr (a * b)
     else if t_max T < a * b then Inl Overflow_error else Inl Underflow_error)"
proof -
  have lim: "t_min T \<le> 0" "0 \<le> t_max T" using wf_ctype_bounds [OF wf] by auto
  consider "a = 0 \<or> b = 0" | "0 < a" "0 < b" | "a < 0" "b < 0" | "0 < a" "b < 0" | "a < 0" "0 < b"
    by linarith
  then show ?thesis
  proof cases
    case 1
    then show ?thesis using lim by (auto simp: safe_mul_def in_type_def cast_to_id)
  next
    case 2
    then have "0 < a * b" by simp
    moreover from this lim have "t_min T \<le> a * b" by linarith
    ultimately show ?thesis using 2 lim
      by (auto simp: safe_mul_def in_type_def cast_to_id mul_guard_pp)
  next
    case 3
    then have "0 < a * b" by (simp add: mult_neg_neg)
    with 3 lim show ?thesis
      by (auto simp: safe_mul_def in_type_def cast_to_id mul_guard_nn)
  next
    case 4
    then have "a * b < 0" by (simp add: mult_pos_neg)
    with 4 lim show ?thesis
      by (auto simp: safe_mul_def in_type_def cast_to_id mul_guard_pn)
  next
    case 5
    then have "a * b < 0" by (simp add: mult_neg_pos)
    with 5 lim show ?thesis
      by (auto simp: safe_mul_def in_type_def cast_to_id mul_guard_np)
  qed
qed

lemma in_range_17_exact:
  assumes "wf_ctype To" "wf_ctype From" "in_type From v"
  shows "in_range_17 To From v \<longleftrightarrow> in_type To v"
proof -
  define P Q :: int where "P = 2 ^ t_digits To" and "Q = 2 ^ t_digits From"
  have pos: "1 \<le> P" "1 \<le> Q" by (simp_all add: P_def Q_def)
  have mono: "P \<le> Q \<longleftrightarrow> t_digits To \<le> t_digits From" "P < Q \<longleftrightarrow> t_digits To < t_digits From"
    "Q \<le> P \<longleftrightarrow> t_digits From \<le> t_digits To" "Q < P \<longleftrightarrow> t_digits From < t_digits To"
    by (simp_all add: P_def Q_def)
  have lim: "t_max To = P - 1" "t_min To = (if t_signed To then - P else 0)"
    "t_max From = Q - 1" "t_min From = (if t_signed From then - Q else 0)"
    using assms(1,2) by (simp_all add: wf_ctype_def P_def Q_def)
  have smax: "P \<le> Q \<Longrightarrow> cast_to From (P - 1) = P - 1"
    using pos by (intro cast_to_id) (auto simp: in_type_def lim)
  have smin: "P \<le> Q \<Longrightarrow> t_signed From \<Longrightarrow> cast_to From (- P) = - P"
    using pos by (intro cast_to_id) (auto simp: in_type_def lim)
  show ?thesis
  proof (cases "P \<le> Q")
    case True
    then have d: "\<not> t_digits From < t_digits To" "t_digits From \<le> t_digits To \<longleftrightarrow> P = Q"
      using mono by auto
    show ?thesis
      using assms(3) pos smax [OF True] smin [OF True] True
      by (auto simp: in_range_17_def in_type_def lim d)
  next
    case False
    then have d: "t_digits From < t_digits To" "t_digits From \<le> t_digits To"
      using mono by auto
    show ?thesis using assms(3) pos False by (auto simp: in_range_17_def in_type_def lim d)
  qed
qed

text \<open>Division: exact, but on an unsigned type of 32 bits or more the guard meant for
  \<open>INT_MIN / -1\<close> also rejects \<open>0 / max\<close>.\<close>

lemma safe_div_signed_eq:
  assumes wf: "wf_ctype T" and "in_type T a" "in_type T b" and s: "t_signed T"
  shows "safe_div T a b =
    (if b = 0 then Inl Invalid_argument
     else if in_type T (a sdiv b) then Inr (a sdiv b) else Inl Overflow_error)"
proof -
  have one: "a = t_min T \<Longrightarrow> b = - 1 \<Longrightarrow> \<not> in_type T (a sdiv b)"
    using wf s by (simp add: wf_ctype_def in_type_def signed_divide_int_def)
  have "a \<noteq> t_min T \<Longrightarrow> in_type T (a sdiv b)"
    using abs_sdiv_le [of a b] assms by (auto simp: in_type_def wf_ctype_def)
  moreover have "b \<noteq> - 1 \<Longrightarrow> b \<noteq> 0 \<Longrightarrow> in_type T (t_min T sdiv b)"
  proof -
    assume "b \<noteq> - 1" "b \<noteq> 0"
    then consider "0 < b" | "b < - 1" by linarith
    then show ?thesis
    proof cases
      case 1
      then have "0 \<le> (2::int) ^ t_digits T div b" by (simp add: pos_imp_zdiv_nonneg_iff)
      moreover have "(0::int) < 2 ^ t_digits T" by simp
      ultimately have "- ((2::int) ^ t_digits T div b) < 2 ^ t_digits T" by linarith
      with 1 abs_sdiv_le [of "t_min T" b] wf s show ?thesis
        by (auto simp: in_type_def wf_ctype_def sdiv_signs pos_imp_zdiv_nonneg_iff)
    next
      case 2
      then have "(2::int) ^ t_digits T div - b < 2 ^ t_digits T"
        by (intro int_div_less_self) auto
      moreover have "0 \<le> (2::int) ^ t_digits T div - b"
        using 2 by (simp add: pos_imp_zdiv_nonneg_iff)
      ultimately show ?thesis
        using 2 wf s by (auto simp: in_type_def wf_ctype_def sdiv_signs)
    qed
  qed
  ultimately show ?thesis
    using one s by (auto simp: safe_div_def eq_minus_one_def cast_to_id)
qed

section \<open>Properties\<close>

text \<open>C33: the checked addition, subtraction and multiplication are exact for every integral type:
  they return the mathematical result when it is a value of the type and throw the overflow or
  underflow exception otherwise, so no operation ever wraps.\<close>

theorem safe_arithmetic_exact:
  assumes "wf_ctype T" "in_type T a" "in_type T b"
  shows "safe_add T a b = (if in_type T (a + b) then Inr (a + b)
      else if t_max T < a + b then Inl Overflow_error else Inl Underflow_error) \<and>
    safe_sub T a b = (if in_type T (a - b) then Inr (a - b)
      else if t_max T < a - b then Inl Overflow_error else Inl Underflow_error) \<and>
    safe_mul T a b = (if in_type T (a * b) then Inr (a * b)
      else if t_max T < a * b then Inl Overflow_error else Inl Underflow_error)"
  using safe_add_eq [OF assms] safe_sub_eq [OF assms] safe_mul_eq [OF assms] by blast

theorem safe_arithmetic_exact_witness:
  "safe_add (sint_t 8) 100 27 = Inr 127 \<and> safe_sub (uint_t 8) 3 4 = Inl Underflow_error \<and>
   safe_mul (sint_t 8) (- 128) (- 1) = Inl Overflow_error"
  using safe_arithmetic_exact [of "sint_t 8" 100 27] safe_arithmetic_exact [of "uint_t 8" 3 4]
    safe_arithmetic_exact [of "sint_t 8" "- 128" "- 1"] wf_sint_t [of 8] wf_uint_t [of 8]
  by (simp add: in_type_def sint_t_def uint_t_def)

text \<open>The range test of the integral cast is exact between any two integral types, so the cast
  with a default returns the value itself when the target type has it and the default otherwise.\<close>

theorem safe_cast_exact:
  assumes "wf_ctype To" "wf_ctype From" "in_type From v"
  shows "safe_cast_or To From v d = (if in_type To v then v else d)"
  using in_range_17_exact [OF assms] by (simp add: safe_cast_or_def cast_to_id)

theorem safe_cast_exact_witness:
  "safe_cast_or (uint_t 8) (sint_t 32) 255 7 = 255 \<and> safe_cast_or (uint_t 8) (sint_t 32) (- 1) 7 = 7"
  using safe_cast_exact [of "uint_t 8" "sint_t 32" 255 7] safe_cast_exact [of "uint_t 8" "sint_t 32" "- 1" 7]
    wf_sint_t [of 32] wf_uint_t [of 8]
  by (simp add: in_type_def sint_t_def uint_t_def)

text \<open>The checked division rejects \<open>0 / max\<close> on every unsigned type of 32 bits or more as an
  overflow, although the quotient is zero: the guard for the signed minimum compares the divisor
  with a converted \<open>-1\<close>.\<close>

theorem safe_div_unsigned_zero:
  assumes "32 \<le> w"
  shows "safe_div (uint_t w) 0 (t_max (uint_t w)) = Inl Overflow_error \<and>
    in_type (uint_t w) (0 sdiv t_max (uint_t w))"
proof -
  have "(2 :: int) \<le> 2 ^ w" using assms self_le_power [of "2 :: int" w] by simp
  then show ?thesis using assms
    by (simp add: safe_div_def eq_minus_one_def uint_t_def in_type_def signed_divide_int_def)
qed

theorem safe_div_unsigned_zero_witness:
  "safe_div (uint_t 32) 0 (t_max (uint_t 32)) = Inl Overflow_error"
  using safe_div_unsigned_zero [of 32] by simp

end
