(* ===== verification/Stream_Objects.thy ===== *)
theory Stream_Objects
  imports Safe_Int
begin

text \<open>
  \<open>Memory/streamable_object.{h,cpp}\<close> with the two smallest sinks, \<open>StreamableString\<close> and
  \<open>StreamableNull\<close>: the \<open>WriteStatus\<close> accumulator with its exceptions, and the full-write
  loops over the virtual \<open>write\<close>. A streamable object is a state together with a record of
  its virtual operations; a loop whose \<open>write\<close> makes no progress does not return, so the
  loop is a \<open>partial_function\<close> in the option monad.
\<close>

section \<open>WriteStatus\<close>

record write_status =
  succeed :: bool
  finished :: bool
  bytesWritten :: nat
  writeError :: int

datatype stream_exn = Already_finished | Invalid_subtract | Arith arith_exn

definition ws_init :: write_status where
  "ws_init = \<lparr>succeed = True, finished = False, bytesWritten = 0, writeError = 0\<rparr>"

definition ws_assign :: "write_status \<Rightarrow> nat \<Rightarrow> write_status" where
  "ws_assign w x = w\<lparr>bytesWritten := x\<rparr>"

definition ws_minus :: "write_status \<Rightarrow> write_status \<Rightarrow> stream_exn + write_status" where
  "ws_minus w x =
     (if bytesWritten x > bytesWritten w then Inl Invalid_subtract
      else Inr (w\<lparr>bytesWritten := bytesWritten w - bytesWritten x, succeed := succeed x,
                  finished := finished x, writeError := writeError x\<rparr>))"

definition safe_add64 :: "nat \<Rightarrow> nat \<Rightarrow> stream_exn + nat" where
  "safe_add64 a b =
     (case safe_add (uint_t 64) (int a) (int b) of Inl e \<Rightarrow> Inl (Arith e) | Inr v \<Rightarrow> Inr (nat v))"

definition ws_add :: "write_status \<Rightarrow> int \<Rightarrow> stream_exn + write_status" where
  "ws_add w x =
     (if (\<not> succeed w \<or> finished w) \<and> x \<ge> 0 then Inl Already_finished
      else if x > 0 then
        (case safe_add64 (bytesWritten w) (nat x) of
           Inl e \<Rightarrow> Inl e | Inr v \<Rightarrow> Inr (w\<lparr>bytesWritten := v\<rparr>))
      else if x = 0 then Inr (w\<lparr>succeed := True, finished := True\<rparr>)
      else Inr (w\<lparr>succeed := False, finished := True, writeError := x\<rparr>))"

definition ws_plus :: "write_status \<Rightarrow> write_status \<Rightarrow> stream_exn + write_status" where
  "ws_plus w x =
     (case safe_add64 (bytesWritten w) (bytesWritten x) of
        Inl e \<Rightarrow> Inl e
      | Inr v \<Rightarrow> Inr (w\<lparr>bytesWritten := v,
                         succeed := (if \<not> succeed x then False else succeed w),
                         finished := (if finished x then True else finished w)\<rparr>))"

definition ws_reset :: "write_status \<Rightarrow> write_status" where
  "ws_reset w = w\<lparr>succeed := True, finished := False, bytesWritten := 0, writeError := 0\<rparr>"

text \<open>The conversion of an unsigned count to the \<open>ssize_t\<close> parameter of \<open>operator+=\<close>, and the
  compound assignment \<open>flag += i\<close> on a \<open>bool\<close>: the sum is computed in \<open>int\<close> and
  converted back, so every non-zero sum is \<open>true\<close>.\<close>

definition ssize_of :: "nat \<Rightarrow> int" where
  "ssize_of n = (if n < 9223372036854775808 then int n else int n - 18446744073709551616)"

definition bool_incr :: "bool \<Rightarrow> int \<Rightarrow> bool" where
  "bool_incr b i \<longleftrightarrow> of_bool b + i \<noteq> 0"

lemma safe_add64_eq:
  "a < two64 \<Longrightarrow> b < two64 \<Longrightarrow>
     safe_add64 a b = (if a + b < two64 then Inr (a + b) else Inl (Arith Overflow_error))"
  using safe_add_eq [OF wf_uint_t, of 64 "int a" "int b"]
  by (auto simp: safe_add64_def in_type_def uint_t_def nat_add_distrib)

lemma ws_add_count:
  assumes "succeed w" "\<not> finished w" "0 < n" "n < 9223372036854775808"
    "bytesWritten w < two64" "bytesWritten w + n < two64"
  shows "ws_add w (ssize_of n) = Inr (w\<lparr>bytesWritten := bytesWritten w + n\<rparr>)"
  using assms by (simp add: ws_add_def ssize_of_def safe_add64_eq)

text \<open>The status never counts bytes after an error or after the end: an object that failed or
  finished accepts only further error reports.\<close>

lemma ws_add_latch:
  "\<not> succeed w \<or> finished w \<Longrightarrow> ws_add w x = Inr w' \<Longrightarrow>
     x < 0 \<and> \<not> succeed w' \<and> finished w' \<and> bytesWritten w' = bytesWritten w"
  by (auto simp: ws_add_def split: if_splits)

section \<open>StreamableObject\<close>

record 'o streamable =
  so_write :: "'o \<Rightarrow> bytes \<Rightarrow> (stream_exn + (nat option \<times> 'o)) option"
  so_status :: "'o \<Rightarrow> write_status"
  so_set_status :: "'o \<Rightarrow> write_status \<Rightarrow> 'o"

definition fail_flag :: "'o streamable \<Rightarrow> 'o \<Rightarrow> 'o" where
  "fail_flag S s =
     so_set_status S s ((so_status S s)\<lparr>succeed := bool_incr (succeed (so_status S s)) (- 1)\<rparr>)"

partial_function (option) writeFullLoop ::
  "'o streamable \<Rightarrow> 'o \<Rightarrow> bytes \<Rightarrow> nat \<Rightarrow> (stream_exn + (bool \<times> 'o)) option" where
  "writeFullLoop S s buf writtenBytes =
     (if writtenBytes < length buf then
        (case so_write S s (drop writtenBytes buf) of
           None \<Rightarrow> None
         | Some (Inl e) \<Rightarrow> Some (Inl e)
         | Some (Inr (cur, s')) \<Rightarrow>
             (if cur = None \<or> \<not> succeed (so_status S s') then Some (Inr (False, fail_flag S s'))
              else writeFullLoop S s' buf (add64 writtenBytes (the cur))))
      else Some (Inr (True, s)))"

definition writeFullStream ::
  "'o streamable \<Rightarrow> 'o \<Rightarrow> bytes \<Rightarrow> (stream_exn + (bool \<times> 'o)) option" where
  "writeFullStream S s buf = writeFullLoop S s buf 0"

definition writeString ::
  "'o streamable \<Rightarrow> 'o \<Rightarrow> bytes \<Rightarrow> (stream_exn + (bool \<times> 'o)) option" where
  "writeString S s buf = writeFullStream S s buf"

definition writeEOF :: "'o streamable \<Rightarrow> 'o \<Rightarrow> (stream_exn + (bool \<times> 'o)) option" where
  "writeEOF S s =
     (case so_write S s [] of
        None \<Rightarrow> None
      | Some (Inl e) \<Rightarrow> Some (Inl e)
      | Some (Inr (r, s')) \<Rightarrow>
          (if r \<noteq> None then Some (Inr (True, s')) else Some (Inr (False, fail_flag S s'))))"

definition writeFullStreamWithEOF ::
  "'o streamable \<Rightarrow> 'o \<Rightarrow> bytes \<Rightarrow> (stream_exn + (bool \<times> 'o)) option" where
  "writeFullStreamWithEOF S s buf =
     (case writeFullStream S s buf of
        None \<Rightarrow> None
      | Some (Inl e) \<Rightarrow> Some (Inl e)
      | Some (Inr (ok, s')) \<Rightarrow>
          (if \<not> ok then Some (Inr (False, s'))
           else (case writeEOF S s' of
                   None \<Rightarrow> None
                 | Some (Inl e) \<Rightarrow> Some (Inl e)
                 | Some (Inr (eok, s'')) \<Rightarrow>
                     (if \<not> eok then Some (Inr (False, fail_flag S s''))
                      else Some (Inr (True, s''))))))"

text \<open>The writers that go on only while the upstream takes the data.\<close>

definition andThen ::
  "(stream_exn + (bool \<times> 'o)) option \<Rightarrow> ('o \<Rightarrow> (stream_exn + (bool \<times> 'o)) option) \<Rightarrow> (stream_exn + (bool \<times> 'o)) option" where
  "andThen w k = (case w of
     Some (Inr (True, up)) \<Rightarrow> k up | _ \<Rightarrow> w)"

lemma andThen_cong [fundef_cong]:
  "w = w' \<Longrightarrow> (\<And>up. w' = Some (Inr (True, up)) \<Longrightarrow> k up = k' up) \<Longrightarrow> andThen w k = andThen w' k'"
  by (auto simp: andThen_def split: option.splits sum.splits prod.splits bool.splits)

text \<open>A write whose success is read from the status of the upstream.\<close>

definition write_checked :: "'o streamable \<Rightarrow> bytes \<Rightarrow> 'o \<Rightarrow> (stream_exn + (bool \<times> 'o)) option" where
  "write_checked S x up = (case writeString S up x of
     Some (Inr (_, up')) \<Rightarrow> Some (Inr (succeed (so_status S up'), up')) | w \<Rightarrow> w)"

lemma writeFullLoop_done: "length buf \<le> w \<Longrightarrow> writeFullLoop S s buf w = Some (Inr (True, s))"
  by (subst writeFullLoop.simps) simp

lemma writeFullLoop_step:
  assumes "w < length buf" and "so_write S s (drop w buf) = Some (Inr (Some n, s'))"
    and "succeed (so_status S s')"
  shows "writeFullLoop S s buf w = writeFullLoop S s' buf (add64 w n)"
  using assms by (subst writeFullLoop.simps) simp

lemma writeFullLoop_fail:
  assumes "w < length buf" and "so_write S s (drop w buf) = Some (Inr (cur, s'))"
    and "cur = None \<or> \<not> succeed (so_status S s')"
  shows "writeFullLoop S s buf w = Some (Inr (False, fail_flag S s'))"
  using assms by (subst writeFullLoop.simps) auto

subsection \<open>The contract of a sink\<close>

text \<open>What the writers of the library rely on: while there is \<open>room\<close> for the data, a
  \<open>write\<close> of a non-empty buffer consumes a non-empty prefix of it, keeps the status clean
  and stores exactly that prefix. The contract gives total correctness of the write loop.\<close>

locale sink =
  fixes S :: "'o streamable"
    and content :: "'o \<Rightarrow> bytes"
    and ready :: "'o \<Rightarrow> nat \<Rightarrow> bool"
  assumes ready_succeed: "ready s n \<Longrightarrow> succeed (so_status S s)"
    and write_progress: "ready s n \<Longrightarrow> xs \<noteq> [] \<Longrightarrow> length xs \<le> n \<Longrightarrow>
       \<exists>k s'. so_write S s xs = Some (Inr (Some k, s')) \<and> 0 < k \<and> k \<le> length xs \<and>
         succeed (so_status S s') \<and> content s' = content s @ take k xs \<and> ready s' (n - k)"
begin

lemma writeFullLoop_total:
  assumes "length buf < two64" "w \<le> length buf" "ready s n" "length buf - w \<le> n"
  shows "\<exists>s'. writeFullLoop S s buf w = Some (Inr (True, s')) \<and>
    content s' = content s @ drop w buf \<and> ready s' (n - (length buf - w))"
  using assms
proof (induction "length buf - w" arbitrary: w s n rule: less_induct)
  case less
  show ?case
  proof (cases "w < length buf")
    case False
    then show ?thesis using less.prems by (auto simp: writeFullLoop_done)
  next
    case True
    then have "drop w buf \<noteq> []" by simp
    then obtain k s' where w1: "so_write S s (drop w buf) = Some (Inr (Some k, s'))"
      and k: "0 < k" "k \<le> length (drop w buf)" "succeed (so_status S s')"
      and c: "content s' = content s @ take k (drop w buf)" and r: "ready s' (n - k)"
      using write_progress [OF less.prems(3), of "drop w buf"] less.prems(4) by auto
    have k': "add64 w k = w + k" "w + k \<le> length buf"
      using k less.prems(1) True by (auto simp: add64_small)
    have "\<exists>s''. writeFullLoop S s' buf (w + k) = Some (Inr (True, s'')) \<and>
        content s'' = content s' @ drop (w + k) buf \<and> ready s'' (n - k - (length buf - (w + k)))"
      using k k' True less.prems r by (intro less.hyps) auto
    then obtain s'' where
      r2: "writeFullLoop S s' buf (w + k) = Some (Inr (True, s''))"
      and c2: "content s'' = content s' @ drop (w + k) buf"
      and rd2: "ready s'' (n - k - (length buf - (w + k)))" by blast
    have "take k (drop w buf) @ drop (w + k) buf = drop w buf"
      by (metis add.commute append_take_drop_id drop_drop)
    moreover have "n - k - (length buf - (w + k)) = n - (length buf - w)"
      using k k' less.prems(4) by simp
    ultimately show ?thesis
      using writeFullLoop_step [OF True w1 k(3)] k' r2 c c2 rd2 by auto
  qed
qed

lemma writeFullStream_total:
  assumes "length buf < two64" "ready s n" "length buf \<le> n"
  shows "\<exists>s'. writeFullStream S s buf = Some (Inr (True, s')) \<and>
    content s' = content s @ buf \<and> ready s' (n - length buf)"
  using writeFullLoop_total [of buf 0 s n] assms by (simp add: writeFullStream_def)

lemma write_checked_total:
  assumes "ready up n" "length x \<le> n" "length x < two64"
  shows "\<exists>up'. write_checked S x up = Some (Inr (True, up')) \<and> content up' = content up @ x \<and> ready up' (n - length x)"
  using writeFullStream_total [OF assms(3,1,2)] ready_succeed by (fastforce simp: write_checked_def writeString_def)

end

section \<open>StreamableString and StreamableNull\<close>

record str_obj =
  ss_value :: bytes
  ss_status :: write_status

definition StreamableString_write :: "str_obj \<Rightarrow> bytes \<Rightarrow> stream_exn + (nat option \<times> str_obj)" where
  "StreamableString_write s buf =
     (let s1 = s\<lparr>ss_value := ss_value s @ buf\<rparr> in
      case ws_add (ss_status s1) (ssize_of (length buf)) of
        Inl e \<Rightarrow> Inl e
      | Inr w \<Rightarrow> Inr (Some (length buf), s1\<lparr>ss_status := w\<rparr>))"

definition string_ops :: "str_obj streamable" where
  "string_ops = \<lparr>so_write = (\<lambda>s buf. Some (StreamableString_write s buf)), so_status = ss_status,
     so_set_status = (\<lambda>s w. s\<lparr>ss_status := w\<rparr>)\<rparr>"

definition string_init :: "bytes \<Rightarrow> str_obj" where
  "string_init v = \<lparr>ss_value = v, ss_status = ws_init\<rparr>"

definition StreamableString_streamTo ::
  "str_obj \<Rightarrow> 'o streamable \<Rightarrow> 'o \<Rightarrow> (stream_exn + (bool \<times> 'o)) option" where
  "StreamableString_streamTo s S out = writeFullStream S out (ss_value s)"

record null_obj =
  sn_bytes :: nat
  sn_status :: write_status

definition StreamableNull_write :: "null_obj \<Rightarrow> bytes \<Rightarrow> stream_exn + (nat option \<times> null_obj)" where
  "StreamableNull_write s buf =
     (case ws_add (sn_status s) (ssize_of (length buf)) of
        Inl e \<Rightarrow> Inl e
      | Inr w \<Rightarrow>
          (case safe_add64 (sn_bytes s) (length buf) of
             Inl e \<Rightarrow> Inl e
           | Inr b \<Rightarrow> Inr (Some (length buf), s\<lparr>sn_status := w, sn_bytes := b\<rparr>)))"

definition null_ops :: "null_obj streamable" where
  "null_ops = \<lparr>so_write = (\<lambda>s buf. Some (StreamableNull_write s buf)), so_status = sn_status,
     so_set_status = (\<lambda>s w. s\<lparr>sn_status := w\<rparr>)\<rparr>"

lemmas string_ops_simps [simp] =
  string_ops_def StreamableString_write_def

text \<open>A string sink is ready while its byte counter has room below \<open>2 ^ 63\<close>.\<close>

definition string_ready :: "str_obj \<Rightarrow> nat \<Rightarrow> bool" where
  "string_ready s n \<longleftrightarrow> succeed (ss_status s) \<and> \<not> finished (ss_status s) \<and>
     bytesWritten (ss_status s) + n < 9223372036854775808"

interpretation str: sink string_ops ss_value string_ready
proof
  fix s n
  assume "string_ready s n"
  then show "succeed (so_status string_ops s)" by (simp add: string_ready_def)
next
  fix s n and xs :: bytes
  assume r: "string_ready s n" and ne: "xs \<noteq> []" and le: "length xs \<le> n"
  have "ws_add (ss_status s) (ssize_of (length xs)) =
      Inr ((ss_status s)\<lparr>bytesWritten := bytesWritten (ss_status s) + length xs\<rparr>)"
    using r ne le by (intro ws_add_count) (auto simp: string_ready_def)
  then show "\<exists>k s'. so_write string_ops s xs = Some (Inr (Some k, s')) \<and> 0 < k \<and> k \<le> length xs \<and>
      succeed (so_status string_ops s') \<and> ss_value s' = ss_value s @ take k xs \<and>
      string_ready s' (n - k)"
    using r ne le by (auto simp: string_ready_def)
qed

section \<open>Properties\<close>

text \<open>The status flag after a refused write. A sink whose \<open>write\<close> reports an error through the
  status (as every container of the library does, with \<open>writeStatus += -1\<close>) leaves
  \<open>writeFullStream\<close> with the return value \<open>false\<close> but with the flag \<open>succeed\<close> set
  again, because the loop itself executes \<open>succeed += -1\<close> on a \<open>bool\<close> that is already
  false.\<close>

lemma writeFullStream_refused_flag:
  assumes "buf \<noteq> []" and "so_write S s buf = Some (Inr (None, s'))" and "\<not> succeed (so_status S s')"
    and "\<And>t w. so_status S (so_set_status S t w) = w"
  shows "\<exists>s''. writeFullStream S s buf = Some (Inr (False, s'')) \<and> succeed (so_status S s'')"
  using assms writeFullLoop_fail [of 0 buf S s None s']
  by (simp add: writeFullStream_def fail_flag_def bool_incr_def)

lemma writeFullStream_string:
  assumes "string_ready s (length buf)"
  shows "\<exists>s'. writeFullStream string_ops s buf = Some (Inr (True, s')) \<and>
    ss_value s' = ss_value s @ buf \<and> succeed (ss_status s')"
proof -
  have "length buf < two64" using assms by (simp add: string_ready_def)
  from str.writeFullStream_total [OF this assms order_refl] show ?thesis
    by (auto simp: string_ready_def)
qed

end
