(* ===== verification/Helpers_Mem.thy ===== *)
theory Helpers_Mem
  imports Mantids_Prelude
begin

text \<open>
  \<open>Helpers/mem.{h,cpp}\<close>: the case-folding comparison table and the memory primitives
  (\<open>icharcmp\<close>, \<open>memcmp64\<close>, \<open>memicmp2\<close>, \<open>memcpy64\<close>) and the growing
  \<open>BinaryDataContainer\<close>. Memory regions are byte lists; \<open>memcpy64\<close> carries a bounds check
  on both regions, so an access outside them is an error value.
\<close>

section \<open>Comparison\<close>

text \<open>The 256-entry table \<open>m_cmpMatrix\<close>: the identity, but the upper-case letters 65..90 hold the
  codes 97..122.\<close>

definition m_cmpMatrix :: "nat list" where
  "m_cmpMatrix = [0..<65] @ [97..<123] @ [91..<256]"

definition icharcmp :: "char \<Rightarrow> char \<Rightarrow> bool" where
  "icharcmp c1 c2 \<longleftrightarrow> m_cmpMatrix ! byte_of c1 = m_cmpMatrix ! byte_of c2"

text \<open>\<open>memcmp\<close> of the C library: the sign of the first difference of two equally long regions.\<close>

fun memcmp :: "bytes \<Rightarrow> bytes \<Rightarrow> int" where
  "memcmp (x # xs) (y # ys) =
     (if x = y then memcmp xs ys else int (byte_of x) - int (byte_of y))"
| "memcmp _ _ = 0"

abbreviation mem_block :: nat where "mem_block \<equiv> 65536"

function memcmp64_loop :: "bytes \<Rightarrow> bytes \<Rightarrow> nat \<Rightarrow> nat \<Rightarrow> int" where
  "memcmp64_loop s1 s2 offset numBytes =
     (if offset < numBytes then
        (let currentBlock = min (numBytes - offset) mem_block;
             result = memcmp (take currentBlock (drop offset s1)) (take currentBlock (drop offset s2))
         in if result \<noteq> 0 then result else memcmp64_loop s1 s2 (offset + mem_block) numBytes)
      else 0)"
  by pat_completeness auto
termination
  by (relation "measure (\<lambda>(s1, s2, offset, numBytes). numBytes - offset)") auto

declare memcmp64_loop.simps [simp del]

definition memcmp64 :: "bytes \<Rightarrow> bytes \<Rightarrow> nat \<Rightarrow> int" where
  "memcmp64 s1 s2 numBytes = memcmp64_loop s1 s2 0 numBytes"

fun memicmp_loop :: "bytes \<Rightarrow> bytes \<Rightarrow> int" where
  "memicmp_loop (x # xs) (y # ys) = (if \<not> icharcmp x y then - 1 else memicmp_loop xs ys)"
| "memicmp_loop _ _ = 0"

definition memicmp2 :: "bytes \<Rightarrow> bytes \<Rightarrow> nat \<Rightarrow> bool \<Rightarrow> int" where
  "memicmp2 s1 s2 numBytes caseSensitive =
     (if caseSensitive then memcmp64 s1 s2 numBytes
      else memicmp_loop (take numBytes s1) (take numBytes s2))"

text \<open>\<open>memchr\<close> of the C library: the position of the first occurrence.\<close>

fun memchr :: "char \<Rightarrow> bytes \<Rightarrow> nat option" where
  "memchr c [] = None"
| "memchr c (x # xs) = (if x = c then Some 0 else map_option Suc (memchr c xs))"

section \<open>Copying\<close>

datatype mem_exn = Out_of_bounds | Container_full

definition blit :: "bytes \<Rightarrow> nat \<Rightarrow> bytes \<Rightarrow> bytes" where
  "blit dest off xs = take off dest @ xs @ drop (off + length xs) dest"

lemma length_blit [simp]: "off + length xs \<le> length dest \<Longrightarrow> length (blit dest off xs) = length dest"
  by (simp add: blit_def)

function memcpy64 :: "bytes \<Rightarrow> bytes \<Rightarrow> nat \<Rightarrow> nat \<Rightarrow> mem_exn + bytes" where
  "memcpy64 dest src currentOffset numBytes =
     (if numBytes > 0 then
        (let blockSizeToCopy = min numBytes mem_block in
         if currentOffset + blockSizeToCopy > length dest \<or>
            currentOffset + blockSizeToCopy > length src then Inl Out_of_bounds
         else memcpy64
                (blit dest currentOffset (take blockSizeToCopy (drop currentOffset src))) src
                (currentOffset + blockSizeToCopy + blockSizeToCopy)
                (sub64 (sub64 numBytes blockSizeToCopy) blockSizeToCopy))
      else Inr dest)"
  by pat_completeness auto
termination
  by (relation "measure (\<lambda>(dest, src, off, n). length src - off)") auto

declare memcpy64.simps [simp del]

record bin_container =
  bdc_data :: bytes
  bdc_cur :: nat

definition BinaryDataContainer_new :: "nat \<Rightarrow> bin_container" where
  "BinaryDataContainer_new len = \<lparr>bdc_data = replicate len (char_of (0::nat)), bdc_cur = 0\<rparr>"

definition BinaryDataContainer_from :: "bytes \<Rightarrow> bin_container" where
  "BinaryDataContainer_from d = \<lparr>bdc_data = d, bdc_cur = 0\<rparr>"

definition BinaryDataContainer_push :: "bin_container \<Rightarrow> char \<Rightarrow> mem_exn + bin_container" where
  "BinaryDataContainer_push b c =
     (if bdc_cur b \<ge> length (bdc_data b) then Inl Container_full
      else Inr (b\<lparr>bdc_data := (bdc_data b)[bdc_cur b := c], bdc_cur := Suc (bdc_cur b)\<rparr>))"

section \<open>Correctness\<close>

lemma cmpMatrix_nth:
  "n < 256 \<Longrightarrow> m_cmpMatrix ! n = (if 65 \<le> n \<and> n \<le> 90 then n + 32 else n)"
  by (auto simp: m_cmpMatrix_def nth_append simp del: upt_rec_numeral)

lemma icharcmp_iff: "icharcmp c d \<longleftrightarrow> tolower c = tolower d"
proof -
  have val: "m_cmpMatrix ! byte_of x = byte_of (tolower x)" for x
    using byte_of_less [of x] by (auto simp: cmpMatrix_nth tolower_def isupper_def)
  show ?thesis by (simp add: icharcmp_def val)
qed

lemma memcmp_zero: "length xs = length ys \<Longrightarrow> memcmp xs ys = 0 \<longleftrightarrow> xs = ys"
proof (induction xs ys rule: list_induct2)
  case (Cons x xs y ys)
  then show ?case by simp
qed simp

lemma memcmp64_loop_zero:
  assumes "numBytes \<le> length s1" "numBytes \<le> length s2"
  shows "memcmp64_loop s1 s2 off numBytes = 0 \<longleftrightarrow>
    take (numBytes - off) (drop off s1) = take (numBytes - off) (drop off s2)"
  using assms
proof (induction s1 s2 off numBytes rule: memcmp64_loop.induct)
  case (1 s1 s2 off n)
  show ?case
  proof (cases "off < n")
    case False
    then show ?thesis by (simp add: memcmp64_loop.simps)
  next
    case True
    define b where "b = min (n - off) mem_block"
    define B where "B \<longleftrightarrow> take b (drop off s1) = take b (drop off s2)"
    have split: "take (n - off) (drop off s) = take b (drop off s) @ take (n - (off + mem_block)) (drop (off + mem_block) s)"
      for s :: bytes
    proof (cases "n - off \<le> mem_block")
      case True
      then show ?thesis by (simp add: b_def)
    next
      case False
      then have "b = mem_block" "n - off = mem_block + (n - (off + mem_block))" by (auto simp: b_def)
      then show ?thesis by (metis add.commute drop_drop take_add)
    qed
    have len: "length (take b (drop off s1)) = length (take b (drop off s2))"
      using 1(2,3) True by (simp add: b_def)
    have z: "memcmp (take b (drop off s1)) (take b (drop off s2)) = 0 \<longleftrightarrow> B"
      using memcmp_zero [OF len] by (simp add: B_def)
    have loop: "memcmp64_loop s1 s2 off n = 0 \<longleftrightarrow>
        B \<and> memcmp64_loop s1 s2 (off + mem_block) n = 0"
      using True z by (subst memcmp64_loop.simps) (auto simp: Let_def b_def)
    have IH: "B \<Longrightarrow> memcmp64_loop s1 s2 (off + mem_block) n = 0 \<longleftrightarrow>
        take (n - (off + mem_block)) (drop (off + mem_block) s1)
          = take (n - (off + mem_block)) (drop (off + mem_block) s2)"
      using 1(1) [OF True b_def refl] z 1(2,3) by (simp add: b_def)
    show ?thesis
      unfolding loop split using IH len by (auto simp: B_def)
  qed
qed

text \<open>The two modes of \<open>memicmp2\<close>: byte equality, and equality up to ASCII case.\<close>

lemma memicmp_loop_zero:
  "length xs = length ys \<Longrightarrow> memicmp_loop xs ys = 0 \<longleftrightarrow> map tolower xs = map tolower ys"
  by (induction xs ys rule: list_induct2) (auto simp: icharcmp_iff)

lemma memicmp2_zero:
  assumes "n \<le> length s1" "n \<le> length s2"
  shows "memicmp2 s1 s2 n cs = 0 \<longleftrightarrow>
    (if cs then take n s1 = take n s2 else map tolower (take n s1) = map tolower (take n s2))"
  using assms memcmp64_loop_zero [OF assms, of 0] memicmp_loop_zero [of "take n s1" "take n s2"]
  by (simp add: memicmp2_def memcmp64_def)

lemma memchr_None [simp]: "memchr c xs = None \<longleftrightarrow> c \<notin> set xs"
  by (induction xs) auto

lemma memchr_Some:
  "memchr c xs = Some i \<longleftrightarrow> i < length xs \<and> xs ! i = c \<and> (\<forall>j<i. xs ! j \<noteq> c)"
proof (induction xs arbitrary: i)
  case (Cons x xs)
  then show ?case by (cases i) (auto simp: less_Suc_eq_0_disj)
qed simp

text \<open>\<open>memcpy64\<close> steps its cursor and its counter twice per block: a copy of up to one block
  between regions of exactly that size leaves the regions after the first block.\<close>

theorem memcpy64_small_overrun:
  assumes "0 < n" "n \<le> mem_block" "length dest = n" "length src = n"
  shows "memcpy64 dest src 0 n = Inl Out_of_bounds"
proof -
  have c: "sub64 (sub64 n n) n = two64 - n"
    using assms(1,2) by (simp add: sub64_def)
  have "memcpy64 dest src 0 n = memcpy64 (blit dest 0 (take n src)) src (n + n) (two64 - n)"
    using assms c by (subst memcpy64.simps) (simp add: Let_def)
  also have "\<dots> = Inl Out_of_bounds"
    using assms by (subst memcpy64.simps) (simp add: Let_def)
  finally show ?thesis .
qed

theorem memcpy64_small_overrun_witness: "memcpy64 ''abc'' ''xyz'' 0 3 = Inl Out_of_bounds"
  using memcpy64_small_overrun [of 3 "''abc''" "''xyz''"] by simp

end
