(* ===== verification/Binary_Base.thy ===== *)
theory Binary_Base
  imports Stream_Objects Helpers_Mem
begin

text \<open>
  \<open>Memory/b_base.{h,cpp}\<close>: the front end every binary container inherits. Its state is the
  record \<open>b_base\<close>, extended by each container; the pure virtual methods are the fields of
  \<open>b_ops\<close>, and each \<open>B_Base\<close> method is a function of that table. Size arguments are
  \<open>size_t\<close> values; \<open>size_max\<close> stands for \<open>std::numeric_limits<size_t>::max()\<close>. A method
  that fills a caller's buffer returns the bytes it wrote. Exhaustion of the heap is not
  modelled.

  The contracts the front end needs from a storage are the locales \<open>b_sized\<close>,
  \<open>b_storage\<close> (searching) and \<open>b_random\<close> (random access); the front end is proved
  correct against them.
\<close>

section \<open>State and virtual methods\<close>

record b_base =
  m_readOnly :: bool
  m_containerBytes :: nat
  m_maxSize :: nat
  m_fsDirectoryPath :: string
  m_fsBaseFileName :: string
  m_writeStatus :: write_status

record 's b_ops =
  v_size :: "'s \<Rightarrow> nat"
  v_append2 :: "'s \<Rightarrow> bytes \<Rightarrow> bool \<Rightarrow> nat option \<times> 's"
  v_displace2 :: "'s \<Rightarrow> nat \<Rightarrow> nat option \<times> 's"
  v_truncate2 :: "'s \<Rightarrow> nat \<Rightarrow> nat option \<times> 's"
  v_clear2 :: "'s \<Rightarrow> bool \<times> 's"
  v_copyToBuffer2 :: "'s \<Rightarrow> nat \<Rightarrow> nat \<Rightarrow> bytes option"
  v_compare2 :: "'s \<Rightarrow> bytes \<Rightarrow> bool \<Rightarrow> nat \<Rightarrow> bool"
  v_findChar :: "'s \<Rightarrow> char \<Rightarrow> nat \<Rightarrow> nat \<Rightarrow> bool \<Rightarrow> nat option"

section \<open>The front end\<close>

subsection \<open>Sizes and limits\<close>

definition B_isNull :: "'s b_ops \<Rightarrow> 's \<Rightarrow> bool" where
  "B_isNull V s \<longleftrightarrow> v_size V s = 0"

definition B_setMaxSize :: "('z b_base_scheme) \<Rightarrow> nat \<Rightarrow> 'z b_base_scheme" where
  "B_setMaxSize s v = s\<lparr>m_maxSize := v\<rparr>"

definition B_getSizeLeft :: "'z b_base_scheme b_ops \<Rightarrow> 'z b_base_scheme \<Rightarrow> nat" where
  "B_getSizeLeft V s = (if v_size V s > m_maxSize s then 0 else m_maxSize s - v_size V s)"

datatype b_exn = Reduce_below_zero | Search_outside

definition B_reduceMaxSizeBy :: "'z b_base_scheme \<Rightarrow> nat \<Rightarrow> b_exn + 'z b_base_scheme" where
  "B_reduceMaxSizeBy s v =
     (if v > m_maxSize s then Inl Reduce_below_zero
      else Inr (B_setMaxSize s (m_maxSize s - v)))"

subsection \<open>Growing and shrinking\<close>

definition B_append ::
  "'z b_base_scheme b_ops \<Rightarrow> 'z b_base_scheme \<Rightarrow> bytes \<Rightarrow> nat option \<times> 'z b_base_scheme" where
  "B_append V s data =
     (if m_readOnly s then (None, s)
      else let currentSize = v_size V s; len = length data in
        if CHECK_UINT_OVERFLOW_SUM len currentSize then (None, s)
        else if len + currentSize > m_maxSize s then (None, s)
        else if len = 0 then (None, s)
        else v_append2 V s data False)"

definition B_prepend ::
  "'z b_base_scheme b_ops \<Rightarrow> 'z b_base_scheme \<Rightarrow> bytes \<Rightarrow> nat option \<times> 'z b_base_scheme" where
  "B_prepend V s data =
     (if m_readOnly s then (None, s)
      else let currentSize = v_size V s; len = length data in
        if CHECK_UINT_OVERFLOW_SUM len currentSize then (None, s)
        else if len + currentSize > m_maxSize s then (None, s)
        else if len = 0 then (Some 0, s)
        else v_append2 V s data True)"

definition B_displace :: "'s b_ops \<Rightarrow> 's \<Rightarrow> nat \<Rightarrow> nat option \<times> 's" where
  "B_displace V s n = v_displace2 V s (min n (v_size V s))"

definition B_truncate :: "'s b_ops \<Rightarrow> 's \<Rightarrow> nat \<Rightarrow> nat option \<times> 's" where
  "B_truncate V s n = (if n \<ge> v_size V s then (None, s) else v_truncate2 V s n)"

definition B_clear0 :: "'z b_base_scheme \<Rightarrow> 'z b_base_scheme" where
  "B_clear0 s = s\<lparr>m_containerBytes := 0, m_fsDirectoryPath := ''/tmp'',
     m_fsBaseFileName := ''BinaryContainer-''\<rparr>"

definition B_clear :: "'z b_base_scheme b_ops \<Rightarrow> 'z b_base_scheme \<Rightarrow> bool \<times> 'z b_base_scheme" where
  "B_clear V s = v_clear2 V (B_clear0 s)"

subsection \<open>Copying out\<close>

definition B_copyOut :: "'s b_ops \<Rightarrow> 's \<Rightarrow> nat \<Rightarrow> nat \<Rightarrow> bytes option" where
  "B_copyOut V s bytes0 offset =
     (let currentSize = v_size V s in
      if bytes0 = size_max \<and> offset > currentSize then None
      else let bytes = (if bytes0 = size_max then currentSize - offset else bytes0) in
        if CHECK_UINT_OVERFLOW_SUM offset bytes then None
        else if bytes = 0 then Some []
        else if offset + bytes > currentSize then None
        else v_copyToBuffer2 V s bytes offset)"

definition B_copyToBuffer :: "'s b_ops \<Rightarrow> 's \<Rightarrow> bytes" where
  "B_copyToBuffer V s =
     (case B_copyOut V s (v_size V s) 0 of
        None \<Rightarrow> []
      | Some d \<Rightarrow> (if length d \<noteq> v_size V s then [] else d))"

abbreviation str_block :: nat where "str_block \<equiv> 8192"

function toString_loop :: "'s b_ops \<Rightarrow> 's \<Rightarrow> bytes \<Rightarrow> nat \<Rightarrow> nat \<Rightarrow> bytes" where
  "toString_loop V s r bytes offset =
     (if bytes \<noteq> 0 then
        (let copyBytes = min bytes str_block in
         case B_copyOut V s copyBytes offset of
           Some outBytes \<Rightarrow> toString_loop V s (r @ outBytes) (bytes - copyBytes) (add64 offset copyBytes)
         | None \<Rightarrow> r)
      else r)"
  by pat_completeness auto
termination
  by (relation "measure (\<lambda>(V, s, r, bytes, offset). bytes)") auto

declare toString_loop.simps [simp del]

definition B_toString :: "'s b_ops \<Rightarrow> 's \<Rightarrow> nat \<Rightarrow> nat \<Rightarrow> bytes option" where
  "B_toString V s bytes0 offset =
     (let currentSize = v_size V s in
      if bytes0 = size_max \<and> offset > currentSize then None
      else let bytes = (if bytes0 = size_max then currentSize - offset else bytes0) in
        if CHECK_UINT_OVERFLOW_SUM offset bytes then None
        else if bytes = 0 then Some []
        else if offset + bytes > currentSize then None
        else Some (toString_loop V s [] bytes offset))"

definition B_toStringEx :: "'s b_ops \<Rightarrow> 's \<Rightarrow> bytes" where
  "B_toStringEx V s = (case B_toString V s size_max 0 of None \<Rightarrow> [] | Some r \<Rightarrow> r)"

definition B_copyToString :: "'s b_ops \<Rightarrow> 's \<Rightarrow> bytes \<Rightarrow> nat \<Rightarrow> nat \<Rightarrow> nat option \<times> bytes" where
  "B_copyToString V s outStr bytes0 offset =
     (let currentSize = v_size V s in
      if bytes0 = size_max \<and> offset > currentSize then (None, outStr)
      else let bytes = (if bytes0 = size_max then currentSize - offset else bytes0) in
        if CHECK_UINT_OVERFLOW_SUM offset bytes then (None, outStr)
        else if bytes = 0 then (Some 0, outStr)
        else if offset + bytes > currentSize then (None, outStr)
        else let out = toString_loop V s outStr bytes offset in (Some (length out), out))"

subsection \<open>Streaming out\<close>

text \<open>\<open>copyToStreamableObject2\<close> of the container is the argument \<open>copy2\<close>: it may not return
  (\<open>None\<close>) when the sink makes no progress, may throw (\<open>Inl\<close>), or yields the count.\<close>

type_synonym 'o copy_result = "(stream_exn + (nat option \<times> 'o)) option"

definition status_error :: "'o streamable \<Rightarrow> 'o \<Rightarrow> 'o copy_result" where
  "status_error S out =
     (case ws_add (so_status S out) (- 1) of
        Inl e \<Rightarrow> Some (Inl e) | Inr w \<Rightarrow> Some (Inr (None, so_set_status S out w)))"

definition B_appendTo ::
  "('s \<Rightarrow> 'o \<Rightarrow> nat \<Rightarrow> nat \<Rightarrow> 'o copy_result) \<Rightarrow> 's b_ops \<Rightarrow> 'o streamable \<Rightarrow> 's \<Rightarrow> 'o \<Rightarrow> nat \<Rightarrow> nat \<Rightarrow>
     'o copy_result" where
  "B_appendTo copy2 V S s out bytes offset =
     (let currentSize = v_size V s in
      if bytes = size_max \<and> offset > currentSize then status_error S out
      else let bytesToCopy = (if bytes = size_max then currentSize - offset else bytes) in
        if CHECK_UINT_OVERFLOW_SUM offset bytesToCopy then status_error S out
        else if bytesToCopy = 0 then Some (Inr (Some 0, out))
        else if offset > currentSize then status_error S out
        else copy2 s out
               (if offset + bytesToCopy > currentSize then currentSize - offset else bytesToCopy)
               offset)"

definition B_streamTo ::
  "('s \<Rightarrow> 'o \<Rightarrow> nat \<Rightarrow> nat \<Rightarrow> 'o copy_result) \<Rightarrow> 's b_ops \<Rightarrow> 'o streamable \<Rightarrow> 's \<Rightarrow> 'o \<Rightarrow>
     (stream_exn + (bool \<times> 'o)) option" where
  "B_streamTo copy2 V S s out =
     (case B_appendTo copy2 V S s out size_max 0 of
        None \<Rightarrow> None
      | Some (Inl e) \<Rightarrow> Some (Inl e)
      | Some (Inr (x, out')) \<Rightarrow> Some (Inr (x \<noteq> None \<and> succeed (so_status S out'), out')))"

fun copyToStreamableObjectUsingCleanVector ::
  "'o streamable \<Rightarrow> 'o \<Rightarrow> bytes list \<Rightarrow> nat \<Rightarrow> 'o copy_result" where
  "copyToStreamableObjectUsingCleanVector S out [] dataCopied = Some (Inr (Some dataCopied, out))"
| "copyToStreamableObjectUsingCleanVector S out (ck # cks) dataCopied =
     (case writeFullStream S out ck of
        None \<Rightarrow> None
      | Some (Inl e) \<Rightarrow> Some (Inl e)
      | Some (Inr (ok, out')) \<Rightarrow>
          (if \<not> ok then Some (Inr (None, out'))
           else (case safe_add64 (length ck) dataCopied of
                   Inl e \<Rightarrow> Some (Inl e)
                 | Inr d \<Rightarrow> copyToStreamableObjectUsingCleanVector S out' cks d)))"

text \<open>The same over a \<open>std::ostream\<close>, given by its \<open>write\<close> and \<open>bad\<close>.\<close>

record 'f ostream =
  os_write :: "'f \<Rightarrow> bytes \<Rightarrow> 'f"
  os_bad :: "'f \<Rightarrow> bool"

fun copyToStreamUsingCleanVector ::
  "'f ostream \<Rightarrow> 'f \<Rightarrow> bytes list \<Rightarrow> nat \<Rightarrow> nat option \<times> 'f" where
  "copyToStreamUsingCleanVector F out [] dataCopied = (Some dataCopied, out)"
| "copyToStreamUsingCleanVector F out (ck # cks) dataCopied =
     (let out' = os_write F out ck in
      if os_bad F out' then (None, out')
      else copyToStreamUsingCleanVector F out' cks (add64 dataCopied (length ck)))"

definition B_copyToStream ::
  "('s \<Rightarrow> 'f \<Rightarrow> nat \<Rightarrow> nat \<Rightarrow> nat option \<times> 'f) \<Rightarrow> 's b_ops \<Rightarrow> 's \<Rightarrow> 'f \<Rightarrow> nat \<Rightarrow> nat \<Rightarrow>
     nat option \<times> 'f" where
  "B_copyToStream copy2 V s out bytes0 offset =
     (let currentSize = v_size V s in
      if bytes0 = size_max \<and> offset > currentSize then (None, out)
      else let bytes = (if bytes0 = size_max then currentSize - offset else bytes0) in
        if CHECK_UINT_OVERFLOW_SUM offset bytes then (None, out)
        else if bytes = 0 then (Some 0, out)
        else if offset > currentSize then (None, out)
        else copy2 s out (if offset + bytes > currentSize then currentSize - offset else bytes) offset)"

subsection \<open>Comparing and searching\<close>

text \<open>\<open>compare\<close> returns true right after its overflow test: the statements below its
  unconditional \<open>return true\<close> are unreachable, and the container is not read.\<close>

definition B_compare :: "'s b_ops \<Rightarrow> 's \<Rightarrow> bytes \<Rightarrow> bool \<Rightarrow> nat \<Rightarrow> bool" where
  "B_compare V s mem caseSensitive offset =
     (if CHECK_UINT_OVERFLOW_SUM offset (length mem) then False else True)"

definition B_compareString :: "'s b_ops \<Rightarrow> 's \<Rightarrow> bytes \<Rightarrow> bool \<Rightarrow> nat \<Rightarrow> bool" where
  "B_compareString V s cmpString caseSensitive offset =
     (if length cmpString \<noteq> v_size V s then False
      else B_compare V s cmpString caseSensitive offset)"

text \<open>The search loop. The two \<open>size_t\<close> subtractions do not wrap, because \<open>findChar\<close> answers
  inside the window it was given (law \<open>findChar_Some\<close> of \<open>b_storage\<close>).\<close>

function find_loop :: "'s b_ops \<Rightarrow> 's \<Rightarrow> bytes \<Rightarrow> bool \<Rightarrow> nat \<Rightarrow> nat \<Rightarrow> nat option" where
  "find_loop V s needle caseSensitive currentOffset searchSpace =
     (case v_findChar V s (hd needle) currentOffset searchSpace caseSensitive of
        None \<Rightarrow> None
      | Some pos \<Rightarrow>
          (let displacement = pos - currentOffset;
               currentOffset' = currentOffset + displacement;
               searchSpace' = searchSpace - displacement in
           if v_compare2 V s needle caseSensitive currentOffset' then Some currentOffset'
           else if searchSpace' = 0 then None
           else find_loop V s needle caseSensitive (currentOffset' + 1) (searchSpace' - 1)))"
  by pat_completeness auto
termination
  by (relation "measure (\<lambda>(V, s, needle, cs, off, space). space)") auto

declare find_loop.simps [simp del]

definition B_find :: "'s b_ops \<Rightarrow> 's \<Rightarrow> bytes \<Rightarrow> bool \<Rightarrow> nat \<Rightarrow> nat \<Rightarrow> nat option" where
  "B_find V s needle caseSensitive offset searchSpace0 =
     (let currentSize = v_size V s; needle_len = length needle in
      if CHECK_UINT_OVERFLOW_SUM offset needle_len then None
      else if CHECK_UINT_OVERFLOW_SUM offset searchSpace0 then None
      else if offset > currentSize then None
      else let searchSpace = (if searchSpace0 = 0 then currentSize - offset else searchSpace0) in
        if searchSpace = 0 then None
        else if searchSpace < needle_len then None
        else if needle_len = 0 then Some 0
        else find_loop V s needle caseSensitive offset searchSpace)"

fun B_findAny :: "'s b_ops \<Rightarrow> 's \<Rightarrow> bytes list \<Rightarrow> bool \<Rightarrow> nat \<Rightarrow> nat \<Rightarrow> (nat \<times> bytes) option" where
  "B_findAny V s [] caseSensitive offset searchSpace = None"
| "B_findAny V s (needle # needles) caseSensitive offset searchSpace =
     (case B_find V s needle caseSensitive offset searchSpace of
        Some f \<Rightarrow> Some (f, needle)
      | None \<Rightarrow> B_findAny V s needles caseSensitive offset searchSpace)"

subsection \<open>The container as a sink\<close>

definition B_write ::
  "'z b_base_scheme b_ops \<Rightarrow> 'z b_base_scheme \<Rightarrow> bytes \<Rightarrow> stream_exn + (nat option \<times> 'z b_base_scheme)"
where
  "B_write V s buf =
     (case B_append V s buf of (bytesAppended, s') \<Rightarrow>
        (case ws_add (m_writeStatus s')
                (case bytesAppended of Some n \<Rightarrow> ssize_of n | None \<Rightarrow> - 1) of
           Inl e \<Rightarrow> Inl e
         | Inr w \<Rightarrow> Inr (bytesAppended, s'\<lparr>m_writeStatus := w\<rparr>)))"

definition B_sink :: "'z b_base_scheme b_ops \<Rightarrow> 'z b_base_scheme streamable" where
  "B_sink V = \<lparr>so_write = (\<lambda>s buf. Some (B_write V s buf)), so_status = m_writeStatus,
     so_set_status = (\<lambda>s w. s\<lparr>m_writeStatus := w\<rparr>)\<rparr>"

subsection \<open>Extraction up to a needle\<close>

definition B_copyUntil ::
  "('s \<Rightarrow> 'o \<Rightarrow> nat \<Rightarrow> nat \<Rightarrow> 'o copy_result) \<Rightarrow> 's b_ops \<Rightarrow> 'o streamable \<Rightarrow> 's \<Rightarrow> 'o \<Rightarrow>
     bytes \<Rightarrow> nat \<Rightarrow> bool \<Rightarrow> (stream_exn + (int \<times> 'o)) option" where
  "B_copyUntil copy2 V S s dest needle maxCopySize removeNeedle =
     (case B_find V s needle False 0 maxCopySize of
        None \<Rightarrow> Some (Inr (- 1, dest))
      | Some needlePos \<Rightarrow>
          (if CHECK_UINT_OVERFLOW_SUM needlePos (length needle) then Some (Inr (- 1, dest))
           else let n = (if removeNeedle then needlePos else needlePos + length needle) in
             if n > maxCopySize then Some (Inr (- 2, dest))
             else (case B_appendTo copy2 V S s dest n 0 of
                     None \<Rightarrow> None
                   | Some (Inl e) \<Rightarrow> Some (Inl e)
                   | Some (Inr (_, dest')) \<Rightarrow> Some (Inr (0, dest')))))"

definition B_displaceUntil ::
  "('s \<Rightarrow> 'o \<Rightarrow> nat \<Rightarrow> nat \<Rightarrow> 'o copy_result) \<Rightarrow> 's b_ops \<Rightarrow> 'o streamable \<Rightarrow> ('o \<Rightarrow> nat) \<Rightarrow> 's \<Rightarrow> 'o \<Rightarrow>
     bytes \<Rightarrow> nat \<Rightarrow> bool \<Rightarrow> (stream_exn + (int \<times> 's \<times> 'o)) option" where
  "B_displaceUntil copy2 V S dsize s dest needle maxCopySize removeNeedle =
     (case B_copyUntil copy2 V S s dest needle maxCopySize removeNeedle of
        None \<Rightarrow> None
      | Some (Inl e) \<Rightarrow> Some (Inl e)
      | Some (Inr (retr, dest')) \<Rightarrow>
          (if retr < 0 then Some (Inr (retr, s, dest'))
           else Some (Inr (0, snd (B_displace V s
                  (add64 (dsize dest') (if removeNeedle then length needle else 0))), dest'))))"

fun B_displaceUntilAny ::
  "('s \<Rightarrow> 'o \<Rightarrow> nat \<Rightarrow> nat \<Rightarrow> 'o copy_result) \<Rightarrow> 's b_ops \<Rightarrow> 'o streamable \<Rightarrow> ('o \<Rightarrow> nat) \<Rightarrow> 's \<Rightarrow> 'o \<Rightarrow>
     bytes list \<Rightarrow> nat \<Rightarrow> bool \<Rightarrow> (stream_exn + (int \<times> 's \<times> 'o)) option" where
  "B_displaceUntilAny copy2 V S dsize s dest [] maxCopySize removeNeedle = Some (Inr (- 1, s, dest))"
| "B_displaceUntilAny copy2 V S dsize s dest (needle # needles) maxCopySize removeNeedle =
     (case B_displaceUntil copy2 V S dsize s dest needle maxCopySize removeNeedle of
        None \<Rightarrow> None
      | Some (Inl e) \<Rightarrow> Some (Inl e)
      | Some (Inr (r, s', dest')) \<Rightarrow>
          (if r = 0 then Some (Inr (0, s', dest'))
           else B_displaceUntilAny copy2 V S dsize s' dest' needles maxCopySize removeNeedle))"

section \<open>Contracts of a storage\<close>

text \<open>Every storage has an abstract content whose length is its size.\<close>

locale b_sized =
  fixes V :: "'s b_ops"
    and content :: "'s \<Rightarrow> bytes"
    and invar :: "'s \<Rightarrow> bool"
  assumes size_content: "invar s \<Longrightarrow> v_size V s = length (content s)"
    and content_bound: "invar s \<Longrightarrow> length (content s) < two64"

text \<open>Searching: \<open>compare2\<close> compares inside the content, and a case-sensitive \<open>findChar\<close> skips no occurrence of its
  character (it may stop earlier, at the other case of a letter).\<close>

locale b_storage = b_sized +
  assumes compare2_iff: "invar s \<Longrightarrow> xs \<noteq> [] \<Longrightarrow> off < two64 \<Longrightarrow> off + length xs < two64 \<Longrightarrow>
      v_compare2 V s xs True off \<longleftrightarrow> occurs_at xs (content s) off"
    and findChar_Some: "invar s \<Longrightarrow> off + sp = length (content s) \<Longrightarrow>
      v_findChar V s c off sp True = Some p \<Longrightarrow>
      off \<le> p \<and> p < off + sp \<and> (\<forall>j. off \<le> j \<and> j < p \<longrightarrow> content s ! j \<noteq> c)"
    and findChar_None: "invar s \<Longrightarrow> off + sp = length (content s) \<Longrightarrow>
      v_findChar V s c off sp True = None \<Longrightarrow>
      (\<forall>j. off \<le> j \<and> j < off + sp \<longrightarrow> content s ! j \<noteq> c)"
begin

lemma no_char_no_occurrence:
  assumes "xs \<noteq> []" and "content s ! j \<noteq> hd xs"
  shows "\<not> occurs_at xs (content s) j"
proof
  assume "occurs_at xs (content s) j"
  then obtain as bs where "content s = as @ xs @ bs" "length as = j"
    by (auto simp: occurs_at_split)
  then have "content s ! j = hd xs"
    using assms(1) by (cases xs) (auto simp: nth_append)
  with assms(2) show False by simp
qed

lemma find_loop_correct:
  assumes "invar s" "needle \<noteq> []" "off + sp = length (content s)" "length needle < two64 - length (content s)"
  shows "(case find_loop V s needle True off sp of
      None \<Rightarrow> (\<forall>j\<ge>off. \<not> occurs_at needle (content s) j)
    | Some i \<Rightarrow> off \<le> i \<and> occurs_at needle (content s) i \<and>
        (\<forall>j. off \<le> j \<and> j < i \<longrightarrow> \<not> occurs_at needle (content s) j))"
  using assms(3)
proof (induction sp arbitrary: off rule: less_induct)
  case (less sp)
  let ?occ = "occurs_at needle (content s)"
  have beyond: "\<not> ?occ j" if "length (content s) \<le> j" for j
    using that assms(2) by (cases needle) (auto simp: occurs_at_def)
  show ?case
  proof (cases "v_findChar V s (hd needle) off sp True")
    case None
    have "\<not> ?occ j" if "off \<le> j" for j
    proof (cases "j < off + sp")
      case True
      then show ?thesis
        using findChar_None [OF assms(1) _ None] less.prems that no_char_no_occurrence [OF assms(2)]
        by auto
    qed (use beyond less.prems in auto)
    then show ?thesis using None by (subst find_loop.simps) auto
  next
    case (Some p)
    have p: "off \<le> p" "p < off + sp" and
      before: "\<And>j. off \<le> j \<Longrightarrow> j < p \<Longrightarrow> \<not> ?occ j"
      using findChar_Some [OF assms(1) _ Some] less.prems no_char_no_occurrence [OF assms(2)] by auto
    have cmp: "v_compare2 V s needle True p \<longleftrightarrow> ?occ p"
      using p less.prems assms(4) content_bound [OF assms(1)]
      by (intro compare2_iff assms) auto
    have unf: "find_loop V s needle True off sp =
        (if ?occ p then Some p else find_loop V s needle True (p + 1) (sp - (p - off) - 1))"
      using Some p cmp by (subst find_loop.simps) (simp add: Let_def)
    show ?thesis
    proof (cases "?occ p")
      case True
      then show ?thesis using unf p before by auto
    next
      case False
      have "sp - (p - off) - 1 < sp" "p + 1 + (sp - (p - off) - 1) = length (content s)"
        using p less.prems by auto
      note IH = less.IH [OF this]
      have skip: "\<not> ?occ j" if "off \<le> j" "j \<le> p" for j
        using that before False by (cases "j = p") auto
      show ?thesis
      proof (cases "find_loop V s needle True (p + 1) (sp - (p - off) - 1)")
        case None
        with IH have "\<not> ?occ j" if "p + 1 \<le> j" for j using that by simp
        then have "\<not> ?occ j" if "off \<le> j" for j using that skip by (cases "j \<le> p") auto
        then show ?thesis using unf False None by simp
      next
        case (Some i)
        with IH have i: "p + 1 \<le> i" "?occ i" "\<And>j. p + 1 \<le> j \<Longrightarrow> j < i \<Longrightarrow> \<not> ?occ j" by auto
        then have "\<not> ?occ j" if "off \<le> j" "j < i" for j using that skip by (cases "j \<le> p") auto
        then show ?thesis using unf False Some i p by simp
      qed
    qed
  qed
qed

text \<open>The whole-container search is the reference search.\<close>

lemma find_whole:
  assumes "invar s" "needle \<noteq> []" "length needle < two64 - length (content s)"
  shows "B_find V s needle True 0 0 = find_sub needle (content s)"
proof (cases "length (content s) < length needle")
  case True
  then have "find_sub needle (content s) = None"
    by (auto simp: find_sub_None_iff occurs_at_def)
  moreover have "B_find V s needle True 0 0 = None"
    using True assms content_bound [OF assms(1)]
    by (auto simp: B_find_def Let_def size_content overflow_sum_iff)
  ultimately show ?thesis by simp
next
  case False
  then have ne: "content s \<noteq> []" using assms(2) by (cases "content s") auto
  have "B_find V s needle True 0 0 = find_loop V s needle True 0 (length (content s))"
    using False ne assms content_bound [OF assms(1)]
    by (auto simp: B_find_def Let_def size_content overflow_sum_iff)
  moreover have "find_sub needle (content s) = find_loop V s needle True 0 (length (content s))"
    using find_loop_correct [OF assms(1,2) _ assms(3), of 0 "length (content s)"]
    by (cases "find_loop V s needle True 0 (length (content s))")
      (simp_all add: find_sub_None_iff find_sub_Some_iff first_at_def)
  ultimately show ?thesis by simp
qed

end

text \<open>Random access: a copy of a range inside the content is that range.\<close>

locale b_random = b_sized +
  assumes copyToBuffer2_slice: "invar s \<Longrightarrow> 0 < n \<Longrightarrow> off + n \<le> length (content s) \<Longrightarrow>
      v_copyToBuffer2 V s n off = Some (take n (drop off (content s)))"
begin

lemma copyOut_slice:
  assumes "invar s" "off + n \<le> length (content s)"
  shows "B_copyOut V s n off = Some (take n (drop off (content s)))"
proof -
  have "off = 0 \<and> length (content s) = n" if "n = size_max"
    using that assms(2) content_bound [OF assms(1)] by (simp add: size_max_def)
  then show ?thesis
    using assms content_bound [OF assms(1)] copyToBuffer2_slice [OF assms(1), of n off]
    by (cases "n = size_max") (auto simp: B_copyOut_def Let_def size_content overflow_sum_iff)
qed

lemma copyOut_beyond:
  assumes "invar s" "length (content s) < off + n" "n \<noteq> size_max" "n < two64" "off < two64" "n \<noteq> 0"
  shows "B_copyOut V s n off = None"
  using assms content_bound [OF assms(1)]
  by (auto simp: B_copyOut_def Let_def size_content overflow_sum_iff)

lemma toString_loop_slice:
  assumes "invar s" "off + n \<le> length (content s)"
  shows "toString_loop V s r n off = r @ take n (drop off (content s))"
  using assms(2)
proof (induction n arbitrary: r off rule: less_induct)
  case (less n)
  show ?case
  proof (cases "n = 0")
    case True
    then show ?thesis by (simp add: toString_loop.simps)
  next
    case False
    define k where "k = min n str_block"
    have k: "0 < k" "k \<le> n" "k \<noteq> size_max" using False by (auto simp: k_def size_max_def)
    have out: "B_copyOut V s k off = Some (take k (drop off (content s)))"
      using copyOut_slice [OF assms(1), of off k] k less.prems by simp
    have add: "add64 off k = off + k"
      using k less.prems content_bound [OF assms(1)] by (simp add: add64_small)
    have "toString_loop V s r n off =
        toString_loop V s (r @ take k (drop off (content s))) (n - k) (off + k)"
      using False out add by (subst toString_loop.simps) (simp add: Let_def k_def)
    also have "\<dots> = (r @ take k (drop off (content s))) @ take (n - k) (drop (off + k) (content s))"
      using k less.prems by (intro less.IH) auto
    also have "\<dots> = r @ take n (drop off (content s))"
      using k by (metis add.commute append.assoc drop_drop le_add_diff_inverse take_add)
    finally show ?thesis .
  qed
qed

lemma toStringEx_content: "invar s \<Longrightarrow> B_toStringEx V s = content s"
  using toString_loop_slice [of s 0 "length (content s)" "[]"] content_bound [of s]
  by (auto simp: B_toStringEx_def B_toString_def Let_def size_content overflow_sum_iff size_max_def)

lemma copyToBuffer_content: "invar s \<Longrightarrow> B_copyToBuffer V s = content s"
  using copyOut_slice [of s 0 "length (content s)"]
  by (simp add: B_copyToBuffer_def size_content)

end

section \<open>Streaming into a sink that honours its contract\<close>

context sink
begin

lemma copyVector_total:
  assumes "ready out n" "sum_list (map length cks) \<le> n" "d + sum_list (map length cks) < two64"
  shows "\<exists>out'. copyToStreamableObjectUsingCleanVector S out cks d =
      Some (Inr (Some (d + sum_list (map length cks)), out')) \<and>
    content out' = content out @ concat cks \<and> ready out' (n - sum_list (map length cks))"
  using assms
proof (induction cks arbitrary: out n d)
  case Nil
  then show ?case by auto
next
  case (Cons ck cks)
  obtain o1 where o1: "writeFullStream S out ck = Some (Inr (True, o1))"
    "content o1 = content out @ ck" "ready o1 (n - length ck)"
    using writeFullStream_total [of ck out n] Cons.prems by auto
  have add: "safe_add64 (length ck) d = Inr (length ck + d)"
    using Cons.prems(3) by (simp add: safe_add64_eq)
  obtain o2 where "copyToStreamableObjectUsingCleanVector S o1 cks (length ck + d) =
      Some (Inr (Some (length ck + d + sum_list (map length cks)), o2))"
    "content o2 = content o1 @ concat cks" "ready o2 (n - length ck - sum_list (map length cks))"
    using Cons.IH [OF o1(3), of "length ck + d"] Cons.prems by (auto simp: le_diff_conv2)
  then show ?case using o1 add by (auto simp: add.commute add.left_commute)
qed

end

end
