(* ===== verification/Binary_Chunks.thy ===== *)
theory Binary_Chunks
  imports Binary_Base
begin

text \<open>
  \<open>Memory/b_chunk.h\<close> and \<open>Memory/b_chunks.{h,cpp}\<close>: the chunked container behind every
  parser buffer. A chunk is its bytes and its recorded absolute offset; the container is the
  vector of chunks plus the limits, and the virtual methods of \<open>B_Base\<close> are modelled with
  every branch. The file-backed container that takes over above a size threshold is a value of
  a type parameter with its \<open>B_Base\<close> interface in \<open>mmap_ops\<close>; with the default threshold
  0 it is never created.

  The content of a container is the concatenation of its chunks. \<open>chunks_wf\<close> says the byte
  counter agrees with it and no chunk is empty; \<open>chunks_ok\<close> says in addition that the recorded offsets are the
  prefix sums, which the binary search needs.
\<close>

section \<open>Chunks\<close>

record chunk =
  ck_data :: bytes
  ck_offset :: nat

abbreviation ck_size :: "chunk \<Rightarrow> nat" where
  "ck_size ck \<equiv> length (ck_data ck)"

definition chunk_displace :: "chunk \<Rightarrow> nat \<Rightarrow> chunk" where
  "chunk_displace ck displLen =
     (if ck_data ck = [] then ck
      else if displLen = 0 then ck
      else if displLen \<ge> ck_size ck then ck\<lparr>ck_data := []\<rparr>
      else ck\<lparr>ck_data := drop displLen (ck_data ck)\<rparr>)"

definition chunk_truncate :: "chunk \<Rightarrow> nat \<Rightarrow> chunk" where
  "chunk_truncate ck nSize =
     (if nSize \<ge> add64 (ck_offset ck) (ck_size ck) then ck
      else if nSize = 0 \<or> nSize = ck_offset ck then ck
      else ck\<lparr>ck_data := take (sub64 nSize (ck_offset ck)) (ck_data ck)\<rparr>)"

definition nextOffset :: "chunk \<Rightarrow> nat" where
  "nextOffset ck = add64 (ck_size ck) (ck_offset ck)"

definition containsOffset :: "chunk \<Rightarrow> nat \<Rightarrow> bool" where
  "containsOffset ck l \<longleftrightarrow> l \<ge> ck_offset ck \<and> l < nextOffset ck"

definition moveToOffset :: "chunk \<Rightarrow> nat \<Rightarrow> chunk" where
  "moveToOffset ck l = \<lparr>ck_data = drop (sub64 l (ck_offset ck)) (ck_data ck), ck_offset = 0\<rparr>"

section \<open>The container\<close>

record 'm b_chunks = b_base +
  m_chunksVector :: "chunk list"
  m_maxChunkSize :: nat
  m_maxChunks :: nat
  m_maxSizeInMemory :: nat
  m_mmapContainer :: "'m option"

text \<open>The \<open>B_Base\<close> methods \<open>B_Chunks\<close> calls on its file-backed container, and
  \<open>copyToFS\<close>, which makes one from a directory, a base name and the chunks.\<close>

record 'm mmap_ops =
  mm_size :: "'m \<Rightarrow> nat"
  mm_append :: "'m \<Rightarrow> bytes \<Rightarrow> nat option \<times> 'm"
  mm_prepend :: "'m \<Rightarrow> bytes \<Rightarrow> nat option \<times> 'm"
  mm_truncate :: "'m \<Rightarrow> nat \<Rightarrow> nat option \<times> 'm"
  mm_displace :: "'m \<Rightarrow> nat \<Rightarrow> nat option \<times> 'm"
  mm_copyOut :: "'m \<Rightarrow> nat \<Rightarrow> nat \<Rightarrow> bytes option"
  mm_compare :: "'m \<Rightarrow> bytes \<Rightarrow> bool \<Rightarrow> nat \<Rightarrow> bool"
  mm_findChar :: "'m \<Rightarrow> char \<Rightarrow> nat \<Rightarrow> nat option"
  mm_copyToFS :: "string \<Rightarrow> string \<Rightarrow> bytes list \<Rightarrow> 'm option"

definition B_Chunks_new :: "'m b_chunks" where
  "B_Chunks_new = \<lparr>m_readOnly = False, m_containerBytes = 0, m_maxSize = size_max,
     m_fsDirectoryPath = ''/tmp'', m_fsBaseFileName = ''BinaryContainer-'',
     m_writeStatus = ws_init, m_chunksVector = [], m_maxChunkSize = 64 * 1024,
     m_maxChunks = 256 * 1024, m_maxSizeInMemory = 0, m_mmapContainer = None\<rparr>"

definition B_Chunks_setMaxChunks :: "'m b_chunks \<Rightarrow> nat \<Rightarrow> 'm b_chunks" where
  "B_Chunks_setMaxChunks c v =
     (if v < 4294967295 then c\<lparr>m_maxChunks := v\<rparr> else c\<lparr>m_maxChunks := 4294967295\<rparr>)"

definition B_Chunks_setMaxChunkSize :: "'m b_chunks \<Rightarrow> nat \<Rightarrow> 'm b_chunks" where
  "B_Chunks_setMaxChunkSize c v = c\<lparr>m_maxChunkSize := v\<rparr>"

definition B_Chunks_setMaxSizeInMemory :: "'m b_chunks \<Rightarrow> nat \<Rightarrow> 'm b_chunks" where
  "B_Chunks_setMaxSizeInMemory c v = c\<lparr>m_maxSizeInMemory := v\<rparr>"

definition B_Chunks_size :: "'m mmap_ops \<Rightarrow> 'm b_chunks \<Rightarrow> nat" where
  "B_Chunks_size M c = (case m_mmapContainer c of Some m \<Rightarrow> mm_size M m | None \<Rightarrow> m_containerBytes c)"

definition chunks_clearChunks :: "'m b_chunks \<Rightarrow> bool \<times> 'm b_chunks" where
  "chunks_clearChunks c = (True, c\<lparr>m_chunksVector := []\<rparr>)"

definition B_Chunks_clear2 :: "'m b_chunks \<Rightarrow> bool \<times> 'm b_chunks" where
  "B_Chunks_clear2 c = chunks_clearChunks (c\<lparr>m_mmapContainer := None\<rparr>)"

text \<open>\<open>recalcChunkOffsets\<close>: the loop variable \<open>i\<close> is set once, to the first chunk, and never
  advanced; the first chunk's offset is overwritten once per chunk of the vector.\<close>

fun recalc_loop :: "nat \<Rightarrow> nat \<Rightarrow> chunk \<Rightarrow> chunk" where
  "recalc_loop 0 currentOffset ck = ck"
| "recalc_loop (Suc n) currentOffset ck =
     (let ck' = ck\<lparr>ck_offset := currentOffset\<rparr> in recalc_loop n (nextOffset ck') ck')"

definition recalcChunkOffsets :: "chunk list \<Rightarrow> chunk list" where
  "recalcChunkOffsets cs =
     (case cs of [] \<Rightarrow> [] | ck # rest \<Rightarrow> recalc_loop (length cs) 0 ck # rest)"

subsection \<open>append2\<close>

function append2_loop :: "'m b_chunks \<Rightarrow> bytes \<Rightarrow> bool \<Rightarrow> nat \<Rightarrow> nat \<times> 'm b_chunks" where
  "append2_loop c buf prependMode appendedBytes =
     (if buf \<noteq> [] then
        (let chunkSize = min (length buf) (m_maxChunkSize c) in
         if length (m_chunksVector c) + 1 > m_maxChunks c then (appendedBytes, c)
         else
           (let vec = m_chunksVector c;
                bcc = \<lparr>ck_data = take chunkSize buf, ck_offset = 0\<rparr>;
                vec' = (if \<not> prependMode
                        then vec @ [bcc\<lparr>ck_offset := (if vec = [] then 0 else nextOffset (last vec))\<rparr>]
                        else bcc # vec)
            in append2_loop
                 (c\<lparr>m_chunksVector := vec', m_containerBytes := add64 (m_containerBytes c) chunkSize\<rparr>)
                 (drop chunkSize buf) prependMode (add64 appendedBytes chunkSize)))
      else (appendedBytes,
            if prependMode then c\<lparr>m_chunksVector := recalcChunkOffsets (m_chunksVector c)\<rparr> else c))"
  by pat_completeness auto
termination
  by (relation "measures [\<lambda>(c, buf, p, a). length buf,
        \<lambda>(c, buf, p, a). m_maxChunks c - length (m_chunksVector c)]") auto

declare append2_loop.simps [simp del]

definition B_Chunks_append2 ::
  "'m mmap_ops \<Rightarrow> 'm b_chunks \<Rightarrow> bytes \<Rightarrow> bool \<Rightarrow> nat option \<times> 'm b_chunks" where
  "B_Chunks_append2 M c buf prependMode =
     (case m_mmapContainer c of
        Some m \<Rightarrow>
          (case (if prependMode then mm_prepend M m buf else mm_append M m buf) of
             (r, m') \<Rightarrow> (r, c\<lparr>m_mmapContainer := Some m'\<rparr>))
      | None \<Rightarrow>
          (if CHECK_UINT_OVERFLOW_SUM (length buf) (B_Chunks_size M c) then (None, c)
           else if m_maxSizeInMemory c \<noteq> 0 \<and> length buf + B_Chunks_size M c > m_maxSizeInMemory c then
             (case mm_copyToFS M (m_fsDirectoryPath c) (m_fsBaseFileName c)
                     (map ck_data (m_chunksVector c)) of
                None \<Rightarrow> (None, c)
              | Some m \<Rightarrow>
                  (case (if prependMode then mm_prepend M m buf else mm_append M m buf) of
                     (r, m') \<Rightarrow> (r, (snd (chunks_clearChunks c))\<lparr>m_mmapContainer := Some m'\<rparr>)))
           else (case append2_loop c buf prependMode 0 of (n, c') \<Rightarrow> (Some n, c'))))"

subsection \<open>displace2\<close>

text \<open>The loop result: whether it ran to its end (and so reaches the recalculation), the remaining
  chunks, the byte counter and the number of bytes displaced.\<close>

fun displace_loop :: "nat \<Rightarrow> chunk list \<Rightarrow> nat \<Rightarrow> nat \<Rightarrow> bool \<times> chunk list \<times> nat \<times> nat" where
  "displace_loop 0 cs cb d = (True, cs, cb, d)"
| "displace_loop (Suc n) [] cb d = (False, [], cb, d)"
| "displace_loop (Suc n) (ck # cs) cb d =
     (if Suc n \<ge> ck_size ck
      then displace_loop (Suc n - ck_size ck) cs (sub64 cb (ck_size ck)) (d + ck_size ck)
      else (True, chunk_displace ck (Suc n) # cs, sub64 cb (Suc n), d + Suc n))"

lemma displace_loop_code [code]:
  "displace_loop n cs cb d =
     (if n = 0 then (True, cs, cb, d)
      else case cs of
        [] \<Rightarrow> (False, [], cb, d)
      | ck # cs' \<Rightarrow>
          (if n \<ge> ck_size ck
           then displace_loop (n - ck_size ck) cs' (sub64 cb (ck_size ck)) (d + ck_size ck)
           else (True, chunk_displace ck n # cs', sub64 cb n, d + n)))"
  by (cases n; cases cs) auto

definition B_Chunks_displace2 :: "'m mmap_ops \<Rightarrow> 'm b_chunks \<Rightarrow> nat \<Rightarrow> nat option \<times> 'm b_chunks" where
  "B_Chunks_displace2 M c bytesToDisplace =
     (case m_mmapContainer c of
        Some m \<Rightarrow> (case mm_displace M m bytesToDisplace of (r, m') \<Rightarrow> (r, c\<lparr>m_mmapContainer := Some m'\<rparr>))
      | None \<Rightarrow>
          (case displace_loop bytesToDisplace (m_chunksVector c) (m_containerBytes c) 0 of
             (complete, cs, cb, displaced) \<Rightarrow>
               (Some displaced,
                c\<lparr>m_chunksVector := (if complete then recalcChunkOffsets cs else cs),
                  m_containerBytes := cb\<rparr>)))"

subsection \<open>The chunk that holds an offset\<close>

text \<open>\<open>I_Chunk_GetPosForOffset\<close> after its defaulted bounds are resolved; \<open>None\<close> is
  \<open>MAX_SIZE_T\<close>. The first test restricts the recursion to positions inside the vector,
  where every call of the code stays (\<open>chunk_search_step_bounds\<close>).\<close>

definition chunk_mid :: "nat \<Rightarrow> nat \<Rightarrow> nat" where
  "chunk_mid curmin curmax =
     (if curmin = curmax then curmin
      else curmin + (curmax + 1 - curmin) div 2 - (curmax - curmin) mod 2)"

function chunk_search :: "chunk list \<Rightarrow> nat \<Rightarrow> nat \<Rightarrow> nat \<Rightarrow> nat \<Rightarrow> nat option" where
  "chunk_search cs offset curpos curmax curmin =
     (if \<not> (curmin \<le> curpos \<and> curpos \<le> curmax \<and> curmax < length cs) then None
      else if containsOffset (cs ! curpos) offset then Some curpos
      else if offset < ck_offset (cs ! curpos) then
        (if curpos = curmin then None
         else chunk_search cs offset (chunk_mid curmin (curpos - 1)) (curpos - 1) curmin)
      else
        (if curpos = curmax then None
         else chunk_search cs offset (chunk_mid (curpos + 1) curmax) curmax (curpos + 1)))"
  by pat_completeness auto
termination
  by (relation "measure (\<lambda>(cs, offset, curpos, curmax, curmin). curmax - curmin)") auto

declare chunk_search.simps [simp del]

definition I_Chunk_GetPosForOffset :: "chunk list \<Rightarrow> nat \<Rightarrow> nat option" where
  "I_Chunk_GetPosForOffset cs offset =
     (if cs = [] then None
      else chunk_search cs offset
             (if length cs = 1 then 0 else length cs div 2 - 1)
             (if length cs = 1 then 0 else length cs - 1) 0)"

subsection \<open>truncate2\<close>

definition B_Chunks_truncate2 :: "'m mmap_ops \<Rightarrow> 'm b_chunks \<Rightarrow> nat \<Rightarrow> nat option \<times> 'm b_chunks" where
  "B_Chunks_truncate2 M c n =
     (case m_mmapContainer c of
        Some m \<Rightarrow> (case mm_truncate M m n of (r, m') \<Rightarrow> (r, c\<lparr>m_mmapContainer := Some m'\<rparr>))
      | None \<Rightarrow>
          (case I_Chunk_GetPosForOffset (m_chunksVector c) n of
             None \<Rightarrow> (None, c)
           | Some ival \<Rightarrow>
               (let vec = m_chunksVector c;
                    border = (ck_offset (vec ! ival) = n);
                    ival' = (if border then sub64 ival 1 else ival);
                    vec' = (if border then vec else vec[ival := chunk_truncate (vec ! ival) n]);
                    c' = c\<lparr>m_chunksVector := take (add64 ival' 1) vec', m_containerBytes := n\<rparr>
                in (Some (B_Chunks_size M c'), c'))))"

subsection \<open>copyToBuffer2, compare2, findChar\<close>

fun copyBuf_loop :: "nat \<Rightarrow> bytes \<Rightarrow> chunk list \<Rightarrow> bytes" where
  "copyBuf_loop n d [] = (if n = 0 then [] else if n > length d then d else take n d)"
| "copyBuf_loop n d (ck # cs) =
     (if n = 0 then []
      else if n > length d then d @ copyBuf_loop (n - length d) (ck_data ck) cs
      else take n d)"

definition B_Chunks_copyToBuffer2 :: "'m mmap_ops \<Rightarrow> 'm b_chunks \<Rightarrow> nat \<Rightarrow> nat \<Rightarrow> bytes option" where
  "B_Chunks_copyToBuffer2 M c n offset =
     (case m_mmapContainer c of
        Some m \<Rightarrow> mm_copyOut M m n offset
      | None \<Rightarrow>
          (if CHECK_UINT_OVERFLOW_SUM offset n then None
           else if n = 0 then Some []
           else if offset + n > B_Chunks_size M c then None
           else (case I_Chunk_GetPosForOffset (m_chunksVector c) offset of
                   None \<Rightarrow> None
                 | Some i \<Rightarrow>
                     Some (copyBuf_loop n (ck_data (moveToOffset (m_chunksVector c ! i) offset))
                             (drop (Suc i) (m_chunksVector c))))))"

fun compare_loop :: "chunk list \<Rightarrow> nat \<Rightarrow> bytes \<Rightarrow> bool \<Rightarrow> bool" where
  "compare_loop [] offset buf caseSensitive \<longleftrightarrow> buf = []"
| "compare_loop (ck # cs) offset buf caseSensitive \<longleftrightarrow>
     (if offset > ck_size ck then compare_loop cs (offset - ck_size ck) buf caseSensitive
      else let d = drop offset (ck_data ck);
               n = min (length buf) (length d) in
        if memicmp2 d buf n caseSensitive \<noteq> 0 then False
        else if length buf - n = 0 then True
        else compare_loop cs 0 (drop n buf) caseSensitive)"

definition B_Chunks_compare2 :: "'m mmap_ops \<Rightarrow> 'm b_chunks \<Rightarrow> bytes \<Rightarrow> bool \<Rightarrow> nat \<Rightarrow> bool" where
  "B_Chunks_compare2 M c buf caseSensitive offset =
     (case m_mmapContainer c of
        Some m \<Rightarrow> mm_compare M m buf caseSensitive offset
      | None \<Rightarrow>
          (if CHECK_UINT_OVERFLOW_SUM offset (length buf) then False
           else if buf = [] then True
           else if offset + length buf > B_Chunks_size M c then False
           else compare_loop (m_chunksVector c) offset buf caseSensitive))"

text \<open>Within one chunk, the flag \<open>caseSensitive\<close> makes the search accept either case of a
  letter.\<close>

definition find_in_window :: "char \<Rightarrow> bool \<Rightarrow> bytes \<Rightarrow> nat option" where
  "find_in_window c caseSensitive w =
     (if \<not> caseSensitive then memchr c w
      else (case (memchr (toupper c) w, memchr (tolower c) w) of
              (Some u, Some l) \<Rightarrow> Some (min u l)
            | (Some u, None) \<Rightarrow> Some u
            | (None, l) \<Rightarrow> l))"

fun findChar_loop :: "chunk list \<Rightarrow> char \<Rightarrow> nat \<Rightarrow> nat \<Rightarrow> bool \<Rightarrow> nat \<Rightarrow> nat option" where
  "findChar_loop [] ch offset searchSpace caseSensitive retpos = None"
| "findChar_loop (ck # cs) ch offset searchSpace caseSensitive retpos =
     (if offset > ck_size ck
      then findChar_loop cs ch (offset - ck_size ck) searchSpace caseSensitive (retpos + ck_size ck)
      else let d = drop offset (ck_data ck) in
        case find_in_window ch caseSensitive (take (min searchSpace (length d)) d) of
          Some p \<Rightarrow> Some (offset + p + retpos)
        | None \<Rightarrow>
            (if searchSpace > length d
             then findChar_loop cs ch 0 (searchSpace - length d) caseSensitive (retpos + ck_size ck)
             else None))"

definition B_Chunks_findChar ::
  "'m mmap_ops \<Rightarrow> 'm b_chunks \<Rightarrow> char \<Rightarrow> nat \<Rightarrow> nat \<Rightarrow> bool \<Rightarrow> nat option" where
  "B_Chunks_findChar M c ch offset searchSpace caseSensitive0 =
     (let caseSensitive = (caseSensitive0 \<and> isalpha ch) in
      case m_mmapContainer c of
        Some m \<Rightarrow> mm_findChar M m ch offset
      | None \<Rightarrow>
          (if CHECK_UINT_OVERFLOW_SUM offset searchSpace then None
           else if offset > B_Chunks_size M c \<or> offset + searchSpace > B_Chunks_size M c then None
           else findChar_loop (m_chunksVector c) ch offset searchSpace caseSensitive 0))"

definition chunks_ops :: "'m mmap_ops \<Rightarrow> 'm b_chunks b_ops" where
  "chunks_ops M = \<lparr>v_size = B_Chunks_size M, v_append2 = B_Chunks_append2 M,
     v_displace2 = B_Chunks_displace2 M, v_truncate2 = B_Chunks_truncate2 M,
     v_clear2 = B_Chunks_clear2, v_copyToBuffer2 = B_Chunks_copyToBuffer2 M,
     v_compare2 = B_Chunks_compare2 M, v_findChar = B_Chunks_findChar M\<rparr>"

subsection \<open>Streaming out\<close>

fun slice_chunks :: "chunk list \<Rightarrow> nat \<Rightarrow> nat \<Rightarrow> bytes list" where
  "slice_chunks [] offset dataToCopy = []"
| "slice_chunks (ck # cs) offset dataToCopy =
     (if offset > ck_size ck then slice_chunks cs (offset - ck_size ck) dataToCopy
      else let d = drop offset (ck_data ck); m = min dataToCopy (length d) in
        take m d # (if dataToCopy - m = 0 then [] else slice_chunks cs 0 (dataToCopy - m)))"

definition B_Chunks_copyToStreamableObject2 ::
  "'m mmap_ops \<Rightarrow> ('m \<Rightarrow> 'o \<Rightarrow> nat \<Rightarrow> nat \<Rightarrow> 'o copy_result) \<Rightarrow> 'o streamable \<Rightarrow> 'm b_chunks \<Rightarrow> 'o \<Rightarrow>
     nat \<Rightarrow> nat \<Rightarrow> 'o copy_result" where
  "B_Chunks_copyToStreamableObject2 M mm_appendTo S c out bytes0 offset =
     (case m_mmapContainer c of
        Some m \<Rightarrow> mm_appendTo m out bytes0 offset
      | None \<Rightarrow>
          (if bytes0 = 0 then Some (Inr (Some 0, out))
           else if CHECK_UINT_OVERFLOW_SUM offset bytes0 then Some (Inr (None, out))
           else if offset > B_Chunks_size M c then Some (Inr (None, out))
           else copyToStreamableObjectUsingCleanVector S out
                  (slice_chunks (m_chunksVector c) offset
                     (if offset + bytes0 > B_Chunks_size M c then B_Chunks_size M c - offset
                      else bytes0)) 0))"

definition B_Chunks_copyToStream2 ::
  "'m mmap_ops \<Rightarrow> ('m \<Rightarrow> 'f \<Rightarrow> nat \<Rightarrow> nat \<Rightarrow> nat option \<times> 'f) \<Rightarrow> 'f ostream \<Rightarrow> 'm b_chunks \<Rightarrow> 'f \<Rightarrow>
     nat \<Rightarrow> nat \<Rightarrow> nat option \<times> 'f" where
  "B_Chunks_copyToStream2 M mm_copyToStream F c out bytes0 offset =
     (case m_mmapContainer c of
        Some m \<Rightarrow> mm_copyToStream m out bytes0 offset
      | None \<Rightarrow>
          (if bytes0 = 0 then (Some 0, out)
           else if CHECK_UINT_OVERFLOW_SUM offset bytes0 then (None, out)
           else if offset > B_Chunks_size M c then (None, out)
           else copyToStreamUsingCleanVector F out
                  (slice_chunks (m_chunksVector c) offset
                     (if offset + bytes0 > B_Chunks_size M c then B_Chunks_size M c - offset
                      else bytes0)) 0))"

section \<open>Abstraction and invariants\<close>

abbreviation chunks_data :: "chunk list \<Rightarrow> bytes" where
  "chunks_data cs \<equiv> concat (map ck_data cs)"

definition chunks_content :: "'m b_chunks \<Rightarrow> bytes" where
  "chunks_content c = chunks_data (m_chunksVector c)"

definition chunks_wf :: "'m b_chunks \<Rightarrow> bool" where
  "chunks_wf c \<longleftrightarrow> m_mmapContainer c = None \<and> m_maxSizeInMemory c = 0 \<and>
     m_containerBytes c = length (chunks_content c) \<and> length (chunks_content c) < two64 \<and>
     (\<forall>ck\<in>set (m_chunksVector c). ck_data ck \<noteq> [])"

fun offsets_from :: "nat \<Rightarrow> chunk list \<Rightarrow> bool" where
  "offsets_from k [] = True"
| "offsets_from k (ck # cs) \<longleftrightarrow> ck_offset ck = k \<and> offsets_from (k + ck_size ck) cs"

definition chunks_ok :: "'m b_chunks \<Rightarrow> bool" where
  "chunks_ok c \<longleftrightarrow> chunks_wf c \<and> offsets_from 0 (m_chunksVector c)"

lemma chunks_ok_wf: "chunks_ok c \<Longrightarrow> chunks_wf c"
  by (simp add: chunks_ok_def)

lemma chunks_size: "chunks_wf c \<Longrightarrow> B_Chunks_size M c = length (chunks_content c)"
  by (simp add: chunks_wf_def B_Chunks_size_def)

lemma chunks_ok_new: "chunks_ok B_Chunks_new"
  by (simp add: chunks_ok_def chunks_wf_def chunks_content_def B_Chunks_new_def)

lemma chunks_content_new [simp]: "chunks_content B_Chunks_new = []"
  by (simp add: chunks_content_def B_Chunks_new_def)

lemma offsets_from_append:
  "offsets_from k (xs @ ys) \<longleftrightarrow> offsets_from k xs \<and> offsets_from (k + length (chunks_data xs)) ys"
  by (induction xs arbitrary: k) (auto simp: add.assoc)

lemma offsets_from_nth:
  "offsets_from k cs \<Longrightarrow> i < length cs \<Longrightarrow>
     ck_offset (cs ! i) = k + length (chunks_data (take i cs))"
proof (induction cs arbitrary: k i)
  case (Cons ck cs)
  then show ?case by (cases i) auto
qed simp

lemma offsets_from_take: "offsets_from k cs \<Longrightarrow> offsets_from k (take i cs)"
  by (metis append_take_drop_id offsets_from_append)

lemma length_data_take_Suc:
  "i < length cs \<Longrightarrow> length (chunks_data (take (Suc i) cs)) = length (chunks_data (take i cs)) + ck_size (cs ! i)"
  by (simp add: take_Suc_conv_app_nth)

lemma chunks_data_split:
  "i < length cs \<Longrightarrow> chunks_data cs = chunks_data (take i cs) @ ck_data (cs ! i) @ chunks_data (drop (Suc i) cs)"
  by (metis concat.simps(2) concat_append id_take_nth_drop list.map(2) map_append)

lemma length_data_take_mono:
  "i \<le> j \<Longrightarrow> length (chunks_data (take i cs)) \<le> length (chunks_data (take j cs))"
  by (metis concat_append le_add1 le_iff_add length_append map_append take_add)

lemma length_data_take_le: "length (chunks_data (take i cs)) \<le> length (chunks_data cs)"
  by (metis append_take_drop_id concat_append le_add1 length_append map_append)

section \<open>Growing\<close>

text \<open>What a run of the append loop adds: the new chunks \<open>cs'\<close> hold the first \<open>k\<close> bytes of the
  data, they continue the offsets when these are right, and fewer than all bytes are taken only when the chunk limit is
  reached.\<close>

definition appended :: "'m b_chunks \<Rightarrow> bytes \<Rightarrow> nat \<Rightarrow> chunk list \<Rightarrow> bool" where
  "appended c buf k cs' \<longleftrightarrow>
     k \<le> length buf \<and> chunks_data cs' = take k buf
     \<and> (k < length buf \<longrightarrow> m_maxChunks c \<le> length (m_chunksVector c) + length cs')
     \<and> (offsets_from 0 (m_chunksVector c) \<longrightarrow> offsets_from 0 (m_chunksVector c @ cs'))
     \<and> (0 < m_maxChunkSize c \<longrightarrow> (\<forall>ck\<in>set cs'. ck_data ck \<noteq> [])
          \<and> m_maxChunkSize c * length cs' < k + m_maxChunkSize c)"

definition chunks_grown :: "'m b_chunks \<Rightarrow> nat \<Rightarrow> chunk list \<Rightarrow> 'm b_chunks" where
  "chunks_grown c k cs' =
     c\<lparr>m_chunksVector := m_chunksVector c @ cs', m_containerBytes := m_containerBytes c + k\<rparr>"

lemma appended_Nil:
  "buf = [] \<or> m_maxChunks c \<le> length (m_chunksVector c) \<Longrightarrow> appended c buf 0 []"
  by (auto simp: appended_def)

lemma last_chunk_offset:
  assumes "offsets_from 0 cs" "length (chunks_data cs) < two64"
  shows "(if cs = [] then 0 else nextOffset (last cs)) = length (chunks_data cs)"
proof (cases cs rule: rev_cases)
  case (snoc ys y)
  then show ?thesis using assms by (simp add: offsets_from_append nextOffset_def add64_small)
qed simp

lemma appended_Cons:
  assumes n: "n = min (length buf) (m_maxChunkSize c)" and "buf \<noteq> []"
    and ck: "ck_data ck = take n buf"
    and ofs: "offsets_from 0 (m_chunksVector c) \<Longrightarrow> ck_offset ck = length (chunks_content c)"
    and c1: "c1 = c\<lparr>m_chunksVector := m_chunksVector c @ [ck], m_containerBytes := m_containerBytes c + n\<rparr>"
    and A: "appended c1 (drop n buf) k cs'"
  shows "appended c buf (n + k) (ck # cs')"
    and "chunks_grown c1 k cs' = chunks_grown c (n + k) (ck # cs')"
proof -
  have "m_maxChunkSize c * length (ck # cs') < n + k + m_maxChunkSize c" if pos: "0 < m_maxChunkSize c"
  proof (cases "k = 0")
    case True
    then have "cs' = []" using A pos by (cases cs') (auto simp: appended_def c1)
    then show ?thesis using assms(2) pos n by (simp add: True)
  next
    case False
    then have "n = m_maxChunkSize c" using A by (auto simp: n appended_def)
    then show ?thesis using A pos by (simp add: appended_def c1)
  qed
  moreover have "ck_data ck \<noteq> []" if "0 < m_maxChunkSize c" using that assms(2) by (simp add: ck n)
  ultimately show "appended c buf (n + k) (ck # cs')"
    using A ck ofs by (auto simp: appended_def c1 n take_add offsets_from_append chunks_content_def)
  show "chunks_grown c1 k cs' = chunks_grown c (n + k) (ck # cs')"
    by (simp add: chunks_grown_def c1)
qed

lemma append2_loop_append:
  assumes "m_containerBytes c = length (chunks_content c)"
    and "length (chunks_content c) + length buf < two64" and "a + length buf < two64"
  shows "\<exists>k cs'. append2_loop c buf False a = (a + k, chunks_grown c k cs') \<and> appended c buf k cs'"
  using assms
proof (induction c buf False a rule: append2_loop.induct)
  case (1 c buf a)
  show ?case
  proof (cases "buf = [] \<or> m_maxChunks c \<le> length (m_chunksVector c)")
    case True
    then have "append2_loop c buf False a = (a + 0, chunks_grown c 0 [])"
      by (subst append2_loop.simps) (auto simp: Let_def chunks_grown_def)
    then show ?thesis using appended_Nil [OF True] by blast
  next
    case False
    define n where "n = min (length buf) (m_maxChunkSize c)"
    define ck where "ck = \<lparr>ck_data = take n buf,
        ck_offset = (if m_chunksVector c = [] then 0 else nextOffset (last (m_chunksVector c)))\<rparr>"
    define c1 where "c1 = c\<lparr>m_chunksVector := m_chunksVector c @ [ck],
        m_containerBytes := m_containerBytes c + n\<rparr>"
    have n: "n \<le> length buf" by (simp add: n_def)
    have cb: "add64 (m_containerBytes c) n = m_containerBytes c + n" "add64 a n = a + n"
      using "1.prems" n by (auto simp: add64_small)
    have unf: "append2_loop c buf False a = append2_loop c1 (drop n buf) False (a + n)"
      using False cb by (subst append2_loop.simps) (simp add: Let_def n_def c1_def ck_def)
    have "\<exists>k cs'. append2_loop c1 (drop n buf) False (a + n) = (a + n + k, chunks_grown c1 k cs')
        \<and> appended c1 (drop n buf) k cs'"
      using "1.hyps" [OF _ n_def _ refl refl refl] False "1.prems" cb n
      by (simp add: c1_def ck_def chunks_content_def not_le)
    then obtain k cs' where IH: "append2_loop c1 (drop n buf) False (a + n) = (a + n + k, chunks_grown c1 k cs')"
      "appended c1 (drop n buf) k cs'" by blast
    have off: "offsets_from 0 (m_chunksVector c) \<Longrightarrow> ck_offset ck = length (chunks_content c)"
      using last_chunk_offset [of "m_chunksVector c"] "1.prems" by (simp add: ck_def chunks_content_def)
    have "appended c buf (n + k) (ck # cs')" "chunks_grown c1 k cs' = chunks_grown c (n + k) (ck # cs')"
      using appended_Cons [OF n_def _ _ off c1_def IH(2)] False by (simp_all add: ck_def)
    then show ?thesis using unf IH(1) by (metis add.assoc)
  qed
qed

section \<open>Reading\<close>

lemma compare_loop_iff:
  "off + length buf \<le> length (chunks_data cs) \<Longrightarrow>
     compare_loop cs off buf True \<longleftrightarrow> take (length buf) (drop off (chunks_data cs)) = buf"
proof (induction cs arbitrary: off buf)
  case (Cons ck cs)
  show ?case
  proof (cases "off > ck_size ck")
    case True
    then show ?thesis using Cons.IH [of "off - ck_size ck" buf] Cons.prems by simp
  next
    case False
    define d where "d = drop off (ck_data ck)"
    define n where "n = min (length buf) (length d)"
    have dr: "drop off (chunks_data (ck # cs)) = d @ chunks_data cs" using False by (simp add: d_def)
    have cmp: "memicmp2 d buf n True = 0 \<longleftrightarrow> take n d = take n buf"
      by (subst memicmp2_zero) (auto simp: n_def)
    have IH: "compare_loop cs 0 (drop n buf) True \<longleftrightarrow>
        take (length buf - n) (chunks_data cs) = drop n buf" if "length d < length buf"
      using Cons.IH [of 0 "drop n buf"] Cons.prems False that by (simp add: n_def d_def)
    have eq: "take (length buf) (d @ chunks_data cs) = buf \<longleftrightarrow>
        take n d = take n buf \<and> take (length buf - n) (chunks_data cs) = drop n buf"
    proof (cases "length buf \<le> length d")
      case True
      then show ?thesis by (simp add: n_def)
    next
      case False
      then have "n = length d" by (simp add: n_def)
      moreover have "take (length buf) (d @ chunks_data cs) = d @ take (length buf - length d) (chunks_data cs)"
        using False by simp
      ultimately show ?thesis by (auto simp: append_eq_conv_conj)
    qed
    have "compare_loop (ck # cs) off buf True \<longleftrightarrow> take n d = take n buf \<and>
        (length buf - n = 0 \<or> compare_loop cs 0 (drop n buf) True)"
      using False cmp by (auto simp: Let_def d_def n_def)
    also have "\<dots> \<longleftrightarrow> take (length buf) (d @ chunks_data cs) = buf"
      unfolding eq using IH by (cases "length buf \<le> length d") (auto simp: n_def)
    finally show ?thesis using dr by simp
  qed
qed auto

text \<open>The per-chunk character search: it stops at the first position that matches either case when
  the flag is set, hence never past the character itself.\<close>

lemma find_in_window_Some:
  "find_in_window ch cs w = Some p \<Longrightarrow> p < length w \<and> (\<forall>j<p. w ! j \<noteq> ch)"
  unfolding find_in_window_def
  by (auto simp: memchr_Some toupper_def tolower_def islower_def isupper_def min_def
      split: if_splits option.splits)

lemma find_in_window_None: "find_in_window ch cs w = None \<Longrightarrow> ch \<notin> set w"
  unfolding find_in_window_def
  by (auto simp: toupper_def tolower_def islower_def isupper_def split: if_splits option.splits)

definition free_of :: "char \<Rightarrow> bytes \<Rightarrow> nat \<Rightarrow> nat \<Rightarrow> bool" where
  "free_of ch xs a b \<longleftrightarrow> ch \<notin> set (drop a (take b xs))"

lemma free_of_window: "free_of ch xs a (a + k) \<longleftrightarrow> ch \<notin> set (take k (drop a xs))"
  by (simp add: free_of_def take_drop add.commute)

lemma free_of_right:
  "length u \<le> a \<Longrightarrow> free_of ch (u @ v) a b \<longleftrightarrow> free_of ch v (a - length u) (b - length u)"
  by (cases "length u \<le> b") (simp_all add: free_of_def)

lemma free_of_left: "b \<le> length u \<Longrightarrow> free_of ch (u @ v) a b \<longleftrightarrow> free_of ch u a b"
  by (simp add: free_of_def)

lemma free_of_append_split:
  "a \<le> length u \<Longrightarrow> length u \<le> b \<Longrightarrow>
     free_of ch (u @ v) a b \<longleftrightarrow> free_of ch u a (length u) \<and> free_of ch v 0 (b - length u)"
  by (simp add: free_of_def)

lemma free_of_nth:
  assumes "b \<le> length xs"
  shows "free_of ch xs a b \<longleftrightarrow> (\<forall>j. a \<le> j \<and> j < b \<longrightarrow> xs ! j \<noteq> ch)"
proof
  assume f: "free_of ch xs a b"
  show "\<forall>j. a \<le> j \<and> j < b \<longrightarrow> xs ! j \<noteq> ch"
  proof (intro allI impI)
    fix j assume j: "a \<le> j \<and> j < b"
    then have "xs ! j = drop a (take b xs) ! (j - a)" "j - a < length (drop a (take b xs))"
      using assms by auto
    then show "xs ! j \<noteq> ch" using f by (metis free_of_def nth_mem)
  qed
next
  assume f: "\<forall>j. a \<le> j \<and> j < b \<longrightarrow> xs ! j \<noteq> ch"
  have "drop a (take b xs) ! i \<noteq> ch" if "i < length (drop a (take b xs))" for i
    using that f assms by simp
  then show "free_of ch xs a b" by (auto simp: free_of_def in_set_conv_nth)
qed

text \<open>The outcome of a character search of the window \<open>[off, off + sp)\<close>, reported from the base
  position \<open>ret\<close>.\<close>

definition found_in :: "char \<Rightarrow> bytes \<Rightarrow> nat \<Rightarrow> nat \<Rightarrow> nat \<Rightarrow> nat option \<Rightarrow> bool" where
  "found_in ch xs off sp ret r \<longleftrightarrow>
     (case r of Some p \<Rightarrow> ret + off \<le> p \<and> p < ret + off + sp \<and> free_of ch xs off (p - ret)
              | None \<Rightarrow> free_of ch xs off (off + sp))"

lemma find_in_window_found:
  assumes w: "w = take k (drop off xs)"
  shows "find_in_window ch fl w = Some p \<Longrightarrow> p < length w \<and> free_of ch xs off (off + p)"
    and "find_in_window ch fl w = None \<Longrightarrow> free_of ch xs off (off + length w)"
proof -
  assume "find_in_window ch fl w = Some p"
  from find_in_window_Some [OF this] have "p < length w" "ch \<notin> set (take p w)"
    by (auto simp: in_set_conv_nth)
  then show "p < length w \<and> free_of ch xs off (off + p)"
    using w by (simp add: free_of_window min_def split: if_splits)
next
  assume "find_in_window ch fl w = None"
  from find_in_window_None [OF this] show "free_of ch xs off (off + length w)"
    using w by (auto simp: free_of_window min_def split: if_splits dest: in_set_takeD)
qed

lemma findChar_loop_spec:
  assumes "off + sp \<le> length (chunks_data cs)"
  shows "found_in ch (chunks_data cs) off sp ret (findChar_loop cs ch off sp fl ret)"
  using assms
proof (induction cs arbitrary: off sp ret)
  case (Cons ck cs)
  let ?s = "ck_size ck"
  show ?case
  proof (cases "off > ?s")
    case True
    then have "off - ?s + sp \<le> length (chunks_data cs)" using Cons.prems by simp
    from Cons.IH [OF this, of "ret + ?s"] True show ?thesis
      by (auto simp: found_in_def free_of_right add.commute diff_diff_add split: option.splits)
  next
    case False
    define w where "w = take (min sp (?s - off)) (drop off (ck_data ck))"
    have w: "length w = min sp (?s - off)" by (auto simp: w_def)
    have loop: "findChar_loop (ck # cs) ch off sp fl ret =
        (case find_in_window ch fl w of
           Some p \<Rightarrow> Some (off + p + ret)
         | None \<Rightarrow> (if sp > ?s - off then findChar_loop cs ch 0 (sp - (?s - off)) fl (ret + ?s) else None))"
      using False by (simp add: Let_def w_def split: option.split)
    note fw = find_in_window_found [OF w_def, of ch fl]
    show ?thesis
    proof (cases "find_in_window ch fl w")
      case (Some p)
      then show ?thesis using fw(1) [of p] False w unfolding loop
        by (auto simp: found_in_def free_of_left add.commute)
    next
      case None
      then have here: "free_of ch (ck_data ck) off (off + length w)" using fw(2) by simp
      show ?thesis
      proof (cases "sp > ?s - off")
        case sp: True
        then have "0 + (sp - (?s - off)) \<le> length (chunks_data cs)" using Cons.prems False by simp
        from Cons.IH [OF this, of "ret + ?s"] None here sp False w show ?thesis unfolding loop
          by (auto simp: found_in_def free_of_append_split add.commute split: option.splits)
      next
        case sp: False
        then show ?thesis using None here False w unfolding loop
          by (auto simp: found_in_def free_of_left)
      qed
    qed
  qed
qed (auto simp: found_in_def free_of_def)

lemma slice_chunks_concat:
  "off + n \<le> length (chunks_data cs) \<Longrightarrow> concat (slice_chunks cs off n) = take n (drop off (chunks_data cs))"
proof (induction cs arbitrary: off n)
  case (Cons ck cs)
  show ?case
  proof (cases "off > ck_size ck")
    case True
    then show ?thesis using Cons.IH [of "off - ck_size ck" n] Cons.prems by simp
  next
    case False
    then show ?thesis
      using Cons.IH [of 0 "n - min n (ck_size ck - off)"] Cons.prems
      by (auto simp: Let_def min_def)
  qed
qed auto

lemma copyBuf_loop_take: "copyBuf_loop n d cs = take n (d @ chunks_data cs)"
  by (induction n d cs rule: copyBuf_loop.induct) auto

section \<open>The binary search\<close>

lemma chunk_mid_bounds: "a \<le> b \<Longrightarrow> a \<le> chunk_mid a b \<and> chunk_mid a b \<le> b"
proof -
  assume "a \<le> b"
  then obtain d where b: "b = a + d" by (metis le_iff_add)
  obtain k where "d = 2 * k \<or> d = 2 * k + 1" by (metis evenE oddE)
  then show ?thesis by (auto simp: chunk_mid_def b)
qed

text \<open>Every call the search makes stays inside the vector, so its first test never cuts it off.\<close>

lemma chunk_search_step_bounds:
  assumes "curmin \<le> curpos" "curpos \<le> curmax" "curmax < length cs"
  shows "curpos \<noteq> curmin \<Longrightarrow>
      curmin \<le> chunk_mid curmin (curpos - 1) \<and> chunk_mid curmin (curpos - 1) \<le> curpos - 1 \<and> curpos - 1 < length cs"
    and "curpos \<noteq> curmax \<Longrightarrow>
      curpos + 1 \<le> chunk_mid (curpos + 1) curmax \<and> chunk_mid (curpos + 1) curmax \<le> curmax \<and> curmax < length cs"
  using assms chunk_mid_bounds [of curmin "curpos - 1"] chunk_mid_bounds [of "curpos + 1" curmax]
  by auto

lemma contains_nth:
  assumes "offsets_from 0 cs" "i < length cs" "length (chunks_data cs) < two64"
  shows "containsOffset (cs ! i) off \<longleftrightarrow>
      length (chunks_data (take i cs)) \<le> off \<and> off < length (chunks_data (take (Suc i) cs))"
proof -
  have "length (chunks_data (take (Suc i) cs)) < two64"
    using length_data_take_le [of "Suc i" cs] assms(3) by simp
  then show ?thesis
    using offsets_from_nth [OF assms(1,2)] length_data_take_Suc [OF assms(2)]
    by (simp add: containsOffset_def nextOffset_def add64_small add.commute)
qed

lemma chunk_search_finds:
  assumes "offsets_from 0 cs" and "length (chunks_data cs) < two64"
    and "containsOffset (cs ! t) off" "t < length cs"
  shows "curmin \<le> t \<Longrightarrow> t \<le> curmax \<Longrightarrow> curmin \<le> curpos \<Longrightarrow> curpos \<le> curmax \<Longrightarrow>
    curmax < length cs \<Longrightarrow> \<exists>i. chunk_search cs off curpos curmax curmin = Some i \<and>
      i < length cs \<and> containsOffset (cs ! i) off"
  using assms
proof (induction cs off curpos curmax curmin rule: chunk_search.induct)
  case (1 cs off curpos curmax curmin)
  note prem = "1.prems"(1-5) and ofs = "1.prems"(6) and tot = "1.prems"(7) and t = "1.prems"(8,9)
  show ?case
  proof (cases "containsOffset (cs ! curpos) off")
    case True
    then show ?thesis using prem by (subst chunk_search.simps) auto
  next
    case False
    have ct: "length (chunks_data (take t cs)) \<le> off" "off < length (chunks_data (take (Suc t) cs))"
      using contains_nth [OF ofs t(2) tot] t(1) by auto
    have co: "ck_offset (cs ! curpos) = length (chunks_data (take curpos cs))"
      using offsets_from_nth [OF ofs, of curpos] prem by simp
    have nc: "\<not> (length (chunks_data (take curpos cs)) \<le> off \<and> off < length (chunks_data (take (Suc curpos) cs)))"
      using contains_nth [OF ofs _ tot, of curpos] False prem by simp
    have lo: "t < curpos" if "off < ck_offset (cs ! curpos)"
    proof (rule ccontr)
      assume "\<not> t < curpos"
      then show False using length_data_take_mono [of curpos t cs] ct(1) co that by simp
    qed
    have hi: "curpos < t" if "\<not> off < ck_offset (cs ! curpos)"
    proof (rule ccontr)
      assume "\<not> curpos < t"
      then have "length (chunks_data (take (Suc t) cs)) \<le> length (chunks_data (take (Suc curpos) cs))"
        by (intro length_data_take_mono) simp
      then show False using ct(2) nc co that by linarith
    qed
    show ?thesis
    proof (cases "off < ck_offset (cs ! curpos)")
      case down: True
      then have "chunk_search cs off curpos curmax curmin =
          chunk_search cs off (chunk_mid curmin (curpos - 1)) (curpos - 1) curmin"
        using False prem lo by (subst chunk_search.simps) auto
      then show ?thesis
        using "1.IH"(1) [OF _ False down _ _ _ _ _ _ ofs tot t] lo [OF down] prem chunk_mid_bounds [of curmin "curpos - 1"] by auto
    next
      case up: False
      then have "chunk_search cs off curpos curmax curmin =
          chunk_search cs off (chunk_mid (curpos + 1) curmax) curmax (curpos + 1)"
        using False prem hi by (subst chunk_search.simps) auto
      then show ?thesis
        using "1.IH"(2) [OF _ False up _ _ _ _ _ _ ofs tot t] hi [OF up] prem chunk_mid_bounds [of "curpos + 1" curmax] by auto
    qed
  qed
qed

lemma chunk_holding:
  assumes "off < length (chunks_data cs)"
  shows "\<exists>t<length cs. length (chunks_data (take t cs)) \<le> off \<and> off < length (chunks_data (take (Suc t) cs))"
proof -
  define P where "P t \<longleftrightarrow> off < length (chunks_data (take (Suc t) cs))" for t
  have "cs \<noteq> []" using assms by auto
  then have "P (length cs - 1)" using assms by (simp add: P_def)
  define t where "t = (LEAST t. P t)"
  have Pt: "P t" unfolding t_def by (rule LeastI) fact
  have le: "t \<le> length cs - 1" unfolding t_def by (rule Least_le) fact
  have "length (chunks_data (take t cs)) \<le> off"
  proof (cases t)
    case (Suc u)
    then have "\<not> P u" unfolding t_def using not_less_Least by (metis lessI)
    then show ?thesis using Suc by (simp add: P_def)
  qed simp
  then show ?thesis using Pt le \<open>cs \<noteq> []\<close> unfolding P_def
    by (metis Suc_pred' le_imp_less_Suc length_greater_0_conv)
qed

lemma GetPos_finds:
  assumes "offsets_from 0 cs" "length (chunks_data cs) < two64" "off < length (chunks_data cs)"
  shows "\<exists>i. I_Chunk_GetPosForOffset cs off = Some i \<and> i < length cs \<and>
    length (chunks_data (take i cs)) \<le> off \<and> off < length (chunks_data (take (Suc i) cs))"
proof -
  obtain t where t: "t < length cs" "containsOffset (cs ! t) off"
    using chunk_holding [OF assms(3)] contains_nth [OF assms(1) _ assms(2)] by blast
  have ne: "cs \<noteq> []" using assms(3) by auto
  note found = chunk_search_finds [OF assms(1,2) t(2,1), of 0]
  have "\<exists>i. I_Chunk_GetPosForOffset cs off = Some i \<and> i < length cs \<and> containsOffset (cs ! i) off"
  proof (cases "length cs = 1")
    case True
    then show ?thesis using found [of 0 0] t(1) ne by (simp add: I_Chunk_GetPosForOffset_def)
  next
    case False
    moreover have "length cs div 2 - 1 \<le> length cs - 1" by (simp add: diff_le_mono)
    ultimately show ?thesis using found [of "length cs - 1" "length cs div 2 - 1"] t(1) ne
      by (simp add: I_Chunk_GetPosForOffset_def)
  qed
  then show ?thesis using contains_nth [OF assms(1) _ assms(2)] by blast
qed

text \<open>An offset past the end is not found, whatever the order of the comparisons.\<close>

lemma chunk_search_sound:
  "chunk_search cs off curpos curmax curmin = Some i \<Longrightarrow> i < length cs \<and> containsOffset (cs ! i) off"
proof (induction cs off curpos curmax curmin rule: chunk_search.induct)
  case (1 cs off curpos curmax curmin)
  show ?case
  proof (cases "curmin \<le> curpos \<and> curpos \<le> curmax \<and> curmax < length cs")
    case inside: True
    note unf = "1.prems" [unfolded chunk_search.simps [of cs off curpos curmax curmin]]
    show ?thesis
    proof (cases "containsOffset (cs ! curpos) off")
      case True
      then show ?thesis using unf inside by simp
    next
      case False
      then show ?thesis using unf inside "1.IH"(1) [OF _ False] "1.IH"(2) [OF _ False]
        by (simp split: if_splits del: One_nat_def)
    qed
  next
    case False
    then show ?thesis using "1.prems" by (subst (asm) chunk_search.simps) simp
  qed
qed

lemma copyToBuffer2_ok:
  assumes "chunks_ok c" "0 < n" "off + n \<le> length (chunks_content c)"
  shows "B_Chunks_copyToBuffer2 M c n off = Some (take n (drop off (chunks_content c)))"
proof -
  let ?cs = "m_chunksVector c"
  have wf: "chunks_wf c" and ofs: "offsets_from 0 ?cs" using assms(1) by (auto simp: chunks_ok_def)
  have tot: "length (chunks_data ?cs) < two64" using wf by (simp add: chunks_wf_def chunks_content_def)
  obtain i where i: "I_Chunk_GetPosForOffset ?cs off = Some i" "i < length ?cs"
    "length (chunks_data (take i ?cs)) \<le> off" "off < length (chunks_data (take (Suc i) ?cs))"
    using GetPos_finds [OF ofs tot, of off] assms(2,3) by (auto simp: chunks_content_def)
  let ?p = "length (chunks_data (take i ?cs))"
  have "ck_offset (?cs ! i) = ?p" using offsets_from_nth [OF ofs i(2)] by simp
  moreover have "off < two64" using assms(3) tot by (simp add: chunks_content_def)
  ultimately have mv: "ck_data (moveToOffset (?cs ! i) off) = drop (off - ?p) (ck_data (?cs ! i))"
    using i(3) by (simp add: moveToOffset_def sub64_small)
  have "drop off (chunks_content c) =
      drop (off - ?p) (ck_data (?cs ! i)) @ chunks_data (drop (Suc i) ?cs)"
    using i(3,4) length_data_take_Suc [OF i(2)]
    by (subst chunks_content_def, subst chunks_data_split [OF i(2)]) simp
  then have "take n (drop off (chunks_content c)) =
      copyBuf_loop n (ck_data (moveToOffset (?cs ! i) off)) (drop (Suc i) ?cs)"
    by (simp add: copyBuf_loop_take mv)
  then show ?thesis
    using i(1) assms(2,3) wf tot
    by (auto simp: B_Chunks_copyToBuffer2_def chunks_size overflow_sum_iff chunks_wf_def chunks_content_def)
qed

section \<open>The container satisfies the storage contracts\<close>

lemma chunks_ops_sel [simp]:
  "v_size (chunks_ops M) = B_Chunks_size M" "v_append2 (chunks_ops M) = B_Chunks_append2 M"
  "v_displace2 (chunks_ops M) = B_Chunks_displace2 M" "v_truncate2 (chunks_ops M) = B_Chunks_truncate2 M"
  "v_clear2 (chunks_ops M) = B_Chunks_clear2" "v_copyToBuffer2 (chunks_ops M) = B_Chunks_copyToBuffer2 M"
  "v_compare2 (chunks_ops M) = B_Chunks_compare2 M" "v_findChar (chunks_ops M) = B_Chunks_findChar M"
  by (simp_all add: chunks_ops_def)

lemma compare2_wf:
  assumes "chunks_wf c" "xs \<noteq> []" "off < two64" "off + length xs < two64"
  shows "B_Chunks_compare2 M c xs True off \<longleftrightarrow> occurs_at xs (chunks_content c) off"
  using assms compare_loop_iff [of off xs "m_chunksVector c"]
  by (auto simp: B_Chunks_compare2_def chunks_size overflow_sum_iff occurs_at_def chunks_wf_def chunks_content_def)

lemma findChar_wf:
  assumes "chunks_wf c" "off + sp \<le> length (chunks_content c)"
  shows "found_in ch (chunks_content c) off sp 0 (B_Chunks_findChar M c ch off sp fl)"
proof -
  have "length (chunks_content c) < two64" "m_mmapContainer c = None"
    using assms(1) by (simp_all add: chunks_wf_def)
  then have "B_Chunks_findChar M c ch off sp fl =
      findChar_loop (m_chunksVector c) ch off sp (fl \<and> isalpha ch) 0"
    using assms by (auto simp: B_Chunks_findChar_def Let_def chunks_size overflow_sum_iff)
  then show ?thesis using findChar_loop_spec assms(2) by (simp add: chunks_content_def)
qed

interpretation seq: b_storage "chunks_ops M" chunks_content chunks_wf for M :: "'m mmap_ops"
proof
  fix c :: "'m b_chunks" and xs off sp p and ch :: char
  assume wf: "chunks_wf c"
  show "v_size (chunks_ops M) c = length (chunks_content c)" using wf by (simp add: chunks_size)
  show "length (chunks_content c) < two64" using wf by (simp add: chunks_wf_def)
  show "v_compare2 (chunks_ops M) c xs True off = occurs_at xs (chunks_content c) off"
    if "xs \<noteq> []" "off < two64" "off + length xs < two64"
    using compare2_wf [OF wf that] by simp
  assume b: "off + sp = length (chunks_content c)"
  note f = findChar_wf [OF wf eq_imp_le [OF b], of ch M True]
  show "off \<le> p \<and> p < off + sp \<and> (\<forall>j. off \<le> j \<and> j < p \<longrightarrow> chunks_content c ! j \<noteq> ch)"
    if "v_findChar (chunks_ops M) c ch off sp True = Some p"
    using f that b free_of_nth [of p "chunks_content c" ch off] by (simp add: found_in_def)
  show "\<forall>j. off \<le> j \<and> j < off + sp \<longrightarrow> chunks_content c ! j \<noteq> ch"
    if "v_findChar (chunks_ops M) c ch off sp True = None"
    using f that b free_of_nth [of "off + sp" "chunks_content c" ch off] by (simp add: found_in_def)
qed

interpretation ra: b_random "chunks_ops M" chunks_content chunks_ok for M :: "'m mmap_ops"
proof
  fix c :: "'m b_chunks" and off n
  assume ok: "chunks_ok c"
  note wf = chunks_ok_wf [OF ok]
  show "v_size (chunks_ops M) c = length (chunks_content c)" by (rule seq.size_content [OF wf])
  show "length (chunks_content c) < two64" by (rule seq.content_bound [OF wf])
  show "v_copyToBuffer2 (chunks_ops M) c n off = Some (take n (drop off (chunks_content c)))"
    if "0 < n" "off + n \<le> length (chunks_content c)"
    using copyToBuffer2_ok [OF ok that] by simp
qed

end
