(* ===== verification/Chunks_Container.thy ===== *)
theory Chunks_Container
  imports Binary_Chunks
begin

text \<open>
  The container \<open>B_Chunks\<close> seen through the \<open>B_Base\<close> front end: what append, prepend,
  displace, truncate, clear, find, copy and stream do to its content. The content is the
  specification: a byte string on which these operations are \<open>@\<close>, \<open>drop\<close>, \<open>take\<close> and
  the reference search.
\<close>

section \<open>Limits\<close>

text \<open>A container accepts \<open>n\<close> more bytes when its size limit and, in the worst case of one
  chunk per byte, its chunk limit leave room for them.\<close>

definition has_room :: "'m b_chunks \<Rightarrow> nat \<Rightarrow> bool" where
  "has_room c n \<longleftrightarrow> \<not> m_readOnly c \<and> 0 < m_maxChunkSize c \<and> m_maxSize c < two64 \<and>
     length (chunks_content c) + n \<le> m_maxSize c \<and> length (chunks_content c) + n \<le> m_maxChunks c"

definition same_limits :: "'m b_chunks \<Rightarrow> 'm b_chunks \<Rightarrow> bool" where
  "same_limits c c' \<longleftrightarrow> m_readOnly c' = m_readOnly c \<and> m_maxSize c' = m_maxSize c \<and>
     m_maxChunkSize c' = m_maxChunkSize c \<and> m_maxChunks c' = m_maxChunks c \<and>
     m_writeStatus c' = m_writeStatus c"

lemma same_limits_refl [simp]: "same_limits c c"
  by (simp add: same_limits_def)

lemma same_limits_trans: "same_limits a b \<Longrightarrow> same_limits b c \<Longrightarrow> same_limits a c"
  by (simp add: same_limits_def)

lemma has_room_same:
  "same_limits c c' \<Longrightarrow> has_room c n \<Longrightarrow>
     length (chunks_content c') + m \<le> length (chunks_content c) + n \<Longrightarrow> has_room c' m"
  by (auto simp: has_room_def same_limits_def)

lemma nonempty_count: "\<forall>ck\<in>set cs. ck_data ck \<noteq> [] \<Longrightarrow> length cs \<le> length (chunks_data cs)"
proof (induction cs)
  case (Cons ck cs)
  then show ?case by (cases "ck_data ck") auto
qed simp

section \<open>Append\<close>

lemma chunks_grown_content:
  assumes "appended c buf k cs'"
  shows "chunks_content (chunks_grown c k cs') = chunks_content c @ take k buf"
  using assms by (simp add: chunks_grown_def chunks_content_def appended_def)

lemma chunks_grown_wf:
  assumes "chunks_wf c" "appended c buf k cs'" "0 < m_maxChunkSize c"
    "length (chunks_content c) + length buf < two64"
  shows "chunks_wf (chunks_grown c k cs')"
  using assms chunks_grown_content [OF assms(2)]
  by (auto simp: chunks_wf_def chunks_grown_def appended_def)

lemma chunks_grown_ok:
  assumes "chunks_ok c" "appended c buf k cs'" "0 < m_maxChunkSize c"
    "length (chunks_content c) + length buf < two64"
  shows "chunks_ok (chunks_grown c k cs')"
  using assms chunks_grown_wf [OF chunks_ok_wf [OF assms(1)] assms(2-4)]
  by (simp add: chunks_ok_def appended_def) (simp add: chunks_grown_def)

lemma append2_wf:
  assumes "chunks_wf c" "length (chunks_content c) + length buf < two64"
  shows "\<exists>k cs'. B_Chunks_append2 M c buf False = (Some k, chunks_grown c k cs') \<and> appended c buf k cs'"
proof -
  obtain k cs' where "append2_loop c buf False 0 = (0 + k, chunks_grown c k cs')" "appended c buf k cs'"
    using append2_loop_append [of c buf 0] assms by (auto simp: chunks_wf_def)
  then show ?thesis using assms
    by (auto simp: B_Chunks_append2_def chunks_size overflow_sum_iff chunks_wf_def)
qed

text \<open>With room, the whole of the data is taken.\<close>

lemma appended_all:
  assumes "appended c buf k cs'" "chunks_wf c" "has_room c (length buf)"
  shows "k = length buf"
proof (rule ccontr)
  assume "k \<noteq> length buf"
  then have k: "k < length buf" using assms(1) by (simp add: appended_def)
  then have "m_maxChunks c \<le> length (m_chunksVector c) + length cs'"
    using assms(1) by (simp add: appended_def)
  also have "length (m_chunksVector c) \<le> length (chunks_content c)"
    using nonempty_count [of "m_chunksVector c"] assms(2) by (simp add: chunks_wf_def chunks_content_def)
  also have "length cs' \<le> k"
    using nonempty_count [of cs'] assms(1,3) by (auto simp: appended_def has_room_def)
  finally show False using k assms(3) by (simp add: has_room_def)
qed

lemma B_append_room:
  assumes "chunks_wf c" "has_room c (length data)" "data \<noteq> []"
  shows "\<exists>c'. B_append (chunks_ops M) c data = (Some (length data), c') \<and> chunks_wf c' \<and>
    chunks_content c' = chunks_content c @ data \<and> same_limits c c' \<and> (chunks_ok c \<longrightarrow> chunks_ok c')"
proof -
  have bnd: "length (chunks_content c) + length data < two64" and pos: "0 < m_maxChunkSize c"
    using assms(2) by (auto simp: has_room_def)
  obtain k cs' where ap: "B_Chunks_append2 M c data False = (Some k, chunks_grown c k cs')"
    "appended c data k cs'" using append2_wf [OF assms(1) bnd] by blast
  have k: "k = length data" by (rule appended_all [OF ap(2) assms(1,2)])
  have "B_append (chunks_ops M) c data = (Some (length data), chunks_grown c k cs')"
    using ap(1) assms bnd k
    by (auto simp: B_append_def Let_def chunks_size overflow_sum_iff has_room_def add.commute)
  moreover have "same_limits c (chunks_grown c k cs')" by (simp add: same_limits_def chunks_grown_def)
  ultimately show ?thesis
    using chunks_grown_wf [OF assms(1) ap(2) pos bnd] chunks_grown_ok [OF _ ap(2) pos bnd]
      chunks_grown_content [OF ap(2)] k by auto
qed

section \<open>Clear and displace\<close>

lemma B_clear_chunks:
  shows "\<exists>c'. B_clear (chunks_ops M) c = (True, c') \<and> chunks_content c' = [] \<and> same_limits c c' \<and>
    (m_maxSizeInMemory c = 0 \<longrightarrow> chunks_ok c')"
  by (simp add: B_clear_def B_clear0_def B_Chunks_clear2_def chunks_clearChunks_def chunks_content_def
      same_limits_def chunks_ok_def chunks_wf_def)

lemma recalc_loop_data [simp]: "ck_data (recalc_loop n off ck) = ck_data ck"
  by (induction n off ck rule: recalc_loop.induct) (auto simp: Let_def)

lemma recalc_data [simp]: "chunks_data (recalcChunkOffsets cs) = chunks_data cs"
  by (cases cs) (simp_all add: recalcChunkOffsets_def Let_def)

lemma recalc_nonempty [simp]:
  "(\<forall>ck\<in>set (recalcChunkOffsets cs). ck_data ck \<noteq> []) \<longleftrightarrow> (\<forall>ck\<in>set cs. ck_data ck \<noteq> [])"
  by (cases cs) (simp_all add: recalcChunkOffsets_def Let_def)

lemma recalc_short: "length cs \<le> 1 \<Longrightarrow> offsets_from 0 (recalcChunkOffsets cs)"
  by (cases cs) (auto simp: recalcChunkOffsets_def Let_def)

lemma displace_loop_drop:
  assumes "n \<le> length (chunks_data cs)" "length (chunks_data cs) \<le> cb" "cb < two64"
    "\<forall>ck\<in>set cs. ck_data ck \<noteq> []"
  shows "\<exists>cs'. displace_loop n cs cb d = (True, cs', cb - n, d + n) \<and>
    chunks_data cs' = drop n (chunks_data cs) \<and> (\<forall>ck\<in>set cs'. ck_data ck \<noteq> [])"
  using assms
proof (induction n cs cb d rule: displace_loop.induct)
  case (3 n ck cs cb d)
  have cb: "sub64 cb m = cb - m" if "m \<le> cb" for m
    using that "3.prems" by (intro sub64_small) auto
  show ?case
  proof (cases "Suc n \<ge> ck_size ck")
    case True
    then show ?thesis
      using "3.IH" [OF True] "3.prems" cb [of "ck_size ck"] by (auto simp: le_diff_conv2)
  next
    case False
    then show ?thesis using "3.prems" cb [of "Suc n"]
      by (auto simp: chunk_displace_def not_le)
  qed
qed auto

lemma B_displace_drop:
  assumes "chunks_wf c"
  shows "\<exists>c'. B_displace (chunks_ops M) c n = (Some (min n (length (chunks_content c))), c') \<and>
    chunks_wf c' \<and> chunks_content c' = drop n (chunks_content c) \<and> same_limits c c' \<and>
    (length (m_chunksVector c') \<le> 1 \<longrightarrow> chunks_ok c')"
proof -
  let ?m = "min n (length (chunks_content c))"
  have bnd: "length (chunks_content c) < two64" "m_mmapContainer c = None"
    using assms by (simp_all add: chunks_wf_def)
  obtain cs' where l: "displace_loop ?m (m_chunksVector c) (m_containerBytes c) 0 =
      (True, cs', m_containerBytes c - ?m, 0 + ?m)"
    and d: "chunks_data cs' = drop ?m (chunks_content c)" and ne: "\<forall>ck\<in>set cs'. ck_data ck \<noteq> []"
    using displace_loop_drop [of ?m "m_chunksVector c" "m_containerBytes c" 0] assms
    by (auto simp: chunks_wf_def chunks_content_def)
  define c' where "c' = c\<lparr>m_chunksVector := recalcChunkOffsets cs', m_containerBytes := m_containerBytes c - ?m\<rparr>"
  have eq: "B_displace (chunks_ops M) c n = (Some ?m, c')"
    using l bnd assms by (simp add: B_displace_def B_Chunks_displace2_def chunks_size c'_def)
  have dc: "chunks_content c' = drop n (chunks_content c)"
    using d by (cases "n \<le> length (chunks_content c)") (simp_all add: c'_def chunks_content_def)
  have wf: "chunks_wf c'" using assms ne dc by (auto simp: chunks_wf_def c'_def min_def)
  have "length (recalcChunkOffsets cs') = length cs'" by (simp add: recalcChunkOffsets_def split: list.split)
  then have "length (m_chunksVector c') \<le> 1 \<longrightarrow> chunks_ok c'"
    using wf recalc_short [of cs'] by (simp add: chunks_ok_def c'_def)
  then show ?thesis using eq wf dc by (simp add: same_limits_def c'_def)
qed

section \<open>Truncate\<close>

lemma offsets_from_take_snoc:
  assumes "offsets_from 0 cs" "i < length cs" "ck_offset ck = ck_offset (cs ! i)"
  shows "offsets_from 0 (take i cs @ [ck])"
  using assms offsets_from_take [OF assms(1)] offsets_from_nth [OF assms(1,2)]
  by (simp add: offsets_from_append)

lemma border_index: "i < two64 \<Longrightarrow> add64 (sub64 i 1) 1 = i"
  by (simp add: add64_def sub64_def mod_simps)

text \<open>The two shapes a truncation leaves: the whole chunks before a border, or those and a prefix of
  the chunk that holds the new end.\<close>

lemma truncate2_shape:
  assumes "chunks_ok c" "n < length (chunks_content c)"
  shows "\<exists>vec'. B_Chunks_truncate2 M c n = (Some n, c\<lparr>m_chunksVector := vec', m_containerBytes := n\<rparr>) \<and>
    chunks_data vec' = take n (chunks_content c) \<and> offsets_from 0 vec' \<and> (\<forall>ck\<in>set vec'. ck_data ck \<noteq> [])"
proof -
  let ?cs = "m_chunksVector c"
  have wf: "chunks_wf c" and ofs: "offsets_from 0 ?cs" using assms(1) by (auto simp: chunks_ok_def)
  have ne: "\<forall>ck\<in>set ?cs. ck_data ck \<noteq> []" and mm: "m_mmapContainer c = None"
    and tot: "length (chunks_data ?cs) < two64" using wf by (auto simp: chunks_wf_def chunks_content_def)
  obtain i where i: "I_Chunk_GetPosForOffset ?cs n = Some i" "i < length ?cs"
    "length (chunks_data (take i ?cs)) \<le> n" "n < length (chunks_data (take (Suc i) ?cs))"
    using GetPos_finds [OF ofs tot, of n] assms(2) by (auto simp: chunks_content_def)
  let ?p = "length (chunks_data (take i ?cs))" and ?ck = "?cs ! i"
  have p: "ck_offset ?ck = ?p" using offsets_from_nth [OF ofs i(2)] by simp
  have i64: "i < two64" using i(2) nonempty_count [OF ne] tot by simp
  have split: "chunks_content c = chunks_data (take i ?cs) @ ck_data ?ck @ chunks_data (drop (Suc i) ?cs)"
    using chunks_data_split [OF i(2)] by (simp add: chunks_content_def)
  note unf = B_Chunks_truncate2_def B_Chunks_size_def Let_def
  show ?thesis
  proof (cases "n = ?p")
    case True
    then have "B_Chunks_truncate2 M c n = (Some n, c\<lparr>m_chunksVector := take i ?cs, m_containerBytes := n\<rparr>)"
      using i mm p border_index [OF i64] by (simp add: unf)
    moreover have "chunks_data (take i ?cs) = take n (chunks_content c)" using True split by simp
    ultimately show ?thesis using offsets_from_take [OF ofs] ne by (blast dest: in_set_takeD)
  next
    case False
    define t where "t = ?ck\<lparr>ck_data := take (n - ?p) (ck_data ?ck)\<rparr>"
    have n: "?p < n" "n < ?p + ck_size ?ck" using False i(3,4) length_data_take_Suc [OF i(2)] by auto
    have "?p + ck_size ?ck < two64" using tot split by (simp add: chunks_content_def)
    then have t: "chunk_truncate ?ck n = t"
      using n p by (auto simp: chunk_truncate_def t_def add64_small sub64_small)
    have "i + 1 < two64" using i(2) nonempty_count [OF ne] tot by simp
    then have "B_Chunks_truncate2 M c n =
        (Some n, c\<lparr>m_chunksVector := take i ?cs @ [t], m_containerBytes := n\<rparr>)"
      using i mm p False t by (simp add: unf add64_small take_Suc_conv_app_nth)
    moreover have "chunks_data (take i ?cs @ [t]) = take n (chunks_content c)"
      using n split by (simp add: t_def)
    moreover have "offsets_from 0 (take i ?cs @ [t])"
      by (rule offsets_from_take_snoc [OF ofs i(2)]) (simp add: t_def)
    moreover have "\<forall>ck\<in>set (take i ?cs @ [t]). ck_data ck \<noteq> []"
      using ne n by (auto simp: t_def dest: in_set_takeD)
    ultimately show ?thesis by blast
  qed
qed

lemma B_truncate_take:
  assumes "chunks_ok c" "n < length (chunks_content c)"
  shows "\<exists>c'. B_truncate (chunks_ops M) c n = (Some n, c') \<and> chunks_ok c' \<and>
    chunks_content c' = take n (chunks_content c) \<and> same_limits c c'"
proof -
  obtain vec' where "B_Chunks_truncate2 M c n = (Some n, c\<lparr>m_chunksVector := vec', m_containerBytes := n\<rparr>)"
    "chunks_data vec' = take n (chunks_content c)" "offsets_from 0 vec'" "\<forall>ck\<in>set vec'. ck_data ck \<noteq> []"
    using truncate2_shape [OF assms] by blast
  then show ?thesis using assms chunks_ok_wf [OF assms(1)]
    by (auto simp: B_truncate_def chunks_size chunks_ok_def chunks_wf_def chunks_content_def same_limits_def)
qed

section \<open>Prepend\<close>

text \<open>The pieces of at most \<open>k\<close> bytes a buffer is cut into.\<close>

fun pieces :: "nat \<Rightarrow> bytes \<Rightarrow> bytes list" where
  "pieces k xs = (if k = 0 \<or> xs = [] then [] else take k xs # pieces k (drop k xs))"

declare pieces.simps [simp del]

lemma pieces_concat: "0 < k \<Longrightarrow> concat (pieces k xs) = xs"
  by (induction k xs rule: pieces.induct) (subst pieces.simps, auto)

lemma pieces_nonempty: "p \<in> set (pieces k xs) \<Longrightarrow> p \<noteq> []"
  by (induction k xs rule: pieces.induct) (subst (asm) (2) pieces.simps, auto split: if_splits)

lemma pieces_one: "xs \<noteq> [] \<Longrightarrow> length xs \<le> k \<Longrightarrow> pieces k xs = [xs]"
  by (cases "k = 0") (auto simp: pieces.simps)

lemma append2_loop_prepend:
  assumes "m_containerBytes c + length buf < two64" "a + length buf < two64"
    "0 < m_maxChunkSize c" "length (m_chunksVector c) + length buf \<le> m_maxChunks c"
  shows "append2_loop c buf True a = (a + length buf,
    c\<lparr>m_containerBytes := m_containerBytes c + length buf, m_chunksVector :=
        recalcChunkOffsets (rev (map (\<lambda>p. \<lparr>ck_data = p, ck_offset = 0\<rparr>) (pieces (m_maxChunkSize c) buf))
          @ m_chunksVector c)\<rparr>)"
  using assms
proof (induction c buf True a rule: append2_loop.induct)
  case (1 c buf a)
  show ?case
  proof (cases "buf = []")
    case True
    then show ?thesis by (subst append2_loop.simps) (simp add: pieces.simps)
  next
    case False
    define n where "n = min (length buf) (m_maxChunkSize c)"
    define c1 where "c1 = c\<lparr>m_chunksVector := \<lparr>ck_data = take n buf, ck_offset = 0\<rparr> # m_chunksVector c,
        m_containerBytes := m_containerBytes c + n\<rparr>"
    have n: "0 < n" "n \<le> length buf" using False "1.prems" by (auto simp: n_def)
    have cb: "add64 (m_containerBytes c) n = m_containerBytes c + n" "add64 a n = a + n"
      using "1.prems" n by (auto simp: add64_small)
    have lim: "\<not> m_maxChunks c < length (m_chunksVector c) + 1"
      using "1.prems"(4) n by linarith
    have unf: "append2_loop c buf True a = append2_loop c1 (drop n buf) True (a + n)"
      using False cb lim by (subst append2_loop.simps) (simp add: Let_def n_def c1_def)
    have IH: "append2_loop c1 (drop n buf) True (a + n) = (a + n + length (drop n buf),
      c1\<lparr>m_containerBytes := m_containerBytes c1 + length (drop n buf), m_chunksVector :=
        recalcChunkOffsets (rev (map (\<lambda>p. \<lparr>ck_data = p, ck_offset = 0\<rparr>) (pieces (m_maxChunkSize c1) (drop n buf)))
          @ m_chunksVector c1)\<rparr>)"
      using "1.hyps" [OF _ n_def _ refl refl refl] False "1.prems" cb n lim
      by (simp add: c1_def not_less_eq_eq)
    have pc: "pieces (m_maxChunkSize c) buf = take n buf # pieces (m_maxChunkSize c) (drop n buf)"
      using False "1.prems"(3) by (subst pieces.simps) (simp add: n_def min_def)
    show ?thesis unfolding unf IH using n by (simp add: c1_def pc)
  qed
qed

lemma B_prepend_pieces:
  assumes "chunks_wf c" "has_room c (length data)" "data \<noteq> []"
  shows "\<exists>c'. B_prepend (chunks_ops M) c data = (Some (length data), c') \<and> chunks_wf c' \<and>
    chunks_content c' = concat (rev (pieces (m_maxChunkSize c) data)) @ chunks_content c \<and> same_limits c c'"
proof -
  let ?k = "m_maxChunkSize c"
  let ?mk = "\<lambda>p. \<lparr>ck_data = p, ck_offset = 0\<rparr>"
  define vec where "vec = recalcChunkOffsets (rev (map ?mk (pieces ?k data)) @ m_chunksVector c)"
  define c' where "c' = c\<lparr>m_containerBytes := m_containerBytes c + length data, m_chunksVector := vec\<rparr>"
  have bnd: "length (chunks_content c) + length data < two64" and pos: "0 < ?k"
    and cb: "m_containerBytes c = length (chunks_content c)" and mm: "m_mmapContainer c = None" "m_maxSizeInMemory c = 0"
    using assms(1,2) by (auto simp: has_room_def chunks_wf_def)
  have cnt: "length (m_chunksVector c) \<le> length (chunks_content c)"
    using nonempty_count assms(1) by (auto simp: chunks_wf_def chunks_content_def)
  have loop: "append2_loop c data True 0 = (length data, c')"
    using append2_loop_prepend [of c data 0] assms(2) bnd cb cnt by (simp add: has_room_def c'_def vec_def)
  have dat: "chunks_content c' = concat (rev (pieces ?k data)) @ chunks_content c"
    by (simp add: chunks_content_def c'_def vec_def rev_map [symmetric] o_def)
  have len: "length (concat (rev (pieces ?k data))) = length data"
    using pieces_concat [OF pos, of data] by (metis length_concat_rev)
  have "\<forall>ck\<in>set vec. ck_data ck \<noteq> []"
    unfolding vec_def recalc_nonempty using assms(1) pieces_nonempty [of _ ?k data]
    by (auto simp: chunks_wf_def)
  then have "chunks_wf c'"
    using assms(1) dat len cb bnd by (simp add: chunks_wf_def) (simp add: c'_def)
  moreover have "B_prepend (chunks_ops M) c data = (Some (length data), c')"
    using loop assms bnd mm cb
    by (auto simp: B_prepend_def Let_def chunks_size overflow_sum_iff has_room_def add.commute
        B_Chunks_append2_def)
  ultimately show ?thesis using dat by (simp add: same_limits_def c'_def)
qed

section \<open>Streaming\<close>

text \<open>The container is a sink: what is written is appended.\<close>

definition chunks_ready :: "'m b_chunks \<Rightarrow> nat \<Rightarrow> bool" where
  "chunks_ready c n \<longleftrightarrow> chunks_wf c \<and> has_room c n \<and> succeed (m_writeStatus c) \<and>
     \<not> finished (m_writeStatus c) \<and> bytesWritten (m_writeStatus c) + n < 9223372036854775808"

lemma content_status [simp]: "chunks_content (c\<lparr>m_writeStatus := w\<rparr>) = chunks_content c"
  by (simp add: chunks_content_def)

lemma wf_status [simp]: "chunks_wf (c\<lparr>m_writeStatus := w\<rparr>) = chunks_wf c"
  by (simp add: chunks_wf_def)

lemma has_room_status [simp]: "has_room (c\<lparr>m_writeStatus := w\<rparr>) n = has_room c n"
  by (simp add: has_room_def)

lemma ok_status [simp]: "chunks_ok (c\<lparr>m_writeStatus := w\<rparr>) = chunks_ok c"
  by (simp add: chunks_ok_def)

lemma chunks_write:
  assumes r: "chunks_ready c n" and ne: "xs \<noteq> []" and le: "length xs \<le> n"
  shows "\<exists>c'. so_write (B_sink (chunks_ops M)) c xs = Some (Inr (Some (length xs), c')) \<and>
    chunks_content c' = chunks_content c @ xs \<and> chunks_ready c' (n - length xs) \<and> (chunks_ok c \<longrightarrow> chunks_ok c')"
proof -
  have wf: "chunks_wf c" and room: "has_room c (length xs)"
    using r le by (auto simp: chunks_ready_def has_room_def)
  obtain c' where c': "B_append (chunks_ops M) c xs = (Some (length xs), c')" "chunks_wf c'"
    "chunks_content c' = chunks_content c @ xs" "same_limits c c'" "chunks_ok c \<longrightarrow> chunks_ok c'"
    using B_append_room [OF wf room ne] by blast
  let ?w = "(m_writeStatus c)\<lparr>bytesWritten := bytesWritten (m_writeStatus c) + length xs\<rparr>"
  have st: "ws_add (m_writeStatus c) (ssize_of (length xs)) = Inr ?w"
    using r ne le by (intro ws_add_count) (auto simp: chunks_ready_def)
  have wr: "so_write (B_sink (chunks_ops M)) c xs = Some (Inr (Some (length xs), c'\<lparr>m_writeStatus := ?w\<rparr>))"
    using c'(1,4) st by (simp add: B_sink_def B_write_def same_limits_def)
  have "chunks_ready (c'\<lparr>m_writeStatus := ?w\<rparr>) (n - length xs)"
    using r le c' has_room_same [OF c'(4), of n "n - length xs"] by (auto simp: chunks_ready_def)
  then show ?thesis using wr c'(3,5) by (intro exI [of _ "c'\<lparr>m_writeStatus := ?w\<rparr>"]) simp
qed

interpretation csink: sink "B_sink (chunks_ops M)" chunks_content chunks_ready for M :: "'m mmap_ops"
proof
  fix c :: "'m b_chunks" and n and xs :: bytes
  assume r: "chunks_ready c n"
  then show "succeed (so_status (B_sink (chunks_ops M)) c)" by (simp add: B_sink_def chunks_ready_def)
  assume "xs \<noteq> []" "length xs \<le> n"
  with r show "\<exists>k s'. so_write (B_sink (chunks_ops M)) c xs = Some (Inr (Some k, s')) \<and> 0 < k \<and> k \<le> length xs \<and>
      succeed (so_status (B_sink (chunks_ops M)) s') \<and> chunks_content s' = chunks_content c @ take k xs \<and>
      chunks_ready s' (n - k)"
    using chunks_write [OF r, of xs M] by (auto simp: B_sink_def chunks_ready_def)
qed

text \<open>The same with sound offsets, for a reader of the result.\<close>

interpretation osink: sink "B_sink (chunks_ops M)" chunks_content "\<lambda>c n. chunks_ready c n \<and> chunks_ok c"
  for M :: "'m mmap_ops"
proof
  fix c :: "'m b_chunks" and n and xs :: bytes
  assume r: "chunks_ready c n \<and> chunks_ok c"
  then show "succeed (so_status (B_sink (chunks_ops M)) c)" by (simp add: B_sink_def chunks_ready_def)
  assume "xs \<noteq> []" "length xs \<le> n"
  with r show "\<exists>k s'. so_write (B_sink (chunks_ops M)) c xs = Some (Inr (Some k, s')) \<and> 0 < k \<and> k \<le> length xs \<and>
      succeed (so_status (B_sink (chunks_ops M)) s') \<and> chunks_content s' = chunks_content c @ take k xs \<and>
      chunks_ready s' (n - k) \<and> chunks_ok s'"
    using chunks_write [of c n xs M] by (auto simp: B_sink_def chunks_ready_def)
qed

text \<open>Reading a chunked container into any sink that honours its contract.\<close>

context sink
begin

lemma chunks_copy2:
  assumes "chunks_wf c" "off + n \<le> length (chunks_content c)" "ready out m" "0 < n" "n \<le> m"
  shows "\<exists>out'. B_Chunks_copyToStreamableObject2 M mmA S c out n off = Some (Inr (Some n, out')) \<and>
    content out' = content out @ take n (drop off (chunks_content c)) \<and> ready out' (m - n)"
proof -
  let ?cks = "slice_chunks (m_chunksVector c) off n"
  have bnd: "length (chunks_content c) < two64" and mm: "m_mmapContainer c = None"
    using assms(1) by (simp_all add: chunks_wf_def)
  have cc: "concat ?cks = take n (drop off (chunks_content c))"
    using slice_chunks_concat assms(2) by (simp add: chunks_content_def)
  have sum: "sum_list (map length ?cks) = n"
    using arg_cong [OF cc, of length] assms(2) by (simp add: length_concat)
  have "B_Chunks_copyToStreamableObject2 M mmA S c out n off =
      copyToStreamableObjectUsingCleanVector S out ?cks 0"
    using assms bnd mm by (simp add: B_Chunks_copyToStreamableObject2_def chunks_size overflow_sum_iff)
  then show ?thesis using copyVector_total [OF assms(3), of ?cks 0] cc sum assms(2,5) bnd by auto
qed

lemma chunks_appendTo:
  assumes "chunks_wf c" "off + n \<le> length (chunks_content c)" "ready out m" "0 < n" "n \<le> m" "n < size_max"
  shows "\<exists>out'. B_appendTo (B_Chunks_copyToStreamableObject2 M mmA S) (chunks_ops M) S c out n off =
      Some (Inr (Some n, out')) \<and>
    content out' = content out @ take n (drop off (chunks_content c)) \<and> ready out' (m - n)"
  using chunks_copy2 [OF assms(1-5), of M mmA] assms seq.content_bound [OF assms(1)]
  by (auto simp: B_appendTo_def Let_def chunks_size overflow_sum_iff)

lemma chunks_streamTo:
  assumes "chunks_wf c" "ready out m" "chunks_content c \<noteq> []" "length (chunks_content c) \<le> m"
  shows "\<exists>out'. B_appendTo (B_Chunks_copyToStreamableObject2 M mmA S) (chunks_ops M) S c out size_max 0 =
      Some (Inr (Some (length (chunks_content c)), out')) \<and>
    content out' = content out @ chunks_content c \<and> ready out' (m - length (chunks_content c))"
  using chunks_copy2 [OF assms(1) _ assms(2), of 0 "length (chunks_content c)" M mmA] assms seq.content_bound [OF assms(1)]
  by (auto simp: B_appendTo_def Let_def chunks_size overflow_sum_iff)

end

section \<open>Properties\<close>

text \<open>A container without a file-backed part: no operation of this table is ever reached, since
  the in-memory limit 0 disables the switch.\<close>

definition no_mmap :: "unit mmap_ops" where
  "no_mmap = \<lparr>mm_size = (\<lambda>_. 0), mm_append = (\<lambda>m _. (None, m)), mm_prepend = (\<lambda>m _. (None, m)),
     mm_truncate = (\<lambda>m _. (None, m)), mm_displace = (\<lambda>m _. (None, m)), mm_copyOut = (\<lambda>_ _ _. None),
     mm_compare = (\<lambda>_ _ _ _. False), mm_findChar = (\<lambda>_ _ _. None), mm_copyToFS = (\<lambda>_ _ _. None)\<rparr>"

text \<open>A small container for examples: the chunks \<open>ab\<close>, \<open>cd\<close>, \<open>ef\<close> of at most two bytes.\<close>

definition demo_chunks :: "unit b_chunks" where
  "demo_chunks = B_Chunks_new\<lparr>m_maxChunkSize := 2, m_containerBytes := 6,
     m_chunksVector := [\<lparr>ck_data = ''ab'', ck_offset = 0\<rparr>, \<lparr>ck_data = ''cd'', ck_offset = 2\<rparr>,
       \<lparr>ck_data = ''ef'', ck_offset = 4\<rparr>]\<rparr>"

lemma demo_content [simp]: "chunks_content demo_chunks = ''abcdef''"
  by (simp add: demo_chunks_def chunks_content_def)

lemma demo_ok [simp]: "chunks_ok demo_chunks" "chunks_wf demo_chunks"
  by (simp_all add: demo_chunks_def chunks_ok_def chunks_wf_def chunks_content_def B_Chunks_new_def)

lemma demo_room [simp]: "n \<le> 1000 \<Longrightarrow> has_room demo_chunks n"
  by (simp add: has_room_def) (simp add: demo_chunks_def B_Chunks_new_def size_max_def)

lemma demo_displaced:
  "B_displace (chunks_ops no_mmap) demo_chunks 1 = (Some 1, demo_chunks\<lparr>m_containerBytes := 5,
     m_chunksVector := [\<lparr>ck_data = ''b'', ck_offset = 2\<rparr>, \<lparr>ck_data = ''cd'', ck_offset = 2\<rparr>,
       \<lparr>ck_data = ''ef'', ck_offset = 4\<rparr>]\<rparr>)"
  by (simp add: B_displace_def B_Chunks_displace2_def B_Chunks_size_def demo_chunks_def B_Chunks_new_def
      chunk_displace_def recalcChunkOffsets_def nextOffset_def add64_def sub64_def numeral_2_eq_2)

text \<open>Appending to a container with room stores exactly the bytes given, at the end, keeps the
  invariant (counter, offsets, limits), and the whole content reads back as a string.\<close>

theorem append_extends_content:
  assumes "chunks_ok c" "has_room c (length data)" "data \<noteq> []"
  shows "\<exists>c'. B_append (chunks_ops M) c data = (Some (length data), c') \<and> chunks_ok c' \<and>
    chunks_content c' = chunks_content c @ data \<and> B_toStringEx (chunks_ops M) c' = chunks_content c @ data"
  using B_append_room [OF chunks_ok_wf [OF assms(1)] assms(2,3), of M] assms(1) ra.toStringEx_content [of _ M]
  by fastforce

theorem append_extends_content_witness:
  "\<exists>c'. B_append (chunks_ops no_mmap) demo_chunks ''ghi'' = (Some (length ''ghi''), c') \<and> chunks_ok c' \<and>
    chunks_content c' = ''abcdefghi'' \<and> B_toStringEx (chunks_ops no_mmap) c' = ''abcdefghi''"
  using append_extends_content [of demo_chunks "''ghi''" no_mmap] by simp

text \<open>Displacing \<open>n\<close> bytes removes exactly the first \<open>n\<close> bytes (all of them when there are
  fewer), reports how many were removed and keeps counter and limits right.\<close>

theorem displace_drops_prefix:
  assumes "chunks_wf c"
  shows "\<exists>c'. B_displace (chunks_ops M) c n = (Some (min n (length (chunks_content c))), c') \<and>
    chunks_wf c' \<and> chunks_content c' = drop n (chunks_content c) \<and> same_limits c c'"
  using B_displace_drop [OF assms, of M n] by blast

theorem displace_drops_prefix_witness:
  "\<exists>c'. B_displace (chunks_ops no_mmap) demo_chunks 3 = (Some 3, c') \<and> chunks_wf c' \<and>
    chunks_content c' = ''def'' \<and> same_limits demo_chunks c'"
  using displace_drops_prefix [of demo_chunks no_mmap 3] by (simp add: numeral_3_eq_3)

text \<open>Truncating below the size keeps exactly the first \<open>n\<close> bytes and the whole invariant; at
  or above the size it is refused and nothing changes.\<close>

theorem truncate_keeps_prefix:
  assumes "chunks_ok c"
  shows "if n < length (chunks_content c)
    then \<exists>c'. B_truncate (chunks_ops M) c n = (Some n, c') \<and> chunks_ok c' \<and>
           chunks_content c' = take n (chunks_content c)
    else B_truncate (chunks_ops M) c n = (None, c)"
  using B_truncate_take [OF assms, of n M] chunks_ok_wf [OF assms]
  by (auto simp: B_truncate_def chunks_size)

theorem truncate_keeps_prefix_witness:
  "\<exists>c'. B_truncate (chunks_ops no_mmap) demo_chunks 3 = (Some 3, c') \<and> chunks_ok c' \<and>
    chunks_content c' = ''abc''"
  using truncate_keeps_prefix [of demo_chunks 3 no_mmap] by (simp add: numeral_3_eq_3)

text \<open>C23: the case-sensitive search of the whole container, across chunk borders, returns the
  position of the first occurrence of the needle, and fails only if there is none.\<close>

theorem find_first_occurrence:
  assumes "chunks_wf c" "needle \<noteq> []" "length needle < two64 - length (chunks_content c)"
  shows "case B_find (chunks_ops M) c needle True 0 0 of
      Some i \<Rightarrow> first_at needle (chunks_content c) i
    | None \<Rightarrow> (\<forall>i. \<not> occurs_at needle (chunks_content c) i)"
  using seq.find_whole [OF assms, of M]
  by (auto simp: find_sub_None_iff find_sub_Some_iff split: option.split)

theorem find_first_occurrence_witness:
  "case B_find (chunks_ops no_mmap) demo_chunks ''bcd'' True 0 0 of
      Some i \<Rightarrow> first_at ''bcd'' ''abcdef'' i
    | None \<Rightarrow> (\<forall>i. \<not> occurs_at ''bcd'' ''abcdef'' i)"
  using find_first_occurrence [of demo_chunks "''bcd''" no_mmap] unfolding demo_content by simp

text \<open>A copy of \<open>n\<close> bytes at an offset returns exactly that slice of the content, found by the
  binary search over the chunk offsets; a range that leaves the content is refused.\<close>

theorem copyOut_exact:
  assumes "chunks_ok c" "n < size_max" "off < two64"
  shows "B_copyOut (chunks_ops M) c n off =
    (if n = 0 \<or> off + n \<le> length (chunks_content c) then Some (take n (drop off (chunks_content c))) else None)"
proof (cases "off + n \<le> length (chunks_content c)")
  case True
  then show ?thesis using ra.copyOut_slice [OF assms(1) True, of M] by simp
next
  case False
  then show ?thesis
    using ra.copyOut_beyond [OF assms(1), of off n M] assms(2,3) chunks_ok_wf [OF assms(1)]
    by (cases "n = 0") (auto simp: B_copyOut_def Let_def chunks_size overflow_sum_iff size_max_def)
qed

theorem copyOut_exact_witness:
  "B_copyOut (chunks_ops no_mmap) demo_chunks 3 1 = Some ''bcd''"
  using copyOut_exact [of demo_chunks 3 1 no_mmap] by (simp add: size_max_def numeral_3_eq_3)

text \<open>Streaming one container into another with room appends the whole content of the first to
  the second, reports its size, and returns.\<close>

theorem stream_container_to_container:
  assumes "chunks_wf c" "chunks_content c \<noteq> []" "chunks_ready d (length (chunks_content c))"
  shows "\<exists>d'. B_appendTo (B_Chunks_copyToStreamableObject2 M mmA (B_sink (chunks_ops N)))
        (chunks_ops M) (B_sink (chunks_ops N)) c d size_max 0 =
      Some (Inr (Some (length (chunks_content c)), d')) \<and>
    chunks_content d' = chunks_content d @ chunks_content c"
  using csink.chunks_streamTo [OF assms(1,3,2) order_refl] by blast

theorem stream_container_to_container_witness:
  "\<exists>d'. B_appendTo (B_Chunks_copyToStreamableObject2 no_mmap (\<lambda>_ o' _ _. Some (Inr (None, o')))
        (B_sink (chunks_ops no_mmap)))
        (chunks_ops no_mmap) (B_sink (chunks_ops no_mmap)) demo_chunks demo_chunks size_max 0 =
      Some (Inr (Some (length ''abcdef''), d')) \<and>
    chunks_content d' = ''abcdefabcdef''"
proof -
  have "chunks_ready demo_chunks (length (chunks_content demo_chunks))"
    by (simp add: chunks_ready_def) (simp add: demo_chunks_def B_Chunks_new_def ws_init_def)
  from stream_container_to_container [OF demo_ok(2) _ this, of no_mmap
      "\<lambda>_ o' _ _. Some (Inr (None, o'))" no_mmap] show ?thesis by simp
qed

text \<open>Prepending puts the data in front of the content cut into pieces of the chunk size, the
  last piece first: data that fits one chunk is prepended as it is, longer data comes back with
  its pieces in reverse order.\<close>

theorem prepend_reverses_pieces:
  assumes "chunks_wf c" "has_room c (length data)" "data \<noteq> []"
  shows "\<exists>c'. B_prepend (chunks_ops M) c data = (Some (length data), c') \<and> chunks_wf c' \<and>
    chunks_content c' =
      (if length data \<le> m_maxChunkSize c then data else concat (rev (pieces (m_maxChunkSize c) data)))
        @ chunks_content c"
  using B_prepend_pieces [OF assms, of M] pieces_one [OF assms(3), of "m_maxChunkSize c"] by auto

theorem prepend_reverses_pieces_witness:
  "\<exists>c'. B_prepend (chunks_ops no_mmap) demo_chunks ''wxyz'' = (Some (length ''wxyz''), c') \<and> chunks_wf c' \<and>
    chunks_content c' = ''yzwxabcdef''"
proof -
  have "pieces 2 ''wxyz'' = [''wx'', ''yz'']" by (simp add: pieces.simps)
  moreover have "m_maxChunkSize demo_chunks = 2" by (simp add: demo_chunks_def)
  ultimately show ?thesis using prepend_reverses_pieces [of demo_chunks "''wxyz''" no_mmap] by simp
qed

text \<open>After a displacement that leaves two or more chunks, the recalculation of the offsets
  gives the first chunk an offset that is not 0 and leaves the others stale, so that the first
  byte of a non-empty container can no longer be copied out.\<close>

theorem displace_loses_first_byte:
  "fst (B_displace (chunks_ops no_mmap) demo_chunks 1) = Some 1 \<and>
   (let c' = snd (B_displace (chunks_ops no_mmap) demo_chunks 1) in
     chunks_content c' = ''bcdef'' \<and> map ck_offset (m_chunksVector c') = [2, 2, 4] \<and>
     B_copyOut (chunks_ops no_mmap) c' 1 0 = None)"
  unfolding demo_displaced
  by (simp add: Let_def chunks_content_def B_copyOut_def B_Chunks_size_def overflow_sum_iff
      B_Chunks_copyToBuffer2_def I_Chunk_GetPosForOffset_def chunk_search.simps containsOffset_def
      nextOffset_def add64_def demo_chunks_def B_Chunks_new_def size_max_def)

text \<open>Comparing a container with a buffer answers true for every buffer, whatever the
  container holds.\<close>

theorem compare_ignores_content:
  assumes "length mem + off < two64" "length mem < two64" "off < two64"
  shows "B_compare (chunks_ops M) c mem caseSensitive off"
  using assms by (simp add: B_compare_def overflow_sum_iff add.commute)

theorem compare_ignores_content_witness:
  "B_compare (chunks_ops no_mmap) demo_chunks ''xyz'' True 0 \<and> chunks_content demo_chunks = ''abcdef''"
  using compare_ignores_content [of "''xyz''" 0 no_mmap demo_chunks True] by simp

end
