(* ===== verification/Binary_Ref.thy ===== *)
theory Binary_Ref
  imports Chunks_Container
begin

text \<open>
  \<open>Memory/b_ref.{h,cpp}\<close>: a read-only window into another container. The pointer
  \<open>referencedBC\<close> is modelled by the current state of the container it points to
  (\<open>None\<close> for the null pointer); the owner of both keeps it current. \<open>V\<close> is the method
  table of the referenced container.

  A window into a container with random access has random access to its slice. It does not
  satisfy the searching contract: \<open>compare2\<close> goes through the front end's \<open>compare\<close>,
  which does not read the container, and \<open>findChar\<close> answers in the coordinates of the
  referenced container.
\<close>

record 's b_ref = b_base +
  referencedBC :: "'s option"
  referencedOffset :: nat
  referencedMaxBytes :: nat

definition B_Ref_clear2 :: "'s b_ref \<Rightarrow> bool \<times> 's b_ref" where
  "B_Ref_clear2 r = (True, r\<lparr>referencedBC := None\<rparr>)"

definition B_Ref_reference :: "'s b_ops \<Rightarrow> 's b_ref \<Rightarrow> 's \<Rightarrow> nat \<Rightarrow> nat \<Rightarrow> bool \<times> 's b_ref" where
  "B_Ref_reference V r bc offset maxBytes =
     (if offset > v_size V bc then (False, r)
      else (True, r\<lparr>m_readOnly := True, referencedBC := Some bc, referencedOffset := offset,
                    referencedMaxBytes := maxBytes\<rparr>))"

definition B_Ref_new :: "'s b_ref" where
  "B_Ref_new = snd (B_Ref_clear2 \<lparr>m_readOnly = False, m_containerBytes = 0, m_maxSize = size_max,
     m_fsDirectoryPath = ''/tmp'', m_fsBaseFileName = ''BinaryContainer-'', m_writeStatus = ws_init,
     referencedBC = None, referencedOffset = 0, referencedMaxBytes = 0\<rparr>)"

definition B_Ref_size :: "'s b_ops \<Rightarrow> 's b_ref \<Rightarrow> nat" where
  "B_Ref_size V r =
     (case referencedBC r of
        None \<Rightarrow> 0
      | Some bc \<Rightarrow>
          (let availableBytes = sub64 (v_size V bc) (referencedOffset r) in
           if referencedMaxBytes r = size_max \<or> referencedMaxBytes r > availableBytes then availableBytes
           else referencedMaxBytes r))"

definition B_Ref_findChar :: "'s b_ops \<Rightarrow> 's b_ref \<Rightarrow> char \<Rightarrow> nat \<Rightarrow> nat \<Rightarrow> bool \<Rightarrow> nat option" where
  "B_Ref_findChar V r c offset searchSpace caseSensitive =
     (case referencedBC r of
        None \<Rightarrow> None
      | Some bc \<Rightarrow> v_findChar V bc c (add64 (referencedOffset r) offset) searchSpace
                     (caseSensitive \<and> isalpha c))"

definition B_Ref_truncate2 :: "'s b_ref \<Rightarrow> nat \<Rightarrow> nat option \<times> 's b_ref" where
  "B_Ref_truncate2 r n = (Some n, r\<lparr>referencedMaxBytes := n\<rparr>)"

definition B_Ref_append2 ::
  "'z b_base_scheme b_ops \<Rightarrow> 'z b_base_scheme b_ref \<Rightarrow> bytes \<Rightarrow> bool \<Rightarrow> nat option \<times> 'z b_base_scheme b_ref"
where
  "B_Ref_append2 V r buf prependMode =
     (case referencedBC r of
        None \<Rightarrow> (None, r)
      | Some bc \<Rightarrow>
          (case (if prependMode then B_prepend V bc buf else B_append V bc buf) of
             (n, bc') \<Rightarrow> (n, r\<lparr>referencedBC := Some bc'\<rparr>)))"

definition B_Ref_displace2 :: "'s b_ops \<Rightarrow> 's b_ref \<Rightarrow> nat \<Rightarrow> nat option \<times> 's b_ref" where
  "B_Ref_displace2 V r n =
     (case referencedBC r of
        None \<Rightarrow> (None, r)
      | Some _ \<Rightarrow>
          (let bytesToDisplace = (if n > B_Ref_size V r then B_Ref_size V r else n) in
           (Some bytesToDisplace,
            r\<lparr>referencedMaxBytes := (if referencedMaxBytes r \<noteq> size_max
                                     then sub64 (referencedMaxBytes r) bytesToDisplace
                                     else referencedMaxBytes r),
              referencedOffset := add64 (referencedOffset r) bytesToDisplace\<rparr>)))"

definition B_Ref_copyToBuffer2 :: "'s b_ops \<Rightarrow> 's b_ref \<Rightarrow> nat \<Rightarrow> nat \<Rightarrow> bytes option" where
  "B_Ref_copyToBuffer2 V r n offset =
     (case referencedBC r of
        None \<Rightarrow> None
      | Some bc \<Rightarrow>
          (if offset > B_Ref_size V r then None
           else B_copyOut V bc (min n (B_Ref_size V r - offset)) (add64 (referencedOffset r) offset)))"

definition B_Ref_compare2 :: "'s b_ops \<Rightarrow> 's b_ref \<Rightarrow> bytes \<Rightarrow> bool \<Rightarrow> nat \<Rightarrow> bool" where
  "B_Ref_compare2 V r buf caseSensitive offset =
     (case referencedBC r of
        None \<Rightarrow> False
      | Some bc \<Rightarrow>
          (if offset > B_Ref_size V r then False
           else B_compare V bc (take (min (length buf) (B_Ref_size V r - offset)) buf) caseSensitive
                  (add64 (referencedOffset r) offset)))"

definition B_Ref_copyToStreamableObject2 ::
  "('s \<Rightarrow> 'o \<Rightarrow> nat \<Rightarrow> nat \<Rightarrow> 'o copy_result) \<Rightarrow> 's b_ops \<Rightarrow> 'o streamable \<Rightarrow> 's b_ref \<Rightarrow> 'o \<Rightarrow> nat \<Rightarrow> nat \<Rightarrow>
     'o copy_result" where
  "B_Ref_copyToStreamableObject2 copy2 V S r out n offset =
     (let failed = Some (Inr (None, so_set_status S out ((so_status S out)\<lparr>succeed := False\<rparr>))) in
      case referencedBC r of
        None \<Rightarrow> failed
      | Some bc \<Rightarrow>
          (if offset > B_Ref_size V r then failed
           else B_appendTo copy2 V S bc out (min n (B_Ref_size V r - offset))
                  (add64 (referencedOffset r) offset)))"

definition B_Ref_copyToStream2 ::
  "('s \<Rightarrow> 'f \<Rightarrow> nat \<Rightarrow> nat \<Rightarrow> nat option \<times> 'f) \<Rightarrow> 's b_ops \<Rightarrow> 's b_ref \<Rightarrow> 'f \<Rightarrow> nat \<Rightarrow> nat \<Rightarrow>
     nat option \<times> 'f" where
  "B_Ref_copyToStream2 copy2 V r out n offset =
     (case referencedBC r of
        None \<Rightarrow> (None, out)
      | Some bc \<Rightarrow>
          (if offset > B_Ref_size V r then (None, out)
           else B_copyToStream copy2 V bc out (min n (B_Ref_size V r - offset))
                  (add64 (referencedOffset r) offset)))"

definition ref_ops :: "'z b_base_scheme b_ops \<Rightarrow> 'z b_base_scheme b_ref b_ops" where
  "ref_ops V = \<lparr>v_size = B_Ref_size V, v_append2 = B_Ref_append2 V,
     v_displace2 = B_Ref_displace2 V, v_truncate2 = B_Ref_truncate2,
     v_clear2 = B_Ref_clear2, v_copyToBuffer2 = B_Ref_copyToBuffer2 V,
     v_compare2 = B_Ref_compare2 V, v_findChar = B_Ref_findChar V\<rparr>"

section \<open>The window\<close>

definition ref_content :: "('s \<Rightarrow> bytes) \<Rightarrow> 's b_ref \<Rightarrow> bytes" where
  "ref_content content r =
     (case referencedBC r of
        None \<Rightarrow> [] | Some bc \<Rightarrow> take (referencedMaxBytes r) (drop (referencedOffset r) (content bc)))"

definition ref_ok :: "('s \<Rightarrow> bytes) \<Rightarrow> ('s \<Rightarrow> bool) \<Rightarrow> 's b_ref \<Rightarrow> bool" where
  "ref_ok content invar r \<longleftrightarrow>
     (case referencedBC r of
        None \<Rightarrow> True
      | Some bc \<Rightarrow> invar bc \<and> referencedOffset r \<le> length (content bc))"

context b_sized
begin

lemma ref_size:
  assumes "ref_ok content invar r"
  shows "B_Ref_size V r = length (ref_content content r)"
proof (cases "referencedBC r")
  case (Some bc)
  then have inv: "invar bc" "referencedOffset r \<le> length (content bc)"
    using assms by (auto simp: ref_ok_def)
  note bnd = content_bound [OF inv(1)]
  then have "sub64 (v_size V bc) (referencedOffset r) = length (content bc) - referencedOffset r"
    using inv by (simp add: size_content sub64_small)
  then show ?thesis
    using Some inv bnd by (auto simp: B_Ref_size_def ref_content_def Let_def size_max_def)
qed (simp_all add: B_Ref_size_def ref_content_def)

lemma ref_bound:
  assumes "ref_ok content invar r"
  shows "length (ref_content content r) < two64"
proof (cases "referencedBC r")
  case (Some bc)
  then have "length (content bc) < two64" using assms content_bound by (simp add: ref_ok_def)
  then show ?thesis using Some by (simp add: ref_content_def min_less_iff_disj less_imp_diff_less)
qed (simp add: ref_content_def)

end

context b_random
begin

lemma ref_copy:
  assumes "ref_ok content invar r" "0 < n" "off + n \<le> length (ref_content content r)"
  shows "B_Ref_copyToBuffer2 V r n off = Some (take n (drop off (ref_content content r)))"
proof (cases "referencedBC r")
  case None
  then show ?thesis using assms by (simp add: ref_content_def)
next
  case (Some bc)
  let ?o = "referencedOffset r"
  have inv: "invar bc" "?o \<le> length (content bc)" using assms(1) Some by (auto simp: ref_ok_def)
  have le: "off + n \<le> referencedMaxBytes r" "?o + off + n \<le> length (content bc)"
    using assms(2,3) Some inv by (auto simp: ref_content_def)
  have "add64 ?o off = ?o + off" using le content_bound [OF inv(1)] by (simp add: add64_small)
  then have "B_Ref_copyToBuffer2 V r n off = B_copyOut V bc n (?o + off)"
    using Some assms(3) by (simp add: B_Ref_copyToBuffer2_def ref_size [OF assms(1)])
  also have "\<dots> = Some (take n (drop (?o + off) (content bc)))"
    by (rule copyOut_slice [OF inv(1) le(2)])
  also have "take n (drop (?o + off) (content bc)) = take n (drop off (ref_content content r))"
    using Some le by (simp add: ref_content_def drop_take add.commute)
  finally show ?thesis .
qed

end

interpretation rref: b_random "ref_ops (chunks_ops M)" "ref_content chunks_content"
  "ref_ok chunks_content chunks_ok" for M :: "'m mmap_ops"
proof
  fix r :: "'m b_chunks b_ref" and n off
  assume ok: "ref_ok chunks_content chunks_ok r"
  show "v_size (ref_ops (chunks_ops M)) r = length (ref_content chunks_content r)"
    using ra.ref_size [OF ok] by (simp add: ref_ops_def)
  show "length (ref_content chunks_content r) < two64"
    by (rule ra.ref_bound [OF ok])
  show "v_copyToBuffer2 (ref_ops (chunks_ops M)) r n off = Some (take n (drop off (ref_content chunks_content r)))"
    if "0 < n" "off + n \<le> length (ref_content chunks_content r)"
    using ra.ref_copy [OF ok that] by (simp add: ref_ops_def)
qed

end
