(* ===== verification/Sub_Parser.thy ===== *)
theory Sub_Parser
  imports Binary_Ref
begin

text \<open>
  \<open>Memory/subparser.{h,cpp}\<close>: the stage that collects stream data until its strategy says
  that an element is complete, and then calls the virtual \<open>parse\<close> on it. A derived class is a
  record extension of \<open>subparser\<close> and its \<open>parse\<close> a function on it. The unparsed data is a
  \<open>B_Chunks\<close> with its default in-memory configuration; the parsed buffer is a window into it.
  The argument \<open>uninit\<close> is the content of freshly allocated memory, which
  \<open>getLastBytesInCommon\<close> compares when its copy fails. The debug dumps have no effect on
  the state and are left out, and so is the upstream pointer, which the strategies do not use.
\<close>

type_synonym sp_buf = "unit b_chunks"

abbreviation CO :: "sp_buf b_ops" where
  "CO \<equiv> chunks_ops no_mmap"

datatype ParseResult = PR_ERROR | GET_MORE_DATA | GOTO_NEXT_SUBPARSER

datatype ParseStrategy = DELIMITER | SIZE | VALIDATOR | CONNECTION_END | DIRECT | DIRECT_DELIMITER
  | MULTIDELIMITER

record subparser =
  m_streamEnded :: bool
  m_subParserName :: string
  m_parsedBuffer :: "sp_buf b_ref"
  m_unparsedBuffer :: sp_buf
  m_parseDelimiter :: bytes
  m_delimiterFound :: bytes
  m_parseMultiDelimiter :: "bytes list"
  m_parseMode :: ParseStrategy
  m_parseStatus :: ParseResult

definition SubParser_new :: subparser where
  "SubParser_new = \<lparr>m_streamEnded = False, m_subParserName = [], m_parsedBuffer = B_Ref_new,
     m_unparsedBuffer = B_Chunks_new, m_parseDelimiter = [CR, LF], m_delimiterFound = [],
     m_parseMultiDelimiter = [], m_parseMode = DELIMITER, m_parseStatus = GET_MORE_DATA\<rparr>"

section \<open>Accessors\<close>

definition setParseResult :: "'z subparser_scheme \<Rightarrow> ParseResult \<Rightarrow> 'z subparser_scheme" where
  "setParseResult sp v = sp\<lparr>m_parseStatus := v\<rparr>"

definition setParseDelimiter :: "'z subparser_scheme \<Rightarrow> bytes \<Rightarrow> 'z subparser_scheme" where
  "setParseDelimiter sp v = sp\<lparr>m_parseDelimiter := v\<rparr>"

definition setParseMultiDelimiter :: "'z subparser_scheme \<Rightarrow> bytes list \<Rightarrow> 'z subparser_scheme" where
  "setParseMultiDelimiter sp v = sp\<lparr>m_parseMultiDelimiter := v\<rparr>"

definition setParseDataTargetSize :: "'z subparser_scheme \<Rightarrow> nat \<Rightarrow> 'z subparser_scheme" where
  "setParseDataTargetSize sp v = sp\<lparr>m_unparsedBuffer := B_setMaxSize (m_unparsedBuffer sp) v\<rparr>"

definition setParseStrategy :: "'z subparser_scheme \<Rightarrow> ParseStrategy \<Rightarrow> 'z subparser_scheme" where
  "setParseStrategy sp v =
     (if v = DIRECT then setParseDataTargetSize sp size_max else sp)\<lparr>m_parseMode := v\<rparr>"

definition getUnparsedDataSize :: "'z subparser_scheme \<Rightarrow> nat" where
  "getUnparsedDataSize sp = B_getSizeLeft CO (m_unparsedBuffer sp)"

text \<open>The parsed buffer points at the unparsed buffer, so a reader sees its current state.\<close>

definition getParsedBuffer :: "'z subparser_scheme \<Rightarrow> sp_buf b_ref" where
  "getParsedBuffer sp =
     (case referencedBC (m_parsedBuffer sp) of
        None \<Rightarrow> m_parsedBuffer sp
      | Some _ \<Rightarrow> (m_parsedBuffer sp)\<lparr>referencedBC := Some (m_unparsedBuffer sp)\<rparr>)"

definition SubParser_clear :: "'z subparser_scheme \<Rightarrow> 'z subparser_scheme" where
  "SubParser_clear sp =
     sp\<lparr>m_unparsedBuffer := snd (B_clear CO (m_unparsedBuffer sp)),
        m_parsedBuffer := snd (B_clear (ref_ops CO) (m_parsedBuffer sp))\<rparr>"

section \<open>The strategies\<close>

definition ref_unparsed :: "'z subparser_scheme \<Rightarrow> nat \<Rightarrow> nat \<Rightarrow> 'z subparser_scheme" where
  "ref_unparsed sp offset maxBytes =
     sp\<lparr>m_parsedBuffer := snd (B_Ref_reference CO (m_parsedBuffer sp) (m_unparsedBuffer sp) offset maxBytes)\<rparr>"

definition clear_unparsed :: "'z subparser_scheme \<Rightarrow> 'z subparser_scheme" where
  "clear_unparsed sp = sp\<lparr>m_unparsedBuffer := snd (B_clear CO (m_unparsedBuffer sp))\<rparr>"

definition run_parse ::
  "('z subparser_scheme \<Rightarrow> ParseResult \<times> 'z subparser_scheme) \<Rightarrow> 'z subparser_scheme \<Rightarrow> 'z subparser_scheme"
where
  "run_parse parse sp = (case parse sp of (r, sp') \<Rightarrow> setParseResult sp' r)"

definition appendToUnparsedBuffer ::
  "'z subparser_scheme \<Rightarrow> bytes \<Rightarrow> nat option \<times> 'z subparser_scheme" where
  "appendToUnparsedBuffer sp buf =
     (let leftSize = B_getSizeLeft CO (m_unparsedBuffer sp) in
      if leftSize = 0 \<and> length buf > 0 then (None, sp)
      else let count = min (length buf) leftSize in
        if count > 0 then
          (case B_append CO (m_unparsedBuffer sp) (take count buf) of (bytesAppended, b') \<Rightarrow>
             (if bytesAppended \<noteq> Some count
              then (None, sp\<lparr>m_unparsedBuffer := snd (B_clear CO b')\<rparr>)
              else (bytesAppended, sp\<lparr>m_unparsedBuffer := b'\<rparr>)))
        else (Some 0, sp))"

definition parseByMultiDelimiter ::
  "('z subparser_scheme \<Rightarrow> ParseResult \<times> 'z subparser_scheme) \<Rightarrow> 'z subparser_scheme \<Rightarrow> bytes \<Rightarrow>
     nat option \<times> 'z subparser_scheme" where
  "parseByMultiDelimiter parse sp buf =
     (let prevSize = B_Chunks_size no_mmap (m_unparsedBuffer sp) in
      case appendToUnparsedBuffer sp buf of
        (None, sp1) \<Rightarrow> (None, sp1)
      | (Some bytesAppended, sp1) \<Rightarrow>
          (let sp2 = ref_unparsed sp1 0 size_max in
           case B_findAny CO (m_unparsedBuffer sp2) (m_parseMultiDelimiter sp2) True 0 0 of
             Some (needlePos, needle) \<Rightarrow>
               (let sp3 = clear_unparsed (run_parse parse
                            (ref_unparsed (sp2\<lparr>m_delimiterFound := needle\<rparr>) 0 needlePos)) in
                (Some (sub64 (add64 needlePos (length (m_delimiterFound sp3))) prevSize), sp3))
           | None \<Rightarrow>
               (if m_streamEnded sp2
                then (Some bytesAppended, clear_unparsed (run_parse parse (ref_unparsed sp2 0 size_max)))
                else (Some bytesAppended, sp2))))"

definition parseByDelimiter ::
  "('z subparser_scheme \<Rightarrow> ParseResult \<times> 'z subparser_scheme) \<Rightarrow> 'z subparser_scheme \<Rightarrow> bytes \<Rightarrow>
     nat option \<times> 'z subparser_scheme" where
  "parseByDelimiter parse sp buf =
     (let prevSize = B_Chunks_size no_mmap (m_unparsedBuffer sp) in
      case appendToUnparsedBuffer sp buf of
        (None, sp1) \<Rightarrow> (None, sp1)
      | (Some bytesAppended, sp1) \<Rightarrow>
          (let sp2 = ref_unparsed sp1 0 size_max in
           case B_find CO (m_unparsedBuffer sp2) (m_parseDelimiter sp2) True 0 0 of
             Some needlePos \<Rightarrow>
               (let sp3 = clear_unparsed (run_parse parse (ref_unparsed sp2 0 needlePos)) in
                (Some (add64 (sub64 needlePos prevSize) (length (m_parseDelimiter sp3))), sp3))
           | None \<Rightarrow>
               (if m_streamEnded sp2
                then (Some bytesAppended, clear_unparsed (run_parse parse (ref_unparsed sp2 0 size_max)))
                else (Some bytesAppended, sp2))))"

definition parseBySize ::
  "('z subparser_scheme \<Rightarrow> ParseResult \<times> 'z subparser_scheme) \<Rightarrow> 'z subparser_scheme \<Rightarrow> bytes \<Rightarrow>
     nat option \<times> 'z subparser_scheme" where
  "parseBySize parse sp buf =
     (if length buf = 0 then (Some 0, clear_unparsed (setParseResult sp GOTO_NEXT_SUBPARSER))
      else case appendToUnparsedBuffer sp buf of
        (None, sp1) \<Rightarrow> (None, sp1)
      | (Some bytesAppended, sp1) \<Rightarrow>
          (Some bytesAppended,
           if B_getSizeLeft CO (m_unparsedBuffer sp1) = 0
           then clear_unparsed (run_parse parse (ref_unparsed sp1 0 size_max))
           else sp1))"

definition parseByValidator :: "'z subparser_scheme \<Rightarrow> bytes \<Rightarrow> nat option \<times> 'z subparser_scheme" where
  "parseByValidator sp buf = (None, sp)"

definition parseByConnectionEnd ::
  "('z subparser_scheme \<Rightarrow> ParseResult \<times> 'z subparser_scheme) \<Rightarrow> 'z subparser_scheme \<Rightarrow> bytes \<Rightarrow>
     nat option \<times> 'z subparser_scheme" where
  "parseByConnectionEnd parse sp buf =
     (case appendToUnparsedBuffer sp buf of
        (None, sp1) \<Rightarrow> (None, sp1)
      | (Some bytesAppended, sp1) \<Rightarrow>
          (if length buf = 0
           then (Some 0, clear_unparsed (run_parse parse (ref_unparsed sp1 0 size_max)))
           else (Some bytesAppended, sp1)))"

definition parseDirect ::
  "('z subparser_scheme \<Rightarrow> ParseResult \<times> 'z subparser_scheme) \<Rightarrow> 'z subparser_scheme \<Rightarrow> bytes \<Rightarrow>
     b_exn + (nat option \<times> 'z subparser_scheme)" where
  "parseDirect parse sp buf =
     (case appendToUnparsedBuffer sp buf of
        (None, sp1) \<Rightarrow> Inr (None, sp1)
      | (Some bytesAppended, sp1) \<Rightarrow>
          (let sp2 = run_parse parse (ref_unparsed sp1 0 size_max);
               curBufSize = B_Chunks_size no_mmap (m_unparsedBuffer sp2);
               sp3 = clear_unparsed sp2 in
           case B_reduceMaxSizeBy (m_unparsedBuffer sp3) curBufSize of
             Inl e \<Rightarrow> Inl e
           | Inr b \<Rightarrow> Inr (Some bytesAppended, sp3\<lparr>m_unparsedBuffer := b\<rparr>)))"

subsection \<open>Direct parsing up to a delimiter\<close>

definition referenceLastBytes :: "'z subparser_scheme \<Rightarrow> nat \<Rightarrow> sp_buf b_ref" where
  "referenceLastBytes sp n =
     snd (B_Ref_reference CO B_Ref_new (m_unparsedBuffer sp)
            (sub64 (B_Chunks_size no_mmap (m_unparsedBuffer sp)) n) size_max)"

fun lastBytes_loop :: "(nat \<Rightarrow> bytes) \<Rightarrow> 'z subparser_scheme \<Rightarrow> bytes \<Rightarrow> nat \<Rightarrow> nat" where
  "lastBytes_loop uninit sp boundary 0 = 0"
| "lastBytes_loop uninit sp boundary (Suc v) =
     (let ref = referenceLastBytes sp (Suc v);
          n = B_Ref_size CO ref;
          toCmp = (case B_copyOut (ref_ops CO) ref n 0 of Some d \<Rightarrow> d | None \<Rightarrow> uninit n) in
      if memcmp (take n toCmp) (take n boundary) = 0 then Suc v
      else lastBytes_loop uninit sp boundary v)"

definition getLastBytesInCommon :: "(nat \<Rightarrow> bytes) \<Rightarrow> 'z subparser_scheme \<Rightarrow> bytes \<Rightarrow> nat" where
  "getLastBytesInCommon uninit sp boundary =
     lastBytes_loop uninit sp boundary
       (min (B_Chunks_size no_mmap (m_unparsedBuffer sp)) (sub64 (length boundary) 1))"

definition parseDirectDelimiter ::
  "('z subparser_scheme \<Rightarrow> ParseResult \<times> 'z subparser_scheme) \<Rightarrow> (nat \<Rightarrow> bytes) \<Rightarrow> 'z subparser_scheme \<Rightarrow>
     bytes \<Rightarrow> nat option \<times> 'z subparser_scheme" where
  "parseDirectDelimiter parse uninit sp0 buf =
     (let prevSize = B_Chunks_size no_mmap (m_unparsedBuffer sp0);
          sp = sp0\<lparr>m_delimiterFound := []\<rparr> in
      case appendToUnparsedBuffer sp buf of
        (None, sp1) \<Rightarrow> (None, sp1)
      | (Some bytesAppended, sp1) \<Rightarrow>
          (case B_find CO (m_unparsedBuffer sp1) (m_parseDelimiter sp1) True 0 0 of
             None \<Rightarrow>
               (let possible = getLastBytesInCommon uninit sp1 (m_parseDelimiter sp1) in
                if possible = 0
                then (Some bytesAppended, clear_unparsed (run_parse parse (ref_unparsed sp1 0 size_max)))
                else
                  (let sp2 = run_parse parse (ref_unparsed sp1 0
                               (sub64 (B_Chunks_size no_mmap (m_unparsedBuffer sp1)) possible)) in
                   (Some bytesAppended,
                    sp2\<lparr>m_unparsedBuffer := snd (B_displace CO (m_unparsedBuffer sp2)
                      (sub64 (B_Chunks_size no_mmap (m_unparsedBuffer sp2)) possible))\<rparr>)))
           | Some delimPos \<Rightarrow>
               (let sp2 = sp1\<lparr>m_delimiterFound := m_parseDelimiter sp1\<rparr>;
                    sp3 = (if delimPos = 0 then ref_unparsed (clear_unparsed sp2) 0 size_max
                           else ref_unparsed sp2 0 delimPos);
                    sp4 = clear_unparsed (run_parse parse sp3) in
                (Some (add64 (sub64 delimPos prevSize) (length (m_parseDelimiter sp4))), sp4))))"

section \<open>Dispatch\<close>

definition writeIntoSubParser ::
  "('z subparser_scheme \<Rightarrow> ParseResult \<times> 'z subparser_scheme) \<Rightarrow> (nat \<Rightarrow> bytes) \<Rightarrow> 'z subparser_scheme \<Rightarrow>
     bytes \<Rightarrow> b_exn + (nat option \<times> 'z subparser_scheme)" where
  "writeIntoSubParser parse uninit sp0 buf =
     (let sp = (if buf = [] then sp0\<lparr>m_streamEnded := True\<rparr> else sp0) in
      case m_parseMode sp of
        DELIMITER \<Rightarrow> Inr (parseByDelimiter parse sp buf)
      | SIZE \<Rightarrow> Inr (parseBySize parse sp buf)
      | VALIDATOR \<Rightarrow> Inr (parseByValidator sp buf)
      | DIRECT_DELIMITER \<Rightarrow> Inr (parseDirectDelimiter parse uninit sp buf)
      | CONNECTION_END \<Rightarrow> Inr (parseByConnectionEnd parse sp buf)
      | MULTIDELIMITER \<Rightarrow> Inr (parseByMultiDelimiter parse sp buf)
      | DIRECT \<Rightarrow> parseDirect parse sp buf)"

section \<open>The collected text\<close>

definition sp_text :: "'z subparser_scheme \<Rightarrow> bytes" where
  "sp_text sp = chunks_content (m_unparsedBuffer sp)"

definition sp_ok :: "'z subparser_scheme \<Rightarrow> bool" where
  "sp_ok sp \<longleftrightarrow> chunks_ok (m_unparsedBuffer sp) \<and> has_room (m_unparsedBuffer sp) 0"

text \<open>What \<open>parse\<close> reads when it takes the parsed buffer as a string.\<close>

definition parsed_text :: "'z subparser_scheme \<Rightarrow> bytes" where
  "parsed_text sp = B_toStringEx (ref_ops CO) (getParsedBuffer sp)"

lemma ref_unparsed_fields [simp]:
  "m_unparsedBuffer (ref_unparsed sp a n) = m_unparsedBuffer sp"
  "m_streamEnded (ref_unparsed sp a n) = m_streamEnded sp"
  "m_parseDelimiter (ref_unparsed sp a n) = m_parseDelimiter sp"
  "m_delimiterFound (ref_unparsed sp a n) = m_delimiterFound sp"
  "m_parseMultiDelimiter (ref_unparsed sp a n) = m_parseMultiDelimiter sp"
  "m_parseMode (ref_unparsed sp a n) = m_parseMode sp"
  "subparser.more (ref_unparsed sp a n) = subparser.more sp"
  by (simp_all add: ref_unparsed_def)

lemma ref_unparsed_again [simp]: "ref_unparsed (ref_unparsed sp 0 a) 0 b = ref_unparsed sp 0 b"
  by (simp add: ref_unparsed_def B_Ref_reference_def)

lemma parsed_text_ref:
  assumes "chunks_ok (m_unparsedBuffer sp)"
  shows "parsed_text (ref_unparsed sp 0 n) = take n (sp_text sp)"
proof -
  let ?r = "getParsedBuffer (ref_unparsed sp 0 n)"
  have r: "referencedBC ?r = Some (m_unparsedBuffer sp)" "referencedOffset ?r = 0" "referencedMaxBytes ?r = n"
    by (simp_all add: getParsedBuffer_def ref_unparsed_def B_Ref_reference_def)
  then have "ref_ok chunks_content chunks_ok ?r" using assms by (simp add: ref_ok_def)
  from rref.toStringEx_content [OF this] r show ?thesis
    by (simp add: parsed_text_def ref_content_def sp_text_def)
qed

lemma parsed_text_all:
  assumes "chunks_ok (m_unparsedBuffer sp)"
  shows "parsed_text (ref_unparsed sp 0 size_max) = sp_text sp"
  using parsed_text_ref [OF assms, of size_max] ra.content_bound [OF assms]
  by (simp add: sp_text_def size_max_def)

lemma sp_text_bound: "sp_ok sp \<Longrightarrow> length (sp_text sp) < two64"
  by (auto simp: sp_ok_def sp_text_def intro: ra.content_bound)

lemma sp_size: "sp_ok sp \<Longrightarrow> B_Chunks_size no_mmap (m_unparsedBuffer sp) = length (sp_text sp)"
  by (auto simp: sp_ok_def sp_text_def intro: chunks_size chunks_ok_wf)

lemma sp_size_left:
  "sp_ok sp \<Longrightarrow> B_getSizeLeft CO (m_unparsedBuffer sp) = m_maxSize (m_unparsedBuffer sp) - length (sp_text sp)"
  using sp_size [of sp] by (simp add: B_getSizeLeft_def)

text \<open>Appending takes as much as the size limit leaves, unless nothing is left.\<close>

lemma append_unparsed:
  assumes "sp_ok sp" "count = min (length data) (m_maxSize (m_unparsedBuffer sp) - length (sp_text sp))"
    "count = 0 \<Longrightarrow> data = []" "length (sp_text sp) + count \<le> m_maxChunks (m_unparsedBuffer sp)"
  shows "\<exists>b. appendToUnparsedBuffer sp data = (Some count, sp\<lparr>m_unparsedBuffer := b\<rparr>) \<and> chunks_ok b \<and>
    chunks_content b = sp_text sp @ take count data \<and> same_limits (m_unparsedBuffer sp) b \<and> has_room b 0"
proof (cases "count = 0")
  case True
  then have "data = []" using assms(3) by simp
  then show ?thesis using assms(1) True
    by (intro exI [of _ "m_unparsedBuffer sp"])
      (simp add: appendToUnparsedBuffer_def sp_text_def sp_ok_def Let_def)
next
  case False
  let ?b = "m_unparsedBuffer sp"
  have ok: "chunks_ok ?b" and room0: "has_room ?b 0" using assms(1) by (auto simp: sp_ok_def)
  have ct: "length (take count data) = count" using assms(2) by simp
  have room: "has_room ?b (length (take count data))"
    using room0 assms(2,4) False unfolding ct by (auto simp: has_room_def sp_text_def)
  have ne: "take count data \<noteq> []" using False ct by auto
  obtain b where b: "B_append CO ?b (take count data) = (Some count, b)" "chunks_ok b"
    "chunks_content b = sp_text sp @ take count data" "same_limits ?b b"
    using B_append_room [OF chunks_ok_wf [OF ok] room ne, of no_mmap] ok ct by (auto simp: sp_text_def)
  have "has_room b 0" using has_room_same [OF b(4) room, of 0] b(3) ct by (simp add: sp_text_def)
  moreover have "appendToUnparsedBuffer sp data = (Some count, sp\<lparr>m_unparsedBuffer := b\<rparr>)"
    using b(1) False assms(2) sp_size_left [OF assms(1)]
    by (simp add: appendToUnparsedBuffer_def Let_def)
  ultimately show ?thesis using b by blast
qed

lemma append_unparsed_all:
  assumes "sp_ok sp" "has_room (m_unparsedBuffer sp) (length data)"
  shows "\<exists>b. appendToUnparsedBuffer sp data = (Some (length data), sp\<lparr>m_unparsedBuffer := b\<rparr>) \<and> chunks_ok b \<and>
    chunks_content b = sp_text sp @ data \<and> same_limits (m_unparsedBuffer sp) b \<and> has_room b 0"
  using append_unparsed [OF assms(1), of "length data" data] assms(2)
  by (auto simp: has_room_def sp_text_def)

section \<open>One element\<close>

text \<open>The strategies in terms of the collected text. In each lemma \<open>b\<close> is the buffer after the
  append.\<close>

lemma find_unparsed:
  assumes "chunks_ok b" "needle \<noteq> []" "length needle + length (chunks_content b) < two64"
  shows "B_find CO b needle True 0 0 = find_sub needle (chunks_content b)"
  using assms by (intro seq.find_whole [OF chunks_ok_wf]) auto

lemma delimiter_step:
  assumes "sp_ok sp" "has_room (m_unparsedBuffer sp) (length data)" "m_parseDelimiter sp \<noteq> []"
    "length (m_parseDelimiter sp) + length (sp_text sp) + length data < two64"
  shows "\<exists>b. chunks_ok b \<and> has_room b 0 \<and> chunks_content b = sp_text sp @ data \<and>
    same_limits (m_unparsedBuffer sp) b \<and>
    parseByDelimiter parse sp data =
      (case find_sub (m_parseDelimiter sp) (sp_text sp @ data) of
         Some i \<Rightarrow> (let sp3 = clear_unparsed (run_parse parse (ref_unparsed (sp\<lparr>m_unparsedBuffer := b\<rparr>) 0 i)) in
                   (Some (add64 (sub64 i (length (sp_text sp))) (length (m_parseDelimiter sp3))), sp3))
       | None \<Rightarrow> (Some (length data),
                  (if m_streamEnded sp then \<lambda>s. clear_unparsed (run_parse parse s) else id)
                    (ref_unparsed (sp\<lparr>m_unparsedBuffer := b\<rparr>) 0 size_max)))"
proof -
  obtain b where b: "appendToUnparsedBuffer sp data = (Some (length data), sp\<lparr>m_unparsedBuffer := b\<rparr>)"
    "chunks_ok b" "chunks_content b = sp_text sp @ data" "same_limits (m_unparsedBuffer sp) b" "has_room b 0"
    using append_unparsed_all [OF assms(1,2)] by blast
  have f: "B_find CO b (m_parseDelimiter sp) True 0 0 = find_sub (m_parseDelimiter sp) (sp_text sp @ data)"
    using find_unparsed [OF b(2) assms(3)] assms(4) b(3) by simp
  show ?thesis
    by (rule exI [of _ b]) (use b in \<open>simp add: parseByDelimiter_def sp_size [OF assms(1)] f Let_def split: option.split\<close>)
qed

lemma count_exact:
  assumes "find_sub \<delta> (xs @ ys) = Some i" "find_sub \<delta> xs = None" "length (xs @ ys) < two64" "length \<delta> < two64"
  shows "add64 (sub64 i (length xs)) (length \<delta>) = i + length \<delta> - length xs"
    "length xs < i + length \<delta>" "i + length \<delta> \<le> length xs + length ys"
proof -
  have occ: "occurs_at \<delta> (xs @ ys) i" using assms(1) by (auto simp: find_sub_Some_iff first_at_def)
  then show le: "i + length \<delta> \<le> length xs + length ys" by (simp add: occurs_at_def)
  show lt: "length xs < i + length \<delta>"
  proof (rule ccontr)
    assume "\<not> ?thesis"
    then have "occurs_at \<delta> xs i" using occ by (auto simp: occurs_at_def)
    then show False using assms(2) by (simp add: find_sub_None_iff)
  qed
  show "add64 (sub64 i (length xs)) (length \<delta>) = i + length \<delta> - length xs"
  proof (cases "length xs \<le> i")
    case True
    then show ?thesis using le assms(3) by (simp add: sub64_small add64_small)
  next
    case False
    then have "sub64 i (length xs) + length \<delta> = (i + length \<delta> - length xs) + two64"
      using lt assms(3) by (simp add: sub64_wrap)
    then have "add64 (sub64 i (length xs)) (length \<delta>) = (i + length \<delta> - length xs) mod two64"
      by (simp add: add64_def)
    then show ?thesis using le assms(3) by simp
  qed
qed

section \<open>Fragmentation\<close>

text \<open>Writing a list of fragments one after the other, as a connection delivers them.\<close>

fun feed ::
  "('z subparser_scheme \<Rightarrow> ParseResult \<times> 'z subparser_scheme) \<Rightarrow> (nat \<Rightarrow> bytes) \<Rightarrow> 'z subparser_scheme \<Rightarrow>
     bytes list \<Rightarrow> (nat option list \<times> 'z subparser_scheme) option" where
  "feed parse uninit sp [] = Some ([], sp)"
| "feed parse uninit sp (d # ds) =
     (case writeIntoSubParser parse uninit sp d of
        Inl _ \<Rightarrow> None
      | Inr (n, sp') \<Rightarrow>
          (case feed parse uninit sp' ds of None \<Rightarrow> None | Some (ns, sp'') \<Rightarrow> Some (n # ns, sp'')))"

text \<open>The state while an element is incomplete: only the buffers have changed.\<close>

definition collecting :: "'z subparser_scheme \<Rightarrow> bytes \<Rightarrow> 'z subparser_scheme \<Rightarrow> bool" where
  "collecting sp t sp' \<longleftrightarrow> sp_ok sp' \<and> sp_text sp' = t \<and>
     same_limits (m_unparsedBuffer sp) (m_unparsedBuffer sp') \<and>
     (\<exists>b r. sp' = sp\<lparr>m_unparsedBuffer := b, m_parsedBuffer := r\<rparr>)"

lemma collecting_refl: "sp_ok sp \<Longrightarrow> collecting sp (sp_text sp) sp"
  unfolding collecting_def
  by (auto intro!: exI [of _ "m_unparsedBuffer sp"] exI [of _ "m_parsedBuffer sp"])

lemma collecting_trans:
  assumes "collecting sp t sp'" "collecting sp' u sp''"
  shows "collecting sp u sp''"
proof -
  obtain b r b' r' where "sp' = sp\<lparr>m_unparsedBuffer := b, m_parsedBuffer := r\<rparr>"
    "sp'' = sp'\<lparr>m_unparsedBuffer := b', m_parsedBuffer := r'\<rparr>"
    using assms unfolding collecting_def by blast
  then have "sp'' = sp\<lparr>m_unparsedBuffer := b', m_parsedBuffer := r'\<rparr>" by simp
  then show ?thesis using assms same_limits_trans unfolding collecting_def by blast
qed

lemma collecting_buffer:
  assumes "chunks_ok b" "has_room b 0" "same_limits (m_unparsedBuffer sp) b"
  shows "collecting sp (chunks_content b) (sp\<lparr>m_unparsedBuffer := b\<rparr>)"
    "collecting sp (chunks_content b) (ref_unparsed (sp\<lparr>m_unparsedBuffer := b\<rparr>) a n)"
proof -
  have "\<exists>b' r'. sp\<lparr>m_unparsedBuffer := b\<rparr> = sp\<lparr>m_unparsedBuffer := b', m_parsedBuffer := r'\<rparr>"
    by (rule exI [of _ b], rule exI [of _ "m_parsedBuffer sp"]) simp
  then show "collecting sp (chunks_content b) (sp\<lparr>m_unparsedBuffer := b\<rparr>)"
    using assms by (simp add: collecting_def sp_ok_def sp_text_def)
  have "\<exists>b' r'. ref_unparsed (sp\<lparr>m_unparsedBuffer := b\<rparr>) a n =
      sp\<lparr>m_unparsedBuffer := b', m_parsedBuffer := r'\<rparr>"
    by (intro exI) (simp add: ref_unparsed_def)
  then show "collecting sp (chunks_content b) (ref_unparsed (sp\<lparr>m_unparsedBuffer := b\<rparr>) a n)"
    using assms by (simp add: collecting_def sp_ok_def sp_text_def)
qed

lemma collecting_room:
  assumes "collecting sp t sp'" "has_room (m_unparsedBuffer sp) n"
    "length t + k \<le> length (sp_text sp) + n"
  shows "has_room (m_unparsedBuffer sp') k"
  using assms has_room_same unfolding collecting_def sp_text_def by blast

lemma collecting_fields:
  assumes "collecting sp t sp'"
  shows "m_parseMode sp' = m_parseMode sp" "m_parseDelimiter sp' = m_parseDelimiter sp"
    "m_streamEnded sp' = m_streamEnded sp" "m_parseMultiDelimiter sp' = m_parseMultiDelimiter sp"
    "m_parseStatus sp' = m_parseStatus sp" "subparser.more sp' = subparser.more sp"
    "sp_ok sp'" "sp_text sp' = t"
    "m_maxSize (m_unparsedBuffer sp') = m_maxSize (m_unparsedBuffer sp)"
    "m_maxChunks (m_unparsedBuffer sp') = m_maxChunks (m_unparsedBuffer sp)"
  using assms unfolding collecting_def same_limits_def by auto

text \<open>An absorbing step extends the text by the whole fragment; a run of absorbing steps does the
  same with all the fragments, whatever the cut.\<close>

lemma feed_collects:
  assumes step: "\<And>s d. collecting sp (sp_text s) s \<Longrightarrow> d \<noteq> [] \<Longrightarrow> Q (sp_text s @ d) \<Longrightarrow>
      \<exists>s'. writeIntoSubParser parse u s d = Inr (Some (length d), s') \<and> collecting s (sp_text s @ d) s'"
    and mono: "\<And>xs ys. Q (xs @ ys) \<Longrightarrow> Q xs"
  shows "\<forall>d\<in>set ds. d \<noteq> [] \<Longrightarrow> collecting sp (sp_text s) s \<Longrightarrow> Q (sp_text s @ concat ds) \<Longrightarrow>
    \<exists>s'. feed parse u s ds = Some (map (\<lambda>d. Some (length d)) ds, s') \<and> collecting s (sp_text s @ concat ds) s'"
proof (induction ds arbitrary: s)
  case Nil
  then show ?case using collecting_refl collecting_fields(7) by force
next
  case (Cons d ds)
  have "Q (sp_text s @ d)" using Cons.prems(3) mono [of "sp_text s @ d" "concat ds"] by simp
  then obtain s1 where s1: "writeIntoSubParser parse u s d = Inr (Some (length d), s1)"
    "collecting s (sp_text s @ d) s1" using step [OF Cons.prems(2)] Cons.prems(1) by auto
  have t1: "sp_text s1 = sp_text s @ d" using s1(2) by (simp add: collecting_def)
  have "collecting sp (sp_text s1) s1" using collecting_trans [OF Cons.prems(2) s1(2)] by (simp add: t1)
  then obtain s2 where s2: "feed parse u s1 ds = Some (map (\<lambda>d. Some (length d)) ds, s2)"
    "collecting s1 (sp_text s1 @ concat ds) s2"
    using Cons.IH [of s1] Cons.prems(1,3) by (auto simp: t1)
  from collecting_trans [OF s1(2) s2(2)] have "collecting s (sp_text s @ concat (d # ds)) s2"
    by (simp add: t1)
  moreover have "feed parse u s (d # ds) = Some (map (\<lambda>d. Some (length d)) (d # ds), s2)"
    using s1(1) s2(1) by simp
  ultimately show ?case by blast
qed

lemma find_sub_prefix: "find_sub \<delta> (xs @ ys) = None \<Longrightarrow> find_sub \<delta> xs = None"
proof -
  have "occurs_at \<delta> (xs @ ys) i" if "occurs_at \<delta> xs i" for i
    using that by (auto simp: occurs_at_def)
  then show "find_sub \<delta> (xs @ ys) = None \<Longrightarrow> find_sub \<delta> xs = None"
    by (auto simp: find_sub_None_iff)
qed

lemma delimiter_absorbs:
  assumes "m_parseMode sp = DELIMITER" "\<not> m_streamEnded sp" "m_parseDelimiter sp \<noteq> []"
    "has_room (m_unparsedBuffer sp) n" "length (m_parseDelimiter sp) + length (sp_text sp) + n < two64"
    "collecting sp (sp_text s) s" "d \<noteq> []" "find_sub (m_parseDelimiter sp) (sp_text s @ d) = None"
    "length (sp_text s @ d) \<le> length (sp_text sp) + n"
  shows "\<exists>s'. writeIntoSubParser parse u s d = Inr (Some (length d), s') \<and> collecting s (sp_text s @ d) s'"
proof -
  note f = collecting_fields [OF assms(6)]
  have room: "has_room (m_unparsedBuffer s) (length d)"
    using collecting_room [OF assms(6,4), of "length d"] assms(9) by simp
  obtain b where b: "chunks_ok b" "has_room b 0" "chunks_content b = sp_text s @ d"
    "same_limits (m_unparsedBuffer s) b"
    "parseByDelimiter parse s d = (Some (length d), ref_unparsed (s\<lparr>m_unparsedBuffer := b\<rparr>) 0 size_max)"
    using delimiter_step [OF f(7) room, of parse] assms f by auto
  then show ?thesis using collecting_buffer(2) [OF b(1,2,4)] assms f
    by (auto simp: writeIntoSubParser_def)
qed

lemma delimiter_feed:
  assumes "sp_ok sp" "m_parseMode sp = DELIMITER" "\<not> m_streamEnded sp" "m_parseDelimiter sp \<noteq> []"
    "has_room (m_unparsedBuffer sp) n" "length (m_parseDelimiter sp) + length (sp_text sp) + n < two64"
    "\<forall>d\<in>set ds. d \<noteq> []" "length (concat ds) \<le> n"
    "find_sub (m_parseDelimiter sp) (sp_text sp @ concat ds) = None"
  shows "\<exists>s'. feed parse u sp ds = Some (map (\<lambda>d. Some (length d)) ds, s') \<and>
    collecting sp (sp_text sp @ concat ds) s'"
proof (rule feed_collects [where sp = sp and
      Q = "\<lambda>t. find_sub (m_parseDelimiter sp) t = None \<and> length t \<le> length (sp_text sp) + n"])
  show "\<exists>s'. writeIntoSubParser parse u s d = Inr (Some (length d), s') \<and> collecting s (sp_text s @ d) s'"
    if "collecting sp (sp_text s) s" "d \<noteq> []"
      "find_sub (m_parseDelimiter sp) (sp_text s @ d) = None \<and> length (sp_text s @ d) \<le> length (sp_text sp) + n"
    for s d using delimiter_absorbs [OF assms(2-6) that(1,2)] that(3) by blast
qed (use assms collecting_refl find_sub_prefix in auto)

subsection \<open>By size and until the end of the connection\<close>

lemma clear_unparsed_fields [simp]:
  "m_streamEnded (clear_unparsed sp) = m_streamEnded sp"
  "m_parsedBuffer (clear_unparsed sp) = m_parsedBuffer sp"
  "m_parseDelimiter (clear_unparsed sp) = m_parseDelimiter sp"
  "m_delimiterFound (clear_unparsed sp) = m_delimiterFound sp"
  "m_parseMultiDelimiter (clear_unparsed sp) = m_parseMultiDelimiter sp"
  "m_parseMode (clear_unparsed sp) = m_parseMode sp"
  "m_parseStatus (clear_unparsed sp) = m_parseStatus sp"
  "subparser.more (clear_unparsed sp) = subparser.more sp"
  by (simp_all add: clear_unparsed_def)

lemma size_step:
  assumes "sp_ok sp" "data \<noteq> []" "length (sp_text sp) < N" "N = m_maxSize (m_unparsedBuffer sp)"
    "N \<le> m_maxChunks (m_unparsedBuffer sp)"
  shows "\<exists>b. chunks_ok b \<and> has_room b 0 \<and> chunks_content b = take N (sp_text sp @ data) \<and>
    same_limits (m_unparsedBuffer sp) b \<and>
    parseBySize parse sp data = (Some (min (length data) (N - length (sp_text sp))),
      if N \<le> length (sp_text sp) + length data
      then clear_unparsed (run_parse parse (ref_unparsed (sp\<lparr>m_unparsedBuffer := b\<rparr>) 0 size_max))
      else sp\<lparr>m_unparsedBuffer := b\<rparr>)"
proof -
  define k where "k = min (length data) (N - length (sp_text sp))"
  have k: "k \<noteq> 0" using assms(2,3) by (simp add: k_def)
  have kc: "length (sp_text sp) + k \<le> m_maxChunks (m_unparsedBuffer sp)"
    using assms(3,5) by (auto simp: k_def min_def)
  obtain b where b: "appendToUnparsedBuffer sp data = (Some k, sp\<lparr>m_unparsedBuffer := b\<rparr>)" "chunks_ok b"
    "chunks_content b = sp_text sp @ take k data" "same_limits (m_unparsedBuffer sp) b" "has_room b 0"
    using append_unparsed [OF assms(1) k_def [unfolded assms(4)] _ kc] k by blast
  have c: "chunks_content b = take N (sp_text sp @ data)" using b(3) assms(3) by (simp add: k_def min_def)
  have "B_getSizeLeft CO b = N - length (chunks_content b)"
    using sp_size_left [of "sp\<lparr>m_unparsedBuffer := b\<rparr>"] b(2,4,5) assms(4)
    by (simp add: sp_ok_def sp_text_def same_limits_def)
  then have "B_getSizeLeft CO b = 0 \<longleftrightarrow> N \<le> length (sp_text sp) + length data" by (auto simp: c)
  then show ?thesis using b c assms(2) by (intro exI [of _ b]) (simp add: parseBySize_def k_def)
qed

lemma size_absorbs:
  assumes "m_parseMode sp = SIZE" "N = m_maxSize (m_unparsedBuffer sp)" "N \<le> m_maxChunks (m_unparsedBuffer sp)"
    "collecting sp (sp_text s) s" "d \<noteq> []" "length (sp_text s @ d) < N"
  shows "\<exists>s'. writeIntoSubParser parse u s d = Inr (Some (length d), s') \<and> collecting s (sp_text s @ d) s'"
proof -
  note f = collecting_fields [OF assms(4)]
  have len: "length (sp_text s) < N" "\<not> N \<le> length (sp_text s) + length d" using assms(6) by auto
  have "N = m_maxSize (m_unparsedBuffer s)" "N \<le> m_maxChunks (m_unparsedBuffer s)" using assms(2,3) f by auto
  from size_step [OF f(7) assms(5) len(1) this, of parse]
  obtain b where b: "chunks_ok b" "has_room b 0" "chunks_content b = sp_text s @ d"
    "same_limits (m_unparsedBuffer s) b" "parseBySize parse s d = (Some (length d), s\<lparr>m_unparsedBuffer := b\<rparr>)"
    using len(2) by auto
  have "writeIntoSubParser parse u s d = Inr (Some (length d), s\<lparr>m_unparsedBuffer := b\<rparr>)"
    using b(5) assms(1,5) f(1) by (simp add: writeIntoSubParser_def)
  then show ?thesis using collecting_buffer(1) [OF b(1,2,4)] b(3) by auto
qed

lemma connection_end_absorbs:
  assumes "m_parseMode sp = CONNECTION_END" "has_room (m_unparsedBuffer sp) n"
    "collecting sp (sp_text s) s" "d \<noteq> []" "length (sp_text s @ d) \<le> length (sp_text sp) + n"
  shows "\<exists>s'. writeIntoSubParser parse u s d = Inr (Some (length d), s') \<and> collecting s (sp_text s @ d) s'"
proof -
  note f = collecting_fields [OF assms(3)]
  have room: "has_room (m_unparsedBuffer s) (length d)"
    using collecting_room [OF assms(3,2), of "length d"] assms(5) by simp
  obtain b where b: "appendToUnparsedBuffer s d = (Some (length d), s\<lparr>m_unparsedBuffer := b\<rparr>)"
    "chunks_ok b" "chunks_content b = sp_text s @ d" "same_limits (m_unparsedBuffer s) b" "has_room b 0"
    using append_unparsed_all [OF f(7) room] by blast
  then have "writeIntoSubParser parse u s d = Inr (Some (length d), s\<lparr>m_unparsedBuffer := b\<rparr>)"
    using assms f by (simp add: writeIntoSubParser_def parseByConnectionEnd_def)
  then show ?thesis using collecting_buffer(1) [OF b(2,5,4)] b(3) by auto
qed

lemma size_feed:
  assumes "sp_ok sp" "m_parseMode sp = SIZE" "N = m_maxSize (m_unparsedBuffer sp)"
    "N \<le> m_maxChunks (m_unparsedBuffer sp)" "\<forall>d\<in>set ds. d \<noteq> []" "length (sp_text sp @ concat ds) < N"
  shows "\<exists>s'. feed parse u sp ds = Some (map (\<lambda>d. Some (length d)) ds, s') \<and>
    collecting sp (sp_text sp @ concat ds) s'"
proof (rule feed_collects [where sp = sp and Q = "\<lambda>t. length t < N"])
  show "\<exists>s'. writeIntoSubParser parse u s d = Inr (Some (length d), s') \<and> collecting s (sp_text s @ d) s'"
    if "collecting sp (sp_text s) s" "d \<noteq> []" "length (sp_text s @ d) < N" for s d
    using size_absorbs [OF assms(2-4) that] .
qed (use assms collecting_refl in auto)

lemma connection_end_feed:
  assumes "sp_ok sp" "m_parseMode sp = CONNECTION_END" "has_room (m_unparsedBuffer sp) (length (concat ds))"
    "\<forall>d\<in>set ds. d \<noteq> []"
  shows "\<exists>s'. feed parse u sp ds = Some (map (\<lambda>d. Some (length d)) ds, s') \<and>
    collecting sp (sp_text sp @ concat ds) s'"
proof (rule feed_collects [where sp = sp and
      Q = "\<lambda>t. length t \<le> length (sp_text sp) + length (concat ds)"])
  show "\<exists>s'. writeIntoSubParser parse u s d = Inr (Some (length d), s') \<and> collecting s (sp_text s @ d) s'"
    if "collecting sp (sp_text s) s" "d \<noteq> []"
      "length (sp_text s @ d) \<le> length (sp_text sp) + length (concat ds)" for s d
    using connection_end_absorbs [OF assms(2,3) that] .
qed (use assms collecting_refl in auto)

subsection \<open>Direct\<close>

lemma run_parse_fields [simp]:
  "m_unparsedBuffer (run_parse parse sp) = m_unparsedBuffer (snd (parse sp))"
  "m_parseDelimiter (run_parse parse sp) = m_parseDelimiter (snd (parse sp))"
  "m_delimiterFound (run_parse parse sp) = m_delimiterFound (snd (parse sp))"
  "m_parseMode (run_parse parse sp) = m_parseMode (snd (parse sp))"
  "m_parseStatus (run_parse parse sp) = fst (parse sp)"
  "subparser.more (run_parse parse sp) = subparser.more (snd (parse sp))"
  by (simp_all add: run_parse_def setParseResult_def split: prod.split)

lemma cleared_buffer:
  assumes "chunks_ok b"
  shows "chunks_ok (snd (B_clear CO b))" "chunks_content (snd (B_clear CO b)) = []"
    "same_limits b (snd (B_clear CO b))"
  using B_clear_chunks [of no_mmap b] assms by (auto simp: chunks_ok_def chunks_wf_def)

lemma direct_write:
  assumes "sp_ok sp" "sp_text sp = []" "m_parseMode sp = DIRECT" "data \<noteq> []"
    "k = min (length data) (m_maxSize (m_unparsedBuffer sp))" "0 < k" "k \<le> m_maxChunks (m_unparsedBuffer sp)"
    and keep: "\<And>c. m_unparsedBuffer (snd (parse (ref_unparsed (sp\<lparr>m_unparsedBuffer := c\<rparr>) 0 size_max))) = c"
  shows "\<exists>c. chunks_ok c \<and> chunks_content c = take k data \<and> same_limits (m_unparsedBuffer sp) c \<and> has_room c 0 \<and>
    writeIntoSubParser parse u sp data = Inr (Some k, (run_parse parse (ref_unparsed (sp\<lparr>m_unparsedBuffer := c\<rparr>) 0 size_max))
      \<lparr>m_unparsedBuffer := (snd (B_clear CO c))\<lparr>m_maxSize := m_maxSize c - k\<rparr>\<rparr>)"
proof -
  have "k = min (length data) (m_maxSize (m_unparsedBuffer sp) - length (sp_text sp))"
    "length (sp_text sp) + k \<le> m_maxChunks (m_unparsedBuffer sp)" using assms(2,5,7) by simp_all
  then obtain c where c: "appendToUnparsedBuffer sp data = (Some k, sp\<lparr>m_unparsedBuffer := c\<rparr>)" "chunks_ok c"
    "chunks_content c = take k data" "same_limits (m_unparsedBuffer sp) c" "has_room c 0"
    using append_unparsed [OF assms(1), of k data] assms(6) unfolding assms(2) append_Nil
    by (metis less_numeral_extra(3))
  note cl = cleared_buffer [OF c(2)]
  have kc: "length (chunks_content c) = k" "k \<le> m_maxSize c" using c(3,4) assms(5) by (auto simp: same_limits_def)
  have sz: "B_Chunks_size no_mmap c = k" using chunks_size [OF chunks_ok_wf [OF c(2)]] kc by simp
  have "parseDirect parse sp data = Inr (Some k, (run_parse parse (ref_unparsed (sp\<lparr>m_unparsedBuffer := c\<rparr>) 0 size_max))
      \<lparr>m_unparsedBuffer := (snd (B_clear CO c))\<lparr>m_maxSize := m_maxSize c - k\<rparr>\<rparr>)"
    using c(1) kc sz cl(3)
    by (simp add: parseDirect_def Let_def B_reduceMaxSizeBy_def B_setMaxSize_def clear_unparsed_def keep same_limits_def)
  then show ?thesis using c assms(3,4) by (intro exI [of _ c]) (simp add: writeIntoSubParser_def)
qed

lemma direct_step:
  assumes "sp_ok sp" "sp_text sp = []" "m_parseMode sp = DIRECT" "data \<noteq> []"
    "k = min (length data) (m_maxSize (m_unparsedBuffer sp))" "0 < k" "k \<le> m_maxChunks (m_unparsedBuffer sp)"
    and keep: "\<And>s. m_unparsedBuffer (snd (parse s)) = m_unparsedBuffer s"
  shows "\<exists>b s2. writeIntoSubParser parse u sp data = Inr (Some k, (run_parse parse s2)\<lparr>m_unparsedBuffer := b\<rparr>) \<and>
    parsed_text s2 = take k data \<and> subparser.more s2 = subparser.more sp \<and> m_parseMode s2 = DIRECT \<and>
    chunks_ok b \<and> chunks_content b = [] \<and> has_room b 0 \<and> m_maxSize b = m_maxSize (m_unparsedBuffer sp) - k \<and>
    m_maxChunks b = m_maxChunks (m_unparsedBuffer sp)"
proof -
  have keep': "m_unparsedBuffer (snd (parse (ref_unparsed (sp\<lparr>m_unparsedBuffer := c\<rparr>) 0 size_max))) = c" for c using keep by simp
  obtain c where c: "chunks_ok c" "chunks_content c = take k data" "same_limits (m_unparsedBuffer sp) c" "has_room c 0"
    and w: "writeIntoSubParser parse u sp data = Inr (Some k, (run_parse parse (ref_unparsed (sp\<lparr>m_unparsedBuffer := c\<rparr>) 0 size_max))
      \<lparr>m_unparsedBuffer := (snd (B_clear CO c))\<lparr>m_maxSize := m_maxSize c - k\<rparr>\<rparr>)"
    using direct_write [OF assms(1-7) keep', where u = u] by blast
  let ?s2 = "ref_unparsed (sp\<lparr>m_unparsedBuffer := c\<rparr>) 0 size_max" and ?b = "(snd (B_clear CO c))\<lparr>m_maxSize := m_maxSize c - k\<rparr>"
  note cl = cleared_buffer [OF c(1)]
  have bc: "chunks_ok ?b" "chunks_content ?b = []"
    using cl(1,2) by (auto simp: chunks_ok_def chunks_wf_def chunks_content_def)
  moreover have "has_room ?b 0"
    unfolding has_room_def bc(2) using c(4) cl(3) by (auto simp: has_room_def same_limits_def)
  moreover have "m_maxSize ?b = m_maxSize (m_unparsedBuffer sp) - k" "m_maxChunks ?b = m_maxChunks (m_unparsedBuffer sp)"
    using c(3) cl(3) by (auto simp: same_limits_def)
  moreover have "parsed_text ?s2 = take k data"
    using parsed_text_all [of "sp\<lparr>m_unparsedBuffer := c\<rparr>"] c(1,2) by (simp add: sp_text_def)
  ultimately show ?thesis using w assms(3) by (intro exI [of _ ?b] exI [of _ ?s2]) simp
qed

subsection \<open>Several delimiters\<close>

text \<open>The reference: the first delimiter of the list that occurs at all, at its first position.\<close>

fun find_listed :: "bytes list \<Rightarrow> bytes \<Rightarrow> (nat \<times> bytes) option" where
  "find_listed [] xs = None"
| "find_listed (\<delta> # \<delta>s) xs =
     (case find_sub \<delta> xs of Some i \<Rightarrow> Some (i, \<delta>) | None \<Rightarrow> find_listed \<delta>s xs)"

lemma findAny_listed:
  assumes "chunks_ok b" "\<forall>\<delta>\<in>set \<delta>s. \<delta> \<noteq> [] \<and> length \<delta> + length (chunks_content b) < two64"
  shows "B_findAny CO b \<delta>s True 0 0 = find_listed \<delta>s (chunks_content b)"
  using assms(2) by (induction \<delta>s) (auto simp: find_unparsed [OF assms(1)] split: option.split)

lemma multi_step:
  assumes "sp_ok sp" "has_room (m_unparsedBuffer sp) (length data)"
    "\<forall>\<delta>\<in>set (m_parseMultiDelimiter sp). \<delta> \<noteq> [] \<and> length \<delta> + length (sp_text sp) + length data < two64"
  shows "\<exists>b. chunks_ok b \<and> has_room b 0 \<and> chunks_content b = sp_text sp @ data \<and>
    same_limits (m_unparsedBuffer sp) b \<and>
    parseByMultiDelimiter parse sp data =
      (case find_listed (m_parseMultiDelimiter sp) (sp_text sp @ data) of
         Some (i, \<delta>) \<Rightarrow>
           (let sp3 = clear_unparsed (run_parse parse (ref_unparsed
                        (sp\<lparr>m_unparsedBuffer := b, m_delimiterFound := \<delta>\<rparr>) 0 i)) in
            (Some (sub64 (add64 i (length (m_delimiterFound sp3))) (length (sp_text sp))), sp3))
       | None \<Rightarrow> (Some (length data),
                  (if m_streamEnded sp then \<lambda>s. clear_unparsed (run_parse parse s) else id)
                    (ref_unparsed (sp\<lparr>m_unparsedBuffer := b\<rparr>) 0 size_max)))"
proof -
  obtain b where b: "appendToUnparsedBuffer sp data = (Some (length data), sp\<lparr>m_unparsedBuffer := b\<rparr>)"
    "chunks_ok b" "chunks_content b = sp_text sp @ data" "same_limits (m_unparsedBuffer sp) b" "has_room b 0"
    using append_unparsed_all [OF assms(1,2)] by blast
  have f: "B_findAny CO b (m_parseMultiDelimiter sp) True 0 0 =
      find_listed (m_parseMultiDelimiter sp) (sp_text sp @ data)"
    using findAny_listed [OF b(2), of "m_parseMultiDelimiter sp"] assms(3) b(3) by (auto simp: add.assoc)
  have ref: "ref_unparsed ((ref_unparsed (sp\<lparr>m_unparsedBuffer := b\<rparr>) 0 size_max)\<lparr>m_delimiterFound := \<delta>\<rparr>) 0 i =
      ref_unparsed (sp\<lparr>m_unparsedBuffer := b, m_delimiterFound := \<delta>\<rparr>) 0 i" for i \<delta>
    by (simp add: ref_unparsed_def B_Ref_reference_def)
  show ?thesis
    by (rule exI [of _ b]) (use b in \<open>simp add: parseByMultiDelimiter_def sp_size [OF assms(1)] f Let_def ref
      split: option.split\<close>)
qed

subsection \<open>Direct up to a delimiter\<close>

text \<open>The reference: the longest proper prefix of the delimiter that the text ends with.\<close>

fun longest_border :: "bytes \<Rightarrow> bytes \<Rightarrow> nat \<Rightarrow> nat" where
  "longest_border t \<delta> 0 = 0"
| "longest_border t \<delta> (Suc v) =
     (if drop (length t - Suc v) t = take (Suc v) \<delta> then Suc v else longest_border t \<delta> v)"

lemma longest_border_le: "longest_border t \<delta> v \<le> v"
  by (induction v) auto

lemma longest_border_max:
  "w \<le> v \<Longrightarrow> drop (length t - w) t = take w \<delta> \<Longrightarrow> w \<le> longest_border t \<delta> v"
proof (induction v)
  case (Suc v)
  then show ?case by (cases "w = Suc v") auto
qed simp

lemma border_safe:
  assumes none: "find_sub \<delta> t = None" and occ: "occurs_at \<delta> (t @ ys) j"
    and v: "v = longest_border t \<delta> (min (length t) (length \<delta> - 1))"
  shows "length t - v \<le> j"
proof (rule ccontr)
  assume "\<not> ?thesis"
  then have j: "j < length t - v" by simp
  let ?w = "length t - j"
  have over: "length t < j + length \<delta>"
  proof (rule ccontr)
    assume "\<not> ?thesis"
    then have "occurs_at \<delta> t j" using occ j by (auto simp: occurs_at_def)
    then show False using none by (simp add: find_sub_None_iff)
  qed
  have "take (length \<delta>) (drop j (t @ ys)) = \<delta>" using occ by (simp add: occurs_at_def)
  then have "drop j t @ take (length \<delta> - ?w) ys = \<delta>" using over j by (simp split: if_splits)
  then have "drop (length t - ?w) t = take ?w \<delta>"
    using j by (metis append_eq_conv_conj diff_diff_cancel length_drop less_imp_le_nat
        less_or_eq_imp_le order_less_le_trans diff_le_self)
  moreover have "?w \<le> min (length t) (length \<delta> - 1)" using over j by auto
  ultimately have "?w \<le> v" unfolding v by (rule longest_border_max [rotated])
  then show False using j by simp
qed

lemma lastBytes_border:
  assumes "sp_ok sp" "v \<le> length (sp_text sp)" "v \<le> length \<delta>"
  shows "lastBytes_loop u sp \<delta> v = longest_border (sp_text sp) \<delta> v"
  using assms(2,3)
proof (induction v)
  case (Suc v)
  let ?t = "sp_text sp" and ?r = "referenceLastBytes sp (Suc v)"
  note bnd = sp_text_bound [OF assms(1)]
  have off: "sub64 (length ?t) (Suc v) = length ?t - Suc v" using Suc.prems bnd by (simp add: sub64_small)
  have r: "referencedBC ?r = Some (m_unparsedBuffer sp)" "referencedOffset ?r = length ?t - Suc v"
    "referencedMaxBytes ?r = size_max"
    using sp_size [OF assms(1)] off by (auto simp: referenceLastBytes_def B_Ref_reference_def)
  have ok: "ref_ok chunks_content chunks_ok ?r" using r assms(1) by (simp add: ref_ok_def sp_ok_def sp_text_def)
  have cont: "ref_content chunks_content ?r = drop (length ?t - Suc v) ?t"
    using r bnd by (simp add: ref_content_def sp_text_def size_max_def)
  have sz: "B_Ref_size CO ?r = Suc v" using ra.ref_size [OF ok, of no_mmap] Suc.prems by (simp add: cont)
  have out: "B_copyOut (ref_ops CO) ?r (Suc v) 0 = Some (drop (length ?t - Suc v) ?t)"
    using rref.copyOut_slice [OF ok, of 0 "Suc v"] Suc.prems by (simp add: cont)
  show ?case
    using Suc by (simp add: Let_def sz out memcmp_zero)
qed simp

lemma direct_delimiter_step:
  assumes "sp_ok sp" "has_room (m_unparsedBuffer sp) (length data)" "m_parseDelimiter sp = \<delta>" "\<delta> \<noteq> []"
    "length \<delta> + length (sp_text sp) + length data < two64"
    and keep: "\<And>s. m_unparsedBuffer (snd (parse s)) = m_unparsedBuffer s"
    and t: "t = sp_text sp @ data" and none: "find_sub \<delta> t = None"
    and v: "v = longest_border t \<delta> (min (length t) (length \<delta> - 1))"
  shows "\<exists>s2 b. parseDirectDelimiter parse u sp data =
      (Some (length data), (run_parse parse s2)\<lparr>m_unparsedBuffer := b\<rparr>) \<and>
    parsed_text s2 = take (length t - v) t \<and> subparser.more s2 = subparser.more sp \<and>
    chunks_wf b \<and> chunks_content b = drop (length t - v) t"
proof -
  let ?sp = "sp\<lparr>m_delimiterFound := []\<rparr>"
  have ok': "sp_ok ?sp" "sp_text ?sp = sp_text sp" using assms(1) by (simp_all add: sp_ok_def sp_text_def)
  obtain b where b: "appendToUnparsedBuffer ?sp data = (Some (length data), ?sp\<lparr>m_unparsedBuffer := b\<rparr>)"
    "chunks_ok b" "chunks_content b = t" "has_room b 0"
    using append_unparsed_all [OF ok'(1), of data] assms(2) ok'(2) by (auto simp: t)
  let ?s1 = "?sp\<lparr>m_unparsedBuffer := b\<rparr>"
  have s1: "sp_ok ?s1" "sp_text ?s1 = t" using b by (simp_all add: sp_ok_def sp_text_def)
  have f: "B_find CO b \<delta> True 0 0 = None"
    using find_unparsed [OF b(2) assms(4)] b(3) none assms(5) by (simp add: t)
  have d1: "sub64 (length \<delta>) 1 = length \<delta> - 1"
    using assms(4,5) by (intro sub64_small) (auto simp: Suc_le_eq)
  have "getLastBytesInCommon u ?s1 \<delta> = v"
    using lastBytes_border [OF s1(1), of "min (length t) (length \<delta> - 1)" \<delta> u] s1(2) sp_size [OF s1(1)] d1
    by (simp add: getLastBytesInCommon_def v)
  note g = this
  have vt: "v \<le> length t" "length t < two64"
    using longest_border_le [of t \<delta> "min (length t) (length \<delta> - 1)"] assms(5) by (auto simp: v t)
  have szb: "B_Chunks_size no_mmap b = length t" using sp_size [OF s1(1)] s1(2) by simp
  show ?thesis
  proof (cases "v = 0")
    case True
    have "parseDirectDelimiter parse u sp data =
        (Some (length data), clear_unparsed (run_parse parse (ref_unparsed ?s1 0 size_max)))"
      using b(1) f g True assms(3) by (simp add: parseDirectDelimiter_def Let_def)
    then show ?thesis
      using parsed_text_all [of ?s1] b(2) s1(2) True cleared_buffer [OF b(2)] chunks_ok_wf
      by (intro exI [of _ "ref_unparsed ?s1 0 size_max"] exI [of _ "snd (B_clear CO b)"])
        (simp add: clear_unparsed_def keep)
  next
    case False
    have sub: "sub64 (length t) v = length t - v" using vt by (simp add: sub64_small)
    let ?s2 = "ref_unparsed ?s1 0 (length t - v)"
    obtain b' where b': "B_displace CO b (length t - v) = (Some (min (length t - v) (length t)), b')"
      "chunks_wf b'" "chunks_content b' = drop (length t - v) t"
      using B_displace_drop [OF chunks_ok_wf [OF b(2)], of no_mmap "length t - v"] b(3) by auto
    have "parseDirectDelimiter parse u sp data =
        (Some (length data), (run_parse parse ?s2)\<lparr>m_unparsedBuffer := b'\<rparr>)"
      using b(1) f g False assms(3) b'(1) by (simp add: parseDirectDelimiter_def Let_def szb sub keep)
    then show ?thesis using parsed_text_ref [of ?s1 "length t - v"] b(2) s1(2) b'(2,3)
      by (intro exI [of _ ?s2] exI [of _ b']) simp
  qed
qed

end
