(* ===== verification/Stream_Parser.thy ===== *)
theory Stream_Parser
  imports Sub_Parser
begin

text \<open>
  \<open>Memory/parser.{h,cpp}\<close>: the driver that pushes stream data through the current
  sub-parser and moves on when an element is complete. A protocol parser is a record extension
  of \<open>parser_base\<close>; the sub-parser call and the virtual methods are the fields of
  \<open>parser_ops\<close>. The recursion is bounded by the TTL counter of the code; the limit is read
  once per write, as no code of the repository changes it during one. A sub-parser that claims
  more bytes than it was given would make the code run past the buffer: that is the outcome
  \<open>Overrun\<close>, which the contract \<open>parser_stage\<close> rules out. A virtual method may throw, or
  write to an upstream that throws or never returns; these are outcomes of \<open>parser_exn\<close> too. The
  debug output is left out.
\<close>

record parser_base =
  p_writeStatus :: write_status
  m_maxTTL :: nat
  m_initialized :: bool

definition parser_base_init :: parser_base where
  "parser_base_init = \<lparr>p_writeStatus = ws_init, m_maxTTL = 4096, m_initialized = False\<rparr>"

definition setMaxTTL :: "'z parser_base_scheme \<Rightarrow> nat \<Rightarrow> 'z parser_base_scheme" where
  "setMaxTTL p v = p\<lparr>m_maxTTL := v\<rparr>"

text \<open>\<open>pp_current\<close>: the pointer to the current sub-parser is not null. \<open>pp_write\<close>: reset
  its status to \<open>GET_MORE_DATA\<close> and call \<open>writeIntoSubParser\<close>. \<open>pp_next\<close>:
  \<open>changeToNextParser\<close>.\<close>

datatype parser_exn = Sub_exn b_exn | Overrun | Runtime_error | Upstream_exn stream_exn | Upstream_hangs

record 'p parser_ops =
  pp_current :: "'p \<Rightarrow> bool"
  pp_write :: "'p \<Rightarrow> bytes \<Rightarrow> parser_exn + (nat option \<times> 'p)"
  pp_status :: "'p \<Rightarrow> ParseResult"
  pp_next :: "'p \<Rightarrow> parser_exn + (bool \<times> 'p)"

definition set_finished :: "'z parser_base_scheme \<Rightarrow> 'z parser_base_scheme" where
  "set_finished p = p\<lparr>p_writeStatus := (p_writeStatus p)\<lparr>finished := True\<rparr>\<rparr>"

function parseData ::
  "'z parser_base_scheme parser_ops \<Rightarrow> nat \<Rightarrow> 'z parser_base_scheme \<Rightarrow> bytes \<Rightarrow> nat \<Rightarrow>
     parser_exn + (nat option \<times> 'z parser_base_scheme)" where
  "parseData P maxTTL p buf ttl =
     (if ttl > maxTTL then Inr (None, p)
      else if \<not> pp_current P p then Inr (None, p)
      else case pp_write P p buf of
        Inl e \<Rightarrow> Inl e
      | Inr (None, p1) \<Rightarrow> Inr (None, p1)
      | Inr (Some writtenBytes, p1) \<Rightarrow>
          (let dataLeft = (\<lambda>q.
                 if writtenBytes > length buf then Inl Overrun
                 else case parseData P maxTTL q (drop writtenBytes buf) (ttl + 1) of
                     Inl e \<Rightarrow> Inl e
                   | Inr (None, q') \<Rightarrow> Inr (None, q')
                   | Inr (Some x, q') \<Rightarrow> Inr (Some (add64 x writtenBytes), q')) in
           case pp_status P p1 of
             GOTO_NEXT_SUBPARSER \<Rightarrow>
               (case pp_next P p1 of Inl e \<Rightarrow> Inl e | Inr (changed, p2) \<Rightarrow>
                  if \<not> changed then Inr (None, p2)
                  else let p3 = (if \<not> pp_current P p2 then set_finished p2 else p2) in
                    if \<not> pp_current P p2 \<or> writtenBytes = length buf then Inr (Some writtenBytes, p3)
                    else dataLeft p3)
           | GET_MORE_DATA \<Rightarrow>
               (if writtenBytes = length buf then Inr (Some writtenBytes, p1) else dataLeft p1)
           | PR_ERROR \<Rightarrow> Inr (None, p1)))"
  by pat_completeness auto
termination
  by (relation "measure (\<lambda>(P, maxTTL, p, buf, ttl). maxTTL + 1 - ttl)") auto

declare parseData.simps [simp del]

definition Parser_write ::
  "'z parser_base_scheme parser_ops \<Rightarrow> 'z parser_base_scheme \<Rightarrow> bytes \<Rightarrow>
     parser_exn + (nat option \<times> 'z parser_base_scheme)" where
  "Parser_write P p buf =
     (if buf = [] then parseData P (m_maxTTL p) p [] 0 else parseData P (m_maxTTL p) p buf 0)"

datatype Parser_Result = SUCCEED | ERR_INIT | ERR_PARSING

text \<open>\<open>parseObject\<close> over the two streamables that feed the parser: each is its \<open>streamTo\<close>
  into this parser.\<close>

definition parseObject ::
  "('z parser_base_scheme \<Rightarrow> bool \<times> 'z parser_base_scheme) \<Rightarrow> ('z parser_base_scheme \<Rightarrow> 'z parser_base_scheme) \<Rightarrow>
   ('z parser_base_scheme \<Rightarrow> bool \<times> 'z parser_base_scheme) option \<Rightarrow>
   ('z parser_base_scheme \<Rightarrow> bool \<times> 'z parser_base_scheme) \<Rightarrow> 'z parser_base_scheme \<Rightarrow>
     Parser_Result \<times> 'z parser_base_scheme" where
  "parseObject initProtocol endProtocol pre streamable p =
     (case initProtocol (p\<lparr>p_writeStatus := (p_writeStatus p)\<lparr>finished := False\<rparr>\<rparr>) of (ok, p0) \<Rightarrow>
        (let p1 = p0\<lparr>m_initialized := ok\<rparr> in
         if ok then
           (case (case pre of None \<Rightarrow> (True, p1) | Some f \<Rightarrow> f p1) of (succeeded, p2) \<Rightarrow>
              (case (if succeeded then streamable p2 else (False, p2)) of (succeeded', p3) \<Rightarrow>
                 (if succeeded' then SUCCEED else ERR_PARSING, endProtocol p3)))
         else (ERR_INIT, p1)))"

section \<open>The contract of a stage\<close>

text \<open>What the driver relies on: a sub-parser does not throw and never claims more bytes than it
  was given, and both it and the change of stage keep the invariant; a change of stage throws only
  what is \<open>allowed\<close>.\<close>

locale parser_stage =
  fixes P :: "'z parser_base_scheme parser_ops"
    and invar :: "'z parser_base_scheme \<Rightarrow> bool"
    and allowed :: "parser_exn \<Rightarrow> bool"
  assumes write_ok: "invar p \<Longrightarrow> pp_current P p \<Longrightarrow>
      \<exists>n p'. pp_write P p buf = Inr (n, p') \<and> invar p' \<and> (\<forall>k. n = Some k \<longrightarrow> k \<le> length buf)"
    and next_ok: "invar p \<Longrightarrow> pp_current P p \<Longrightarrow> pp_status P p = GOTO_NEXT_SUBPARSER \<Longrightarrow>
      (\<exists>c p'. pp_next P p = Inr (c, p') \<and> invar p') \<or> (\<exists>e. pp_next P p = Inl e \<and> allowed e)"
    and write_current: "pp_write P p buf = Inr (n, p') \<Longrightarrow> pp_current P p' = pp_current P p"
    and finish_ok: "invar p \<Longrightarrow> invar (set_finished p)"
    and finish_current: "pp_current P (set_finished p) = pp_current P p"
begin

text \<open>A run ends well: all the data was consumed, or the protocol has ended, or the data was
  refused.\<close>

definition ends_well :: "bytes \<Rightarrow> parser_exn + (nat option \<times> 'z parser_base_scheme) \<Rightarrow> bool" where
  "ends_well buf res = (case res of
     Inl e \<Rightarrow> allowed e
   | Inr (r, p') \<Rightarrow> invar p' \<and> (\<forall>m. r = Some m \<longrightarrow> m \<le> length buf \<and> (m = length buf \<or> \<not> pp_current P p')))"

lemma ends_well_simps [simp]:
  "ends_well buf (Inl e) = allowed e"
  "ends_well buf (Inr (None, p')) = invar p'"
  "ends_well buf (Inr (Some m, p')) = (invar p' \<and> m \<le> length buf \<and> (m = length buf \<or> \<not> pp_current P p'))"
  by (simp_all add: ends_well_def)

lemma data_left:
  assumes "ends_well (drop k buf) res" "k \<le> length buf" "length buf < two64"
  shows "ends_well buf (case res of Inl e \<Rightarrow> Inl e | Inr (None, q') \<Rightarrow> Inr (None, q')
      | Inr (Some x, q') \<Rightarrow> Inr (Some (add64 x k), q'))"
proof (cases res)
  case (Inr rp)
  obtain r q where [simp]: "rp = (r, q)" by fastforce
  show ?thesis
  proof (cases r)
    case (Some x)
    then have x: "invar q" "x \<le> length buf - k" "x = length buf - k \<or> \<not> pp_current P q"
      using assms(1) Inr by auto
    then have "add64 x k = x + k" using assms(2,3) by (intro add64_small) simp
    then show ?thesis using Inr Some x assms(2) by auto
  qed (use assms(1) Inr in simp)
qed (use assms(1) in simp)

text \<open>The driver always returns, without overrun; a success means that all the data was
  consumed, or that the protocol has ended.\<close>

lemma parseData_ends_well:
  assumes "length buf < two64" "invar p"
  shows "ends_well buf (parseData P maxTTL p buf ttl)"
  using assms
proof (induction "maxTTL + 1 - ttl" arbitrary: p buf ttl rule: less_induct)
  case less
  show ?case
  proof (cases "ttl > maxTTL \<or> \<not> pp_current P p")
    case True
    then show ?thesis using less.prems by (subst parseData.simps) auto
  next
    case False
    obtain n p1 where w: "pp_write P p buf = Inr (n, p1)" "invar p1" "\<And>k. n = Some k \<Longrightarrow> k \<le> length buf"
      using write_ok [OF less.prems(2), of buf] False by blast
    show ?thesis
    proof (cases n)
      case None
      then show ?thesis using w False by (subst parseData.simps) simp
    next
      case (Some k)
      have dec: "maxTTL + 1 - (ttl + 1) < maxTTL + 1 - ttl" using False by linarith
      have len: "length (drop k buf) < two64" using less.prems(1) by simp
      note k = w(3) [OF Some]
      have left: "ends_well buf (if k > length buf then Inl Overrun
          else case parseData P maxTTL q (drop k buf) (ttl + 1) of
              Inl e \<Rightarrow> Inl e | Inr (None, q') \<Rightarrow> Inr (None, q')
            | Inr (Some x, q') \<Rightarrow> Inr (Some (add64 x k), q'))" if inv: "invar q" for q
        using data_left [OF less.hyps [OF dec len inv] k less.prems(1)] k by simp
      show ?thesis
      proof (cases "pp_status P p1 = GOTO_NEXT_SUBPARSER")
        case True
        have cur: "pp_current P p1" using write_current [OF w(1)] False by simp
        show ?thesis
        proof (cases "pp_next P p1")
          case (Inl e)
          then have "allowed e" using next_ok [OF w(2) cur True] by auto
          then show ?thesis using False w(1) Some True Inl by (subst parseData.simps) (simp add: Let_def)
        next
          case (Inr cp)
          obtain changed p2 where nx: "pp_next P p1 = Inr (changed, p2)" using Inr by (cases cp) auto
          then have p2: "invar p2" using next_ok [OF w(2) cur True] by auto
          show ?thesis
            using False w(1,2) k Some True nx p2 finish_ok [OF p2] left [OF p2]
            by (subst parseData.simps) (simp add: Let_def finish_current)
        qed
      next
        case other: False
        show ?thesis
          using False w(1,2) k Some other left [OF w(2)]
          by (subst parseData.simps) (simp add: Let_def split: ParseResult.split)
      qed
    qed
  qed
qed

lemma Parser_write_ends_well:
  "length buf < two64 \<Longrightarrow> invar p \<Longrightarrow> ends_well buf (Parser_write P p buf)"
  using parseData_ends_well [of buf p "m_maxTTL p" 0] by (cases "buf = []") (simp_all add: Parser_write_def)

lemma Parser_write_total:
  assumes "length buf < two64" "invar p" "\<And>e. \<not> allowed e"
  shows "\<exists>r p'. Parser_write P p buf = Inr (r, p') \<and> invar p' \<and>
    (\<forall>m. r = Some m \<longrightarrow> m \<le> length buf \<and> (m = length buf \<or> \<not> pp_current P p'))"
  using Parser_write_ends_well [OF assms(1,2)] assms(3)
  by (auto simp: ends_well_def split: sum.splits prod.splits)

end

text \<open>A finished parser, or one whose TTL has run out, refuses data without touching the state.\<close>

lemma parseData_refuses: "ttl > maxTTL \<or> \<not> pp_current P p \<Longrightarrow> parseData P maxTTL p buf ttl = Inr (None, p)"
  by (subst parseData.simps) auto

section \<open>Steps of the driver\<close>

text \<open>The number of bytes taken is added up over the recursion.\<close>

definition after_bytes :: "nat \<Rightarrow> parser_exn + (nat option \<times> 'p) \<Rightarrow> parser_exn + (nat option \<times> 'p)" where
  "after_bytes k res = (case res of Inl e \<Rightarrow> Inl e | Inr (None, q) \<Rightarrow> Inr (None, q)
     | Inr (Some x, q) \<Rightarrow> Inr (Some (add64 x k), q))"

lemma parseData_more_data:
  assumes "ttl \<le> maxTTL" "pp_current P p" "pp_write P p buf = Inr (Some k, p1)" "pp_status P p1 = GET_MORE_DATA" "k < length buf"
  shows "parseData P maxTTL p buf ttl = after_bytes k (parseData P maxTTL p1 (drop k buf) (ttl + 1))"
  using assms by (subst parseData.simps) (simp add: after_bytes_def Let_def)

lemma parseData_next_stage:
  assumes "ttl \<le> maxTTL" "pp_current P p" "pp_write P p buf = Inr (Some k, p1)" "pp_status P p1 = GOTO_NEXT_SUBPARSER"
  shows "pp_next P p1 = Inl e \<Longrightarrow> parseData P maxTTL p buf ttl = Inl e"
    "pp_next P p1 = Inr (True, p2) \<Longrightarrow> pp_current P p2 \<Longrightarrow> k = length buf \<Longrightarrow> parseData P maxTTL p buf ttl = Inr (Some k, p2)"
    "pp_next P p1 = Inr (True, p2) \<Longrightarrow> pp_current P p2 \<Longrightarrow> k < length buf \<Longrightarrow>
       parseData P maxTTL p buf ttl = after_bytes k (parseData P maxTTL p2 (drop k buf) (ttl + 1))"
  using assms by (subst parseData.simps, simp add: after_bytes_def Let_def)+

lemma after_bytes_some [simp]: "after_bytes k (Inr (Some x, q)) = Inr (Some (add64 x k), q)"
  by (simp add: after_bytes_def)

section \<open>Stages\<close>

text \<open>A stage that is written with what is left until it reports its end: after \<open>n\<close> writes that ask for more
  and one that ends it, \<open>r\<close> is left.\<close>

inductive stage_run :: "('s \<Rightarrow> bytes \<Rightarrow> parser_exn + (nat option \<times> 's)) \<Rightarrow> ('s \<Rightarrow> ParseResult) \<Rightarrow> nat \<Rightarrow> 's \<Rightarrow> bytes \<Rightarrow> bytes \<Rightarrow> 's \<Rightarrow> bool"
  for W st where
  stage_ends: "W s d = Inr (Some k, s') \<Longrightarrow> st s' = GOTO_NEXT_SUBPARSER \<Longrightarrow> k \<le> length d \<Longrightarrow> stage_run W st 0 s d (drop k d) s'"
| stage_more: "W s d = Inr (Some k, s') \<Longrightarrow> st s' = GET_MORE_DATA \<Longrightarrow> k < length d \<Longrightarrow> stage_run W st n s' (drop k d) r s'' \<Longrightarrow>
    stage_run W st (Suc n) s d r s''"

lemma stage_run_left: "stage_run W st n s d r s' \<Longrightarrow> length r \<le> length d"
  by (induction rule: stage_run.induct) auto

lemma stage_run_end: "stage_run W st n s d r s' \<Longrightarrow> st s' = GOTO_NEXT_SUBPARSER"
  by (induction rule: stage_run.induct) auto

lemma parseData_stage:
  fixes P :: "'z parser_base_scheme parser_ops"
  assumes "stage_run W st n s d r s'"
    and "\<And>s. pp_current P (put s)" "\<And>s d k s'. W s d = Inr (Some k, s') \<Longrightarrow> pp_write P (put s) d = Inr (Some k, put s')"
      "\<And>s. pp_status P (put s) = st s"
    and "ttl + n \<le> maxTTL" "length d < two64" "pp_next P (put s') = Inr (True, p2)" "pp_current P p2"
  shows "parseData P maxTTL (put s) d ttl = (if r = [] then Inr (Some (length d), p2)
    else after_bytes (length d - length r) (parseData P maxTTL p2 r (ttl + n + 1)))"
  using assms(1,5,6,7)
proof (induction n s d r s' arbitrary: ttl rule: stage_run.induct)
  case (stage_ends s d k s')
  note N = parseData_next_stage [OF _ assms(2) assms(3) [OF stage_ends.hyps(1)], of ttl maxTTL]
  show ?case using N(2,3) [of p2] stage_ends assms(4,8) by (cases "k = length d") auto
next
  case (stage_more s d k s' n r s'')
  have IH: "parseData P maxTTL (put s') (drop k d) (ttl + 1) = (if r = [] then Inr (Some (length (drop k d)), p2)
      else after_bytes (length (drop k d) - length r) (parseData P maxTTL p2 r (ttl + 1 + n + 1)))"
    using stage_more.IH [of "ttl + 1"] stage_more.prems by simp
  have "parseData P maxTTL (put s) d ttl = after_bytes k (parseData P maxTTL (put s') (drop k d) (ttl + 1))"
    using stage_more.prems(1) stage_more.hyps(2,3) assms(2,4) by (intro parseData_more_data [OF _ assms(2) assms(3) [OF stage_more.hyps(1)]]) auto
  moreover have "after_bytes k (after_bytes (length (drop k d) - length r) q) = after_bytes (length d - length r) q" for q :: "parser_exn + (nat option \<times> 'z parser_base_scheme)"
  proof -
    have "k + (length (drop k d) - length r) = length d - length r" using stage_more.hyps(3) stage_run_left [OF stage_more.hyps(4)] by simp
    moreover have "add64 (add64 x (length (drop k d) - length r)) k = add64 x (k + (length (drop k d) - length r))" for x
      by (simp add: add64_def mod_simps add.commute add.left_commute)
    ultimately show ?thesis by (auto simp: after_bytes_def split: sum.split option.split prod.split)
  qed
  moreover have "add64 (length (drop k d)) k = length d" using stage_more.hyps(3) stage_more.prems(2) by (simp add: add64_def)
  ultimately show ?case using IH by simp
qed

end
