(* ===== verification/WebSocket_Header.thy ===== *)
theory WebSocket_Header
  imports Stream_Parser "HOL-Library.Word" "HOL-Library.Code_Target_Nat"
begin

text \<open>
  \<open>Protocol_HTTP/websocket_frameheader.{h,cpp}\<close>: the sub-parser of a WebSocket frame header
  and its writer. The header is collected with the size strategy in up to three elements: two
  bytes, an extended length of two or eight bytes, a masking key of four. Bytes are \<open>8 word\<close>
  and the payload length is a \<open>64 word\<close>, as in the code. The extended length is read beyond
  the end of the local array: the argument \<open>stack\<close> is what lies behind it in memory. The
  field \<open>fh_thrown\<close> records that \<open>parse\<close> threw; the object is dead then.
\<close>

unbundle bit_operations_syntax

type_synonym u8 = "8 word"
type_synonym u64 = "64 word"

definition u8_of :: "char \<Rightarrow> u8" where
  "u8_of c = word_of_nat (byte_of c)"

definition char_of_u8 :: "u8 \<Rightarrow> char" where
  "char_of_u8 b = char_of (unat b)"

abbreviation (input) OPCODE_CONTINUATION :: u8 where "OPCODE_CONTINUATION \<equiv> 0"
abbreviation (input) OPCODE_TEXT :: u8 where "OPCODE_TEXT \<equiv> 1"
abbreviation (input) OPCODE_BINARY :: u8 where "OPCODE_BINARY \<equiv> 2"
abbreviation (input) OPCODE_CLOSE :: u8 where "OPCODE_CLOSE \<equiv> 8"
abbreviation (input) OPCODE_PING :: u8 where "OPCODE_PING \<equiv> 9"
abbreviation (input) OPCODE_PONG :: u8 where "OPCODE_PONG \<equiv> 10"

datatype ParseState = FIRST_2BYTES | EXTENDED_LENGTH_16 | EXTENDED_LENGTH_64 | MASKING_KEY | COMPLETE

datatype LastError = LE_NONE | INVALID_OPCODE | INVALID_RSV_BITS | CONTROL_FRAME_TOO_LARGE
  | FRAGMENTED_CONTROL_FRAME | LE_INVALID_UTF8 | PAYLOAD_TOO_LARGE

record frame_header = subparser +
  m_fin :: bool
  m_rsv1 :: bool
  m_rsv2 :: bool
  m_rsv3 :: bool
  m_opcode :: u8
  m_masked :: bool
  m_payloadLength :: u64
  m_maskingKey :: "u8 list"
  m_parseState :: ParseState
  m_extendedLengthBytes :: u8
  m_maxPayloadSize :: u64
  m_requireMasking :: bool
  m_lastError :: LastError
  fh_thrown :: bool

definition FrameHeader_new :: frame_header where
  "FrameHeader_new =
     (setParseDataTargetSize (setParseStrategy (subparser.extend SubParser_new
        \<lparr>m_fin = False, m_rsv1 = False, m_rsv2 = False, m_rsv3 = False, m_opcode = OPCODE_CONTINUATION,
         m_masked = False, m_payloadLength = 0, m_maskingKey = [0, 0, 0, 0], m_parseState = FIRST_2BYTES,
         m_extendedLengthBytes = 0, m_maxPayloadSize = 262144, m_requireMasking = True,
         m_lastError = LE_NONE, fh_thrown = False\<rparr>) SIZE) 2)\<lparr>m_subParserName := ''WebSocket_FrameHeader''\<rparr>"

definition FrameHeader_reset :: "frame_header \<Rightarrow> frame_header" where
  "FrameHeader_reset h = setParseDataTargetSize
     (h\<lparr>m_fin := False, m_rsv1 := False, m_rsv2 := False, m_rsv3 := False, m_opcode := OPCODE_CONTINUATION,
        m_masked := False, m_payloadLength := 0, m_maskingKey := [0, 0, 0, 0], m_parseState := FIRST_2BYTES,
        m_extendedLengthBytes := 0, m_lastError := LE_NONE\<rparr>) 2"

definition opcode_control :: "u8 \<Rightarrow> bool" where
  "opcode_control opc \<longleftrightarrow> (opc AND 0x08) \<noteq> 0"

definition isControlFrame :: "frame_header \<Rightarrow> bool" where
  "isControlFrame h = opcode_control (m_opcode h)"

definition opcode_valid :: "u8 \<Rightarrow> bool" where
  "opcode_valid opc \<longleftrightarrow> opc \<le> OPCODE_BINARY \<or> opc \<ge> OPCODE_CLOSE \<and> opc \<le> OPCODE_PONG"

definition isValidOpCode :: "frame_header \<Rightarrow> bool" where
  "isValidOpCode h = opcode_valid (m_opcode h)"

section \<open>Writing a header\<close>

definition first_byte :: "frame_header \<Rightarrow> u8" where
  "first_byte h = (if m_fin h then 0x80 else 0) OR (if m_rsv1 h then 0x40 else 0)
     OR (if m_rsv2 h then 0x20 else 0) OR (if m_rsv3 h then 0x10 else 0) OR (m_opcode h AND 0x0F)"

definition payload_field :: "frame_header \<Rightarrow> u8" where
  "payload_field h = (if m_payloadLength h \<le> 125 then ucast (m_payloadLength h)
     else if m_payloadLength h \<le> 65535 then 126 else 127)"

definition second_byte :: "frame_header \<Rightarrow> u8" where
  "second_byte h = (if m_masked h then 0x80 else 0) OR (payload_field h AND 0x7F)"

definition be_bytes :: "nat \<Rightarrow> u64 \<Rightarrow> bytes" where
  "be_bytes n v = map (\<lambda>i. char_of_u8 (ucast (drop_bit (8 * (n - 1 - i)) v))) [0..<n]"

definition write_then ::
  "'o streamable \<Rightarrow> bytes \<Rightarrow> ('o \<Rightarrow> (stream_exn + (bool \<times> 'o)) option) \<Rightarrow> 'o \<Rightarrow> (stream_exn + (bool \<times> 'o)) option" where
  "write_then S xs k up =
     (case writeFullStream S up xs of
        None \<Rightarrow> None
      | Some (Inl e) \<Rightarrow> Some (Inl e)
      | Some (Inr (ok, up')) \<Rightarrow> (if ok then k up' else Some (Inr (False, up'))))"

definition FrameHeader_streamToUpstream ::
  "'o streamable \<Rightarrow> frame_header \<Rightarrow> 'o \<Rightarrow> (stream_exn + (bool \<times> 'o)) option" where
  "FrameHeader_streamToUpstream S h =
     write_then S [char_of_u8 (first_byte h), char_of_u8 (second_byte h)]
       ((if payload_field h = 126 then write_then S (be_bytes 2 (m_payloadLength h))
         else if payload_field h = 127 then write_then S (be_bytes 8 (m_payloadLength h))
         else (\<lambda>k. k))
        ((if m_masked h then write_then S (map char_of_u8 (m_maskingKey h)) else (\<lambda>k. k))
           (\<lambda>up. Some (Inr (True, up)))))"

definition control_frame :: "frame_header \<Rightarrow> u8 \<Rightarrow> u64 \<Rightarrow> frame_header" where
  "control_frame h opc len = (FrameHeader_reset h)\<lparr>m_fin := True, m_opcode := opc,
     m_payloadLength := (if len > 125 then 125 else len)\<rparr>"

definition prepareCloseFrame :: "frame_header \<Rightarrow> u64 \<Rightarrow> frame_header" where
  "prepareCloseFrame h len = control_frame h OPCODE_CLOSE len"

definition preparePongFrame :: "frame_header \<Rightarrow> u64 \<Rightarrow> frame_header" where
  "preparePongFrame h len = control_frame h OPCODE_PONG len"

definition preparePingFrame :: "frame_header \<Rightarrow> u64 \<Rightarrow> frame_header" where
  "preparePingFrame h len = control_frame h OPCODE_PING len"

definition prepareHeader :: "frame_header \<Rightarrow> bool \<Rightarrow> u8 \<Rightarrow> u64 \<Rightarrow> bool \<Rightarrow> u8 list \<Rightarrow> frame_header" where
  "prepareHeader h fin opc len masked key =
     h\<lparr>m_fin := fin, m_opcode := opc, m_payloadLength := len, m_masked := masked,
       m_maskingKey := (if masked then key else [0, 0, 0, 0]), m_parseState := COMPLETE\<rparr>"

section \<open>Parsing a header\<close>

definition parseFirstByte :: "frame_header \<Rightarrow> u8 \<Rightarrow> bool \<times> frame_header" where
  "parseFirstByte h0 b =
     (let h = h0\<lparr>m_fin := (b AND 0x80) \<noteq> 0, m_rsv1 := (b AND 0x40) \<noteq> 0, m_rsv2 := (b AND 0x20) \<noteq> 0,
                 m_rsv3 := (b AND 0x10) \<noteq> 0, m_opcode := b AND 0x0F\<rparr> in
      if m_rsv1 h \<or> m_rsv2 h \<or> m_rsv3 h then (False, h\<lparr>m_lastError := INVALID_RSV_BITS\<rparr>)
      else if \<not> isValidOpCode h then (False, h\<lparr>m_lastError := INVALID_OPCODE\<rparr>)
      else if isControlFrame h \<and> \<not> m_fin h then (False, h\<lparr>m_lastError := FRAGMENTED_CONTROL_FRAME\<rparr>)
      else (True, h))"

definition parseSecondByte :: "frame_header \<Rightarrow> u8 \<Rightarrow> bool \<times> frame_header" where
  "parseSecondByte h0 b =
     (let h = h0\<lparr>m_masked := (b AND 0x80) \<noteq> 0, m_payloadLength := ucast (b AND 0x7F)\<rparr> in
      if m_requireMasking h \<and> \<not> m_masked h then (False, h\<lparr>m_lastError := INVALID_OPCODE\<rparr>)
      else if isControlFrame h \<and> m_payloadLength h > 125
      then (False, h\<lparr>m_lastError := CONTROL_FRAME_TOO_LARGE\<rparr>)
      else (True, h))"

definition parsed_bytes :: "'z subparser_scheme \<Rightarrow> nat \<Rightarrow> u8 list option" where
  "parsed_bytes h n =
     (case B_copyOut (ref_ops CO) (getParsedBuffer h) n 0 of
        None \<Rightarrow> None
      | Some d \<Rightarrow> if length d \<noteq> n then None else Some (map u8_of d))"

definition array_read :: "(nat \<Rightarrow> u8) \<Rightarrow> u8 list \<Rightarrow> nat \<Rightarrow> u8" where
  "array_read stack data i = (if i < length data then data ! i else stack (i - length data))"

definition check_payload_size :: "frame_header \<Rightarrow> bool \<times> frame_header" where
  "check_payload_size h =
     (if m_payloadLength h > m_maxPayloadSize h then (False, h\<lparr>m_lastError := PAYLOAD_TOO_LARGE\<rparr>)
      else (True, h))"

definition parseExtendedLength :: "(nat \<Rightarrow> u8) \<Rightarrow> frame_header \<Rightarrow> bool \<times> frame_header" where
  "parseExtendedLength stack h =
     (if m_extendedLengthBytes h = 2 then
        (case parsed_bytes h 2 of
           None \<Rightarrow> (False, h)
         | Some d \<Rightarrow> check_payload_size (h\<lparr>m_payloadLength :=
             push_bit 8 (ucast (array_read stack d 2)) OR ucast (array_read stack d 3)\<rparr>))
      else if m_extendedLengthBytes h = 8 then
        (case parsed_bytes h 8 of
           None \<Rightarrow> (False, h)
         | Some d \<Rightarrow> check_payload_size (h\<lparr>m_payloadLength :=
             foldl (\<lambda>p i. push_bit 8 p OR ucast (array_read stack d (2 + i))) 0 [0..<8]\<rparr>))
      else (False, h\<lparr>fh_thrown := True\<rparr>))"

definition parseMaskingKey :: "frame_header \<Rightarrow> bool \<times> frame_header" where
  "parseMaskingKey h =
     (case parsed_bytes h 4 of None \<Rightarrow> (False, h) | Some d \<Rightarrow> (True, h\<lparr>m_maskingKey := d\<rparr>))"

definition after_two_bytes :: "frame_header \<Rightarrow> ParseResult \<times> frame_header" where
  "after_two_bytes h =
     (if m_payloadLength h = 126 then
        (GET_MORE_DATA, setParseDataTargetSize (setParseStrategy
           (h\<lparr>m_parseState := EXTENDED_LENGTH_16, m_extendedLengthBytes := 2\<rparr>) SIZE) 2)
      else if m_payloadLength h = 127 then
        (GET_MORE_DATA, setParseDataTargetSize (setParseStrategy
           (h\<lparr>m_parseState := EXTENDED_LENGTH_64, m_extendedLengthBytes := 8\<rparr>) SIZE) 8)
      else if m_masked h then
        (GET_MORE_DATA, setParseDataTargetSize (setParseStrategy (h\<lparr>m_parseState := MASKING_KEY\<rparr>) SIZE) 4)
      else (GOTO_NEXT_SUBPARSER, h\<lparr>m_parseState := COMPLETE\<rparr>))"

definition FrameHeader_parse :: "(nat \<Rightarrow> u8) \<Rightarrow> frame_header \<Rightarrow> ParseResult \<times> frame_header" where
  "FrameHeader_parse stack h =
     (case m_parseState h of
        FIRST_2BYTES \<Rightarrow>
          (case parsed_bytes h 2 of
             None \<Rightarrow> (PR_ERROR, h)
           | Some d \<Rightarrow>
               (case parseFirstByte h (d ! 0) of (ok1, h1) \<Rightarrow>
                  if \<not> ok1 then (PR_ERROR, h1)
                  else case parseSecondByte h1 (d ! 1) of (ok2, h2) \<Rightarrow>
                    if \<not> ok2 then (PR_ERROR, h2) else after_two_bytes h2))
      | MASKING_KEY \<Rightarrow>
          (case parseMaskingKey h of (ok, h1) \<Rightarrow>
             if \<not> ok then (PR_ERROR, h1) else (GOTO_NEXT_SUBPARSER, h1\<lparr>m_parseState := COMPLETE\<rparr>))
      | COMPLETE \<Rightarrow> (GOTO_NEXT_SUBPARSER, h)
      | _ \<Rightarrow>
          (case parseExtendedLength stack h of (ok, h1) \<Rightarrow>
             if \<not> ok then (PR_ERROR, h1)
             else if m_masked h1 then (GET_MORE_DATA, h1\<lparr>m_parseState := MASKING_KEY\<rparr>)
             else (GOTO_NEXT_SUBPARSER, h1\<lparr>m_parseState := COMPLETE\<rparr>)))"

section \<open>Bytes as words\<close>

lemma u8_of_char_of [simp]: "u8_of (char_of_u8 b) = b"
proof -
  have "unat b < 256" using unsigned_less [of b] by simp
  then show ?thesis by (simp add: u8_of_def char_of_u8_def)
qed

lemma char_of_u8_of [simp]: "char_of_u8 (u8_of c) = c"
  using byte_of_less [of c] by (simp add: u8_of_def char_of_u8_def unat_of_nat)

lemma map_u8_of [simp]: "map (u8_of \<circ> char_of_u8) xs = xs"
  by (induction xs) simp_all

lemma opcode_valid_iff: "opcode_valid opc \<longleftrightarrow> opc \<in> {0, 1, 2, 8, 9, 10}"
proof -
  have "n \<le> 2 \<or> 8 \<le> n \<and> n \<le> 10 \<longleftrightarrow> n = 0 \<or> n = 1 \<or> n = 2 \<or> n = 8 \<or> n = 9 \<or> n = (10 :: nat)" for n by arith
  from this [of "unat opc"] show ?thesis
    by (simp add: opcode_valid_def word_le_nat_alt word_unat_eq_iff)
qed

lemma bits_7F: "bit (0x7F :: u8) n \<longleftrightarrow> n < 7"
proof -
  have "bit (0x7F :: u8) n = bit (mask 7 :: u8) n" by (simp add: mask_eq_exp_minus_1)
  also have "\<dots> = (n < 7)" by (subst bit_mask_iff) auto
  finally show ?thesis .
qed

lemma bits_80: "bit (0x80 :: u8) n \<longleftrightarrow> n = 7"
proof -
  have "bit (0x80 :: u8) n = bit (2 ^ 7 :: u8) n" by simp
  also have "\<dots> = (n = 7)" by (subst bit_exp_iff) auto
  finally show ?thesis .
qed

lemma low_bits:
  fixes b :: u8
  shows "(b AND 0x7F) AND 0x7F = b AND 0x7F" "(0x80 OR (b AND 0x7F)) AND 0x7F = b AND 0x7F"
    "(b AND 0x7F) AND 0x80 = 0" "(0x80 OR (b AND 0x7F)) AND 0x80 = 0x80"
proof -
  note bs = bit_and_iff bit_or_iff bit_0_eq bits_7F bits_80
  show "(b AND 0x7F) AND 0x7F = b AND 0x7F" by (rule bit_word_eqI) (simp only: bs, auto)
  show "(0x80 OR (b AND 0x7F)) AND 0x7F = b AND 0x7F" by (rule bit_word_eqI) (simp only: bs, auto)
  show "(b AND 0x7F) AND 0x80 = 0" by (rule bit_word_eqI) (simp only: bs, auto)
  show "(0x80 OR (b AND 0x7F)) AND 0x80 = 0x80" by (rule bit_word_eqI) (simp only: bs, auto)
qed

section \<open>Elements of a fixed size\<close>

text \<open>A sub-parser that waits for \<open>N\<close> bytes with nothing collected yet.\<close>

definition sized_stage :: "'z subparser_scheme \<Rightarrow> nat \<Rightarrow> bool" where
  "sized_stage sp N \<longleftrightarrow> sp_ok sp \<and> m_parseMode sp = SIZE \<and> sp_text sp = [] \<and> 0 < N \<and>
     m_maxSize (m_unparsedBuffer sp) = N \<and> N \<le> m_maxChunks (m_unparsedBuffer sp)"

definition element :: "'z subparser_scheme \<Rightarrow> sp_buf \<Rightarrow> 'z subparser_scheme" where
  "element sp b = ref_unparsed (sp\<lparr>m_unparsedBuffer := b\<rparr>) 0 size_max"

lemma size_element:
  assumes "sized_stage sp N" "N \<le> length data"
  shows "\<exists>b. chunks_ok b \<and> has_room b 0 \<and> chunks_content b = take N data \<and>
    same_limits (m_unparsedBuffer sp) b \<and>
    writeIntoSubParser parse u sp data = Inr (Some N, clear_unparsed (run_parse parse (element sp b)))"
proof -
  have ne: "data \<noteq> []" "length (sp_text sp) < N" "N = m_maxSize (m_unparsedBuffer sp)"
    "N \<le> m_maxChunks (m_unparsedBuffer sp)" "sp_ok sp" "m_parseMode sp = SIZE" "sp_text sp = []"
    using assms by (auto simp: sized_stage_def)
  from size_step [OF ne(5,1-4), of parse] show ?thesis
    using ne assms(2) by (auto simp: writeIntoSubParser_def element_def min_def)
qed

lemma element_ref:
  assumes "chunks_ok b"
  shows "ref_ok chunks_content chunks_ok (getParsedBuffer (element sp b))"
    "ref_content chunks_content (getParsedBuffer (element sp b)) = chunks_content b"
proof -
  let ?r = "getParsedBuffer (element sp b)"
  have r: "referencedBC ?r = Some b" "referencedOffset ?r = 0" "referencedMaxBytes ?r = size_max"
    by (simp_all add: element_def getParsedBuffer_def ref_unparsed_def B_Ref_reference_def)
  then show "ref_ok chunks_content chunks_ok ?r" using assms by (simp add: ref_ok_def)
  show "ref_content chunks_content ?r = chunks_content b"
    using r ra.content_bound [OF assms] by (simp add: ref_content_def size_max_def)
qed

lemma parsed_bytes_element:
  assumes "chunks_ok b" "0 < n" "n < size_max"
  shows "parsed_bytes (element sp b) n =
    (if n \<le> length (chunks_content b) then Some (map u8_of (take n (chunks_content b))) else None)"
proof -
  let ?r = "getParsedBuffer (element sp b)"
  note ok = element_ref(1) [OF assms(1), of sp] and c = element_ref(2) [OF assms(1), of sp]
  have bnd: "length (chunks_content b) < two64" using ra.content_bound [OF assms(1)] by simp
  show ?thesis
  proof (cases "n \<le> length (chunks_content b)")
    case True
    then show ?thesis using rref.copyOut_slice [OF ok, of 0 n] c by (simp add: parsed_bytes_def)
  next
    case False
    then have "B_copyOut (ref_ops CO) ?r n 0 = None"
      using assms(2,3) bnd rref.size_content [OF ok, of no_mmap] c
      by (auto simp: B_copyOut_def Let_def size_max_def)
    then show ?thesis using False by (simp add: parsed_bytes_def)
  qed
qed

lemma sized_stage_cleared:
  assumes "chunks_ok (m_unparsedBuffer s)" "\<not> m_readOnly (m_unparsedBuffer s)"
    "0 < m_maxChunkSize (m_unparsedBuffer s)" "m_parseMode s = SIZE" "0 < N" "N < two64"
    "m_maxSize (m_unparsedBuffer s) = N" "N \<le> m_maxChunks (m_unparsedBuffer s)"
  shows "sized_stage (clear_unparsed s) N"
  using cleared_buffer [OF assms(1)] assms
  by (auto simp: sized_stage_def sp_ok_def sp_text_def has_room_def same_limits_def) (simp_all add: clear_unparsed_def)

lemma chunks_ok_limit [simp]:
  "chunks_ok (B_setMaxSize b n) = chunks_ok b" "chunks_content (B_setMaxSize b n) = chunks_content b"
  "chunks_ok (b\<lparr>m_maxSize := n\<rparr>) = chunks_ok b" "chunks_content (b\<lparr>m_maxSize := n\<rparr>) = chunks_content b"
  by (simp_all add: B_setMaxSize_def chunks_ok_def chunks_wf_def chunks_content_def)

text \<open>Whatever the state, a size stage takes no more than it is given, and only \<open>parse\<close> changes
  the fields of the derived class.\<close>

lemma appendToUnparsed_frame:
  assumes "appendToUnparsedBuffer sp d = (n, s')"
  shows "\<exists>b. s' = sp\<lparr>m_unparsedBuffer := b\<rparr>" "n = Some k \<Longrightarrow> k \<le> length d"
proof -
  have "\<exists>b. sp = sp\<lparr>m_unparsedBuffer := b\<rparr>" by (rule exI [of _ "m_unparsedBuffer sp"]) simp
  then show "\<exists>b. s' = sp\<lparr>m_unparsedBuffer := b\<rparr>"
    using assms by (auto simp: appendToUnparsedBuffer_def Let_def split: if_splits prod.splits)
  show "n = Some k \<Longrightarrow> k \<le> length d"
    using assms by (auto simp: appendToUnparsedBuffer_def Let_def split: if_splits prod.splits)
qed

lemma parseBySize_frame:
  assumes "parseBySize parse sp d = (n, s')"
  obtains (kept) "\<forall>k. n = Some k \<longrightarrow> k \<le> length d" "subparser.more s' = subparser.more sp"
      "m_parseMode s' = m_parseMode sp" "m_parseStatus s' = m_parseStatus sp \<or> d = []"
    | (parsed) s2 where "\<forall>k. n = Some k \<longrightarrow> k \<le> length d" "subparser.more s2 = subparser.more sp"
      "m_parseMode s2 = m_parseMode sp" "subparser.more s' = subparser.more (snd (parse s2))"
      "m_parseMode s' = m_parseMode (snd (parse s2))" "m_parseStatus s' = fst (parse s2)"
proof (cases "d = []")
  case True
  then show thesis using assms by (intro kept) (auto simp: parseBySize_def setParseResult_def)
next
  case False
  obtain n1 s1 where a: "appendToUnparsedBuffer sp d = (n1, s1)" by fastforce
  obtain b where b: "s1 = sp\<lparr>m_unparsedBuffer := b\<rparr>" using appendToUnparsed_frame(1) [OF a] by blast
  note le = appendToUnparsed_frame(2) [OF a]
  show thesis
  proof (cases "n1 \<noteq> None \<and> B_getSizeLeft CO (m_unparsedBuffer s1) = 0")
    case True
    then have "n = n1" "s' = clear_unparsed (run_parse parse (ref_unparsed s1 0 size_max))"
      using assms False a by (auto simp: parseBySize_def)
    then show thesis using le b by (intro parsed [of "ref_unparsed s1 0 size_max"]) auto
  next
    case no: False
    then have "n = n1" "s' = s1" using assms False a by (auto simp: parseBySize_def split: option.splits)
    then show thesis using le b by (intro kept) auto
  qed
qed

section \<open>The header's elements\<close>

definition hdr_at :: "frame_header \<Rightarrow> nat \<Rightarrow> bool" where
  "hdr_at h N \<longleftrightarrow> sized_stage h N \<and> 8 \<le> m_maxChunks (m_unparsedBuffer h)"

lemma element_fields [simp]:
  "m_unparsedBuffer (element sp b) = b" "m_parseMode (element sp b) = m_parseMode sp"
  "m_parseStatus (element sp b) = m_parseStatus sp"
  "subparser.more (element sp b) = subparser.more sp"
  by (simp_all add: element_def) (simp add: ref_unparsed_def)

lemma hdr_element [simp]:
  "m_parseState (element h b) = m_parseState h" "m_masked (element h b) = m_masked h"
  "m_extendedLengthBytes (element h b) = m_extendedLengthBytes h"
  "m_requireMasking (element h b) = m_requireMasking h" "m_maxPayloadSize (element h b) = m_maxPayloadSize h"
  "m_payloadLength (element h b) = m_payloadLength h" "m_opcode (element h b) = m_opcode h"
  "m_fin (element h b) = m_fin h" "m_maskingKey (element h b) = m_maskingKey h" "fh_thrown (element h b) = fh_thrown h"
  by (simp_all add: element_def ref_unparsed_def)

lemma hdr_done [simp]:
  "m_fin (clear_unparsed (run_parse P s)) = m_fin (snd (P s))"
  "m_rsv1 (clear_unparsed (run_parse P s)) = m_rsv1 (snd (P s))"
  "m_opcode (clear_unparsed (run_parse P s)) = m_opcode (snd (P s))"
  "m_masked (clear_unparsed (run_parse P s)) = m_masked (snd (P s))"
  "m_payloadLength (clear_unparsed (run_parse P s)) = m_payloadLength (snd (P s))"
  "m_maskingKey (clear_unparsed (run_parse P s)) = m_maskingKey (snd (P s))"
  "m_parseState (clear_unparsed (run_parse P s)) = m_parseState (snd (P s))"
  "m_extendedLengthBytes (clear_unparsed (run_parse P s)) = m_extendedLengthBytes (snd (P s))"
  "m_requireMasking (clear_unparsed (run_parse P s)) = m_requireMasking (snd (P s))"
  "m_maxPayloadSize (clear_unparsed (run_parse P s)) = m_maxPayloadSize (snd (P s))"
  "m_lastError (clear_unparsed (run_parse P s)) = m_lastError (snd (P s))"
  "fh_thrown (clear_unparsed (run_parse P s)) = fh_thrown (snd (P s))"
  by (simp_all add: clear_unparsed_def run_parse_def setParseResult_def split: prod.split)

text \<open>The first two bytes, as a function of the bytes alone: what is accepted, and what the header
  says then.\<close>

definition first_ok :: "u8 \<Rightarrow> bool" where
  "first_ok b \<longleftrightarrow> (b AND 0x40) = 0 \<and> (b AND 0x20) = 0 \<and> (b AND 0x10) = 0 \<and> opcode_valid (b AND 0x0F) \<and>
     (opcode_control (b AND 0x0F) \<longrightarrow> (b AND 0x80) \<noteq> 0)"

definition second_ok :: "bool \<Rightarrow> u8 \<Rightarrow> u8 \<Rightarrow> bool" where
  "second_ok need b0 b1 \<longleftrightarrow> (need \<longrightarrow> (b1 AND 0x80) \<noteq> 0) \<and> (opcode_control (b0 AND 0x0F) \<longrightarrow> (b1 AND 0x7F) \<le> 125)"

lemma first_rejected: "\<not> first_ok b0 \<Longrightarrow> \<not> fst (parseFirstByte h b0)"
  by (auto simp: parseFirstByte_def first_ok_def Let_def isValidOpCode_def isControlFrame_def)

lemma first_accepted: "first_ok b0 \<Longrightarrow> parseFirstByte h b0 = (True,
    h\<lparr>m_fin := (b0 AND 0x80) \<noteq> 0, m_rsv1 := False, m_rsv2 := False, m_rsv3 := False, m_opcode := b0 AND 0x0F\<rparr>)"
  by (auto simp: parseFirstByte_def first_ok_def Let_def isValidOpCode_def isControlFrame_def)

lemma unat_byte: "unat (b :: u8) < 256"
  using unsigned_less [of b] by simp

lemma unat_widen [simp]: "unat (ucast (b :: u8) :: u64) = unat b"
  using unat_byte [of b] by (simp add: unsigned_ucast_eq take_bit_nat_eq_self_iff)

lemma ucast_le_125: "(ucast (b :: u8) :: u64) > 125 \<longleftrightarrow> \<not> b \<le> 125"
  by (simp add: word_less_nat_alt word_le_nat_alt not_le)

lemma second_rejected:
  "m_opcode h = b0 AND 0x0F \<Longrightarrow> \<not> second_ok (m_requireMasking h) b0 b1 \<Longrightarrow> \<not> fst (parseSecondByte h b1)"
  by (auto simp: parseSecondByte_def second_ok_def Let_def isControlFrame_def ucast_le_125)

lemma second_accepted:
  "m_opcode h = b0 AND 0x0F \<Longrightarrow> second_ok (m_requireMasking h) b0 b1 \<Longrightarrow> parseSecondByte h b1 =
    (True, h\<lparr>m_masked := (b1 AND 0x80) \<noteq> 0, m_payloadLength := ucast (b1 AND 0x7F)\<rparr>)"
  by (auto simp: parseSecondByte_def second_ok_def Let_def isControlFrame_def ucast_le_125)

text \<open>The header after two accepted bytes.\<close>

definition with_two :: "frame_header \<Rightarrow> u8 \<Rightarrow> u8 \<Rightarrow> frame_header" where
  "with_two h b0 b1 = h\<lparr>m_fin := (b0 AND 0x80) \<noteq> 0, m_rsv1 := False, m_rsv2 := False, m_rsv3 := False,
     m_opcode := b0 AND 0x0F, m_masked := (b1 AND 0x80) \<noteq> 0, m_payloadLength := ucast (b1 AND 0x7F)\<rparr>"

lemma parse_two_bytes:
  assumes "m_parseState h = FIRST_2BYTES" "parsed_bytes h 2 = Some [b0, b1]"
  shows "first_ok b0 \<Longrightarrow> second_ok (m_requireMasking h) b0 b1 \<Longrightarrow>
      FrameHeader_parse stack h = after_two_bytes (with_two h b0 b1)"
    "\<not> (first_ok b0 \<and> second_ok (m_requireMasking h) b0 b1) \<Longrightarrow> fst (FrameHeader_parse stack h) = PR_ERROR"
proof -
  let ?h1 = "h\<lparr>m_fin := (b0 AND 0x80) \<noteq> 0, m_rsv1 := False, m_rsv2 := False, m_rsv3 := False, m_opcode := b0 AND 0x0F\<rparr>"
  show "first_ok b0 \<Longrightarrow> second_ok (m_requireMasking h) b0 b1 \<Longrightarrow>
      FrameHeader_parse stack h = after_two_bytes (with_two h b0 b1)"
    using assms second_accepted [of ?h1 b0 b1] by (simp add: FrameHeader_parse_def first_accepted with_two_def)
  show "\<not> (first_ok b0 \<and> second_ok (m_requireMasking h) b0 b1) \<Longrightarrow> fst (FrameHeader_parse stack h) = PR_ERROR"
    using assms first_rejected [of b0 h] second_rejected [of ?h1 b0 b1] first_accepted [of b0 h]
    by (cases "first_ok b0") (auto simp: FrameHeader_parse_def split: prod.split)
qed

lemma header_two_bytes:
  assumes "hdr_at h 2" "m_parseState h = FIRST_2BYTES"
    and b0_def: "b0 = u8_of c0" and b1_def: "b1 = u8_of c1"
  shows "\<exists>b. chunks_ok b \<and> same_limits (m_unparsedBuffer h) b \<and> has_room b 0 \<and>
    writeIntoSubParser (FrameHeader_parse stack) u h (c0 # c1 # rest) =
      Inr (Some 2, clear_unparsed (run_parse (FrameHeader_parse stack) (element h b))) \<and>
    (if first_ok b0 \<and> second_ok (m_requireMasking h) b0 b1
     then FrameHeader_parse stack (element h b) = after_two_bytes (with_two (element h b) b0 b1)
     else fst (FrameHeader_parse stack (element h b)) = PR_ERROR)"
proof -
  obtain b where b: "chunks_ok b" "has_room b 0" "chunks_content b = [c0, c1]"
    "same_limits (m_unparsedBuffer h) b"
    "writeIntoSubParser (FrameHeader_parse stack) u h (c0 # c1 # rest) =
      Inr (Some 2, clear_unparsed (run_parse (FrameHeader_parse stack) (element h b)))"
    using size_element [of h 2 "c0 # c1 # rest" "FrameHeader_parse stack" u] assms(1)
    by (auto simp: hdr_at_def numeral_2_eq_2)
  have "parsed_bytes (element h b) 2 = Some [b0, b1]"
    using parsed_bytes_element [OF b(1), of 2 h] b(3) by (simp add: size_max_def b0_def b1_def)
  then show ?thesis using parse_two_bytes [of "element h b" b0 b1 stack] b assms(2) by auto
qed

lemma hdr_at_after:
  assumes "hdr_at h N" "chunks_ok b" "same_limits (m_unparsedBuffer h) b" "0 < k" "k \<le> 8"
    "snd (P (element h b)) = g" "m_unparsedBuffer g = B_setMaxSize b k" "m_parseMode g = SIZE"
  shows "hdr_at (clear_unparsed (run_parse P (element h b))) k"
proof -
  let ?s = "run_parse P (element h b)"
  have lim: "\<not> m_readOnly b" "0 < m_maxChunkSize b" "8 \<le> m_maxChunks b"
    using assms(1,3) by (auto simp: hdr_at_def sized_stage_def sp_ok_def has_room_def same_limits_def)
  have "sized_stage (clear_unparsed ?s) k"
    using assms lim by (intro sized_stage_cleared) (auto simp: B_setMaxSize_def)
  moreover have "8 \<le> m_maxChunks (m_unparsedBuffer (clear_unparsed ?s))"
    using cleared_buffer(3) [of "m_unparsedBuffer ?s"] assms(2,6,7) lim
    by (simp add: clear_unparsed_def same_limits_def B_setMaxSize_def)
  ultimately show ?thesis by (simp add: hdr_at_def)
qed

section \<open>What the writer writes, the parser reads\<close>

lemma and_7F: "unat (b :: u8) < 128 \<Longrightarrow> b AND 0x7F = b"
proof -
  assume lt: "unat b < 128"
  have "b AND 0x7F = take_bit 7 b" by (simp add: take_bit_eq_mask mask_eq_exp_minus_1)
  also have "\<dots> = b" using lt by (simp add: word_unat_eq_iff unsigned_take_bit_eq take_bit_nat_def)
  finally show ?thesis .
qed

lemma narrow_small:
  assumes "(p :: u64) \<le> 125"
  shows "unat (ucast p :: u8) = unat p" "ucast (ucast p :: u8) = p"
proof -
  have p: "unat p \<le> 125" using assms by (simp add: word_le_nat_alt)
  then show "unat (ucast p :: u8) = unat p" by (simp add: unsigned_ucast_eq take_bit_nat_eq_self_iff)
  then show "ucast (ucast p :: u8) = p" by (simp add: word_unat_eq_iff)
qed

definition plain_header :: "frame_header \<Rightarrow> bool" where
  "plain_header g \<longleftrightarrow> \<not> m_rsv1 g \<and> \<not> m_rsv2 g \<and> \<not> m_rsv3 g \<and> opcode_valid (m_opcode g) \<and>
     (opcode_control (m_opcode g) \<longrightarrow> m_fin g \<and> m_payloadLength g \<le> 125) \<and> length (m_maskingKey g) = 4"

lemma first_byte_bits:
  assumes "plain_header g"
  shows "first_ok (first_byte g)" "(first_byte g AND 0x80 \<noteq> 0) = m_fin g" "first_byte g AND 0x0F = m_opcode g"
proof -
  have "m_opcode g \<in> {0, 1, 2, 8, 9, 10}" using assms by (simp add: plain_header_def opcode_valid_iff)
  then show "first_ok (first_byte g)" "(first_byte g AND 0x80 \<noteq> 0) = m_fin g" "first_byte g AND 0x0F = m_opcode g"
    using assms by (auto simp: plain_header_def first_ok_def first_byte_def opcode_valid_iff opcode_control_def)
qed

lemma second_byte_bits:
  assumes "plain_header g" "m_payloadLength g \<le> 125"
  shows "(second_byte g AND 0x80 \<noteq> 0) = m_masked g" "ucast (second_byte g AND 0x7F) = m_payloadLength g"
    "need \<longrightarrow> m_masked g \<Longrightarrow> second_ok need (first_byte g) (second_byte g)"
    "payload_field g \<noteq> 126" "payload_field g \<noteq> 127"
proof -
  let ?f = "ucast (m_payloadLength g) :: u8"
  have f: "payload_field g = ?f" "unat ?f \<le> 125" "ucast ?f = m_payloadLength g"
    using assms(2) narrow_small [OF assms(2)] by (simp_all add: payload_field_def word_le_nat_alt)
  have "second_byte g AND 0x7F = ?f AND 0x7F" by (simp add: second_byte_def f(1) low_bits)
  also have "\<dots> = ?f" using f(2) by (intro and_7F) simp
  finally have low: "second_byte g AND 0x7F = ?f" .
  show "(second_byte g AND 0x80 \<noteq> 0) = m_masked g" by (auto simp: second_byte_def low_bits)
  then show "need \<longrightarrow> m_masked g \<Longrightarrow> second_ok need (first_byte g) (second_byte g)"
    using f low by (auto simp: second_ok_def word_le_nat_alt)
  show "ucast (second_byte g AND 0x7F) = m_payloadLength g" using f low by simp
  show "payload_field g \<noteq> 126" "payload_field g \<noteq> 127" using f by (auto simp: word_unat_eq_iff)
qed

definition header_bytes :: "frame_header \<Rightarrow> bytes" where
  "header_bytes g = [char_of_u8 (first_byte g), char_of_u8 (second_byte g)] @
     (if payload_field g = 126 then be_bytes 2 (m_payloadLength g)
      else if payload_field g = 127 then be_bytes 8 (m_payloadLength g) else []) @
     (if m_masked g then map char_of_u8 (m_maskingKey g) else [])"

context sink
begin

lemma write_then_ready:
  assumes "ready up n" "length xs \<le> n" "length xs < two64"
  shows "\<exists>up'. (\<forall>k. (if xs = [] then (\<lambda>k. k) else write_then S xs) k up = k up') \<and>
    content up' = content up @ xs \<and> ready up' (n - length xs)"
  using writeFullStream_total [OF assms(3,1,2)] assms(1) by (cases "xs = []") (auto simp: write_then_def)

lemma header_streamed:
  assumes "ready up n" "length (header_bytes g) \<le> n" "length (m_maskingKey g) = 4"
  shows "\<exists>up'. FrameHeader_streamToUpstream S g up = Some (Inr (True, up')) \<and>
    content up' = content up @ header_bytes g \<and> ready up' (n - length (header_bytes g))"
proof -
  define ext where "ext = (if payload_field g = 126 then be_bytes 2 (m_payloadLength g)
      else if payload_field g = 127 then be_bytes 8 (m_payloadLength g) else [])"
  define key where "key = (if m_masked g then map char_of_u8 (m_maskingKey g) else [])"
  let ?b = "[char_of_u8 (first_byte g), char_of_u8 (second_byte g)]"
  have hb: "header_bytes g = ?b @ ext @ key" by (simp add: header_bytes_def ext_def key_def)
  have len: "length ext < two64" "length key < two64" "length ?b < two64"
    using assms(3) by (simp_all add: ext_def key_def be_bytes_def)
  obtain up1 where up1: "\<And>k. write_then S ?b k up = k up1" "content up1 = content up @ ?b" "ready up1 (n - length ?b)"
    using write_then_ready [OF assms(1) _ len(3)] assms(2) hb by auto
  have "length ext \<le> n - length ?b" using assms(2) hb by simp
  from write_then_ready [OF up1(3) this len(1)]
  obtain up2 where up2: "\<And>k. (if ext = [] then (\<lambda>k. k) else write_then S ext) k up1 = k up2"
    "content up2 = content up @ ?b @ ext" "ready up2 (n - length ?b - length ext)"
    using up1(2) by auto
  have "length key \<le> n - length ?b - length ext" using assms(2) hb by simp
  from write_then_ready [OF up2(3) this len(2)]
  obtain up3 where up3: "\<And>k. (if key = [] then (\<lambda>k. k) else write_then S key) k up2 = k up3"
    "content up3 = content up @ ?b @ ext @ key" "ready up3 (n - length (?b @ ext @ key))"
    using up2(2) by (auto simp: diff_diff_left add.assoc)
  have "ext = [] \<longleftrightarrow> payload_field g \<noteq> 126 \<and> payload_field g \<noteq> 127" "key = [] \<longleftrightarrow> \<not> m_masked g"
    using assms(3) by (auto simp: ext_def key_def be_bytes_def)
  then have "FrameHeader_streamToUpstream S g = write_then S ?b ((if ext = [] then (\<lambda>k. k) else write_then S ext)
      ((if key = [] then (\<lambda>k. k) else write_then S key) (\<lambda>up. Some (Inr (True, up)))))"
    by (simp add: FrameHeader_streamToUpstream_def ext_def key_def)
  then have "FrameHeader_streamToUpstream S g up = Some (Inr (True, up3))"
    by (simp only: up1(1) up2(1) up3(1))
  then show ?thesis using up3(2,3) hb by simp
qed

end

section \<open>Reading the rest of the header\<close>

abbreviation hdr_write :: "(nat \<Rightarrow> u8) \<Rightarrow> (nat \<Rightarrow> bytes) \<Rightarrow> frame_header \<Rightarrow> bytes \<Rightarrow> b_exn + (nat option \<times> frame_header)" where
  "hdr_write stack u \<equiv> writeIntoSubParser (FrameHeader_parse stack) u"

definition same_frame :: "frame_header \<Rightarrow> frame_header \<Rightarrow> bool" where
  "same_frame g h \<longleftrightarrow> m_fin h = m_fin g \<and> m_opcode h = m_opcode g \<and> m_masked h = m_masked g \<and>
     m_payloadLength h = m_payloadLength g"

lemma read_two:
  assumes "hdr_at h 2" "m_parseState h = FIRST_2BYTES" "first_ok b0" "second_ok (m_requireMasking h) b0 b1"
    "(b1 AND 0x80) \<noteq> 0" "b0 = u8_of c0" "b1 = u8_of c1" "l = ucast (b1 AND 0x7F)"
  shows "\<exists>h1. hdr_write stack u h (c0 # c1 # rest) = Inr (Some 2, h1) \<and> m_parseStatus h1 = GET_MORE_DATA \<and>
    hdr_at h1 (if l = 126 then 2 else if l = 127 then 8 else 4) \<and>
    m_parseState h1 = (if l = 126 then EXTENDED_LENGTH_16 else if l = 127 then EXTENDED_LENGTH_64 else MASKING_KEY) \<and>
    m_extendedLengthBytes h1 = (if l = 126 then 2 else if l = 127 then 8 else m_extendedLengthBytes h) \<and>
    m_fin h1 = ((b0 AND 0x80) \<noteq> 0) \<and> m_opcode h1 = b0 AND 0x0F \<and> m_masked h1 \<and> m_payloadLength h1 = l \<and>
    m_maxPayloadSize h1 = m_maxPayloadSize h"
proof -
  obtain b where b: "chunks_ok b" "same_limits (m_unparsedBuffer h) b"
    "hdr_write stack u h (c0 # c1 # rest) =
      Inr (Some 2, clear_unparsed (run_parse (FrameHeader_parse stack) (element h b)))"
    "FrameHeader_parse stack (element h b) = after_two_bytes (with_two (element h b) b0 b1)"
    using header_two_bytes [OF assms(1,2,6,7), of stack u rest] assms(3,4) by auto
  let ?h1 = "clear_unparsed (run_parse (FrameHeader_parse stack) (element h b))"
  define g where "g = snd (after_two_bytes (with_two (element h b) b0 b1))"
  have mode: "m_parseMode h = SIZE" using assms(1) by (simp add: hdr_at_def sized_stage_def)
  have g: "m_unparsedBuffer g = B_setMaxSize b (if l = 126 then 2 else if l = 127 then 8 else 4)" "m_parseMode g = SIZE"
    using assms(5,8) by (simp_all add: g_def after_two_bytes_def with_two_def setParseDataTargetSize_def setParseStrategy_def)
  have "hdr_at ?h1 (if l = 126 then 2 else if l = 127 then 8 else 4)"
    using hdr_at_after [OF assms(1) b(1,2) _ _ _ g(1) g(2), of "FrameHeader_parse stack"] b(4) by (auto simp: g_def)
  then show ?thesis using b(3,4) assms(5,8)
    by (intro exI [of _ ?h1]) (simp add: after_two_bytes_def with_two_def setParseDataTargetSize_def setParseStrategy_def)
qed

lemma hdr_at_same:
  assumes "hdr_at h N" "chunks_ok b" "same_limits (m_unparsedBuffer h) b"
    "m_unparsedBuffer (snd (P (element h b))) = b" "m_parseMode (snd (P (element h b))) = m_parseMode h"
  shows "hdr_at (clear_unparsed (run_parse P (element h b))) N"
proof -
  let ?s = "run_parse P (element h b)"
  have lim: "\<not> m_readOnly b" "0 < m_maxChunkSize b" "8 \<le> m_maxChunks b" "m_maxSize b = N" "N \<le> m_maxChunks b" "0 < N"
    "m_maxSize b < two64" "m_parseMode h = SIZE"
    using assms(1,3) by (auto simp: hdr_at_def sized_stage_def sp_ok_def has_room_def same_limits_def)
  have "sized_stage (clear_unparsed ?s) N" using assms lim by (intro sized_stage_cleared) auto
  moreover have "8 \<le> m_maxChunks (m_unparsedBuffer (clear_unparsed ?s))"
    using cleared_buffer(3) [OF assms(2)] assms(4) lim by (simp add: clear_unparsed_def same_limits_def)
  ultimately show ?thesis by (simp add: hdr_at_def)
qed

lemma read_key:
  assumes "hdr_at h N" "m_parseState h = MASKING_KEY" "length data \<ge> N" "N < size_max"
  shows "\<exists>h1. hdr_write stack u h data = Inr (Some N, h1) \<and>
    (if N < 4 then m_parseStatus h1 = PR_ERROR
     else m_parseStatus h1 = GOTO_NEXT_SUBPARSER \<and> m_maskingKey h1 = map u8_of (take 4 data) \<and>
       m_parseState h1 = COMPLETE \<and> same_frame h h1 \<and> hdr_at h1 N)"
proof -
  obtain b where b: "chunks_ok b" "chunks_content b = take N data" "same_limits (m_unparsedBuffer h) b"
    "hdr_write stack u h data = Inr (Some N, clear_unparsed (run_parse (FrameHeader_parse stack) (element h b)))"
    using size_element [of h N data "FrameHeader_parse stack" u] assms(1,3) by (auto simp: hdr_at_def)
  have "parsed_bytes (element h b) 4 = (if 4 \<le> N then Some (map u8_of (take 4 data)) else None)"
    using parsed_bytes_element [OF b(1), of 4 h] b(2) assms(3) by (simp add: size_max_def min_def)
  then have p: "FrameHeader_parse stack (element h b) = (if 4 \<le> N
      then (GOTO_NEXT_SUBPARSER, (element h b)\<lparr>m_maskingKey := map u8_of (take 4 data), m_parseState := COMPLETE\<rparr>)
      else (PR_ERROR, element h b))"
    using assms(2) by (simp add: FrameHeader_parse_def parseMaskingKey_def)
  have "hdr_at (clear_unparsed (run_parse (FrameHeader_parse stack) (element h b))) N"
    by (rule hdr_at_same [OF assms(1) b(1,3)]) (simp_all add: p)
  then show ?thesis using b(4) p by (auto simp: same_frame_def not_less)
qed

definition extended_value :: "(nat \<Rightarrow> u8) \<Rightarrow> nat \<Rightarrow> u8 list \<Rightarrow> u64" where
  "extended_value stack N d =
     (if N = 2 then push_bit 8 (ucast (array_read stack d 2)) OR ucast (array_read stack d 3)
      else foldl (\<lambda>p i. push_bit 8 p OR ucast (array_read stack d (2 + i))) 0 [0..<8])"

lemma read_ext:
  assumes "hdr_at h N" "m_parseState h \<in> {EXTENDED_LENGTH_16, EXTENDED_LENGTH_64}" "length data \<ge> N"
    "m_extendedLengthBytes h = word_of_nat N" "N \<in> {2, 8}" "m_masked h"
    "v = extended_value stack N (map u8_of (take N data))"
  shows "\<exists>h1. hdr_write stack u h data = Inr (Some N, h1) \<and>
    (if v > m_maxPayloadSize h then m_parseStatus h1 = PR_ERROR
     else m_parseStatus h1 = GET_MORE_DATA \<and> hdr_at h1 N \<and> m_parseState h1 = MASKING_KEY \<and>
       m_payloadLength h1 = v)"
proof -
  obtain b where b: "chunks_ok b" "chunks_content b = take N data" "same_limits (m_unparsedBuffer h) b"
    "hdr_write stack u h data = Inr (Some N, clear_unparsed (run_parse (FrameHeader_parse stack) (element h b)))"
    using size_element [of h N data "FrameHeader_parse stack" u] assms(1,3) by (auto simp: hdr_at_def)
  let ?P = "FrameHeader_parse stack" and ?e = "element h b"
  have "parsed_bytes ?e N = Some (map u8_of (take N data))"
    using parsed_bytes_element [OF b(1), of N h] b(2) assms(3,5) by (auto simp: size_max_def)
  then have ext: "parseExtendedLength stack ?e = check_payload_size (?e\<lparr>m_payloadLength := v\<rparr>)"
    using assms(4,5,7) by (auto simp: parseExtendedLength_def extended_value_def)
  then have p: "?P ?e = (if v > m_maxPayloadSize h then (PR_ERROR, ?e\<lparr>m_payloadLength := v, m_lastError := PAYLOAD_TOO_LARGE\<rparr>)
      else (GET_MORE_DATA, ?e\<lparr>m_payloadLength := v, m_parseState := MASKING_KEY\<rparr>))"
    using assms(2,6) by (auto simp: FrameHeader_parse_def check_payload_size_def)
  have "hdr_at (clear_unparsed (run_parse ?P ?e)) N"
    by (rule hdr_at_same [OF assms(1) b(1,3)]) (simp_all add: p)
  then show ?thesis using b(4) p by auto
qed

lemma read_plain:
  assumes "hdr_at h 2" "m_parseState h = FIRST_2BYTES" "plain_header g" "m_masked g" "m_payloadLength g \<le> 125"
  shows "\<exists>h1. hdr_write stack u h (char_of_u8 (first_byte g) # char_of_u8 (second_byte g) # rest) = Inr (Some 2, h1) \<and>
    m_parseStatus h1 = GET_MORE_DATA \<and> hdr_at h1 4 \<and> m_parseState h1 = MASKING_KEY \<and> same_frame g h1"
proof -
  note fb = first_byte_bits [OF assms(3)] and sb = second_byte_bits [OF assms(3,5)]
  have "m_payloadLength g \<noteq> 126" "m_payloadLength g \<noteq> 127" using assms(5) by (auto simp: word_le_nat_alt)
  then show ?thesis
    using read_two [OF assms(1,2) fb(1) sb(3) _ _ _ sb(2) [symmetric],
        of "char_of_u8 (first_byte g)" "char_of_u8 (second_byte g)" stack u rest] fb sb(1) assms(4)
    by (auto simp: same_frame_def)
qed

lemma plain_bytes:
  assumes "plain_header g" "m_masked g" "m_payloadLength g \<le> 125"
  shows "header_bytes g = char_of_u8 (first_byte g) # char_of_u8 (second_byte g) # map char_of_u8 (m_maskingKey g)"
  using second_byte_bits(4,5) [OF assms(1,3)] assms(2) by (simp add: header_bytes_def)

section \<open>Properties of the header\<close>

definition demo_header :: frame_header where
  "demo_header = FrameHeader_new\<lparr>m_fin := True, m_opcode := OPCODE_TEXT, m_masked := True, m_payloadLength := 5,
     m_maskingKey := [1, 2, 3, 4]\<rparr>"

lemma FrameHeader_new_at: "hdr_at FrameHeader_new 2" "m_parseState FrameHeader_new = FIRST_2BYTES"
  "m_requireMasking FrameHeader_new" "m_maxPayloadSize FrameHeader_new = 262144"
  by (simp_all add: FrameHeader_new_def hdr_at_def sized_stage_def sp_ok_def sp_text_def has_room_def subparser.defs
      setParseDataTargetSize_def setParseStrategy_def SubParser_new_def B_setMaxSize_def B_Chunks_new_def
      chunks_ok_def chunks_wf_def chunks_content_def)

lemma demo_header_plain: "plain_header demo_header" "m_masked demo_header" "m_payloadLength demo_header \<le> 125"
  by (simp_all add: demo_header_def plain_header_def FrameHeader_new_def subparser.defs opcode_valid_iff opcode_control_def
      setParseDataTargetSize_def setParseStrategy_def)

text \<open>A masked frame header with a payload of at most 125 bytes that the library writes is read
  back by the library with the same flags, operation code, length and masking key: the writer puts
  exactly the header's bytes upstream, and the parser takes two bytes and then the four of the
  key, and then goes on to the payload.\<close>

theorem header_roundtrip:
  assumes "hdr_at h 2" "m_parseState h = FIRST_2BYTES" "plain_header g" "m_masked g" "m_payloadLength g \<le> 125"
    "chunks_ready up (length (header_bytes g))" "chunks_ok up"
  shows "\<exists>up' h1 h2. FrameHeader_streamToUpstream (B_sink (chunks_ops M)) g up = Some (Inr (True, up')) \<and>
    chunks_content up' = chunks_content up @ header_bytes g \<and>
    hdr_write stack u h (take 2 (header_bytes g)) = Inr (Some 2, h1) \<and> m_parseStatus h1 = GET_MORE_DATA \<and>
    hdr_write stack u h1 (drop 2 (header_bytes g)) = Inr (Some 4, h2) \<and> m_parseStatus h2 = GOTO_NEXT_SUBPARSER \<and>
    same_frame g h2 \<and> m_maskingKey h2 = m_maskingKey g"
proof -
  have key: "length (m_maskingKey g) = 4" using assms(3) by (simp add: plain_header_def)
  obtain up' where up': "FrameHeader_streamToUpstream (B_sink (chunks_ops M)) g up = Some (Inr (True, up'))"
    "chunks_content up' = chunks_content up @ header_bytes g"
    using osink.header_streamed [of up "length (header_bytes g)" g M] assms(6,7) key by auto
  obtain h1 where h1: "hdr_write stack u h (take 2 (header_bytes g)) = Inr (Some 2, h1)" "m_parseStatus h1 = GET_MORE_DATA"
    "hdr_at h1 4" "m_parseState h1 = MASKING_KEY" "same_frame g h1"
    using read_plain [OF assms(1-5), of stack u "[]"] plain_bytes [OF assms(3-5)] by auto
  obtain h2 where "hdr_write stack u h1 (drop 2 (header_bytes g)) = Inr (Some 4, h2)" "m_parseStatus h2 = GOTO_NEXT_SUBPARSER"
    "same_frame g h2" "m_maskingKey h2 = m_maskingKey g"
    using read_key [OF h1(3,4), of "drop 2 (header_bytes g)" stack u] plain_bytes [OF assms(3-5)] key h1(5)
    by (auto simp: size_max_def same_frame_def)
  then show ?thesis using up' h1 by blast
qed

theorem header_roundtrip_witness:
  "\<exists>up' h1 h2. FrameHeader_streamToUpstream (B_sink (chunks_ops no_mmap)) demo_header B_Chunks_new = Some (Inr (True, up')) \<and>
    chunks_content up' = header_bytes demo_header \<and>
    hdr_write (\<lambda>_. 0) (\<lambda>_. []) FrameHeader_new (take 2 (header_bytes demo_header)) = Inr (Some 2, h1) \<and>
    m_parseStatus h1 = GET_MORE_DATA \<and>
    hdr_write (\<lambda>_. 0) (\<lambda>_. []) h1 (drop 2 (header_bytes demo_header)) = Inr (Some 4, h2) \<and>
    m_parseStatus h2 = GOTO_NEXT_SUBPARSER \<and> same_frame demo_header h2 \<and> m_maskingKey h2 = m_maskingKey demo_header"
proof -
  have "length (header_bytes demo_header) \<le> 262144"
    using plain_bytes [OF demo_header_plain] by (simp add: demo_header_def)
  then have "chunks_ready (B_Chunks_new :: unit b_chunks) (length (header_bytes demo_header))"
    by (auto simp: chunks_ready_def has_room_def B_Chunks_new_def ws_init_def size_max_def chunks_wf_def chunks_content_def)
  from header_roundtrip [OF FrameHeader_new_at(1,2) demo_header_plain this chunks_ok_new, of no_mmap "\<lambda>_. 0" "\<lambda>_. []"]
  show ?thesis by simp
qed

text \<open>The first two bytes are accepted exactly when the reserved bits are clear, the operation
  code is one of the six defined ones, a control frame is final and at most 125 bytes long, and the
  frame is masked if masking is required; otherwise the parser reports an error.\<close>

theorem header_acceptance:
  assumes "hdr_at h 2" "m_parseState h = FIRST_2BYTES"
  shows "\<exists>h1. hdr_write stack u h [c0, c1] = Inr (Some 2, h1) \<and>
    (m_parseStatus h1 \<noteq> PR_ERROR \<longleftrightarrow>
       (u8_of c0 AND 0x40) = 0 \<and> (u8_of c0 AND 0x20) = 0 \<and> (u8_of c0 AND 0x10) = 0 \<and>
       u8_of c0 AND 0x0F \<in> {0, 1, 2, 8, 9, 10} \<and> (m_requireMasking h \<longrightarrow> (u8_of c1 AND 0x80) \<noteq> 0) \<and>
       (opcode_control (u8_of c0 AND 0x0F) \<longrightarrow> (u8_of c0 AND 0x80) \<noteq> 0 \<and> (u8_of c1 AND 0x7F) \<le> 125))"
proof -
  have st: "fst (after_two_bytes k) \<noteq> PR_ERROR" for k by (simp add: after_two_bytes_def)
  obtain b where b: "hdr_write stack u h [c0, c1] =
      Inr (Some 2, clear_unparsed (run_parse (FrameHeader_parse stack) (element h b)))"
    "fst (FrameHeader_parse stack (element h b)) \<noteq> PR_ERROR \<longleftrightarrow>
      first_ok (u8_of c0) \<and> second_ok (m_requireMasking h) (u8_of c0) (u8_of c1)"
    using header_two_bytes [OF assms refl refl, where ?c0.0 = c0 and ?c1.0 = c1 and rest = "[]" and stack = stack and u = u] st by (auto split: if_splits)
  then show ?thesis by (auto simp: first_ok_def second_ok_def opcode_valid_iff)
qed

theorem header_acceptance_witness:
  "\<exists>h1. hdr_write (\<lambda>_. 0) (\<lambda>_. []) FrameHeader_new [char_of_u8 0x81, char_of_u8 0x05] = Inr (Some 2, h1) \<and>
    m_parseStatus h1 = PR_ERROR"
  using header_acceptance [OF FrameHeader_new_at(1,2), of "\<lambda>_. 0" "\<lambda>_. []" "char_of_u8 0x81" "char_of_u8 0x05"]
    FrameHeader_new_at(3) by auto

text \<open>A server never accepts a frame whose length needs the 16-bit form. After the extended
  length the parser still waits for two bytes, not four, so the masking key cannot be read: such a
  header is rejected after at most six bytes, whatever they are and whatever the length read
  beyond the array was.\<close>

theorem extended16_rejected:
  assumes "hdr_at h 2" "m_parseState h = FIRST_2BYTES" "m_requireMasking h" "u8_of c1 AND 0x7F = 126"
  shows "\<exists>h1. hdr_write stack u h [c0, c1] = Inr (Some 2, h1) \<and> (m_parseStatus h1 = PR_ERROR \<or>
    (\<exists>h2. hdr_write stack u h1 [e0, e1] = Inr (Some 2, h2) \<and> (m_parseStatus h2 = PR_ERROR \<or>
      (\<exists>h3. hdr_write stack u h2 [k0, k1] = Inr (Some 2, h3) \<and> m_parseStatus h3 = PR_ERROR))))"
proof (cases "first_ok (u8_of c0) \<and> second_ok (m_requireMasking h) (u8_of c0) (u8_of c1)")
  case False
  then show ?thesis using header_two_bytes [OF assms(1,2) refl refl, where ?c0.0 = c0 and ?c1.0 = c1 and rest = "[]" and stack = stack and u = u] by auto
next
  case True
  then have m: "(u8_of c1 AND 0x80) \<noteq> 0" using assms(3) by (simp add: second_ok_def)
  obtain h1 where h1: "hdr_write stack u h [c0, c1] = Inr (Some 2, h1)" "hdr_at h1 2"
    "m_parseState h1 = EXTENDED_LENGTH_16" "m_extendedLengthBytes h1 = 2" "m_masked h1"
    using read_two [OF assms(1,2) _ _ m refl refl refl, of c0 stack u "[]"] True assms(4) by auto
  obtain h2 where h2: "hdr_write stack u h1 [e0, e1] = Inr (Some 2, h2)"
    "m_parseStatus h2 = PR_ERROR \<or> hdr_at h2 2 \<and> m_parseState h2 = MASKING_KEY"
    using read_ext [OF h1(2) _ _ _ _ h1(5) refl, of "[e0, e1]" stack u] h1(3,4) by (auto split: if_splits)
  show ?thesis
  proof (cases "m_parseStatus h2 = PR_ERROR")
    case True
    then show ?thesis using h1(1) h2(1) by blast
  next
    case False
    then have "\<exists>h3. hdr_write stack u h2 [k0, k1] = Inr (Some 2, h3) \<and> m_parseStatus h3 = PR_ERROR"
      using read_key [of h2 2 "[k0, k1]" stack u] h2(2) by (auto simp: size_max_def)
    then show ?thesis using h1(1) h2(1) by blast
  qed
qed

theorem extended16_rejected_witness:
  "\<exists>h1. hdr_write (\<lambda>_. 0) (\<lambda>_. []) FrameHeader_new [char_of_u8 0x81, char_of_u8 0xFE] = Inr (Some 2, h1) \<and>
    (m_parseStatus h1 = PR_ERROR \<or>
    (\<exists>h2. hdr_write (\<lambda>_. 0) (\<lambda>_. []) h1 [char_of_u8 0, char_of_u8 200] = Inr (Some 2, h2) \<and> (m_parseStatus h2 = PR_ERROR \<or>
      (\<exists>h3. hdr_write (\<lambda>_. 0) (\<lambda>_. []) h2 [char_of_u8 1, char_of_u8 2] = Inr (Some 2, h3) \<and> m_parseStatus h3 = PR_ERROR))))"
  by (rule extended16_rejected) (use FrameHeader_new_at in simp_all)

text \<open>A frame whose length needs the 64-bit form is accepted with a wrong length and a wrong
  payload: the length is made of the last six of the eight bytes and of two bytes behind the
  array, and the parser then takes eight bytes for the four of the masking key, so that the first
  four bytes of the payload are lost.\<close>

theorem extended64_misread:
  assumes "hdr_at h 2" "m_parseState h = FIRST_2BYTES" "first_ok (u8_of c0)"
    "second_ok (m_requireMasking h) (u8_of c0) (u8_of c1)" "u8_of c1 = 0xFF" "length ext = 8" "length key = 4"
    "4 \<le> length payload"
    "v = foldl (\<lambda>p b. push_bit 8 p OR ucast b) 0 (drop 2 (map u8_of ext) @ [stack 0, stack 1])"
    "v \<le> m_maxPayloadSize h"
  shows "\<exists>h1 h2 h3. hdr_write stack u h [c0, c1] = Inr (Some 2, h1) \<and> hdr_write stack u h1 ext = Inr (Some 8, h2) \<and>
    m_payloadLength h2 = v \<and> hdr_write stack u h2 (key @ payload) = Inr (Some 8, h3) \<and>
    m_parseStatus h3 = GOTO_NEXT_SUBPARSER \<and> m_payloadLength h3 = v"
proof -
  have l: "ucast (u8_of c1 AND 0x7F) = (127 :: u64)" "(u8_of c1 AND 0x80) \<noteq> 0" by (simp_all add: assms(5))
  obtain h1 where h1: "hdr_write stack u h [c0, c1] = Inr (Some 2, h1)" "hdr_at h1 8" "m_parseState h1 = EXTENDED_LENGTH_64"
    "m_extendedLengthBytes h1 = 8" "m_masked h1" "m_maxPayloadSize h1 = m_maxPayloadSize h"
    using read_two [OF assms(1,2,3,4) l(2) refl refl l(1) [symmetric], of stack u "[]"] by auto
  have "v = extended_value stack 8 (map u8_of ext)"
  proof -
    obtain a b c d e f g i where "ext = [a, b, c, d, e, f, g, i]"
      using assms(6) by (auto simp: length_Suc_conv eval_nat_numeral)
    then show ?thesis by (simp add: assms(9) extended_value_def array_read_def upt_rec)
  qed
  then obtain h2 where h2: "hdr_write stack u h1 ext = Inr (Some 8, h2)" "m_payloadLength h2 = v"
    "hdr_at h2 8" "m_parseState h2 = MASKING_KEY"
    using read_ext [OF h1(2) _ _ _ _ h1(5) refl, of ext stack u] h1(3,4,6) assms(6,10) by auto
  have "\<exists>h3. hdr_write stack u h2 (key @ payload) = Inr (Some 8, h3) \<and> m_parseStatus h3 = GOTO_NEXT_SUBPARSER \<and>
      m_payloadLength h3 = v"
    using read_key [OF h2(3,4), of "key @ payload" stack u] assms(7,8) h2(2) by (auto simp: size_max_def same_frame_def)
  then show ?thesis using h1(1) h2(1,2) by blast
qed

theorem extended64_misread_witness:
  "\<exists>h1 h2 h3. hdr_write (\<lambda>_. 0) (\<lambda>_. []) FrameHeader_new [char_of_u8 0x82, char_of_u8 0xFF] = Inr (Some 2, h1) \<and>
    hdr_write (\<lambda>_. 0) (\<lambda>_. []) h1 (map char_of_u8 [0, 0, 0, 0, 0, 0, 0, 1]) = Inr (Some 8, h2) \<and>
    m_payloadLength h2 = 65536 \<and>
    hdr_write (\<lambda>_. 0) (\<lambda>_. []) h2 (map char_of_u8 [1, 2, 3, 4] @ ''abcdef'') = Inr (Some 8, h3) \<and>
    m_parseStatus h3 = GOTO_NEXT_SUBPARSER \<and> m_payloadLength h3 = 65536"
  by (rule extended64_misread) (use FrameHeader_new_at in \<open>simp_all add: first_ok_def second_ok_def opcode_valid_iff
    opcode_control_def\<close>)

section \<open>The header's invariant\<close>

text \<open>The extended length is only read after its width was set: \<open>parse\<close> never throws.\<close>

definition hdr_inv :: "frame_header \<Rightarrow> bool" where
  "hdr_inv h \<longleftrightarrow> \<not> fh_thrown h \<and> m_parseMode h = SIZE \<and>
     (m_parseState h \<in> {EXTENDED_LENGTH_16, EXTENDED_LENGTH_64} \<longrightarrow> m_extendedLengthBytes h \<in> {2, 8})"

lemma hdr_inv_more:
  "subparser.more h = subparser.more g \<Longrightarrow> m_parseMode h = m_parseMode g \<Longrightarrow> hdr_inv h = hdr_inv g"
  by (cases h; cases g) (simp add: hdr_inv_def)

lemma hdr_inv_parts:
  "hdr_inv (snd (parseFirstByte h b)) = hdr_inv h" "hdr_inv (snd (parseSecondByte h b)) = hdr_inv h"
  "hdr_inv (snd (check_payload_size h)) = hdr_inv h" "hdr_inv (snd (parseMaskingKey h)) = hdr_inv h"
  "hdr_inv h \<Longrightarrow> hdr_inv (snd (after_two_bytes h))"
  "hdr_inv h \<Longrightarrow> hdr_inv (h\<lparr>m_parseState := MASKING_KEY\<rparr>)" "hdr_inv h \<Longrightarrow> hdr_inv (h\<lparr>m_parseState := COMPLETE\<rparr>)"
  "hdr_inv (h\<lparr>m_payloadLength := v\<rparr>) = hdr_inv h"
  by (simp_all add: hdr_inv_def parseFirstByte_def parseSecondByte_def check_payload_size_def parseMaskingKey_def
      after_two_bytes_def setParseDataTargetSize_def setParseStrategy_def Let_def split: option.split)

lemma hdr_inv_extended:
  assumes "hdr_inv h" "m_parseState h \<in> {EXTENDED_LENGTH_16, EXTENDED_LENGTH_64}"
  shows "hdr_inv (snd (parseExtendedLength stack h))"
proof -
  have "m_extendedLengthBytes h \<in> {2, 8}" using assms by (auto simp: hdr_inv_def)
  then show ?thesis using assms(1)
    by (auto simp: parseExtendedLength_def hdr_inv_parts split: option.split)
qed

lemma hdr_inv_parse:
  assumes "hdr_inv h"
  shows "hdr_inv (snd (FrameHeader_parse stack h))"
proof (cases "m_parseState h")
  case FIRST_2BYTES
  have "hdr_inv (snd (parseFirstByte h b0))" "hdr_inv (snd (parseSecondByte (snd (parseFirstByte h b0)) b1))" for b0 b1
    using assms by (simp_all add: hdr_inv_parts)
  then show ?thesis using FIRST_2BYTES assms
    by (simp add: FrameHeader_parse_def hdr_inv_parts case_prod_beta split: option.split)
next
  case MASKING_KEY
  then show ?thesis using assms hdr_inv_parts(4) [of h] by (simp add: FrameHeader_parse_def case_prod_beta hdr_inv_parts)
next
  case COMPLETE
  then show ?thesis using assms by (simp add: FrameHeader_parse_def)
qed (use assms hdr_inv_extended [OF assms, of stack] in \<open>simp_all add: FrameHeader_parse_def case_prod_beta hdr_inv_parts\<close>)

lemma hdr_inv_write:
  assumes "hdr_inv h"
  shows "\<exists>n h'. hdr_write stack u h d = Inr (n, h') \<and> hdr_inv h' \<and> (\<forall>k. n = Some k \<longrightarrow> k \<le> length d)"
proof -
  let ?h = "if d = [] then h\<lparr>m_streamEnded := True\<rparr> else h"
  have inv: "hdr_inv ?h" using assms by (simp add: hdr_inv_def)
  obtain n h' where w: "parseBySize (FrameHeader_parse stack) ?h d = (n, h')" by fastforce
  then have eq: "hdr_write stack u h d = Inr (n, h')" using assms by (auto simp: writeIntoSubParser_def hdr_inv_def)
  from w have "hdr_inv h' \<and> (\<forall>k. n = Some k \<longrightarrow> k \<le> length d)"
  proof (cases rule: parseBySize_frame)
    case kept
    then show ?thesis using hdr_inv_more [of h' ?h] inv by blast
  next
    case (parsed s2)
    then show ?thesis using hdr_inv_more [of s2 ?h] hdr_inv_parse [of s2 stack] hdr_inv_more [of h' "snd (FrameHeader_parse stack s2)"] inv
      by blast
  qed
  then show ?thesis using eq by blast
qed

lemma hdr_at_reset:
  assumes "hdr_at h N"
  shows "hdr_at (FrameHeader_reset h) 2" "m_parseState (FrameHeader_reset h) = FIRST_2BYTES"
  using assms by (auto simp: hdr_at_def sized_stage_def sp_ok_def sp_text_def has_room_def FrameHeader_reset_def
      setParseDataTargetSize_def B_setMaxSize_def)

lemma hdr_inv_new: "hdr_inv FrameHeader_new" "hdr_inv h \<Longrightarrow> hdr_inv (FrameHeader_reset h)"
  by (simp_all add: hdr_inv_def FrameHeader_new_def FrameHeader_reset_def setParseDataTargetSize_def setParseStrategy_def
      subparser.defs SubParser_new_def)

end
