(* ===== verification/WebSocket_Content.thy ===== *)
theory WebSocket_Content
  imports WebSocket_Header
begin

text \<open>
  \<open>Protocol_HTTP/websocket_framecontent.{h,cpp}\<close>: the sub-parser of a frame's payload. It
  collects the announced number of bytes, unmasks them, and appends them to the message content,
  which stays over the frames of one message. The text of the content is checked by an automaton
  over its bytes.
\<close>

datatype ValidationResult = VR_SUCCESS | INVALID_UTF8 | INCOMPLETE_UTF8 | VR_ERROR

record frame_content = subparser +
  fc_masked :: bool
  fc_maskingKey :: "u8 list"
  m_validateUtf8 :: bool
  m_content :: sp_buf
  m_isComplete :: bool
  m_isFirstFrame :: bool
  m_lastValidationResult :: ValidationResult
  m_maxContentSize :: u64

definition FrameContent_new :: frame_content where
  "FrameContent_new = (setParseStrategy (subparser.extend SubParser_new
     \<lparr>fc_masked = False, fc_maskingKey = [0, 0, 0, 0], m_validateUtf8 = False, m_content = B_Chunks_new,
      m_isComplete = False, m_isFirstFrame = False, m_lastValidationResult = VR_SUCCESS, m_maxContentSize = 524288\<rparr>) SIZE)
     \<lparr>m_subParserName := ''WebSocket_FrameContent''\<rparr>"

definition FrameContent_reset :: "frame_content \<Rightarrow> frame_content" where
  "FrameContent_reset c = c\<lparr>m_isFirstFrame := True, m_isComplete := False, fc_masked := False,
     fc_maskingKey := [0, 0, 0, 0], m_lastValidationResult := VR_SUCCESS, m_content := snd (B_clear CO (m_content c))\<rparr>"

abbreviation no_mmap_copy :: "unit \<Rightarrow> 'o \<Rightarrow> nat \<Rightarrow> nat \<Rightarrow> 'o copy_result" where
  "no_mmap_copy \<equiv> \<lambda>_ up _ _. Some (Inr (None, up))"

definition FrameContent_streamToUpstream ::
  "'o streamable \<Rightarrow> frame_content \<Rightarrow> 'o \<Rightarrow> (stream_exn + (bool \<times> 'o)) option" where
  "FrameContent_streamToUpstream S c up =
     (case B_appendTo (B_Chunks_copyToStreamableObject2 no_mmap no_mmap_copy S) CO S (m_content c) up size_max 0 of
        None \<Rightarrow> None
      | Some (Inl e) \<Rightarrow> Some (Inl e)
      | Some (Inr (x, up')) \<Rightarrow> Some (Inr (x = Some (B_Chunks_size no_mmap (m_content c)), up')))"

definition setPayloadLength :: "frame_content \<Rightarrow> u64 \<Rightarrow> frame_content" where
  "setPayloadLength c len = setParseDataTargetSize (c\<lparr>m_isFirstFrame := False\<rparr>) (unat len)"

definition setMasked :: "frame_content \<Rightarrow> bool \<Rightarrow> frame_content" where
  "setMasked c masked = c\<lparr>fc_masked := masked\<rparr>"

definition setMaskingKey :: "frame_content \<Rightarrow> u8 list \<Rightarrow> frame_content" where
  "setMaskingKey c key = c\<lparr>fc_maskingKey := key\<rparr>"

definition setValidateUtf8 :: "frame_content \<Rightarrow> bool \<Rightarrow> frame_content" where
  "setValidateUtf8 c v = c\<lparr>m_validateUtf8 := v\<rparr>"

definition unmaskData :: "u8 list \<Rightarrow> bytes \<Rightarrow> bytes" where
  "unmaskData key data = map (\<lambda>(i, c). char_of_u8 (u8_of c XOR key ! (i mod 4))) (enumerate 0 data)"

definition isValidUtf8Continuation :: "u8 \<Rightarrow> bool" where
  "isValidUtf8Continuation b \<longleftrightarrow> (b AND 0xC0) = 0x80"

text \<open>One byte of the automaton: the number of continuation bytes still expected and the code point
  so far; \<open>None\<close> is the early \<open>return false\<close>.\<close>

definition utf8_byte :: "nat \<Rightarrow> 32 word \<Rightarrow> u8 \<Rightarrow> (nat \<times> 32 word) option" where
  "utf8_byte remaining cp b =
     (if remaining = 0 then
        (if (b AND 0x80) = 0 then Some (0, cp)
         else if (b AND 0xE0) = 0xC0 then Some (1, ucast (b AND 0x1F))
         else if (b AND 0xF0) = 0xE0 then Some (2, ucast (b AND 0x0F))
         else if (b AND 0xF8) = 0xF0 then Some (3, ucast (b AND 0x07))
         else None)
      else if \<not> isValidUtf8Continuation b then None
      else
        (let cp' = push_bit 6 cp OR ucast (b AND 0x3F) in
         if remaining - 1 = 0 \<and> (cp' > 0x10FFFF \<or> cp' \<ge> 0xD800 \<and> cp' \<le> 0xDFFF) then None
         else Some (remaining - 1, cp')))"

function utf8_loop :: "sp_buf \<Rightarrow> nat \<Rightarrow> nat \<Rightarrow> 32 word \<Rightarrow> bool" where
  "utf8_loop c i remaining cp =
     (if i < B_Chunks_size no_mmap c then
        (case B_copyOut CO c 1 i of
           None \<Rightarrow> False
         | Some d \<Rightarrow>
             (case utf8_byte remaining cp (u8_of (hd d)) of
                None \<Rightarrow> False
              | Some (remaining', cp') \<Rightarrow> utf8_loop c (i + 1) remaining' cp'))
      else True)"
  by pat_completeness auto
termination
  by (relation "measure (\<lambda>(c, i, r, cp). B_Chunks_size no_mmap c - i)") auto

declare utf8_loop.simps [simp del]

definition validateUtf8Payload :: "frame_content \<Rightarrow> bool" where
  "validateUtf8Payload c = utf8_loop (m_content c) 0 0 0"

definition FrameContent_parse :: "frame_content \<Rightarrow> ParseResult \<times> frame_content" where
  "FrameContent_parse c =
     (let payload0 = B_copyToBuffer (ref_ops CO) (getParsedBuffer c);
          payload = (if fc_masked c then unmaskData (fc_maskingKey c) payload0 else payload0) in
      case B_append CO (m_content c) payload of (x, content') \<Rightarrow>
        (let c' = c\<lparr>m_content := content'\<rparr> in
         if x = None then (PR_ERROR, c')
         else if m_isComplete c' \<and> m_validateUtf8 c' \<and> \<not> validateUtf8Payload c'
         then (PR_ERROR, c'\<lparr>m_lastValidationResult := INVALID_UTF8\<rparr>)
         else (GOTO_NEXT_SUBPARSER, c')))"

definition validateContent :: "frame_content \<Rightarrow> ValidationResult" where
  "validateContent c = (if \<not> m_validateUtf8 c then VR_SUCCESS
     else if m_lastValidationResult c \<noteq> VR_SUCCESS then m_lastValidationResult c else VR_SUCCESS)"

definition getContentAsString :: "frame_content \<Rightarrow> bytes" where
  "getContentAsString c = B_toStringEx CO (m_content c)"

section \<open>Masking\<close>

lemma length_unmask [simp]: "length (unmaskData key xs) = length xs"
  by (simp add: unmaskData_def)

lemma unmask_Nil_iff [simp]: "unmaskData key xs = [] \<longleftrightarrow> xs = []"
  by (simp flip: length_0_conv)

lemma nth_unmask: "i < length xs \<Longrightarrow> unmaskData key xs ! i = char_of_u8 (u8_of (xs ! i) XOR key ! (i mod 4))"
  by (simp add: unmaskData_def nth_enumerate_eq)

lemma unmask_unmask: "unmaskData key (unmaskData key xs) = xs"
  by (rule nth_equalityI) (simp_all add: nth_unmask xor.assoc)

section \<open>The automaton on a byte string\<close>

fun utf8_scan :: "nat \<Rightarrow> 32 word \<Rightarrow> u8 list \<Rightarrow> (nat \<times> 32 word) option" where
  "utf8_scan r cp [] = Some (r, cp)"
| "utf8_scan r cp (b # bs) = (case utf8_byte r cp b of None \<Rightarrow> None | Some (r', cp') \<Rightarrow> utf8_scan r' cp' bs)"

lemma utf8_loop_scan:
  assumes "chunks_ok c" "i \<le> length (chunks_content c)"
  shows "utf8_loop c i r cp \<longleftrightarrow> utf8_scan r cp (map u8_of (drop i (chunks_content c))) \<noteq> None"
  using assms(2)
proof (induction "length (chunks_content c) - i" arbitrary: i r cp)
  case 0
  then show ?case using chunks_size [OF chunks_ok_wf [OF assms(1)], of no_mmap] by (simp add: utf8_loop.simps)
next
  case (Suc k)
  then have i: "i < length (chunks_content c)" by simp
  have cp: "B_copyOut CO c 1 i = Some [chunks_content c ! i]"
    using ra.copyOut_slice [OF assms(1), of i 1] i by (simp add: take_Suc_conv_app_nth drop_Suc Cons_nth_drop_Suc [symmetric])
  have "drop i (chunks_content c) = chunks_content c ! i # drop (Suc i) (chunks_content c)"
    using i by (simp add: Cons_nth_drop_Suc)
  moreover have "utf8_loop c (Suc i) r' cp' \<longleftrightarrow> utf8_scan r' cp' (map u8_of (drop (Suc i) (chunks_content c))) \<noteq> None" for r' cp'
    using Suc.hyps(1) [of "Suc i"] Suc.hyps(2) i by simp
  ultimately show ?case using i cp chunks_size [OF chunks_ok_wf [OF assms(1)], of no_mmap]
    by (subst utf8_loop.simps) (auto split: option.split)
qed

lemma utf8_scan_append: "utf8_scan r cp (xs @ ys) =
    (case utf8_scan r cp xs of None \<Rightarrow> None | Some (r', cp') \<Rightarrow> utf8_scan r' cp' ys)"
  by (induction r cp xs rule: utf8_scan.induct) (auto split: option.split)

section \<open>Encoded text\<close>

definition utf8_encode :: "nat \<Rightarrow> u8 list" where
  "utf8_encode n =
     (if n < 0x80 then [word_of_nat n]
      else if n < 0x800 then [0xC0 + word_of_nat (n div 64), 0x80 + word_of_nat (n mod 64)]
      else if n < 0x10000 then [0xE0 + word_of_nat (n div 4096), 0x80 + word_of_nat (n div 64 mod 64), 0x80 + word_of_nat (n mod 64)]
      else [0xF0 + word_of_nat (n div 262144), 0x80 + word_of_nat (n div 4096 mod 64), 0x80 + word_of_nat (n div 64 mod 64),
            0x80 + word_of_nat (n mod 64)])"

definition scalar_value :: "nat \<Rightarrow> bool" where
  "scalar_value n \<longleftrightarrow> n \<le> 0x10FFFF \<and> \<not> (0xD800 \<le> n \<and> n \<le> 0xDFFF)"

lemma nat_below_64: "k < 64 \<Longrightarrow> k \<in> set [0..<64]"
  by simp

lemma lead_bytes:
  "list_all (\<lambda>k. (word_of_nat k AND (0x80 :: u8)) = 0) [0..<128]"
  "list_all (\<lambda>k. let b = 0xC0 + word_of_nat k :: u8 in (b AND 0x80) \<noteq> 0 \<and> (b AND 0xE0) = 0xC0 \<and> b AND 0x1F = word_of_nat k) [0..<32]"
  "list_all (\<lambda>k. let b = 0xE0 + word_of_nat k :: u8 in (b AND 0x80) \<noteq> 0 \<and> (b AND 0xE0) \<noteq> 0xC0 \<and> (b AND 0xF0) = 0xE0 \<and>
     b AND 0x0F = word_of_nat k) [0..<16]"
  "list_all (\<lambda>k. let b = 0xF0 + word_of_nat k :: u8 in (b AND 0x80) \<noteq> 0 \<and> (b AND 0xE0) \<noteq> 0xC0 \<and> (b AND 0xF0) \<noteq> 0xE0 \<and>
     (b AND 0xF8) = 0xF0 \<and> b AND 0x07 = word_of_nat k) [0..<8]"
  "list_all (\<lambda>k. let b = 0x80 + word_of_nat k :: u8 in (b AND 0xC0) = 0x80 \<and> b AND 0x3F = word_of_nat k) [0..<64]"
  by (simp_all add: upt_rec Let_def)

lemma ascii_byte: "k < 128 \<Longrightarrow> utf8_byte 0 cp (word_of_nat k) = Some (0, cp)"
  using lead_bytes(1) by (auto simp: list_all_iff utf8_byte_def)

lemma lead_byte:
  "k < 32 \<Longrightarrow> utf8_byte 0 cp (0xC0 + word_of_nat k) = Some (1, word_of_nat k)"
  "k < 16 \<Longrightarrow> utf8_byte 0 cp (0xE0 + word_of_nat k) = Some (2, word_of_nat k)"
  "k < 8 \<Longrightarrow> utf8_byte 0 cp (0xF0 + word_of_nat k) = Some (3, word_of_nat k)"
proof -
  have u: "ucast (word_of_nat k :: u8) = (word_of_nat k :: 32 word)" if "k < 256"
    using that by (simp add: word_unat_eq_iff unsigned_ucast_eq unsigned_of_nat take_bit_nat_def)
  show "k < 32 \<Longrightarrow> utf8_byte 0 cp (0xC0 + word_of_nat k) = Some (1, word_of_nat k)"
    using lead_bytes(2) u by (auto simp: list_all_iff utf8_byte_def Let_def)
  show "k < 16 \<Longrightarrow> utf8_byte 0 cp (0xE0 + word_of_nat k) = Some (2, word_of_nat k)"
    using lead_bytes(3) u by (auto simp: list_all_iff utf8_byte_def Let_def)
  show "k < 8 \<Longrightarrow> utf8_byte 0 cp (0xF0 + word_of_nat k) = Some (3, word_of_nat k)"
    using lead_bytes(4) u by (auto simp: list_all_iff utf8_byte_def Let_def)
qed

lemma codepoint_step:
  assumes "k < 64"
  shows "push_bit 6 (word_of_nat a :: 32 word) OR word_of_nat k = word_of_nat (a * 64 + k)"
proof -
  have "take_bit 6 k = k" using assms by (simp add: take_bit_nat_def)
  then have k: "bit k n \<Longrightarrow> n < 6" for n by (metis bit_take_bit_iff)
  let ?p = "push_bit 6 (word_of_nat a :: 32 word)" and ?k = "word_of_nat k :: 32 word"
  have "?p AND ?k = 0" by (rule bit_word_eqI) (auto simp: bit_simps dest: k)
  then have "?p OR ?k = ?p + ?k" by (rule disjunctive_add_eq_or [symmetric])
  also have "\<dots> = word_of_nat (a * 64 + k)" by (simp add: push_bit_eq_mult)
  finally show ?thesis .
qed

lemma cont_byte:
  assumes "k < 64" "0 < r"
  shows "utf8_byte r (word_of_nat a) (0x80 + word_of_nat k) =
    (if r = 1 \<and> (word_of_nat (a * 64 + k) > (0x10FFFF :: 32 word) \<or>
        word_of_nat (a * 64 + k) \<ge> (0xD800 :: 32 word) \<and> word_of_nat (a * 64 + k) \<le> (0xDFFF :: 32 word)) then None
     else Some (r - 1, word_of_nat (a * 64 + k)))"
proof -
  have "ucast (word_of_nat k :: u8) = (word_of_nat k :: 32 word)"
    using assms(1) by (simp add: word_unat_eq_iff unsigned_ucast_eq unsigned_of_nat take_bit_nat_def)
  moreover have "(0x80 + word_of_nat k AND 0xC0 :: u8) = 0x80" "(0x80 + word_of_nat k AND 0x3F :: u8) = word_of_nat k"
    using lead_bytes(5) assms(1) by (auto simp: list_all_iff Let_def)
  ultimately show ?thesis using assms(2) codepoint_step [OF assms(1), of a]
    by (auto simp: utf8_byte_def isValidUtf8Continuation_def Let_def)
qed

lemma cont_more: "k < 64 \<Longrightarrow> utf8_byte (Suc (Suc r)) (word_of_nat a) (0x80 + word_of_nat k) =
    Some (Suc r, word_of_nat (a * 64 + k))"
  by (simp add: cont_byte)

lemma cont_last:
  assumes "k < 64" "n = a * 64 + k" "n < 4294967296"
  shows "utf8_byte 1 (word_of_nat a) (0x80 + word_of_nat k) = (if scalar_value n then Some (0, word_of_nat n) else None)"
proof -
  have "unat (word_of_nat n :: 32 word) = n" using assms(3) by (simp add: unsigned_of_nat take_bit_nat_def)
  then show ?thesis using cont_byte [OF assms(1), of 1 a] assms(2)
    by (auto simp: scalar_value_def word_less_nat_alt word_le_nat_alt)
qed

lemma utf8_scan_encode:
  assumes "n \<le> 0x10FFFF"
  shows "\<exists>cp'. utf8_scan 0 cp (utf8_encode n) = (if scalar_value n then Some (0, cp') else None)"
proof -
  consider "n < 0x80" | "0x80 \<le> n" "n < 0x800" | "0x800 \<le> n" "n < 0x10000" | "0x10000 \<le> n" by linarith
  then show ?thesis
  proof cases
    case 1
    then show ?thesis by (auto simp: utf8_encode_def ascii_byte scalar_value_def)
  next
    case 2
    have "utf8_byte 1 (word_of_nat (n div 64)) (0x80 + word_of_nat (n mod 64)) =
        (if scalar_value n then Some (0, word_of_nat n) else None)"
      by (rule cont_last) (use 2 in simp_all)
    then show ?thesis using 2 lead_byte(1) [of "n div 64" cp] by (auto simp: utf8_encode_def)
  next
    case 3
    have d: "n div 4096 * 64 + n div 64 mod 64 = n div 64" by (simp add: div_mult2_eq [of n 64 64, simplified])
    have "utf8_byte 1 (word_of_nat (n div 64)) (0x80 + word_of_nat (n mod 64)) =
        (if scalar_value n then Some (0, word_of_nat n) else None)"
      by (rule cont_last) (use 3 in simp_all)
    then show ?thesis
      using 3 lead_byte(2) [of "n div 4096" cp] cont_more [of "n div 64 mod 64" 0 "n div 4096"] d
      by (auto simp: utf8_encode_def numeral_2_eq_2)
  next
    case 4
    have d: "n div 262144 * 64 + n div 4096 mod 64 = n div 4096" "n div 4096 * 64 + n div 64 mod 64 = n div 64"
      by (simp_all add: div_mult2_eq [of n 64 64, simplified] div_mult2_eq [of n 4096 64, simplified])
    have "utf8_byte 1 (word_of_nat (n div 64)) (0x80 + word_of_nat (n mod 64)) =
        (if scalar_value n then Some (0, word_of_nat n) else None)"
      by (rule cont_last) (use assms in simp_all)
    then show ?thesis
      using 4 assms lead_byte(3) [of "n div 262144" cp] cont_more [of "n div 4096 mod 64" 1 "n div 262144"]
        cont_more [of "n div 64 mod 64" 0 "n div 4096"] d
      by (auto simp: utf8_encode_def numeral_3_eq_3)
  qed
qed

lemma utf8_scan_text:
  "\<forall>n\<in>set ns. scalar_value n \<Longrightarrow> \<exists>cp'. utf8_scan 0 cp (concat (map utf8_encode ns)) = Some (0, cp')"
proof (induction ns arbitrary: cp)
  case (Cons n ns)
  have n: "scalar_value n" "n \<le> 0x10FFFF" using Cons.prems by (auto simp: scalar_value_def)
  obtain cp1 where "utf8_scan 0 cp (utf8_encode n) = Some (0, cp1)"
    using utf8_scan_encode [OF n(2), of cp] n(1) by auto
  then show ?case using Cons.IH [of cp1] Cons.prems by (simp add: utf8_scan_append)
qed simp

section \<open>The payload stage\<close>

definition demasked :: "frame_content \<Rightarrow> bytes \<Rightarrow> bytes" where
  "demasked c xs = (if fc_masked c then unmaskData (fc_maskingKey c) xs else xs)"

lemma length_demasked [simp]: "length (demasked c xs) = length xs"
  by (simp add: demasked_def)

lemma content_element [simp]:
  "m_content (element c b) = m_content c" "fc_masked (element c b) = fc_masked c"
  "fc_maskingKey (element c b) = fc_maskingKey c" "m_isComplete (element c b) = m_isComplete c"
  "m_validateUtf8 (element c b) = m_validateUtf8 c" "m_isFirstFrame (element c b) = m_isFirstFrame c"
  by (simp_all add: element_def ref_unparsed_def)

lemma content_done [simp]:
  "m_content (clear_unparsed (run_parse P s)) = m_content (snd (P s))"
  "m_isComplete (clear_unparsed (run_parse P s)) = m_isComplete (snd (P s))"
  "m_isFirstFrame (clear_unparsed (run_parse P s)) = m_isFirstFrame (snd (P s))"
  "m_validateUtf8 (clear_unparsed (run_parse P s)) = m_validateUtf8 (snd (P s))"
  "fc_masked (clear_unparsed (run_parse P s)) = fc_masked (snd (P s))"
  by (simp_all add: clear_unparsed_def run_parse_def setParseResult_def split: prod.split)

text \<open>A message that can still take \<open>n\<close> bytes.\<close>

definition message_room :: "frame_content \<Rightarrow> nat \<Rightarrow> bool" where
  "message_room c n \<longleftrightarrow> chunks_ok (m_content c) \<and> has_room (m_content c) n \<and> \<not> m_isComplete c"

lemma content_parse_element:
  assumes "chunks_ok b" "chunks_content b \<noteq> []" "message_room c (length (chunks_content b))"
  shows "\<exists>ct. FrameContent_parse (element c b) = (GOTO_NEXT_SUBPARSER, (element c b)\<lparr>m_content := ct\<rparr>) \<and> chunks_ok ct \<and>
    chunks_content ct = chunks_content (m_content c) @ demasked c (chunks_content b) \<and> same_limits (m_content c) ct"
proof -
  have pay: "B_copyToBuffer (ref_ops CO) (getParsedBuffer (element c b)) = chunks_content b"
    using rref.copyToBuffer_content [OF element_ref(1) [OF assms(1), of c]] element_ref(2) [OF assms(1), of c] by simp
  have ne: "demasked c (chunks_content b) \<noteq> []" using assms(2) length_demasked [of c "chunks_content b"] by (metis length_0_conv)
  have "has_room (m_content c) (length (demasked c (chunks_content b)))" "chunks_wf (m_content c)"
    using assms(3) by (auto simp: message_room_def intro: chunks_ok_wf)
  from B_append_room [OF this(2,1) ne, of no_mmap] assms(3)
  obtain ct where ct: "B_append CO (m_content c) (demasked c (chunks_content b)) = (Some (length (chunks_content b)), ct)"
    "chunks_ok ct" "chunks_content ct = chunks_content (m_content c) @ demasked c (chunks_content b)" "same_limits (m_content c) ct"
    by (auto simp: message_room_def)
  have "FrameContent_parse (element c b) = (GOTO_NEXT_SUBPARSER, (element c b)\<lparr>m_content := ct\<rparr>)"
    using pay ct(1) assms(3)
    by (cases "fc_masked c") (simp_all add: FrameContent_parse_def Let_def demasked_def message_room_def)
  then show ?thesis using ct by blast
qed

abbreviation content_write :: "(nat \<Rightarrow> bytes) \<Rightarrow> frame_content \<Rightarrow> bytes \<Rightarrow> b_exn + (nat option \<times> frame_content)" where
  "content_write u \<equiv> writeIntoSubParser FrameContent_parse u"

lemma read_payload:
  assumes "sized_stage c N" "message_room c N" "N \<le> length data"
  shows "\<exists>c'. content_write u c data = Inr (Some N, c') \<and> m_parseStatus c' = GOTO_NEXT_SUBPARSER \<and>
    chunks_ok (m_content c') \<and> chunks_content (m_content c') = chunks_content (m_content c) @ demasked c (take N data) \<and>
    same_limits (m_content c) (m_content c') \<and> m_isComplete c' = m_isComplete c \<and> m_validateUtf8 c' = m_validateUtf8 c \<and>
    sized_stage c' N \<and> m_maxChunks (m_unparsedBuffer c') = m_maxChunks (m_unparsedBuffer c)"
proof -
  obtain b where b: "chunks_ok b" "chunks_content b = take N data" "same_limits (m_unparsedBuffer c) b"
    "content_write u c data = Inr (Some N, clear_unparsed (run_parse FrameContent_parse (element c b)))"
    using size_element [OF assms(1,3), of FrameContent_parse u] by blast
  have "chunks_content b \<noteq> []" "length (chunks_content b) = N"
    using assms(1,3) b(2) by (auto simp: sized_stage_def)
  then obtain ct where ct: "FrameContent_parse (element c b) = (GOTO_NEXT_SUBPARSER, (element c b)\<lparr>m_content := ct\<rparr>)"
    "chunks_ok ct" "chunks_content ct = chunks_content (m_content c) @ demasked c (take N data)" "same_limits (m_content c) ct"
    using content_parse_element [OF b(1), of c] assms(2) b(2) by auto
  have "sized_stage (clear_unparsed (run_parse FrameContent_parse (element c b))) N"
    using assms(1) b(1,3) ct(1)
    by (intro sized_stage_cleared) (auto simp: sized_stage_def sp_ok_def has_room_def same_limits_def)
  moreover have "m_maxChunks (m_unparsedBuffer (clear_unparsed (run_parse FrameContent_parse (element c b)))) =
      m_maxChunks (m_unparsedBuffer c)"
    using cleared_buffer(3) [OF b(1)] b(3) ct(1) by (simp add: clear_unparsed_def same_limits_def)
  ultimately show ?thesis using b(4) ct by auto
qed

definition content_inv :: "frame_content \<Rightarrow> bool" where
  "content_inv c \<longleftrightarrow> m_parseMode c = SIZE \<and> \<not> m_isComplete c"

lemma content_parse_fields:
  "m_isComplete (snd (FrameContent_parse c)) = m_isComplete c" "m_isFirstFrame (snd (FrameContent_parse c)) = m_isFirstFrame c"
  "m_parseMode (snd (FrameContent_parse c)) = m_parseMode c"
  by (simp_all add: FrameContent_parse_def Let_def split: prod.split)

lemma content_more:
  "subparser.more c = subparser.more d \<Longrightarrow> m_isComplete c = m_isComplete d \<and> m_isFirstFrame c = m_isFirstFrame d"
  by (cases c; cases d) simp

lemma content_inv_write:
  assumes "content_inv c"
  shows "\<exists>n c'. content_write u c d = Inr (n, c') \<and> content_inv c' \<and> m_isFirstFrame c' = m_isFirstFrame c \<and>
    (\<forall>k. n = Some k \<longrightarrow> k \<le> length d)"
proof -
  let ?c = "if d = [] then c\<lparr>m_streamEnded := True\<rparr> else c"
  obtain n c' where w: "parseBySize FrameContent_parse ?c d = (n, c')" by fastforce
  then have eq: "content_write u c d = Inr (n, c')" using assms by (auto simp: writeIntoSubParser_def content_inv_def)
  have f: "m_isComplete ?c = m_isComplete c" "m_isFirstFrame ?c = m_isFirstFrame c" "m_parseMode ?c = m_parseMode c" by simp_all
  from w have "content_inv c' \<and> m_isFirstFrame c' = m_isFirstFrame c \<and> (\<forall>k. n = Some k \<longrightarrow> k \<le> length d)"
  proof (cases rule: parseBySize_frame)
    case kept
    then show ?thesis using content_more [of c' ?c] f assms by (simp add: content_inv_def)
  next
    case (parsed s2)
    then show ?thesis using content_more [of s2 ?c] content_more [of c' "snd (FrameContent_parse s2)"] f assms content_parse_fields
      by (simp add: content_inv_def)
  qed
  then show ?thesis using eq by blast
qed

section \<open>Properties of the content\<close>

lemma sized_room: "sized_stage c N \<Longrightarrow> m_parseMode c = SIZE \<and> sp_ok c \<and> sp_text c = [] \<and> N = m_maxSize (m_unparsedBuffer c) \<and>
    N \<le> m_maxChunks (m_unparsedBuffer c)"
  by (simp add: sized_stage_def)

text \<open>However the payload of a frame is cut into fragments, the parser appends exactly the
  unmasked payload to the message and goes on, and takes none of the bytes that follow it.
  Unmasking is its own inverse, so a payload masked with the frame's key arrives as it was sent.\<close>

theorem payload_any_fragmentation:
  assumes "sized_stage c N" "message_room c N" "\<forall>x\<in>set ds. x \<noteq> []" "d \<noteq> []"
    "concat ds @ d = unmaskData (fc_maskingKey c) sent @ rest" "length sent = N" "length (concat ds) < N" "fc_masked c"
  shows "\<exists>c1 c2. feed FrameContent_parse u c ds = Some (map (\<lambda>x. Some (length x)) ds, c1) \<and>
    content_write u c1 d = Inr (Some (N - length (concat ds)), c2) \<and> m_parseStatus c2 = GOTO_NEXT_SUBPARSER \<and>
    chunks_content (m_content c2) = chunks_content (m_content c) @ sent"
proof -
  note z = sized_room [OF assms(1)]
  obtain c1 where c1: "feed FrameContent_parse u c ds = Some (map (\<lambda>x. Some (length x)) ds, c1)" "collecting c (concat ds) c1"
    using size_feed [of c N ds FrameContent_parse u] z assms(3,7) by auto
  note f = collecting_fields [OF c1(2)]
  obtain b0 r0 where c1e: "c1 = c\<lparr>m_unparsedBuffer := b0, m_parsedBuffer := r0\<rparr>"
    using c1(2) unfolding collecting_def by blast
  have "length (concat ds @ d) = N + length rest" using assms(5,6) by (metis length_append length_unmask)
  then have N: "N \<le> length (sp_text c1) + length d" "length (sp_text c1) < N" using f(8) assms(7) by auto
  have m: "min (length d) (N - length (sp_text c1)) = N - length (sp_text c1)" using N by simp
  have tk: "take N (sp_text c1 @ d) = unmaskData (fc_maskingKey c) sent" using f(8) assms(5,6) by simp
  obtain b where b: "chunks_ok b" "chunks_content b = unmaskData (fc_maskingKey c) sent"
    "parseBySize FrameContent_parse c1 d = (Some (N - length (sp_text c1)), clear_unparsed (run_parse FrameContent_parse (element c1 b)))"
    using size_step [OF f(7) assms(4) N(2), of FrameContent_parse] z f(9,10) N(1) tk m by (auto simp: element_def)
  have w: "content_write u c1 d = Inr (Some (N - length (concat ds)), clear_unparsed (run_parse FrameContent_parse (element c1 b)))"
    using b(3) z f(1,8) assms(4) by (simp add: writeIntoSubParser_def)
  have "length (chunks_content b) = N" "chunks_content b \<noteq> []" using b(2) assms(6,7) by (auto simp flip: length_0_conv)
  moreover have "message_room c1 N" using assms(2) c1e by (simp add: message_room_def)
  ultimately obtain ct where "FrameContent_parse (element c1 b) = (GOTO_NEXT_SUBPARSER, (element c1 b)\<lparr>m_content := ct\<rparr>)"
    "chunks_content ct = chunks_content (m_content c1) @ demasked c1 (chunks_content b)"
    using content_parse_element [OF b(1), of c1] by auto
  moreover have "demasked c1 (chunks_content b) = sent" "m_content c1 = m_content c"
    using b(2) assms(8) c1e by (simp_all add: demasked_def unmask_unmask)
  ultimately show ?thesis using c1(1) w by auto
qed

definition demo_content :: frame_content where
  "demo_content = setMaskingKey (setMasked (setPayloadLength FrameContent_new 5) True) [1, 2, 3, 4]"

lemma demo_content_room: "sized_stage demo_content 5" "message_room demo_content 5" "fc_masked demo_content"
  "fc_maskingKey demo_content = [1, 2, 3, 4]" "chunks_content (m_content demo_content) = []"
  by (simp_all add: demo_content_def setMaskingKey_def setMasked_def setPayloadLength_def FrameContent_new_def message_room_def
      sized_stage_def sp_ok_def sp_text_def has_room_def subparser.defs setParseDataTargetSize_def setParseStrategy_def
      SubParser_new_def B_setMaxSize_def B_Chunks_new_def chunks_ok_def chunks_wf_def chunks_content_def size_max_def)

theorem payload_any_fragmentation_witness:
  "\<exists>c1 c2. feed FrameContent_parse (\<lambda>_. []) demo_content [take 2 (unmaskData [1, 2, 3, 4] ''hello'')] = Some ([Some 2], c1) \<and>
    content_write (\<lambda>_. []) c1 (drop 2 (unmaskData [1, 2, 3, 4] ''hello'') @ ''xy'') = Inr (Some 3, c2) \<and>
    m_parseStatus c2 = GOTO_NEXT_SUBPARSER \<and> chunks_content (m_content c2) = ''hello''"
proof -
  let ?m = "unmaskData [1, 2, 3, 4] ''hello''"
  have len: "length ?m = 5" by simp
  have "take 2 ?m \<noteq> []" "drop 2 ?m @ ''xy'' \<noteq> []" using len by auto
  then show ?thesis
    using payload_any_fragmentation [OF demo_content_room(1,2), of "[take 2 ?m]" "drop 2 ?m @ ''xy''" "''hello''" "''xy''" "\<lambda>_. []"]
      demo_content_room(3-5) by (simp add: numeral_2_eq_2)
qed

text \<open>The text check accepts the UTF-8 encoding of every sequence of Unicode scalar values,
  however the content is cut into chunks, and rejects a text in which a surrogate code point is
  encoded.\<close>

theorem utf8_check:
  assumes "chunks_ok (m_content c)" "\<forall>n\<in>set ns. scalar_value n"
    "map u8_of (chunks_content (m_content c)) = concat (map utf8_encode ns) @ rest"
  shows "(rest = [] \<longrightarrow> validateUtf8Payload c) \<and>
    (\<forall>n more. 0xD800 \<le> n \<and> n \<le> 0xDFFF \<and> rest = utf8_encode n @ more \<longrightarrow> \<not> validateUtf8Payload c)"
proof -
  note eq = utf8_loop_scan [OF assms(1), of 0 0 0]
  obtain cp where cp: "utf8_scan 0 0 (concat (map utf8_encode ns)) = Some (0, cp)"
    using utf8_scan_text [OF assms(2)] by blast
  have "\<not> validateUtf8Payload c" if "0xD800 \<le> n" "n \<le> 0xDFFF" "rest = utf8_encode n @ more" for n more
    using eq cp utf8_scan_encode [of n cp] that assms(3) by (simp add: validateUtf8Payload_def utf8_scan_append scalar_value_def)
  then show ?thesis using eq cp assms(3) by (auto simp: validateUtf8Payload_def)
qed

theorem utf8_check_witness:
  "validateUtf8Payload (FrameContent_new\<lparr>m_content := demo_chunks\<rparr>)"
proof -
  have u: "map u8_of ''abcdef'' = [97, 98, 99, 100, 101, 102]" by (simp add: u8_of_def)
  show ?thesis
    using utf8_check [of "FrameContent_new\<lparr>m_content := demo_chunks\<rparr>" "[97, 98, 99, 100, 101, 102]" "[]"] u
    by (simp add: scalar_value_def utf8_encode_def)
qed

text \<open>The text check also accepts what is not UTF-8: an overlong encoding, because the branch
  that recognises one is empty, and a text cut off inside a character, because the loop ends
  without looking at the number of bytes still expected.\<close>

theorem utf8_check_gaps:
  "validateUtf8Payload (FrameContent_new\<lparr>m_content := snd (B_append CO B_Chunks_new (map char_of_u8 [0xC0, 0x80]))\<rparr>) \<and>
   validateUtf8Payload (FrameContent_new\<lparr>m_content := snd (B_append CO B_Chunks_new (map char_of_u8 [0xC3]))\<rparr>)"
proof -
  have c: "chunks_ok (snd (B_append CO B_Chunks_new xs)) \<and> chunks_content (snd (B_append CO B_Chunks_new xs)) = xs"
    if "xs \<noteq> []" "length xs \<le> 1000" for xs
  proof -
    have "has_room (B_Chunks_new :: sp_buf) (length xs)"
      using that(2) by (simp add: has_room_def) (simp add: B_Chunks_new_def size_max_def)
    from B_append_room [OF chunks_ok_wf [OF chunks_ok_new] this that(1), of no_mmap] chunks_ok_new show ?thesis by auto
  qed
  show ?thesis
    using utf8_loop_scan [OF conjunct1 [OF c [of "map char_of_u8 [0xC0, 0x80]"]], of 0 0 0]
      utf8_loop_scan [OF conjunct1 [OF c [of "map char_of_u8 [0xC3]"]], of 0 0 0]
      c [of "map char_of_u8 [0xC0, 0x80]"] c [of "map char_of_u8 [0xC3]"]
    by (simp add: validateUtf8Payload_def utf8_byte_def isValidUtf8Continuation_def Let_def)
qed

end
