(* ===== verification/Line_Recv.thy ===== *)
theory Line_Recv
  imports Stream_Parser
begin

text \<open>
  \<open>Protocol_LineRecv/linerecv{,_subparser}.{h,cpp}\<close>: the smallest protocol of the library, a
  parser with one multi-delimiter sub-parser that hands each line to the virtual
  \<open>processParsedLine\<close>. The state of the derived class is the field \<open>lr_user\<close>, and
  \<open>proc\<close> its \<open>processParsedLine\<close>.
\<close>

section \<open>The sub-parser\<close>

record line_sub = subparser +
  m_parsedString :: bytes

definition LineRecv_setMaxObjectSize :: "line_sub \<Rightarrow> nat \<Rightarrow> line_sub" where
  "LineRecv_setMaxObjectSize sp n = setParseDataTargetSize sp (n mod 4294967296)"

definition LineRecv_SubParser_new :: line_sub where
  "LineRecv_SubParser_new =
     (LineRecv_setMaxObjectSize (setParseMultiDelimiter (setParseStrategy
        (subparser.extend SubParser_new \<lparr>m_parsedString = []\<rparr>) MULTIDELIMITER) [[LF], [CR]]) 65536)
     \<lparr>m_subParserName := ''LineRecv_SubParser''\<rparr>"

definition LineRecv_SubParser_parse :: "line_sub \<Rightarrow> ParseResult \<times> line_sub" where
  "LineRecv_SubParser_parse sp =
     (GOTO_NEXT_SUBPARSER, sp\<lparr>m_parsedString := B_toStringEx (ref_ops CO) (getParsedBuffer sp)\<rparr>)"

section \<open>The parser\<close>

record 'l line_recv = parser_base +
  lr_current :: bool
  lr_subParser :: line_sub
  lr_user :: 'l

definition LineRecv_new :: "'l \<Rightarrow> 'l line_recv" where
  "LineRecv_new l = parser_base.extend (parser_base_init\<lparr>m_initialized := True\<rparr>)
     \<lparr>lr_current = True, lr_subParser = LineRecv_SubParser_new, lr_user = l\<rparr>"

definition LineRecv_setMaxLineSize :: "'l line_recv \<Rightarrow> nat \<Rightarrow> 'l line_recv" where
  "LineRecv_setMaxLineSize p n = p\<lparr>lr_subParser := LineRecv_setMaxObjectSize (lr_subParser p) n\<rparr>"

definition LineRecv_initProtocol :: "'l line_recv \<Rightarrow> bool \<times> 'l line_recv" where
  "LineRecv_initProtocol p = (True, p)"

definition LineRecv_changeToNextParser ::
  "('l \<Rightarrow> bytes \<Rightarrow> bool \<times> 'l) \<Rightarrow> 'l line_recv \<Rightarrow> parser_exn + (bool \<times> 'l line_recv)" where
  "LineRecv_changeToNextParser proc p =
     (case proc (lr_user p) (m_parsedString (lr_subParser p)) of (go_on, l') \<Rightarrow>
        (let p' = p\<lparr>lr_user := l'\<rparr> in
         if \<not> go_on then Inr (False, p'\<lparr>lr_current := False\<rparr>) else Inr (True, p')))"

definition line_ops :: "('l \<Rightarrow> bytes \<Rightarrow> bool \<times> 'l) \<Rightarrow> (nat \<Rightarrow> bytes) \<Rightarrow> 'l line_recv parser_ops" where
  "line_ops proc uninit = \<lparr>pp_current = lr_current,
     pp_write = (\<lambda>p buf.
       case writeIntoSubParser LineRecv_SubParser_parse uninit
              (setParseResult (lr_subParser p) GET_MORE_DATA) buf of
         Inl e \<Rightarrow> Inl (Sub_exn e) | Inr (n, sp) \<Rightarrow> Inr (n, p\<lparr>lr_subParser := sp\<rparr>)),
     pp_status = (\<lambda>p. m_parseStatus (lr_subParser p)),
     pp_next = LineRecv_changeToNextParser proc\<rparr>"

section \<open>The sub-parser collects a line\<close>

definition line_sub_ok :: "line_sub \<Rightarrow> bool" where
  "line_sub_ok s \<longleftrightarrow> sp_ok s \<and> m_parseMode s = MULTIDELIMITER \<and> m_parseMultiDelimiter s = [[LF], [CR]] \<and>
     m_maxSize (m_unparsedBuffer s) \<le> m_maxChunks (m_unparsedBuffer s) \<and>
     m_maxSize (m_unparsedBuffer s) < 4294967296 \<and> LF \<notin> set (sp_text s) \<and> CR \<notin> set (sp_text s)"

lemma line_sub_new: "line_sub_ok LineRecv_SubParser_new"
  by (simp add: line_sub_ok_def LineRecv_SubParser_new_def LineRecv_setMaxObjectSize_def
      setParseDataTargetSize_def setParseMultiDelimiter_def setParseStrategy_def subparser.defs SubParser_new_def
      B_setMaxSize_def sp_ok_def sp_text_def has_room_def chunks_content_def chunks_ok_def chunks_wf_def
      B_Chunks_new_def)

lemma find_sub_single:
  "find_sub [c] xs = (if c \<in> set xs then Some (length (takeWhile (\<lambda>x. x \<noteq> c) xs)) else None)"
proof (cases "c \<in> set xs")
  case True
  then obtain as bs where xs: "xs = as @ c # bs" "c \<notin> set as" by (meson split_list_first)
  then have tw: "takeWhile (\<lambda>x. x \<noteq> c) xs = as" by (auto simp: takeWhile_append)
  have "occurs_at [c] xs (length as)" by (simp add: xs occurs_at_def)
  moreover have "\<not> occurs_at [c] xs j" if "j < length as" for j
  proof
    assume "occurs_at [c] xs j"
    then have "as ! j = c" using that by (simp add: xs occurs_at_def drop_Cons' take_Suc_conv_app_nth hd_drop_conv_nth)
    then show False using xs(2) that by (metis nth_mem)
  qed
  ultimately show ?thesis using True tw by (simp add: find_sub_Some_iff first_at_def)
next
  case False
  have "\<not> occurs_at [c] xs i" for i
    using False by (auto simp: occurs_at_split)
  then show ?thesis using False by (simp add: find_sub_None_iff)
qed

text \<open>What the delimiter search finds in the text of a line: a line feed anywhere wins over a
  carriage return.\<close>

lemma find_line_end:
  "find_listed [[LF], [CR]] xs =
     (if LF \<in> set xs then Some (length (takeWhile (\<lambda>x. x \<noteq> LF) xs), [LF])
      else if CR \<in> set xs then Some (length (takeWhile (\<lambda>x. x \<noteq> CR) xs), [CR]) else None)"
  by (simp add: find_sub_single)

lemma line_end_bounds:
  assumes "LF \<notin> set a" "CR \<notin> set a" "find_listed [[LF], [CR]] (a @ d) = Some (i, \<delta>)"
  shows "length a \<le> i" "i < length (a @ d)" "length \<delta> = 1"
proof -
  have tw: "takeWhile (\<lambda>x. x \<noteq> c) (a @ d) = a @ takeWhile (\<lambda>x. x \<noteq> c) d" if "c \<notin> set a" for c
    using that by (intro takeWhile_append2) auto
  have lt: "length (takeWhile (\<lambda>x. x \<noteq> c) d) < length d" if c: "c \<in> set d" for c
  proof -
    obtain xs ys where "d = xs @ c # ys" "c \<notin> set xs" using c by (meson split_list_first)
    then show ?thesis by (auto simp: takeWhile_append)
  qed
  from assms(3) obtain c where "c \<in> {LF, CR}" "c \<in> set (a @ d)" "i = length (takeWhile (\<lambda>x. x \<noteq> c) (a @ d))" "\<delta> = [c]"
    unfolding find_line_end by (auto split: if_splits)
  moreover from this have "c \<notin> set a" using assms(1,2) by auto
  ultimately show "length a \<le> i" "i < length (a @ d)" "length \<delta> = 1" using tw [of c] lt [of c] by auto
qed

lemma line_parse_fields [simp]:
  "fst (LineRecv_SubParser_parse s) = GOTO_NEXT_SUBPARSER"
  "m_unparsedBuffer (snd (LineRecv_SubParser_parse s)) = m_unparsedBuffer s"
  "m_parseMode (snd (LineRecv_SubParser_parse s)) = m_parseMode s"
  "m_parseMultiDelimiter (snd (LineRecv_SubParser_parse s)) = m_parseMultiDelimiter s"
  "m_delimiterFound (snd (LineRecv_SubParser_parse s)) = m_delimiterFound s"
  "m_streamEnded (snd (LineRecv_SubParser_parse s)) = m_streamEnded s"
  "m_parsedString (snd (LineRecv_SubParser_parse s)) = parsed_text s"
  by (simp_all add: LineRecv_SubParser_parse_def parsed_text_def)

lemma line_run_fields [simp]:
  "m_parseMultiDelimiter (run_parse LineRecv_SubParser_parse s) = m_parseMultiDelimiter s"
  "m_streamEnded (run_parse LineRecv_SubParser_parse s) = m_streamEnded s"
  "m_parsedString (run_parse LineRecv_SubParser_parse s) = parsed_text s"
  by (simp_all add: run_parse_def setParseResult_def LineRecv_SubParser_parse_def parsed_text_def)

lemma line_sub_cleared [simp]: "m_parsedString (clear_unparsed s) = m_parsedString s"
  by (simp add: clear_unparsed_def)

lemma line_sub_cleared_ok:
  assumes "chunks_ok (m_unparsedBuffer s)" "has_room (m_unparsedBuffer s) 0" "m_parseMode s = MULTIDELIMITER"
    "m_parseMultiDelimiter s = [[LF], [CR]]" "m_maxSize (m_unparsedBuffer s) \<le> m_maxChunks (m_unparsedBuffer s)"
    "m_maxSize (m_unparsedBuffer s) < 4294967296"
  shows "line_sub_ok (clear_unparsed s)" "sp_text (clear_unparsed s) = []"
proof -
  note c = cleared_buffer [OF assms(1)]
  show t: "sp_text (clear_unparsed s) = []" using c(2) by (simp add: sp_text_def clear_unparsed_def)
  have "has_room (snd (B_clear CO (m_unparsedBuffer s))) 0"
    using has_room_same [OF c(3) assms(2), of 0] c(2) by simp
  then show "line_sub_ok (clear_unparsed s)"
    using c assms t by (simp add: line_sub_ok_def sp_ok_def) (simp add: clear_unparsed_def same_limits_def)
qed

text \<open>One write of data that fits the line limit: the three outcomes.\<close>

lemma line_multi:
  assumes ok: "line_sub_ok s" and fits: "length (sp_text s) + length d \<le> m_maxSize (m_unparsedBuffer s)"
  defines "t \<equiv> sp_text s @ d"
  obtains (line) i \<delta> s' where "find_listed [[LF], [CR]] t = Some (i, \<delta>)"
      "parseByMultiDelimiter LineRecv_SubParser_parse s d = (Some (i + 1 - length (sp_text s)), s')"
      "length (sp_text s) \<le> i" "i < length t" "line_sub_ok s'" "sp_text s' = []" "m_parsedString s' = take i t"
      "m_parseStatus s' = GOTO_NEXT_SUBPARSER" "m_streamEnded s' = m_streamEnded s"
      "m_maxSize (m_unparsedBuffer s') = m_maxSize (m_unparsedBuffer s)"
    | (ended) s' where "find_listed [[LF], [CR]] t = None" "m_streamEnded s"
      "parseByMultiDelimiter LineRecv_SubParser_parse s d = (Some (length d), s')"
      "line_sub_ok s'" "sp_text s' = []" "m_parsedString s' = t" "m_parseStatus s' = GOTO_NEXT_SUBPARSER"
    | (more_data) s' where "find_listed [[LF], [CR]] t = None" "\<not> m_streamEnded s"
      "parseByMultiDelimiter LineRecv_SubParser_parse s d = (Some (length d), s')"
      "line_sub_ok s'" "sp_text s' = t" "m_parseStatus s' = m_parseStatus s" "\<not> m_streamEnded s'"
      "m_maxSize (m_unparsedBuffer s') = m_maxSize (m_unparsedBuffer s)"
proof -
  let ?P = LineRecv_SubParser_parse
  have sp: "sp_ok s" "m_parseMode s = MULTIDELIMITER" "m_parseMultiDelimiter s = [[LF], [CR]]"
    and lim: "m_maxSize (m_unparsedBuffer s) \<le> m_maxChunks (m_unparsedBuffer s)"
      "m_maxSize (m_unparsedBuffer s) < 4294967296"
    and free: "LF \<notin> set (sp_text s)" "CR \<notin> set (sp_text s)"
    using ok by (auto simp: line_sub_ok_def)
  have room: "has_room (m_unparsedBuffer s) (length d)"
    using sp(1) fits lim by (auto simp: sp_ok_def has_room_def sp_text_def)
  obtain b where b: "chunks_ok b" "has_room b 0" "chunks_content b = t" "same_limits (m_unparsedBuffer s) b"
    and eq: "parseByMultiDelimiter ?P s d =
      (case find_listed [[LF], [CR]] t of
         Some (i, \<delta>) \<Rightarrow>
           (let sp3 = clear_unparsed (run_parse ?P (ref_unparsed (s\<lparr>m_unparsedBuffer := b, m_delimiterFound := \<delta>\<rparr>) 0 i)) in
            (Some (sub64 (add64 i (length (m_delimiterFound sp3))) (length (sp_text s))), sp3))
       | None \<Rightarrow> (Some (length d),
                  (if m_streamEnded s then \<lambda>s. clear_unparsed (run_parse ?P s) else id)
                    (ref_unparsed (s\<lparr>m_unparsedBuffer := b\<rparr>) 0 size_max)))"
    using multi_step [OF sp(1) room, of ?P] fits lim unfolding sp(3) t_def by auto
  have lb: "m_maxSize b \<le> m_maxChunks b" "m_maxSize b < 4294967296" "m_maxSize b = m_maxSize (m_unparsedBuffer s)"
    using b(4) lim by (auto simp: same_limits_def)
  have cl: "line_sub_ok (clear_unparsed (run_parse ?P (ref_unparsed (s\<lparr>m_unparsedBuffer := b, m_delimiterFound := \<delta>\<rparr>) 0 i)))"
    "sp_text (clear_unparsed (run_parse ?P (ref_unparsed (s\<lparr>m_unparsedBuffer := b, m_delimiterFound := \<delta>\<rparr>) 0 i))) = []" for i \<delta>
    using line_sub_cleared_ok [of "run_parse ?P (ref_unparsed (s\<lparr>m_unparsedBuffer := b, m_delimiterFound := \<delta>\<rparr>) 0 i)"]
      b(1,2) lb sp(2,3) by simp_all
  show thesis
  proof (cases "find_listed [[LF], [CR]] t")
    case (Some r)
    obtain i \<delta> where r: "r = (i, \<delta>)" by fastforce
    have i: "length (sp_text s) \<le> i" "i < length t" "length \<delta> = 1"
      using Some line_end_bounds [OF free, of d i \<delta>] by (auto simp: r t_def)
    let ?s' = "clear_unparsed (run_parse ?P (ref_unparsed (s\<lparr>m_unparsedBuffer := b, m_delimiterFound := \<delta>\<rparr>) 0 i))"
    have "length t < two64" using fits lim(2) by (simp add: t_def)
    then have cnt: "sub64 (add64 i 1) (length (sp_text s)) = i + 1 - length (sp_text s)"
      using i by (simp add: add64_small sub64_small)
    have "parseByMultiDelimiter ?P s d = (Some (i + 1 - length (sp_text s)), ?s')"
      using eq Some cnt i(3) by (simp add: r Let_def)
    moreover have "m_parsedString ?s' = take i t"
      using parsed_text_ref [of "s\<lparr>m_unparsedBuffer := b, m_delimiterFound := \<delta>\<rparr>" i] b by (simp add: sp_text_def)
    moreover have "m_maxSize (m_unparsedBuffer ?s') = m_maxSize (m_unparsedBuffer s)"
      using cleared_buffer(3) [OF b(1)] lb(3) by (simp add: clear_unparsed_def same_limits_def)
    ultimately show ?thesis using line [of i \<delta> ?s'] Some cl i by (simp add: r)
  next
    case None
    let ?r = "ref_unparsed (s\<lparr>m_unparsedBuffer := b\<rparr>) 0 size_max"
    show ?thesis
    proof (cases "m_streamEnded s")
      case True
      let ?s' = "clear_unparsed (run_parse ?P ?r)"
      have "m_parsedString ?s' = t" using parsed_text_all [of "s\<lparr>m_unparsedBuffer := b\<rparr>"] b by (simp add: sp_text_def)
      moreover have "line_sub_ok ?s'" "sp_text ?s' = []"
        using line_sub_cleared_ok [of "run_parse ?P ?r"] b(1,2) lb sp(2,3) by simp_all
      ultimately show ?thesis using ended [of ?s'] None True eq by simp
    next
      case False
      have "LF \<notin> set t" "CR \<notin> set t" using None unfolding find_line_end by (auto split: if_splits)
      then have "line_sub_ok ?r" using sp lb b by (simp add: line_sub_ok_def sp_ok_def sp_text_def)
      moreover have "m_parseStatus ?r = m_parseStatus s" by (simp add: ref_unparsed_def)
      ultimately show ?thesis using more_data [of ?r] None False eq b(3) lb(3) by (simp add: sp_text_def)
    qed
  qed
qed

section \<open>The driver delivers the lines\<close>

definition line_ok :: "'l line_recv \<Rightarrow> bool" where
  "line_ok p \<longleftrightarrow> line_sub_ok (lr_subParser p)"

lemma line_ops_sel [simp]:
  "pp_current (line_ops proc u) = lr_current"
  "pp_status (line_ops proc u) p = m_parseStatus (lr_subParser p)"
  "pp_next (line_ops proc u) = LineRecv_changeToNextParser proc"
  by (simp_all add: line_ops_def)

lemma status_reset [simp]:
  "line_sub_ok (setParseResult s r) = line_sub_ok s" "sp_text (setParseResult s r) = sp_text s"
  "m_unparsedBuffer (setParseResult s r) = m_unparsedBuffer s"
  "m_streamEnded (setParseResult s r) = m_streamEnded s"
  "m_parseStatus (setParseResult s r) = r"
  by (simp_all add: setParseResult_def line_sub_ok_def sp_ok_def sp_text_def)

lemma stream_end_ok [simp]:
  "line_sub_ok (s\<lparr>m_streamEnded := True\<rparr>) = line_sub_ok s" "sp_text (s\<lparr>m_streamEnded := True\<rparr>) = sp_text s"
  by (simp_all add: line_sub_ok_def sp_ok_def sp_text_def)

text \<open>Data beyond the size limit is cut off by the append; a full buffer refuses.\<close>

lemma append_cut:
  assumes "0 < B_getSizeLeft CO (m_unparsedBuffer s)"
  shows "appendToUnparsedBuffer s (take (B_getSizeLeft CO (m_unparsedBuffer s)) d) = appendToUnparsedBuffer s d"
  using assms by (simp add: appendToUnparsedBuffer_def Let_def min.commute min.left_commute)

lemma line_sub_write:
  assumes "line_sub_ok s"
  shows "\<exists>n s'. parseByMultiDelimiter LineRecv_SubParser_parse s d = (n, s') \<and> line_sub_ok s' \<and>
    (\<forall>k. n = Some k \<longrightarrow> k \<le> length d)"
proof -
  let ?left = "B_getSizeLeft CO (m_unparsedBuffer s)"
  have sp: "sp_ok s" using assms by (simp add: line_sub_ok_def)
  have left: "?left = m_maxSize (m_unparsedBuffer s) - length (sp_text s)" by (rule sp_size_left [OF sp])
  have le: "length (sp_text s) \<le> m_maxSize (m_unparsedBuffer s)"
    using sp by (simp add: sp_ok_def has_room_def sp_text_def)
  show ?thesis
  proof (cases "?left = 0 \<and> d \<noteq> []")
    case True
    then show ?thesis using assms
      by (simp add: parseByMultiDelimiter_def appendToUnparsedBuffer_def Let_def)
  next
    case False
    then have "parseByMultiDelimiter LineRecv_SubParser_parse s (take ?left d) =
        parseByMultiDelimiter LineRecv_SubParser_parse s d"
      using append_cut [of s d] by (cases "?left = 0") (auto simp: parseByMultiDelimiter_def)
    moreover have "length (sp_text s) + length (take ?left d) \<le> m_maxSize (m_unparsedBuffer s)"
      using left le by simp
    note cases = line_multi [OF assms this]
    have "\<exists>n s'. parseByMultiDelimiter LineRecv_SubParser_parse s (take ?left d) = (n, s') \<and> line_sub_ok s' \<and>
        (\<forall>k. n = Some k \<longrightarrow> k \<le> length d)"
      by (rule cases) auto
    ultimately show ?thesis by simp
  qed
qed

interpretation line: parser_stage "line_ops proc u" line_ok "\<lambda>_. False"
  for proc :: "'l \<Rightarrow> bytes \<Rightarrow> bool \<times> 'l" and u
proof
  fix p :: "'l line_recv" and buf :: bytes
  assume ok: "line_ok p"
  let ?s = "setParseResult (lr_subParser p) GET_MORE_DATA"
  let ?t = "if buf = [] then ?s\<lparr>m_streamEnded := True\<rparr> else ?s"
  have t: "line_sub_ok ?t" using ok by (simp add: line_ok_def)
  obtain n s' where "parseByMultiDelimiter LineRecv_SubParser_parse ?t buf = (n, s')" "line_sub_ok s'"
    "\<forall>k. n = Some k \<longrightarrow> k \<le> length buf" using line_sub_write [OF t] by blast
  moreover have "m_parseMode ?t = MULTIDELIMITER" using t by (simp add: line_sub_ok_def)
  ultimately show "\<exists>n p'. pp_write (line_ops proc u) p buf = Inr (n, p') \<and> line_ok p' \<and>
      (\<forall>k. n = Some k \<longrightarrow> k \<le> length buf)"
    by (simp add: line_ops_def writeIntoSubParser_def Let_def line_ok_def)
next
  fix p :: "'l line_recv"
  show "line_ok p \<Longrightarrow> (\<exists>c p'. pp_next (line_ops proc u) p = Inr (c, p') \<and> line_ok p') \<or>
      (\<exists>e. pp_next (line_ops proc u) p = Inl e \<and> False)"
    by (auto simp: line_ok_def LineRecv_changeToNextParser_def Let_def split: prod.split)
  show "pp_write (line_ops proc u) p buf = Inr (n, p') \<Longrightarrow>
      pp_current (line_ops proc u) p' = pp_current (line_ops proc u) p" for buf n p'
    by (auto simp: line_ops_def split: sum.splits prod.splits)
  show "line_ok p \<Longrightarrow> line_ok (set_finished p)" by (simp add: line_ok_def set_finished_def)
  show "pp_current (line_ops proc u) (set_finished p) = pp_current (line_ops proc u) p"
    by (simp add: set_finished_def)
qed

text \<open>The reference: the lines completed by \<open>d\<close> when \<open>r\<close> is pending, and the new pending
  text.\<close>

fun split_lines :: "bytes \<Rightarrow> bytes \<Rightarrow> bytes list \<times> bytes" where
  "split_lines r [] = ([], r)"
| "split_lines r (c # d) =
     (if c = LF then (case split_lines [] d of (ls, rest) \<Rightarrow> (r # ls, rest)) else split_lines (r @ [c]) d)"

lemma split_lines_append:
  "split_lines r (d @ e) =
     (case split_lines r d of (ls, rest) \<Rightarrow> (case split_lines rest e of (ls', rest') \<Rightarrow> (ls @ ls', rest')))"
  by (induction r d rule: split_lines.induct) (auto split: prod.split)

lemma split_lines_none: "LF \<notin> set d \<Longrightarrow> split_lines r d = ([], r @ d)"
  by (induction r d rule: split_lines.induct) auto

lemma split_lines_first:
  "LF \<notin> set d \<Longrightarrow> split_lines r (d @ LF # e) = ((r @ d) # fst (split_lines [] e), snd (split_lines [] e))"
  by (simp add: split_lines_append split_lines_none split: prod.split)

text \<open>A write of one sub-parser call, on data without carriage returns.\<close>

definition receiving :: "'l line_recv \<Rightarrow> nat \<Rightarrow> bool" where
  "receiving p n \<longleftrightarrow> line_ok p \<and> lr_current p \<and> \<not> m_streamEnded (lr_subParser p) \<and>
     length (sp_text (lr_subParser p)) + n \<le> m_maxSize (m_unparsedBuffer (lr_subParser p))"

definition line_limits :: "'l line_recv \<Rightarrow> nat \<times> nat" where
  "line_limits p = (m_maxTTL p, m_maxSize (m_unparsedBuffer (lr_subParser p)))"

lemma line_no_CR: "line_ok p \<Longrightarrow> CR \<notin> set (sp_text (lr_subParser p))"
  "line_ok p \<Longrightarrow> LF \<notin> set (sp_text (lr_subParser p))"
  by (auto simp: line_ok_def line_sub_ok_def)

lemma pp_write_line:
  assumes "line_ok p" "d \<noteq> []"
  shows "pp_write (line_ops proc u) p d =
    (case parseByMultiDelimiter LineRecv_SubParser_parse (setParseResult (lr_subParser p) GET_MORE_DATA) d of
       (n, s') \<Rightarrow> Inr (n, p\<lparr>lr_subParser := s'\<rparr>))"
  using assms
  by (simp add: line_ops_def writeIntoSubParser_def line_ok_def line_sub_ok_def setParseResult_def)

lemma LF_neq_CR [simp]: "LF \<noteq> CR" "CR \<noteq> LF"
  by simp_all

lemma write_pending:
  assumes "receiving p (length d)" "d \<noteq> []" "CR \<notin> set d" "LF \<notin> set d"
  shows "\<exists>s'. pp_write (line_ops proc u) p d = Inr (Some (length d), p\<lparr>lr_subParser := s'\<rparr>) \<and>
    m_parseStatus s' = GET_MORE_DATA \<and> receiving (p\<lparr>lr_subParser := s'\<rparr>) 0 \<and>
    sp_text s' = sp_text (lr_subParser p) @ d \<and> line_limits (p\<lparr>lr_subParser := s'\<rparr>) = line_limits p"
proof -
  let ?s = "setParseResult (lr_subParser p) GET_MORE_DATA"
  have ok: "line_ok p" "line_sub_ok ?s" and fits: "length (sp_text ?s) + length d \<le> m_maxSize (m_unparsedBuffer ?s)"
    using assms(1) by (auto simp: receiving_def line_ok_def)
  have none: "find_listed [[LF], [CR]] (sp_text ?s @ d) = None"
    unfolding find_line_end using line_no_CR [OF ok(1)] assms by auto
  show ?thesis
    using ok(2) fits
  proof (cases rule: line_multi)
    case (more_data s')
    then show ?thesis using assms(1,2) pp_write_line [OF ok(1), of d proc u]
      by (auto simp: receiving_def line_ok_def line_limits_def)
  qed (use none assms(1) in \<open>auto simp: receiving_def\<close>)
qed

lemma write_line:
  assumes "receiving p (length d)" "CR \<notin> set d" "d = a @ LF # e" "LF \<notin> set a"
  shows "\<exists>s'. pp_write (line_ops proc u) p d = Inr (Some (length a + 1), p\<lparr>lr_subParser := s'\<rparr>) \<and>
    m_parseStatus s' = GOTO_NEXT_SUBPARSER \<and> receiving (p\<lparr>lr_subParser := s'\<rparr>) (length e) \<and>
    sp_text s' = [] \<and> m_parsedString s' = sp_text (lr_subParser p) @ a \<and>
    line_limits (p\<lparr>lr_subParser := s'\<rparr>) = line_limits p"
proof -
  let ?s = "setParseResult (lr_subParser p) GET_MORE_DATA" and ?r = "sp_text (lr_subParser p)"
  have ok: "line_ok p" "line_sub_ok ?s" and fits: "length (sp_text ?s) + length d \<le> m_maxSize (m_unparsedBuffer ?s)"
    using assms(1) by (auto simp: receiving_def line_ok_def)
  have "takeWhile (\<lambda>x. x \<noteq> LF) (?r @ d) = ?r @ a"
    using line_no_CR [OF ok(1)] assms(3,4) by (auto simp: takeWhile_append)
  then have found: "find_listed [[LF], [CR]] (sp_text ?s @ d) = Some (length (?r @ a), [LF])"
    unfolding find_line_end using assms(3) by simp
  show ?thesis
    using ok(2) fits
  proof (cases rule: line_multi)
    case (line i \<delta> s')
    then have i: "i = length (?r @ a)" using found by simp
    have "take i (?r @ d) = ?r @ a" using assms(3) i by simp
    then show ?thesis using line assms(1,3) pp_write_line [OF ok(1), of d proc u] i
      by (auto simp: receiving_def line_ok_def line_limits_def)
  qed (use found in auto)
qed

lemma receive_lines:
  assumes "\<And>l x. proc l x = (True, f l x)"
    "receiving p (length d)" "d \<noteq> []" "CR \<notin> set d" "ttl + length (filter (\<lambda>c. c = LF) d) \<le> maxTTL"
  shows "\<exists>p'. parseData (line_ops proc u) maxTTL p d ttl = Inr (Some (length d), p') \<and> receiving p' 0 \<and>
    line_limits p' = line_limits p \<and> lr_user p' = foldl f (lr_user p) (fst (split_lines (sp_text (lr_subParser p)) d)) \<and>
    sp_text (lr_subParser p') = snd (split_lines (sp_text (lr_subParser p)) d)"
  using assms(2-)
proof (induction "length d" arbitrary: p d ttl rule: less_induct)
  case less
  let ?P = "line_ops proc u" and ?r = "sp_text (lr_subParser p)"
  have cur: "lr_current p" "\<not> ttl > maxTTL" using less.prems by (auto simp: receiving_def)
  show ?case
  proof (cases "LF \<in> set d")
    case False
    obtain s' where s': "pp_write ?P p d = Inr (Some (length d), p\<lparr>lr_subParser := s'\<rparr>)"
      "m_parseStatus s' = GET_MORE_DATA" "receiving (p\<lparr>lr_subParser := s'\<rparr>) 0" "sp_text s' = ?r @ d"
      "line_limits (p\<lparr>lr_subParser := s'\<rparr>) = line_limits p"
      using write_pending [OF less.prems(1,2,3) False] by blast
    then have "parseData ?P maxTTL p d ttl = Inr (Some (length d), p\<lparr>lr_subParser := s'\<rparr>)"
      using cur by (subst parseData.simps) simp
    then show ?thesis using s' split_lines_none [OF False, of ?r] by simp
  next
    case True
    then obtain a e where d: "d = a @ LF # e" "LF \<notin> set a" by (meson split_list_first)
    obtain s' where s': "pp_write ?P p d = Inr (Some (length a + 1), p\<lparr>lr_subParser := s'\<rparr>)"
      "m_parseStatus s' = GOTO_NEXT_SUBPARSER" "receiving (p\<lparr>lr_subParser := s'\<rparr>) (length e)" "sp_text s' = []"
      "m_parsedString s' = ?r @ a" "line_limits (p\<lparr>lr_subParser := s'\<rparr>) = line_limits p"
      using write_line [OF less.prems(1,3) d] by blast
    define q where "q = p\<lparr>lr_subParser := s', lr_user := f (lr_user p) (?r @ a)\<rparr>"
    have nx: "LineRecv_changeToNextParser proc (p\<lparr>lr_subParser := s'\<rparr>) = Inr (True, q)"
      using s'(5) assms(1) by (simp add: LineRecv_changeToNextParser_def q_def)
    have q: "receiving q (length e)" "lr_current q" "sp_text (lr_subParser q) = []"
      "lr_user q = f (lr_user p) (?r @ a)" "line_limits q = line_limits p"
      using s'(3,4,6) cur by (auto simp: q_def receiving_def line_ok_def line_limits_def)
    note spl = split_lines_first [OF d(2), of ?r e]
    show ?thesis
    proof (cases "e = []")
      case True
      then have "parseData ?P maxTTL p d ttl = Inr (Some (length d), q)"
        using cur s'(1,2) nx q(2) d(1) by (subst parseData.simps) simp
      then show ?thesis using q True spl d(1) by simp
    next
      case False
      have "receiving q (length e)" "CR \<notin> set e" "ttl + 1 + length (filter (\<lambda>c. c = LF) e) \<le> maxTTL"
        "length e < length d" using q(1) less.prems(3,4) d(1) by auto
      from less.hyps [OF this(4) this(1) False this(2,3)] obtain p' where
        p': "parseData ?P maxTTL q e (ttl + 1) = Inr (Some (length e), p')" "receiving p' 0"
        "line_limits p' = line_limits q" "lr_user p' = foldl f (lr_user q) (fst (split_lines (sp_text (lr_subParser q)) e))"
        "sp_text (lr_subParser p') = snd (split_lines (sp_text (lr_subParser q)) e)" by blast
      have "length d < two64" using less.prems(1) by (simp add: receiving_def line_ok_def line_sub_ok_def)
      then have "parseData ?P maxTTL p d ttl = Inr (Some (length d), p')"
        using cur s'(1,2) nx q(2) d(1) p'(1) False
        by (subst parseData.simps) (simp add: Let_def add64_small add.commute)
      then show ?thesis using p' q spl d(1) by simp
    qed
  qed
qed

end
