(* ===== verification/Parsing_Correct.thy ===== *)
theory Parsing_Correct
  imports Line_Recv "HOL-Library.Code_Target_Nat"
begin

text \<open>
  The properties of the sub-parser strategies (\<open>Memory/subparser.cpp\<close>), of the driver
  (\<open>Memory/parser.cpp\<close>) and of the line protocol built on them: what an element is, how many
  bytes it takes from the stream, and that neither depends on how the stream was cut into
  fragments.
\<close>

section \<open>Collecting an element\<close>

text \<open>C1: with the delimiter strategy, however the stream is cut into fragments, every fragment
  before the one that completes the delimiter is taken whole without a call of \<open>parse\<close>, and
  that one calls \<open>parse\<close> on exactly the text before the first delimiter and takes exactly the
  bytes up to its end.\<close>

theorem delimiter_any_fragmentation:
  assumes "sp_ok sp" "m_parseMode sp = DELIMITER" "\<not> m_streamEnded sp" "m_parseDelimiter sp = \<delta>" "\<delta> \<noteq> []"
    and "has_room (m_unparsedBuffer sp) (length (concat ds @ d))"
    and "length \<delta> + length (sp_text sp) + length (concat ds @ d) < two64"
    and "\<forall>x\<in>set ds. x \<noteq> []" "d \<noteq> []"
    and "find_sub \<delta> (sp_text sp @ concat ds) = None"
    and "find_sub \<delta> (sp_text sp @ concat ds @ d) = Some i"
    and "\<And>s. m_parseDelimiter (snd (parse s)) = m_parseDelimiter s"
  shows "\<exists>s1 s2. feed parse u sp ds = Some (map (\<lambda>x. Some (length x)) ds, s1) \<and>
    subparser.more s1 = subparser.more sp \<and>
    writeIntoSubParser parse u s1 d =
      Inr (Some (i + length \<delta> - length (sp_text sp @ concat ds)), clear_unparsed (run_parse parse s2)) \<and>
    parsed_text s2 = take i (sp_text sp @ concat ds @ d) \<and> subparser.more s2 = subparser.more sp"
proof -
  obtain s1 where s1: "feed parse u sp ds = Some (map (\<lambda>x. Some (length x)) ds, s1)"
    "collecting sp (sp_text sp @ concat ds) s1"
    using delimiter_feed [OF assms(1,2,3) _ assms(6) _ assms(8), of parse u] assms by auto
  note f = collecting_fields [OF s1(2)]
  have room: "has_room (m_unparsedBuffer s1) (length d)"
    using collecting_room [OF s1(2) assms(6), of "length d"] by simp
  have len: "length (m_parseDelimiter s1) + length (sp_text s1) + length d < two64"
    "m_parseDelimiter s1 \<noteq> []" using assms(4,5,7) f by simp_all
  obtain b where b: "chunks_ok b" "chunks_content b = sp_text s1 @ d"
    "parseByDelimiter parse s1 d =
      (let sp3 = clear_unparsed (run_parse parse (ref_unparsed (s1\<lparr>m_unparsedBuffer := b\<rparr>) 0 i)) in
         (Some (add64 (sub64 i (length (sp_text s1))) (length (m_parseDelimiter sp3))), sp3))"
    using delimiter_step [OF f(7) room len(2,1), of parse] assms(4,11) f by auto
  let ?s2 = "ref_unparsed (s1\<lparr>m_unparsedBuffer := b\<rparr>) 0 i"
  have "find_sub \<delta> (sp_text s1 @ d) = Some i" "find_sub \<delta> (sp_text s1) = None" using assms(10,11) f by simp_all
  from count_exact(1) [OF this] len assms(4)
  have "add64 (sub64 i (length (sp_text s1))) (length \<delta>) = i + length \<delta> - length (sp_text s1)" using f by simp
  then have "writeIntoSubParser parse u s1 d =
      Inr (Some (i + length \<delta> - length (sp_text sp @ concat ds)), clear_unparsed (run_parse parse ?s2))"
    using b(3) assms(2,4,9,12) f by (simp add: writeIntoSubParser_def Let_def)
  moreover have "parsed_text ?s2 = take i (sp_text sp @ concat ds @ d)"
    using parsed_text_ref [of "s1\<lparr>m_unparsedBuffer := b\<rparr>" i] b f by (simp add: sp_text_def)
  ultimately show ?thesis using s1(1) f(6) by (intro exI [of _ s1] exI [of _ ?s2]) simp
qed

text \<open>A concrete stage for the examples: the line sub-parser set to the strategy in question.\<close>

definition demo_stage :: "ParseStrategy \<Rightarrow> nat \<Rightarrow> line_sub" where
  "demo_stage m n = setParseDataTargetSize (LineRecv_SubParser_new\<lparr>m_parseMode := m\<rparr>) n"

lemma demo_stage_simps [simp]:
  "m_parseMode (demo_stage m n) = m" "m_parseDelimiter (demo_stage m n) = [CR, LF]"
  "\<not> m_streamEnded (demo_stage m n)" "sp_text (demo_stage m n) = []"
  "m_maxSize (m_unparsedBuffer (demo_stage m n)) = n"
  "m_maxChunks (m_unparsedBuffer (demo_stage m n)) = 262144"
  "n < 262144 \<Longrightarrow> k \<le> n \<Longrightarrow> has_room (m_unparsedBuffer (demo_stage m n)) k"
  "n < 262144 \<Longrightarrow> sp_ok (demo_stage m n)"
  "subparser.more (demo_stage m n) = \<lparr>m_parsedString = []\<rparr>"
  by (simp_all add: demo_stage_def LineRecv_SubParser_new_def LineRecv_setMaxObjectSize_def
      setParseDataTargetSize_def setParseMultiDelimiter_def setParseStrategy_def subparser.defs SubParser_new_def
      B_setMaxSize_def sp_ok_def sp_text_def has_room_def chunks_content_def chunks_ok_def chunks_wf_def B_Chunks_new_def)

lemma line_parse_delimiter [simp]:
  "m_parseDelimiter (snd (LineRecv_SubParser_parse s)) = m_parseDelimiter s"
  by (simp add: LineRecv_SubParser_parse_def)

theorem delimiter_any_fragmentation_witness:
  "\<exists>s1 s2. feed LineRecv_SubParser_parse (\<lambda>n. replicate n CR) (demo_stage DELIMITER 100) [''ab'', ''c'' @ [CR]] =
      Some ([Some 2, Some 2], s1) \<and>
    subparser.more s1 = \<lparr>m_parsedString = []\<rparr> \<and>
    writeIntoSubParser LineRecv_SubParser_parse (\<lambda>n. replicate n CR) s1 ([LF] @ ''xyz'') =
      Inr (Some 1, clear_unparsed (run_parse LineRecv_SubParser_parse s2)) \<and>
    parsed_text s2 = ''abc'' \<and> subparser.more s2 = \<lparr>m_parsedString = []\<rparr>"
  using delimiter_any_fragmentation [of "demo_stage DELIMITER 100" "[CR, LF]" "[''ab'', ''c'' @ [CR]]" "[LF] @ ''xyz''" 3
      LineRecv_SubParser_parse "\<lambda>n. replicate n CR"]
  by (simp add: find_sub.simps occurs_at_def numeral_2_eq_2)

text \<open>C2: with the size strategy, however the stream is cut, \<open>parse\<close> is called when the target
  size is reached, on exactly that many bytes, and nothing beyond them is taken.\<close>

theorem size_any_fragmentation:
  assumes "sp_ok sp" "m_parseMode sp = SIZE" "m_maxSize (m_unparsedBuffer sp) = N"
    "N \<le> m_maxChunks (m_unparsedBuffer sp)" "\<forall>x\<in>set ds. x \<noteq> []" "d \<noteq> []"
    "length (sp_text sp @ concat ds) < N" "N \<le> length (sp_text sp @ concat ds @ d)"
  shows "\<exists>s1 s2. feed parse u sp ds = Some (map (\<lambda>x. Some (length x)) ds, s1) \<and>
    subparser.more s1 = subparser.more sp \<and>
    writeIntoSubParser parse u s1 d =
      Inr (Some (N - length (sp_text sp @ concat ds)), clear_unparsed (run_parse parse s2)) \<and>
    parsed_text s2 = take N (sp_text sp @ concat ds @ d) \<and> subparser.more s2 = subparser.more sp"
proof -
  obtain s1 where s1: "feed parse u sp ds = Some (map (\<lambda>x. Some (length x)) ds, s1)"
    "collecting sp (sp_text sp @ concat ds) s1"
    using size_feed [OF assms(1,2) assms(3) [symmetric] assms(4,5,7), of parse u] by blast
  note f = collecting_fields [OF s1(2)]
  have len: "length (sp_text s1) < N" "N = m_maxSize (m_unparsedBuffer s1)" "N \<le> m_maxChunks (m_unparsedBuffer s1)"
    using assms(3,4,7) f by auto
  obtain b where b: "chunks_ok b" "chunks_content b = take N (sp_text s1 @ d)"
    "parseBySize parse s1 d = (Some (min (length d) (N - length (sp_text s1))),
      if N \<le> length (sp_text s1) + length d
      then clear_unparsed (run_parse parse (ref_unparsed (s1\<lparr>m_unparsedBuffer := b\<rparr>) 0 size_max))
      else s1\<lparr>m_unparsedBuffer := b\<rparr>)"
    using size_step [OF f(7) assms(6) len, of parse] by blast
  let ?s2 = "ref_unparsed (s1\<lparr>m_unparsedBuffer := b\<rparr>) 0 size_max"
  have "writeIntoSubParser parse u s1 d =
      Inr (Some (N - length (sp_text sp @ concat ds)), clear_unparsed (run_parse parse ?s2))"
    using b(3) assms(2,6,8) f by (auto simp: writeIntoSubParser_def min_def)
  moreover have "parsed_text ?s2 = take N (sp_text sp @ concat ds @ d)"
    using parsed_text_all [of "s1\<lparr>m_unparsedBuffer := b\<rparr>"] b f by (simp add: sp_text_def)
  ultimately show ?thesis using s1(1) f(6) by (intro exI [of _ s1] exI [of _ ?s2]) simp
qed

theorem size_any_fragmentation_witness:
  "\<exists>s1 s2. feed LineRecv_SubParser_parse (\<lambda>n. replicate n CR) (demo_stage SIZE 4) [''a'', ''b''] =
      Some ([Some 1, Some 1], s1) \<and>
    subparser.more s1 = \<lparr>m_parsedString = []\<rparr> \<and>
    writeIntoSubParser LineRecv_SubParser_parse (\<lambda>n. replicate n CR) s1 ''cdef'' =
      Inr (Some 2, clear_unparsed (run_parse LineRecv_SubParser_parse s2)) \<and>
    parsed_text s2 = ''abcd'' \<and> subparser.more s2 = \<lparr>m_parsedString = []\<rparr>"
  using size_any_fragmentation [of "demo_stage SIZE 4" 4 "[''a'', ''b'']" "''cdef''"
      LineRecv_SubParser_parse "\<lambda>n. replicate n CR"]
  by simp

text \<open>With the connection-end strategy nothing is parsed before the end of the stream; the
  empty write then calls \<open>parse\<close> on everything received.\<close>

theorem connection_end_parses_all:
  assumes "sp_ok sp" "m_parseMode sp = CONNECTION_END" "has_room (m_unparsedBuffer sp) (length (concat ds))"
    "\<forall>x\<in>set ds. x \<noteq> []"
  shows "\<exists>s1 s2. feed parse u sp ds = Some (map (\<lambda>x. Some (length x)) ds, s1) \<and>
    subparser.more s1 = subparser.more sp \<and>
    writeIntoSubParser parse u s1 [] = Inr (Some 0, clear_unparsed (run_parse parse s2)) \<and>
    parsed_text s2 = sp_text sp @ concat ds \<and> subparser.more s2 = subparser.more sp"
proof -
  obtain s1 where s1: "feed parse u sp ds = Some (map (\<lambda>x. Some (length x)) ds, s1)"
    "collecting sp (sp_text sp @ concat ds) s1"
    using connection_end_feed [OF assms, of parse u] by blast
  note f = collecting_fields [OF s1(2)]
  let ?e = "s1\<lparr>m_streamEnded := True\<rparr>"
  have ok: "chunks_ok (m_unparsedBuffer ?e)" "sp_text ?e = sp_text sp @ concat ds"
    using f(7,8) by (simp_all add: sp_ok_def sp_text_def)
  have "writeIntoSubParser parse u s1 [] =
      Inr (Some 0, clear_unparsed (run_parse parse (ref_unparsed ?e 0 size_max)))"
    using f(1) assms(2)
    by (simp add: writeIntoSubParser_def parseByConnectionEnd_def appendToUnparsedBuffer_def Let_def)
  then show ?thesis using s1(1) f(6) parsed_text_all [OF ok(1)] ok(2)
    by (intro exI [of _ s1] exI [of _ "ref_unparsed ?e 0 size_max"]) simp
qed

theorem connection_end_parses_all_witness:
  "\<exists>s1 s2. feed LineRecv_SubParser_parse (\<lambda>n. replicate n CR) (demo_stage CONNECTION_END 100) [''ab'', ''cd''] =
      Some ([Some 2, Some 2], s1) \<and> subparser.more s1 = \<lparr>m_parsedString = []\<rparr> \<and>
    writeIntoSubParser LineRecv_SubParser_parse (\<lambda>n. replicate n CR) s1 [] =
      Inr (Some 0, clear_unparsed (run_parse LineRecv_SubParser_parse s2)) \<and>
    parsed_text s2 = ''abcd'' \<and> subparser.more s2 = \<lparr>m_parsedString = []\<rparr>"
  using connection_end_parses_all [of "demo_stage CONNECTION_END 100" "[''ab'', ''cd'']"
      LineRecv_SubParser_parse "\<lambda>n. replicate n CR"]
  by (simp add: numeral_2_eq_2)

text \<open>With the direct strategy each write hands \<open>parse\<close> exactly the bytes it takes, never
  more than the remaining target size, lowers the target by them without an exception, and
  leaves an empty buffer.\<close>

theorem direct_consumes_budget:
  assumes "sp_ok sp" "sp_text sp = []" "m_parseMode sp = DIRECT" "data \<noteq> []"
    "0 < m_maxSize (m_unparsedBuffer sp)"
    "min (length data) (m_maxSize (m_unparsedBuffer sp)) \<le> m_maxChunks (m_unparsedBuffer sp)"
    and "\<And>s. m_unparsedBuffer (snd (parse s)) = m_unparsedBuffer s"
  shows "\<exists>s2 s'. writeIntoSubParser parse u sp data =
      Inr (Some (min (length data) (m_maxSize (m_unparsedBuffer sp))), s') \<and>
    subparser.more s' = subparser.more (run_parse parse s2) \<and> subparser.more s2 = subparser.more sp \<and>
    parsed_text s2 = take (m_maxSize (m_unparsedBuffer sp)) data \<and>
    sp_ok s' \<and> sp_text s' = [] \<and>
    m_maxSize (m_unparsedBuffer s') = m_maxSize (m_unparsedBuffer sp) - length data"
proof -
  let ?k = "min (length data) (m_maxSize (m_unparsedBuffer sp))"
  have k: "0 < ?k" using assms(4,5) by simp
  obtain b s2 where b: "writeIntoSubParser parse u sp data = Inr (Some ?k, (run_parse parse s2)\<lparr>m_unparsedBuffer := b\<rparr>)"
    "parsed_text s2 = take ?k data" "subparser.more s2 = subparser.more sp" "chunks_ok b" "chunks_content b = []"
    "has_room b 0" "m_maxSize b = m_maxSize (m_unparsedBuffer sp) - ?k"
    using direct_step [OF assms(1-4) refl k assms(6), of parse u] assms(7) by blast
  have "take ?k data = take (m_maxSize (m_unparsedBuffer sp)) data" by (simp add: min_def)
  moreover have "m_maxSize b = m_maxSize (m_unparsedBuffer sp) - length data" using b(7) by simp
  ultimately show ?thesis using b
    by (intro exI [of _ s2] exI [of _ "(run_parse parse s2)\<lparr>m_unparsedBuffer := b\<rparr>"])
      (simp add: sp_ok_def sp_text_def)
qed

theorem direct_consumes_budget_witness:
  "\<exists>s2 s'. writeIntoSubParser LineRecv_SubParser_parse (\<lambda>n. replicate n CR) (demo_stage DIRECT 3) ''abcde'' =
      Inr (Some 3, s') \<and>
    subparser.more s' = subparser.more (run_parse LineRecv_SubParser_parse s2) \<and>
    subparser.more s2 = \<lparr>m_parsedString = []\<rparr> \<and> parsed_text s2 = ''abc'' \<and>
    sp_ok s' \<and> sp_text s' = [] \<and> m_maxSize (m_unparsedBuffer s') = 0"
  using direct_consumes_budget [of "demo_stage DIRECT 3" "''abcde''" LineRecv_SubParser_parse "\<lambda>n. replicate n CR"]
  by (simp add: numeral_3_eq_3)

text \<open>With the direct-delimiter strategy, on a buffer with sound offsets, a write without a
  complete delimiter hands on all the text except the longest end that could begin the
  delimiter, keeps that end, and no delimiter that later data completes begins in what was
  handed on.\<close>

theorem direct_delimiter_keeps_border:
  assumes "sp_ok sp" "m_parseMode sp = DIRECT_DELIMITER" "m_parseDelimiter sp = \<delta>" "\<delta> \<noteq> []" "data \<noteq> []"
    "has_room (m_unparsedBuffer sp) (length data)" "length \<delta> + length (sp_text sp) + length data < two64"
    "find_sub \<delta> (sp_text sp @ data) = None"
    and "\<And>s. m_unparsedBuffer (snd (parse s)) = m_unparsedBuffer s"
  shows "\<exists>s2 s'. writeIntoSubParser parse u sp data = Inr (Some (length data), s') \<and>
    subparser.more s' = subparser.more (run_parse parse s2) \<and> subparser.more s2 = subparser.more sp \<and>
    parsed_text s2 @ sp_text s' = sp_text sp @ data \<and>
    (\<forall>later j. occurs_at \<delta> (sp_text sp @ data @ later) j \<longrightarrow> length (parsed_text s2) \<le> j)"
proof -
  define t where "t = sp_text sp @ data"
  define v where "v = longest_border t \<delta> (min (length t) (length \<delta> - 1))"
  have none: "find_sub \<delta> t = None" using assms(8) by (simp add: t_def)
  obtain s2 b where s2: "parseDirectDelimiter parse u sp data =
      (Some (length data), (run_parse parse s2)\<lparr>m_unparsedBuffer := b\<rparr>)"
    "parsed_text s2 = take (length t - v) t" "subparser.more s2 = subparser.more sp"
    "chunks_content b = drop (length t - v) t"
    using direct_delimiter_step [OF assms(1,6,3,4,7) assms(9) t_def none v_def, of u] by blast
  have "length (parsed_text s2) \<le> j" if "occurs_at \<delta> (sp_text sp @ data @ later) j" for later j
    using border_safe [OF none _ v_def, of later j] that s2(2) by (simp add: t_def)
  moreover have "parsed_text s2 @ chunks_content b = sp_text sp @ data"
    by (simp only: s2(2,4) append_take_drop_id t_def [symmetric])
  ultimately show ?thesis using s2(1,3) assms(2,5)
    by (intro exI [of _ "(run_parse parse s2)\<lparr>m_unparsedBuffer := b\<rparr>"] exI [of _ s2])
      (simp add: writeIntoSubParser_def, simp add: sp_text_def)
qed

theorem direct_delimiter_keeps_border_witness:
  "\<exists>s2 s'. writeIntoSubParser LineRecv_SubParser_parse (\<lambda>n. replicate n CR) (demo_stage DIRECT_DELIMITER 100)
        (''ab'' @ [CR]) = Inr (Some 3, s') \<and>
    subparser.more s' = subparser.more (run_parse LineRecv_SubParser_parse s2) \<and>
    subparser.more s2 = \<lparr>m_parsedString = []\<rparr> \<and>
    parsed_text s2 @ sp_text s' = ''ab'' @ [CR] \<and>
    (\<forall>later j. occurs_at [CR, LF] (''ab'' @ CR # later) j \<longrightarrow> length (parsed_text s2) \<le> j)"
  using direct_delimiter_keeps_border [of "demo_stage DIRECT_DELIMITER 100" "[CR, LF]" "''ab'' @ [CR]"
      LineRecv_SubParser_parse "\<lambda>n. replicate n CR"]
  by (simp add: numeral_3_eq_3)

definition direct_collect :: "line_sub \<Rightarrow> ParseResult \<times> line_sub" where
  "direct_collect sp = (GET_MORE_DATA,
     sp\<lparr>m_parsedString := m_parsedString sp @ B_toStringEx (ref_ops CO) (getParsedBuffer sp)\<rparr>)"

definition bytewise_stage :: line_sub where
  "bytewise_stage = (demo_stage DIRECT_DELIMITER 100)\<lparr>m_parseDelimiter := ''abcd''\<rparr>"

text \<open>The same strategy loses a delimiter that arrives one byte at a time: after two one-byte
  fragments the displacement leaves wrong chunk offsets, the comparison with the delimiter then
  fails, and neither the delimiter is reported nor the bytes are handed on, although the same
  bytes in one fragment are recognised.\<close>

theorem direct_delimiter_lost_bytewise:
  "map_option (\<lambda>(ns, s). (ns, m_delimiterFound s, m_parsedString s, sp_text s))
     (feed direct_collect (\<lambda>n. replicate n CR) bytewise_stage [''a'', ''b'', ''c'', ''d'']) =
       Some ([Some 1, Some 1, Some 1, Some 1], [], [], []) \<and>
   map_option (\<lambda>(ns, s). (ns, m_delimiterFound s, m_parsedString s, sp_text s))
     (feed direct_collect (\<lambda>n. replicate n CR) bytewise_stage [''abcd'']) = Some ([Some 4], ''abcd'', [], [])"
  by (intro conjI) code_simp+

section \<open>The driver and the line protocol\<close>

text \<open>A write into the line parser always returns, without running past the buffer; when it
  succeeds it has consumed all the data, or the protocol has ended. This holds for every state
  that satisfies the invariant, for every handler and every data.\<close>

theorem line_parser_total:
  assumes "line_ok p" "length buf < two64"
  shows "\<exists>r p'. Parser_write (line_ops proc u) p buf = Inr (r, p') \<and> line_ok p' \<and>
    (\<forall>m. r = Some m \<longrightarrow> m \<le> length buf \<and> (m = length buf \<or> \<not> lr_current p'))"
  using line.Parser_write_total [OF assms(2,1), of proc u] by simp

lemma line_new_ok: "line_ok (LineRecv_new l)"
  using line_sub_new by (simp add: line_ok_def LineRecv_new_def parser_base.defs)

theorem line_parser_total_witness:
  "\<exists>r p'. Parser_write (line_ops (\<lambda>l x. (False, l)) (\<lambda>n. replicate n CR)) (LineRecv_new ()) [CR, LF] = Inr (r, p') \<and>
    line_ok p' \<and> (\<forall>m. r = Some m \<longrightarrow> m \<le> 2 \<and> (m = 2 \<or> \<not> lr_current p'))"
  using line_parser_total [OF line_new_ok [of "()"], of "[CR, LF]" "\<lambda>l x. (False, l)" "\<lambda>n. replicate n CR"]
  unfolding numeral_2_eq_2 by simp

text \<open>Delivering a list of fragments, and the condition under which the line parser keeps up:
  pending text and fragment fit the line limit, and a fragment completes no more lines than the
  TTL allows.\<close>

fun write_all ::
  "'z parser_base_scheme parser_ops \<Rightarrow> 'z parser_base_scheme \<Rightarrow> bytes list \<Rightarrow> 'z parser_base_scheme option" where
  "write_all P p [] = Some p"
| "write_all P p (d # ds) =
     (case Parser_write P p d of
        Inr (Some n, p') \<Rightarrow> (if n = length d then write_all P p' ds else None)
      | _ \<Rightarrow> None)"

fun deliverable :: "nat \<Rightarrow> nat \<Rightarrow> bytes \<Rightarrow> bytes list \<Rightarrow> bool" where
  "deliverable lim ttl r [] = True"
| "deliverable lim ttl r (d # ds) \<longleftrightarrow>
     d \<noteq> [] \<and> CR \<notin> set d \<and> length r + length d \<le> lim \<and> length (filter (\<lambda>c. c = LF) d) \<le> ttl \<and>
     deliverable lim ttl (snd (split_lines r d)) ds"

lemma Parser_write_lines:
  assumes "\<And>l x. proc l x = (True, f l x)" "receiving p (length d)" "d \<noteq> []" "CR \<notin> set d"
    "length (filter (\<lambda>c. c = LF) d) \<le> m_maxTTL p"
  shows "\<exists>p'. Parser_write (line_ops proc u) p d = Inr (Some (length d), p') \<and> receiving p' 0 \<and>
    line_limits p' = line_limits p \<and>
    lr_user p' = foldl f (lr_user p) (fst (split_lines (sp_text (lr_subParser p)) d)) \<and>
    sp_text (lr_subParser p') = snd (split_lines (sp_text (lr_subParser p)) d)"
proof -
  have "0 + length (filter (\<lambda>c. c = LF) d) \<le> m_maxTTL p" using assms(5) by simp
  from receive_lines [where f = f and u = u, OF assms(1-4) this] assms(3)
  show ?thesis by (simp add: Parser_write_def)
qed


lemma line_new_receiving:
  "receiving (LineRecv_new l) 0" "line_limits (LineRecv_new l) = (4096, 65536)"
  "sp_text (lr_subParser (LineRecv_new l)) = []" "lr_user (LineRecv_new l) = l"
  using line_new_ok [of l]
  by (simp_all add: receiving_def line_limits_def LineRecv_new_def parser_base.defs parser_base_init_def
      LineRecv_SubParser_new_def LineRecv_setMaxObjectSize_def setParseDataTargetSize_def setParseMultiDelimiter_def
      setParseStrategy_def subparser.defs SubParser_new_def B_setMaxSize_def sp_text_def chunks_content_def B_Chunks_new_def)


text \<open>With carriage returns the result depends on the cut: the search looks for a line feed
  first and takes a carriage return as a line end only when the buffer holds no line feed, so
  \<open>a CR b LF\<close> is one line when it arrives whole and two lines when it is cut after the
  carriage return.\<close>

theorem line_recv_carriage_return_order:
  "map_option lr_user (write_all (line_ops (\<lambda>l x. (True, l @ [x])) (\<lambda>n. replicate n CR)) (LineRecv_new [])
      [''a'' @ [CR] @ ''b'' @ [LF]]) = Some [''a'' @ [CR] @ ''b''] \<and>
   map_option lr_user (write_all (line_ops (\<lambda>l x. (True, l @ [x])) (\<lambda>n. replicate n CR)) (LineRecv_new [])
      [''a'' @ [CR], ''b'' @ [LF]]) = Some [''a'', ''b'']"
  by (intro conjI) code_simp+

end
