(* ===== verification/WebSocket_Server.thy ===== *)
theory WebSocket_Server
  imports WebSocket_Content Parsing_Correct
begin

text \<open>
  \<open>Protocol_HTTP/httpv1_server_websockets.cpp\<close> and the WebSocket part of
  \<open>httpv1_server.{h,cpp}\<close>: the connection after the upgrade. The parser alternates between the
  header and the content of the current frame; when a final frame is complete it reports the
  message. The virtual event methods are the argument \<open>hnd\<close>, which sees the message and may
  change the state of the derived class and write upstream; \<open>now\<close> is the clock; \<open>S\<close> is the
  stream to the peer.
\<close>

datatype ws_stage = WS_None | WS_Header | WS_Content

datatype ws_event = WS_Text | WS_Binary | WS_Ping | WS_Pong | WS_Finished

record ('u, 'o) ws_server = parser_base +
  ws_current :: ws_stage
  frameType :: u8
  ws_header :: frame_header
  ws_content :: frame_content
  lastPongReceived :: nat
  ws_up :: 'o
  ws_user :: 'u

type_synonym ('u, 'o) ws_handler = "ws_event \<Rightarrow> sp_buf \<Rightarrow> 'u \<Rightarrow> 'o \<Rightarrow> 'u \<times> 'o"

text \<open>The state when the connection has been upgraded: the current frame is as its constructors
  left it.\<close>

definition ws_established :: "'u \<Rightarrow> 'o \<Rightarrow> ('u, 'o) ws_server" where
  "ws_established usr up = parser_base.extend (parser_base_init\<lparr>m_initialized := True\<rparr>)
     \<lparr>ws_current = WS_Header, frameType = OPCODE_CONTINUATION, ws_header = FrameHeader_new,
      ws_content = FrameContent_new, lastPongReceived = 0, ws_up = up, ws_user = usr\<rparr>"

definition ws_call :: "('u, 'o) ws_handler \<Rightarrow> ws_event \<Rightarrow> ('u, 'o) ws_server \<Rightarrow> ('u, 'o) ws_server" where
  "ws_call hnd e p = (case hnd e (m_content (ws_content p)) (ws_user p) (ws_up p) of
     (usr, up) \<Rightarrow> p\<lparr>ws_user := usr, ws_up := up\<rparr>)"

definition upstream ::
  "(stream_exn + (bool \<times> 'o)) option \<Rightarrow> (bool \<Rightarrow> 'o \<Rightarrow> parser_exn + 'r) \<Rightarrow> parser_exn + 'r" where
  "upstream w k = (case w of
     None \<Rightarrow> Inl Upstream_hangs | Some (Inl e) \<Rightarrow> Inl (Upstream_exn e) | Some (Inr (ok, up)) \<Rightarrow> k ok up)"

definition ws_reset :: "('u, 'o) ws_server \<Rightarrow> ws_stage \<Rightarrow> ('u, 'o) ws_server" where
  "ws_reset p st = p\<lparr>ws_content := FrameContent_reset (ws_content p),
     ws_header := FrameHeader_reset (ws_header p), ws_current := st\<rparr>"

definition callOnFinalFragmentReceived ::
  "'o streamable \<Rightarrow> ('u, 'o) ws_handler \<Rightarrow> nat \<Rightarrow> ('u, 'o) ws_server \<Rightarrow> parser_exn + (bool \<times> ('u, 'o) ws_server)" where
  "callOnFinalFragmentReceived S hnd now p =
     (if frameType p = OPCODE_CONTINUATION then Inl Runtime_error
      else if frameType p = OPCODE_CLOSE then
        (let p1 = ws_call hnd WS_Finished p in
         upstream (FrameHeader_streamToUpstream S (prepareCloseFrame FrameHeader_new 0) (ws_up p1))
           (\<lambda>_ up. Inr (True, ws_reset (p1\<lparr>ws_up := up\<rparr>) WS_None)))
      else if frameType p = OPCODE_PING then
        upstream (FrameHeader_streamToUpstream S (preparePongFrame FrameHeader_new 0) (ws_up p))
          (\<lambda>ok up. if \<not> ok then Inr (False, ws_reset (p\<lparr>ws_up := up\<rparr>) WS_None)
                   else Inr (True, ws_reset (ws_call hnd WS_Ping (p\<lparr>ws_up := up\<rparr>)) WS_Header))
      else
        (let p1 = (if frameType p = OPCODE_TEXT then ws_call hnd WS_Text p
                   else if frameType p = OPCODE_BINARY then ws_call hnd WS_Binary p
                   else if frameType p = OPCODE_PONG then ws_call hnd WS_Pong (p\<lparr>lastPongReceived := now\<rparr>)
                   else p) in
         Inr (True, ws_reset p1 WS_Header)))"

definition changeToNextParserFromWebSocketFrameHeader ::
  "'o streamable \<Rightarrow> ('u, 'o) ws_handler \<Rightarrow> nat \<Rightarrow> ('u, 'o) ws_server \<Rightarrow> parser_exn + (bool \<times> ('u, 'o) ws_server)" where
  "changeToNextParserFromWebSocketFrameHeader S hnd now p0 =
     (let first = m_isFirstFrame (ws_content p0);
          p1 = (if first then p0\<lparr>frameType := m_opcode (ws_header p0)\<rparr> else p0);
          p = (if first \<and> frameType p1 = OPCODE_TEXT
               then p1\<lparr>ws_content := setValidateUtf8 (ws_content p1) True\<rparr> else p1) in
      if first \<and> frameType p = OPCODE_CONTINUATION then Inr (False, p\<lparr>ws_current := WS_None\<rparr>)
      else
        (let payloadLength = m_payloadLength (ws_header p) in
         if payloadLength \<noteq> 0 then
           (let c1 = setMasked (ws_content p) (m_masked (ws_header p));
                c2 = (if m_masked (ws_header p) then setMaskingKey c1 (m_maskingKey (ws_header p)) else c1) in
            Inr (True, p\<lparr>ws_content := setPayloadLength c2 payloadLength, ws_current := WS_Content\<rparr>))
         else (case callOnFinalFragmentReceived S hnd now p of Inl e \<Rightarrow> Inl e | Inr (_, p') \<Rightarrow> Inr (True, p'))))"

definition changeToNextParserFromWebSocketFrameContent ::
  "'o streamable \<Rightarrow> ('u, 'o) ws_handler \<Rightarrow> nat \<Rightarrow> ('u, 'o) ws_server \<Rightarrow> parser_exn + (bool \<times> ('u, 'o) ws_server)" where
  "changeToNextParserFromWebSocketFrameContent S hnd now p =
     (if m_fin (ws_header p) then callOnFinalFragmentReceived S hnd now p
      else Inr (True, p\<lparr>ws_header := FrameHeader_reset (ws_header p), ws_current := WS_Header\<rparr>))"

definition ws_changeToNextParser ::
  "'o streamable \<Rightarrow> ('u, 'o) ws_handler \<Rightarrow> nat \<Rightarrow> ('u, 'o) ws_server \<Rightarrow> parser_exn + (bool \<times> ('u, 'o) ws_server)" where
  "ws_changeToNextParser S hnd now p = (case ws_current p of
     WS_Header \<Rightarrow> changeToNextParserFromWebSocketFrameHeader S hnd now p
   | WS_Content \<Rightarrow> changeToNextParserFromWebSocketFrameContent S hnd now p
   | WS_None \<Rightarrow> Inr (False, p))"

definition ws_ops ::
  "'o streamable \<Rightarrow> ('u, 'o) ws_handler \<Rightarrow> nat \<Rightarrow> (nat \<Rightarrow> u8) \<Rightarrow> (nat \<Rightarrow> bytes) \<Rightarrow> ('u, 'o) ws_server parser_ops" where
  "ws_ops S hnd now stack u = \<lparr>pp_current = (\<lambda>p. ws_current p \<noteq> WS_None),
     pp_write = (\<lambda>p buf. case ws_current p of
         WS_Content \<Rightarrow>
           (case content_write u (setParseResult (ws_content p) GET_MORE_DATA) buf of
              Inl e \<Rightarrow> Inl (Sub_exn e) | Inr (n, c) \<Rightarrow> Inr (n, p\<lparr>ws_content := c\<rparr>))
       | _ \<Rightarrow>
           (case hdr_write stack u (setParseResult (ws_header p) GET_MORE_DATA) buf of
              Inl e \<Rightarrow> Inl (Sub_exn e)
            | Inr (n, h) \<Rightarrow> if fh_thrown h then Inl Runtime_error else Inr (n, p\<lparr>ws_header := h\<rparr>))),
     pp_status = (\<lambda>p. if ws_current p = WS_Content then m_parseStatus (ws_content p) else m_parseStatus (ws_header p)),
     pp_next = ws_changeToNextParser S hnd now\<rparr>"

section \<open>Sending\<close>

definition content_of :: "bytes \<Rightarrow> frame_content" where
  "content_of xs = FrameContent_new\<lparr>m_content := snd (B_append CO (m_content FrameContent_new) xs)\<rparr>"

abbreviation MAX_FRAME_SIZE :: nat where "MAX_FRAME_SIZE \<equiv> 65535"

function sendWebSocketData_loop ::
  "'o streamable \<Rightarrow> bytes \<Rightarrow> u8 \<Rightarrow> nat \<Rightarrow> 'o \<Rightarrow> (stream_exn + (bool \<times> 'o)) option" where
  "sendWebSocketData_loop S data mode bytesSent up =
     (let remaining = length data - bytesSent;
          frameSize = (if remaining > MAX_FRAME_SIZE then MAX_FRAME_SIZE else remaining);
          isFinal = (bytesSent + frameSize \<ge> length data);
          opcode = (if bytesSent = 0 then mode else OPCODE_CONTINUATION);
          h = prepareHeader FrameHeader_new isFinal opcode (word_of_nat frameSize) False [0, 0, 0, 0] in
      andThen (FrameHeader_streamToUpstream S h up) (\<lambda>up1.
        andThen (FrameContent_streamToUpstream S (content_of (take frameSize (drop bytesSent data))) up1) (\<lambda>up2.
          if bytesSent + frameSize < length data
          then sendWebSocketData_loop S data mode (bytesSent + frameSize) up2
          else Some (Inr (True, up2)))))"
  by pat_completeness auto
termination
  by (relation "measure (\<lambda>(S, data, mode, bytesSent, up). length data - bytesSent)") (auto split: if_splits)

declare sendWebSocketData_loop.simps [simp del]

definition sendWebSocketData ::
  "'o streamable \<Rightarrow> bytes \<Rightarrow> u8 \<Rightarrow> 'o \<Rightarrow> (stream_exn + (bool \<times> 'o)) option" where
  "sendWebSocketData S data mode up = sendWebSocketData_loop S data mode 0 up"

definition sendWebSocketText :: "'o streamable \<Rightarrow> bytes \<Rightarrow> 'o \<Rightarrow> (stream_exn + (bool \<times> 'o)) option" where
  "sendWebSocketText S data up = sendWebSocketData S data OPCODE_TEXT up"

definition sendWebSocketBinaryData :: "'o streamable \<Rightarrow> bytes \<Rightarrow> 'o \<Rightarrow> (stream_exn + (bool \<times> 'o)) option" where
  "sendWebSocketBinaryData S data up = sendWebSocketData S data OPCODE_BINARY up"

definition sendWebSocketPing :: "'o streamable \<Rightarrow> bytes \<Rightarrow> 'o \<Rightarrow> (stream_exn + (bool \<times> 'o)) option" where
  "sendWebSocketPing S data up =
     (let len = min (length data) 125 in
      andThen (FrameHeader_streamToUpstream S (preparePingFrame FrameHeader_new (word_of_nat len)) up)
        (\<lambda>up1. FrameContent_streamToUpstream S (content_of (take len data)) up1))"

section \<open>The driver on a WebSocket connection\<close>

definition ws_ok :: "('u, 'o) ws_server \<Rightarrow> bool" where
  "ws_ok p \<longleftrightarrow> hdr_inv (ws_header p) \<and> content_inv (ws_content p) \<and>
     (m_isFirstFrame (ws_content p) \<and> ws_current p \<noteq> WS_Content \<or> frameType p \<noteq> OPCODE_CONTINUATION)"

definition peer_failure :: "parser_exn \<Rightarrow> bool" where
  "peer_failure e \<longleftrightarrow> e = Upstream_hangs \<or> (\<exists>x. e = Upstream_exn x)"

lemma ws_ops_sel [simp]:
  "pp_current (ws_ops S hnd now stack u) p = (ws_current p \<noteq> WS_None)"
  "pp_status (ws_ops S hnd now stack u) p =
     (if ws_current p = WS_Content then m_parseStatus (ws_content p) else m_parseStatus (ws_header p))"
  "pp_next (ws_ops S hnd now stack u) = ws_changeToNextParser S hnd now"
  by (simp_all add: ws_ops_def)

lemma ws_call_fields [simp]:
  "ws_header (ws_call hnd e p) = ws_header p" "ws_content (ws_call hnd e p) = ws_content p"
  "ws_current (ws_call hnd e p) = ws_current p" "frameType (ws_call hnd e p) = frameType p"
  "m_maxTTL (ws_call hnd e p) = m_maxTTL p"
  by (simp_all add: ws_call_def split: prod.split)

lemma content_inv_new: "content_inv FrameContent_new" "content_inv c \<Longrightarrow> content_inv (FrameContent_reset c)"
  by (simp_all add: content_inv_def FrameContent_new_def FrameContent_reset_def setParseStrategy_def subparser.defs)

lemma ws_ok_reset:
  assumes "hdr_inv (ws_header p)" "content_inv (ws_content p)" "st \<noteq> WS_Content"
  shows "ws_ok (ws_reset p st)"
  using assms(3) hdr_inv_new(2) [OF assms(1)] content_inv_new(2) [OF assms(2)]
  by (simp add: ws_ok_def ws_reset_def FrameContent_reset_def)

lemma final_fragment_ok:
  assumes "hdr_inv (ws_header p)" "content_inv (ws_content p)" "frameType p \<noteq> OPCODE_CONTINUATION"
  shows "(\<exists>c p'. callOnFinalFragmentReceived S hnd now p = Inr (c, p') \<and> ws_ok p') \<or>
    (\<exists>e. callOnFinalFragmentReceived S hnd now p = Inl e \<and> peer_failure e)"
  using assms
  by (auto simp: callOnFinalFragmentReceived_def upstream_def Let_def peer_failure_def ws_ok_reset
      split: option.split sum.split prod.split)

lemma header_next_ok:
  assumes "ws_ok p"
  shows "(\<exists>c p'. changeToNextParserFromWebSocketFrameHeader S hnd now p = Inr (c, p') \<and> ws_ok p') \<or>
    (\<exists>e. changeToNextParserFromWebSocketFrameHeader S hnd now p = Inl e \<and> peer_failure e)"
proof -
  define first where "first = m_isFirstFrame (ws_content p)"
  define p1 where "p1 = (if first then p\<lparr>frameType := m_opcode (ws_header p)\<rparr> else p)"
  define q where "q = (if first \<and> frameType p1 = OPCODE_TEXT
      then p1\<lparr>ws_content := setValidateUtf8 (ws_content p1) True\<rparr> else p1)"
  have q: "hdr_inv (ws_header q)" "content_inv (ws_content q)" "m_isFirstFrame (ws_content q) = first"
    using assms by (auto simp: q_def p1_def ws_ok_def first_def setValidateUtf8_def content_inv_def)
  have eq: "changeToNextParserFromWebSocketFrameHeader S hnd now p =
     (if first \<and> frameType q = OPCODE_CONTINUATION then Inr (False, q\<lparr>ws_current := WS_None\<rparr>)
      else
        (let payloadLength = m_payloadLength (ws_header q) in
         if payloadLength \<noteq> 0 then
           (let c1 = setMasked (ws_content q) (m_masked (ws_header q));
                c2 = (if m_masked (ws_header q) then setMaskingKey c1 (m_maskingKey (ws_header q)) else c1) in
            Inr (True, q\<lparr>ws_content := setPayloadLength c2 payloadLength, ws_current := WS_Content\<rparr>))
         else (case callOnFinalFragmentReceived S hnd now q of Inl e \<Rightarrow> Inl e | Inr (_, p') \<Rightarrow> Inr (True, p'))))"
    by (simp add: changeToNextParserFromWebSocketFrameHeader_def Let_def q_def p1_def first_def)
  show ?thesis
  proof (cases "first \<and> frameType q = OPCODE_CONTINUATION")
    case True
    then show ?thesis using eq q by (auto simp: ws_ok_def)
  next
    case False
    then have ft: "frameType q \<noteq> OPCODE_CONTINUATION"
      using assms by (auto simp: q_def p1_def ws_ok_def first_def split: if_splits)
    show ?thesis
    proof (cases "m_payloadLength (ws_header q) = 0")
      case True
      then show ?thesis using eq False final_fragment_ok [OF q(1,2) ft, of S hnd now] by (auto simp: Let_def)
    next
      case no: False
      have "content_inv (setPayloadLength c len) = content_inv c" "content_inv (setMasked c m) = content_inv c"
        "content_inv (setMaskingKey c k) = content_inv c" for c len m k
        by (simp_all add: content_inv_def setPayloadLength_def setMasked_def setMaskingKey_def setParseDataTargetSize_def)
      then show ?thesis using eq False no q ft by (auto simp: Let_def ws_ok_def)
    qed
  qed
qed

lemma content_next_ok:
  assumes "ws_ok p" "ws_current p = WS_Content"
  shows "(\<exists>c p'. changeToNextParserFromWebSocketFrameContent S hnd now p = Inr (c, p') \<and> ws_ok p') \<or>
    (\<exists>e. changeToNextParserFromWebSocketFrameContent S hnd now p = Inl e \<and> peer_failure e)"
  using final_fragment_ok [of p S hnd now] assms hdr_inv_new(2) [of "ws_header p"]
  by (auto simp: changeToNextParserFromWebSocketFrameContent_def ws_ok_def)

lemma status_inv [simp]:
  "hdr_inv (setParseResult h r) = hdr_inv h" "content_inv (setParseResult c r) = content_inv c"
  "m_isFirstFrame (setParseResult c r) = m_isFirstFrame c"
  by (simp_all add: hdr_inv_def content_inv_def setParseResult_def)

interpretation ws: parser_stage "ws_ops S hnd now stack u" ws_ok peer_failure
  for S :: "'o streamable" and hnd :: "('u, 'o) ws_handler" and now stack u
proof
  fix p :: "('u, 'o) ws_server" and buf :: bytes
  let ?P = "ws_ops S hnd now stack u"
  assume ok: "ws_ok p" and cur: "pp_current ?P p"
  show "\<exists>n p'. pp_write ?P p buf = Inr (n, p') \<and> ws_ok p' \<and> (\<forall>k. n = Some k \<longrightarrow> k \<le> length buf)"
  proof (cases "ws_current p = WS_Content")
    case True
    obtain n c' where "content_write u (setParseResult (ws_content p) GET_MORE_DATA) buf = Inr (n, c')" "content_inv c'"
      "m_isFirstFrame c' = m_isFirstFrame (ws_content p)" "\<forall>k. n = Some k \<longrightarrow> k \<le> length buf"
      using content_inv_write [of "setParseResult (ws_content p) GET_MORE_DATA" u buf] ok by (auto simp: ws_ok_def)
    then show ?thesis using True ok by (simp add: ws_ops_def ws_ok_def)
  next
    case False
    obtain n h' where h': "hdr_write stack u (setParseResult (ws_header p) GET_MORE_DATA) buf = Inr (n, h')" "hdr_inv h'"
      "\<forall>k. n = Some k \<longrightarrow> k \<le> length buf"
      using hdr_inv_write [of "setParseResult (ws_header p) GET_MORE_DATA" stack u buf] ok by (auto simp: ws_ok_def)
    moreover have "\<not> fh_thrown h'" using h'(2) by (simp add: hdr_inv_def)
    ultimately show ?thesis using False ok by (cases "ws_current p") (simp_all add: ws_ops_def ws_ok_def)
  qed
  show "(\<exists>c p'. pp_next ?P p = Inr (c, p') \<and> ws_ok p') \<or> (\<exists>e. pp_next ?P p = Inl e \<and> peer_failure e)"
    using header_next_ok [OF ok, of S hnd now] content_next_ok [OF ok, of S hnd now] cur
    by (cases "ws_current p") (simp_all add: ws_changeToNextParser_def)
next
  fix p :: "('u, 'o) ws_server" and buf n p'
  let ?P = "ws_ops S hnd now stack u"
  show "pp_write ?P p buf = Inr (n, p') \<Longrightarrow> pp_current ?P p' = pp_current ?P p"
    by (auto simp: ws_ops_def split: ws_stage.splits sum.splits prod.splits if_splits)
  show "ws_ok p \<Longrightarrow> ws_ok (set_finished p)" by (simp add: ws_ok_def set_finished_def)
  show "pp_current ?P (set_finished p) = pp_current ?P p" by (simp add: set_finished_def)
qed

section \<open>A frame through the driver\<close>

lemma status_at [simp]:
  "hdr_at (setParseResult h r) N = hdr_at h N" "sized_stage (setParseResult c r) N = sized_stage c N"
  "m_unparsedBuffer (setParseResult c r) = m_unparsedBuffer c"
  "m_parseState (setParseResult h r) = m_parseState h" "m_fin (setParseResult h r) = m_fin h"
  "same_frame g (setParseResult h r) = same_frame g h" "same_frame (setParseResult h r) g = same_frame h g" "message_room (setParseResult c r) n = message_room c n"
  "m_content (setParseResult c r) = m_content c" "demasked (setParseResult c r) = demasked c"
  "m_isComplete (setParseResult c r) = m_isComplete c" "m_validateUtf8 (setParseResult c r) = m_validateUtf8 c"
  by (simp_all add: setParseResult_def hdr_at_def sized_stage_def sp_ok_def sp_text_def same_frame_def message_room_def demasked_def fun_eq_iff)

text \<open>A connection that waits for a frame: the header stage is at its start, the payload stage is
  empty and the message can take a frame.\<close>

definition waits_for_frame :: "('u, 'o) ws_server \<Rightarrow> bool" where
  "waits_for_frame p \<longleftrightarrow> ws_current p = WS_Header \<and> hdr_at (ws_header p) 2 \<and> m_parseState (ws_header p) = FIRST_2BYTES \<and>
     hdr_inv (ws_header p) \<and> (\<exists>N. sized_stage ((ws_content p)\<lparr>m_unparsedBuffer := (m_unparsedBuffer (ws_content p))\<lparr>m_maxSize := N\<rparr>\<rparr>) N) \<and>
     125 \<le> m_maxChunks (m_unparsedBuffer (ws_content p)) \<and> message_room (ws_content p) 125"

lemma sized_after_payload_length:
  assumes "sized_stage (c\<lparr>m_unparsedBuffer := (m_unparsedBuffer c)\<lparr>m_maxSize := N\<rparr>\<rparr>) N"
    "len \<noteq> 0" "unat len \<le> m_maxChunks (m_unparsedBuffer c)"
  shows "sized_stage (setPayloadLength c len) (unat len)"
proof -
  have "unat len < two64" using unsigned_less [of len] by simp
  moreover have "0 < unat len" using assms(2) by (simp add: unat_gt_0)
  ultimately show ?thesis using assms(1,3)
    by (auto simp: sized_stage_def sp_ok_def sp_text_def has_room_def setPayloadLength_def setParseDataTargetSize_def B_setMaxSize_def)
qed

definition client_frame :: "frame_header \<Rightarrow> bytes \<Rightarrow> bool" where
  "client_frame g sent \<longleftrightarrow> plain_header g \<and> m_masked g \<and> sent \<noteq> [] \<and> length sent \<le> 125 \<and>
     m_payloadLength g = word_of_nat (length sent)"

definition frame_wire :: "frame_header \<Rightarrow> bytes \<Rightarrow> bytes" where
  "frame_wire g sent = header_bytes g @ unmaskData (m_maskingKey g) sent"

lemma client_frame_length:
  assumes "client_frame g sent"
  shows "unat (m_payloadLength g) = length sent" "m_payloadLength g \<le> 125" "m_payloadLength g \<noteq> 0"
proof -
  show u: "unat (m_payloadLength g) = length sent"
    using assms by (simp add: client_frame_def unsigned_of_nat take_bit_nat_def)
  then show "m_payloadLength g \<le> 125" "m_payloadLength g \<noteq> 0"
    using assms by (auto simp: word_le_nat_alt client_frame_def)
qed

text \<open>The first two steps: two bytes, then the key; the header is complete.\<close>

lemma same_frame_trans: "same_frame g h \<Longrightarrow> same_frame h k \<Longrightarrow> same_frame g k"
  by (simp add: same_frame_def)

lemma pp_write_header:
  assumes "ws_current p = WS_Header" "hdr_write stack u (setParseResult (ws_header p) GET_MORE_DATA) buf = Inr (n, h)"
    "hdr_inv (ws_header p)"
  shows "pp_write (ws_ops S hnd now stack u) p buf = Inr (n, p\<lparr>ws_header := h\<rparr>)" "hdr_inv h"
proof -
  show "hdr_inv h"
    using hdr_inv_write [of "setParseResult (ws_header p) GET_MORE_DATA" stack u buf] assms(2,3) by auto
  then show "pp_write (ws_ops S hnd now stack u) p buf = Inr (n, p\<lparr>ws_header := h\<rparr>)"
    using assms(1,2) by (simp add: ws_ops_def hdr_inv_def)
qed

lemma header_through_driver:
  assumes "waits_for_frame p" "client_frame g sent" "ttl + 1 \<le> maxTTL" "rest \<noteq> []"
  shows "\<exists>h. same_frame g h \<and> m_maskingKey h = m_maskingKey g \<and> hdr_at h 4 \<and> hdr_inv h \<and>
    (\<forall>e. ws_changeToNextParser S hnd now (p\<lparr>ws_header := h\<rparr>) = Inl e \<longrightarrow>
      parseData (ws_ops S hnd now stack u) maxTTL p (header_bytes g @ rest) ttl = Inl e) \<and>
    (\<forall>q. ws_changeToNextParser S hnd now (p\<lparr>ws_header := h\<rparr>) = Inr (True, q) \<longrightarrow> ws_current q \<noteq> WS_None \<longrightarrow>
      parseData (ws_ops S hnd now stack u) maxTTL p (header_bytes g @ rest) ttl =
        after_bytes 2 (after_bytes 4 (parseData (ws_ops S hnd now stack u) maxTTL q rest (ttl + 2))))"
proof -
  let ?P = "ws_ops S hnd now stack u" and ?key = "map char_of_u8 (m_maskingKey g)"
  have g: "plain_header g" "m_masked g" "length ?key = 4"
    using assms(2) by (auto simp: client_frame_def plain_header_def)
  note hb = plain_bytes [OF g(1,2) client_frame_length(2) [OF assms(2)]]
  have w: "ws_current p = WS_Header" "hdr_at (ws_header p) 2" "m_parseState (ws_header p) = FIRST_2BYTES" "hdr_inv (ws_header p)"
    using assms(1) by (auto simp: waits_for_frame_def)
  have "hdr_at (setParseResult (ws_header p) GET_MORE_DATA) 2" "m_parseState (setParseResult (ws_header p) GET_MORE_DATA) = FIRST_2BYTES"
    using w by simp_all
  from read_plain [OF this g(1,2) client_frame_length(2) [OF assms(2)], of stack u "?key @ rest"]
  obtain h1 where h1: "hdr_write stack u (setParseResult (ws_header p) GET_MORE_DATA) (header_bytes g @ rest) = Inr (Some 2, h1)"
    "m_parseStatus h1 = GET_MORE_DATA" "hdr_at h1 4" "m_parseState h1 = MASKING_KEY" "same_frame g h1"
    by (auto simp: hb)
  note p1 = pp_write_header(1) [OF w(1) h1(1) w(4), of S hnd now] pp_write_header(2) [OF w(1) h1(1) w(4)]
  let ?p1 = "p\<lparr>ws_header := h1\<rparr>"
  have "hdr_at (setParseResult h1 GET_MORE_DATA) 4" "m_parseState (setParseResult h1 GET_MORE_DATA) = MASKING_KEY"
    using h1 by simp_all
  from read_key [OF this, of "?key @ rest" stack u] g(3)
  obtain h2 where h2: "hdr_write stack u (setParseResult (ws_header ?p1) GET_MORE_DATA) (?key @ rest) = Inr (Some 4, h2)"
    "m_parseStatus h2 = GOTO_NEXT_SUBPARSER" "m_maskingKey h2 = m_maskingKey g" "hdr_at h2 4" "same_frame g h2"
    using same_frame_trans [OF h1(5)] by (auto simp: size_max_def)
  have p2: "pp_write ?P ?p1 (?key @ rest) = Inr (Some 4, p\<lparr>ws_header := h2\<rparr>)" "hdr_inv h2"
    using pp_write_header(1) [OF _ h2(1), of S hnd now] pp_write_header(2) [OF _ h2(1)] w(1) p1(2) by simp_all
  have "parseData ?P maxTTL p (header_bytes g @ rest) ttl = after_bytes 2 (parseData ?P maxTTL ?p1 (drop 2 (header_bytes g @ rest)) (ttl + 1))"
    by (rule parseData_more_data [OF _ _ p1(1)]) (use assms(3,4) w(1) h1(2) hb in simp_all)
  also have "drop 2 (header_bytes g @ rest) = ?key @ rest" by (simp add: hb)
  finally have s1: "parseData ?P maxTTL p (header_bytes g @ rest) ttl = after_bytes 2 (parseData ?P maxTTL ?p1 (?key @ rest) (ttl + 1))" .
  have pre: "ttl + 1 \<le> maxTTL" "pp_current ?P ?p1" "pp_status ?P (p\<lparr>ws_header := h2\<rparr>) = GOTO_NEXT_SUBPARSER"
    using assms(3) w(1) h2(2) by simp_all
  note nx = parseData_next_stage [OF pre(1,2) p2(1) pre(3)]
  have "parseData ?P maxTTL p (header_bytes g @ rest) ttl = Inl e"
    if "ws_changeToNextParser S hnd now (p\<lparr>ws_header := h2\<rparr>) = Inl e" for e
    using s1 nx(1) [of e] that by (simp add: after_bytes_def)
  moreover have "parseData ?P maxTTL p (header_bytes g @ rest) ttl = after_bytes 2 (after_bytes 4 (parseData ?P maxTTL q rest (ttl + 2)))"
    if "ws_changeToNextParser S hnd now (p\<lparr>ws_header := h2\<rparr>) = Inr (True, q)" "ws_current q \<noteq> WS_None" for q
    using s1 nx(3) [of q] that g(3) assms(4) by simp
  ultimately show ?thesis using h2(3-5) p2(2) by blast
qed

lemma setters_fields [simp]:
  "m_unparsedBuffer (setMasked c v) = m_unparsedBuffer c" "m_unparsedBuffer (setMaskingKey c k) = m_unparsedBuffer c"
  "m_unparsedBuffer (setValidateUtf8 c w) = m_unparsedBuffer c" "m_content (setMasked c v) = m_content c"
  "m_content (setMaskingKey c k) = m_content c" "m_content (setValidateUtf8 c w) = m_content c"
  "m_content (setPayloadLength c l) = m_content c" "m_isComplete (setMasked c v) = m_isComplete c"
  "m_isComplete (setMaskingKey c k) = m_isComplete c" "m_isComplete (setValidateUtf8 c w) = m_isComplete c"
  "m_isComplete (setPayloadLength c l) = m_isComplete c" "fc_masked (setMaskingKey (setMasked c v) k) = v"
  "fc_maskingKey (setMaskingKey c k) = k" "fc_masked (setPayloadLength c l) = fc_masked c"
  "fc_maskingKey (setPayloadLength c l) = fc_maskingKey c"
  by (simp_all add: setMasked_def setMaskingKey_def setValidateUtf8_def setPayloadLength_def setParseDataTargetSize_def)

lemma setters_stage [simp]:
  "sized_stage ((setMasked c v)\<lparr>m_unparsedBuffer := b\<rparr>) N = sized_stage (c\<lparr>m_unparsedBuffer := b\<rparr>) N"
  "sized_stage ((setMaskingKey c k)\<lparr>m_unparsedBuffer := b\<rparr>) N = sized_stage (c\<lparr>m_unparsedBuffer := b\<rparr>) N"
  "sized_stage ((setValidateUtf8 c w)\<lparr>m_unparsedBuffer := b\<rparr>) N = sized_stage (c\<lparr>m_unparsedBuffer := b\<rparr>) N"
  by (simp_all add: sized_stage_def sp_ok_def sp_text_def setMasked_def setMaskingKey_def setValidateUtf8_def)

text \<open>The change of stage after a complete header with a payload.\<close>

lemma header_to_content:
  assumes "ws_current p = WS_Header" "same_frame g (ws_header p)" "m_masked g" "m_payloadLength g \<noteq> 0"
    "first = m_isFirstFrame (ws_content p)" "first \<longrightarrow> m_opcode g \<noteq> OPCODE_CONTINUATION"
    "c0 = (if first \<and> m_opcode g = OPCODE_TEXT then setValidateUtf8 (ws_content p) True else ws_content p)"
  shows "ws_changeToNextParser S hnd now p = Inr (True, p\<lparr>frameType := (if first then m_opcode g else frameType p),
    ws_content := setPayloadLength (setMaskingKey (setMasked c0 True) (m_maskingKey (ws_header p))) (m_payloadLength g),
    ws_current := WS_Content\<rparr>)"
  using assms by (auto simp: ws_changeToNextParser_def changeToNextParserFromWebSocketFrameHeader_def Let_def same_frame_def)

lemma frame_through_driver:
  assumes "waits_for_frame p" "client_frame g sent" "ttl + 2 \<le> maxTTL" "m_fin g"
    "m_isFirstFrame (ws_content p) \<longrightarrow> m_opcode g \<noteq> OPCODE_CONTINUATION"
  shows "\<exists>h c q. q = p\<lparr>ws_header := h, frameType := (if m_isFirstFrame (ws_content p) then m_opcode g else frameType p),
      ws_content := c, ws_current := WS_Content\<rparr> \<and> hdr_at h 4 \<and> hdr_inv h \<and> sized_stage c (length sent) \<and> chunks_ok (m_content c) \<and>
    chunks_content (m_content c) = chunks_content (m_content (ws_content p)) @ sent \<and>
    same_limits (m_content (ws_content p)) (m_content c) \<and> \<not> m_isComplete c \<and>
    m_maxChunks (m_unparsedBuffer c) = m_maxChunks (m_unparsedBuffer (ws_content p)) \<and>
    (\<forall>e. callOnFinalFragmentReceived S hnd now q = Inl e \<longrightarrow>
      parseData (ws_ops S hnd now stack u) maxTTL p (frame_wire g sent) ttl = Inl e) \<and>
    (\<forall>q'. callOnFinalFragmentReceived S hnd now q = Inr (True, q') \<longrightarrow> ws_current q' \<noteq> WS_None \<longrightarrow>
      parseData (ws_ops S hnd now stack u) maxTTL p (frame_wire g sent) ttl = Inr (Some (length (frame_wire g sent)), q'))"
proof -
  let ?P = "ws_ops S hnd now stack u" and ?pay = "unmaskData (m_maskingKey g) sent"
  let ?first = "m_isFirstFrame (ws_content p)"
  note len = client_frame_length [OF assms(2)]
  have ne: "?pay \<noteq> []" "length ?pay = length sent" "m_masked g" "length (m_maskingKey g) = 4"
    using assms(2) by (auto simp: client_frame_def plain_header_def)
  have ttl: "ttl + 1 \<le> maxTTL" using assms(3) by simp
  obtain h where h: "same_frame g h" "m_maskingKey h = m_maskingKey g" "hdr_at h 4" "hdr_inv h"
    "\<And>q. ws_changeToNextParser S hnd now (p\<lparr>ws_header := h\<rparr>) = Inr (True, q) \<Longrightarrow> ws_current q \<noteq> WS_None \<Longrightarrow>
      parseData ?P maxTTL p (frame_wire g sent) ttl = after_bytes 2 (after_bytes 4 (parseData ?P maxTTL q ?pay (ttl + 2)))"
    using header_through_driver [OF assms(1,2) ttl ne(1), of S hnd now stack u] unfolding frame_wire_def by blast
  define c0 where "c0 = (if ?first \<and> m_opcode g = OPCODE_TEXT then setValidateUtf8 (ws_content p) True else ws_content p)"
  define c1 where "c1 = setPayloadLength (setMaskingKey (setMasked c0 True) (m_maskingKey g)) (m_payloadLength g)"
  define ft where "ft = (if ?first then m_opcode g else frameType p)"
  define q where "q = p\<lparr>ws_header := h, frameType := ft, ws_content := c1, ws_current := WS_Content\<rparr>"
  have w: "ws_current p = WS_Header" "message_room (ws_content p) 125"
    "125 \<le> m_maxChunks (m_unparsedBuffer (ws_content p))"
    using assms(1) by (auto simp: waits_for_frame_def)
  obtain N where N: "sized_stage ((ws_content p)\<lparr>m_unparsedBuffer := (m_unparsedBuffer (ws_content p))\<lparr>m_maxSize := N\<rparr>\<rparr>) N"
    using assms(1) by (auto simp: waits_for_frame_def)
  have q: "ws_changeToNextParser S hnd now (p\<lparr>ws_header := h\<rparr>) = Inr (True, q)"
    using header_to_content [of "p\<lparr>ws_header := h\<rparr>" g ?first c0 S hnd now] w(1) h(1,2) ne(3) len(3) assms(5)
    by (simp add: q_def ft_def c1_def c0_def)
  have "sized_stage c1 (unat (m_payloadLength g))"
    unfolding c1_def
    by (rule sized_after_payload_length [where N = N]) (use N len w(3) assms(2) in \<open>auto simp: c0_def client_frame_def\<close>)
  then have stage: "sized_stage c1 (length sent)" using len(1) by simp
  have "message_room c1 (length sent)"
    using w(2) assms(2) by (auto simp: message_room_def has_room_def c1_def c0_def client_frame_def)
  then obtain c where c: "content_write u (setParseResult c1 GET_MORE_DATA) ?pay = Inr (Some (length sent), c)"
    "m_parseStatus c = GOTO_NEXT_SUBPARSER" "chunks_ok (m_content c)" "same_limits (m_content c1) (m_content c)"
    "chunks_content (m_content c) = chunks_content (m_content c1) @ demasked c1 ?pay" "sized_stage c (length sent)" "\<not> m_isComplete c"
    "m_maxChunks (m_unparsedBuffer c) = m_maxChunks (m_unparsedBuffer c1)"
    using read_payload [of "setParseResult c1 GET_MORE_DATA" "length sent" ?pay u] stage by (auto simp: message_room_def)
  have d: "demasked c1 ?pay = sent" "m_content c1 = m_content (ws_content p)"
    "m_maxChunks (m_unparsedBuffer c1) = m_maxChunks (m_unparsedBuffer (ws_content p))"
    by (simp_all add: demasked_def c1_def c0_def unmask_unmask)
      (simp_all add: setPayloadLength_def setParseDataTargetSize_def B_setMaxSize_def)
  let ?q = "q\<lparr>ws_content := c\<rparr>"
  have pw: "pp_write ?P q ?pay = Inr (Some (length sent), ?q)" "pp_status ?P ?q = GOTO_NEXT_SUBPARSER" "pp_current ?P q"
    using c(1,2) by (simp_all add: ws_ops_def q_def)
  have nx: "pp_next ?P ?q = callOnFinalFragmentReceived S hnd now ?q"
    using h(1) assms(4) by (simp add: q_def ws_changeToNextParser_def changeToNextParserFromWebSocketFrameContent_def same_frame_def)
  note st = parseData_next_stage [OF assms(3) pw(3,1,2)]
  have r: "parseData ?P maxTTL p (frame_wire g sent) ttl = after_bytes 2 (after_bytes 4 (parseData ?P maxTTL q ?pay (ttl + 2)))"
    using h(5) [OF q] by (simp add: q_def)
  have "length (frame_wire g sent) = length sent + 6"
    using plain_bytes [of g] assms(2) len(2) ne(4) by (simp add: frame_wire_def client_frame_def)
  moreover have "length sent \<le> 125" using assms(2) by (simp add: client_frame_def)
  ultimately have "parseData ?P maxTTL p (frame_wire g sent) ttl = Inr (Some (length (frame_wire g sent)), q')"
    if "callOnFinalFragmentReceived S hnd now ?q = Inr (True, q')" "ws_current q' \<noteq> WS_None" for q'
    using st(2) [of q'] nx that r ne(2) by (simp add: after_bytes_def add64_def)
  moreover have "parseData ?P maxTTL p (frame_wire g sent) ttl = Inl e" if "callOnFinalFragmentReceived S hnd now ?q = Inl e" for e
    using st(1) [of e] nx that r by (simp add: after_bytes_def)
  ultimately show ?thesis using h(3,4) c(3-8) d
    by (intro exI [of _ h] exI [of _ c] exI [of _ ?q]) (simp add: q_def ft_def)
qed

section \<open>Properties of the connection\<close>

lemma waits_after_reset:
  assumes "hdr_at (ws_header p) N" "hdr_inv (ws_header p)" "sized_stage (ws_content p) M" "\<not> m_isComplete (ws_content p)"
    "125 \<le> m_maxChunks (m_unparsedBuffer (ws_content p))" "chunks_ok (m_content (ws_content p))"
    "has_room c 125" "same_limits c (m_content (ws_content p))"
  shows "waits_for_frame (ws_reset p WS_Header)" "m_isFirstFrame (ws_content (ws_reset p WS_Header))"
    "chunks_content (m_content (ws_content (ws_reset p WS_Header))) = []"
proof -
  let ?c = "ws_content p"
  note cl = cleared_buffer [OF assms(6)]
  have m: "(m_unparsedBuffer ?c)\<lparr>m_maxSize := M\<rparr> = m_unparsedBuffer ?c"
    using assms(3) by (simp add: sized_stage_def)
  have st: "sized_stage (FrameContent_reset ?c) M"
    using assms(3) by (simp add: sized_stage_def sp_ok_def sp_text_def FrameContent_reset_def)
  have "same_limits c (snd (B_clear CO (m_content ?c)))" using same_limits_trans [OF assms(8) cl(3)] .
  then have "has_room (snd (B_clear CO (m_content ?c))) 125"
    using has_room_same [OF _ assms(7), of "snd (B_clear CO (m_content ?c))" 125] cl(2) by simp
  then have "message_room (FrameContent_reset ?c) 125"
    using cl(1) by (simp add: message_room_def FrameContent_reset_def)
  moreover have "\<exists>N. sized_stage ((FrameContent_reset ?c)\<lparr>m_unparsedBuffer := (m_unparsedBuffer (FrameContent_reset ?c))\<lparr>m_maxSize := N\<rparr>\<rparr>) N"
    using st m by (intro exI [of _ M]) (simp add: FrameContent_reset_def)
  ultimately show "waits_for_frame (ws_reset p WS_Header)"
    using hdr_at_reset [OF assms(1)] hdr_inv_new(2) [OF assms(2)] assms(5)
    by (simp add: waits_for_frame_def ws_reset_def) (simp add: FrameContent_reset_def)
  show "m_isFirstFrame (ws_content (ws_reset p WS_Header))" "chunks_content (m_content (ws_content (ws_reset p WS_Header))) = []"
    using cl(2) by (simp_all add: ws_reset_def FrameContent_reset_def)
qed

definition message_event :: "frame_header \<Rightarrow> ws_event" where
  "message_event g = (if m_opcode g = OPCODE_TEXT then WS_Text else WS_Binary)"

definition idle :: "('u, 'o) ws_server \<Rightarrow> bool" where
  "idle p \<longleftrightarrow> waits_for_frame p \<and> m_isFirstFrame (ws_content p) \<and> chunks_content (m_content (ws_content p)) = [] \<and> 2 \<le> m_maxTTL p"

definition by_content :: "(ws_event \<Rightarrow> bytes \<Rightarrow> 'u \<Rightarrow> 'u) \<Rightarrow> ('u, 'o) ws_handler" where
  "by_content f = (\<lambda>e ct usr up. (f e (chunks_content ct) usr, up))"

lemma message_delivered:
  assumes "idle p" "client_frame g sent" "m_fin g" "m_opcode g \<in> {OPCODE_TEXT, OPCODE_BINARY}"
  shows "\<exists>p'. Parser_write (ws_ops S (by_content f) now stack u) p (frame_wire g sent) =
      Inr (Some (length (frame_wire g sent)), p') \<and> idle p' \<and> ws_user p' = f (message_event g) sent (ws_user p)"
proof -
  let ?hnd = "by_content f :: ('a, 'b) ws_handler"
  let ?P = "ws_ops S ?hnd now stack u"
  have i: "waits_for_frame p" "m_isFirstFrame (ws_content p)" "chunks_content (m_content (ws_content p)) = []" "0 + 2 \<le> m_maxTTL p"
    using assms(1) by (auto simp: idle_def)
  have op: "m_isFirstFrame (ws_content p) \<longrightarrow> m_opcode g \<noteq> OPCODE_CONTINUATION" using assms(4) by auto
  obtain h c q where q: "q = p\<lparr>ws_header := h, frameType := m_opcode g, ws_content := c, ws_current := WS_Content\<rparr>"
    "hdr_at h 4" "hdr_inv h" "sized_stage c (length sent)" "chunks_ok (m_content c)" "chunks_content (m_content c) = sent"
    "same_limits (m_content (ws_content p)) (m_content c)" "\<not> m_isComplete c"
    "m_maxChunks (m_unparsedBuffer c) = m_maxChunks (m_unparsedBuffer (ws_content p))"
    "\<forall>q'. callOnFinalFragmentReceived S ?hnd now q = Inr (True, q') \<longrightarrow> ws_current q' \<noteq> WS_None \<longrightarrow>
      parseData ?P (m_maxTTL p) p (frame_wire g sent) 0 = Inr (Some (length (frame_wire g sent)), q')"
    using frame_through_driver [OF i(1) assms(2) i(4) assms(3) op, of S ?hnd now stack u] i(2,3) by auto
  let ?q1 = "ws_call ?hnd (message_event g) q"
  let ?p' = "ws_reset ?q1 WS_Header"
  have call: "callOnFinalFragmentReceived S ?hnd now q = Inr (True, ?p')"
    using assms(4) q(1) by (auto simp: callOnFinalFragmentReceived_def message_event_def)
  have "frame_wire g sent \<noteq> []" using assms(2) by (simp add: frame_wire_def client_frame_def)
  then have "Parser_write ?P p (frame_wire g sent) = Inr (Some (length (frame_wire g sent)), ?p')"
    using q(10) call by (simp add: Parser_write_def ws_reset_def)
  moreover have "idle ?p'"
  proof -
    have room: "has_room (m_content (ws_content p)) 125" "125 \<le> m_maxChunks (m_unparsedBuffer (ws_content p))"
      using i(1) by (auto simp: waits_for_frame_def message_room_def)
    note w = waits_after_reset [of ?q1 4 "length sent" "m_content (ws_content p)"]
    have "waits_for_frame ?p'" "m_isFirstFrame (ws_content ?p')" "chunks_content (m_content (ws_content ?p')) = []"
      by (rule w; use q room in simp)+
    moreover have "m_maxTTL ?p' = m_maxTTL p" by (simp add: ws_reset_def q(1))
    ultimately show ?thesis using i(4) by (simp add: idle_def)
  qed
  moreover have "ws_user ?p' = f (message_event g) sent (ws_user p)"
    using q(1,6) by (simp add: ws_reset_def ws_call_def by_content_def)
  ultimately show ?thesis by blast
qed

lemma messages_delivered:
  assumes "idle p" "\<forall>(g, sent)\<in>set fs. client_frame g sent \<and> m_fin g \<and> m_opcode g \<in> {OPCODE_TEXT, OPCODE_BINARY}"
  shows "\<exists>p'. write_all (ws_ops S (by_content f) now stack u) p (map (\<lambda>(g, sent). frame_wire g sent) fs) = Some p' \<and>
    idle p' \<and> ws_user p' = foldl (\<lambda>usr (g, sent). f (message_event g) sent usr) (ws_user p) fs"
  using assms
proof (induction fs arbitrary: p)
  case (Cons x fs)
  obtain g sent where [simp]: "x = (g, sent)" by fastforce
  obtain p1 where p1: "Parser_write (ws_ops S (by_content f) now stack u) p (frame_wire g sent) =
      Inr (Some (length (frame_wire g sent)), p1)" "idle p1" "ws_user p1 = f (message_event g) sent (ws_user p)"
    using message_delivered [OF Cons.prems(1), of g sent S f now stack u] Cons.prems(2) by auto
  then show ?case using Cons.IH [OF p1(2)] Cons.prems(2) by simp
qed simp

lemma ws_established_waits:
  "waits_for_frame (ws_established usr up)" "m_isFirstFrame (ws_content (ws_established usr up)) = False"
  "frameType (ws_established usr up) = OPCODE_CONTINUATION" "m_maxTTL (ws_established usr up) = 4096"
proof -
  have c: "sized_stage (FrameContent_new\<lparr>m_unparsedBuffer := (m_unparsedBuffer FrameContent_new)\<lparr>m_maxSize := 1\<rparr>\<rparr>) 1"
    "125 \<le> m_maxChunks (m_unparsedBuffer FrameContent_new)" "message_room FrameContent_new 125"
    by (simp_all add: FrameContent_new_def message_room_def sized_stage_def sp_ok_def sp_text_def has_room_def subparser.defs
        setParseStrategy_def SubParser_new_def B_Chunks_new_def chunks_ok_def chunks_wf_def chunks_content_def size_max_def)
  then show "waits_for_frame (ws_established usr up)"
    using FrameHeader_new_at hdr_inv_new(1)
    by (auto simp: waits_for_frame_def ws_established_def parser_base.defs intro: exI [of _ 1])
  show "m_isFirstFrame (ws_content (ws_established usr up)) = False" "frameType (ws_established usr up) = OPCODE_CONTINUATION"
    "m_maxTTL (ws_established usr up) = 4096"
    by (simp_all add: ws_established_def parser_base.defs FrameContent_new_def subparser.defs setParseStrategy_def parser_base_init_def)
qed

text \<open>A connection that has been reset after a frame with a payload of one byte.\<close>

definition demo_idle :: "(ws_event \<times> bytes) list \<Rightarrow> 'o \<Rightarrow> ((ws_event \<times> bytes) list, 'o) ws_server" where
  "demo_idle usr up = ws_reset ((ws_established usr up)\<lparr>ws_content := setPayloadLength FrameContent_new 1\<rparr>) WS_Header"

lemma demo_idle_ok: "idle (demo_idle usr up)" "ws_user (demo_idle usr up) = usr" "ws_ok (demo_idle usr up)"
proof -
  let ?c = "setPayloadLength FrameContent_new 1"
  let ?p = "(ws_established usr up)\<lparr>ws_content := ?c\<rparr>"
  have c: "sized_stage ?c 1" "\<not> m_isComplete ?c" "125 \<le> m_maxChunks (m_unparsedBuffer ?c)" "chunks_ok (m_content ?c)"
    "has_room (m_content ?c) 125" "same_limits (m_content ?c) (m_content ?c)"
    by (simp_all add: FrameContent_new_def setPayloadLength_def setParseDataTargetSize_def B_setMaxSize_def same_limits_def
        sized_stage_def sp_ok_def sp_text_def has_room_def subparser.defs setParseStrategy_def SubParser_new_def B_Chunks_new_def
        chunks_ok_def chunks_wf_def chunks_content_def size_max_def)
  have h: "ws_header ?p = FrameHeader_new" by (simp add: ws_established_def parser_base.defs)
  note w = waits_after_reset [of ?p 2 1 "m_content ?c"]
  have "waits_for_frame (demo_idle usr up)" "m_isFirstFrame (ws_content (demo_idle usr up))"
    "chunks_content (m_content (ws_content (demo_idle usr up))) = []"
    unfolding demo_idle_def by (rule w; use c h FrameHeader_new_at(1) hdr_inv_new(1) in simp)+
  moreover have "m_maxTTL (demo_idle usr up) = 4096"
    using ws_established_waits(4) [of usr up] by (simp add: demo_idle_def ws_reset_def)
  ultimately show "idle (demo_idle usr up)" by (simp add: idle_def)
  show "ws_user (demo_idle usr up) = usr" by (simp add: demo_idle_def ws_reset_def ws_established_def parser_base.defs)
  have "content_inv ?c" using c(1,2) by (simp add: content_inv_def sized_stage_def)
  then show "ws_ok (demo_idle usr up)"
    unfolding demo_idle_def using h hdr_inv_new(1) by (intro ws_ok_reset) simp_all
qed

definition demo_peer :: str_obj where
  "demo_peer = \<lparr>ss_value = [], ss_status = ws_init\<rparr>"

lemma demo_frame: "client_frame demo_header ''hello''" "m_fin demo_header" "m_opcode demo_header = OPCODE_TEXT"
  using demo_header_plain by (simp_all add: client_frame_def demo_header_def)



text \<open>The first message of every connection is answered by an exception. After the upgrade the
  content object is as constructed, with its first-frame flag clear, so the frame type stays
  "continuation", and the final fragment throws: the parser has never delivered a first message.\<close>

theorem first_message_throws:
  assumes "client_frame g sent" "m_fin g"
  shows "Parser_write (ws_ops S hnd now stack u) (ws_established usr up) (frame_wire g sent) = Inl Runtime_error"
proof -
  let ?p = "ws_established usr up" and ?P = "ws_ops S hnd now stack u"
  note e = ws_established_waits [of usr up]
  obtain h c q where "q = ?p\<lparr>ws_header := h, frameType := OPCODE_CONTINUATION, ws_content := c, ws_current := WS_Content\<rparr>"
    "\<forall>x. callOnFinalFragmentReceived S hnd now q = Inl x \<longrightarrow> parseData ?P 4096 ?p (frame_wire g sent) 0 = Inl x"
    using frame_through_driver [OF e(1) assms(1) _ assms(2), of 0 4096 S hnd now stack u] e(2,3) by auto
  then have "parseData ?P 4096 ?p (frame_wire g sent) 0 = Inl Runtime_error"
    by (simp add: callOnFinalFragmentReceived_def)
  moreover have "frame_wire g sent \<noteq> []" using assms(1) by (simp add: frame_wire_def client_frame_def)
  ultimately show ?thesis using e(4) by (simp add: Parser_write_def)
qed

theorem first_message_throws_witness:
  "Parser_write (ws_ops string_ops (by_content (\<lambda>e m usr. usr @ [(e, m)])) 0 (\<lambda>_. 0) (\<lambda>_. [])) (ws_established [] demo_peer)
     (frame_wire demo_header ''hello'') = Inl Runtime_error"
  by (rule first_message_throws) (rule demo_frame)+



section \<open>Sending a message\<close>

lemma content_of_ok:
  assumes "length xs \<le> MAX_FRAME_SIZE"
  shows "chunks_ok (m_content (content_of xs))" "chunks_content (m_content (content_of xs)) = xs"
proof -
  have nw: "m_content FrameContent_new = B_Chunks_new"
    by (simp add: FrameContent_new_def subparser.defs setParseStrategy_def)
  have "chunks_ok (m_content (content_of xs)) \<and> chunks_content (m_content (content_of xs)) = xs"
  proof (cases "xs = []")
    case True
    then have "B_append CO B_Chunks_new xs = (None, B_Chunks_new)"
      by (simp add: B_append_def Let_def)
    then show ?thesis using nw True chunks_ok_new by (simp add: content_of_def)
  next
    case False
    have "has_room (B_Chunks_new :: sp_buf) (length xs)"
      using assms by (simp add: has_room_def) (simp add: B_Chunks_new_def size_max_def)
    from B_append_room [OF chunks_ok_wf [OF chunks_ok_new] this False, of no_mmap] chunks_ok_new nw
    show ?thesis by (auto simp: content_of_def)
  qed
  then show "chunks_ok (m_content (content_of xs))" "chunks_content (m_content (content_of xs)) = xs" by auto
qed

definition data_header :: "bool \<Rightarrow> u8 \<Rightarrow> nat \<Rightarrow> frame_header" where
  "data_header fin opc n = prepareHeader FrameHeader_new fin opc (word_of_nat n) False [0, 0, 0, 0]"

lemma data_header_fields [simp]:
  "m_fin (data_header fin opc n) = fin" "m_opcode (data_header fin opc n) = opc" "\<not> m_masked (data_header fin opc n)"
  "m_payloadLength (data_header fin opc n) = word_of_nat n" "m_maskingKey (data_header fin opc n) = [0, 0, 0, 0]"
  by (simp_all add: data_header_def prepareHeader_def)

lemma data_header_length:
  assumes "n \<le> MAX_FRAME_SIZE"
  shows "length (header_bytes (data_header fin opc n)) \<le> 4"
proof -
  have u: "unat (word_of_nat n :: u64) = n" using assms by (simp add: unsigned_of_nat take_bit_nat_def)
  have "payload_field (data_header fin opc n) \<noteq> 127"
  proof (cases "n \<le> 125")
    case True
    then show ?thesis using u by (auto simp: payload_field_def word_le_nat_alt word_unat_eq_iff unsigned_ucast_eq take_bit_nat_def)
  qed (use u assms in \<open>simp add: payload_field_def word_le_nat_alt\<close>)
  then show ?thesis by (simp add: header_bytes_def be_bytes_def)
qed

text \<open>What a list of frames says of a message.\<close>

definition frames_of :: "bytes \<Rightarrow> u8 \<Rightarrow> (frame_header \<times> bytes) list \<Rightarrow> bool" where
  "frames_of data opc fs \<longleftrightarrow> concat (map snd fs) = data \<and> fs \<noteq> [] \<and> m_opcode (fst (hd fs)) = opc \<and>
     (\<forall>f\<in>set (tl fs). m_opcode (fst f) = OPCODE_CONTINUATION) \<and>
     map (m_fin \<circ> fst) fs = replicate (length fs - 1) False @ [True] \<and>
     (\<forall>(h, x)\<in>set fs. \<not> m_masked h \<and> length x \<le> MAX_FRAME_SIZE \<and> m_payloadLength h = word_of_nat (length x))"

definition frames_wire :: "(frame_header \<times> bytes) list \<Rightarrow> bytes" where
  "frames_wire fs = concat (map (\<lambda>(h, x). header_bytes h @ x) fs)"

context sink
begin

lemma content_sent:
  assumes "ready up n" "length xs \<le> n" "length xs \<le> MAX_FRAME_SIZE"
  shows "\<exists>up'. FrameContent_streamToUpstream S (content_of xs) up = Some (Inr (True, up')) \<and>
    content up' = content up @ xs \<and> ready up' (n - length xs)"
proof -
  note c = content_of_ok [OF assms(3)]
  have sz: "B_Chunks_size no_mmap (m_content (content_of xs)) = length xs"
    using chunks_size [OF chunks_ok_wf [OF c(1)], of no_mmap] c(2) by simp
  show ?thesis
  proof (cases "xs = []")
    case True
    then have "B_appendTo (B_Chunks_copyToStreamableObject2 no_mmap no_mmap_copy S) CO S (m_content (content_of xs)) up size_max 0 =
        Some (Inr (Some 0, up))" using sz by (simp add: B_appendTo_def Let_def overflow_sum_iff)
    then show ?thesis using sz True assms(1) by (simp add: FrameContent_streamToUpstream_def)
  next
    case False
    then show ?thesis
      using chunks_streamTo [OF chunks_ok_wf [OF c(1)] assms(1), of no_mmap no_mmap_copy] c(2) sz assms(2)
      by (auto simp: FrameContent_streamToUpstream_def)
  qed
qed

lemma send_loop_frames:
  assumes "ready up n" "2 * (length data - k) + 4 \<le> n" "length data < two64"
  shows "\<exists>up' fs. sendWebSocketData_loop S data mode k up = Some (Inr (True, up')) \<and>
    content up' = content up @ frames_wire fs \<and>
    frames_of (drop k data) (if k = 0 then mode else OPCODE_CONTINUATION) fs"
  using assms
proof (induction "length data - k" arbitrary: k up n rule: less_induct)
  case less
  define m where "m = (if length data - k > MAX_FRAME_SIZE then MAX_FRAME_SIZE else length data - k)"
  define opc where "opc = (if k = 0 then mode else OPCODE_CONTINUATION)"
  define fin where "fin = (k + m \<ge> length data)"
  define x where "x = take m (drop k data)"
  let ?h = "data_header fin opc m"
  have m: "m \<le> MAX_FRAME_SIZE" "length x = m" "m \<le> length data - k" by (auto simp: m_def x_def)
  note hl = data_header_length [OF m(1), of fin opc]
  obtain up1 where up1: "FrameHeader_streamToUpstream S ?h up = Some (Inr (True, up1))"
    "content up1 = content up @ header_bytes ?h" "ready up1 (n - length (header_bytes ?h))"
    using header_streamed [OF less.prems(1), of ?h] hl less.prems(2) by auto
  have "length x \<le> n - length (header_bytes ?h)" "length x \<le> MAX_FRAME_SIZE" using m hl less.prems(2) by auto
  then obtain up2 where up2: "FrameContent_streamToUpstream S (content_of x) up1 = Some (Inr (True, up2))"
    "content up2 = content up1 @ x" "ready up2 (n - length (header_bytes ?h) - m)"
    using content_sent [OF up1(3), of x] m(2) by blast
  have step: "sendWebSocketData_loop S data mode k up =
      (if k + m < length data then sendWebSocketData_loop S data mode (k + m) up2 else Some (Inr (True, up2)))"
    using up1(1) up2(1)
    by (subst sendWebSocketData_loop.simps)
      (simp add: andThen_def Let_def data_header_def opc_def [symmetric] m_def [symmetric] fin_def [symmetric] x_def [symmetric])
  show ?case
  proof (cases "k + m < length data")
    case False
    then have d: "drop k data = x" "fin" by (simp_all add: x_def fin_def)
    have "frames_of (drop k data) opc [(?h, x)]" using d m(1,2) by (simp add: frames_of_def)
    then show ?thesis using step False up1(2) up2(2)
      by (intro exI [of _ up2] exI [of _ "[(?h, x)]"]) (simp add: frames_wire_def opc_def)
  next
    case True
    then have big: "m = MAX_FRAME_SIZE" "\<not> fin" by (auto simp: m_def fin_def split: if_splits)
    then have b: "2 * (length data - (k + m)) + 4 \<le> n - length (header_bytes ?h) - m" "length data - (k + m) < length data - k"
      using less.prems(2) hl True by auto
    obtain up' fs where fs: "sendWebSocketData_loop S data mode (k + m) up2 = Some (Inr (True, up'))"
      "content up' = content up2 @ frames_wire fs" "frames_of (drop (k + m) data) OPCODE_CONTINUATION fs"
      using less.hyps [OF b(2) up2(3) b(1) less.prems(3)] big(1) by auto
    have "drop k data = x @ drop (k + m) data" 
      using append_take_drop_id [of m "drop k data"] by (simp add: x_def add.commute)
    then have "frames_of (drop k data) opc ((?h, x) # fs)"
      using fs(3) big(2) m(1,2) by (cases fs) (auto simp: frames_of_def)
    then show ?thesis using step True fs(1,2) up1(2) up2(2)
      by (intro exI [of _ up'] exI [of _ "(?h, x) # fs"]) (simp add: frames_wire_def opc_def)
  qed
qed

end

text \<open>C6: sending a message of any length always returns, and puts upstream exactly a sequence of
  frames that make up the message: unmasked, at most 65535 bytes each, the first with the
  message's operation code and the others continuations, only the last one final, their lengths
  those of their payloads, and their payloads together the message.\<close>

theorem send_message_frames:
  assumes "chunks_ready up n" "chunks_ok up" "2 * length data + 4 \<le> n" "length data < two64"
  shows "\<exists>up' fs. sendWebSocketData (B_sink (chunks_ops M)) data mode up = Some (Inr (True, up')) \<and>
    chunks_content up' = chunks_content up @ frames_wire fs \<and> frames_of data mode fs"
  using osink.send_loop_frames [of up n data 0 M mode] assms by (simp add: sendWebSocketData_def)

theorem send_message_frames_witness:
  "\<exists>up' fs. sendWebSocketData (B_sink (chunks_ops no_mmap)) ''hello'' OPCODE_TEXT B_Chunks_new = Some (Inr (True, up')) \<and>
    chunks_content up' = frames_wire fs \<and> frames_of ''hello'' OPCODE_TEXT fs"
proof -
  have "chunks_ready (B_Chunks_new :: unit b_chunks) 14"
    by (simp add: chunks_ready_def has_room_def B_Chunks_new_def ws_init_def size_max_def chunks_wf_def chunks_content_def)
  from send_message_frames [OF this chunks_ok_new, of "''hello''" no_mmap OPCODE_TEXT] show ?thesis by simp
qed

end
