(* ===== verification/Binary_Mem.thy ===== *)
theory Binary_Mem
  imports Binary_Base
begin

text \<open>
  \<open>Memory/b_mem.{h,cpp}\<close>: a read-only container over memory that belongs to someone else.
  \<open>linearMem\<close> is the memory from the stored pointer on. The constructor takes its length as a
  32-bit value. \<open>findChar\<close> throws when its window leaves the container; in the method table
  the throw is a failed search, which the searching contract never asks for.
\<close>

record b_mem = b_base +
  linearMem :: bytes

definition B_MEM_clear2 :: "b_mem \<Rightarrow> bool \<times> b_mem" where
  "B_MEM_clear2 m = (True, m\<lparr>linearMem := [], m_containerBytes := 0\<rparr>)"

definition B_MEM_size :: "b_mem \<Rightarrow> nat" where
  "B_MEM_size m = m_containerBytes m"

definition B_MEM_reference :: "b_mem \<Rightarrow> bytes \<Rightarrow> nat \<Rightarrow> b_mem" where
  "B_MEM_reference m buf len =
     (snd (B_MEM_clear2 (B_clear0 m)))\<lparr>linearMem := buf, m_readOnly := True, m_containerBytes := len\<rparr>"

definition B_MEM_new :: "bytes \<Rightarrow> nat \<Rightarrow> b_mem" where
  "B_MEM_new buf len0 =
     (let len = len0 mod 4294967296;
          m = snd (B_MEM_clear2 \<lparr>m_readOnly = True, m_containerBytes = 0, m_maxSize = size_max,
                m_fsDirectoryPath = ''/tmp'', m_fsBaseFileName = ''BinaryContainer-'',
                m_writeStatus = ws_init, linearMem = []\<rparr>) in
      if len \<noteq> 0 then B_MEM_reference m buf len else m)"

definition B_MEM_findChar :: "b_mem \<Rightarrow> char \<Rightarrow> nat \<Rightarrow> nat \<Rightarrow> bool \<Rightarrow> b_exn + nat option" where
  "B_MEM_findChar m ch offset searchSpace0 caseSensitive0 =
     (let caseSensitive = (caseSensitive0 \<and> isalpha ch); currentSize = B_MEM_size m in
      if currentSize = 0 then Inr None
      else if CHECK_UINT_OVERFLOW_SUM offset searchSpace0 then Inl Search_outside
      else if offset + searchSpace0 > currentSize then Inl Search_outside
      else
        (let searchSpace = (if searchSpace0 = 0 then currentSize - offset else searchSpace0);
             w = take searchSpace (drop offset (linearMem m));
             cPos = (if caseSensitive then memchr ch w
                     else case (memchr (toupper ch) w, memchr (tolower ch) w) of
                            (Some u, Some l) \<Rightarrow> Some (if u < l then u else l)
                          | (Some u, None) \<Rightarrow> Some u
                          | (None, l) \<Rightarrow> l) in
         Inr (map_option (\<lambda>p. offset + p) cPos)))"

definition B_MEM_truncate2 :: "b_mem \<Rightarrow> nat \<Rightarrow> nat option \<times> b_mem" where
  "B_MEM_truncate2 m n = (let m' = m\<lparr>m_containerBytes := n\<rparr> in (Some (B_MEM_size m'), m'))"

definition B_MEM_append2 :: "b_mem \<Rightarrow> bytes \<Rightarrow> bool \<Rightarrow> nat option \<times> b_mem" where
  "B_MEM_append2 m buf prependMode = (None, m)"

definition B_MEM_displace2 :: "b_mem \<Rightarrow> nat \<Rightarrow> nat option \<times> b_mem" where
  "B_MEM_displace2 m n =
     (if n > B_MEM_size m then (None, m)
      else (Some n, m\<lparr>linearMem := drop n (linearMem m), m_containerBytes := m_containerBytes m - n\<rparr>))"

text \<open>The blocks a copy is cut into: 64 KiB each, the last one shorter.\<close>

function mem_blocks :: "bytes \<Rightarrow> nat \<Rightarrow> bytes list" where
  "mem_blocks mem dataToCopy =
     (if dataToCopy = 0 then []
      else let n = (if dataToCopy > mem_block then mem_block else dataToCopy) in
        take n mem # mem_blocks (drop n mem) (dataToCopy - n))"
  by pat_completeness auto
termination
  by (relation "measure snd") auto

declare mem_blocks.simps [simp del]

definition B_MEM_copyToStream2 :: "'f ostream \<Rightarrow> b_mem \<Rightarrow> 'f \<Rightarrow> nat \<Rightarrow> nat \<Rightarrow> nat option \<times> 'f" where
  "B_MEM_copyToStream2 F m out bytes0 offset =
     (if bytes0 = 0 then (Some 0, out)
      else if CHECK_UINT_OVERFLOW_SUM offset bytes0 then (None, out)
      else if offset > B_MEM_size m then (None, out)
      else copyToStreamUsingCleanVector F out
             (mem_blocks (drop offset (linearMem m))
                (if offset + bytes0 > B_MEM_size m then B_MEM_size m - offset else bytes0)) 0)"

definition B_MEM_copyToStreamableObject2 ::
  "'o streamable \<Rightarrow> b_mem \<Rightarrow> 'o \<Rightarrow> nat \<Rightarrow> nat \<Rightarrow> 'o copy_result" where
  "B_MEM_copyToStreamableObject2 S m out bytes0 offset =
     (if bytes0 = 0 then Some (Inr (Some 0, out))
      else if CHECK_UINT_OVERFLOW_SUM offset bytes0 then status_error S out
      else if offset > B_MEM_size m then status_error S out
      else copyToStreamableObjectUsingCleanVector S out
             (mem_blocks (drop offset (linearMem m))
                (if offset + bytes0 > B_MEM_size m then B_MEM_size m - offset else bytes0)) 0)"

definition B_MEM_copyToBuffer2 :: "b_mem \<Rightarrow> nat \<Rightarrow> nat \<Rightarrow> bytes option" where
  "B_MEM_copyToBuffer2 m n offset =
     (if CHECK_UINT_OVERFLOW_SUM offset n then None
      else if n = 0 then Some []
      else if offset + n > B_MEM_size m then None
      else if offset > B_MEM_size m then None
      else let left = B_MEM_size m - offset in
        if left = 0 then Some []
        else Some (take (if left < n then left else n) (drop offset (linearMem m))))"

definition B_MEM_compare2 :: "b_mem \<Rightarrow> bytes \<Rightarrow> bool \<Rightarrow> nat \<Rightarrow> bool" where
  "B_MEM_compare2 m buf caseSensitive offset =
     (if CHECK_UINT_OVERFLOW_SUM offset (length buf) then False
      else if buf = [] then True
      else if offset + length buf > B_MEM_size m then False
      else memicmp2 (drop offset (linearMem m)) buf (length buf) caseSensitive = 0)"

definition mem_ops :: "b_mem b_ops" where
  "mem_ops = \<lparr>v_size = B_MEM_size, v_append2 = B_MEM_append2, v_displace2 = B_MEM_displace2,
     v_truncate2 = B_MEM_truncate2, v_clear2 = B_MEM_clear2, v_copyToBuffer2 = B_MEM_copyToBuffer2,
     v_compare2 = B_MEM_compare2,
     v_findChar = (\<lambda>m ch off sp cs. case B_MEM_findChar m ch off sp cs of Inl _ \<Rightarrow> None | Inr r \<Rightarrow> r)\<rparr>"

section \<open>The container satisfies the storage contracts\<close>

definition mem_content :: "b_mem \<Rightarrow> bytes" where
  "mem_content m = take (m_containerBytes m) (linearMem m)"

definition mem_ok :: "b_mem \<Rightarrow> bool" where
  "mem_ok m \<longleftrightarrow> m_containerBytes m \<le> length (linearMem m) \<and> m_containerBytes m < two64"

lemma mem_new_ok:
  assumes "len \<le> length buf" "len < 4294967296"
  shows "mem_ok (B_MEM_new buf len)" "mem_content (B_MEM_new buf len) = take len buf"
  using assms by (simp_all add: mem_ok_def mem_content_def B_MEM_new_def B_MEM_reference_def
      B_MEM_clear2_def B_clear0_def Let_def)

lemma mem_blocks_concat: "n \<le> length mem \<Longrightarrow> concat (mem_blocks mem n) = take n mem"
proof (induction mem n rule: mem_blocks.induct)
  case (1 mem n)
  define k where "k = (if n > mem_block then mem_block else n)"
  show ?case
  proof (cases "n = 0")
    case False
    have k: "k \<le> n" by (simp add: k_def)
    have "concat (mem_blocks mem n) = take k mem @ concat (mem_blocks (drop k mem) (n - k))"
      using False by (subst mem_blocks.simps) (simp add: Let_def k_def)
    also have "\<dots> = take k mem @ take (n - k) (drop k mem)"
      using "1.IH" [OF False k_def] "1.prems" by simp
    finally show ?thesis using k by (metis le_add_diff_inverse take_add)
  qed (simp add: mem_blocks.simps)
qed

lemma mem_window:
  "mem_ok m \<Longrightarrow> off + n \<le> length (mem_content m) \<Longrightarrow>
     take n (drop off (linearMem m)) = take n (drop off (mem_content m))"
  by (simp add: mem_content_def mem_ok_def drop_take)

lemma mem_size: "mem_ok m \<Longrightarrow> B_MEM_size m = length (mem_content m)"
  by (simp add: mem_ok_def mem_content_def B_MEM_size_def)

lemma either_case_Some:
  assumes "(if fl then memchr ch w
      else case (memchr (toupper ch) w, memchr (tolower ch) w) of
             (Some u, Some l) \<Rightarrow> Some (if u < l then u else l) | (Some u, None) \<Rightarrow> Some u | (None, l) \<Rightarrow> l) = Some p"
  shows "p < length w \<and> (\<forall>j<p. w ! j \<noteq> ch)"
  using assms
  by (auto simp: memchr_Some toupper_def tolower_def islower_def isupper_def
      split: if_splits option.splits)

lemma either_case_None:
  assumes "(if fl then memchr ch w
      else case (memchr (toupper ch) w, memchr (tolower ch) w) of
             (Some u, Some l) \<Rightarrow> Some (if u < l then u else l) | (Some u, None) \<Rightarrow> Some u | (None, l) \<Rightarrow> l) = None"
  shows "ch \<notin> set w"
  using assms
  by (auto simp: toupper_def tolower_def islower_def isupper_def split: if_splits option.splits)

text \<open>Inside the container the search does not throw, and it finds the first occurrence of either
  the character or, without the case flag, of one of its cases.\<close>

lemma mem_findChar:
  assumes "mem_ok m" "off + sp = length (mem_content m)"
  shows "\<exists>r. B_MEM_findChar m ch off sp fl = Inr r \<and>
    (case r of None \<Rightarrow> ch \<notin> set (drop off (mem_content m))
     | Some p \<Rightarrow> off \<le> p \<and> p < off + sp \<and> (\<forall>j. off \<le> j \<and> j < p \<longrightarrow> mem_content m ! j \<noteq> ch))"
proof -
  let ?w = "drop off (mem_content m)"
  have bnd: "length (mem_content m) < two64" using assms(1) by (simp add: mem_ok_def mem_content_def)
  show ?thesis
  proof (cases "length (mem_content m) = 0")
    case True
    then show ?thesis using mem_size [OF assms(1)] by (simp add: B_MEM_findChar_def Let_def)
  next
    case False
    define r where "r = (if fl \<and> isalpha ch then memchr ch ?w
      else case (memchr (toupper ch) ?w, memchr (tolower ch) ?w) of
             (Some u, Some l) \<Rightarrow> Some (if u < l then u else l) | (Some u, None) \<Rightarrow> Some u | (None, l) \<Rightarrow> l)"
    have win: "take (if sp = 0 then length (mem_content m) - off else sp) (drop off (linearMem m)) = ?w"
    proof -
      have "length (mem_content m) - off = sp" "off + (length (mem_content m) - off) \<le> length (mem_content m)"
        using assms(2) by auto
      then show ?thesis using mem_window [OF assms(1), of off "length (mem_content m) - off"] by auto
    qed
    have eq: "B_MEM_findChar m ch off sp fl = Inr (map_option (\<lambda>p. off + p) r)"
      using False assms(2) bnd mem_size [OF assms(1)] win
      by (simp add: B_MEM_findChar_def Let_def overflow_sum_iff r_def del: mult_Suc)
    have some: "p < length ?w \<and> (\<forall>j<p. ?w ! j \<noteq> ch)" if "r = Some p" for p
      using either_case_Some [of "fl \<and> isalpha ch" ch ?w p] that unfolding r_def by blast
    have none: "ch \<notin> set ?w" if "r = None"
      using either_case_None [of "fl \<and> isalpha ch" ch ?w] that unfolding r_def by blast
    show ?thesis
    proof (cases r)
      case None
      then show ?thesis using eq none by simp
    next
      case (Some p)
      have "mem_content m ! j \<noteq> ch" if "off \<le> j" "j < off + p" for j
      proof -
        have "j - off < p" using that by simp
        then have "?w ! (j - off) \<noteq> ch" using some [OF Some] by blast
        then show ?thesis using that some [OF Some] assms(2) by simp
      qed
      then show ?thesis using eq Some some [OF Some] assms(2) by auto
    qed
  qed
qed

interpretation mem: b_storage mem_ops mem_content mem_ok
proof
  fix m xs off sp p and ch :: char
  assume ok: "mem_ok m"
  have lin: "m_containerBytes m \<le> length (linearMem m)" using ok by (simp add: mem_ok_def)
  show "v_size mem_ops m = length (mem_content m)" using mem_size [OF ok] by (simp add: mem_ops_def)
  show "length (mem_content m) < two64" using ok by (simp add: mem_ok_def mem_content_def)
  show "v_compare2 mem_ops m xs True off = occurs_at xs (mem_content m) off"
    if "xs \<noteq> []" "off < two64" "off + length xs < two64"
  proof (cases "off + length xs \<le> length (mem_content m)")
    case True
    then have "length xs \<le> length (drop off (linearMem m))" using lin by (simp add: mem_content_def)
    then show ?thesis using True that mem_size [OF ok] mem_window [OF ok True]
      by (simp add: mem_ops_def B_MEM_compare2_def overflow_sum_iff memicmp2_zero occurs_at_def)
  next
    case False
    then show ?thesis using that mem_size [OF ok]
      by (simp add: mem_ops_def B_MEM_compare2_def occurs_at_def)
  qed
  assume b: "off + sp = length (mem_content m)"
  obtain r where r: "B_MEM_findChar m ch off sp True = Inr r"
    "case r of None \<Rightarrow> ch \<notin> set (drop off (mem_content m))
     | Some p \<Rightarrow> off \<le> p \<and> p < off + sp \<and> (\<forall>j. off \<le> j \<and> j < p \<longrightarrow> mem_content m ! j \<noteq> ch)"
    using mem_findChar [OF ok b] by blast
  show "off \<le> p \<and> p < off + sp \<and> (\<forall>j. off \<le> j \<and> j < p \<longrightarrow> mem_content m ! j \<noteq> ch)"
    if "v_findChar mem_ops m ch off sp True = Some p" using that r by (simp add: mem_ops_def)
  show "\<forall>j. off \<le> j \<and> j < off + sp \<longrightarrow> mem_content m ! j \<noteq> ch"
    if "v_findChar mem_ops m ch off sp True = None"
  proof (intro allI impI)
    fix j assume j: "off \<le> j \<and> j < off + sp"
    have "ch \<notin> set (drop off (mem_content m))" using that r by (simp add: mem_ops_def)
    moreover have "mem_content m ! j \<in> set (drop off (mem_content m))"
    proof -
      have "j - off < length (drop off (mem_content m))" using j b by auto
      then have "drop off (mem_content m) ! (j - off) \<in> set (drop off (mem_content m))" by (rule nth_mem)
      then show ?thesis using j b by simp
    qed
    ultimately show "mem_content m ! j \<noteq> ch" by metis
  qed
qed

interpretation memr: b_random mem_ops mem_content mem_ok
proof
  fix m n off
  assume ok: "mem_ok m" and "0 < n" and le: "off + n \<le> length (mem_content m)"
  then show "v_copyToBuffer2 mem_ops m n off = Some (take n (drop off (mem_content m)))"
    using mem_size [OF ok] mem_window [OF ok le] mem.content_bound [OF ok]
    by (simp add: mem_ops_def B_MEM_copyToBuffer2_def overflow_sum_iff Let_def)
qed

text \<open>Streaming the memory into a sink.\<close>

context sink
begin

lemma mem_streams:
  assumes "mem_ok m" "mem_content m \<noteq> []" "ready out (length (mem_content m))"
  shows "\<exists>out'. B_appendTo (B_MEM_copyToStreamableObject2 S) mem_ops S m out size_max 0 =
      Some (Inr (Some (length (mem_content m)), out')) \<and>
    content out' = content out @ mem_content m \<and> ready out' 0"
proof -
  let ?n = "length (mem_content m)" and ?cks = "mem_blocks (linearMem m) (length (mem_content m))"
  have bnd: "?n < two64" "v_size mem_ops m = ?n" using mem.content_bound mem.size_content assms(1) by auto
  have le: "?n \<le> length (linearMem m)" by (simp add: mem_content_def)
  have cc: "concat ?cks = mem_content m"
    using mem_blocks_concat [OF le] assms(1) by (simp add: mem_content_def mem_ok_def)
  have sum: "sum_list (map length ?cks) = ?n" using arg_cong [OF cc, of length] by (simp add: length_concat)
  have "B_appendTo (B_MEM_copyToStreamableObject2 S) mem_ops S m out size_max 0 =
      copyToStreamableObjectUsingCleanVector S out ?cks 0"
    using assms(1,2) bnd mem_size [OF assms(1)]
    by (auto simp: B_appendTo_def B_MEM_copyToStreamableObject2_def Let_def overflow_sum_iff)
  then show ?thesis using copyVector_total [OF assms(3), of ?cks 0] cc sum bnd(1) by auto
qed

end

end
