(* ===== verification/Helpers_Encoders.thy ===== *)
theory Helpers_Encoders
  imports Mantids_Prelude
begin

text \<open>
  \<open>Helpers/encoders.{h,cpp}\<close>: hexadecimal, percent encoding, the hexadecimal escapes and base32.
  A \<open>char\<close> of the source is signed; where its sign matters the model uses \<open>schar\<close>. The
  base64 functions are in \<open>Base64\<close>.
\<close>

section \<open>Hexadecimal\<close>

definition hexToValue :: "char \<Rightarrow> nat" where
  "hexToValue v =
     (if 48 \<le> byte_of v \<and> byte_of v \<le> 57 then byte_of v - 48
      else if 65 \<le> byte_of v \<and> byte_of v \<le> 70 then byte_of v - 65 + 10
      else if 97 \<le> byte_of v \<and> byte_of v \<le> 102 then byte_of v - 97 + 10
      else 0)"

definition hexPairToByte :: "char \<Rightarrow> char \<Rightarrow> char" where
  "hexPairToByte a b =
     (if \<not> isxdigit a \<or> \<not> isxdigit b then char_of (0 :: nat)
      else char_of (hexToValue a * 16 + hexToValue b))"

text \<open>A digit of \<open>printf\<close>'s \<open>%X\<close>.\<close>

definition hex_digit :: "nat \<Rightarrow> char" where
  "hex_digit n = (if n < 10 then char_of (48 + n) else char_of (55 + n))"

definition toHex :: "bytes \<Rightarrow> bytes" where
  "toHex data = concat (map (\<lambda>c. [hex_digit (byte_of c div 16), hex_digit (byte_of c mod 16)]) data)"

fun fromHex_loop :: "bytes \<Rightarrow> nat \<Rightarrow> bytes" where
  "fromHex_loop (a # b # xs) (Suc n) = char_of (hexToValue a * 16 + hexToValue b) # fromHex_loop xs n"
| "fromHex_loop _ _ = []"

definition fromHex :: "bytes \<Rightarrow> bytes \<Rightarrow> nat \<Rightarrow> bytes" where
  "fromHex hexValue data maxlen =
     (let n = (if length hexValue div 2 < maxlen then length hexValue div 2 else maxlen) in
      fromHex_loop hexValue n @ drop n data)"

section \<open>Percent encoding\<close>

datatype url_type = STRICT_ENCODING | QUOTEPRINT_ENCODING

definition toHexFrom4bitChar :: "char \<Rightarrow> nat \<Rightarrow> char" where
  "toHexFrom4bitChar c position =
     (let v = schar c;
          nibble = (if position = 1 then (if v < 0 then - ((- v) div 16) else v div 16)
                    else if position = 2 then int (byte_of c mod 16) else v) in
      if 0 \<le> nibble \<and> nibble \<le> 9 then char_of (nat (48 + nibble))
      else if 10 \<le> nibble \<and> nibble \<le> 15 then char_of (nat (65 + nibble - 10))
      else CHR ''0'')"

definition getIfMustBeURLEncoded :: "char \<Rightarrow> url_type \<Rightarrow> bool" where
  "getIfMustBeURLEncoded c t =
     (if t = QUOTEPRINT_ENCODING then
        (if byte_of c = 34 then True
         else if 32 \<le> schar c \<and> schar c \<le> 126 then False else True)
      else if isalnum c then False else True)"

fun calcURLEncodingExpandedStringSize :: "bytes \<Rightarrow> url_type \<Rightarrow> nat" where
  "calcURLEncodingExpandedStringSize [] t = 0"
| "calcURLEncodingExpandedStringSize (c # cs) t =
     (if getIfMustBeURLEncoded c t then 3 else 1) + calcURLEncodingExpandedStringSize cs t"

text \<open>The loop writes into a string resized beforehand; \<open>out\<close> is that string and \<open>x\<close> the write
  position.\<close>

fun toURL_loop :: "bytes \<Rightarrow> url_type \<Rightarrow> bytes \<Rightarrow> nat \<Rightarrow> bytes" where
  "toURL_loop [] t out x = out"
| "toURL_loop (c # cs) t out x =
     (if getIfMustBeURLEncoded c t
      then toURL_loop cs t (out[x := CHR ''%'', x + 1 := toHexFrom4bitChar c 1, x + 2 := toHexFrom4bitChar c 2]) (x + 3)
      else toURL_loop cs t (out[x := c]) (x + 1))"

definition toURL :: "bytes \<Rightarrow> url_type \<Rightarrow> bytes" where
  "toURL str t =
     (if str = [] then []
      else toURL_loop str t (replicate (calcURLEncodingExpandedStringSize str t) (CHR '' '')) 0)"

fun fromURL :: "bytes \<Rightarrow> bytes" where
  "fromURL (p # a # b # xs) =
     (if p = CHR ''%'' \<and> isxdigit a \<and> isxdigit b
      then char_of (hexToValue a * 16 + hexToValue b) # fromURL xs
      else p # fromURL (a # b # xs))"
| "fromURL (p # xs) = p # fromURL xs"
| "fromURL [] = []"

section \<open>Hexadecimal escapes\<close>

definition find_from :: "bytes \<Rightarrow> bytes \<Rightarrow> nat \<Rightarrow> nat option" where
  "find_from needle s pos =
     (if pos \<le> length s then map_option (\<lambda>i. pos + i) (find_sub needle (drop pos s)) else None)"

abbreviation hex_escape :: bytes where
  "hex_escape \<equiv> [CHR 0x5C, CHR ''0'', CHR ''x'']"

lemma find_from_bound: "find_from needle s pos = Some i \<Longrightarrow> pos \<le> i \<and> i + length needle \<le> length s"
  by (auto simp: find_from_def find_sub_Some_iff split: if_splits dest!: first_at_bound)

function replaceHexCodes_loop :: "bytes \<Rightarrow> nat \<Rightarrow> bytes" where
  "replaceHexCodes_loop content pos0 =
     (case find_from hex_escape content pos0 of
        None \<Rightarrow> content
      | Some pos \<Rightarrow>
          (if pos + 4 < length content \<and> isxdigit (content ! (pos + 3)) \<and> isxdigit (content ! (pos + 4))
           then replaceHexCodes_loop
                  (take pos content @ [hexPairToByte (content ! (pos + 3)) (content ! (pos + 4))]
                     @ drop (pos + 5) content) pos
           else replaceHexCodes_loop content (pos + 3)))"
  by pat_completeness auto
termination
  by (relation "measures [\<lambda>(content, pos). length content, \<lambda>(content, pos). length content + 1 - pos]")
    (auto dest!: find_from_bound)

declare replaceHexCodes_loop.simps [simp del]

definition replaceHexCodes :: "bytes \<Rightarrow> bytes" where
  "replaceHexCodes content = replaceHexCodes_loop content 0"

section \<open>Base32\<close>

abbreviation b32_chars :: bytes where
  "b32_chars \<equiv> ''ABCDEFGHIJKLMNOPQRSTUVWXYZ234567''"

text \<open>The bit loop: \<open>bits\<close> bits of \<open>val\<close> are shifted into the current byte; a full byte is
  pushed.\<close>

fun base32_bits :: "nat \<Rightarrow> nat \<Rightarrow> nat \<Rightarrow> nat \<Rightarrow> bytes \<Rightarrow> nat \<times> nat \<times> bytes" where
  "base32_bits val 0 currentByte bitsRemaining out = (currentByte, bitsRemaining, out)"
| "base32_bits val (Suc bits) currentByte bitsRemaining out =
     (let cb = currentByte * 2 + (val div 2 ^ bits) mod 2 in
      if bitsRemaining - 1 = 0 then base32_bits val bits 0 8 (out @ [char_of (cb mod 256)])
      else base32_bits val bits cb (bitsRemaining - 1) out)"

fun base32_loop :: "bytes \<Rightarrow> nat \<Rightarrow> nat \<Rightarrow> bytes \<Rightarrow> (nat \<times> nat \<times> bytes) option" where
  "base32_loop [] cb br out = Some (cb, br, out)"
| "base32_loop (c # cs) cb br out =
     (if c = CHR ''='' then Some (cb, br, out)
      else case find_sub [c] b32_chars of
        None \<Rightarrow> None
      | Some val \<Rightarrow> (case base32_bits val 5 cb br out of (cb', br', out') \<Rightarrow> base32_loop cs cb' br' out'))"

definition decodeFromBase32 :: "bytes \<Rightarrow> bytes" where
  "decodeFromBase32 s =
     (case base32_loop s 0 8 [] of
        None \<Rightarrow> []
      | Some (cb, br, out) \<Rightarrow>
          (if br \<noteq> 8 \<and> br < 5 then out @ [char_of (cb * 2 ^ (br + 3) mod 256)] else out))"

section \<open>Facts\<close>

lemma char_of_examples:
  "char_of (48 :: nat) = CHR ''0''" "char_of (57 :: nat) = CHR ''9''" "char_of (9 :: nat) = CHR 0x09"
  by code_simp+

lemma hex_digit_value: "n < 16 \<Longrightarrow> hexToValue (hex_digit n) = n"
  by (auto simp: hexToValue_def hex_digit_def)

lemma hex_digit_isxdigit: "n < 16 \<Longrightarrow> isxdigit (hex_digit n)"
  by (auto simp: hex_digit_def cctype_defs)

lemma byte_split: "char_of (byte_of c div 16 * 16 + byte_of c mod 16 :: nat) = c"
  by (metis char_of_byte_of div_mult_mod_eq)

lemma byte_div_16: "byte_of c div 16 < (16 :: nat)"
  using byte_of_less [of c] by (simp add: less_mult_imp_div_less del: byte_of_less)

lemma hexPair_digits: "hexPairToByte (hex_digit (byte_of c div 16)) (hex_digit (byte_of c mod 16)) = c"
  using byte_div_16 [of c] byte_split [of c]
  by (simp add: hexPairToByte_def hex_digit_isxdigit hex_digit_value)

lemma length_toHex: "length (toHex xs) = 2 * length xs"
  by (induction xs) (auto simp: toHex_def)

lemma fromHex_loop_toHex: "fromHex_loop (toHex xs) (length xs) = xs"
proof (induction xs)
  case (Cons c cs)
  then show ?case using byte_div_16 [of c] byte_split [of c]
    by (simp add: toHex_def hex_digit_value)
qed (simp add: toHex_def)

text \<open>The high nibble through a signed \<open>char\<close> is right for ASCII only.\<close>

lemma toHexFrom4bitChar_low: "toHexFrom4bitChar c 2 = hex_digit (byte_of c mod 16)"
proof -
  have "byte_of c mod 16 < (16 :: nat)" by simp
  then show ?thesis by (auto simp: toHexFrom4bitChar_def hex_digit_def nat_add_distrib Let_def)
qed

lemma toHexFrom4bitChar_high: "byte_of c < (128 :: nat) \<Longrightarrow> toHexFrom4bitChar c 1 = hex_digit (byte_of c div 16)"
proof -
  assume a: "byte_of c < (128 :: nat)"
  then have n: "byte_of c div 16 < (8 :: nat)" by (simp add: less_mult_imp_div_less)
  have "schar c div 16 = int (byte_of c div 16)" using a by (simp add: schar_def zdiv_int)
  then show ?thesis using a n
    by (simp add: toHexFrom4bitChar_def hex_digit_def Let_def nat_add_distrib schar_def)
qed

definition url_enc :: "url_type \<Rightarrow> char \<Rightarrow> bytes" where
  "url_enc t c =
     (if getIfMustBeURLEncoded c t then [CHR ''%'', toHexFrom4bitChar c 1, toHexFrom4bitChar c 2] else [c])"

lemma toURL_loop_exact:
  "toURL_loop cs t (pre @ replicate (calcURLEncodingExpandedStringSize cs t) z) (length pre) =
     pre @ concat (map (url_enc t) cs)"
proof (induction cs arbitrary: pre)
  case (Cons c cs)
  let ?n = "calcURLEncodingExpandedStringSize cs t"
  show ?case
  proof (cases "getIfMustBeURLEncoded c t")
    case True
    let ?e = "[CHR ''%'', toHexFrom4bitChar c 1, toHexFrom4bitChar c 2]"
    have "(pre @ replicate (3 + ?n) z)[length pre := CHR ''%'', length pre + 1 := toHexFrom4bitChar c 1,
        length pre + 2 := toHexFrom4bitChar c 2] = (pre @ ?e) @ replicate ?n z"
      by (simp add: list_update_append numeral_3_eq_3 numeral_2_eq_2)
    then show ?thesis using True Cons.IH [of "pre @ ?e"] by (simp add: url_enc_def eval_nat_numeral)
  next
    case False
    then show ?thesis using Cons.IH [of "pre @ [c]"] by (simp add: url_enc_def list_update_append)
  qed
qed simp

lemma toURL_concat: "toURL str t = concat (map (url_enc t) str)"
  using toURL_loop_exact [of str t "[]"] by (simp add: toURL_def)

lemma fromURL_enc:
  assumes "byte_of c < (128 :: nat)"
  shows "fromURL (url_enc STRICT_ENCODING c @ xs) = c # fromURL xs"
proof (cases "isalnum c")
  case True
  then have "c \<noteq> CHR ''%''" by (auto simp: cctype_defs)
  then have "fromURL (c # xs) = c # fromURL xs"
    by (cases "(c # xs)" rule: fromURL.cases) auto
  then show ?thesis using True by (simp add: url_enc_def getIfMustBeURLEncoded_def)
next
  case False
  then show ?thesis using byte_div_16 [of c] byte_split [of c]
    by (simp add: url_enc_def getIfMustBeURLEncoded_def toHexFrom4bitChar_high [OF assms, unfolded One_nat_def] toHexFrom4bitChar_low
        hex_digit_isxdigit hex_digit_value)
qed

section \<open>Properties\<close>

text \<open>Hexadecimal encoding followed by decoding into a buffer of the right size gives back the
  bytes, for every byte string.\<close>

theorem hex_roundtrip: "fromHex (toHex xs) (replicate (length xs) z) (length xs) = xs"
  using fromHex_loop_toHex [of xs] by (simp add: fromHex_def length_toHex Let_def)

text \<open>Percent encoding fills exactly the string it sized beforehand, and strict percent encoding
  followed by decoding gives back every ASCII string.\<close>

theorem url_roundtrip_ascii:
  assumes "\<forall>c\<in>set s. byte_of c < (128 :: nat)"
  shows "length (toURL s STRICT_ENCODING) = calcURLEncodingExpandedStringSize s STRICT_ENCODING \<and>
    fromURL (toURL s STRICT_ENCODING) = s"
proof
  show "length (toURL s STRICT_ENCODING) = calcURLEncodingExpandedStringSize s STRICT_ENCODING"
    unfolding toURL_concat by (induction s) (auto simp: url_enc_def)
  show "fromURL (toURL s STRICT_ENCODING) = s"
    unfolding toURL_concat using assms by (induction s) (auto simp: fromURL_enc)
qed

theorem url_roundtrip_ascii_witness:
  "fromURL (toURL ''a b/%41'' STRICT_ENCODING) = ''a b/%41''"
  using url_roundtrip_ascii [of "''a b/%41''"] by simp

text \<open>A byte above 127 does not survive: its high nibble is taken from a negative \<open>char\<close> and
  comes out as \<open>0\<close>.\<close>

theorem url_high_byte_lost:
  assumes "(128 :: nat) \<le> byte_of c"
  shows "toURL [c] STRICT_ENCODING = [CHR ''%'', CHR ''0'', hex_digit (byte_of c mod 16)] \<and>
    fromURL (toURL [c] STRICT_ENCODING) = [char_of (byte_of c mod 16 :: nat)]"
proof -
  have n: "byte_of c mod 16 < (16 :: nat)" by simp
  have "schar c < 0" using assms byte_of_less [of c] by (simp add: schar_def del: byte_of_less)
  then have "- ((- schar c) div 16) \<le> 0" by (simp add: pos_imp_zdiv_nonneg_iff)
  then have hi: "toHexFrom4bitChar c 1 = CHR ''0''"
    using \<open>schar c < 0\<close> by (cases "(- schar c) div 16 = 0") (simp_all add: toHexFrom4bitChar_def Let_def char_of_examples)
  have "\<not> isalnum c" using assms by (simp add: cctype_defs)
  then have "toURL [c] STRICT_ENCODING = [CHR ''%'', CHR ''0'', hex_digit (byte_of c mod 16)]"
    using hi toHexFrom4bitChar_low by (simp add: toURL_concat url_enc_def getIfMustBeURLEncoded_def)
  then show ?thesis using n by (simp add: hex_digit_isxdigit hex_digit_value)
    (simp add: cctype_defs hexToValue_def)
qed

theorem url_high_byte_lost_witness:
  "toURL [CHR 0xE9] STRICT_ENCODING = ''%09'' \<and> fromURL (toURL [CHR 0xE9] STRICT_ENCODING) = [CHR 0x09]"
  using url_high_byte_lost [of "CHR 0xE9"] by (simp add: hex_digit_def char_of_examples cctype_defs hexToValue_def)

text \<open>The base32 decoder appends a spurious zero byte to a value of two bytes: the four bits
  left over after the second byte are pushed as a byte of their own.\<close>

theorem base32_spurious_byte:
  "decodeFromBase32 ''MZXW6===''  = ''foo'' \<and> decodeFromBase32 ''MZXQ===='' = ''fo'' @ [CHR 0x00]"
  by code_simp

end
