(* ===== verification/Url_Codec.thy ===== *)
theory Url_Codec
  imports Chunks_Container Binary_Mem Helpers_Encoders
begin

text \<open>
  \<open>Memory/streamable_transformer.{h,cpp}\<close> and the percent codec of
  \<open>Protocol_HTTP/stream{decoder,encoder}_url.{h,cpp}\<close>. A transformer is a streamable object that
  passes what is written to it, transformed, to a destination; it is given by its \<open>writeTo\<close>
  and \<open>writeTransformerEOF\<close>. The decoder keeps up to three bytes of an unfinished escape; the
  encoder has no state. The encoder's loop repeats while its destination refuses a block without
  clearing the success flag, so it is a \<open>partial_function\<close>.
\<close>

section \<open>Transformers\<close>

record ('t, 'o) transformer =
  tr_writeTo :: "'t \<Rightarrow> 'o \<Rightarrow> bytes \<Rightarrow> (stream_exn + (nat \<times> 't \<times> 'o)) option"
  tr_writeEOF :: "'t \<Rightarrow> 'o \<Rightarrow> (stream_exn + (nat \<times> 't \<times> 'o)) option"

record ('t, 'o) trans_obj =
  to_state :: 't
  to_dest :: 'o
  to_status :: write_status

definition StreamableTransformer_write ::
  "('t, 'o) transformer \<Rightarrow> 'o streamable \<Rightarrow> ('t, 'o) trans_obj \<Rightarrow> bytes \<Rightarrow>
     (stream_exn + (nat option \<times> ('t, 'o) trans_obj)) option" where
  "StreamableTransformer_write T S x buf =
     (case (if buf = [] then tr_writeEOF T (to_state x) (to_dest x)
            else tr_writeTo T (to_state x) (to_dest x) buf) of
        None \<Rightarrow> None
      | Some (Inl e) \<Rightarrow> Some (Inl e)
      | Some (Inr (r, t', o')) \<Rightarrow>
          (let x' = x\<lparr>to_state := t', to_dest := o'\<rparr> in
           if \<not> succeed (so_status S o') then Some (Inr (None, x')) else Some (Inr (Some r, x'))))"

definition transformer_ops :: "('t, 'o) transformer \<Rightarrow> 'o streamable \<Rightarrow> ('t, 'o) trans_obj streamable" where
  "transformer_ops T S = \<lparr>so_write = StreamableTransformer_write T S, so_status = to_status,
     so_set_status = (\<lambda>x w. x\<lparr>to_status := w\<rparr>)\<rparr>"

text \<open>\<open>transform\<close>: the input's \<open>streamTo\<close> into the transformer is \<open>streamIn\<close>.\<close>

definition transform ::
  "('t, 'o) transformer \<Rightarrow> 'o streamable \<Rightarrow>
     (('t, 'o) trans_obj \<Rightarrow> (stream_exn + (bool \<times> ('t, 'o) trans_obj)) option) \<Rightarrow> 't \<Rightarrow> 'o \<Rightarrow>
     (stream_exn + ('t \<times> 'o)) option" where
  "transform T S streamIn t out =
     (case streamIn \<lparr>to_state = t, to_dest = out, to_status = ws_init\<rparr> of
        None \<Rightarrow> None
      | Some (Inl e) \<Rightarrow> Some (Inl e)
      | Some (Inr (_, x)) \<Rightarrow>
          (case writeEOF (transformer_ops T S) x of
             None \<Rightarrow> None
           | Some (Inl e) \<Rightarrow> Some (Inl e)
           | Some (Inr (_, x')) \<Rightarrow> Some (Inr (to_state x', to_dest x'))))"

text \<open>A write whose failure the codec reports through the status of the destination.\<close>

definition write_or_fail :: "'o streamable \<Rightarrow> 'o \<Rightarrow> bytes \<Rightarrow> (stream_exn + 'o) option" where
  "write_or_fail S dst buf =
     (case writeFullStream S dst buf of
        None \<Rightarrow> None
      | Some (Inl e) \<Rightarrow> Some (Inl e)
      | Some (Inr (ok, dst')) \<Rightarrow>
          (if ok then Some (Inr dst')
           else (case ws_add (so_status S dst') (- 1) of
                   Inl e \<Rightarrow> Some (Inl e) | Inr w \<Rightarrow> Some (Inr (so_set_status S dst' w)))))"

section \<open>The decoder\<close>

record url_decoder =
  m_bytes :: bytes
  m_filled :: nat

definition URL_Decoder_new :: url_decoder where
  "URL_Decoder_new = \<lparr>m_bytes = replicate 3 (CHR 0x00), m_filled = 0\<rparr>"

text \<open>\<open>getPlainBytesSize\<close> with its second result, the byte that ended the plain run.\<close>

fun dec_getPlainBytesSize :: "bytes \<Rightarrow> nat \<times> char option" where
  "dec_getPlainBytesSize [] = (0, None)"
| "dec_getPlainBytesSize (c # cs) =
     (if c = CHR ''%'' then (0, Some (CHR ''%''))
      else if c = CHR ''+'' then (0, Some (CHR ''+''))
      else (case dec_getPlainBytesSize cs of (n, b) \<Rightarrow> (Suc n, b)))"

definition flushBytesAndResetFilledCounter ::
  "'o streamable \<Rightarrow> url_decoder \<Rightarrow> 'o \<Rightarrow> (stream_exn + (bool \<times> url_decoder \<times> 'o)) option" where
  "flushBytesAndResetFilledCounter S d dst =
     (case writeFullStream S dst (take (m_filled d) (m_bytes d)) of
        None \<Rightarrow> None
      | Some (Inl e) \<Rightarrow> Some (Inl e)
      | Some (Inr (r, dst')) \<Rightarrow> Some (Inr (r, d\<lparr>m_filled := 0\<rparr>, dst')))"

definition URL_Decoder_writeTo ::
  "'o streamable \<Rightarrow> url_decoder \<Rightarrow> 'o \<Rightarrow> bytes \<Rightarrow> (stream_exn + (nat \<times> url_decoder \<times> 'o)) option" where
  "URL_Decoder_writeTo S d dst data =
     (if data = [] then
        (if m_filled d \<noteq> 0 then
           (case ws_add (so_status S dst) (- 1) of
              Inl e \<Rightarrow> Some (Inl e) | Inr w \<Rightarrow> Some (Inr (0, d, so_set_status S dst w)))
         else Some (Inr (0, d, dst)))
      else if m_filled d = 0 then
        (case dec_getPlainBytesSize data of (plainBytes, byteDetected) \<Rightarrow>
           (if plainBytes > 0 then
              (case write_or_fail S dst (take plainBytes data) of
                 None \<Rightarrow> None | Some (Inl e) \<Rightarrow> Some (Inl e) | Some (Inr dst') \<Rightarrow> Some (Inr (plainBytes, d, dst')))
            else if byteDetected = Some (CHR ''%'') then
              Some (Inr (1, d\<lparr>m_bytes := (m_bytes d)[0 := CHR ''%''], m_filled := 1\<rparr>, dst))
            else if byteDetected = Some (CHR ''+'') then
              (let d' = d\<lparr>m_bytes := (m_bytes d)[0 := CHR '' '']\<rparr> in
               case write_or_fail S dst (take 1 (m_bytes d')) of
                 None \<Rightarrow> None | Some (Inl e) \<Rightarrow> Some (Inl e) | Some (Inr dst') \<Rightarrow> Some (Inr (1, d', dst')))
            else Some (Inr (0, d, dst))))
      else if m_filled d = 1 then
        (let d' = d\<lparr>m_bytes := (m_bytes d)[1 := hd data], m_filled := 2\<rparr> in
         if \<not> isxdigit (m_bytes d' ! 1) then
           (case flushBytesAndResetFilledCounter S d' dst of
              None \<Rightarrow> None | Some (Inl e) \<Rightarrow> Some (Inl e)
            | Some (Inr (_, d'', dst')) \<Rightarrow> Some (Inr (1, d'', dst')))
         else Some (Inr (1, d', dst)))
      else if m_filled d = 2 then
        (let d' = d\<lparr>m_bytes := (m_bytes d)[2 := hd data]\<rparr> in
         if \<not> isxdigit (m_bytes d' ! 2) then
           (case flushBytesAndResetFilledCounter S (d'\<lparr>m_filled := 3\<rparr>) dst of
              None \<Rightarrow> None | Some (Inl e) \<Rightarrow> Some (Inl e)
            | Some (Inr (_, d'', dst')) \<Rightarrow> Some (Inr (1, d'', dst')))
         else
           (case write_or_fail S dst [hexPairToByte (m_bytes d' ! 1) (m_bytes d' ! 2)] of
              None \<Rightarrow> None | Some (Inl e) \<Rightarrow> Some (Inl e)
            | Some (Inr dst') \<Rightarrow> Some (Inr (1, d'\<lparr>m_filled := 0\<rparr>, dst'))))
      else Some (Inr (0, d, dst)))"

definition URL_Decoder_writeTransformerEOF ::
  "'o streamable \<Rightarrow> url_decoder \<Rightarrow> 'o \<Rightarrow> (stream_exn + (nat \<times> url_decoder \<times> 'o)) option" where
  "URL_Decoder_writeTransformerEOF S d dst =
     (case flushBytesAndResetFilledCounter S d dst of
        None \<Rightarrow> None | Some (Inl e) \<Rightarrow> Some (Inl e)
      | Some (Inr (r, d', dst')) \<Rightarrow> Some (Inr (of_bool r, d', dst')))"

definition url_decoder :: "'o streamable \<Rightarrow> (url_decoder, 'o) transformer" where
  "url_decoder S = \<lparr>tr_writeTo = URL_Decoder_writeTo S, tr_writeEOF = URL_Decoder_writeTransformerEOF S\<rparr>"

section \<open>The encoder\<close>

definition shouldEncodeThisByte :: "char \<Rightarrow> bool" where
  "shouldEncodeThisByte b \<longleftrightarrow> \<not> isalnum b"

fun enc_getPlainBytesSize :: "bytes \<Rightarrow> nat" where
  "enc_getPlainBytesSize [] = 0"
| "enc_getPlainBytesSize (c # cs) = (if shouldEncodeThisByte c then 0 else Suc (enc_getPlainBytesSize cs))"

text \<open>The three characters of \<open>snprintf\<close> with \<open>%%%02X\<close>.\<close>

definition encodedByte :: "char \<Rightarrow> bytes" where
  "encodedByte c = [CHR ''%'', hex_digit (byte_of c div 16), hex_digit (byte_of c mod 16)]"

partial_function (option) url_enc_loop ::
  "'o streamable \<Rightarrow> 'o \<Rightarrow> bytes \<Rightarrow> nat \<Rightarrow> (stream_exn + (nat \<times> 'o)) option" where
  "url_enc_loop S dst buf readenBytes =
     (if readenBytes < length buf then
        (let plain = enc_getPlainBytesSize (drop readenBytes buf) in
         case (if plain > 0 then writeFullStream S dst (take plain (drop readenBytes buf))
               else writeFullStream S dst (encodedByte (buf ! readenBytes))) of
           None \<Rightarrow> None
         | Some (Inl e) \<Rightarrow> Some (Inl e)
         | Some (Inr (ok, dst')) \<Rightarrow>
             (let r = (if ok then readenBytes + (if plain > 0 then plain else 1) else readenBytes) in
              if \<not> succeed (so_status S dst') then Some (Inr (r, dst'))
              else url_enc_loop S dst' buf r))
      else Some (Inr (readenBytes, dst)))"

definition URL_Encoder_writeTo ::
  "'o streamable \<Rightarrow> unit \<Rightarrow> 'o \<Rightarrow> bytes \<Rightarrow> (stream_exn + (nat \<times> unit \<times> 'o)) option" where
  "URL_Encoder_writeTo S u dst buf =
     (if length buf > size_max div 3 - 3 then
        (case ws_add (so_status S dst) (- 1) of
           Inl e \<Rightarrow> Some (Inl e) | Inr w \<Rightarrow> Some (Inr (size_max, u, so_set_status S dst w)))
      else (case url_enc_loop S dst buf 0 of
              None \<Rightarrow> None | Some (Inl e) \<Rightarrow> Some (Inl e)
            | Some (Inr (n, dst')) \<Rightarrow> Some (Inr (n, u, dst'))))"

definition url_encoder :: "'o streamable \<Rightarrow> (unit, 'o) transformer" where
  "url_encoder S = \<lparr>tr_writeTo = URL_Encoder_writeTo S, tr_writeEOF = (\<lambda>u dst. Some (Inr (0, u, dst)))\<rparr>"

section \<open>Strings\<close>

definition decodeURLStr :: "bytes \<Rightarrow> (stream_exn + bytes) option" where
  "decodeURLStr url =
     (let S = B_sink (chunks_ops no_mmap); T = url_decoder S; m = B_MEM_new url (length url) in
      case transform T S (B_streamTo (B_MEM_copyToStreamableObject2 (transformer_ops T S)) mem_ops
                             (transformer_ops T S) m) URL_Decoder_new B_Chunks_new of
        None \<Rightarrow> None
      | Some (Inl e) \<Rightarrow> Some (Inl e)
      | Some (Inr (_, out)) \<Rightarrow>
          Some (Inr (if succeed (m_writeStatus out) then B_toStringEx (chunks_ops no_mmap) out else url)))"

definition encodeURLStr :: "bytes \<Rightarrow> (stream_exn + bytes) option" where
  "encodeURLStr url =
     (let S = B_sink (chunks_ops no_mmap); T = url_encoder S; m = B_MEM_new url (length url) in
      case transform T S (B_streamTo (B_MEM_copyToStreamableObject2 (transformer_ops T S)) mem_ops
                             (transformer_ops T S) m) () B_Chunks_new of
        None \<Rightarrow> None
      | Some (Inl e) \<Rightarrow> Some (Inl e)
      | Some (Inr (_, out)) \<Rightarrow>
          Some (Inr (if succeed (m_writeStatus out) then B_toStringEx (chunks_ops no_mmap) out else url)))"

section \<open>The reference decoder\<close>

text \<open>One byte with the pending part of an escape: the output and the new pending part.\<close>

definition url_step :: "bytes \<Rightarrow> char \<Rightarrow> bytes \<times> bytes" where
  "url_step p c =
     (case p of
        [] \<Rightarrow> (if c = CHR ''%'' then ([], [c]) else if c = CHR ''+'' then ('' '', []) else ([c], []))
      | [_] \<Rightarrow> (if isxdigit c then ([], p @ [c]) else (p @ [c], []))
      | _ # a # _ \<Rightarrow> (if isxdigit c then ([hexPairToByte a c], []) else (p @ [c], [])))"

fun url_run :: "bytes \<Rightarrow> bytes \<Rightarrow> bytes \<times> bytes" where
  "url_run p [] = ([], p)"
| "url_run p (c # cs) =
     (case url_step p c of (os, p') \<Rightarrow> (case url_run p' cs of (os', p'') \<Rightarrow> (os @ os', p'')))"

definition url_decode :: "bytes \<Rightarrow> bytes" where
  "url_decode xs = (case url_run [] xs of (os, p) \<Rightarrow> os @ p)"

definition pending_ok :: "bytes \<Rightarrow> bool" where
  "pending_ok p \<longleftrightarrow> p = [] \<or> p = ''%'' \<or> (\<exists>a. p = [CHR ''%'', a] \<and> isxdigit a)"

definition dec_rel :: "url_decoder \<Rightarrow> bytes \<Rightarrow> bool" where
  "dec_rel d p \<longleftrightarrow> length (m_bytes d) = 3 \<and> m_filled d = length p \<and> take (length p) (m_bytes d) = p \<and> pending_ok p"

lemma url_run_append:
  "url_run p (xs @ ys) =
     (case url_run p xs of (os, p') \<Rightarrow> (case url_run p' ys of (os', p'') \<Rightarrow> (os @ os', p'')))"
  by (induction p xs rule: url_run.induct) (auto split: prod.split)

lemma url_step_length:
  "pending_ok p \<Longrightarrow> url_step p c = (os, p') \<Longrightarrow> length os + length p' \<le> Suc (length p) \<and> pending_ok p'"
  by (auto simp: pending_ok_def url_step_def split: if_splits)

lemma url_run_length:
  "pending_ok p \<Longrightarrow> url_run p xs = (os, p') \<Longrightarrow> length os + length p' \<le> length p + length xs \<and> pending_ok p'"
proof (induction p xs arbitrary: os p' rule: url_run.induct)
  case (2 p c cs)
  obtain o1 p1 where 1: "url_step p c = (o1, p1)" by fastforce
  obtain o2 p2 where 2: "url_run p1 cs = (o2, p2)" by fastforce
  have "length o2 + length p2 \<le> length p1 + length cs \<and> pending_ok p2"
    using "2.IH" [OF 1 [symmetric]] url_step_length [OF "2.prems"(1) 1] 2 by blast
  then show ?case using "2.prems" 1 2 url_step_length [OF "2.prems"(1) 1] by auto
qed auto

lemma plain_run:
  "dec_getPlainBytesSize xs = (n, b) \<Longrightarrow> n \<le> length xs \<and> url_run [] (take n xs) = (take n xs, []) \<and>
     (n < length xs \<longrightarrow> b = Some (xs ! n) \<and> xs ! n \<in> {CHR ''%'', CHR ''+''})"
proof (induction xs arbitrary: n b)
  case (Cons c cs)
  obtain m b' where m: "dec_getPlainBytesSize cs = (m, b')" by fastforce
  then show ?case using Cons.IH [OF m] Cons.prems by (auto simp: url_step_def split: if_splits)
qed simp

lemma three_bytes: "length xs = 3 \<Longrightarrow> \<exists>a b c. xs = [a, b, c]"
  by (auto simp: numeral_3_eq_3 length_Suc_conv)

section \<open>The decoder computes it\<close>

context sink
begin

lemma write_or_fail_total:
  assumes "ready s n" "length xs \<le> n" "length xs < two64"
  shows "\<exists>s'. write_or_fail S s xs = Some (Inr s') \<and> content s' = content s @ xs \<and> ready s' (n - length xs)"
  using writeFullStream_total [OF assms(3,1,2)] by (auto simp: write_or_fail_def)

lemma flush_total:
  assumes "ready s n" "length p \<le> n" "length (m_bytes d) = 3" "m_filled d = length p"
    "take (length p) (m_bytes d) = p"
  shows "\<exists>s'. flushBytesAndResetFilledCounter S d s = Some (Inr (True, d\<lparr>m_filled := 0\<rparr>, s')) \<and>
    content s' = content s @ p \<and> ready s' (n - length p)"
proof -
  have "length p \<le> 3" using assms(3,5) by (metis length_take min.cobounded1)
  then show ?thesis using writeFullStream_total [of p s n] assms
    by (auto simp: flushBytesAndResetFilledCounter_def)
qed

lemma decoder_step:
  assumes d: "dec_rel d p" and r: "ready s n" and ne: "data \<noteq> []"
    and len: "length p + length data \<le> n" "length data < two64"
  shows "\<exists>k d' s'. URL_Decoder_writeTo S d s data = Some (Inr (k, d', s')) \<and> 0 < k \<and> k \<le> length data \<and>
    dec_rel d' (snd (url_run p (take k data))) \<and>
    content s' = content s @ fst (url_run p (take k data)) \<and>
    ready s' (n - length (fst (url_run p (take k data))))"
proof -
  obtain c cs where data: "data = c # cs" using ne by (cases data) auto
  obtain x y z where mb: "m_bytes d = [x, y, z]" using d three_bytes [of "m_bytes d"] by (auto simp: dec_rel_def)
  have "pending_ok p" using d by (simp add: dec_rel_def)
  then consider "p = []" | "p = ''%''" | a where "p = [CHR ''%'', a]" "isxdigit a" by (auto simp: pending_ok_def)
  then show ?thesis
  proof cases
    case 1
    then have mf: "m_filled d = 0" using d by (simp add: dec_rel_def)
    obtain pn b where pb: "dec_getPlainBytesSize data = (pn, b)" by fastforce
    note pr = plain_run [OF pb]
    show ?thesis
    proof (cases "pn > 0")
      case True
      have lt: "length (take pn data) \<le> n" "length (take pn data) < two64" using len by auto
      obtain s' where "write_or_fail S s (take pn data) = Some (Inr s')" "content s' = content s @ take pn data"
        "ready s' (n - length (take pn data))" using write_or_fail_total [OF r lt] by blast
      then show ?thesis using True pr pb mf ne d 1 by (auto simp: URL_Decoder_writeTo_def)
    next
      case False
      then have b: "b = Some c" "c \<in> {CHR ''%'', CHR ''+''}" using pr data by auto
      show ?thesis
      proof (cases "c = CHR ''%''")
        case True
        then show ?thesis using False b pb mf ne mb 1 r
          by (auto simp: URL_Decoder_writeTo_def data url_step_def dec_rel_def pending_ok_def
              intro!: exI [of _ "1 :: nat"])
      next
        case plus: False
        obtain s' where s': "write_or_fail S s '' '' = Some (Inr s')" "content s' = content s @ '' ''"
          "ready s' (n - 1)" using write_or_fail_total [OF r, of "'' ''"] len data by auto
        then show ?thesis using False b plus pb mf ne mb 1
          by (auto simp: URL_Decoder_writeTo_def data url_step_def dec_rel_def pending_ok_def Let_def
              intro!: exI [of _ "1 :: nat"])
      qed
    qed
  next
    case 2
    then have mf: "m_filled d = 1" "x = CHR ''%''" using d mb by (auto simp: dec_rel_def)
    show ?thesis
    proof (cases "isxdigit c")
      case True
      then show ?thesis using mf mb r 2
        by (auto simp: URL_Decoder_writeTo_def data url_step_def dec_rel_def pending_ok_def Let_def
            intro!: exI [of _ "1 :: nat"])
    next
      case False
      let ?d = "d\<lparr>m_bytes := [x, c, z], m_filled := 2\<rparr>"
      obtain s' where "flushBytesAndResetFilledCounter S ?d s = Some (Inr (True, ?d\<lparr>m_filled := 0\<rparr>, s'))"
        "content s' = content s @ [CHR ''%'', c]" "ready s' (n - 2)"
        using flush_total [OF r, of "[CHR ''%'', c]" ?d] len data 2 mf by (auto simp: numeral_2_eq_2)
      then show ?thesis using False mf mb 2
        by (auto simp: URL_Decoder_writeTo_def data url_step_def dec_rel_def pending_ok_def Let_def numeral_2_eq_2
            intro!: exI [of _ "1 :: nat"])
    qed
  next
    case (3 a)
    then have mf: "m_filled d = 2" "x = CHR ''%''" "y = a" using d mb by (auto simp: dec_rel_def numeral_2_eq_2)
    show ?thesis
    proof (cases "isxdigit c")
      case True
      obtain s' where "write_or_fail S s [hexPairToByte a c] = Some (Inr s')"
        "content s' = content s @ [hexPairToByte a c]" "ready s' (n - 1)"
        using write_or_fail_total [OF r, of "[hexPairToByte a c]"] len data by auto
      then show ?thesis using True mf mb 3
        by (auto simp: URL_Decoder_writeTo_def data url_step_def dec_rel_def pending_ok_def Let_def
            intro!: exI [of _ "1 :: nat"])
    next
      case False
      let ?d = "d\<lparr>m_bytes := [x, y, c], m_filled := 3\<rparr>"
      obtain s' where "flushBytesAndResetFilledCounter S ?d s = Some (Inr (True, ?d\<lparr>m_filled := 0\<rparr>, s'))"
        "content s' = content s @ [CHR ''%'', a, c]" "ready s' (n - 3)"
        using flush_total [OF r, of "[CHR ''%'', a, c]" ?d] len data 3 mf by (auto simp: numeral_3_eq_3)
      then show ?thesis using False mf mb 3
        by (auto simp: URL_Decoder_writeTo_def data url_step_def dec_rel_def pending_ok_def Let_def numeral_3_eq_3
            intro!: exI [of _ "1 :: nat"])
    qed
  qed
qed

end

subsection \<open>The write loop, the blocks and the whole transformation\<close>

context sink
begin

abbreviation "decT \<equiv> transformer_ops (url_decoder S) S"

lemma decoder_write:
  assumes "dec_rel (to_state x) p" "ready (to_dest x) n" "data \<noteq> []" "length p + length data \<le> n"
    "length data < two64"
  shows "\<exists>k x'. so_write decT x data = Some (Inr (Some k, x')) \<and> 0 < k \<and> k \<le> length data \<and>
    to_status x' = to_status x \<and> dec_rel (to_state x') (snd (url_run p (take k data))) \<and>
    content (to_dest x') = content (to_dest x) @ fst (url_run p (take k data)) \<and>
    ready (to_dest x') (n - length (fst (url_run p (take k data))))"
proof -
  obtain k d' s' where st: "URL_Decoder_writeTo S (to_state x) (to_dest x) data = Some (Inr (k, d', s'))"
    "0 < k" "k \<le> length data" "dec_rel d' (snd (url_run p (take k data)))"
    "content s' = content (to_dest x) @ fst (url_run p (take k data))"
    "ready s' (n - length (fst (url_run p (take k data))))"
    using decoder_step [OF assms] by blast
  then show ?thesis using assms(3) ready_succeed [OF st(6)]
    by (intro exI [of _ k] exI [of _ "x\<lparr>to_state := d', to_dest := s'\<rparr>"])
      (simp add: transformer_ops_def StreamableTransformer_write_def url_decoder_def)
qed

lemma decoder_loop:
  assumes "length buf < two64" "w \<le> length buf" "dec_rel (to_state x) p" "ready (to_dest x) n"
    "length p + (length buf - w) \<le> n" "succeed (to_status x)"
  shows "\<exists>x'. writeFullLoop decT x buf w = Some (Inr (True, x')) \<and> to_status x' = to_status x \<and>
    dec_rel (to_state x') (snd (url_run p (drop w buf))) \<and>
    content (to_dest x') = content (to_dest x) @ fst (url_run p (drop w buf)) \<and>
    ready (to_dest x') (n - length (fst (url_run p (drop w buf))))"
  using assms
proof (induction "length buf - w" arbitrary: w x p n rule: less_induct)
  case less
  show ?case
  proof (cases "w < length buf")
    case False
    then show ?thesis using less.prems by (auto simp: writeFullLoop_done)
  next
    case True
    have ne: "drop w buf \<noteq> []" "length p + length (drop w buf) \<le> n" "length (drop w buf) < two64"
      using True less.prems(1,5) by auto
    obtain k x1 where w1: "so_write decT x (drop w buf) = Some (Inr (Some k, x1))" "0 < k" "k \<le> length (drop w buf)"
      "to_status x1 = to_status x" "dec_rel (to_state x1) (snd (url_run p (take k (drop w buf))))"
      "content (to_dest x1) = content (to_dest x) @ fst (url_run p (take k (drop w buf)))"
      "ready (to_dest x1) (n - length (fst (url_run p (take k (drop w buf)))))"
      using decoder_write [OF less.prems(3,4) ne] by blast
    obtain o1 p1 where r1: "url_run p (take k (drop w buf)) = (o1, p1)" by fastforce
    have pk: "pending_ok p" using less.prems(3) by (simp add: dec_rel_def)
    have l1: "length o1 + length p1 \<le> length p + k" using url_run_length [OF pk r1] w1(3) by simp
    have wk: "add64 w k = w + k" "w + k \<le> length buf" using w1(3) less.prems(1) True by (auto simp: add64_small)
    have "\<exists>x'. writeFullLoop decT x1 buf (w + k) = Some (Inr (True, x')) \<and> to_status x' = to_status x1 \<and>
        dec_rel (to_state x') (snd (url_run p1 (drop (w + k) buf))) \<and>
        content (to_dest x') = content (to_dest x1) @ fst (url_run p1 (drop (w + k) buf)) \<and>
        ready (to_dest x') (n - length o1 - length (fst (url_run p1 (drop (w + k) buf))))"
      using w1 wk r1 l1 less.prems True by (intro less.hyps) auto
    then obtain x' where x': "writeFullLoop decT x1 buf (w + k) = Some (Inr (True, x'))" "to_status x' = to_status x1"
      "dec_rel (to_state x') (snd (url_run p1 (drop (w + k) buf)))"
      "content (to_dest x') = content (to_dest x1) @ fst (url_run p1 (drop (w + k) buf))"
      "ready (to_dest x') (n - length o1 - length (fst (url_run p1 (drop (w + k) buf))))" by blast
    have "drop w buf = take k (drop w buf) @ drop (w + k) buf"
      by (metis add.commute append_take_drop_id drop_drop)
    then have run: "url_run p (drop w buf) =
        (o1 @ fst (url_run p1 (drop (w + k) buf)), snd (url_run p1 (drop (w + k) buf)))"
      using url_run_append [of p "take k (drop w buf)" "drop (w + k) buf"] r1 by (simp split: prod.split)
    have "writeFullLoop decT x buf w = writeFullLoop decT x1 buf (w + k)"
      using writeFullLoop_step [OF True w1(1)] w1(4) less.prems(6) wk(1) by (simp add: transformer_ops_def)
    then show ?thesis using x' w1(4,6) run r1 by (auto simp: diff_diff_add)
  qed
qed

lemma decoder_blocks:
  assumes "dec_rel (to_state x) p" "ready (to_dest x) n" "succeed (to_status x)"
    "length p + length (concat cks) \<le> n" "m + length (concat cks) < two64"
  shows "\<exists>x'. copyToStreamableObjectUsingCleanVector decT x cks m = Some (Inr (Some (m + length (concat cks)), x')) \<and>
    succeed (to_status x') \<and> dec_rel (to_state x') (snd (url_run p (concat cks))) \<and>
    content (to_dest x') = content (to_dest x) @ fst (url_run p (concat cks)) \<and>
    ready (to_dest x') (n - length (fst (url_run p (concat cks))))"
  using assms
proof (induction cks arbitrary: x p n m)
  case (Cons ck cks)
  have a: "length ck < two64" "length p + (length ck - 0) \<le> n" using Cons.prems by auto
  obtain x1 where x1: "writeFullLoop decT x ck 0 = Some (Inr (True, x1))" "to_status x1 = to_status x"
    "dec_rel (to_state x1) (snd (url_run p ck))" "content (to_dest x1) = content (to_dest x) @ fst (url_run p ck)"
    "ready (to_dest x1) (n - length (fst (url_run p ck)))"
    using decoder_loop [OF a(1) _ Cons.prems(1,2) a(2) Cons.prems(3)] by auto
  obtain o1 p1 where r1: "url_run p ck = (o1, p1)" by fastforce
  have pk: "pending_ok p" using Cons.prems(1) by (simp add: dec_rel_def)
  have l1: "length o1 + length p1 \<le> length p + length ck" using url_run_length [OF pk r1] by simp
  have add: "safe_add64 (length ck) m = Inr (length ck + m)" using Cons.prems(5) by (simp add: safe_add64_eq)
  have "\<exists>x'. copyToStreamableObjectUsingCleanVector decT x1 cks (length ck + m) =
        Some (Inr (Some (length ck + m + length (concat cks)), x')) \<and>
      succeed (to_status x') \<and> dec_rel (to_state x') (snd (url_run p1 (concat cks))) \<and>
      content (to_dest x') = content (to_dest x1) @ fst (url_run p1 (concat cks)) \<and>
      ready (to_dest x') (n - length o1 - length (fst (url_run p1 (concat cks))))"
    using x1 r1 l1 Cons.prems by (intro Cons.IH) auto
  then show ?case using x1 r1 add url_run_append [of p ck "concat cks"]
    by (auto simp: writeFullStream_def diff_diff_add add.commute add.left_commute split: prod.split)
qed auto

lemma decoder_eof:
  assumes "dec_rel (to_state x) p" "ready (to_dest x) n" "length p \<le> n"
  shows "\<exists>x'. writeEOF decT x = Some (Inr (True, x')) \<and> content (to_dest x') = content (to_dest x) @ p \<and>
    ready (to_dest x') (n - length p)"
proof -
  obtain s' where s': "flushBytesAndResetFilledCounter S (to_state x) (to_dest x) =
      Some (Inr (True, (to_state x)\<lparr>m_filled := 0\<rparr>, s'))" "content s' = content (to_dest x) @ p" "ready s' (n - length p)"
    using flush_total [OF assms(2,3), of "to_state x"] assms(1) by (auto simp: dec_rel_def)
  then show ?thesis using ready_succeed [OF s'(3)]
    by (auto simp: writeEOF_def transformer_ops_def StreamableTransformer_write_def url_decoder_def
        URL_Decoder_writeTransformerEOF_def)
qed

text \<open>Any input that delivers its content in blocks is decoded by the reference decoder, however
  the blocks are cut.\<close>

lemma decoder_transform:
  assumes "ready out n" "length (concat cks) \<le> n" "length (concat cks) < two64"
    and "\<forall>x r x'. copyToStreamableObjectUsingCleanVector decT x cks 0 = Some (Inr (r, x')) \<longrightarrow>
      (\<exists>b. streamIn x = Some (Inr (b, x')))"
  shows "\<exists>d' out'. transform (url_decoder S) S streamIn URL_Decoder_new out = Some (Inr (d', out')) \<and>
    content out' = content out @ url_decode (concat cks) \<and> ready out' (n - length (url_decode (concat cks)))"
proof -
  let ?x = "\<lparr>to_state = URL_Decoder_new, to_dest = out, to_status = ws_init\<rparr>"
  have init: "dec_rel (to_state ?x) []" "ready (to_dest ?x) n" "succeed (to_status ?x)"
    using assms(1) by (simp_all add: dec_rel_def URL_Decoder_new_def pending_ok_def ws_init_def)
  obtain os p where r: "url_run [] (concat cks) = (os, p)" by fastforce
  have l: "length os + length p \<le> length (concat cks)"
    using url_run_length [OF _ r] by (simp add: pending_ok_def)
  obtain x1 where x1: "copyToStreamableObjectUsingCleanVector decT ?x cks 0 = Some (Inr (Some (length (concat cks)), x1))"
    "dec_rel (to_state x1) p" "content (to_dest x1) = content out @ os" "ready (to_dest x1) (n - length os)"
    using decoder_blocks [OF init, of cks 0] assms(2,3) r by auto
  have lp: "length p \<le> n - length os" using l assms(2) by linarith
  obtain x2 where x2: "writeEOF decT x1 = Some (Inr (True, x2))" "content (to_dest x2) = content (to_dest x1) @ p"
    "ready (to_dest x2) (n - length os - length p)"
    using decoder_eof [OF x1(2,4) lp] by blast
  obtain b where "streamIn ?x = Some (Inr (b, x1))" using assms(4) x1(1) by blast
  then show ?thesis using x1 x2 r by (simp add: transform_def url_decode_def diff_diff_add)
qed

end

section \<open>The encoder\<close>

definition url_encode :: "bytes \<Rightarrow> bytes" where
  "url_encode xs = concat (map (\<lambda>c. if shouldEncodeThisByte c then encodedByte c else [c]) xs)"

lemma url_encode_Nil [simp]: "url_encode [] = []"
  by (simp add: url_encode_def)

lemma url_encode_append: "url_encode (xs @ ys) = url_encode xs @ url_encode ys"
  by (simp add: url_encode_def)

lemma length_url_encode: "length (url_encode xs) \<le> 3 * length xs"
  by (induction xs) (auto simp: url_encode_def encodedByte_def)

lemma enc_plain:
  "enc_getPlainBytesSize xs \<le> length xs \<and> url_encode (take (enc_getPlainBytesSize xs) xs) = take (enc_getPlainBytesSize xs) xs"
  by (induction xs) (auto simp: url_encode_def)

lemma enc_plain_zero: "enc_getPlainBytesSize xs = 0 \<Longrightarrow> xs \<noteq> [] \<Longrightarrow> shouldEncodeThisByte (hd xs)"
  by (cases xs) (auto split: if_splits)

text \<open>What is encoded is decoded, byte by byte.\<close>

lemma decode_encoded_byte: "url_run [] (if shouldEncodeThisByte c then encodedByte c else [c]) = ([c], [])"
proof (cases "shouldEncodeThisByte c")
  case True
  then show ?thesis using byte_div_16 [of c]
    by (simp add: encodedByte_def url_step_def hex_digit_isxdigit hexPair_digits)
next
  case False
  then have "c \<noteq> CHR ''%''" "c \<noteq> CHR ''+''" by (auto simp: shouldEncodeThisByte_def cctype_defs)
  then show ?thesis using False by (simp add: url_step_def)
qed

lemma url_run_encode: "url_run [] (url_encode xs) = (xs, [])"
proof (induction xs)
  case (Cons c cs)
  then show ?case
    using url_run_append [of "[]" "if shouldEncodeThisByte c then encodedByte c else [c]" "url_encode cs"]
      decode_encoded_byte [of c]
    by (simp add: url_encode_def)
qed simp

lemma hex_digit_isalnum: "n < 16 \<Longrightarrow> isalnum (hex_digit n)"
  using hex_digit_isxdigit [of n] by (auto simp: cctype_defs)

lemma url_encode_alphabet: "c \<in> set (url_encode xs) \<Longrightarrow> c = CHR ''%'' \<or> isalnum c"
  by (auto simp: url_encode_def encodedByte_def shouldEncodeThisByte_def byte_div_16 hex_digit_isalnum split: if_splits)

lemma url_decode_encode: "url_decode (url_encode xs) = xs"
  by (simp add: url_decode_def url_run_encode)

context sink
begin

abbreviation "encT \<equiv> transformer_ops (url_encoder S) S"

lemma encoder_loop:
  assumes "length buf < two64" "w \<le> length buf" "ready s n" "length (url_encode (drop w buf)) \<le> n"
  shows "\<exists>s'. url_enc_loop S s buf w = Some (Inr (length buf, s')) \<and>
    content s' = content s @ url_encode (drop w buf) \<and> ready s' (n - length (url_encode (drop w buf)))"
  using assms(2-)
proof (induction "length buf - w" arbitrary: w s n rule: less_induct)
  case less
  show ?case
  proof (cases "w < length buf")
    case False
    then show ?thesis using less.prems by (subst url_enc_loop.simps) auto
  next
    case True
    define pl where "pl = enc_getPlainBytesSize (drop w buf)"
    define k where "k = (if pl > 0 then pl else 1)"
    define blk where "blk = (if pl > 0 then take pl (drop w buf) else encodedByte (buf ! w))"
    have ne: "drop w buf \<noteq> []" "hd (drop w buf) = buf ! w" using True by (simp_all add: hd_drop_conv_nth)
    have k: "0 < k" "w + k \<le> length buf" using True enc_plain [of "drop w buf"] by (auto simp: k_def pl_def)
    have "url_encode (take k (drop w buf)) = blk"
    proof (cases "pl > 0")
      case True
      then show ?thesis using enc_plain [of "drop w buf"] by (simp add: k_def blk_def pl_def)
    next
      case False
      then have "shouldEncodeThisByte (buf ! w)" using enc_plain_zero [of "drop w buf"] ne by (simp add: pl_def)
      moreover have "take 1 (drop w buf) = [buf ! w]" using ne by (simp add: take_Suc)
      ultimately show ?thesis using False by (simp add: k_def blk_def url_encode_def)
    qed
    moreover have "drop w buf = take k (drop w buf) @ drop (w + k) buf"
      by (metis add.commute append_take_drop_id drop_drop)
    ultimately have enc: "url_encode (drop w buf) = blk @ url_encode (drop (w + k) buf)"
      by (metis url_encode_append)
    have "length blk < two64" using assms(1) by (auto simp: blk_def encodedByte_def)
    then obtain s1 where s1: "writeFullStream S s blk = Some (Inr (True, s1))" "content s1 = content s @ blk"
      "ready s1 (n - length blk)" using writeFullStream_total [of blk s n] less.prems(2,3) enc by auto
    have "\<exists>s'. url_enc_loop S s1 buf (w + k) = Some (Inr (length buf, s')) \<and>
        content s' = content s1 @ url_encode (drop (w + k) buf) \<and>
        ready s' (n - length blk - length (url_encode (drop (w + k) buf)))"
      using k True s1 less.prems enc by (intro less.hyps) auto
    then obtain s' where s': "url_enc_loop S s1 buf (w + k) = Some (Inr (length buf, s'))"
      "content s' = content s1 @ url_encode (drop (w + k) buf)"
      "ready s' (n - length blk - length (url_encode (drop (w + k) buf)))" by blast
    have "url_enc_loop S s buf w = url_enc_loop S s1 buf (w + k)"
      using True s1(1) ready_succeed [OF s1(3)]
      by (subst url_enc_loop.simps) (simp add: Let_def pl_def [symmetric] blk_def k_def split: if_splits)
    then show ?thesis using s' s1 enc by (simp add: diff_diff_add)
  qed
qed

lemma encoder_write:
  assumes "ready (to_dest x) n" "data \<noteq> []" "length (url_encode data) \<le> n" "length data \<le> size_max div 3 - 3"
  shows "\<exists>x'. so_write encT x data = Some (Inr (Some (length data), x')) \<and> to_status x' = to_status x \<and>
    content (to_dest x') = content (to_dest x) @ url_encode data \<and>
    ready (to_dest x') (n - length (url_encode data))"
proof -
  have "length data < two64" using assms(4) by (simp add: size_max_def)
  then obtain s' where s': "url_enc_loop S (to_dest x) data 0 = Some (Inr (length data, s'))"
    "content s' = content (to_dest x) @ url_encode data" "ready s' (n - length (url_encode data))"
    using encoder_loop [of data 0 "to_dest x" n] assms by auto
  then show ?thesis using assms(2,4) ready_succeed [OF s'(3)]
    by (intro exI [of _ "x\<lparr>to_state := (), to_dest := s'\<rparr>"])
      (simp add: transformer_ops_def StreamableTransformer_write_def url_encoder_def URL_Encoder_writeTo_def)
qed

lemma encoder_blocks:
  assumes "ready (to_dest x) n" "succeed (to_status x)" "length (url_encode (concat cks)) \<le> n"
    "m + length (concat cks) \<le> size_max div 3 - 3"
  shows "\<exists>x'. copyToStreamableObjectUsingCleanVector encT x cks m = Some (Inr (Some (m + length (concat cks)), x')) \<and>
    content (to_dest x') = content (to_dest x) @ url_encode (concat cks) \<and>
    ready (to_dest x') (n - length (url_encode (concat cks)))"
  using assms
proof (induction cks arbitrary: x n m)
  case (Cons ck cks)
  have lim: "length ck + m < two64" using Cons.prems(4) by (simp add: size_max_def)
  have add: "safe_add64 (length ck) m = Inr (length ck + m)" using lim by (simp add: safe_add64_eq)
  obtain x1 where x1: "writeFullStream encT x ck = Some (Inr (True, x1))" "to_status x1 = to_status x"
    "content (to_dest x1) = content (to_dest x) @ url_encode ck" "ready (to_dest x1) (n - length (url_encode ck))"
  proof (cases "ck = []")
    case True
    then show thesis using that [of x] Cons.prems by (simp add: writeFullStream_def writeFullLoop_done)
  next
    case False
    have "length (url_encode ck) \<le> n" "length ck \<le> size_max div 3 - 3"
      using Cons.prems(3,4) by (auto simp: url_encode_append)
    from encoder_write [OF Cons.prems(1) False this] obtain x1 where
      x1: "so_write encT x ck = Some (Inr (Some (length ck), x1))" "to_status x1 = to_status x"
      "content (to_dest x1) = content (to_dest x) @ url_encode ck" "ready (to_dest x1) (n - length (url_encode ck))"
      by blast
    have "writeFullStream encT x ck = Some (Inr (True, x1))"
      using writeFullLoop_step [of 0 ck encT x "length ck" x1] x1(1,2) False Cons.prems(2) lim
      by (simp add: writeFullStream_def transformer_ops_def add64_small writeFullLoop_done)
    then show thesis using that x1 by blast
  qed
  have "\<exists>x'. copyToStreamableObjectUsingCleanVector encT x1 cks (length ck + m) =
        Some (Inr (Some (length ck + m + length (concat cks)), x')) \<and>
      content (to_dest x') = content (to_dest x1) @ url_encode (concat cks) \<and>
      ready (to_dest x') (n - length (url_encode ck) - length (url_encode (concat cks)))"
    using x1 Cons.prems by (intro Cons.IH) (auto simp: url_encode_append)
  then show ?case using x1 add
    by (auto simp: url_encode_append diff_diff_add add.commute add.left_commute)
qed auto

lemma encoder_transform:
  assumes "ready out n" "length (url_encode (concat cks)) \<le> n" "length (concat cks) \<le> size_max div 3 - 3"
    and "\<forall>x r x'. copyToStreamableObjectUsingCleanVector encT x cks 0 = Some (Inr (r, x')) \<longrightarrow>
      (\<exists>b. streamIn x = Some (Inr (b, x')))"
  shows "\<exists>out'. transform (url_encoder S) S streamIn () out = Some (Inr ((), out')) \<and>
    content out' = content out @ url_encode (concat cks) \<and> ready out' (n - length (url_encode (concat cks)))"
proof -
  let ?x = "\<lparr>to_state = (), to_dest = out, to_status = ws_init\<rparr>"
  have init: "ready (to_dest ?x) n" "succeed (to_status ?x)" using assms(1) by (simp_all add: ws_init_def)
  obtain x1 where x1: "copyToStreamableObjectUsingCleanVector encT ?x cks 0 = Some (Inr (Some (length (concat cks)), x1))"
    "content (to_dest x1) = content out @ url_encode (concat cks)"
    "ready (to_dest x1) (n - length (url_encode (concat cks)))"
    using encoder_blocks [OF init, of cks 0] assms(2,3) by auto
  obtain b where "streamIn ?x = Some (Inr (b, x1))" using assms(4) x1(1) by blast
  moreover have "writeEOF encT x1 = Some (Inr (True, x1))"
    using ready_succeed [OF x1(3)]
    by (simp add: writeEOF_def transformer_ops_def StreamableTransformer_write_def url_encoder_def)
  ultimately show ?thesis using x1 by (simp add: transform_def)
qed

end

section \<open>Strings and containers\<close>

lemma mem_stream_blocks:
  assumes "mem_ok m"
    "copyToStreamableObjectUsingCleanVector O' x (mem_blocks (linearMem m) (length (mem_content m))) 0 = Some (Inr (r, x'))"
  shows "\<exists>b. B_streamTo (B_MEM_copyToStreamableObject2 O') mem_ops O' m x = Some (Inr (b, x'))"
proof -
  have sz: "v_size mem_ops m = length (mem_content m)" "length (mem_content m) < two64"
    using mem.size_content mem.content_bound assms(1) by auto
  show ?thesis
  proof (cases "mem_content m = []")
    case True
    then show ?thesis using assms sz
      by (auto simp: B_streamTo_def B_appendTo_def Let_def overflow_sum_iff mem_blocks.simps)
  next
    case False
    then have "B_appendTo (B_MEM_copyToStreamableObject2 O') mem_ops O' m x size_max 0 = Some (Inr (r, x'))"
      using assms sz mem_size [OF assms(1)]
      by (auto simp: B_appendTo_def B_MEM_copyToStreamableObject2_def Let_def overflow_sum_iff)
    then show ?thesis by (simp add: B_streamTo_def)
  qed
qed

lemma chunks_stream_blocks:
  assumes "chunks_wf c"
    "copyToStreamableObjectUsingCleanVector O' x (slice_chunks (m_chunksVector c) 0 (length (chunks_content c))) 0 =
       Some (Inr (r, x'))" "chunks_content c \<noteq> []"
  shows "\<exists>b. B_streamTo (B_Chunks_copyToStreamableObject2 M mmA O') (chunks_ops M) O' c x = Some (Inr (b, x'))"
proof -
  have sz: "B_Chunks_size M c = length (chunks_content c)" "length (chunks_content c) < two64"
    "m_mmapContainer c = None" using assms(1) chunks_size by (auto simp: chunks_wf_def)
  then have "B_appendTo (B_Chunks_copyToStreamableObject2 M mmA O') (chunks_ops M) O' c x size_max 0 = Some (Inr (r, x'))"
    using assms by (auto simp: B_appendTo_def B_Chunks_copyToStreamableObject2_def Let_def overflow_sum_iff)
  then show ?thesis by (simp add: B_streamTo_def)
qed

abbreviation CS :: "unit b_chunks streamable" where
  "CS \<equiv> B_sink (chunks_ops no_mmap)"

lemma new_ready: "n \<le> 262144 \<Longrightarrow> chunks_ready (B_Chunks_new :: unit b_chunks) n \<and> chunks_ok (B_Chunks_new :: unit b_chunks)"
  using chunks_ok_new by (auto simp: chunks_ready_def has_room_def chunks_ok_def)
    (simp_all add: B_Chunks_new_def ws_init_def size_max_def)

lemma string_blocks:
  assumes "length url < 4294967296"
  shows "mem_ok (B_MEM_new url (length url))" "mem_content (B_MEM_new url (length url)) = url"
    "concat (mem_blocks (linearMem (B_MEM_new url (length url))) (length url)) = url"
proof -
  show ok: "mem_ok (B_MEM_new url (length url))" "mem_content (B_MEM_new url (length url)) = url"
    using mem_new_ok [of "length url" url] assms by simp_all
  have "length url \<le> length (linearMem (B_MEM_new url (length url)))"
    using arg_cong [OF ok(2), of length] by (simp add: mem_content_def)
  from mem_blocks_concat [OF this]
  show "concat (mem_blocks (linearMem (B_MEM_new url (length url))) (length url)) = url"
    using ok by (simp add: mem_content_def mem_ok_def)
      (metis length_take min.absorb2 min.cobounded1 take_all_iff order_refl)
qed

lemma decodeURLStr_eq:
  assumes "length url \<le> 262144"
  shows "decodeURLStr url = Some (Inr (url_decode url))"
proof -
  let ?m = "B_MEM_new url (length url)"
  let ?cks = "mem_blocks (linearMem ?m) (length url)"
  have "length url < 4294967296" using assms by simp
  note sb = string_blocks [OF this]
  have in_ok: "\<forall>x r x'. copyToStreamableObjectUsingCleanVector (transformer_ops (url_decoder CS) CS) x ?cks 0 =
      Some (Inr (r, x')) \<longrightarrow> (\<exists>b. B_streamTo (B_MEM_copyToStreamableObject2 (transformer_ops (url_decoder CS) CS))
        mem_ops (transformer_ops (url_decoder CS) CS) ?m x = Some (Inr (b, x')))"
    using mem_stream_blocks [OF sb(1)] sb(2) by auto
  have len: "length (concat ?cks) \<le> 262144" "length (concat ?cks) < two64" using sb(3) assms by simp_all
  obtain d' out' where out': "transform (url_decoder CS) CS
      (B_streamTo (B_MEM_copyToStreamableObject2 (transformer_ops (url_decoder CS) CS)) mem_ops
        (transformer_ops (url_decoder CS) CS) ?m) URL_Decoder_new B_Chunks_new = Some (Inr (d', out'))"
    "chunks_content out' = url_decode url" "chunks_ok out'" "succeed (m_writeStatus out')"
    using osink.decoder_transform [where M = no_mmap and cks = ?cks
        and streamIn = "B_streamTo (B_MEM_copyToStreamableObject2 (transformer_ops (url_decoder CS) CS)) mem_ops
          (transformer_ops (url_decoder CS) CS) ?m", OF new_ready [OF order_refl] len in_ok] sb(3)
    by (auto simp: chunks_ready_def)
  then show ?thesis using ra.toStringEx_content [OF out'(3), of no_mmap]
    by (simp add: decodeURLStr_def Let_def)
qed

lemma encodeURLStr_eq:
  assumes "length (url_encode url) \<le> 262144"
  shows "encodeURLStr url = Some (Inr (url_encode url))"
proof -
  let ?m = "B_MEM_new url (length url)"
  let ?cks = "mem_blocks (linearMem ?m) (length url)"
  have "length url \<le> length (url_encode url)"
    by (induction url) (auto simp: url_encode_def encodedByte_def)
  then have lt: "length url < 4294967296" "length url \<le> size_max div 3 - 3" using assms by (simp_all add: size_max_def)
  note sb = string_blocks [OF lt(1)]
  have in_ok: "\<forall>x r x'. copyToStreamableObjectUsingCleanVector (transformer_ops (url_encoder CS) CS) x ?cks 0 =
      Some (Inr (r, x')) \<longrightarrow> (\<exists>b. B_streamTo (B_MEM_copyToStreamableObject2 (transformer_ops (url_encoder CS) CS))
        mem_ops (transformer_ops (url_encoder CS) CS) ?m x = Some (Inr (b, x')))"
    using mem_stream_blocks [OF sb(1)] sb(2) by auto
  have len: "length (url_encode (concat ?cks)) \<le> 262144" "length (concat ?cks) \<le> size_max div 3 - 3"
    using sb(3) assms lt(2) by simp_all
  obtain out' where out': "transform (url_encoder CS) CS
      (B_streamTo (B_MEM_copyToStreamableObject2 (transformer_ops (url_encoder CS) CS)) mem_ops
        (transformer_ops (url_encoder CS) CS) ?m) () B_Chunks_new = Some (Inr ((), out'))"
    "chunks_content out' = url_encode url" "chunks_ok out'" "succeed (m_writeStatus out')"
    using osink.encoder_transform [where M = no_mmap and cks = ?cks
        and streamIn = "B_streamTo (B_MEM_copyToStreamableObject2 (transformer_ops (url_encoder CS) CS)) mem_ops
          (transformer_ops (url_encoder CS) CS) ?m", OF new_ready [OF order_refl] len in_ok] sb(3)
    by (auto simp: chunks_ready_def)
  then show ?thesis using ra.toStringEx_content [OF out'(3), of no_mmap]
    by (simp add: encodeURLStr_def Let_def)
qed

section \<open>A destination that refuses\<close>

definition refusing :: "'m b_chunks \<Rightarrow> bool" where
  "refusing c \<longleftrightarrow> m_readOnly c \<or> m_maxSize c = 0"

lemma refusing_write:
  assumes "refusing c" "xs \<noteq> []"
  shows "\<exists>c'. writeFullStream (B_sink (chunks_ops M)) c xs = Some (Inr (False, c')) \<and> refusing c' \<and>
    succeed (m_writeStatus c')"
proof -
  let ?S = "B_sink (chunks_ops M)" and ?w = "(m_writeStatus c)\<lparr>succeed := False, finished := True, writeError := - 1\<rparr>"
  have "B_append (chunks_ops M) c xs = (None, c)"
    using assms by (auto simp: B_append_def refusing_def Let_def)
  then have "so_write ?S c xs = Some (Inr (None, c\<lparr>m_writeStatus := ?w\<rparr>))"
    by (simp add: B_sink_def B_write_def ws_add_def)
  then have "writeFullStream ?S c xs = Some (Inr (False, fail_flag ?S (c\<lparr>m_writeStatus := ?w\<rparr>)))"
    using assms(2) writeFullLoop_fail [of 0 xs ?S c None] by (simp add: writeFullStream_def)
  then show ?thesis using assms(1)
    by (simp add: fail_flag_def bool_incr_def B_sink_def refusing_def)
qed

lemma encoder_never_returns:
  assumes "url_enc_loop S c buf w = Some y"
  shows "S = B_sink (chunks_ops M) \<longrightarrow> refusing c \<longrightarrow> length buf \<le> w"
  using assms
proof (rule url_enc_loop.raw_induct [rotated, of S c buf w y])
  fix loop S c buf w y
  assume IH: "\<And>S c buf w y. loop S c buf w = Some y \<Longrightarrow>
      S = B_sink (chunks_ops M) \<longrightarrow> refusing c \<longrightarrow> length buf \<le> w"
    and body: "(if w < length buf then
        (let plain = enc_getPlainBytesSize (drop w buf) in
         case (if plain > 0 then writeFullStream S c (take plain (drop w buf))
               else writeFullStream S c (encodedByte (buf ! w))) of
           None \<Rightarrow> None
         | Some (Inl e) \<Rightarrow> Some (Inl e)
         | Some (Inr (ok, dst')) \<Rightarrow>
             (let r = (if ok then w + (if plain > 0 then plain else 1) else w) in
              if \<not> succeed (so_status S dst') then Some (Inr (r, dst'))
              else loop S dst' buf r))
      else Some (Inr (w, c))) = Some y"
  show "S = B_sink (chunks_ops M) \<longrightarrow> refusing c \<longrightarrow> length buf \<le> w"
  proof (intro impI, rule ccontr)
    assume S: "S = B_sink (chunks_ops M)" and c: "refusing c" and "\<not> length buf \<le> w"
    then have w: "w < length buf" by simp
    define pl where "pl = enc_getPlainBytesSize (drop w buf)"
    define blk where "blk = (if pl > 0 then take pl (drop w buf) else encodedByte (buf ! w))"
    have "blk \<noteq> []" using w by (auto simp: blk_def encodedByte_def)
    from refusing_write [OF c this, of M] obtain c' where
      c': "writeFullStream S c blk = Some (Inr (False, c'))" "refusing c'" "succeed (m_writeStatus c')"
      unfolding S by blast
    have "loop S c' buf w = Some y"
      using body w c' S
      by (auto simp: Let_def pl_def [symmetric] blk_def B_sink_def split: if_splits)
    from IH [OF this] show False using S c'(2) w by simp
  qed
qed

section \<open>The codec's properties\<close>



text \<open>What the streaming decoder writes depends only on the bytes it is given, not on how
  the source container has cut them into chunks: escapes that straddle chunk borders decode as if
  the text were one block, and the decoder's state machine agrees with the byte-at-a-time reference
  decoder.\<close>

theorem url_decoder_any_chunking:
  fixes c :: "'m b_chunks"
  assumes "chunks_wf c" "chunks_content c \<noteq> []" "chunks_ready out (length (chunks_content c))" "chunks_ok out"
  shows "\<exists>d' out'. transform (url_decoder CS) CS
      (B_streamTo (B_Chunks_copyToStreamableObject2 M mmA (transformer_ops (url_decoder CS) CS)) (chunks_ops M)
        (transformer_ops (url_decoder CS) CS) c) URL_Decoder_new out = Some (Inr (d', out')) \<and>
    chunks_content out' = chunks_content out @ url_decode (chunks_content c)"
proof -
  let ?T = "transformer_ops (url_decoder CS) CS"
  let ?cks = "slice_chunks (m_chunksVector c) 0 (length (chunks_content c))"
  have cc: "concat ?cks = chunks_content c"
    using slice_chunks_concat [of 0 "length (chunks_content c)" "m_chunksVector c"] by (simp add: chunks_content_def)
  have len: "length (concat ?cks) \<le> length (chunks_content c)" "length (concat ?cks) < two64"
    using cc assms(1) by (simp_all add: chunks_wf_def)
  have in_ok: "\<forall>x r x'. copyToStreamableObjectUsingCleanVector ?T x ?cks 0 = Some (Inr (r, x')) \<longrightarrow>
      (\<exists>b. B_streamTo (B_Chunks_copyToStreamableObject2 M mmA ?T) (chunks_ops M) ?T c x = Some (Inr (b, x')))"
    by (intro allI impI) (rule chunks_stream_blocks [OF assms(1) _ assms(2)])
  show ?thesis
    using osink.decoder_transform [where M = no_mmap and cks = ?cks and out = out
        and streamIn = "B_streamTo (B_Chunks_copyToStreamableObject2 M mmA ?T) (chunks_ops M) ?T c",
        OF _ len in_ok] assms(3,4) cc by auto
qed

theorem url_decoder_any_chunking_witness:
  "\<exists>d' out'. transform (url_decoder CS) CS
      (B_streamTo (B_Chunks_copyToStreamableObject2 no_mmap (\<lambda>_ o' _ _. Some (Inr (None, o')))
        (transformer_ops (url_decoder CS) CS)) (chunks_ops no_mmap)
        (transformer_ops (url_decoder CS) CS)
        (demo_chunks\<lparr>m_chunksVector := [\<lparr>ck_data = ''a%4'', ck_offset = 0\<rparr>, \<lparr>ck_data = ''1+b'', ck_offset = 3\<rparr>]\<rparr>))
        URL_Decoder_new B_Chunks_new = Some (Inr (d', out')) \<and>
    chunks_content out' = ''aA b''"
proof -
  let ?c = "demo_chunks\<lparr>m_chunksVector := [\<lparr>ck_data = ''a%4'', ck_offset = 0\<rparr>, \<lparr>ck_data = ''1+b'', ck_offset = 3\<rparr>]\<rparr>"
  have c: "chunks_content ?c = ''a%41+b''" "chunks_wf ?c"
    by (simp_all add: chunks_content_def chunks_wf_def demo_chunks_def B_Chunks_new_def)
  have "url_decode ''a%41+b'' = ''aA b''" by code_simp
  moreover have "chunks_ready (B_Chunks_new :: unit b_chunks) (length (chunks_content ?c))" "chunks_content ?c \<noteq> []"
    using new_ready [of "length (chunks_content ?c)"] unfolding c(1) by simp_all
  ultimately show ?thesis
    using url_decoder_any_chunking [OF c(2), of B_Chunks_new no_mmap "\<lambda>_ o' _ _. Some (Inr (None, o'))"]
      chunks_ok_new unfolding c(1) by simp
qed

text \<open>The encoder never returns when its destination refuses to store: a full write that fails
  flips the cleared success flag back to true, so the loop that is meant to stop on a failed
  destination repeats the same block for ever.\<close>

theorem encoder_hangs_on_refusal:
  assumes "refusing c" "buf \<noteq> []" "length buf \<le> size_max div 3 - 3"
  shows "URL_Encoder_writeTo (B_sink (chunks_ops M)) () c buf = None"
proof -
  have "url_enc_loop (B_sink (chunks_ops M)) c buf 0 = None"
    using encoder_never_returns [of "B_sink (chunks_ops M)" c buf 0 _ M] assms
    by (cases "url_enc_loop (B_sink (chunks_ops M)) c buf 0") auto
  then show ?thesis using assms(3) by (simp add: URL_Encoder_writeTo_def)
qed

theorem encoder_hangs_on_refusal_witness:
  "URL_Encoder_writeTo (B_sink (chunks_ops no_mmap)) () (demo_chunks\<lparr>m_readOnly := True\<rparr>) ''ab'' = None"
  by (rule encoder_hangs_on_refusal) (simp_all add: refusing_def size_max_def)

text \<open>A container that refuses a block (it is read-only, or its limit is zero) makes the full
  write return false, and yet leaves the status flag on success: the failing \<open>write\<close> clears the
  flag and the loop around it then adds \<open>-1\<close> to the cleared \<open>bool\<close>, which sets it.\<close>

theorem refused_write_leaves_success:
  assumes "refusing c" "xs \<noteq> []"
  shows "\<exists>c'. writeFullStream (B_sink (chunks_ops M)) c xs = Some (Inr (False, c')) \<and>
    succeed (m_writeStatus c')"
  using refusing_write [OF assms, of M] by blast

theorem refused_write_leaves_success_witness:
  "\<exists>c'. writeFullStream (B_sink (chunks_ops no_mmap)) (demo_chunks\<lparr>m_readOnly := True\<rparr>) ''ab'' = Some (Inr (False, c')) \<and>
    succeed (m_writeStatus c')"
  by (rule refused_write_leaves_success) (simp_all add: refusing_def)

end
