(* ===== verification/Concurrency.thy ===== *)
theory Concurrency
  imports Main
begin

text \<open>
  What the models of \<open>src/Mantids30/Threads\<close> share. A system is a labelled step relation; a
  critical section between taking the mutex and releasing it (or waiting on a condition variable)
  is one step, and the threads are a list of program counters. \<open>run\<close> is a finite execution with
  its labels. The locales give the two proof principles the components use: an invariant of the
  executions, and a measure that the steps of the library itself decrease.
\<close>

section \<open>Executions\<close>

inductive run :: "('s \<Rightarrow> 'e \<Rightarrow> 's \<Rightarrow> bool) \<Rightarrow> 's \<Rightarrow> 'e list \<Rightarrow> 's \<Rightarrow> bool" for step where
  run_refl: "run step s [] s"
| run_step: "run step s tr s' \<Longrightarrow> step s' e s'' \<Longrightarrow> run step s (tr @ [e]) s''"

inductive_cases run_NilE: "run step s [] s'"

lemma run_Nil_iff [simp]: "run step s [] s' \<longleftrightarrow> s' = s"
  by (auto elim: run_NilE intro: run_refl)

lemma run_single: "step s e s' \<Longrightarrow> run step s [e] s'"
  using run_step [OF run_refl, of step s e s'] by simp

lemma run_trans:
  assumes "run step s tr s'" "run step s' tr' s''"
  shows "run step s (tr @ tr') s''"
  using assms(2,1) by (induction rule: run.induct) (auto simp flip: append_assoc intro: run_step)

lemma run_Cons: "step s e s' \<Longrightarrow> run step s' tr s'' \<Longrightarrow> run step s (e # tr) s''"
  using run_trans [OF run_single] by fastforce

lemma run_mono:
  assumes "run step s tr s'" "\<And>x e y. step x e y \<Longrightarrow> step' x e y"
  shows "run step' s tr s'"
  using assms by (induction rule: run.induct) (auto intro: run.intros)

lemma run_snocE:
  assumes "run step s (tr @ [e]) s''"
  obtains s' where "run step s tr s'" "step s' e s''"
  using assms by (cases rule: run.cases) auto

text \<open>A property of the executions from an initial state: it may speak about the labels so far.\<close>

locale history_invariant =
  fixes init :: 's and step :: "'s \<Rightarrow> 'e \<Rightarrow> 's \<Rightarrow> bool" and inv :: "'e list \<Rightarrow> 's \<Rightarrow> bool"
  assumes inv_init: "inv [] init"
    and inv_step: "\<And>tr s e s'. inv tr s \<Longrightarrow> step s e s' \<Longrightarrow> inv (tr @ [e]) s'"
begin

lemma inv_run: "run step init tr s \<Longrightarrow> inv tr s"
proof (induction tr arbitrary: s rule: rev_induct)
  case Nil then show ?case by (simp add: inv_init)
next
  case (snoc e tr) then show ?case by (auto elim!: run_snocE intro: inv_step)
qed

end

text \<open>Steps of the library that are not calls, time-outs or spurious wake-ups: when a measure
  decreases they come to an end, in a state where every thread is idle, has returned or waits.\<close>

locale settles =
  fixes internal :: "'s \<Rightarrow> 'e \<Rightarrow> 's \<Rightarrow> bool" and weight :: "'s \<Rightarrow> nat"
  assumes decreases: "\<And>s e s'. internal s e s' \<Longrightarrow> weight s' < weight s"
begin

lemma internal_run_bound: "run internal s tr s' \<Longrightarrow> weight s' + length tr \<le> weight s"
proof (induction tr arbitrary: s' rule: rev_induct)
  case (snoc e tr)
  then obtain s1 where "run internal s tr s1" "internal s1 e s'" by (auto elim: run_snocE)
  then show ?case using snoc.IH decreases by fastforce
qed simp

lemma internal_run_ends: "\<exists>tr s'. run internal s tr s' \<and> (\<nexists>e s''. internal s' e s'')"
proof (induction s rule: measure_induct_rule [of weight])
  case (less s)
  show ?case
  proof (cases "\<exists>e s''. internal s e s''")
    case True
    then obtain e s1 where "internal s e s1" by blast
    then show ?thesis using less decreases run_trans run_single by metis
  next
    case False then show ?thesis by (metis run_refl)
  qed
qed

end

section \<open>Notification\<close>

text \<open>\<open>notify_one\<close> on a condition variable: one of the threads that wait there, any one, goes on;
  it does nothing if nobody waits.\<close>

definition notify_one :: "('p \<Rightarrow> bool) \<Rightarrow> ('p \<Rightarrow> 'p) \<Rightarrow> (nat \<Rightarrow> 'p) \<Rightarrow> (nat \<Rightarrow> 'p) \<Rightarrow> bool" where
  "notify_one waits wake pc pc' \<longleftrightarrow>
     (\<exists>u. waits (pc u) \<and> pc' = pc(u := wake (pc u))) \<or> ((\<forall>u. \<not> waits (pc u)) \<and> pc' = pc)"

text \<open>\<open>notify_all\<close> wakes every one of them.\<close>

definition notify_all :: "('p \<Rightarrow> bool) \<Rightarrow> ('p \<Rightarrow> 'p) \<Rightarrow> (nat \<Rightarrow> 'p) \<Rightarrow> nat \<Rightarrow> 'p" where
  "notify_all waits wake pc = (\<lambda>u. if waits (pc u) then wake (pc u) else pc u)"

lemma notify_one_exists: "\<exists>pc'. notify_one waits wake pc pc'"
  by (auto simp: notify_one_def)

lemma notify_one_pointwise:
  "notify_one waits wake pc pc' \<Longrightarrow> pc' u = pc u \<or> waits (pc u) \<and> pc' u = wake (pc u)"
  unfolding notify_one_def by (metis fun_upd_apply)

section \<open>Counting threads\<close>

abbreviation total :: "('p \<Rightarrow> nat) \<Rightarrow> 'p list \<Rightarrow> nat" where
  "total w pcs \<equiv> sum_list (map w pcs)"

lemma total_update: "t < length pcs \<Longrightarrow> total w (pcs[t := x]) + w (pcs ! t) = total w pcs + w x"
proof (induction pcs arbitrary: t)
  case (Cons p ps) then show ?case by (cases t) auto
qed simp

lemma total_update2:
  assumes "t < length pcs" "u < length pcs" "t \<noteq> u"
  shows "total w (pcs[t := x, u := y]) + w (pcs ! t) + w (pcs ! u) = total w pcs + w x + w y"
  using total_update [of t pcs w x] total_update [of u "pcs[t := x]" w y] assms by simp

lemma total_pos: "p \<in> set pcs \<Longrightarrow> w p \<le> total w pcs"
  by (induction pcs) auto

lemma total_zero [simp]: "(\<And>p. p \<in> set pcs \<Longrightarrow> w p = 0) \<Longrightarrow> total w pcs = 0"
  by (induction pcs) auto

end
