(* ===== verification/Safe_Queue.thy ===== *)
theory Safe_Queue
  imports Concurrency Mantids_Prelude
begin

text \<open>
  \<open>Threads/safe_queue.h\<close> and \<open>Threads/safe_sharedqueue.h\<close>: the bounded queues with blocking
  \<open>push\<close> and \<open>pop\<close>. The two classes have the same body; \<open>SharedQueue::push\<close> also refuses a null
  pointer before it takes the mutex, which is the argument \<open>shared\<close> of the steps. A pointer is an
  option, null is \<open>None\<close>. A thread waits in the loop, is woken by \<open>notify_one\<close> (which picks any
  waiting thread), may wake up spuriously, or runs into its time-out.
\<close>

section \<open>The queue and its critical sections\<close>

text \<open>\<open>m_maxItems\<close> points to the local limit until it is set to an external one; \<open>Some n\<close> is
  the value behind the external pointer.\<close>

record 'a safe_queue =
  m_queue :: "'a option list"
  m_localMaxItems :: nat
  m_externalMaxItems :: "nat option"

definition Queue_new :: "'a safe_queue" where
  "Queue_new = \<lparr>m_queue = [], m_localMaxItems = size_max, m_externalMaxItems = None\<rparr>"

definition setMaxItemsAsExternalPointer :: "'a safe_queue \<Rightarrow> nat \<Rightarrow> 'a safe_queue" where
  "setMaxItemsAsExternalPointer q n = q\<lparr>m_externalMaxItems := Some n\<rparr>"

definition setMaxItems :: "'a safe_queue \<Rightarrow> nat \<Rightarrow> 'a safe_queue" where
  "setMaxItems q n = (case m_externalMaxItems q of
     None \<Rightarrow> q\<lparr>m_localMaxItems := n\<rparr> | Some _ \<Rightarrow> q\<lparr>m_externalMaxItems := Some n\<rparr>)"

definition getMaxItems :: "'a safe_queue \<Rightarrow> nat" where
  "getMaxItems q = (case m_externalMaxItems q of None \<Rightarrow> m_localMaxItems q | Some n \<Rightarrow> n)"

definition Queue_size :: "'a safe_queue \<Rightarrow> nat" where
  "Queue_size q = length (m_queue q)"

definition Queue_empty :: "'a safe_queue \<Rightarrow> bool" where
  "Queue_empty q = (m_queue q = [])"

text \<open>Where a thread is: before the loop test of a call (to take the mutex), waiting on
  \<open>m_notFullCond\<close> or \<open>m_notEmptyCond\<close>, past the unlock and before the notification, or
  returned.\<close>

datatype 'a queue_pc =
    Q_Idle
  | Push_Loop "'a option" nat | Push_Wait "'a option" nat | Push_Notify | Push_Ret bool
  | Pop_Loop nat | Pop_Wait nat | Pop_Notify "'a option" | Pop_Ret "'a option"

definition push_section :: "'a option \<Rightarrow> nat \<Rightarrow> 'a safe_queue \<Rightarrow> 'a queue_pc \<times> 'a safe_queue" where
  "push_section item tmout_msecs q =
     (if length (m_queue q) \<ge> getMaxItems q
      then (if tmout_msecs = 0 then (Push_Ret False, q) else (Push_Wait item tmout_msecs, q))
      else (Push_Notify, q\<lparr>m_queue := m_queue q @ [item]\<rparr>))"

definition pop_section :: "nat \<Rightarrow> 'a safe_queue \<Rightarrow> 'a queue_pc \<times> 'a safe_queue" where
  "pop_section tmout_msecs q = (case m_queue q of
     [] \<Rightarrow> (if tmout_msecs = 0 then (Pop_Ret None, q) else (Pop_Wait tmout_msecs, q))
   | r # rest \<Rightarrow> (Pop_Notify r, q\<lparr>m_queue := rest\<rparr>))"

definition push_call :: "bool \<Rightarrow> 'a option \<Rightarrow> nat \<Rightarrow> 'a queue_pc" where
  "push_call shared item tmout_msecs =
     (if shared \<and> item = None then Push_Ret False else Push_Loop item tmout_msecs)"

section \<open>The threads\<close>

record 'a queue_system =
  qs_queue :: "'a safe_queue"
  qs_pc :: "'a queue_pc list"

datatype 'a queue_event = Q_In "'a option" | Q_Out "'a option" | Q_Tau | Q_Limit nat

text \<open>What the threads inside \<open>push\<close> and \<open>pop\<close> do by themselves.\<close>

inductive queue_internal :: "'a queue_system \<Rightarrow> 'a queue_event \<Rightarrow> 'a queue_system \<Rightarrow> bool" where
  push_enter:
    "t < length pc \<Longrightarrow> pc ! t = Push_Loop x tm \<Longrightarrow> push_section x tm q = (p, q') \<Longrightarrow>
     e = (if p = Push_Notify then Q_In x else Q_Tau) \<Longrightarrow>
     queue_internal \<lparr>qs_queue = q, qs_pc = pc\<rparr> e \<lparr>qs_queue = q', qs_pc = pc[t := p]\<rparr>"
| pop_enter:
    "t < length pc \<Longrightarrow> pc ! t = Pop_Loop tm \<Longrightarrow> pop_section tm q = (p, q') \<Longrightarrow>
     e = (case p of Pop_Notify r \<Rightarrow> Q_Out r | _ \<Rightarrow> Q_Tau) \<Longrightarrow>
     queue_internal \<lparr>qs_queue = q, qs_pc = pc\<rparr> e \<lparr>qs_queue = q', qs_pc = pc[t := p]\<rparr>"
| push_notify_one:
    "t < length pc \<Longrightarrow> pc ! t = Push_Notify \<Longrightarrow> u < length pc \<Longrightarrow> pc ! u = Pop_Wait tm \<Longrightarrow>
     queue_internal \<lparr>qs_queue = q, qs_pc = pc\<rparr> Q_Tau \<lparr>qs_queue = q, qs_pc = pc[t := Push_Ret True, u := Pop_Loop tm]\<rparr>"
| push_notify_none:
    "t < length pc \<Longrightarrow> pc ! t = Push_Notify \<Longrightarrow> \<forall>tm. Pop_Wait tm \<notin> set pc \<Longrightarrow>
     queue_internal \<lparr>qs_queue = q, qs_pc = pc\<rparr> Q_Tau \<lparr>qs_queue = q, qs_pc = pc[t := Push_Ret True]\<rparr>"
| pop_notify_one:
    "t < length pc \<Longrightarrow> pc ! t = Pop_Notify r \<Longrightarrow> u < length pc \<Longrightarrow> pc ! u = Push_Wait x tm \<Longrightarrow>
     queue_internal \<lparr>qs_queue = q, qs_pc = pc\<rparr> Q_Tau \<lparr>qs_queue = q, qs_pc = pc[t := Pop_Ret r, u := Push_Loop x tm]\<rparr>"
| pop_notify_none:
    "t < length pc \<Longrightarrow> pc ! t = Pop_Notify r \<Longrightarrow> \<forall>x tm. Push_Wait x tm \<notin> set pc \<Longrightarrow>
     queue_internal \<lparr>qs_queue = q, qs_pc = pc\<rparr> Q_Tau \<lparr>qs_queue = q, qs_pc = pc[t := Pop_Ret r]\<rparr>"

text \<open>What the clients and the operating system do: calls and returns, time-outs, spurious
  wake-ups, and a new limit. Setting the limit notifies nobody.\<close>

inductive queue_env :: "bool \<Rightarrow> 'a queue_system \<Rightarrow> 'a queue_event \<Rightarrow> 'a queue_system \<Rightarrow> bool" for shared where
  call_push:
    "t < length pc \<Longrightarrow> pc ! t = Q_Idle \<Longrightarrow>
     queue_env shared \<lparr>qs_queue = q, qs_pc = pc\<rparr> Q_Tau \<lparr>qs_queue = q, qs_pc = pc[t := push_call shared x tm]\<rparr>"
| call_pop:
    "t < length pc \<Longrightarrow> pc ! t = Q_Idle \<Longrightarrow>
     queue_env shared \<lparr>qs_queue = q, qs_pc = pc\<rparr> Q_Tau \<lparr>qs_queue = q, qs_pc = pc[t := Pop_Loop tm]\<rparr>"
| return:
    "t < length pc \<Longrightarrow> (\<exists>b. pc ! t = Push_Ret b) \<or> (\<exists>r. pc ! t = Pop_Ret r) \<Longrightarrow>
     queue_env shared \<lparr>qs_queue = q, qs_pc = pc\<rparr> Q_Tau \<lparr>qs_queue = q, qs_pc = pc[t := Q_Idle]\<rparr>"
| push_timeout:
    "t < length pc \<Longrightarrow> pc ! t = Push_Wait x tm \<Longrightarrow>
     queue_env shared \<lparr>qs_queue = q, qs_pc = pc\<rparr> Q_Tau \<lparr>qs_queue = q, qs_pc = pc[t := Push_Ret False]\<rparr>"
| pop_timeout:
    "t < length pc \<Longrightarrow> pc ! t = Pop_Wait tm \<Longrightarrow>
     queue_env shared \<lparr>qs_queue = q, qs_pc = pc\<rparr> Q_Tau \<lparr>qs_queue = q, qs_pc = pc[t := Pop_Ret None]\<rparr>"
| push_spurious:
    "t < length pc \<Longrightarrow> pc ! t = Push_Wait x tm \<Longrightarrow>
     queue_env shared \<lparr>qs_queue = q, qs_pc = pc\<rparr> Q_Tau \<lparr>qs_queue = q, qs_pc = pc[t := Push_Loop x tm]\<rparr>"
| pop_spurious:
    "t < length pc \<Longrightarrow> pc ! t = Pop_Wait tm \<Longrightarrow>
     queue_env shared \<lparr>qs_queue = q, qs_pc = pc\<rparr> Q_Tau \<lparr>qs_queue = q, qs_pc = pc[t := Pop_Loop tm]\<rparr>"
| set_limit:
    "queue_env shared \<lparr>qs_queue = q, qs_pc = pc\<rparr> (Q_Limit n) \<lparr>qs_queue = setMaxItems q n, qs_pc = pc\<rparr>"

inductive queue_step :: "bool \<Rightarrow> 'a queue_system \<Rightarrow> 'a queue_event \<Rightarrow> 'a queue_system \<Rightarrow> bool" for shared where
  q_int: "queue_internal s e s' \<Longrightarrow> queue_step shared s e s'"
| q_env: "queue_env shared s e s' \<Longrightarrow> queue_step shared s e s'"

definition queue_init :: "nat \<Rightarrow> nat \<Rightarrow> 'a queue_system" where
  "queue_init threads limit = \<lparr>qs_queue = setMaxItems Queue_new limit, qs_pc = replicate threads Q_Idle\<rparr>"

inductive_cases queue_stepE: "queue_step shared s e s'"
inductive_cases queue_internalE: "queue_internal s e s'"
inductive_cases queue_envE: "queue_env shared s e s'"

section \<open>First in, first out\<close>

fun pushed :: "'a queue_event list \<Rightarrow> 'a option list" where
  "pushed [] = []"
| "pushed (Q_In x # tr) = x # pushed tr"
| "pushed (_ # tr) = pushed tr"

fun popped :: "'a queue_event list \<Rightarrow> 'a option list" where
  "popped [] = []"
| "popped (Q_Out x # tr) = x # popped tr"
| "popped (_ # tr) = popped tr"

fun limits :: "'a queue_event list \<Rightarrow> nat list" where
  "limits [] = []"
| "limits (Q_Limit n # tr) = n # limits tr"
| "limits (_ # tr) = limits tr"

lemma pushed_append [simp]: "pushed (tr @ tr') = pushed tr @ pushed tr'"
  by (induction tr rule: pushed.induct) auto

lemma popped_append [simp]: "popped (tr @ tr') = popped tr @ popped tr'"
  by (induction tr rule: popped.induct) auto

lemma limits_append [simp]: "limits (tr @ tr') = limits tr @ limits tr'"
  by (induction tr rule: limits.induct) auto

lemma setMaxItems_simps [simp]:
  "m_queue (setMaxItems q n) = m_queue q" "getMaxItems (setMaxItems q n) = n"
  by (auto simp: setMaxItems_def getMaxItems_def split: option.splits)

lemma getMaxItems_queue [simp]: "getMaxItems (q\<lparr>m_queue := xs\<rparr>) = getMaxItems q"
  by (simp add: getMaxItems_def split: option.splits)

text \<open>What each label says of the queue: the abstract specification, a list with a limit.\<close>

definition fifo_step :: "'a safe_queue \<Rightarrow> 'a queue_event \<Rightarrow> 'a safe_queue \<Rightarrow> bool" where
  "fifo_step q e q' = (case e of
     Q_In x \<Rightarrow> length (m_queue q) < getMaxItems q \<and> m_queue q' = m_queue q @ [x] \<and> getMaxItems q' = getMaxItems q
   | Q_Out x \<Rightarrow> m_queue q = x # m_queue q' \<and> getMaxItems q' = getMaxItems q
   | Q_Tau \<Rightarrow> q' = q
   | Q_Limit n \<Rightarrow> m_queue q' = m_queue q \<and> getMaxItems q' = n)"

lemma queue_refines_fifo: "queue_step shared s e s' \<Longrightarrow> fifo_step (qs_queue s) e (qs_queue s')"
  by (erule queue_stepE; erule queue_internalE queue_envE)
     (auto simp: fifo_step_def push_section_def pop_section_def split: if_splits list.splits)

definition fifo_inv :: "nat \<Rightarrow> 'a queue_event list \<Rightarrow> 'a queue_system \<Rightarrow> bool" where
  "fifo_inv m tr s \<longleftrightarrow> pushed tr = popped tr @ m_queue (qs_queue s) \<and>
     getMaxItems (qs_queue s) = last (m # limits tr) \<and>
     (\<exists>n \<in> set (m # limits tr). length (m_queue (qs_queue s)) \<le> n)"

lemma fifo_inv_step:
  assumes "fifo_inv m tr s" "fifo_step (qs_queue s) e (qs_queue s')"
  shows "fifo_inv m (tr @ [e]) s'"
proof (cases e)
  case (Q_In x)
  have "last (m # limits tr) \<in> set (m # limits tr)" by (rule last_in_set) simp
  moreover have "length (m_queue (qs_queue s')) \<le> last (m # limits tr)"
    using assms Q_In unfolding fifo_inv_def fifo_step_def by simp
  ultimately have "\<exists>n \<in> set (m # limits (tr @ [e])). length (m_queue (qs_queue s')) \<le> n"
    using Q_In by (intro bexI [of _ "last (m # limits tr)"]) simp_all
  then show ?thesis using assms Q_In unfolding fifo_inv_def fifo_step_def by simp
next
  case (Q_Out x)
  then have "length (m_queue (qs_queue s')) \<le> length (m_queue (qs_queue s))"
    using assms by (simp add: fifo_step_def)
  then show ?thesis using assms Q_Out unfolding fifo_inv_def fifo_step_def by (auto dest: Suc_leD)
qed (use assms in \<open>auto simp: fifo_inv_def fifo_step_def\<close>)

interpretation qfifo: history_invariant "queue_init n m" "queue_step shared" "fifo_inv m"
  for n m shared
proof
  show "fifo_inv m [] (queue_init n m)"
    by (simp add: fifo_inv_def queue_init_def Queue_new_def)
next
  fix tr :: "'a queue_event list" and s e s'
  assume "fifo_inv m tr s" "queue_step shared s e s'"
  then show "fifo_inv m (tr @ [e]) s'" by (metis fifo_inv_step queue_refines_fifo)
qed

section \<open>No lost wake-up\<close>

text \<open>Threads in \<open>pop\<close> that wait, that are about to test the loop condition, and threads in
  \<open>push\<close> that owe a notification; and the same with the roles exchanged.\<close>

definition pop_waiting :: "'a queue_pc \<Rightarrow> nat" where
  "pop_waiting p = (case p of Pop_Wait _ \<Rightarrow> 1 | _ \<Rightarrow> 0)"

definition pop_serving :: "'a queue_pc \<Rightarrow> nat" where
  "pop_serving p = (case p of Pop_Loop _ \<Rightarrow> 1 | Push_Notify \<Rightarrow> 1 | _ \<Rightarrow> 0)"

definition push_waiting :: "'a queue_pc \<Rightarrow> nat" where
  "push_waiting p = (case p of Push_Wait _ _ \<Rightarrow> 1 | _ \<Rightarrow> 0)"

definition push_serving :: "'a queue_pc \<Rightarrow> nat" where
  "push_serving p = (case p of Push_Loop _ _ \<Rightarrow> 1 | Pop_Notify _ \<Rightarrow> 1 | _ \<Rightarrow> 0)"

lemmas queue_counts = pop_waiting_def pop_serving_def push_waiting_def push_serving_def

text \<open>Whenever a thread waits for an item, every item in the queue has a thread that will serve
  it; whenever one waits for room and the limit has not been changed, every free place has one.\<close>

definition served :: "nat \<Rightarrow> 'a queue_event list \<Rightarrow> 'a queue_system \<Rightarrow> bool" where
  "served m tr s \<longleftrightarrow>
     (total pop_waiting (qs_pc s) > 0 \<longrightarrow> length (m_queue (qs_queue s)) \<le> total pop_serving (qs_pc s)) \<and>
     (limits tr = [] \<longrightarrow> getMaxItems (qs_queue s) = m \<and>
       (total push_waiting (qs_pc s) > 0 \<longrightarrow> m \<le> length (m_queue (qs_queue s)) + total push_serving (qs_pc s)))"

lemmas one_update = total_update [of _ _ pop_waiting] total_update [of _ _ pop_serving]
  total_update [of _ _ push_waiting] total_update [of _ _ push_serving]

lemmas two_updates = total_update2 [of _ _ _ pop_waiting] total_update2 [of _ _ _ pop_serving]
  total_update2 [of _ _ _ push_waiting] total_update2 [of _ _ _ push_serving]

lemma nobody_waits:
  "(\<forall>tm. Pop_Wait tm \<notin> set pc) \<Longrightarrow> total pop_waiting pc = 0"
  "(\<forall>x tm. Push_Wait x tm \<notin> set pc) \<Longrightarrow> total push_waiting pc = 0"
  by (auto simp: queue_counts split: queue_pc.splits)

lemma served_internal:
  assumes "queue_internal s e s'" "served m tr s"
  shows "served m (tr @ [e]) s'"
  using assms(1)
proof cases
  case (push_enter t pc x tm q p q')
  note pc = one_update [OF push_enter(3), of p, unfolded push_enter(4)]
  consider "p = Push_Ret False" "q' = q" "getMaxItems q \<le> length (m_queue q)" | "p = Push_Wait x tm" "q' = q" "getMaxItems q \<le> length (m_queue q)"
    | "p = Push_Notify" "q' = q\<lparr>m_queue := m_queue q @ [x]\<rparr>"
    using push_enter(5) by (auto simp: push_section_def split: if_splits)
  then show ?thesis
    by cases (use push_enter(1,2,6) assms(2) pc in \<open>auto simp: served_def queue_counts\<close>)
next
  case (pop_enter t pc tm q p q')
  note pc = one_update [OF pop_enter(3), of p, unfolded pop_enter(4)]
  consider "p = Pop_Ret None" "q' = q" "m_queue q = []" | "p = Pop_Wait tm" "q' = q" "m_queue q = []"
    | r where "p = Pop_Notify r" "m_queue q = r # m_queue q'" "getMaxItems q' = getMaxItems q"
    using pop_enter(5) by (auto simp: pop_section_def split: if_splits list.splits)
  then show ?thesis
    by cases (use pop_enter(1,2,6) assms(2) pc in \<open>auto simp: served_def queue_counts\<close>)
next
  case (push_notify_one t pc u tm q)
  then have "t \<noteq> u" by auto
  with push_notify_one show ?thesis
    using assms(2) two_updates [of t pc u "Push_Ret True" "Pop_Loop tm"]
    by (auto simp: served_def queue_counts)
next
  case (push_notify_none t pc q)
  then show ?thesis using assms(2) one_update [of t pc "Push_Ret True"] nobody_waits(1) [of pc]
    by (auto simp: served_def queue_counts)
next
  case (pop_notify_one t pc r u x tm q)
  then have "t \<noteq> u" by auto
  with pop_notify_one show ?thesis
    using assms(2) two_updates [of t pc u "Pop_Ret r" "Push_Loop x tm"]
    by (auto simp: served_def queue_counts)
next
  case (pop_notify_none t pc r q)
  then show ?thesis using assms(2) one_update [of t pc "Pop_Ret r"] nobody_waits(2) [of pc]
    by (auto simp: served_def queue_counts)
qed

lemma served_env:
  assumes "queue_env shared s e s'" "served m tr s"
  shows "served m (tr @ [e]) s'"
  using assms(1)
proof cases
  case (call_push t pc q x tm)
  then show ?thesis using assms(2) one_update [of t pc "push_call shared x tm"]
    by (auto simp: served_def push_call_def queue_counts split: if_splits)
next
  case (call_pop t pc q tm)
  then show ?thesis using assms(2) one_update [of t pc "Pop_Loop tm"]
    by (auto simp: served_def queue_counts)
next
  case (return t pc q)
  then show ?thesis using assms(2) one_update [of t pc Q_Idle]
    by (auto simp: served_def queue_counts)
next
  case (push_timeout t pc x tm q)
  then show ?thesis using assms(2) one_update [of t pc "Push_Ret False"]
    by (auto simp: served_def queue_counts)
next
  case (pop_timeout t pc tm q)
  then show ?thesis using assms(2) one_update [of t pc "Pop_Ret None"]
    by (auto simp: served_def queue_counts)
next
  case (push_spurious t pc x tm q)
  then show ?thesis using assms(2) one_update [of t pc "Push_Loop x tm"]
    by (auto simp: served_def queue_counts)
next
  case (pop_spurious t pc tm q)
  then show ?thesis using assms(2) one_update [of t pc "Pop_Loop tm"]
    by (auto simp: served_def queue_counts)
next
  case (set_limit q pc n)
  then show ?thesis using assms(2) by (auto simp: served_def)
qed

interpretation qserved: history_invariant "queue_init n m" "queue_step shared" "served m"
  for n m shared
proof
  show "served m [] (queue_init n m)"
    by (simp add: served_def queue_init_def Queue_new_def queue_counts sum_list_replicate)
next
  fix tr :: "'a queue_event list" and s e s'
  assume "served m tr s" "queue_step shared s e s'"
  then show "served m (tr @ [e]) s'" by (auto elim!: queue_stepE intro: served_internal served_env)
qed

text \<open>The steps still ahead of a thread inside a call, if nobody else helps it.\<close>

definition queue_work :: "'a queue_pc \<Rightarrow> nat" where
  "queue_work p = (case p of Push_Loop _ _ \<Rightarrow> 4 | Pop_Loop _ \<Rightarrow> 4 | Push_Wait _ _ \<Rightarrow> 3 | Pop_Wait _ \<Rightarrow> 3
     | Push_Notify \<Rightarrow> 2 | Pop_Notify _ \<Rightarrow> 2 | _ \<Rightarrow> 0)"

interpretation qsettles: settles queue_internal "\<lambda>s. total queue_work (qs_pc s)"
proof
  fix s s' :: "'a queue_system" and e
  assume "queue_internal s e s'"
  then show "total queue_work (qs_pc s') < total queue_work (qs_pc s)"
  proof cases
    case (push_enter t pc x tm q p q')
    then show ?thesis using total_update [OF push_enter(3), of queue_work p]
      by (auto simp: push_section_def queue_work_def split: if_splits)
  next
    case (pop_enter t pc tm q p q')
    then show ?thesis using total_update [OF pop_enter(3), of queue_work p]
      by (auto simp: pop_section_def queue_work_def split: if_splits list.splits)
  next
    case (push_notify_one t pc u tm q)
    then have "t \<noteq> u" by auto
    with push_notify_one show ?thesis
      using total_update2 [of t pc u queue_work "Push_Ret True" "Pop_Loop tm"] by (simp add: queue_work_def)
  next
    case (push_notify_none t pc q)
    then show ?thesis using total_update [of t pc queue_work "Push_Ret True"] by (simp add: queue_work_def)
  next
    case (pop_notify_one t pc r u x tm q)
    then have "t \<noteq> u" by auto
    with pop_notify_one show ?thesis
      using total_update2 [of t pc u queue_work "Pop_Ret r" "Push_Loop x tm"] by (simp add: queue_work_def)
  next
    case (pop_notify_none t pc r q)
    then show ?thesis using total_update [of t pc queue_work "Pop_Ret r"] by (simp add: queue_work_def)
  qed
qed

text \<open>In a state where no thread can run by itself, nobody is about to run.\<close>

lemma settled_pc:
  assumes "\<nexists>e s'. queue_internal s e s'" "t < length (qs_pc s)"
  shows "pop_serving (qs_pc s ! t) = 0 \<and> push_serving (qs_pc s ! t) = 0"
proof -
  obtain q pc where s: "s = \<lparr>qs_queue = q, qs_pc = pc\<rparr>" by (cases s) auto
  have stuck: "\<And>e s'. \<not> queue_internal \<lparr>qs_queue = q, qs_pc = pc\<rparr> e s'" using assms(1) s by auto
  have t: "t < length pc" using assms(2) s by simp
  have "pc ! t \<noteq> Push_Loop x tm" for x tm
    using push_enter [OF t _ _ refl, of x tm q] stuck by (metis prod.collapse)
  moreover have "pc ! t \<noteq> Pop_Loop tm" for tm
    using pop_enter [OF t _ _ refl, of tm q] stuck by (metis prod.collapse)
  moreover have "pc ! t \<noteq> Push_Notify"
    using push_notify_one [OF t] push_notify_none [OF t] stuck by (metis in_set_conv_nth)
  moreover have "pc ! t \<noteq> Pop_Notify r" for r
    using pop_notify_one [OF t] pop_notify_none [OF t] stuck by (metis in_set_conv_nth)
  ultimately show ?thesis by (auto simp: s queue_counts split: queue_pc.splits)
qed

lemma internal_needs:
  "queue_internal s e s' \<Longrightarrow> \<exists>t < length (qs_pc s). pop_serving (qs_pc s ! t) + push_serving (qs_pc s ! t) > 0"
  by (erule queue_internalE; simp) (force simp: queue_counts)+

lemma settled_counts:
  assumes "\<nexists>e s'. queue_internal s e s'"
  shows "total pop_serving (qs_pc s) = 0" "total push_serving (qs_pc s) = 0"
  using settled_pc [OF assms] by (auto simp: in_set_conv_nth)

lemma internal_no_limits: "run queue_internal s tr s' \<Longrightarrow> limits tr = []"
  by (induction rule: run.induct)
     (auto elim!: queue_internalE simp: push_section_def pop_section_def split: if_splits list.splits)

lemma served_at_rest:
  assumes "run (queue_step shared) (queue_init n m) tr s" "run queue_internal s tr' s'"
    "\<nexists>e s''. queue_internal s' e s''"
  shows "m_queue (qs_queue s') \<noteq> [] \<Longrightarrow> Pop_Wait tm \<notin> set (qs_pc s')"
    "limits tr = [] \<Longrightarrow> length (m_queue (qs_queue s')) < m \<Longrightarrow> Push_Wait x tm \<notin> set (qs_pc s')"
proof -
  have "run (queue_step shared) (queue_init n m) (tr @ tr') s'"
    by (rule run_trans [OF assms(1) run_mono [OF assms(2)]]) (rule q_int)
  then have s: "served m (tr @ tr') s'" by (rule qserved.inv_run)
  note z = settled_counts [OF assms(3)]
  show "Pop_Wait tm \<notin> set (qs_pc s')" if "m_queue (qs_queue s') \<noteq> []"
    using s z that total_pos [of "Pop_Wait tm" "qs_pc s'" pop_waiting] by (auto simp: served_def pop_waiting_def)
  show "Push_Wait x tm \<notin> set (qs_pc s')" if "limits tr = []" "length (m_queue (qs_queue s')) < m"
    using s z that internal_no_limits [OF assms(2)] total_pos [of "Push_Wait x tm" "qs_pc s'" push_waiting]
    by (auto simp: served_def push_waiting_def)
qed

section \<open>Properties\<close>

text \<open>C14: whatever the threads do and however their steps interleave, the items that have been
  taken out of the queue, followed by those still in it, are the items that have been put in, in
  that order: nothing is lost, duplicated or overtaken. Every step of the threads is a step of a
  plain list with a limit, and the queue never holds more than the largest limit it has had.\<close>

theorem queue_is_fifo:
  assumes "run (queue_step shared) (queue_init n m) tr s"
  shows "pushed tr = popped tr @ m_queue (qs_queue s) \<and>
    (\<exists>l \<in> set (m # limits tr). length (m_queue (qs_queue s)) \<le> l) \<and>
    (\<forall>e s'. queue_step shared s e s' \<longrightarrow> fifo_step (qs_queue s) e (qs_queue s'))"
  using qfifo.inv_run [OF assms] queue_refines_fifo by (auto simp: fifo_inv_def)

text \<open>A consumer waits on an empty queue of one place, then a producer has put an item in and has
  not notified anybody yet.\<close>

definition demo_queue :: "nat queue_system" where
  "demo_queue = \<lparr>qs_queue = (setMaxItems Queue_new 1)\<lparr>m_queue := [Some 7]\<rparr>, qs_pc = [Pop_Wait 5, Push_Notify]\<rparr>"

lemma demo_queue_run: "run (queue_step False) (queue_init 2 1) [Q_Tau, Q_Tau, Q_Tau, Q_In (Some 7)] demo_queue"
proof -
  let ?q = "setMaxItems Queue_new 1 :: nat safe_queue"
  have i: "queue_init 2 1 = \<lparr>qs_queue = ?q, qs_pc = [Q_Idle, Q_Idle]\<rparr>"
    by (simp add: queue_init_def numeral_2_eq_2)
  have s1: "queue_step False \<lparr>qs_queue = ?q, qs_pc = [Q_Idle, Q_Idle]\<rparr> Q_Tau \<lparr>qs_queue = ?q, qs_pc = [Pop_Loop 5, Q_Idle]\<rparr>"
    using q_env [OF call_pop [of 0 "[Q_Idle, Q_Idle]" False ?q 5]] by simp
  have s2: "queue_step False \<lparr>qs_queue = ?q, qs_pc = [Pop_Loop 5, Q_Idle]\<rparr> Q_Tau \<lparr>qs_queue = ?q, qs_pc = [Pop_Wait 5, Q_Idle]\<rparr>"
    using q_int [OF pop_enter [of 0 "[Pop_Loop 5, Q_Idle]" 5 ?q "Pop_Wait 5" ?q]] by (simp add: pop_section_def Queue_new_def)
  have s3: "queue_step False \<lparr>qs_queue = ?q, qs_pc = [Pop_Wait 5, Q_Idle]\<rparr> Q_Tau \<lparr>qs_queue = ?q, qs_pc = [Pop_Wait 5, Push_Loop (Some 7) 5]\<rparr>"
    using q_env [OF call_push [of 1 "[Pop_Wait 5, Q_Idle]" False ?q "Some 7" 5]] by (simp add: push_call_def)
  have s4: "queue_step False \<lparr>qs_queue = ?q, qs_pc = [Pop_Wait 5, Push_Loop (Some 7) 5]\<rparr> (Q_In (Some 7)) demo_queue"
    using q_int [OF push_enter [of 1 "[Pop_Wait 5, Push_Loop (Some 7) 5]" "Some 7" 5 ?q Push_Notify "?q\<lparr>m_queue := [Some 7]\<rparr>" "Q_In (Some 7)"]]
    by (simp add: push_section_def Queue_new_def demo_queue_def)
  show ?thesis
    using run_Cons [of "queue_step False", OF s1 run_Cons [of "queue_step False", OF s2 run_Cons [of "queue_step False", OF s3 run_single [of "queue_step False", OF s4]]]]
    by (simp only: i)
qed

theorem queue_is_fifo_witness:
  "[Some 7] = [] @ m_queue (qs_queue demo_queue) \<and> length (m_queue (qs_queue demo_queue)) \<le> 1"
  using queue_is_fifo [OF demo_queue_run] by simp



text \<open>Raising the limit does not wake a thread that waits for room: it sleeps on although there
  is room, until a time-out, a spurious wake-up or the next \<open>pop\<close>.\<close>

lemma raised_limit_wakes_nobody:
  assumes "\<nexists>e s'. queue_internal s e s'"
    and "queue_env shared s (Q_Limit n) s'"
  shows "\<nexists>e s''. queue_internal s' e s''" "qs_pc s' = qs_pc s"
proof -
  show pc: "qs_pc s' = qs_pc s" using assms(2) by (cases rule: queue_env.cases) auto
  have no: "pop_serving p = 0 \<and> push_serving p = 0" if "p \<in> set (qs_pc s)" for p
    using settled_pc [OF assms(1)] that by (auto simp: in_set_conv_nth)
  show "\<nexists>e s''. queue_internal s' e s''"
  proof
    assume "\<exists>e s''. queue_internal s' e s''"
    then obtain e s'' where "queue_internal s' e s''" by blast
    then obtain t where "t < length (qs_pc s)" "pop_serving (qs_pc s ! t) + push_serving (qs_pc s ! t) > 0"
      using internal_needs pc by metis
    then show False using no [OF nth_mem] by simp
  qed
qed

end
