(* ===== verification/Safe_Map.thy ===== *)
theory Safe_Map
  imports Concurrency "HOL-Library.Multiset" "HOL-Library.Word"
begin

text \<open>
  \<open>Threads/safe_map.h\<close>: a map whose elements are opened by readers and destroyed when the last
  reader has released them. Every method is one critical section, except that \<open>destroyElement\<close>
  and \<open>waitForEmptyMap\<close> may wait inside. The reader counter is a 32-bit word. Of the clients the
  model assumes what the interface asks: an element is added with an object nobody else owns, and
  is released once for every successful opening. \<open>sm_deleted\<close> are the objects the map has
  deleted, \<open>sm_stopped\<close> those whose readers it has told to stop; \<open>sm_handles\<close> are the openings
  not yet released.
\<close>

section \<open>The map and its critical sections\<close>

record 'i map_element =
  me_item :: "'i option"
  numReaders :: "32 word"

type_synonym ('k, 'i) safe_map = "'k \<rightharpoonup> 'i map_element"

text \<open>\<open>m_keyValueMap[key]\<close> creates a missing element.\<close>

definition element_at :: "('k, 'i) safe_map \<Rightarrow> 'k \<Rightarrow> 'i map_element" where
  "element_at m key = (case m key of None \<Rightarrow> \<lparr>me_item = None, numReaders = 0\<rparr> | Some e \<Rightarrow> e)"

definition getKeys :: "('k, 'i) safe_map \<Rightarrow> 'k set" where
  "getKeys m = dom m"

definition isMember :: "('k, 'i) safe_map \<Rightarrow> 'k \<Rightarrow> bool" where
  "isMember m key = (m key \<noteq> None)"

definition addElement :: "('k, 'i) safe_map \<Rightarrow> 'k \<Rightarrow> 'i option \<Rightarrow> bool \<times> ('k, 'i) safe_map" where
  "addElement m key element =
     (if m key = None then (True, m(key \<mapsto> (element_at m key)\<lparr>me_item := element\<rparr>)) else (False, m))"

definition openElement :: "('k, 'i) safe_map \<Rightarrow> 'k \<Rightarrow> 'i option \<times> ('k, 'i) safe_map" where
  "openElement m key = (case m key of
     None \<Rightarrow> (None, m)
   | Some e \<Rightarrow> (case me_item e of
        None \<Rightarrow> (None, m)
      | Some i \<Rightarrow> (Some i, m(key \<mapsto> e\<lparr>numReaders := numReaders e + 1\<rparr>))))"

datatype map_error = Invalid_close

text \<open>The second component tells whether \<open>noReadersCondition\<close> is notified.\<close>

definition releaseElement :: "('k, 'i) safe_map \<Rightarrow> 'k \<Rightarrow> map_error + bool \<times> bool \<times> ('k, 'i) safe_map" where
  "releaseElement m key = (case m key of
     None \<Rightarrow> Inr (False, False, m)
   | Some e \<Rightarrow>
       if numReaders e = 0 then Inl Invalid_close
       else (let e' = e\<lparr>numReaders := numReaders e - 1\<rparr> in
             Inr (True, numReaders e' = 0, m(key \<mapsto> e'))))"

datatype ('k, 'i) map_pc =
    M_Idle | M_Ret bool
  | Destroy_Loop 'k 'i | Destroy_Wait 'k 'i
  | Empty_Loop | Empty_Wait

text \<open>The loop of \<open>destroyElement\<close> and what follows it. With the new state come the objects that
  are deleted and the objects whose readers are told to stop.\<close>

type_synonym ('k, 'i) destroy_result = "('k, 'i) map_pc \<times> ('k, 'i) safe_map \<times> 'i list \<times> 'i list"

definition destroy_loop :: "'k \<Rightarrow> 'i \<Rightarrow> ('k, 'i) safe_map \<Rightarrow> ('k, 'i) destroy_result" where
  "destroy_loop key delElement m =
     (let e = element_at m key in
      if numReaders e \<noteq> 0 then (Destroy_Wait key delElement, m(key \<mapsto> e), [], [delElement])
      else (M_Ret True, m(key := None), [delElement], []))"

definition destroyElement :: "'k \<Rightarrow> ('k, 'i) safe_map \<Rightarrow> ('k, 'i) destroy_result" where
  "destroyElement key m = (case m key of
     None \<Rightarrow> (M_Ret False, m, [], [])
   | Some e \<Rightarrow> (case me_item e of
        None \<Rightarrow> (M_Ret False, m, [], [])
      | Some delElement \<Rightarrow> destroy_loop key delElement (m(key \<mapsto> e\<lparr>me_item := None\<rparr>))))"

definition waitForEmptyMap :: "('k, 'i) safe_map \<Rightarrow> ('k, 'i) map_pc" where
  "waitForEmptyMap m = (if m = Map.empty then M_Ret True else Empty_Wait)"

section \<open>The threads\<close>

record ('k, 'i) map_system =
  sm_map :: "('k, 'i) safe_map"
  sm_pc :: "nat \<Rightarrow> ('k, 'i) map_pc"
  sm_handles :: "('k \<times> 'i) multiset"
  sm_deleted :: "'i list"
  sm_stopped :: "'i list"

fun waits_readers :: "'k \<Rightarrow> ('k, 'i) map_pc \<Rightarrow> bool" where
  "waits_readers key (Destroy_Wait k i) = (k = key)"
| "waits_readers key _ = False"

fun map_wake :: "('k, 'i) map_pc \<Rightarrow> ('k, 'i) map_pc" where
  "map_wake (Destroy_Wait k i) = Destroy_Loop k i"
| "map_wake Empty_Wait = Empty_Loop"
| "map_wake p = p"

fun destroying :: "('k, 'i) map_pc \<Rightarrow> ('k \<times> 'i) option" where
  "destroying (Destroy_Loop k i) = Some (k, i)"
| "destroying (Destroy_Wait k i) = Some (k, i)"
| "destroying _ = None"

text \<open>An object the map is responsible for, under its key.\<close>

definition owned :: "('k, 'i) map_system \<Rightarrow> 'k \<Rightarrow> 'i \<Rightarrow> bool" where
  "owned s k i \<longleftrightarrow> (\<exists>e. sm_map s k = Some e \<and> me_item e = Some i) \<or> (\<exists>t. destroying (sm_pc s t) = Some (k, i))"

definition fresh_item :: "('k, 'i) map_system \<Rightarrow> 'i \<Rightarrow> bool" where
  "fresh_item s i \<longleftrightarrow> i \<notin> set (sm_deleted s) \<and> (\<forall>k. \<not> owned s k i)"

text \<open>A critical section of \<open>destroyElement\<close> in thread \<open>t\<close>: a deletion that leaves the map empty
  notifies one of the threads in \<open>waitForEmptyMap\<close>.\<close>

fun destroyed :: "('k, 'i) map_system \<Rightarrow> nat \<Rightarrow> ('k, 'i) destroy_result \<Rightarrow> ('k, 'i) map_system \<Rightarrow> bool" where
  "destroyed s t (p, m, dels, stops) s' \<longleftrightarrow>
     (\<exists>pc'. (if dels \<noteq> [] \<and> m = Map.empty
             then notify_one (\<lambda>p. p = Empty_Wait) map_wake ((sm_pc s)(t := p)) pc'
             else pc' = (sm_pc s)(t := p)) \<and>
       s' = s\<lparr>sm_map := m, sm_deleted := dels @ sm_deleted s, sm_stopped := stops @ sm_stopped s, sm_pc := pc'\<rparr>)"

inductive map_step :: "('k, 'i) map_system \<Rightarrow> unit \<Rightarrow> ('k, 'i) map_system \<Rightarrow> bool" where
  m_add:
    "addElement (sm_map s) k x = (b, m') \<Longrightarrow> (\<And>i. x = Some i \<Longrightarrow> fresh_item s i) \<Longrightarrow>
     map_step s () (s\<lparr>sm_map := m'\<rparr>)"
| m_open:
    "openElement (sm_map s) k = (r, m') \<Longrightarrow> size (sm_handles s) < 2 ^ 32 - 1 \<Longrightarrow>
     map_step s () (s\<lparr>sm_map := m', sm_handles := sm_handles s + (case r of None \<Rightarrow> {#} | Some i \<Rightarrow> {#(k, i)#})\<rparr>)"
| m_release:
    "(k, i) \<in># sm_handles s \<Longrightarrow> releaseElement (sm_map s) k = Inr (b, notify, m') \<Longrightarrow>
     (if notify then notify_one (waits_readers k) map_wake (sm_pc s) pc' else pc' = sm_pc s) \<Longrightarrow>
     map_step s () (s\<lparr>sm_map := m', sm_pc := pc', sm_handles := sm_handles s - {#(k, i)#}\<rparr>)"
| m_destroy:
    "sm_pc s t = M_Idle \<Longrightarrow> destroyElement k (sm_map s) = r \<Longrightarrow>
     destroyed s t r s' \<Longrightarrow> map_step s () s'"
| m_destroy_again:
    "sm_pc s t = Destroy_Loop k i \<Longrightarrow> destroy_loop k i (sm_map s) = r \<Longrightarrow> destroyed s t r s' \<Longrightarrow>
     map_step s () s'"
| m_wait_empty:
    "sm_pc s t = M_Idle \<or> sm_pc s t = Empty_Loop \<Longrightarrow>
     map_step s () (s\<lparr>sm_pc := (sm_pc s)(t := waitForEmptyMap (sm_map s))\<rparr>)"
| m_spurious:
    "map_step s () (s\<lparr>sm_pc := (sm_pc s)(t := map_wake (sm_pc s t))\<rparr>)"
| m_return:
    "sm_pc s t = M_Ret b \<Longrightarrow> map_step s () (s\<lparr>sm_pc := (sm_pc s)(t := M_Idle)\<rparr>)"

definition map_init :: "('k, 'i) map_system" where
  "map_init = \<lparr>sm_map = Map.empty, sm_pc = (\<lambda>_. M_Idle), sm_handles = {#}, sm_deleted = [], sm_stopped = []\<rparr>"

inductive_cases map_stepE: "map_step s e s'"

section \<open>The invariant\<close>

definition readers :: "'k \<Rightarrow> ('k \<times> 'i) multiset \<Rightarrow> nat" where
  "readers k H = size {#h \<in># H. fst h = k#}"

definition map_inv :: "('k, 'i) map_system \<Rightarrow> bool" where
  "map_inv s \<longleftrightarrow>
     (\<forall>k i. (k, i) \<in># sm_handles s \<longrightarrow> owned s k i) \<and>
     (\<forall>k i. owned s k i \<longrightarrow> i \<notin> set (sm_deleted s)) \<and>
     (\<forall>k k' i. owned s k i \<and> owned s k' i \<longrightarrow> k = k') \<and>
     (\<forall>t k i. destroying (sm_pc s t) = Some (k, i) \<longrightarrow> (\<exists>e. sm_map s k = Some e \<and> me_item e = None)) \<and>
     (\<forall>t t' k i i'. destroying (sm_pc s t) = Some (k, i) \<and> destroying (sm_pc s t') = Some (k, i') \<longrightarrow> t = t') \<and>
     (\<forall>k e. sm_map s k = Some e \<longrightarrow> unat (numReaders e) = readers k (sm_handles s)) \<and>
     (\<forall>t k i e. sm_pc s t = Destroy_Wait k i \<and> sm_map s k = Some e \<longrightarrow> numReaders e \<noteq> 0 \<and> i \<in> set (sm_stopped s)) \<and>
     size (sm_handles s) < 2 ^ 32 \<and> distinct (sm_deleted s)"

lemma handle_owned: "map_inv s \<Longrightarrow> (k, i) \<in># sm_handles s \<Longrightarrow> owned s k i"
  unfolding map_inv_def by metis

lemma owned_alive: "map_inv s \<Longrightarrow> owned s k i \<Longrightarrow> i \<notin> set (sm_deleted s)"
  unfolding map_inv_def by metis

lemma owned_key: "map_inv s \<Longrightarrow> owned s k i \<Longrightarrow> owned s k' i \<Longrightarrow> k = k'"
  unfolding map_inv_def by metis

lemma destroying_hidden: "map_inv s \<Longrightarrow> destroying (sm_pc s t) = Some (k, i) \<Longrightarrow> \<exists>e. sm_map s k = Some e \<and> me_item e = None"
  unfolding map_inv_def by metis

lemma destroying_once: "map_inv s \<Longrightarrow> destroying (sm_pc s t) = Some (k, i) \<Longrightarrow> destroying (sm_pc s t') = Some (k, i') \<Longrightarrow> t = t'"
  unfolding map_inv_def by metis

lemma readers_counted: "map_inv s \<Longrightarrow> sm_map s k = Some e \<Longrightarrow> unat (numReaders e) = readers k (sm_handles s)"
  unfolding map_inv_def by metis

lemma waiting_readers: "map_inv s \<Longrightarrow> sm_pc s t = Destroy_Wait k i \<Longrightarrow> sm_map s k = Some e \<Longrightarrow> numReaders e \<noteq> 0 \<and> i \<in> set (sm_stopped s)"
  unfolding map_inv_def by metis

lemma handles_bound: "map_inv s \<Longrightarrow> size (sm_handles s) < 2 ^ 32"
  unfolding map_inv_def by metis

lemma deleted_once: "map_inv s \<Longrightarrow> distinct (sm_deleted s)"
  unfolding map_inv_def by metis

lemmas map_invD = handle_owned owned_alive owned_key destroying_hidden destroying_once readers_counted waiting_readers handles_bound deleted_once

lemma map_invI:
  assumes "\<And>k i. (k, i) \<in># sm_handles s \<Longrightarrow> owned s k i"
    "\<And>k i. owned s k i \<Longrightarrow> i \<notin> set (sm_deleted s)"
    "\<And>k k' i. owned s k i \<Longrightarrow> owned s k' i \<Longrightarrow> k = k'"
    "\<And>t k i. destroying (sm_pc s t) = Some (k, i) \<Longrightarrow> \<exists>e. sm_map s k = Some e \<and> me_item e = None"
    "\<And>t t' k i i'. destroying (sm_pc s t) = Some (k, i) \<Longrightarrow> destroying (sm_pc s t') = Some (k, i') \<Longrightarrow> t = t'"
    "\<And>k e. sm_map s k = Some e \<Longrightarrow> unat (numReaders e) = readers k (sm_handles s)"
    "\<And>t k i e. sm_pc s t = Destroy_Wait k i \<Longrightarrow> sm_map s k = Some e \<Longrightarrow> numReaders e \<noteq> 0 \<and> i \<in> set (sm_stopped s)"
    "size (sm_handles s) < 2 ^ 32" "distinct (sm_deleted s)"
  shows "map_inv s"
  unfolding map_inv_def by (intro conjI allI impI; (elim conjE)?; metis assms)

lemma owned_in_map: "map_inv s \<Longrightarrow> owned s k i \<Longrightarrow> \<exists>e. sm_map s k = Some e"
  by (auto simp: owned_def dest: map_invD(4))

lemma no_entry_no_readers: "map_inv s \<Longrightarrow> sm_map s k = None \<Longrightarrow> readers k (sm_handles s) = 0"
  using owned_in_map map_invD(1) by (fastforce simp: readers_def)

lemma wake_destroying [simp]: "destroying (map_wake p) = destroying p"
  by (cases p) auto

lemma wake_no_wait [simp]: "map_wake p \<noteq> Destroy_Wait k i"
  by (cases p) auto

text \<open>A change of the program counters that no destruction notices.\<close>

lemma map_inv_pc:
  assumes inv: "map_inv s" and d: "\<And>t. destroying (pc' t) = destroying (sm_pc s t)"
    and w: "\<And>t k i. pc' t = Destroy_Wait k i \<Longrightarrow> sm_pc s t = Destroy_Wait k i"
  shows "map_inv (s\<lparr>sm_pc := pc'\<rparr>)"
proof -
  have own: "owned (s\<lparr>sm_pc := pc'\<rparr>) k i = owned s k i" for k i by (simp add: owned_def d)
  show ?thesis
  proof (rule map_invI, goal_cases)
    case (3 k k' i) then show ?case using owned_key [OF inv] by (simp add: own)
  next
    case (5 t t' k i i') then show ?case using destroying_once [OF inv] by (simp add: d)
  next
    case (7 t k i e) then show ?case using waiting_readers [OF inv w [of t k i], of e] by simp
  qed (use handle_owned [OF inv] owned_alive [OF inv] destroying_hidden [OF inv] readers_counted [OF inv]
        handles_bound [OF inv] deleted_once [OF inv] in \<open>simp_all add: own d\<close>)
qed

lemma map_inv_notify:
  "map_inv s \<Longrightarrow> notify_one ws map_wake (sm_pc s) pc' \<Longrightarrow> map_inv (s\<lparr>sm_pc := pc'\<rparr>)"
  using notify_one_pointwise [of ws map_wake "sm_pc s" pc']
  by (intro map_inv_pc) (assumption, metis wake_destroying, metis wake_no_wait)

lemma map_inv_add:
  assumes inv: "map_inv s" and add: "addElement (sm_map s) k x = (b, m')"
    and fresh: "\<And>i. x = Some i \<Longrightarrow> fresh_item s i"
  shows "map_inv (s\<lparr>sm_map := m'\<rparr>)"
proof (cases "sm_map s k")
  case None
  then have m': "m' = (sm_map s)(k \<mapsto> \<lparr>me_item = x, numReaders = 0\<rparr>)"
    using add by (auto simp: addElement_def element_at_def)
  have own: "owned (s\<lparr>sm_map := m'\<rparr>) k' i \<longleftrightarrow> owned s k' i \<or> k' = k \<and> x = Some i" for k' i
    using None by (auto simp: owned_def m')
  have z: "readers k (sm_handles s) = 0" by (rule no_entry_no_readers [OF inv None])
  have nd: "destroying (sm_pc s t) \<noteq> Some (k, i)" for t i using map_invD(4) [OF inv] None by fastforce
  show ?thesis
  proof (rule map_invI, goal_cases)
    case (2 k' i) then show ?case using owned_alive [OF inv, of k' i] fresh by (auto simp: own fresh_item_def)
  next
    case (3 k1 k2 i) then show ?case using owned_key [OF inv, of k1 i k2] fresh by (auto simp: own fresh_item_def)
  next
    case (4 t k' i) then show ?case using destroying_hidden [OF inv, of t k' i] nd [of t i] by (auto simp: m')
  next
    case (5 t t' k i i') then show ?case using destroying_once [OF inv] by simp
  next
    case (6 k' e) then show ?case using readers_counted [OF inv, of k' e] z by (auto simp: m' split: if_splits)
  next
    case (7 t k' i e)
    then have "k' \<noteq> k" using nd [of t i] by auto
    then show ?case using 7 waiting_readers [OF inv, of t k' i e] by (simp add: m')
  qed (use handle_owned [OF inv] handles_bound [OF inv] deleted_once [OF inv] in \<open>simp_all add: own\<close>)
next
  case (Some e)
  then have "s\<lparr>sm_map := m'\<rparr> = s" using add by (auto simp: addElement_def)
  then show ?thesis using inv by simp
qed

lemma readers_le: "readers k H \<le> size H"
  unfolding readers_def by (rule size_filter_mset_lesseq)

lemma map_inv_open:
  assumes inv: "map_inv s" and op: "openElement (sm_map s) k = (r, m')" and sz: "size (sm_handles s) < 2 ^ 32 - 1"
  shows "map_inv (s\<lparr>sm_map := m', sm_handles := sm_handles s + (case r of None \<Rightarrow> {#} | Some i \<Rightarrow> {#(k, i)#})\<rparr>)"
proof (cases r)
  case None
  then have "m' = sm_map s" using op by (auto simp: openElement_def split: option.splits)
  then show ?thesis using inv None by simp
next
  case (Some i)
  then obtain e where e: "sm_map s k = Some e" "me_item e = Some i" "m' = (sm_map s)(k \<mapsto> e\<lparr>numReaders := numReaders e + 1\<rparr>)"
    using op by (auto simp: openElement_def split: option.splits)
  let ?s = "s\<lparr>sm_map := m', sm_handles := add_mset (k, i) (sm_handles s)\<rparr>"
  have own: "owned ?s k' i' \<longleftrightarrow> owned s k' i'" for k' i' using e by (auto simp: owned_def)
  have n: "unat (numReaders e) < 2 ^ 32 - 1"
    using map_invD(6) [OF inv e(1)] sz readers_le [of k "sm_handles s"] by simp
  then have n1: "unat (numReaders e + 1) = Suc (readers k (sm_handles s))"
    using map_invD(6) [OF inv e(1)] by (simp add: unat_word_ariths)
  then have nz: "numReaders e + 1 \<noteq> 0" by (metis nat.distinct(1) unat_0)
  have i: "owned s k i" using e by (auto simp: owned_def)
  have "map_inv ?s"
  proof (rule map_invI, goal_cases)
    case (1 k' i') then show ?case using handle_owned [OF inv, of k' i'] i by (auto simp: own)
  next
    case (3 k1 k2 i) then show ?case using owned_key [OF inv, of k1 i k2] by (simp add: own)
  next
    case (4 t k' i') then show ?case using destroying_hidden [OF inv, of t k' i'] e by auto
  next
    case (5 t t' k i i') then show ?case using destroying_once [OF inv] by simp
  next
    case (6 k' e')
    then show ?case using readers_counted [OF inv, of k' e'] e n1 by (auto simp: readers_def split: if_splits)
  next
    case (7 t k' i' e')
    then show ?case using waiting_readers [OF inv, of t k' i'] e nz by (auto split: if_splits)
  qed (use owned_alive [OF inv] deleted_once [OF inv] sz in \<open>simp_all add: own\<close>)
  then show ?thesis using Some by simp
qed

lemma readers_minus: "(k, i) \<in># H \<Longrightarrow> readers k' (H - {#(k, i)#}) = readers k' H - (if k' = k then 1 else 0)"
  by (auto simp: readers_def size_Diff_singleton)

lemma readers_pos: "(k, i) \<in># H \<Longrightarrow> readers k H > 0"
  unfolding readers_def by (metis (mono_tags, lifting) fst_conv filter_mset_eq_mempty_iff nonempty_has_size)

text \<open>A client that releases what it has opened never gets an exception.\<close>

lemma release_held:
  assumes inv: "map_inv s" and h: "(k, i) \<in># sm_handles s"
  obtains e where "sm_map s k = Some e" "numReaders e \<noteq> 0"
    "unat (numReaders e - 1) = readers k (sm_handles s) - 1"
    "releaseElement (sm_map s) k =
       Inr (True, numReaders e = 1, (sm_map s)(k \<mapsto> e\<lparr>numReaders := numReaders e - 1\<rparr>))"
proof -
  obtain e where e: "sm_map s k = Some e" using owned_in_map [OF inv handle_owned [OF inv h]] by blast
  have c: "unat (numReaders e) = readers k (sm_handles s)" by (rule readers_counted [OF inv e])
  then have nz: "numReaders e \<noteq> 0" using readers_pos [OF h] by auto
  then have "unat (numReaders e - 1) = readers k (sm_handles s) - 1"
    using c by (simp add: unat_minus_one)
  then show thesis using that e nz by (simp add: releaseElement_def)
qed

lemma map_inv_release:
  assumes inv: "map_inv s" and h: "(k, i) \<in># sm_handles s"
    and rel: "releaseElement (sm_map s) k = Inr (b, notify, m')"
    and wake: "if notify then notify_one (waits_readers k) map_wake (sm_pc s) pc' else pc' = sm_pc s"
  shows "map_inv (s\<lparr>sm_map := m', sm_pc := pc', sm_handles := sm_handles s - {#(k, i)#}\<rparr>)" (is "map_inv ?s")
proof -
  obtain e where e: "sm_map s k = Some e" "numReaders e \<noteq> 0" "unat (numReaders e - 1) = readers k (sm_handles s) - 1"
      "notify = (numReaders e = 1)" "m' = (sm_map s)(k \<mapsto> e\<lparr>numReaders := numReaders e - 1\<rparr>)"
    by (rule release_held [OF inv h]) (use rel in auto)
  have d: "destroying (pc' t) = destroying (sm_pc s t)" and w: "pc' t = Destroy_Wait k' i' \<Longrightarrow> sm_pc s t = Destroy_Wait k' i'" for t k' i'
    using wake notify_one_pointwise [of "waits_readers k" map_wake "sm_pc s" pc' t] wake_no_wait [of "sm_pc s t" k' i'] by (auto split: if_splits simp del: wake_no_wait)
  have own: "owned ?s k' i' \<longleftrightarrow> owned s k' i'" for k' i' using e by (auto simp: owned_def d)
  have last: "numReaders e \<noteq> 1" if t: "pc' t = Destroy_Wait k i'" for t i'
  proof
    assume "numReaders e = 1"
    then have n: "notify_one (waits_readers k) map_wake (sm_pc s) pc'" using wake e(4) by simp
    have "waits_readers k (sm_pc s t)" using w [OF t] by simp
    then obtain u where u: "waits_readers k (sm_pc s u)" "pc' = (sm_pc s)(u := map_wake (sm_pc s u))"
      using n by (auto simp: notify_one_def)
    then obtain i2 where "sm_pc s u = Destroy_Wait k i2" by (cases "sm_pc s u") auto
    then have "u = t" using destroying_once [OF inv, of u k i2 t i'] w [OF t] by simp
    then show False using u t by simp
  qed
  show ?thesis
  proof (rule map_invI, goal_cases)
    case (1 k' i') then show ?case using handle_owned [OF inv, of k' i'] by (auto simp: own dest: in_diffD)
  next
    case (3 k1 k2 i) then show ?case using owned_key [OF inv, of k1 i k2] by (simp add: own)
  next
    case (4 t k' i') then show ?case using destroying_hidden [OF inv, of t k' i'] e by (auto simp: d)
  next
    case (5 t t' k i i') then show ?case using destroying_once [OF inv] by (simp add: d)
  next
    case (6 k' e')
    then show ?case using readers_counted [OF inv, of k' e'] e readers_minus [OF h] by (auto split: if_splits)
  next
    case (7 t k' i' e')
    then show ?case using waiting_readers [OF inv w [of t k' i']] last [of t i'] e by (auto split: if_splits)
  next
    case 8 then show ?case using handles_bound [OF inv] h by (simp add: size_Diff_singleton)
  qed (use owned_alive [OF inv] deleted_once [OF inv] in \<open>simp_all add: own\<close>)
qed

text \<open>The critical section of a destruction: before it either the element is visible and no
  other thread destroys it, or thread \<open>t\<close> itself does.\<close>

lemma map_inv_destroy_loop:
  assumes inv: "map_inv s" and own: "owned s k i"
    and m: "m = (sm_map s)(k \<mapsto> e\<lparr>me_item := None\<rparr>)" "sm_map s k = Some e"
    and t: "destroying (sm_pc s t) = None \<and> me_item e = Some i \<or> destroying (sm_pc s t) = Some (k, i)"
    and d: "destroyed s t (destroy_loop k i m) s'"
  shows "map_inv s'"
proof -
  have other: "destroying (sm_pc s u) \<noteq> Some (k, i')" if "u \<noteq> t" for u i'
    using that t m(2) destroying_hidden [OF inv, of u k i'] destroying_once [OF inv, of u k i' t i] by auto
  have hidden: "me_item e = None" if "destroying (sm_pc s t) = Some (k, i)"
    using destroying_hidden [OF inv that] m(2) by simp
  have only: "i' = i" if o: "owned s k i'" for i'
  proof (cases "me_item e = Some i'")
    case True then show ?thesis using t hidden by auto
  next
    case False
    then obtain u where "destroying (sm_pc s u) = Some (k, i')" using o m(2) by (auto simp: owned_def)
    then show ?thesis using other [of u i'] t by (cases "u = t") auto
  qed
  have elsewhere: "(\<exists>u. destroying (((sm_pc s)(t := p)) u) = Some (k', i')) \<longleftrightarrow> (\<exists>u. destroying (sm_pc s u) = Some (k', i'))"
    if "k' \<noteq> k" "destroying p = None \<or> destroying p = Some (k, i)" for p k' i'
    using that t by (metis (no_types, lifting) fun_upd_apply option.distinct(1) option.inject prod.inject)
  show ?thesis
  proof (cases "numReaders e = 0")
    case False
    let ?s = "s\<lparr>sm_map := m, sm_stopped := i # sm_stopped s, sm_pc := (sm_pc s)(t := Destroy_Wait k i)\<rparr>"
    have s': "s' = ?s" using d False m by (simp add: destroy_loop_def element_at_def)
    have own': "owned ?s k' i' \<longleftrightarrow> owned s k' i'" for k' i'
    proof (cases "k' = k")
      case True
      have "(\<exists>u. destroying (((sm_pc s)(t := Destroy_Wait k i)) u) = Some (k, i')) \<longleftrightarrow> i' = i"
        using other by (metis destroying.simps(2) fun_upd_apply option.inject prod.inject)
      then have "owned ?s k i' \<longleftrightarrow> i' = i" using m by (simp add: owned_def)
      then show ?thesis unfolding True using own only by blast
    next
      case False then show ?thesis using elsewhere [of k' "Destroy_Wait k i"] m by (simp add: owned_def)
    qed
    show ?thesis unfolding s'
    proof (rule map_invI, goal_cases)
      case (3 k1 k2 i) then show ?case using owned_key [OF inv, of k1 i k2] by (simp only: own')
    next
      case (4 u k' i') then show ?case using destroying_hidden [OF inv, of u k' i'] m by (auto split: if_splits)
    next
      case (5 u u' k' i1 i2)
      then show ?case using destroying_once [OF inv, of u k' i1 u' i2] other by (auto split: if_splits)
    next
      case (6 k' e') then show ?case using readers_counted [OF inv, of k'] m by (auto split: if_splits)
    next
      case (7 u k' i' e')
      then show ?case using waiting_readers [OF inv, of u k' i'] m False other [of u i'] by (auto split: if_splits)
    qed (use handle_owned [OF inv] owned_alive [OF inv] handles_bound [OF inv] deleted_once [OF inv] in \<open>simp_all add: own'\<close>)
  next
    case True
    let ?s = "s\<lparr>sm_map := (sm_map s)(k := None), sm_deleted := i # sm_deleted s, sm_pc := (sm_pc s)(t := M_Ret True)\<rparr>"
    have own': "owned ?s k' i' \<longleftrightarrow> owned s k' i' \<and> k' \<noteq> k" for k' i'
    proof (cases "k' = k")
      case True
      have "destroying (((sm_pc s)(t := M_Ret True)) u) \<noteq> Some (k, i')" for u using other by simp
      then show ?thesis using True by (simp add: owned_def)
    next
      case False then show ?thesis using elsewhere [of k' "M_Ret True"] by (simp add: owned_def)
    qed
    have no: "(k, i') \<notin># sm_handles s" for i'
      using readers_counted [OF inv m(2)] True readers_pos [of k i' "sm_handles s"] by auto
    have "map_inv ?s"
    proof (rule map_invI, goal_cases)
      case (1 k' i') then show ?case using handle_owned [OF inv, of k' i'] no by (auto simp: own')
    next
      case (2 k' i') then show ?case using owned_alive [OF inv, of k' i'] owned_key [OF inv own, of k'] by (auto simp: own')
    next
      case (3 k1 k2 i) then show ?case using owned_key [OF inv, of k1 i k2] by (simp add: own')
    next
      case (4 u k' i') then show ?case using destroying_hidden [OF inv, of u k' i'] other [of u i'] by (auto split: if_splits)
    next
      case (5 u u' k' i1 i2) then show ?case using destroying_once [OF inv, of u k' i1 u' i2] by (auto split: if_splits)
    next
      case (6 k' e') then show ?case using readers_counted [OF inv, of k'] by (auto split: if_splits)
    next
      case (7 u k' i' e') then show ?case using waiting_readers [OF inv, of u k' i'] by (auto split: if_splits)
    next
      case 9 then show ?case using deleted_once [OF inv] owned_alive [OF inv own] by simp
    qed (use handles_bound [OF inv] in simp_all)
    moreover have "m(k := None) = (sm_map s)(k := None)" by (simp add: m)
    ultimately show ?thesis
      using d True m(1) map_inv_notify [of ?s]
      by (auto simp: destroy_loop_def element_at_def split: if_splits)
  qed
qed

lemma map_inv_step:
  assumes inv: "map_inv s" and step: "map_step s e s'"
  shows "map_inv s'"
  using step
proof cases
  case (m_add k x b m') then show ?thesis using map_inv_add [OF inv] by blast
next
  case (m_open k r m') then show ?thesis using map_inv_open [OF inv] by blast
next
  case (m_release k i b notify m' pc') then show ?thesis using map_inv_release [OF inv] by blast
next
  case (m_destroy t k r)
  show ?thesis
  proof (cases "\<exists>e i. sm_map s k = Some e \<and> me_item e = Some i")
    case True
    then obtain e i where e: "sm_map s k = Some e" "me_item e = Some i" by blast
    then have "owned s k i" by (auto simp: owned_def)
    from map_inv_destroy_loop [OF inv this refl e(1), of t s'] show ?thesis
      using m_destroy e by (auto simp: destroyElement_def)
  next
    case False
    then have r: "r = (M_Ret False, sm_map s, [], [])" using m_destroy(3) by (auto simp: destroyElement_def split: option.splits)
    have "map_inv (s\<lparr>sm_pc := (sm_pc s)(t := M_Ret False)\<rparr>)"
      by (rule map_inv_pc [OF inv]) (use m_destroy(2) in \<open>auto split: if_splits\<close>)
    then show ?thesis using m_destroy(4) by (simp add: r)
  qed
next
  case (m_destroy_again t k i r)
  then have d: "destroying (sm_pc s t) = Some (k, i)" by simp
  then obtain e where e: "sm_map s k = Some e" "me_item e = None" using destroying_hidden [OF inv] by blast
  then have "(sm_map s)(k \<mapsto> e\<lparr>me_item := None\<rparr>) = sm_map s" by (cases e) auto
  moreover have "owned s k i" using d by (auto simp: owned_def)
  ultimately show ?thesis using map_inv_destroy_loop [OF inv _ _ e(1)] d m_destroy_again by metis
next
  case (m_wait_empty t)
  then show ?thesis
    by (auto intro!: map_inv_pc [OF inv] simp: waitForEmptyMap_def split: if_splits)
next
  case (m_spurious t)
  then show ?thesis by (auto intro!: map_inv_pc [OF inv] split: if_splits)
next
  case (m_return t b)
  then show ?thesis by (auto intro!: map_inv_pc [OF inv] split: if_splits)
qed

interpretation smap: history_invariant map_init map_step "\<lambda>_. map_inv"
proof
  show "map_inv (map_init :: ('k, 'i) map_system)"
    by (intro map_invI) (auto simp: map_init_def owned_def)
qed (rule map_inv_step)

lemma destroy_ends:
  assumes "map_inv s" "sm_pc s t = Destroy_Loop k i" "readers k (sm_handles s) = 0"
  shows "destroy_loop k i (sm_map s) = (M_Ret True, (sm_map s)(k := None), [i], [])"
proof -
  obtain e where e: "sm_map s k = Some e" using destroying_hidden [OF assms(1), of t k i] assms(2) by auto
  then have "numReaders e = 0" using readers_counted [OF assms(1) e] assms(3) by (simp add: unat_eq_zero)
  then show ?thesis using e by (simp add: destroy_loop_def element_at_def)
qed

lemma hidden_refuses:
  assumes "map_inv s" "destroying (sm_pc s t) = Some (k, i)"
  shows "openElement (sm_map s) k = (None, sm_map s)" "addElement (sm_map s) k x = (False, sm_map s)"
    "destroyElement k (sm_map s) = (M_Ret False, sm_map s, [], [])"
  using destroying_hidden [OF assms]
  by (auto simp: openElement_def addElement_def destroyElement_def)

text \<open>An element added with a null object can be neither opened nor destroyed nor replaced.\<close>

lemma null_element_stays:
  assumes "addElement m k None = (True, m')"
  shows "openElement m' k = (None, m')" "destroyElement k m' = (M_Ret False, m', [], [])" "addElement m' k x = (False, m')"
  using assms by (auto simp: addElement_def openElement_def destroyElement_def split: if_splits)

section \<open>Properties\<close>

text \<open>A thread destroys an element that a reader holds.\<close>

definition demo_map :: "(nat, nat) map_system" where
  "demo_map = map_init\<lparr>sm_map := [5 \<mapsto> \<lparr>me_item = None, numReaders = 1\<rparr>], sm_handles := {#(5, 10)#},
     sm_stopped := [10], sm_pc := (\<lambda>_. M_Idle)(0 := Destroy_Wait 5 10)\<rparr>"

lemma demo_map_run: "run map_step map_init [(), (), ()] demo_map"
proof -
  let ?s1 = "map_init\<lparr>sm_map := [5 \<mapsto> \<lparr>me_item = Some 10, numReaders = 0\<rparr>]\<rparr> :: (nat, nat) map_system"
  let ?s2 = "?s1\<lparr>sm_map := [5 \<mapsto> \<lparr>me_item = Some 10, numReaders = 1\<rparr>], sm_handles := {#(5, 10)#}\<rparr>"
  have 1: "map_step map_init () ?s1"
    using m_add [of map_init "5 :: nat" "Some (10 :: nat)" True "[5 \<mapsto> \<lparr>me_item = Some 10, numReaders = 0\<rparr>]"]
    by (simp add: addElement_def element_at_def fresh_item_def owned_def map_init_def)
  have 2: "map_step ?s1 () ?s2"
    using m_open [of ?s1 5 "Some 10" "[5 \<mapsto> \<lparr>me_item = Some 10, numReaders = 1\<rparr>]"]
    by (simp add: openElement_def map_init_def)
  have 3: "map_step ?s2 () demo_map"
    by (rule m_destroy [of _ 0 5, OF _ refl])
       (simp_all add: map_init_def demo_map_def destroyElement_def destroy_loop_def element_at_def)
  show ?thesis by (rule run_Cons [of map_step, OF 1 run_Cons [of map_step, OF 2 run_single [of map_step, OF 3]]])
qed

text \<open>C16: in every reachable state no client holds an object that has been deleted, no object has
  been deleted twice, every reader counter is the number of openings not yet released, and
  releasing an opened element never throws. While an element is being destroyed it can be neither
  opened nor destroyed again, and its key cannot be taken.\<close>

theorem map_no_use_after_free:
  assumes "run map_step map_init tr s"
  shows "(\<forall>k i. (k, i) \<in># sm_handles s \<longrightarrow> i \<notin> set (sm_deleted s) \<and> releaseElement (sm_map s) k \<noteq> Inl Invalid_close) \<and>
    distinct (sm_deleted s) \<and>
    (\<forall>k e. sm_map s k = Some e \<longrightarrow> unat (numReaders e) = readers k (sm_handles s)) \<and>
    (\<forall>t k i x. destroying (sm_pc s t) = Some (k, i) \<longrightarrow> openElement (sm_map s) k = (None, sm_map s) \<and>
      destroyElement k (sm_map s) = (M_Ret False, sm_map s, [], []) \<and> addElement (sm_map s) k x = (False, sm_map s))"
proof -
  have inv: "map_inv s" by (rule smap.inv_run [OF assms])
  have "releaseElement (sm_map s) k \<noteq> Inl Invalid_close" if "(k, i) \<in># sm_handles s" for k i
    by (rule release_held [OF inv that]) simp
  then show ?thesis
    using owned_alive [OF inv handle_owned [OF inv]] deleted_once [OF inv] readers_counted [OF inv] hidden_refuses [OF inv]
    by blast
qed

theorem map_no_use_after_free_witness:
  "10 \<notin> set (sm_deleted demo_map) \<and> openElement (sm_map demo_map) 5 = (None, sm_map demo_map)"
proof -
  have "(5, 10) \<in># sm_handles demo_map" "destroying (sm_pc demo_map 0) = Some (5, 10)" by (simp_all add: demo_map_def)
  then show ?thesis using map_no_use_after_free [OF demo_map_run] by blast
qed

text \<open>C22: a destruction waits only for readers. A thread waits in \<open>destroyElement\<close> only while some
  client holds the element, and it has told the readers to stop; when there are none left it is
  awake, and its next step deletes the object and removes the key. The release that takes the
  last reader away wakes it, so no destruction is left behind.\<close>

theorem destroy_waits_for_readers:
  assumes "run map_step map_init tr s"
  shows "(\<forall>t k i. sm_pc s t = Destroy_Wait k i \<longrightarrow> readers k (sm_handles s) > 0 \<and> i \<in> set (sm_stopped s)) \<and>
    (\<forall>t k i. destroying (sm_pc s t) = Some (k, i) \<and> readers k (sm_handles s) = 0 \<longrightarrow>
      sm_pc s t = Destroy_Loop k i \<and> destroy_loop k i (sm_map s) = (M_Ret True, (sm_map s)(k := None), [i], []))"
proof -
  have inv: "map_inv s" by (rule smap.inv_run [OF assms])
  have w: "readers k (sm_handles s) > 0 \<and> i \<in> set (sm_stopped s)" if t: "sm_pc s t = Destroy_Wait k i" for t k i
  proof -
    obtain e where e: "sm_map s k = Some e" using destroying_hidden [OF inv, of t k i] t by auto
    then show ?thesis using waiting_readers [OF inv t e] readers_counted [OF inv e] by (metis gr0I unat_eq_zero)
  qed
  have "sm_pc s t = Destroy_Loop k i" if "destroying (sm_pc s t) = Some (k, i)" "readers k (sm_handles s) = 0" for t k i
    using that w [of t k i] by (cases "sm_pc s t") auto
  then show ?thesis using w destroy_ends [OF inv] by blast
qed

theorem destroy_waits_for_readers_witness: "readers 5 (sm_handles demo_map) > 0 \<and> 10 \<in> set (sm_stopped demo_map)"
proof -
  have "sm_pc demo_map 0 = Destroy_Wait 5 10" by (simp add: demo_map_def)
  then show ?thesis using destroy_waits_for_readers [OF demo_map_run] by blast
qed

text \<open>Only one of the threads in \<open>waitForEmptyMap\<close> learns that the map is empty, since the last
  destruction calls \<open>notify_one\<close>: there is an execution after which the map is empty, every other
  thread has left, and a thread still waits for the map to become empty.\<close>

theorem empty_map_wakes_one_waiter:
  "\<exists>tr (s :: (nat, nat) map_system). run map_step map_init tr s \<and> sm_map s = Map.empty \<and>
     sm_pc s = (\<lambda>_. M_Idle)(1 := Empty_Wait)"
proof -
  let ?m = "[5 \<mapsto> \<lparr>me_item = Some 10, numReaders = 0\<rparr>] :: (nat, nat) safe_map"
  let ?w1 = "(\<lambda>_. M_Idle)(1 := Empty_Wait) :: nat \<Rightarrow> (nat, nat) map_pc"
  let ?e = "map_init\<lparr>sm_map := Map.empty, sm_deleted := [10]\<rparr> :: (nat, nat) map_system"
  let ?s1 = "map_init\<lparr>sm_map := ?m\<rparr>"
  have 1: "map_step map_init () ?s1"
    using m_add [of map_init "5 :: nat" "Some (10 :: nat)" True ?m]
    by (simp add: addElement_def element_at_def fresh_item_def owned_def map_init_def)
  have 2: "map_step ?s1 () (?s1\<lparr>sm_pc := ?w1\<rparr>)"
    using m_wait_empty [of ?s1 1] by (simp add: waitForEmptyMap_def map_init_def)
  have 3: "map_step (?s1\<lparr>sm_pc := ?w1\<rparr>) () (?s1\<lparr>sm_pc := ?w1(2 := Empty_Wait)\<rparr>)"
    using m_wait_empty [of "?s1\<lparr>sm_pc := ?w1\<rparr>" 2] by (simp add: waitForEmptyMap_def map_init_def)
  have "notify_one (\<lambda>p. p = Empty_Wait) map_wake (?w1(2 := Empty_Wait, 0 := M_Ret True)) (?w1(2 := Empty_Loop, 0 := M_Ret True))"
    unfolding notify_one_def by (intro disjI1 exI [of _ 2]) (auto simp: fun_eq_iff)
  then have 4: "map_step (?s1\<lparr>sm_pc := ?w1(2 := Empty_Wait)\<rparr>) () (?e\<lparr>sm_pc := ?w1(2 := Empty_Loop, 0 := M_Ret True)\<rparr>)"
    by (intro m_destroy [of _ 0 5, OF _ refl]) (simp_all add: map_init_def destroyElement_def destroy_loop_def element_at_def)
  have 5: "map_step (?e\<lparr>sm_pc := ?w1(2 := Empty_Loop, 0 := M_Ret True)\<rparr>) () (?e\<lparr>sm_pc := ?w1(2 := M_Ret True, 0 := M_Ret True)\<rparr>)"
    using m_wait_empty [of "?e\<lparr>sm_pc := ?w1(2 := Empty_Loop, 0 := M_Ret True)\<rparr>" 2]
    by (simp add: waitForEmptyMap_def map_init_def fun_upd_twist)
  have 6: "map_step (?e\<lparr>sm_pc := ?w1(2 := M_Ret True, 0 := M_Ret True)\<rparr>) () (?e\<lparr>sm_pc := ?w1(2 := M_Ret True)\<rparr>)"
    using m_return [of "?e\<lparr>sm_pc := ?w1(2 := M_Ret True, 0 := M_Ret True)\<rparr>" 0 True] by (simp add: fun_upd_idem)
  have 7: "map_step (?e\<lparr>sm_pc := ?w1(2 := M_Ret True)\<rparr>) () (?e\<lparr>sm_pc := ?w1\<rparr>)"
    using m_return [of "?e\<lparr>sm_pc := ?w1(2 := M_Ret True)\<rparr>" 2 True] by (simp add: fun_upd_idem)
  have "run map_step map_init [(), (), (), (), (), (), ()] (?e\<lparr>sm_pc := ?w1\<rparr>)"
    by (rule run_Cons [of map_step, OF 1 run_Cons [of map_step, OF 2 run_Cons [of map_step, OF 3 run_Cons [of map_step, OF 4 run_Cons [of map_step, OF 5 run_Cons [of map_step, OF 6 run_single [of map_step, OF 7]]]]]]])
  then show ?thesis by (intro exI [of _ "[(), (), (), (), (), (), ()]"] exI [of _ "?e\<lparr>sm_pc := ?w1\<rparr>"]) simp
qed

end
