(* ===== verification/Thread_Pool.thy ===== *)
theory Thread_Pool
  imports Concurrency "HOL-Library.Multiset"
begin

text \<open>
  \<open>Threads/threadpool.{h,cpp}\<close> and the shuffle of \<open>Helpers/random.h\<close>: a pool of worker threads
  over several task queues. A task is put into a random queue among the first ones of a shuffle
  seeded with its key, and a worker takes the first task of a random queue that is not empty. The
  random draws are arguments (\<open>dis i\<close> is a draw between \<open>0\<close> and \<open>i\<close>), and the steps of the threads
  allow every draw. A critical section is one step; \<open>stop\<close>, \<open>pushTask\<close> and \<open>popTask\<close> notify after they
  have released the mutex, which is a step of its own.
\<close>

section \<open>Random choice of a queue\<close>

fun shuffle_loop :: "(nat \<Rightarrow> nat) \<Rightarrow> nat \<Rightarrow> 'a list \<Rightarrow> 'a list" where
  "shuffle_loop dis 0 xs = xs"
| "shuffle_loop dis (Suc i) xs = (let j = dis (Suc i) in shuffle_loop dis i (xs[Suc i := xs ! j, j := xs ! Suc i]))"

definition safe_random_shuffle :: "(nat \<Rightarrow> nat) \<Rightarrow> 'a list \<Rightarrow> 'a list" where
  "safe_random_shuffle dis xs = (if length xs \<le> 1 then xs else shuffle_loop dis (length xs - 1) xs)"

text \<open>\<open>want\<close> is the number of queues times the priority, truncated; \<open>r\<close> is the draw among the
  chosen ones.\<close>

definition queue_choices :: "nat \<Rightarrow> nat \<Rightarrow> nat" where
  "queue_choices n want = (let elements = (if want = 0 then 1 else want) in if elements > n then n else elements)"

definition getRandomQueueByKey :: "(nat \<Rightarrow> nat) \<Rightarrow> nat \<Rightarrow> nat \<Rightarrow> nat \<Rightarrow> nat" where
  "getRandomQueueByKey dis n want r = take (queue_choices n want) (safe_random_shuffle dis [0..<n]) ! r"

definition getRandomTaskQueueWithElements :: "(nat \<Rightarrow> nat) \<Rightarrow> 'a list list \<Rightarrow> nat option" where
  "getRandomTaskQueueWithElements dis qs = List.find (\<lambda>i. qs ! i \<noteq> []) (safe_random_shuffle dis [0..<length qs])"

section \<open>The pool and its critical sections\<close>

record ('f, 'd) Task =
  t_task :: "'f option"
  t_data :: "'d option"

definition isNull :: "('f, 'd) Task \<Rightarrow> bool" where
  "isNull t = (t_task t = None \<and> t_data t = None)"

record ('f, 'd) thread_pool =
  m_queues :: "('f, 'd) Task list list"
  m_terminate :: bool
  m_maxTasksPerQueue :: nat

definition ThreadPool_new :: "nat \<Rightarrow> ('f, 'd) thread_pool" where
  "ThreadPool_new taskQueues = \<lparr>m_queues = replicate taskQueues [], m_terminate = False, m_maxTasksPerQueue = 100\<rparr>"

text \<open>The notification of \<open>setMaxTasksPerQueue\<close> reaches nobody when it is called before the pool is
  started, as here.\<close>

definition setMaxTasksPerQueue :: "('f, 'd) thread_pool \<Rightarrow> nat \<Rightarrow> ('f, 'd) thread_pool" where
  "setMaxTasksPerQueue tp v = tp\<lparr>m_maxTasksPerQueue := v\<rparr>"

definition stop :: "('f, 'd) thread_pool \<Rightarrow> ('f, 'd) thread_pool" where
  "stop tp = tp\<lparr>m_terminate := True\<rparr>"

text \<open>Where a worker is (calling \<open>popTask\<close>, waiting for a task, woken, with a task before the
  notification, running it, finished) and where a client is: calling \<open>pushTask\<close> with a queue, a
  task and a time-out, waiting for room, woken, before the notification; inside \<open>stop\<close> before the
  notification.\<close>

datatype ('f, 'd) pool_pc =
    W_Pop | W_Wait | W_Woken | W_Notify nat "('f, 'd) Task" | W_Run "('f, 'd) Task" | W_Done
  | C_Idle | C_Push nat "('f, 'd) Task" | C_Wait nat "('f, 'd) Task" | C_Woken nat "('f, 'd) Task" | C_Notify | C_Ret bool
  | S_Notify

definition take_task :: "nat \<Rightarrow> ('f, 'd) thread_pool \<Rightarrow> ('f, 'd) pool_pc \<times> ('f, 'd) thread_pool" where
  "take_task q tp = (W_Notify q (hd (m_queues tp ! q)), tp\<lparr>m_queues := (m_queues tp)[q := tl (m_queues tp ! q)]\<rparr>)"

text \<open>\<open>popTask\<close> up to its first wait, and from a wake-up to the next wait.\<close>

definition popTask :: "(nat \<Rightarrow> nat) \<Rightarrow> ('f, 'd) thread_pool \<Rightarrow> ('f, 'd) pool_pc \<times> ('f, 'd) thread_pool" where
  "popTask dis tp = (case getRandomTaskQueueWithElements dis (m_queues tp) of
     None \<Rightarrow> (W_Wait, tp) | Some q \<Rightarrow> take_task q tp)"

definition popTask_woken :: "(nat \<Rightarrow> nat) \<Rightarrow> ('f, 'd) thread_pool \<Rightarrow> ('f, 'd) pool_pc \<times> ('f, 'd) thread_pool" where
  "popTask_woken dis tp = (case getRandomTaskQueueWithElements dis (m_queues tp) of
     None \<Rightarrow> (if m_terminate tp then W_Done else W_Wait, tp)
   | Some q \<Rightarrow> take_task q tp)"

definition pushTask_loop :: "nat \<Rightarrow> ('f, 'd) Task \<Rightarrow> ('f, 'd) thread_pool \<Rightarrow> ('f, 'd) pool_pc \<times> ('f, 'd) thread_pool" where
  "pushTask_loop q x tp =
     (if length (m_queues tp ! q) > m_maxTasksPerQueue tp then (C_Wait q x, tp)
      else (C_Notify, tp\<lparr>m_queues := (m_queues tp)[q := m_queues tp ! q @ [x]]\<rparr>))"

definition pushTask :: "nat \<Rightarrow> ('f, 'd) Task \<Rightarrow> ('f, 'd) thread_pool \<Rightarrow> ('f, 'd) pool_pc \<times> ('f, 'd) thread_pool" where
  "pushTask q x tp = (if m_terminate tp then (C_Ret False, tp) else pushTask_loop q x tp)"

text \<open>The body of the loop of \<open>taskProcessor\<close> on a task that \<open>popTask\<close> has returned.\<close>

definition taskProcessor :: "('f, 'd) Task \<Rightarrow> ('f, 'd) pool_pc" where
  "taskProcessor x = (if isNull x then W_Done else W_Run x)"

section \<open>The threads\<close>

record ('f, 'd) pool_system =
  ps_pool :: "('f, 'd) thread_pool"
  ps_pc :: "('f, 'd) pool_pc list"

datatype ('f, 'd) pool_event = T_In nat "('f, 'd) Task" | T_Out nat "('f, 'd) Task" | T_Stop | T_Tau

definition taken :: "('f, 'd) pool_pc \<Rightarrow> ('f, 'd) pool_event" where
  "taken p = (case p of W_Notify q x \<Rightarrow> T_Out q x | _ \<Rightarrow> T_Tau)"

definition inserted :: "nat \<Rightarrow> ('f, 'd) Task \<Rightarrow> ('f, 'd) pool_pc \<Rightarrow> ('f, 'd) pool_event" where
  "inserted q x p = (case p of C_Notify \<Rightarrow> T_In q x | _ \<Rightarrow> T_Tau)"

text \<open>A critical section of the thread \<open>p\<close>, for any random draws.\<close>

inductive pool_section :: "('f, 'd) pool_pc \<Rightarrow> ('f, 'd) thread_pool \<Rightarrow> ('f, 'd) pool_event \<Rightarrow> ('f, 'd) pool_pc \<Rightarrow> ('f, 'd) thread_pool \<Rightarrow> bool" where
  w_pop: "\<forall>i. dis i \<le> i \<Longrightarrow> popTask dis tp = (p, tp') \<Longrightarrow> pool_section W_Pop tp (taken p) p tp'"
| w_woken: "\<forall>i. dis i \<le> i \<Longrightarrow> popTask_woken dis tp = (p, tp') \<Longrightarrow> pool_section W_Woken tp (taken p) p tp'"
| w_run: "pool_section (W_Run x) tp T_Tau W_Pop tp"
| c_push: "pushTask q x tp = (p, tp') \<Longrightarrow> pool_section (C_Push q x) tp (inserted q x p) p tp'"
| c_woken: "pushTask_loop q x tp = (p, tp') \<Longrightarrow> pool_section (C_Woken q x) tp (inserted q x p) p tp'"

text \<open>A notification: which threads it may wake, and where it leaves the notifying thread.\<close>

definition removed_waiter :: "nat \<Rightarrow> ('f, 'd) pool_pc \<Rightarrow> bool" where
  "removed_waiter q p \<longleftrightarrow> (\<exists>x. p = C_Wait q x)"

fun pool_wake :: "('f, 'd) pool_pc \<Rightarrow> ('f, 'd) pool_pc" where
  "pool_wake W_Wait = W_Woken"
| "pool_wake (C_Wait q x) = C_Woken q x"
| "pool_wake p = p"

inductive notifies :: "('f, 'd) pool_pc \<Rightarrow> (('f, 'd) pool_pc \<Rightarrow> bool) \<Rightarrow> ('f, 'd) pool_pc \<Rightarrow> bool" where
  "notifies C_Notify (\<lambda>p. p = W_Wait) (C_Ret True)"
| "notifies (W_Notify q x) (removed_waiter q) (taskProcessor x)"

inductive pool_internal :: "('f, 'd) pool_system \<Rightarrow> ('f, 'd) pool_event \<Rightarrow> ('f, 'd) pool_system \<Rightarrow> bool" where
  p_section:
    "t < length pc \<Longrightarrow> pool_section (pc ! t) tp e p tp' \<Longrightarrow>
     pool_internal \<lparr>ps_pool = tp, ps_pc = pc\<rparr> e \<lparr>ps_pool = tp', ps_pc = pc[t := p]\<rparr>"
| p_notify_one:
    "t < length pc \<Longrightarrow> notifies (pc ! t) waits p \<Longrightarrow> u < length pc \<Longrightarrow> waits (pc ! u) \<Longrightarrow>
     pool_internal \<lparr>ps_pool = tp, ps_pc = pc\<rparr> T_Tau \<lparr>ps_pool = tp, ps_pc = pc[t := p, u := pool_wake (pc ! u)]\<rparr>"
| p_notify_none:
    "t < length pc \<Longrightarrow> notifies (pc ! t) waits p \<Longrightarrow> \<forall>x \<in> set pc. \<not> waits x \<Longrightarrow>
     pool_internal \<lparr>ps_pool = tp, ps_pc = pc\<rparr> T_Tau \<lparr>ps_pool = tp, ps_pc = pc[t := p]\<rparr>"
| p_notify_all:
    "t < length pc \<Longrightarrow> pc ! t = S_Notify \<Longrightarrow>
     pool_internal \<lparr>ps_pool = tp, ps_pc = pc\<rparr> T_Tau
       \<lparr>ps_pool = tp, ps_pc = map (\<lambda>x. if x = W_Wait then W_Woken else x) (pc[t := C_Idle])\<rparr>"

text \<open>Calls and returns of the clients, and time-outs. The queue of a push is one that
  \<open>getRandomQueueByKey\<close> can give.\<close>

inductive pool_client :: "('f, 'd) pool_system \<Rightarrow> ('f, 'd) pool_event \<Rightarrow> ('f, 'd) pool_system \<Rightarrow> bool" where
  call_push:
    "t < length pc \<Longrightarrow> pc ! t = C_Idle \<Longrightarrow> \<forall>i. dis i \<le> i \<Longrightarrow>
     r < queue_choices (length (m_queues tp)) want \<Longrightarrow> q = getRandomQueueByKey dis (length (m_queues tp)) want r \<Longrightarrow>
     pool_client \<lparr>ps_pool = tp, ps_pc = pc\<rparr> T_Tau \<lparr>ps_pool = tp, ps_pc = pc[t := C_Push q x]\<rparr>"
| push_timeout:
    "t < length pc \<Longrightarrow> pc ! t = C_Wait q x \<Longrightarrow>
     pool_client \<lparr>ps_pool = tp, ps_pc = pc\<rparr> T_Tau \<lparr>ps_pool = tp, ps_pc = pc[t := C_Ret False]\<rparr>"
| push_return:
    "t < length pc \<Longrightarrow> pc ! t = C_Ret b \<Longrightarrow>
     pool_client \<lparr>ps_pool = tp, ps_pc = pc\<rparr> T_Tau \<lparr>ps_pool = tp, ps_pc = pc[t := C_Idle]\<rparr>"
| call_stop:
    "t < length pc \<Longrightarrow> pc ! t = C_Idle \<Longrightarrow>
     pool_client \<lparr>ps_pool = tp, ps_pc = pc\<rparr> T_Stop \<lparr>ps_pool = stop tp, ps_pc = pc[t := S_Notify]\<rparr>"

inductive pool_spurious :: "('f, 'd) pool_system \<Rightarrow> ('f, 'd) pool_event \<Rightarrow> ('f, 'd) pool_system \<Rightarrow> bool" where
  spurious:
    "t < length pc \<Longrightarrow>
     pool_spurious \<lparr>ps_pool = tp, ps_pc = pc\<rparr> T_Tau \<lparr>ps_pool = tp, ps_pc = pc[t := pool_wake (pc ! t)]\<rparr>"

inductive pool_step :: "('f, 'd) pool_system \<Rightarrow> ('f, 'd) pool_event \<Rightarrow> ('f, 'd) pool_system \<Rightarrow> bool" where
  "pool_internal s e s' \<Longrightarrow> pool_step s e s'"
| "pool_client s e s' \<Longrightarrow> pool_step s e s'"
| "pool_spurious s e s' \<Longrightarrow> pool_step s e s'"

definition pool_start :: "nat \<Rightarrow> nat \<Rightarrow> nat \<Rightarrow> nat \<Rightarrow> ('f, 'd) pool_system" where
  "pool_start workers clients taskQueues limit =
     \<lparr>ps_pool = setMaxTasksPerQueue (ThreadPool_new taskQueues) limit,
      ps_pc = replicate workers W_Pop @ replicate clients C_Idle\<rparr>"

inductive_cases pool_stepE: "pool_step s e s'"
inductive_cases pool_sectionE: "pool_section p tp e p' tp'"

section \<open>Random choice\<close>

lemma mset_shuffle_loop: "\<forall>i. dis i \<le> i \<Longrightarrow> n < length xs \<Longrightarrow> mset (shuffle_loop dis n xs) = mset xs"
proof (induction n arbitrary: xs)
  case (Suc n)
  let ?j = "dis (Suc n)"
  have j: "?j \<le> Suc n" using Suc.prems by blast
  have "mset (xs[Suc n := xs ! ?j, ?j := xs ! Suc n]) = mset xs"
    using Suc.prems(2) j by (intro mset_swap) auto
  then show ?case using Suc by (simp add: Let_def)
qed simp

lemma mset_shuffle [simp]: "\<forall>i. dis i \<le> i \<Longrightarrow> mset (safe_random_shuffle dis xs) = mset xs"
  by (auto simp: safe_random_shuffle_def intro: mset_shuffle_loop)

lemma set_shuffle [simp]: "\<forall>i. dis i \<le> i \<Longrightarrow> set (safe_random_shuffle dis xs) = set xs"
  by (metis mset_shuffle set_mset_mset)

lemma length_shuffle [simp]: "\<forall>i. dis i \<le> i \<Longrightarrow> length (safe_random_shuffle dis xs) = length xs"
  by (metis mset_shuffle size_mset)

lemma getRandomQueueByKey_less:
  assumes "\<forall>i. dis i \<le> i" "r < queue_choices n want"
  shows "getRandomQueueByKey dis n want r < n"
proof -
  have "queue_choices n want \<le> n" by (simp add: queue_choices_def Let_def)
  moreover have "safe_random_shuffle dis [0..<n] ! r \<in> set (safe_random_shuffle dis [0..<n])"
    using assms calculation by (intro nth_mem) simp
  ultimately show ?thesis using assms by (simp add: getRandomQueueByKey_def)
qed

lemma queue_with_elements_None:
  "\<forall>i. dis i \<le> i \<Longrightarrow> getRandomTaskQueueWithElements dis qs = None \<longleftrightarrow> (\<forall>x \<in> set qs. x = [])"
  by (auto simp: getRandomTaskQueueWithElements_def find_None_iff all_set_conv_all_nth)

lemma queue_with_elements_Some:
  assumes "\<forall>i. dis i \<le> i" "getRandomTaskQueueWithElements dis qs = Some q"
  shows "q < length qs \<and> qs ! q \<noteq> []"
proof -
  have "q \<in> set (safe_random_shuffle dis [0..<length qs])" "qs ! q \<noteq> []"
    using assms(2) by (auto simp: getRandomTaskQueueWithElements_def find_Some_iff)
  then show ?thesis using assms(1) by simp
qed

section \<open>The queues\<close>

fun target :: "('f, 'd) pool_pc \<Rightarrow> nat option" where
  "target (C_Push q _) = Some q"
| "target (C_Wait q _) = Some q"
| "target (C_Woken q _) = Some q"
| "target _ = None"

lemma target_wake [simp]: "target (pool_wake p) = target p"
  by (cases p) auto

lemma target_processor [simp]: "target (taskProcessor x) = None"
  by (simp add: taskProcessor_def)

text \<open>What each label says of the queues: the abstract specification.\<close>

definition pool_spec :: "('f, 'd) thread_pool \<Rightarrow> ('f, 'd) pool_event \<Rightarrow> ('f, 'd) thread_pool \<Rightarrow> bool" where
  "pool_spec tp e tp' = (case e of
     T_In q x \<Rightarrow> q < length (m_queues tp) \<and> length (m_queues tp ! q) \<le> m_maxTasksPerQueue tp \<and>
       tp' = tp\<lparr>m_queues := (m_queues tp)[q := m_queues tp ! q @ [x]]\<rparr>
   | T_Out q x \<Rightarrow> q < length (m_queues tp) \<and> (\<exists>rest. m_queues tp ! q = x # rest \<and> tp' = tp\<lparr>m_queues := (m_queues tp)[q := rest]\<rparr>)
   | T_Stop \<Rightarrow> tp' = tp\<lparr>m_terminate := True\<rparr>
   | T_Tau \<Rightarrow> tp' = tp)"

lemma popTask_effect:
  assumes "\<forall>i. dis i \<le> i"
  shows "popTask dis tp = (p, tp') \<Longrightarrow>
      p = W_Wait \<and> tp' = tp \<and> (\<forall>x \<in> set (m_queues tp). x = []) \<or> (\<exists>q x. p = W_Notify q x \<and> pool_spec tp (T_Out q x) tp')"
    "popTask_woken dis tp = (p, tp') \<Longrightarrow>
      p = (if m_terminate tp then W_Done else W_Wait) \<and> tp' = tp \<and> (\<forall>x \<in> set (m_queues tp). x = []) \<or>
      (\<exists>q x. p = W_Notify q x \<and> pool_spec tp (T_Out q x) tp')"
  using queue_with_elements_None [OF assms, of "m_queues tp"] queue_with_elements_Some [OF assms, of "m_queues tp"]
  by (auto simp: popTask_def popTask_woken_def take_task_def pool_spec_def neq_Nil_conv split: option.splits)

lemma pushTask_effect:
  assumes "q < length (m_queues tp)"
  shows "pushTask_loop q x tp = (p, tp') \<Longrightarrow>
      p = C_Wait q x \<and> tp' = tp \<or> p = C_Notify \<and> pool_spec tp (T_In q x) tp'"
    "pushTask q x tp = (p, tp') \<Longrightarrow>
      p = C_Ret False \<and> tp' = tp \<or> p = C_Wait q x \<and> tp' = tp \<or> p = C_Notify \<and> pool_spec tp (T_In q x) tp'"
  using assms by (auto simp: pushTask_def pushTask_loop_def pool_spec_def split: if_splits)

lemma section_effect:
  assumes "pool_section p tp e p' tp'" "\<forall>q. target p = Some q \<longrightarrow> q < length (m_queues tp)"
  shows "pool_spec tp e tp' \<and> (target p' = None \<or> target p' = target p)"
  using assms(1)
proof cases
  case (w_pop dis) then show ?thesis using popTask_effect(1) [of dis tp p' tp'] by (auto simp: taken_def pool_spec_def [of _ T_Tau])
next
  case (w_woken dis)
  then show ?thesis using popTask_effect(2) [of dis tp p' tp'] by (auto simp: taken_def pool_spec_def [of _ T_Tau] split: if_splits)
next
  case (c_push q x)
  then show ?thesis using pushTask_effect(2) [of q tp x p' tp'] assms(2) by (auto simp: inserted_def pool_spec_def [of _ T_Tau])
next
  case (c_woken q x)
  then show ?thesis using pushTask_effect(1) [of q tp x p' tp'] assms(2) by (auto simp: inserted_def pool_spec_def [of _ T_Tau])
qed (simp add: pool_spec_def)

definition targets_ok :: "('f, 'd) pool_system \<Rightarrow> bool" where
  "targets_ok s \<longleftrightarrow> (\<forall>p \<in> set (ps_pc s). \<forall>q. target p = Some q \<longrightarrow> q < length (m_queues (ps_pool s)))"

lemma targets_update:
  "targets_ok \<lparr>ps_pool = tp, ps_pc = pc\<rparr> \<Longrightarrow> target p = None \<or> (\<exists>x \<in> set pc. target p = target x) \<or> (\<exists>q < length (m_queues tp). target p = Some q) \<Longrightarrow>
   targets_ok \<lparr>ps_pool = tp, ps_pc = pc[t := p]\<rparr>"
  unfolding targets_ok_def using set_update_subset_insert [of pc t p] by fastforce

lemma pool_spec_length: "pool_spec tp e tp' \<Longrightarrow> length (m_queues tp') = length (m_queues tp)"
  by (auto simp: pool_spec_def split: pool_event.splits)

lemma pool_step_spec:
  assumes "pool_step s e s'" "targets_ok s"
  shows "pool_spec (ps_pool s) e (ps_pool s') \<and> targets_ok s'"
  using assms(1)
proof (cases rule: pool_step.cases)
  case 1
  from this show ?thesis
  proof cases
    case (p_section t pc tp p tp')
    have "pool_spec tp e tp' \<and> (target p = None \<or> target p = target (pc ! t))"
      using section_effect [OF p_section(4)] assms(2) p_section(1) nth_mem [OF p_section(3)] by (simp add: targets_ok_def)
    moreover have "pc ! t \<in> set pc" using p_section(3) by simp
    ultimately have "targets_ok \<lparr>ps_pool = tp, ps_pc = pc[t := p]\<rparr>" "pool_spec tp e tp'"
      using targets_update assms(2) p_section(1) by metis+
    then show ?thesis using p_section(1,2) pool_spec_length [of tp e tp'] by (simp add: targets_ok_def)
  next
    case (p_notify_one t pc ws p u tp)
    have "target p = None" using p_notify_one(5) by cases auto
    then have "targets_ok \<lparr>ps_pool = tp, ps_pc = pc[t := p]\<rparr>" using targets_update assms(2) p_notify_one(1) by metis
    moreover have "target (pc ! u) = None \<or> (\<exists>q < length (m_queues tp). target (pc ! u) = Some q)"
      using assms(2) p_notify_one(1) nth_mem [OF p_notify_one(6)] by (cases "target (pc ! u)") (auto simp: targets_ok_def)
    ultimately have "targets_ok s'" using p_notify_one(3) targets_update [of tp "pc[t := p]" "pool_wake (pc ! u)" u] by auto
    then show ?thesis using p_notify_one by (simp add: pool_spec_def)
  next
    case (p_notify_none t pc ws p tp)
    have "target p = None" using p_notify_none(5) by cases auto
    then show ?thesis using targets_update assms(2) p_notify_none by (auto simp: pool_spec_def)
  next
    case (p_notify_all t pc tp)
    have "targets_ok \<lparr>ps_pool = tp, ps_pc = pc[t := C_Idle]\<rparr>" using targets_update [of tp pc C_Idle t] assms(2) p_notify_all(1) by simp
    then show ?thesis using p_notify_all by (auto simp: pool_spec_def targets_ok_def split: if_splits)
  qed
next
  case 2
  from this show ?thesis
  proof cases
    case (call_push t pc dis r tp want q x)
    then have "q < length (m_queues tp)" by (simp add: getRandomQueueByKey_less)
    then show ?thesis using targets_update [of tp pc "C_Push q x" t] assms(2) call_push by (simp add: pool_spec_def)
  next
    case (push_timeout t pc q x tp)
    then show ?thesis using targets_update [of tp pc "C_Ret False" t] assms(2) by (simp add: pool_spec_def)
  next
    case (push_return t pc b tp)
    then show ?thesis using targets_update [of tp pc C_Idle t] assms(2) by (simp add: pool_spec_def)
  next
    case (call_stop t pc tp)
    then show ?thesis using targets_update [of tp pc S_Notify t] assms(2)
      by (simp add: pool_spec_def stop_def targets_ok_def)
  qed
next
  case 3
  from this show ?thesis
  proof cases
    case (spurious t pc tp)
    then have "\<exists>x \<in> set pc. target (pool_wake (pc ! t)) = target x" using nth_mem by auto
    then show ?thesis using targets_update [of tp pc "pool_wake (pc ! t)" t] assms(2) spurious by (simp add: pool_spec_def)
  qed
qed

fun tasks_in :: "nat \<Rightarrow> ('f, 'd) pool_event list \<Rightarrow> ('f, 'd) Task list" where
  "tasks_in q [] = []"
| "tasks_in q (T_In q' x # tr) = (if q' = q then x # tasks_in q tr else tasks_in q tr)"
| "tasks_in q (_ # tr) = tasks_in q tr"

fun tasks_out :: "nat \<Rightarrow> ('f, 'd) pool_event list \<Rightarrow> ('f, 'd) Task list" where
  "tasks_out q [] = []"
| "tasks_out q (T_Out q' x # tr) = (if q' = q then x # tasks_out q tr else tasks_out q tr)"
| "tasks_out q (_ # tr) = tasks_out q tr"

lemma tasks_in_append [simp]: "tasks_in q (tr @ tr') = tasks_in q tr @ tasks_in q tr'"
  by (induction tr rule: tasks_in.induct) auto

lemma tasks_out_append [simp]: "tasks_out q (tr @ tr') = tasks_out q tr @ tasks_out q tr'"
  by (induction tr rule: tasks_out.induct) auto

definition pool_queues :: "nat \<Rightarrow> nat \<Rightarrow> ('f, 'd) pool_event list \<Rightarrow> ('f, 'd) pool_system \<Rightarrow> bool" where
  "pool_queues n limit tr s \<longleftrightarrow> targets_ok s \<and> length (m_queues (ps_pool s)) = n \<and> m_maxTasksPerQueue (ps_pool s) = limit \<and>
     (m_terminate (ps_pool s) \<longleftrightarrow> T_Stop \<in> set tr) \<and>
     (\<forall>q < n. tasks_in q tr = tasks_out q tr @ m_queues (ps_pool s) ! q \<and> length (m_queues (ps_pool s) ! q) \<le> Suc limit)"

interpretation pqueues: history_invariant "pool_start w c n limit" pool_step "pool_queues n limit"
  for w c n limit
proof
  show "pool_queues n limit [] (pool_start w c n limit)"
    by (auto simp: pool_queues_def pool_start_def targets_ok_def ThreadPool_new_def setMaxTasksPerQueue_def)
next
  fix tr :: "('f, 'd) pool_event list" and s e s'
  assume inv: "pool_queues n limit tr s" and step: "pool_step s e s'"
  have "pool_spec (ps_pool s) e (ps_pool s')" "targets_ok s'"
    using pool_step_spec [OF step] inv by (simp_all add: pool_queues_def)
  then show "pool_queues n limit (tr @ [e]) s'"
    using inv by (cases e) (auto simp: pool_queues_def pool_spec_def nth_list_update)
qed

section \<open>No idle worker\<close>

definition idle_worker :: "('f, 'd) pool_pc \<Rightarrow> nat" where
  "idle_worker p = (if p = W_Wait then 1 else 0)"

definition task_server :: "('f, 'd) pool_pc \<Rightarrow> nat" where
  "task_server p = (case p of W_Pop \<Rightarrow> 1 | W_Woken \<Rightarrow> 1 | C_Notify \<Rightarrow> 1 | _ \<Rightarrow> 0)"

lemmas worker_counts = idle_worker_def task_server_def

definition workers_served :: "('f, 'd) pool_system \<Rightarrow> bool" where
  "workers_served s \<longleftrightarrow>
     (total idle_worker (ps_pc s) > 0 \<longrightarrow> total length (m_queues (ps_pool s)) \<le> total task_server (ps_pc s))"

lemma total_queue_update:
  "q < length qs \<Longrightarrow> total length (qs[q := y]) + length (qs ! q) = total length qs + length y"
  by (rule total_update)

lemma pool_spec_tasks:
  "pool_spec tp (T_In q x) tp' \<Longrightarrow> total length (m_queues tp') = Suc (total length (m_queues tp))"
  "pool_spec tp (T_Out q x) tp' \<Longrightarrow> total length (m_queues tp) = Suc (total length (m_queues tp'))"
proof -
  assume "pool_spec tp (T_In q x) tp'"
  then show "total length (m_queues tp') = Suc (total length (m_queues tp))"
    using total_queue_update [of q "m_queues tp" "m_queues tp ! q @ [x]"] by (simp add: pool_spec_def)
next
  assume "pool_spec tp (T_Out q x) tp'"
  then obtain rest where "q < length (m_queues tp)" "m_queues tp ! q = x # rest" "m_queues tp' = (m_queues tp)[q := rest]"
    by (auto simp: pool_spec_def)
  then show "total length (m_queues tp) = Suc (total length (m_queues tp'))"
    using total_queue_update [of q "m_queues tp" rest] by simp
qed

lemma section_counts:
  assumes "pool_section p tp e p' tp'" "\<forall>q. target p = Some q \<longrightarrow> q < length (m_queues tp)"
  shows "idle_worker p = 0 \<and> (idle_worker p' = 1 \<and> total length (m_queues tp') = 0 \<or>
    idle_worker p' = 0 \<and> (total length (m_queues tp') = 0 \<or> total length (m_queues tp') + task_server p \<le> total length (m_queues tp) + task_server p'))"
  using assms(1)
proof cases
  case (w_pop dis)
  then consider "p' = W_Wait" "tp' = tp" "\<forall>x \<in> set (m_queues tp). x = []" | q x where "p' = W_Notify q x" "pool_spec tp (T_Out q x) tp'"
    using popTask_effect(1) [of dis tp p' tp'] by blast
  then show ?thesis
  proof cases
    case 1 then show ?thesis by (simp add: worker_counts w_pop(1))
  next
    case (2 q x)
    then show ?thesis using pool_spec_tasks(2) [OF 2(2)] by (simp add: worker_counts w_pop(1))
  qed
next
  case (w_woken dis)
  then consider "p' = (if m_terminate tp then W_Done else W_Wait)" "tp' = tp" "\<forall>x \<in> set (m_queues tp). x = []"
    | q x where "p' = W_Notify q x" "pool_spec tp (T_Out q x) tp'"
    using popTask_effect(2) [of dis tp p' tp'] by blast
  then show ?thesis
  proof cases
    case 1 then show ?thesis by (simp add: worker_counts w_woken(1))
  next
    case (2 q x)
    then show ?thesis using pool_spec_tasks(2) [OF 2(2)] by (simp add: worker_counts w_woken(1))
  qed
next
  case (c_push q x)
  then show ?thesis using pushTask_effect(2) [of q tp x p' tp'] assms(2) pool_spec_tasks(1) [of tp q x tp']
    by (auto simp: worker_counts)
next
  case (c_woken q x)
  then show ?thesis using pushTask_effect(1) [of q tp x p' tp'] assms(2) pool_spec_tasks(1) [of tp q x tp']
    by (auto simp: worker_counts)
qed (simp add: worker_counts)

lemmas worker_update = total_update [of _ _ idle_worker] total_update [of _ _ task_server]

lemmas worker_updates = total_update2 [of _ _ _ idle_worker] total_update2 [of _ _ _ task_server]

lemma notifies_cases:
  assumes "notifies p ws p'"
  shows "p = C_Notify \<and> ws = (\<lambda>p. p = W_Wait) \<and> p' = C_Ret True \<or>
    (\<exists>q x. p = W_Notify q x \<and> ws = removed_waiter q \<and> (p' = W_Done \<or> p' = W_Run x))"
  using assms by cases (auto simp: taskProcessor_def)

lemma served_pool_internal:
  assumes step: "pool_internal s e s'" and ok: "targets_ok s" "workers_served s"
  shows "workers_served s'"
  using step
proof cases
  case (p_section t pc tp p tp')
  have "\<forall>q. target (pc ! t) = Some q \<longrightarrow> q < length (m_queues tp)"
    using ok(1) p_section(1) nth_mem [OF p_section(3)] by (simp add: targets_ok_def)
  from section_counts [OF p_section(4) this] show ?thesis
    using ok(2) p_section(1,2) worker_update [OF p_section(3), of p] by (auto simp: workers_served_def simp del: sum_list_eq_0_iff)
next
  case (p_notify_one t pc ws p u tp)
  have "t \<noteq> u" "pc ! u = W_Wait \<and> pc ! t = C_Notify \<and> p = C_Ret True \<or>
      (\<exists>q x. pc ! u = C_Wait q x) \<and> (\<exists>q x. pc ! t = W_Notify q x) \<and> (p = W_Done \<or> (\<exists>x. p = W_Run x))"
    using notifies_cases [OF p_notify_one(5)] p_notify_one(7) by (auto simp: removed_waiter_def)
  then show ?thesis using ok(2) p_notify_one(1,3) worker_updates [OF p_notify_one(4,6) \<open>t \<noteq> u\<close>, of p "pool_wake (pc ! u)"]
    by (auto simp: workers_served_def worker_counts simp del: sum_list_eq_0_iff)
next
  case (p_notify_none t pc ws p tp)
  show ?thesis using notifies_cases [OF p_notify_none(5)]
  proof
    assume c: "pc ! t = C_Notify \<and> ws = (\<lambda>p. p = W_Wait) \<and> p = C_Ret True"
    then have "total idle_worker (pc[t := p]) = 0"
      using p_notify_none(6) set_update_subset_insert [of pc t p] by (intro total_zero) (auto simp: worker_counts)
    then show ?thesis by (simp add: workers_served_def p_notify_none(3) del: sum_list_eq_0_iff)
  next
    assume "\<exists>q x. pc ! t = W_Notify q x \<and> ws = removed_waiter q \<and> (p = W_Done \<or> p = W_Run x)"
    then show ?thesis using ok(2) p_notify_none(1,3) worker_update [OF p_notify_none(4), of p]
      by (auto simp: workers_served_def worker_counts simp del: sum_list_eq_0_iff)
  qed
next
  case (p_notify_all t pc tp)
  have "total idle_worker (ps_pc s') = 0" by (rule total_zero) (auto simp: p_notify_all(3) worker_counts split: if_splits)
  then show ?thesis by (simp add: workers_served_def del: sum_list_eq_0_iff)
qed

lemma served_pool_other:
  assumes "pool_client s e s' \<or> pool_spurious s e s'" "workers_served s"
  shows "workers_served s'"
  using assms(1)
proof
  assume "pool_client s e s'"
  then show ?thesis
  proof cases
    case (call_push t pc dis r tp want q x)
    then show ?thesis using assms(2) worker_update [of t pc "C_Push q x"] by (auto simp: workers_served_def worker_counts simp del: sum_list_eq_0_iff)
  next
    case (push_timeout t pc q x tp)
    then show ?thesis using assms(2) worker_update [of t pc "C_Ret False"] by (auto simp: workers_served_def worker_counts simp del: sum_list_eq_0_iff)
  next
    case (push_return t pc b tp)
    then show ?thesis using assms(2) worker_update [of t pc C_Idle] by (auto simp: workers_served_def worker_counts simp del: sum_list_eq_0_iff)
  next
    case (call_stop t pc tp)
    then show ?thesis using assms(2) worker_update [of t pc S_Notify] by (auto simp: workers_served_def worker_counts stop_def simp del: sum_list_eq_0_iff)
  qed
next
  assume "pool_spurious s e s'"
  then show ?thesis
  proof cases
    case (spurious t pc tp)
    then show ?thesis using assms(2) worker_update [of t pc "pool_wake (pc ! t)"]
      by (cases "pc ! t") (auto simp: workers_served_def worker_counts simp del: sum_list_eq_0_iff)
  qed
qed

interpretation pserved: history_invariant "pool_start w c n limit" pool_step "\<lambda>_ s. targets_ok s \<and> workers_served s"
  for w c n limit
proof
  show "targets_ok (pool_start w c n limit) \<and> workers_served (pool_start w c n limit)"
    by (auto simp: workers_served_def pool_start_def targets_ok_def ThreadPool_new_def setMaxTasksPerQueue_def sum_list_replicate)
next
  fix tr :: "('f, 'd) pool_event list" and s e s'
  assume "targets_ok s \<and> workers_served s" "pool_step s e s'"
  then show "targets_ok s' \<and> workers_served s'"
    using pool_step_spec [of s e s'] served_pool_internal [of s e s'] served_pool_other [of s e s'] by (auto elim: pool_stepE)
qed

text \<open>The work ahead of a thread, in a pool of \<open>n\<close> threads; a queued task counts four.\<close>

definition pool_work :: "nat \<Rightarrow> ('f, 'd) pool_pc \<Rightarrow> nat" where
  "pool_work n p = (case p of W_Pop \<Rightarrow> 4 | W_Wait \<Rightarrow> 3 | W_Woken \<Rightarrow> 4 | W_Notify _ _ \<Rightarrow> 7 | W_Run _ \<Rightarrow> 5
     | C_Push _ _ \<Rightarrow> 7 | C_Wait _ _ \<Rightarrow> 6 | C_Woken _ _ \<Rightarrow> 7 | C_Notify \<Rightarrow> 2 | S_Notify \<Rightarrow> Suc n | _ \<Rightarrow> 0)"

definition pool_weight :: "('f, 'd) pool_system \<Rightarrow> nat" where
  "pool_weight s = total (pool_work (length (ps_pc s))) (ps_pc s) + 4 * total length (m_queues (ps_pool s))"

lemma total_queue_append: "total length (qs[q := qs ! q @ [x]]) \<le> Suc (total length qs)"
  using total_queue_update [of q qs "qs ! q @ [x]"] by (cases "q < length qs") (auto simp: list_update_beyond)

lemma section_work:
  assumes "pool_section p tp e p' tp'"
  shows "pool_work n p' + 4 * total length (m_queues tp') < pool_work n p + 4 * total length (m_queues tp)"
  using assms
proof cases
  case (w_pop dis)
  then show ?thesis using popTask_effect(1) [of dis tp p' tp'] pool_spec_tasks(2) [of tp _ _ tp'] by (auto simp: pool_work_def)
next
  case (w_woken dis)
  then show ?thesis using popTask_effect(2) [of dis tp p' tp'] pool_spec_tasks(2) [of tp _ _ tp'] by (auto simp: pool_work_def split: if_splits)
next
  case (c_push q x)
  then show ?thesis using total_queue_append [of "m_queues tp" q x]
    by (auto simp: pool_work_def pushTask_def pushTask_loop_def split: if_splits)
next
  case (c_woken q x)
  then show ?thesis using total_queue_append [of "m_queues tp" q x]
    by (auto simp: pool_work_def pushTask_loop_def split: if_splits)
qed (simp add: pool_work_def)

lemma wake_work: "pool_work n (pool_wake p) \<le> Suc (pool_work n p)"
  by (cases p) (auto simp: pool_work_def)

lemma wake_all_work:
  "total (pool_work n) (map (\<lambda>x. if x = W_Wait then W_Woken else x) pc) \<le> total (pool_work n) pc + length pc"
  by (induction pc) (auto simp: pool_work_def)

lemma notifies_work: "notifies p ws p' \<Longrightarrow> Suc (pool_work n p') < pool_work n p"
  by (drule notifies_cases) (auto simp: pool_work_def)

interpretation psettles: settles pool_internal pool_weight
proof
  fix s s' :: "('f, 'd) pool_system" and e
  assume "pool_internal s e s'"
  then show "pool_weight s' < pool_weight s"
  proof cases
    case (p_section t pc tp p tp')
    then show ?thesis using section_work [OF p_section(4), of "length pc"] total_update [OF p_section(3), of "pool_work (length pc)" p]
      by (simp add: pool_weight_def)
  next
    case (p_notify_one t pc ws p u tp)
    have "t \<noteq> u" using notifies_cases [OF p_notify_one(5)] p_notify_one(7) by (auto simp: removed_waiter_def)
    then show ?thesis
      using p_notify_one total_update2 [of t pc u "pool_work (length pc)" p "pool_wake (pc ! u)"]
        wake_work [of "length pc" "pc ! u"] notifies_work [OF p_notify_one(5), of "length pc"] by (simp add: pool_weight_def)
  next
    case (p_notify_none t pc ws p tp)
    then show ?thesis using total_update [OF p_notify_none(4), of "pool_work (length pc)" p] notifies_work [OF p_notify_none(5), of "length pc"]
      by (simp add: pool_weight_def)
  next
    case (p_notify_all t pc tp)
    then show ?thesis using total_update [OF p_notify_all(4), of "pool_work (length pc)" C_Idle] wake_all_work [of "length pc" "pc[t := C_Idle]"]
      by (simp add: pool_weight_def pool_work_def [of _ S_Notify] pool_work_def [of _ C_Idle])
  qed
qed

lemma pool_settled:
  assumes "\<nexists>e s'. pool_internal s e s'" "p \<in> set (ps_pc s)"
  shows "task_server p = 0"
proof -
  obtain tp pc where s: "s = \<lparr>ps_pool = tp, ps_pc = pc\<rparr>" by (cases s) auto
  obtain t where t: "t < length pc" "pc ! t = p" using assms(2) s by (auto simp: in_set_conv_nth)
  have stuck: "\<And>e s'. \<not> pool_internal \<lparr>ps_pool = tp, ps_pc = pc\<rparr> e s'" using assms(1) s by auto
  have "\<not> pool_section p tp e p' tp'" for e p' tp' using p_section [OF t(1)] stuck t(2) by metis
  then have "p \<noteq> W_Pop" "p \<noteq> W_Woken"
    using w_pop [of "\<lambda>_. 0" tp] w_woken [of "\<lambda>_. 0" tp] by (metis le0 prod.collapse)+
  moreover have "p \<noteq> C_Notify"
    using p_notify_one [OF t(1)] p_notify_none [OF t(1)] stuck t(2) notifies.intros(1) by (metis in_set_conv_nth)
  ultimately show ?thesis by (auto simp: task_server_def split: pool_pc.splits)
qed

section \<open>A worker that is busy while the pool stops\<close>

text \<open>The state after \<open>stop\<close> has returned: no task is left, no thread is about to notify a worker,
  and worker \<open>t\<close> still runs a task, or has just finished it, or already waits.\<close>

fun harmless :: "('f, 'd) pool_pc \<Rightarrow> bool" where
  "harmless C_Notify = False"
| "harmless S_Notify = False"
| "harmless (C_Wait _ _) = False"
| "harmless (C_Woken _ _) = False"
| "harmless _ = True"

fun lingering :: "('f, 'd) pool_pc \<Rightarrow> bool" where
  "lingering W_Wait = True"
| "lingering W_Pop = True"
| "lingering (W_Run _) = True"
| "lingering _ = False"

definition stranded :: "nat \<Rightarrow> ('f, 'd) pool_system \<Rightarrow> bool" where
  "stranded t s \<longleftrightarrow> m_terminate (ps_pool s) \<and> (\<forall>q \<in> set (m_queues (ps_pool s)). q = []) \<and>
     (\<forall>p \<in> set (ps_pc s). harmless p) \<and> t < length (ps_pc s) \<and> lingering (ps_pc s ! t)"

text \<open>All steps but spurious wake-ups and another call of \<open>stop\<close>.\<close>

definition quiet_step :: "('f, 'd) pool_system \<Rightarrow> ('f, 'd) pool_event \<Rightarrow> ('f, 'd) pool_system \<Rightarrow> bool" where
  "quiet_step s e s' \<longleftrightarrow> (pool_internal s e s' \<or> pool_client s e s') \<and> e \<noteq> T_Stop"

lemma stranded_section:
  assumes "pool_section p tp e p' tp'" "m_terminate tp" "\<forall>q \<in> set (m_queues tp). q = []" "harmless p"
  shows "tp' = tp \<and> harmless p' \<and> (lingering p \<longrightarrow> lingering p')"
  using assms(1)
proof cases
  case (w_pop dis) then show ?thesis using assms(3) queue_with_elements_None [of dis "m_queues tp"] by (auto simp: popTask_def)
next
  case (w_woken dis) then show ?thesis using assms(2,3) queue_with_elements_None [of dis "m_queues tp"] by (auto simp: popTask_woken_def)
qed (use assms in \<open>auto simp: pushTask_def\<close>)

lemma stranded_update:
  assumes "stranded t \<lparr>ps_pool = tp, ps_pc = pc\<rparr>" "harmless p" "u = t \<Longrightarrow> lingering p"
  shows "stranded t \<lparr>ps_pool = tp, ps_pc = pc[u := p]\<rparr>"
proof -
  have "\<forall>x \<in> set (pc[u := p]). harmless x"
    using set_update_subset_insert [of pc u p] assms(1,2) by (auto simp: stranded_def)
  then show ?thesis using assms(1,3) by (cases "u = t") (simp_all add: stranded_def)
qed

lemma stranded_other:
  "stranded t \<lparr>ps_pool = tp, ps_pc = pc\<rparr> \<Longrightarrow> \<not> lingering (pc ! u) \<Longrightarrow> harmless p \<Longrightarrow>
   stranded t \<lparr>ps_pool = tp, ps_pc = pc[u := p]\<rparr>"
  by (rule stranded_update) (auto simp: stranded_def)

lemma stranded_step:
  assumes step: "quiet_step s e s'" and st: "stranded t s"
  shows "stranded t s'"
proof -
  have "pool_internal s e s' \<or> pool_client s e s' \<and> e \<noteq> T_Stop" using step by (auto simp: quiet_step_def)
  then show ?thesis
  proof
    assume "pool_internal s e s'"
    then show ?thesis
    proof cases
      case (p_section u pc tp p tp')
      have "tp' = tp \<and> harmless p \<and> (lingering (pc ! u) \<longrightarrow> lingering p)"
        by (rule stranded_section [OF p_section(4)]) (use st p_section(1) nth_mem [OF p_section(3)] in \<open>auto simp: stranded_def\<close>)
      then show ?thesis using stranded_update [of t tp pc p u] st p_section(1,2) by (auto simp: stranded_def)
    next
      case (p_notify_one u pc ws p v tp)
      have "harmless (pc ! u)" "harmless (pc ! v)"
        using st p_notify_one(1) nth_mem [OF p_notify_one(4)] nth_mem [OF p_notify_one(6)] by (auto simp: stranded_def)
      then show ?thesis using notifies_cases [OF p_notify_one(5)] p_notify_one(7) by (auto simp: removed_waiter_def)
    next
      case (p_notify_none u pc ws p tp)
      have "harmless (pc ! u)" using st p_notify_none(1) nth_mem [OF p_notify_none(4)] by (auto simp: stranded_def)
      then have "\<exists>q x. pc ! u = W_Notify q x" "harmless p" using notifies_cases [OF p_notify_none(5)] by auto
      then show ?thesis using stranded_other [of t tp pc u p] st p_notify_none(1,3) by auto
    next
      case (p_notify_all u pc tp)
      then show ?thesis using st nth_mem [OF p_notify_all(4)] by (auto simp: stranded_def)
    qed
  next
    assume "pool_client s e s' \<and> e \<noteq> T_Stop"
    then have c: "pool_client s e s'" "e \<noteq> T_Stop" by auto
    from c(1) show ?thesis
    proof cases
      case (call_push u pc dis r tp want q x)
      then show ?thesis using stranded_other [of t tp pc u "C_Push q x"] st by simp
    next
      case (push_timeout u pc q x tp)
      then show ?thesis using stranded_other [of t tp pc u "C_Ret False"] st by simp
    next
      case (push_return u pc b tp)
      then show ?thesis using stranded_other [of t tp pc u C_Idle] st by simp
    qed (use c in simp)
  qed
qed

lemma stranded_run: "run quiet_step s tr s' \<Longrightarrow> stranded t s \<Longrightarrow> stranded t s'"
  by (induction rule: run.induct) (auto intro: stranded_step)

section \<open>Properties\<close>

text \<open>C28: whatever the threads do and whatever the random draws are, every queue of the pool is
  first in, first out: the tasks taken from it followed by those still in it are the tasks
  inserted, in order, so no task is lost or taken twice. A queue never holds more than one task
  above the limit, and a queue that holds exactly the limit still takes another one.\<close>

theorem pool_queues_fifo:
  assumes "run pool_step (pool_start w c n limit) tr s"
  shows "(\<forall>q < n. tasks_in q tr = tasks_out q tr @ m_queues (ps_pool s) ! q \<and> length (m_queues (ps_pool s) ! q) \<le> Suc limit) \<and>
    (\<forall>q x. q < n \<and> T_Stop \<notin> set tr \<and> length (m_queues (ps_pool s) ! q) = limit \<longrightarrow>
      length (m_queues (snd (pushTask q x (ps_pool s))) ! q) = Suc limit)"
  using pqueues.inv_run [OF assms] by (auto simp: pool_queues_def pushTask_def pushTask_loop_def)

text \<open>C26: no worker sleeps while a task is queued. From every reachable state the workers, the
  clients and \<open>stop\<close> come to rest by themselves after a bounded number of steps (a task is taken
  to return), and when they have, a worker waits for a task only if every queue is empty.\<close>

theorem pool_no_idle_worker:
  assumes "run pool_step (pool_start w c n limit) tr s"
  shows "(\<exists>tr' s'. run pool_internal s tr' s' \<and> (\<nexists>e s''. pool_internal s' e s'')) \<and>
    (\<forall>tr' s'. run pool_internal s tr' s' \<longrightarrow> length tr' \<le> pool_weight s) \<and>
    (\<forall>tr' s'. run pool_internal s tr' s' \<and> (\<nexists>e s''. pool_internal s' e s'') \<and> W_Wait \<in> set (ps_pc s') \<longrightarrow>
      (\<forall>q \<in> set (m_queues (ps_pool s')). q = []))"
proof (intro conjI allI impI)
  show "\<exists>tr' s'. run pool_internal s tr' s' \<and> (\<nexists>e s''. pool_internal s' e s'')"
    by (rule psettles.internal_run_ends)
next
  fix tr' s' assume "run pool_internal s tr' s'"
  then show "length tr' \<le> pool_weight s" using psettles.internal_run_bound by fastforce
next
  fix tr' s' assume r: "run pool_internal s tr' s' \<and> (\<nexists>e s''. pool_internal s' e s'') \<and> W_Wait \<in> set (ps_pc s')"
  have "run pool_step s tr' s'"
    by (rule run_mono [of pool_internal]) (use r in blast, rule pool_step.intros(1))
  from run_trans [OF assms this] have sv: "workers_served s'" using pserved.inv_run by blast
  have "total task_server (ps_pc s') = 0" using pool_settled r by (intro total_zero) blast
  moreover have "total idle_worker (ps_pc s') > 0" using r total_pos [of W_Wait "ps_pc s'" idle_worker] by (simp add: idle_worker_def)
  ultimately have "total length (m_queues (ps_pool s')) = 0" using sv by (simp add: workers_served_def)
  then show "\<forall>q \<in> set (m_queues (ps_pool s')). q = []" by simp
qed

text \<open>A pool with one worker and one client, after the client has pushed a task, the worker has
  taken it, and \<open>stop\<close> has been called and has returned while the task runs.\<close>

definition demo_task :: "(nat, nat) Task" where
  "demo_task = \<lparr>t_task = Some 1, t_data = Some 2\<rparr>"

definition demo_pool :: "(nat, nat) thread_pool" where
  "demo_pool = setMaxTasksPerQueue (ThreadPool_new 1) 100"

definition demo_stopped :: "(nat, nat) pool_system" where
  "demo_stopped = \<lparr>ps_pool = stop demo_pool, ps_pc = [W_Run demo_task, C_Idle]\<rparr>"

lemmas demo_pool_defs = demo_pool_def setMaxTasksPerQueue_def ThreadPool_new_def demo_task_def

lemma demo_push_run:
  "run pool_step (pool_start 1 1 1 100) [T_Tau, T_In 0 demo_task]
     \<lparr>ps_pool = demo_pool\<lparr>m_queues := [[demo_task]]\<rparr>, ps_pc = [W_Pop, C_Notify]\<rparr>"
proof -
  have i: "pool_start 1 1 1 100 = \<lparr>ps_pool = demo_pool, ps_pc = [W_Pop, C_Idle]\<rparr>"
    by (simp add: pool_start_def demo_pool_def)
  have "pool_client \<lparr>ps_pool = demo_pool, ps_pc = [W_Pop, C_Idle]\<rparr> T_Tau \<lparr>ps_pool = demo_pool, ps_pc = [W_Pop, C_Idle][1 := C_Push 0 demo_task]\<rparr>"
    by (rule call_push [of 1 _ "\<lambda>_. 0" 0 _ 1])
       (simp_all add: demo_pool_defs queue_choices_def getRandomQueueByKey_def safe_random_shuffle_def)
  then have 1: "pool_step \<lparr>ps_pool = demo_pool, ps_pc = [W_Pop, C_Idle]\<rparr> T_Tau \<lparr>ps_pool = demo_pool, ps_pc = [W_Pop, C_Push 0 demo_task]\<rparr>"
    by (intro pool_step.intros(2)) simp
  have "pool_section (C_Push 0 demo_task) demo_pool (inserted 0 demo_task C_Notify) C_Notify (demo_pool\<lparr>m_queues := [[demo_task]]\<rparr>)"
    by (rule c_push) (simp add: pushTask_def pushTask_loop_def demo_pool_defs)
  then have 2: "pool_step \<lparr>ps_pool = demo_pool, ps_pc = [W_Pop, C_Push 0 demo_task]\<rparr> (T_In 0 demo_task)
      \<lparr>ps_pool = demo_pool\<lparr>m_queues := [[demo_task]]\<rparr>, ps_pc = [W_Pop, C_Notify]\<rparr>"
    using p_section [of 1 "[W_Pop, C_Push 0 demo_task]" demo_pool "T_In 0 demo_task" C_Notify]
    by (intro pool_step.intros(1)) (simp add: inserted_def)
  show ?thesis unfolding i by (rule run_Cons [of pool_step, OF 1 run_single [of pool_step, OF 2]])
qed

lemma demo_stopped_run:
  "run pool_step (pool_start 1 1 1 100) [T_Tau, T_In 0 demo_task, T_Tau, T_Tau, T_Out 0 demo_task, T_Tau, T_Stop, T_Tau] demo_stopped"
proof -
  let ?tp = "demo_pool\<lparr>m_queues := [[demo_task]]\<rparr>"
  have dp: "?tp\<lparr>m_queues := [[]]\<rparr> = demo_pool" by (simp add: demo_pool_defs)
  have "pool_internal \<lparr>ps_pool = ?tp, ps_pc = [W_Pop, C_Notify]\<rparr> T_Tau \<lparr>ps_pool = ?tp, ps_pc = [W_Pop, C_Notify][1 := C_Ret True]\<rparr>"
    by (rule p_notify_none [where waits = "\<lambda>p. p = W_Wait"]) (simp_all add: notifies.intros)
  then have 3: "pool_step \<lparr>ps_pool = ?tp, ps_pc = [W_Pop, C_Notify]\<rparr> T_Tau \<lparr>ps_pool = ?tp, ps_pc = [W_Pop, C_Ret True]\<rparr>"
    by (intro pool_step.intros(1)) simp
  have 4: "pool_step \<lparr>ps_pool = ?tp, ps_pc = [W_Pop, C_Ret True]\<rparr> T_Tau \<lparr>ps_pool = ?tp, ps_pc = [W_Pop, C_Idle]\<rparr>"
    using push_return [of 1 "[W_Pop, C_Ret True]" True ?tp] by (intro pool_step.intros(2)) simp
  have "pool_section W_Pop ?tp (taken (W_Notify 0 demo_task)) (W_Notify 0 demo_task) demo_pool"
    by (rule w_pop [of "\<lambda>_. 0"])
       (simp_all add: popTask_def getRandomTaskQueueWithElements_def safe_random_shuffle_def take_task_def dp)
  then have 5: "pool_step \<lparr>ps_pool = ?tp, ps_pc = [W_Pop, C_Idle]\<rparr> (T_Out 0 demo_task) \<lparr>ps_pool = demo_pool, ps_pc = [W_Notify 0 demo_task, C_Idle]\<rparr>"
    using p_section [of 0 "[W_Pop, C_Idle]" ?tp "T_Out 0 demo_task" "W_Notify 0 demo_task" demo_pool]
    by (intro pool_step.intros(1)) (simp add: taken_def)
  have "pool_internal \<lparr>ps_pool = demo_pool, ps_pc = [W_Notify 0 demo_task, C_Idle]\<rparr> T_Tau
      \<lparr>ps_pool = demo_pool, ps_pc = [W_Notify 0 demo_task, C_Idle][0 := taskProcessor demo_task]\<rparr>"
    by (rule p_notify_none [where waits = "removed_waiter 0"]) (simp_all add: notifies.intros removed_waiter_def)
  then have 6: "pool_step \<lparr>ps_pool = demo_pool, ps_pc = [W_Notify 0 demo_task, C_Idle]\<rparr> T_Tau \<lparr>ps_pool = demo_pool, ps_pc = [W_Run demo_task, C_Idle]\<rparr>"
    by (intro pool_step.intros(1)) (simp add: taskProcessor_def isNull_def demo_task_def)
  have 7: "pool_step \<lparr>ps_pool = demo_pool, ps_pc = [W_Run demo_task, C_Idle]\<rparr> T_Stop \<lparr>ps_pool = stop demo_pool, ps_pc = [W_Run demo_task, S_Notify]\<rparr>"
    using call_stop [of 1 "[W_Run demo_task, C_Idle]" demo_pool] by (intro pool_step.intros(2)) simp
  have 8: "pool_step \<lparr>ps_pool = stop demo_pool, ps_pc = [W_Run demo_task, S_Notify]\<rparr> T_Tau demo_stopped"
    using p_notify_all [of 1 "[W_Run demo_task, S_Notify]" "stop demo_pool"] by (intro pool_step.intros(1)) (simp add: demo_stopped_def)
  show ?thesis
    using run_trans [OF demo_push_run run_Cons [of pool_step, OF 3 run_Cons [of pool_step, OF 4 run_Cons [of pool_step, OF 5
      run_Cons [of pool_step, OF 6 run_Cons [of pool_step, OF 7 run_single [of pool_step, OF 8]]]]]]] by simp
qed

theorem pool_queues_fifo_witness:
  "tasks_in 0 [T_Tau, T_In 0 demo_task] = [] @ [demo_task] \<and> length [demo_task] \<le> Suc 100"
  using pool_queues_fifo [OF demo_push_run] by simp

theorem pool_no_idle_worker_witness:
  "\<exists>tr' s'. run pool_internal demo_stopped tr' s' \<and> (\<nexists>e s''. pool_internal s' e s'') \<and>
    (W_Wait \<in> set (ps_pc s') \<longrightarrow> (\<forall>q \<in> set (m_queues (ps_pool s')). q = []))"
proof -
  note rest = pool_no_idle_worker [OF demo_stopped_run]
  obtain tr' s' where s': "run pool_internal demo_stopped tr' s' \<and> (\<nexists>e s''. pool_internal s' e s'')" using conjunct1 [OF rest] by blast
  moreover have "W_Wait \<in> set (ps_pc s') \<longrightarrow> (\<forall>q \<in> set (m_queues (ps_pool s')). q = [])"
    using conjunct2 [OF conjunct2 [OF rest]] s' by metis
  ultimately show ?thesis by blast
qed

text \<open>C35: stopping the pool strands a worker that is running a task. When \<open>stop\<close> has notified the
  workers and no task is left, a worker that is still busy goes back to \<open>popTask\<close>, which waits
  without looking at \<open>m_terminate\<close> first; whatever the threads and the clients do after that, short
  of another \<open>stop\<close> or a spurious wake-up, it never finishes, and the destructor that joins it
  never returns.\<close>

theorem stop_strands_busy_worker:
  assumes "stranded t s" "run quiet_step s tr s'"
  shows "ps_pc s' ! t \<noteq> W_Done \<and> ((\<nexists>e s''. pool_internal s' e s'') \<longrightarrow> ps_pc s' ! t = W_Wait)"
proof (intro conjI impI)
  have st: "stranded t s'" by (rule stranded_run [OF assms(2,1)])
  then show "ps_pc s' ! t \<noteq> W_Done" by (auto simp: stranded_def)
  assume stuck: "\<nexists>e s''. pool_internal s' e s''"
  have "task_server (ps_pc s' ! t) = 0" using pool_settled [OF stuck] st by (simp add: stranded_def)
  moreover have "ps_pc s' ! t \<noteq> W_Run x" for x
    using stuck st p_section [of t "ps_pc s'" "ps_pool s'" T_Tau W_Pop "ps_pool s'"] w_run [of x "ps_pool s'"]
    by (cases s') (auto simp: stranded_def)
  ultimately show "ps_pc s' ! t = W_Wait" using st by (cases "ps_pc s' ! t") (auto simp: stranded_def task_server_def)
qed

theorem stop_strands_busy_worker_witness:
  "run pool_step (pool_start 1 1 1 100) [T_Tau, T_In 0 demo_task, T_Tau, T_Tau, T_Out 0 demo_task, T_Tau, T_Stop, T_Tau] demo_stopped \<and>
   (\<exists>s'. run quiet_step demo_stopped [T_Tau, T_Tau] s' \<and> ps_pc s' ! 0 = W_Wait \<and> ps_pc s' ! 0 \<noteq> W_Done)"
proof -
  let ?tp = "stop demo_pool"
  have st: "stranded 0 demo_stopped" by (auto simp: stranded_def demo_stopped_def demo_pool_defs stop_def)
  have 1: "quiet_step demo_stopped T_Tau \<lparr>ps_pool = ?tp, ps_pc = [W_Pop, C_Idle]\<rparr>"
    using p_section [of 0 "[W_Run demo_task, C_Idle]" ?tp T_Tau W_Pop ?tp] by (simp add: w_run quiet_step_def demo_stopped_def)
  have "pool_section W_Pop ?tp (taken W_Wait) W_Wait ?tp"
    by (rule w_pop [of "\<lambda>_. 0"]) (simp_all add: popTask_def getRandomTaskQueueWithElements_def safe_random_shuffle_def stop_def demo_pool_defs)
  then have 2: "quiet_step \<lparr>ps_pool = ?tp, ps_pc = [W_Pop, C_Idle]\<rparr> T_Tau \<lparr>ps_pool = ?tp, ps_pc = [W_Wait, C_Idle]\<rparr>"
    using p_section [of 0 "[W_Pop, C_Idle]" ?tp T_Tau W_Wait ?tp] by (simp add: taken_def quiet_step_def)
  have r: "run quiet_step demo_stopped [T_Tau, T_Tau] \<lparr>ps_pool = ?tp, ps_pc = [W_Wait, C_Idle]\<rparr>"
    by (rule run_Cons [of quiet_step, OF 1 run_single [of quiet_step, OF 2]])
  then show ?thesis using stop_strands_busy_worker [OF st r] demo_stopped_run by (intro conjI exI) auto
qed

end
