(* ===== verification/IPv4_Address.thy ===== *)
theory IPv4_Address
  imports "HOL-Library.Word" Mantids_Prelude
begin

unbundle bit_operations_syntax

text \<open>
  \<open>Memory/a_ipv4.{h,cpp}\<close>: IPv4 addresses with a network mask. An \<open>in_addr\<close> holds the address in
  network order, so on a little-endian host the first octet of the address is the low octet of
  the 32-bit word. \<open>inet_ntop\<close> and \<open>inet_pton\<close> are modelled as POSIX defines them for \<open>AF_INET\<close>: four
  decimal octets without leading zeros; \<open>strtoul\<close> in base ten skips blanks, takes a sign and the
  digits, and saturates.
\<close>

section \<open>What the code uses of the C library\<close>

type_synonym in_addr = "32 word"

definition octet :: "in_addr \<Rightarrow> nat \<Rightarrow> in_addr" where
  "octet w i = take_bit 8 (drop_bit (8 * i) w)"

definition htonl :: "in_addr \<Rightarrow> in_addr" where
  "htonl w = push_bit 24 (octet w 0) OR push_bit 16 (octet w 1) OR push_bit 8 (octet w 2) OR octet w 3"

definition digit_char :: "nat \<Rightarrow> char" where
  "digit_char d = char_of (48 + d)"

fun nat_string :: "nat \<Rightarrow> string" where
  "nat_string n = (if n < 10 then [digit_char n] else nat_string (n div 10) @ [digit_char (n mod 10)])"

declare nat_string.simps [simp del]

definition is_digit :: "char \<Rightarrow> bool" where
  "is_digit c = (48 \<le> (of_char c :: nat) \<and> (of_char c :: nat) \<le> 57)"

definition digit_value :: "char \<Rightarrow> nat" where
  "digit_value c = of_char c - 48"

definition dec_value :: "string \<Rightarrow> nat" where
  "dec_value s = foldl (\<lambda>v c. 10 * v + digit_value c) 0 s"

fun split_on :: "char \<Rightarrow> string \<Rightarrow> string list" where
  "split_on d [] = [[]]"
| "split_on d (c # cs) = (if c = d then [] # split_on d cs
     else (case split_on d cs of [] \<Rightarrow> [[c]] | p # ps \<Rightarrow> (c # p) # ps))"

definition octet_of_string :: "string \<Rightarrow> nat option" where
  "octet_of_string s =
     (if s = [] \<or> list_ex (\<lambda>c. \<not> is_digit c) s \<or> (length s > 1 \<and> hd s = CHR ''0'') \<or> dec_value s > 255
      then None else Some (dec_value s))"

definition inet_ntop :: "in_addr \<Rightarrow> string" where
  "inet_ntop w = nat_string (unat (octet w 0)) @ ''.'' @ nat_string (unat (octet w 1)) @ ''.'' @
     nat_string (unat (octet w 2)) @ ''.'' @ nat_string (unat (octet w 3))"

definition inet_pton :: "string \<Rightarrow> in_addr option" where
  "inet_pton s = (case map octet_of_string (split_on (CHR ''.'') s) of
     [Some a, Some b, Some c, Some d] \<Rightarrow>
       Some (word_of_nat a OR push_bit 8 (word_of_nat b) OR push_bit 16 (word_of_nat c) OR push_bit 24 (word_of_nat d))
   | _ \<Rightarrow> None)"

text \<open>\<open>std::string::c_str\<close> as the C functions read it: up to the first null character.\<close>

definition c_str :: "string \<Rightarrow> string" where
  "c_str s = takeWhile (\<lambda>c. c \<noteq> CHR 0x00) s"

text \<open>\<open>strtoul(s, nullptr, 10)\<close>: a minus sign negates the result as an unsigned long.\<close>

definition is_space :: "char \<Rightarrow> bool" where
  "is_space c = (c = CHR '' '' \<or> (9 \<le> (of_char c :: nat) \<and> (of_char c :: nat) \<le> 13))"

definition strtoul :: "string \<Rightarrow> 64 word" where
  "strtoul s =
     (let t = dropWhile is_space s;
          neg = (t \<noteq> [] \<and> hd t = CHR ''-'');
          u = (if t \<noteq> [] \<and> (hd t = CHR ''-'' \<or> hd t = CHR ''+'') then tl t else t);
          v = dec_value (takeWhile is_digit u) in
      if v \<ge> 2 ^ 64 then - 1 else if neg then - word_of_nat v else word_of_nat v)"

section \<open>The class\<close>

record ipv4 =
  m_value :: in_addr
  m_cidrMask :: "8 word"

definition IPV4_new :: ipv4 where
  "IPV4_new = \<lparr>m_value = 0, m_cidrMask = 32\<rparr>"

definition IPV4_setValue :: "ipv4 \<Rightarrow> in_addr \<Rightarrow> 8 word \<Rightarrow> ipv4" where
  "IPV4_setValue x v c = x\<lparr>m_cidrMask := c, m_value := v\<rparr>"

fun u64pow_loop :: "nat \<Rightarrow> 64 word \<Rightarrow> 64 word" where
  "u64pow_loop 0 result = result"
| "u64pow_loop (Suc n) result = u64pow_loop n (result * 2)"

definition u64pow :: "32 word \<Rightarrow> 32 word \<Rightarrow> 64 word" where
  "u64pow base exponent = (if exponent = 0 then 1 else u64pow_loop (unat exponent - 1) (ucast base))"

definition matchRange_addr :: "in_addr \<Rightarrow> 8 word \<Rightarrow> in_addr \<Rightarrow> bool" where
  "matchRange_addr haystack cidr needle =
     (if cidr > 32 then False
      else (let baseNetmask = htonl (ucast (u64pow 2 (ucast cidr) - 1));
                cmp01 = htonl haystack AND baseNetmask;
                cmp02 = htonl needle AND baseNetmask in
            cmp01 = cmp02))"

definition toString_cidr :: "in_addr \<Rightarrow> 8 word \<Rightarrow> string" where
  "toString_cidr v cidrMask = inet_ntop v @ (if cidrMask = 32 then [] else ''/'' @ nat_string (unat cidrMask))"

text \<open>The parsers return the value of \<open>*ok\<close> as well.\<close>

definition fromString_addr :: "string \<Rightarrow> in_addr \<times> bool" where
  "fromString_addr s = (if s = [] then (0, True) else case inet_pton (c_str s) of None \<Rightarrow> (0, False) | Some v \<Rightarrow> (v, True))"

definition fromStringWithNetmask :: "string \<Rightarrow> (in_addr \<times> 8 word) \<times> bool" where
  "fromStringWithNetmask s =
     (if CHR ''/'' \<notin> set s then (case fromString_addr s of (v, ok) \<Rightarrow> ((v, 32), ok))
      else (let detectedNetmask = tl (dropWhile (\<lambda>c. c \<noteq> CHR ''/'') s) in
            if length detectedNetmask \<noteq> 1 \<and> length detectedNetmask \<noteq> 2 then ((0, 0), False)
            else (let second = ucast (strtoul (c_str detectedNetmask)) :: 8 word in
                  if second > 32 then ((0, 0), False)
                  else (case fromString_addr (takeWhile (\<lambda>c. c \<noteq> CHR ''/'') s) of (v, ok) \<Rightarrow> ((v, second), ok)))))"

definition IPV4_of_string :: "string \<Rightarrow> ipv4" where
  "IPV4_of_string s = (case fromStringWithNetmask s of ((v, c), _) \<Rightarrow> IPV4_setValue IPV4_new v c)"

definition IPV4_fromString :: "ipv4 \<Rightarrow> string \<Rightarrow> bool \<times> ipv4" where
  "IPV4_fromString x s = (case fromStringWithNetmask s of ((v, c), ok) \<Rightarrow> (ok, IPV4_setValue x v c))"

definition IPV4_toString :: "ipv4 \<Rightarrow> string" where
  "IPV4_toString x = toString_cidr (m_value x) 32"

definition IPV4_matchRange :: "ipv4 \<Rightarrow> in_addr \<Rightarrow> bool" where
  "IPV4_matchRange x v = matchRange_addr (m_value x) (m_cidrMask x) v"

definition IPV4_matchRange_string :: "ipv4 \<Rightarrow> string \<Rightarrow> bool" where
  "IPV4_matchRange_string x s = IPV4_matchRange x (fst (fromString_addr s))"

definition matchRange_string :: "string \<Rightarrow> in_addr \<Rightarrow> bool" where
  "matchRange_string haystack needle = (case fromStringWithNetmask haystack of
     ((v, c), ok) \<Rightarrow> if \<not> ok then False else matchRange_addr v c needle)"

definition matchRange_strings :: "string \<Rightarrow> string \<Rightarrow> bool" where
  "matchRange_strings haystack needle = (case fromString_addr needle of
     (a, ok) \<Rightarrow> if \<not> ok then False else matchRange_string haystack a)"

definition fromCIDRMask :: "8 word \<Rightarrow> in_addr \<times> bool" where
  "fromCIDRMask v = (if v \<le> 32 then (ucast (u64pow 2 (ucast v) - 1), True) else (fst (fromString_addr ''0.0.0.0''), False))"

definition cidr_table :: "(string \<times> 8 word) list" where
  "cidr_table = [
    (''255.255.255.255'', 32), (''255.255.255.254'', 31), (''255.255.255.252'', 30), (''255.255.255.248'', 29),
    (''255.255.255.240'', 28), (''255.255.255.224'', 27), (''255.255.255.192'', 26), (''255.255.255.128'', 25),
    (''255.255.255.0'', 24), (''255.255.254.0'', 23), (''255.255.252.0'', 22), (''255.255.248.0'', 21),
    (''255.255.240.0'', 20), (''255.255.224.0'', 19), (''255.255.192.0'', 18), (''255.255.128.0'', 17),
    (''255.255.0.0'', 16), (''255.254.0.0'', 15), (''255.252.0.0'', 14), (''255.248.0.0'', 13),
    (''255.240.0.0'', 12), (''255.224.0.0'', 11), (''255.192.0.0'', 10), (''255.128.0.0'', 9),
    (''255.0.0.0'', 8), (''254.0.0.0'', 7), (''252.0.0.0'', 6), (''248.0.0.0'', 5),
    (''240.0.0.0'', 4), (''224.0.0.0'', 3), (''192.0.0.0'', 2), (''128.0.0.0'', 1), (''0.0.0.0'', 0)]"

definition toCIDRMask :: "in_addr \<Rightarrow> 8 word" where
  "toCIDRMask v = (case map_of cidr_table (toString_cidr v 32) of Some c \<Rightarrow> c | None \<Rightarrow> 255)"

section \<open>Octets\<close>

lemma bit_octet: "bit (octet w i) n \<longleftrightarrow> n < 8 \<and> bit w (8 * i + n)"
  by (auto simp: octet_def bit_take_bit_iff bit_drop_bit_eq)

lemma octet_position: "b < 8 \<Longrightarrow> (8 * a + b) div 8 = a" "b < 8 \<Longrightarrow> (8 * a + b) mod 8 = (b :: nat)"
  by simp_all

lemma octet_cases [case_names octet]:
  fixes n :: nat
  assumes "n < 32"
  obtains a b where "a < 4" "b < 8" "n = 8 * a + b"
  using assms that [of "n div 8" "n mod 8"] by fastforce

lemma bit_htonl_octet: "a < 4 \<Longrightarrow> b < 8 \<Longrightarrow> bit (htonl w) (8 * a + b) \<longleftrightarrow> bit w (8 * (3 - a) + b)"
proof -
  assume ab: "a < 4" "b < 8"
  then have "a = 0 \<or> a = 1 \<or> a = 2 \<or> a = 3" by auto
  then show ?thesis using ab by (elim disjE) (simp_all add: htonl_def bit_or_iff bit_push_bit_iff bit_octet)
qed

lemma htonl_and: "htonl a AND htonl b = htonl (a AND b)"
proof (rule bit_word_eqI)
  fix n assume "n < LENGTH(32)"
  then have "n < 32" by simp
  then show "bit (htonl a AND htonl b) n = bit (htonl (a AND b)) n"
    by (cases rule: octet_cases) (simp add: bit_and_iff bit_htonl_octet)
qed

lemma htonl_htonl [simp]: "htonl (htonl w) = w"
proof (rule bit_word_eqI)
  fix n assume "n < LENGTH(32)"
  then have "n < 32" by simp
  then show "bit (htonl (htonl w)) n = bit w n"
  proof (cases rule: octet_cases)
    case (octet a b)
    then have "3 - a < 4" "3 - (3 - a) = a" by auto
    then show ?thesis using octet by (simp add: bit_htonl_octet)
  qed
qed

lemma htonl_inject [simp]: "htonl a = htonl b \<longleftrightarrow> a = b"
  by (metis htonl_htonl)

section \<open>Masks\<close>

lemma u64pow_loop_eq: "u64pow_loop n r = r * 2 ^ n"
  by (induction n arbitrary: r) (auto simp: algebra_simps)

lemma u64pow_two: "u64pow 2 e = 2 ^ unat e"
proof (cases "e = 0")
  case False
  then obtain k where "unat e = Suc k" by (metis not0_implies_Suc unat_eq_zero)
  then show ?thesis using False by (simp add: u64pow_def u64pow_loop_eq)
qed (simp add: u64pow_def)

lemma netmask_word: "c \<le> 32 \<Longrightarrow> ucast (u64pow 2 (ucast (c :: 8 word)) - 1) = (mask (unat c) :: in_addr)"
proof -
  assume "c \<le> 32"
  then have "unat c \<le> 32" by (simp add: word_le_nat_alt)
  then have "take_bit 32 (unat c) = unat c" by (simp add: take_bit_nat_eq_self)
  then have "u64pow 2 (ucast c) - 1 = (mask (unat c) :: 64 word)"
    by (simp add: u64pow_two mask_eq_exp_minus_1 unsigned_ucast_eq)
  then show ?thesis by (simp only:) (rule bit_word_eqI, auto simp: bit_ucast_iff bit_mask_iff)
qed

lemma matchRange_bits:
  "matchRange_addr h c n \<longleftrightarrow> c \<le> 32 \<and> (\<forall>p < unat c. bit h p = bit n p)"
proof (cases "c \<le> 32")
  case True
  then have le: "unat c \<le> 32" by (simp add: word_le_nat_alt)
  have "matchRange_addr h c n \<longleftrightarrow> h AND mask (unat c) = n AND mask (unat c)"
    using True by (simp add: matchRange_addr_def netmask_word htonl_and not_less [symmetric])
  also have "\<dots> \<longleftrightarrow> take_bit (unat c) h = take_bit (unat c) n" by (simp add: take_bit_eq_mask)
  also have "\<dots> \<longleftrightarrow> (\<forall>p < unat c. bit h p = bit n p)"
    using le by (auto simp: bit_eq_iff bit_take_bit_iff) (metis order_less_le_trans)+
  finally show ?thesis using True by simp
next
  case False then show ?thesis by (simp add: matchRange_addr_def not_le)
qed

text \<open>What a network mask means: the first \<open>c\<close> bits of the address, from the most significant bit of
  the first octet on. Bit \<open>p\<close> in that order is bit \<open>wire p\<close> of the word.\<close>

definition wire :: "nat \<Rightarrow> nat" where
  "wire p = 8 * (p div 8) + (7 - p mod 8)"

definition same_network :: "nat \<Rightarrow> in_addr \<Rightarrow> in_addr \<Rightarrow> bool" where
  "same_network c h n \<longleftrightarrow> (\<forall>p < c. bit h (wire p) = bit n (wire p))"

lemma wire_octet [simp]: "b < 8 \<Longrightarrow> wire (8 * a + b) = 8 * a + (7 - b)"
  unfolding wire_def by (simp only: octet_position)

lemma position_split: obtains a b where "b < 8" "p = 8 * a + (b :: nat)"
  using that [of "p mod 8" "p div 8"] by simp

lemma wire_wire [simp]: "wire (wire p) = p"
proof (rule position_split [of p])
  fix a b assume "b < 8" "p = 8 * a + b"
  then show ?thesis using wire_octet [of "7 - b" a] by simp
qed

lemma wire_less: "8 dvd c \<Longrightarrow> p < c \<Longrightarrow> wire p < c"
proof (rule position_split [of p])
  fix a b assume "8 dvd c" "p < c" and p: "b < 8" "p = 8 * a + b"
  then obtain k where k: "c = 8 * k" by (auto elim: dvdE)
  then have "a < k" using \<open>p < c\<close> p by linarith
  then show "wire p < c" using k p by simp
qed

lemma match_octets: "c \<le> 32 \<Longrightarrow> 8 dvd unat c \<Longrightarrow> matchRange_addr h c n \<longleftrightarrow> same_network (unat c) h n"
  unfolding matchRange_bits same_network_def by (metis wire_less wire_wire)

lemma match_not_octets:
  assumes le: "c \<le> 32" and nd: "unat c = 8 * a + b" "0 < b" "b < 8"
  shows "same_network (unat c) 0 (2 ^ (8 * a))" "\<not> matchRange_addr 0 c (2 ^ (8 * a))"
    "matchRange_addr 0 c (2 ^ (8 * a + 7))" "\<not> same_network (unat c) 0 (2 ^ (8 * a + 7))"
proof -
  have c: "unat c \<le> 32" using le by (simp add: word_le_nat_alt)
  then have a: "8 * a + 7 < 32" using nd by presburger
  have bit2: "bit (2 ^ j :: in_addr) p \<longleftrightarrow> p = j" if "j < 32" for j p
    using that by (auto simp: bit_exp_iff)
  have "wire p \<noteq> 8 * a" if "p < unat c" for p
  proof
    assume "wire p = 8 * a"
    then have "p = wire (8 * a + 0)" by (metis add.right_neutral wire_wire)
    then have "p = 8 * a + 7" using wire_octet [of 0 a] by simp
    then show False using that nd by simp
  qed
  then show "same_network (unat c) 0 (2 ^ (8 * a))" using bit2 [of "8 * a"] a by (simp add: same_network_def)
  show "\<not> matchRange_addr 0 c (2 ^ (8 * a))" using bit2 [of "8 * a"] a nd by (auto simp: matchRange_bits)
  show "matchRange_addr 0 c (2 ^ (8 * a + 7))" using bit2 [of "8 * a + 7"] a nd le by (auto simp: matchRange_bits)
  have "wire (8 * a) = 8 * a + 7" using wire_octet [of 0 a] by simp
  then show "\<not> same_network (unat c) 0 (2 ^ (8 * a + 7))"
    using bit2 [of "8 * a + 7"] a nd unfolding same_network_def by (metis bit_0_eq bot_apply bot_bool_def less_add_same_cancel1)
qed

section \<open>Text\<close>

lemma digit_char_simps:
  assumes "d < 10"
  shows "is_digit (digit_char d)" "digit_value (digit_char d) = d" "digit_char d = CHR ''0'' \<longleftrightarrow> d = 0"
proof -
  have "of_char (digit_char d) = (48 + d :: nat)" using assms by (simp add: digit_char_def)
  moreover have "digit_char d = CHR ''0'' \<longleftrightarrow> of_char (digit_char d) = (of_char (CHR ''0'') :: nat)" by (simp only: of_char_eq_iff)
  ultimately show "is_digit (digit_char d)" "digit_value (digit_char d) = d" "digit_char d = CHR ''0'' \<longleftrightarrow> d = 0"
    using assms by (simp_all add: is_digit_def digit_value_def)
qed

lemma dec_value_snoc [simp]: "dec_value (s @ [c]) = 10 * dec_value s + digit_value c" "dec_value [] = 0"
  by (simp_all add: dec_value_def)

lemma dec_value_single [simp]: "dec_value [c] = digit_value c"
  using dec_value_snoc(1) [of "[]" c] by simp

lemma nat_string_digits: "nat_string n \<noteq> [] \<and> (\<forall>c \<in> set (nat_string n). is_digit c) \<and> dec_value (nat_string n) = n \<and>
    (n > 0 \<longrightarrow> hd (nat_string n) \<noteq> CHR ''0'') \<and> (n < 10 \<longrightarrow> length (nat_string n) = 1) \<and> (10 \<le> n \<and> n < 100 \<longrightarrow> length (nat_string n) = 2)"
proof (induction n rule: nat_string.induct)
  case (1 n)
  show ?case
  proof (cases "n < 10")
    case True then show ?thesis by (simp add: nat_string.simps [of n] digit_char_simps)
  next
    case False
    then have "n div 10 > 0" "n < 100 \<Longrightarrow> n div 10 < 10" by auto
    then show ?thesis using 1 [OF False] False by (simp add: nat_string.simps [of n] digit_char_simps)
  qed
qed

lemmas nat_string_facts = nat_string_digits [THEN conjunct1] nat_string_digits [THEN conjunct2, THEN conjunct1]
  nat_string_digits [THEN conjunct2, THEN conjunct2, THEN conjunct1]

lemma digit_not [simp]:
  "\<not> is_digit (CHR ''.'')" "\<not> is_digit (CHR ''/'')" "\<not> is_digit (CHR ''-'')" "\<not> is_digit (CHR ''+'')" "\<not> is_digit (CHR 0x00)" "is_digit c \<Longrightarrow> \<not> is_space c"
  by (auto simp: is_digit_def is_space_def)

lemma octet_textD:
  assumes "n < 256"
  shows "octet_of_string (nat_string n) = Some n"
proof -
  have "length (nat_string n) > 1 \<longrightarrow> hd (nat_string n) \<noteq> CHR ''0''"
    using nat_string_digits [of n] by (cases "n = 0") auto
  then show ?thesis using assms nat_string_digits [of n] by (auto simp: octet_of_string_def list_ex_iff)
qed

lemma nat_string_no: "\<not> is_digit c \<Longrightarrow> c \<notin> set (nat_string n)"
  using nat_string_digits [of n] by blast

lemma split_on_append: "d \<notin> set a \<Longrightarrow> split_on d (a @ d # b) = a # split_on d b"
  by (induction a) auto

lemma split_on_none: "d \<notin> set a \<Longrightarrow> split_on d a = [a]"
  by (induction a) auto

lemma octet_less: "unat (octet w i) < 256"
proof -
  have "unat (octet w i) = take_bit 8 (unat (drop_bit (8 * i) w))" by (simp add: octet_def unsigned_take_bit_eq)
  then show ?thesis using take_bit_nat_less_exp [of 8 "unat (drop_bit (8 * i) w)"] by simp
qed

lemma octets_join: "octet w 0 OR push_bit 8 (octet w 1) OR push_bit 16 (octet w 2) OR push_bit 24 (octet w 3) = w"
proof (rule bit_word_eqI)
  fix n assume "n < LENGTH(32)"
  then have "n < 32" by simp
  then show "bit (octet w 0 OR push_bit 8 (octet w 1) OR push_bit 16 (octet w 2) OR push_bit 24 (octet w 3)) n = bit w n"
  proof (cases rule: octet_cases)
    case (octet a b)
    then have "a = 0 \<or> a = 1 \<or> a = 2 \<or> a = 3" by auto
    then show ?thesis using octet by (elim disjE) (simp_all add: bit_or_iff bit_push_bit_iff bit_octet)
  qed
qed

lemma inet_pton_ntop [simp]: "inet_pton (inet_ntop w) = Some w"
  using octets_join [of w]
  by (simp add: inet_pton_def inet_ntop_def split_on_append split_on_none octet_textD octet_less nat_string_no)

lemma inet_ntop_inject [simp]: "inet_ntop a = inet_ntop b \<longleftrightarrow> a = b"
  by (metis inet_pton_ntop option.inject)

lemma inet_ntop_chars: "inet_ntop w \<noteq> []" "CHR ''/'' \<notin> set (inet_ntop w)" "CHR 0x00 \<notin> set (inet_ntop w)"
  by (auto simp: inet_ntop_def nat_string_no nat_string_facts)

lemma c_str_id: "CHR 0x00 \<notin> set s \<Longrightarrow> c_str s = s"
  unfolding c_str_def by (simp add: takeWhile_eq_all_conv) metis

lemma fromString_ntop [simp]: "fromString_addr (inet_ntop w) = (w, True)"
  by (simp add: fromString_addr_def inet_ntop_chars c_str_id)

lemma strtoul_nat_string: "n < 2 ^ 64 \<Longrightarrow> strtoul (nat_string n) = word_of_nat n"
proof -
  assume n: "n < 2 ^ 64"
  obtain c cs where c: "nat_string n = c # cs" using nat_string_facts(1) by (meson neq_Nil_conv)
  have d: "\<forall>x \<in> set (nat_string n). is_digit x" by (rule nat_string_facts(2))
  then have "is_digit c" by (simp add: c)
  then have "dropWhile is_space (nat_string n) = nat_string n" "c \<noteq> CHR ''-''" "c \<noteq> CHR ''+''" by (auto simp: c)
  moreover have "takeWhile is_digit (nat_string n) = nat_string n" using d by simp
  ultimately show ?thesis using n c nat_string_facts(3) [of n] by (simp add: strtoul_def Let_def)
qed

lemma mask_text:
  assumes "(c :: 8 word) \<le> 32"
  shows "ucast (strtoul (nat_string (unat c))) = c" "length (nat_string (unat c)) = 1 \<or> length (nat_string (unat c)) = 2"
proof -
  have "unat c < 100" using assms by (simp add: word_le_nat_alt)
  then show "length (nat_string (unat c)) = 1 \<or> length (nat_string (unat c)) = 2"
    using nat_string_digits [of "unat c"] by linarith
  show "ucast (strtoul (nat_string (unat c))) = c"
    using \<open>unat c < 100\<close> by (simp add: strtoul_nat_string) (rule bit_word_eqI, auto simp: bit_ucast_iff)
qed

lemma slash_split:
  assumes "CHR ''/'' \<notin> set a"
  shows "takeWhile (\<lambda>c. c \<noteq> CHR ''/'') (a @ ''/'' @ b) = a" "dropWhile (\<lambda>c. c \<noteq> CHR ''/'') (a @ ''/'' @ b) = CHR ''/'' # b"
  using assms by (auto simp: takeWhile_append dropWhile_append3)

text \<open>The mask that a prefix length stands for.\<close>

definition netmask :: "nat \<Rightarrow> in_addr" where
  "netmask c = htonl (push_bit (32 - c) (mask c))"

lemma digit_char_table [simp]:
  "digit_char 0 = CHR ''0''" "digit_char (Suc 0) = CHR ''1''" "digit_char 2 = CHR ''2''" "digit_char 3 = CHR ''3''"
  "digit_char 4 = CHR ''4''" "digit_char 5 = CHR ''5''" "digit_char 6 = CHR ''6''" "digit_char 7 = CHR ''7''"
  "digit_char 8 = CHR ''8''" "digit_char 9 = CHR ''9''"
  by code_simp+

lemma netmask_texts:
  "map (\<lambda>c. inet_ntop (netmask c)) (rev [0..<33]) = map fst cidr_table" "map snd cidr_table = map word_of_nat (rev [0..<33])"
proof -
  have "[0..<33] = [0, 1, 2, 3, 4, 5, 6, 7, 8, 9, 10, 11, 12, 13, 14, 15, 16, 17, 18, 19, 20, 21, 22, 23, 24, 25, 26, 27, 28, 29, 30, 31, 32]"
    by code_simp
  note up = this
  show "map (\<lambda>c. inet_ntop (netmask c)) (rev [0..<33]) = map fst cidr_table"
    by (simp add: up cidr_table_def) (simp add: netmask_def htonl_def inet_ntop_def octet_def mask_eq_exp_minus_1 nat_string.simps)
  show "map snd cidr_table = map word_of_nat (rev [0..<33])"
    by (simp add: up cidr_table_def)
qed

lemma cidr_table_netmasks: "cidr_table = map (\<lambda>c. (inet_ntop (netmask c), word_of_nat c)) (rev [0..<33])"
proof -
  have "cidr_table = zip (map (\<lambda>c. inet_ntop (netmask c)) (rev [0..<33])) (map word_of_nat (rev [0..<33]))"
    by (simp only: netmask_texts(1) netmask_texts(2) [symmetric] zip_map_fst_snd)
  then show ?thesis by (simp only: zip_map_map zip_same_conv_map map_map comp_def prod.case)
qed

lemma netmask_inject: "netmask a = netmask b \<Longrightarrow> a \<le> 32 \<Longrightarrow> b \<le> 32 \<Longrightarrow> a = b"
proof -
  assume eq: "netmask a = netmask b" and le: "a \<le> 32" "b \<le> 32"
  have m: "bit (push_bit (32 - c) (mask c) :: in_addr) p \<longleftrightarrow> 32 - c \<le> p" if "p < 32" "c \<le> 32" for c p
    using that by (simp add: bit_push_bit_iff bit_mask_iff less_diff_conv2 add.commute cong: conj_cong)
  have bits: "32 - a \<le> p \<longleftrightarrow> 32 - b \<le> p" if "p < 32" for p
    using eq m [OF that le(1)] m [OF that le(2)] by (simp add: netmask_def)
  show ?thesis using le bits [of "32 - a"] bits [of "32 - b"] by linarith
qed

lemma toCIDRMask_netmask: "c \<le> 32 \<Longrightarrow> toCIDRMask (netmask c) = word_of_nat c"
proof -
  assume c: "c \<le> 32"
  have d: "distinct (map fst cidr_table)"
    unfolding cidr_table_netmasks by (auto simp: distinct_map o_def inj_on_def dest: netmask_inject)
  have "(inet_ntop (netmask c), word_of_nat c) \<in> set cidr_table" unfolding cidr_table_netmasks using c by force
  then show ?thesis using d by (simp add: toCIDRMask_def toString_cidr_def)
qed

lemma toCIDRMask_other:
  assumes "\<forall>c \<le> 32. w \<noteq> netmask c"
  shows "toCIDRMask w = 255"
proof -
  have "inet_ntop w \<notin> fst ` set cidr_table" unfolding cidr_table_netmasks using assms by (auto simp: less_eq_Suc_le)
  then have "map_of cidr_table (inet_ntop w) = None" by (simp add: map_of_eq_None_iff)
  then show ?thesis by (simp add: toCIDRMask_def toString_cidr_def)
qed

lemma bit_netmask: "c \<le> 32 \<Longrightarrow> p < 32 \<Longrightarrow> bit (netmask c) (wire p) \<longleftrightarrow> p < c"
proof -
  assume c: "c \<le> 32" and p: "p < 32"
  from p show ?thesis
  proof (cases rule: octet_cases)
    case (octet a b)
    then have "bit (netmask c) (wire p) \<longleftrightarrow> bit (push_bit (32 - c) (mask c) :: in_addr) (8 * (3 - a) + (7 - b))"
      using bit_htonl_octet [of a "7 - b"] by (simp add: netmask_def)
    also have "8 * (3 - a) + (7 - b) = 31 - p" using octet by simp
    also have "bit (push_bit (32 - c) (mask c) :: in_addr) (31 - p) \<longleftrightarrow> p < c"
      using c p by (simp add: bit_push_bit_iff bit_mask_iff) linarith
    finally show ?thesis .
  qed
qed

lemma fromCIDRMask_octets: "(c :: 8 word) \<le> 32 \<Longrightarrow> 8 dvd unat c \<Longrightarrow> fromCIDRMask c = (netmask (unat c), True)"
proof -
  assume le: "c \<le> 32" and d: "8 dvd unat c"
  have c: "unat c \<le> 32" using le by (simp add: word_le_nat_alt)
  have "(mask (unat c) :: in_addr) = netmask (unat c)"
  proof (rule bit_word_eqI)
    fix n assume "n < LENGTH(32)"
    then have n: "n < 32" by simp
    then have "wire n < 32" using wire_less [of 32 n] by simp
    then have "bit (netmask (unat c)) n \<longleftrightarrow> wire n < unat c" using bit_netmask [OF c, of "wire n"] by simp
    also have "\<dots> \<longleftrightarrow> n < unat c" using wire_less [OF d] by (metis wire_wire)
    finally show "bit (mask (unat c) :: in_addr) n = bit (netmask (unat c)) n" using n by (simp add: bit_mask_iff)
  qed
  then show ?thesis using le by (simp add: fromCIDRMask_def netmask_word)
qed

lemma fromCIDRMask_wrong:
  assumes le: "(c :: 8 word) \<le> 32" and nd: "unat c = 8 * a + b" "0 < b" "b < 8" and c': "c' \<le> 32"
  shows "fst (fromCIDRMask c) \<noteq> netmask c'"
proof
  assume eq: "fst (fromCIDRMask c) = netmask c'"
  have c: "unat c \<le> 32" using le by (simp add: word_le_nat_alt)
  then have a: "8 * a + 7 < 32" using nd by presburger
  have m: "mask (unat c) = netmask c'" using eq le by (simp add: fromCIDRMask_def netmask_word)
  have w: "bit (mask (unat c) :: in_addr) (wire p) \<longleftrightarrow> p < c'" if "p < 32" for p using bit_netmask [OF c' that] m by simp
  have "bit (mask (unat c) :: in_addr) (8 * a)" "\<not> bit (mask (unat c) :: in_addr) (8 * a + 7)"
    using a nd by (auto simp: bit_mask_iff)
  moreover have "wire (8 * a + 7) = 8 * a" "wire (8 * a) = 8 * a + 7" using wire_octet [of 7 a] wire_octet [of 0 a] by simp_all
  ultimately have "8 * a + 7 < c'" "\<not> 8 * a < c'" using w [of "8 * a + 7"] w [of "8 * a"] a by auto
  then show False by simp
qed

section \<open>Properties\<close>

text \<open>C32: the range test of an address with a prefix length that is a multiple of eight is exact: it
  holds if and only if the first bits of the two addresses agree. For every other prefix length
  up to 32 it is wrong in both directions: the bits it compares in the last octet are the low ones,
  not the high ones, so that there are addresses inside the network that it rejects and addresses
  outside it that it accepts.\<close>

theorem cidr_match:
  assumes "c \<le> 32"
  shows "(8 dvd unat c \<longrightarrow> (\<forall>h n. matchRange_addr h c n \<longleftrightarrow> same_network (unat c) h n)) \<and>
    (\<not> 8 dvd unat c \<longrightarrow> (\<exists>h n. same_network (unat c) h n \<and> \<not> matchRange_addr h c n) \<and>
      (\<exists>h n. matchRange_addr h c n \<and> \<not> same_network (unat c) h n))"
proof -
  have "(\<exists>h n. same_network (unat c) h n \<and> \<not> matchRange_addr h c n) \<and> (\<exists>h n. matchRange_addr h c n \<and> \<not> same_network (unat c) h n)"
    if "\<not> 8 dvd unat c"
  proof -
    have "unat c = 8 * (unat c div 8) + unat c mod 8" "0 < unat c mod 8" "unat c mod 8 < 8"
      using that by (auto simp: dvd_eq_mod_eq_0)
    then show ?thesis using match_not_octets [OF assms] by blast
  qed
  then show ?thesis using match_octets [OF assms] by blast
qed

theorem cidr_match_witness: "matchRange_addr 0x0100A8C0 24 0x0900A8C0 = same_network 24 0x0100A8C0 0x0900A8C0"
  using cidr_match [of 24] by simp

text \<open>The conversions between prefix lengths and masks: the table of \<open>_toCIDRMask\<close> gives the
  prefix length of each of the 33 masks and 255 for every other address; \<open>_fromCIDRMask\<close> gives the
  right mask exactly for the multiples of eight, and for the other lengths no mask at all, so
  that the way there and back ends in 255.\<close>

theorem cidr_masks:
  assumes "c \<le> 32"
  shows "toCIDRMask (netmask c) = word_of_nat c \<and> (\<forall>w. (\<forall>k \<le> 32. w \<noteq> netmask k) \<longrightarrow> toCIDRMask w = 255) \<and>
    toCIDRMask (fst (fromCIDRMask (word_of_nat c))) = (if 8 dvd c then word_of_nat c else 255)"
proof -
  have u: "unat (word_of_nat c :: 8 word) = c" "(word_of_nat c :: 8 word) \<le> 32"
    using assms by (simp_all add: unat_of_nat word_le_nat_alt)
  have "toCIDRMask (fst (fromCIDRMask (word_of_nat c))) = (if 8 dvd c then word_of_nat c else 255)"
  proof (cases "8 dvd c")
    case True then show ?thesis using fromCIDRMask_octets [OF u(2)] assms by (simp add: u(1) toCIDRMask_netmask)
  next
    case False
    then have "unat (word_of_nat c :: 8 word) = 8 * (c div 8) + c mod 8" "0 < c mod 8" "c mod 8 < 8"
      using u(1) by (auto simp: dvd_eq_mod_eq_0)
    then have "\<forall>k \<le> 32. fst (fromCIDRMask (word_of_nat c)) \<noteq> netmask k" using fromCIDRMask_wrong [OF u(2)] by blast
    then show ?thesis using False toCIDRMask_other by simp
  qed
  then show ?thesis using assms toCIDRMask_netmask toCIDRMask_other by blast
qed

theorem cidr_masks_witness: "toCIDRMask (netmask 25) = 25 \<and> toCIDRMask (fst (fromCIDRMask 25)) = 255"
  using cidr_masks [of 25] by simp

text \<open>An address and its prefix length survive being printed with \<open>_toString\<close> and read back; but
  the \<open>toString\<close> of an object prints the address only, so that reading it back turns every network
  into a single host.\<close>

theorem address_text_roundtrip:
  assumes "c \<le> 32"
  shows "fromStringWithNetmask (toString_cidr w c) = ((w, c), True) \<and>
    IPV4_fromString y (IPV4_toString \<lparr>m_value = w, m_cidrMask = c\<rparr>) = (True, \<lparr>m_value = w, m_cidrMask = 32\<rparr>)"
proof -
  have ntop: "fromStringWithNetmask (inet_ntop w) = ((w, 32), True)"
    by (simp add: fromStringWithNetmask_def inet_ntop_chars)
  have "fromStringWithNetmask (toString_cidr w c) = ((w, c), True)"
  proof (cases "c = 32")
    case True then show ?thesis using ntop by (simp add: toString_cidr_def)
  next
    case False
    then have s: "toString_cidr w c = inet_ntop w @ ''/'' @ nat_string (unat c)" by (simp add: toString_cidr_def)
    show ?thesis unfolding s fromStringWithNetmask_def
      using slash_split [OF inet_ntop_chars(2) [of w], of "nat_string (unat c)"] mask_text [OF assms] assms c_str_id [OF nat_string_no [of "CHR 0x00" "unat c"]]
      by (auto simp: Let_def)
  qed
  then show ?thesis using ntop by (cases y) (simp add: IPV4_fromString_def IPV4_toString_def toString_cidr_def IPV4_setValue_def)
qed

theorem address_text_roundtrip_witness:
  "fromStringWithNetmask (toString_cidr 0x0100A8C0 24) = ((0x0100A8C0, 24), True)"
  using address_text_roundtrip [of 24 "0x0100A8C0"] by simp

text \<open>A network that cannot be parsed matches everything. When the part after the slash has the
  wrong length or is above 32, an object made from the text, or one that \<open>fromString\<close> has refused to
  change, is the network 0.0.0.0/0, whose range test accepts every address; a mask that is not a
  number counts as zero and is even reported as a success.\<close>

theorem failed_parse_matches_all:
  assumes "CHR ''/'' \<notin> set a" "length m \<noteq> 1 \<and> length m \<noteq> 2 \<or> (ucast (strtoul (c_str m)) :: 8 word) > 32"
  shows "\<not> fst (IPV4_fromString x (a @ ''/'' @ m)) \<and> IPV4_matchRange (snd (IPV4_fromString x (a @ ''/'' @ m))) v \<and>
    IPV4_matchRange (IPV4_of_string (a @ ''/'' @ m)) v"
proof -
  have f: "fromStringWithNetmask (a @ ''/'' @ m) = ((0, 0), False)"
    unfolding fromStringWithNetmask_def using slash_split [OF assms(1), of m] assms(2) by (auto simp: Let_def)
  have "matchRange_addr 0 0 v" by (simp add: matchRange_bits)
  then show ?thesis unfolding IPV4_fromString_def IPV4_of_string_def f by (simp add: IPV4_setValue_def IPV4_matchRange_def)
qed

theorem failed_parse_matches_all_witness:
  "IPV4_matchRange (IPV4_of_string ''10.0.0.1/255.255.255.0'') 0x08080808"
  using failed_parse_matches_all [of "''10.0.0.1''" "''255.255.255.0''" IPV4_new "0x08080808"] by simp

end
