(* ===== verification/Socket_Streams.thy ===== *)
theory Socket_Streams
  imports Stream_Objects IPv4_Address
begin

text \<open>
  \<open>Net_Sockets\<close>: stream sockets above the system calls. \<open>Socket\<close> guards \<open>recv\<close> and \<open>send\<close>;
  \<open>Socket_Stream\<close> repeats them until a whole block is through; \<open>Socket_Stream_Reader\<close> and
  \<open>Socket_Stream_Writer\<close> frame integers, blocks and strings; \<open>BufferedReader\<close> reads up to a
  delimiter; \<open>Socket_Chain_XOR\<close> is a layer over another socket; \<open>CryptoChallenge\<close> is a mutual
  authentication.

  The system calls are the record \<open>os_ops\<close>. A read returns \<open>None\<close> for a negative result, otherwise
  the bytes; a write \<open>None\<close> or the number of bytes taken. A socket class is the record
  \<open>socket_ops\<close> of its virtual operations. Host words are little-endian in memory. The null checks
  of the buffer pointers are left out: a buffer is a list.
\<close>

unbundle bit_operations_syntax

section \<open>Socket\<close>

datatype shut_mode = SHUT_RD | SHUT_WR | SHUT_RDWR

record 'k os_ops =
  os_recv :: "'k \<Rightarrow> nat \<Rightarrow> bytes option \<times> 'k"
  os_send :: "'k \<Rightarrow> bytes \<Rightarrow> nat option \<times> 'k"
  os_shutdown :: "'k \<Rightarrow> shut_mode \<Rightarrow> int \<times> 'k"

record 's socket_ops =
  partialRead :: "'s \<Rightarrow> nat \<Rightarrow> bytes option \<times> 's"
  partialWrite :: "'s \<Rightarrow> bytes \<Rightarrow> nat option \<times> 's"
  shutdownSocket :: "'s \<Rightarrow> shut_mode \<Rightarrow> int \<times> 's"

record 'k socket =
  m_sockFD :: int
  m_kernel :: 'k
  m_shutdownProtocolOnRead :: bool
  m_shutdownProtocolOnWrite :: bool

definition isActive :: "'k socket \<Rightarrow> bool" where
  "isActive s \<longleftrightarrow> m_sockFD s \<noteq> - 1"

definition Socket_partialRead :: "'k os_ops \<Rightarrow> 'k socket \<Rightarrow> nat \<Rightarrow> bytes option \<times> 'k socket" where
  "Socket_partialRead os s datalen =
     (if \<not> isActive s then (None, s)
      else if datalen = 0 then (Some [], s)
      else (case os_recv os (m_kernel s) datalen of
              (Some bs, k) \<Rightarrow> (Some bs, s\<lparr>m_kernel := k\<rparr>)
            | (None, k) \<Rightarrow> (None, s\<lparr>m_kernel := k\<rparr>)))"

definition Socket_partialWrite :: "'k os_ops \<Rightarrow> 'k socket \<Rightarrow> bytes \<Rightarrow> nat option \<times> 'k socket" where
  "Socket_partialWrite os s data =
     (if \<not> isActive s then (None, s)
      else if data = [] then (Some 0, s)
      else (case os_send os (m_kernel s) data of
              (Some n, k) \<Rightarrow> (if n > 0 then Some n else None, s\<lparr>m_kernel := k\<rparr>)
            | (None, k) \<Rightarrow> (None, s\<lparr>m_kernel := k\<rparr>)))"

definition iShutdown :: "'k os_ops \<Rightarrow> 'k socket \<Rightarrow> shut_mode \<Rightarrow> int \<times> 'k socket" where
  "iShutdown os s mode =
     (if \<not> isActive s then (- 10, s)
      else (let rd = ((mode = SHUT_RD \<or> mode = SHUT_RDWR) \<and> \<not> m_shutdownProtocolOnRead s);
                wr = ((mode = SHUT_WR \<or> mode = SHUT_RDWR) \<and> \<not> m_shutdownProtocolOnWrite s) in
            if rd \<and> wr then
              (case os_shutdown os (m_kernel s) SHUT_RDWR of (x, k) \<Rightarrow>
                 (x, s\<lparr>m_kernel := k, m_shutdownProtocolOnRead := True, m_shutdownProtocolOnWrite := True\<rparr>))
            else if rd then
              (case os_shutdown os (m_kernel s) SHUT_RD of (x, k) \<Rightarrow>
                 (x, s\<lparr>m_kernel := k, m_shutdownProtocolOnRead := True\<rparr>))
            else if wr then
              (case os_shutdown os (m_kernel s) SHUT_WR of (x, k) \<Rightarrow>
                 (x, s\<lparr>m_kernel := k, m_shutdownProtocolOnWrite := True\<rparr>))
            else (- 1, s)))"

definition Socket_shutdownSocket :: "'k os_ops \<Rightarrow> 'k socket \<Rightarrow> shut_mode \<Rightarrow> int \<times> 'k socket" where
  "Socket_shutdownSocket os s mode =
     (if \<not> isActive s then (- 1, s)
      else (case iShutdown os s mode of (i, s') \<Rightarrow> if i \<noteq> 0 then (i, s') else (0, s')))"

definition Socket_ops :: "'k os_ops \<Rightarrow> 'k socket socket_ops" where
  "Socket_ops os = \<lparr>partialRead = Socket_partialRead os, partialWrite = Socket_partialWrite os,
     shutdownSocket = Socket_shutdownSocket os\<rparr>"

section \<open>The XOR layer\<close>

definition getXorCopy :: "char \<Rightarrow> bytes \<Rightarrow> bytes" where
  "getXorCopy m_xorByte data = map (\<lambda>c. xor_char c m_xorByte) data"

definition XOR_partialRead :: "'s socket_ops \<Rightarrow> char \<Rightarrow> 's \<Rightarrow> nat \<Rightarrow> bytes option \<times> 's" where
  "XOR_partialRead S x s datalen =
     (if datalen = 0 then (Some [], s)
      else (case partialRead S s datalen of
              (None, s') \<Rightarrow> (None, s')
            | (Some bs, s') \<Rightarrow> if bs = [] then (Some [], s') else (Some (getXorCopy x bs), s')))"

definition XOR_partialWrite :: "'s socket_ops \<Rightarrow> char \<Rightarrow> 's \<Rightarrow> bytes \<Rightarrow> nat option \<times> 's" where
  "XOR_partialWrite S x s data = (if data = [] then (Some 0, s) else partialWrite S s (getXorCopy x data))"

definition XOR_ops :: "'s socket_ops \<Rightarrow> char \<Rightarrow> 's socket_ops" where
  "XOR_ops S x = S\<lparr>partialRead := XOR_partialRead S x, partialWrite := XOR_partialWrite S x\<rparr>"

section \<open>Socket\_Stream\<close>

record 's stream =
  sock :: 's
  mChunkSize :: nat
  writeStatus :: write_status

definition u32 :: "nat \<Rightarrow> nat" where
  "u32 n = n mod 4294967296"

definition setChunkSize :: "'s stream \<Rightarrow> nat \<Rightarrow> 's stream" where
  "setChunkSize t chunkSize = (if chunkSize = 0 then t\<lparr>mChunkSize := 8192\<rparr> else t\<lparr>mChunkSize := chunkSize\<rparr>)"

definition stream_shutdown :: "'s socket_ops \<Rightarrow> 's stream \<Rightarrow> 's stream" where
  "stream_shutdown S t = t\<lparr>sock := snd (shutdownSocket S (sock t) SHUT_RDWR)\<rparr>"

definition write_error :: "'s stream \<Rightarrow> 's stream" where
  "write_error t = (case ws_add (writeStatus t) (- 1) of Inr w \<Rightarrow> t\<lparr>writeStatus := w\<rparr> | Inl _ \<Rightarrow> t)"

definition writeDeSync :: "'s socket_ops \<Rightarrow> 's stream \<Rightarrow> 's stream" where
  "writeDeSync S t = stream_shutdown S t"

definition readDeSync :: "'s socket_ops \<Rightarrow> 's stream \<Rightarrow> 's stream" where
  "readDeSync S t = stream_shutdown S t"

definition Stream_write :: "'s socket_ops \<Rightarrow> 's stream \<Rightarrow> bytes \<Rightarrow> nat option \<times> 's stream" where
  "Stream_write S t buf =
     (if buf = [] then (Some 0, stream_shutdown S t)
      else (case partialWrite S (sock t) buf of (r, s') \<Rightarrow>
              (case r of Some n \<Rightarrow> if n > 0 then Some n else None | None \<Rightarrow> None, t\<lparr>sock := s'\<rparr>)))"

function writeFull_loop :: "'s socket_ops \<Rightarrow> 's stream \<Rightarrow> bytes \<Rightarrow> bool \<times> 's stream" where
  "writeFull_loop S t data =
     (if data = [] then (True, t)
      else (let chunkSize = min (length data) (mChunkSize t) in
            case partialWrite S (sock t) (take (u32 chunkSize) data) of
              (r, s') \<Rightarrow>
                (case r of
                   None \<Rightarrow> (False, write_error (stream_shutdown S (t\<lparr>sock := s'\<rparr>)))
                 | Some sentBytes \<Rightarrow>
                     if sentBytes = 0 then (False, write_error (stream_shutdown S (t\<lparr>sock := s'\<rparr>)))
                     else writeFull_loop S (t\<lparr>sock := s'\<rparr>) (drop sentBytes data))))"
  by pat_completeness auto
termination
  by (relation "measure (\<lambda>(S, t, data). length data)") auto

definition writeFull :: "'s socket_ops \<Rightarrow> 's stream \<Rightarrow> bytes \<Rightarrow> bool \<times> 's stream" where
  "writeFull S t data =
     (if length data > 9223372036854775807 then (False, write_error t) else writeFull_loop S t data)"

text \<open>\<open>readFull\<close>: the result, the bytes it has put into the buffer, the count it reports, and the
  socket afterwards.\<close>

function readFull_loop :: "'s socket_ops \<Rightarrow> 's stream \<Rightarrow> nat \<Rightarrow> bytes \<Rightarrow> bool \<times> bytes \<times> 's stream" where
  "readFull_loop S t expected received =
     (if length received < expected then
        (let bytesToRead = min (mChunkSize t) (expected - length received) in
         case partialRead S (sock t) (u32 bytesToRead) of
           (r, s') \<Rightarrow>
             (case r of
                None \<Rightarrow> (False, received, t\<lparr>sock := s'\<rparr>)
              | Some bs \<Rightarrow>
                  if bs = [] then (True, received, t\<lparr>sock := s'\<rparr>)
                  else readFull_loop S (t\<lparr>sock := s'\<rparr>) expected (received @ bs)))
      else (True, received, t))"
  by pat_completeness auto
termination
  by (relation "measure (\<lambda>(S, t, expected, received). expected - length received)") (auto intro!: diff_less_mono2)

definition readFull :: "'s socket_ops \<Rightarrow> 's stream \<Rightarrow> nat \<Rightarrow> bool \<times> bytes \<times> nat \<times> 's stream" where
  "readFull S t expected =
     (if expected = 0 then (True, [], 0, t)
      else (case readFull_loop S t expected [] of
              (ok, bs, t') \<Rightarrow>
                if \<not> ok then (False, bs, 0, t')
                else if length bs < expected then (False, bs, length bs, t')
                else (True, bs, length bs, t')))"

partial_function (option) Stream_streamTo ::
  "'s socket_ops \<Rightarrow> 'o streamable \<Rightarrow> 's stream \<Rightarrow> 'o \<Rightarrow> (stream_exn + (bool \<times> 's stream \<times> 'o)) option" where
  "Stream_streamTo S D t out =
     (case partialRead S (sock t) 8192 of
        (None, s') \<Rightarrow> Some (Inr (False, t\<lparr>sock := s'\<rparr>, out))
      | (Some data, s') \<Rightarrow>
          (if data = [] then Some (Inr (True, t\<lparr>sock := s'\<rparr>, out))
           else (case writeFullStream D out data of
                   None \<Rightarrow> None
                 | Some (Inl e) \<Rightarrow> Some (Inl e)
                 | Some (Inr (ok, out')) \<Rightarrow>
                     (if \<not> ok then Some (Inr (False, t\<lparr>sock := s'\<rparr>, out'))
                      else if finished (so_status D out') then Some (Inr (True, t\<lparr>sock := s'\<rparr>, out'))
                      else Stream_streamTo S D (t\<lparr>sock := s'\<rparr>) out'))))"

section \<open>Integers on the wire\<close>

text \<open>The memory of a host word, and what a word read from memory is.\<close>

primrec mem_bytes :: "nat \<Rightarrow> 'a::len word \<Rightarrow> bytes" where
  "mem_bytes 0 w = []"
| "mem_bytes (Suc n) w = char_of (unat (take_bit 8 w)) # mem_bytes n (drop_bit 8 w)"

fun mem_word :: "bytes \<Rightarrow> 'a::len word" where
  "mem_word [] = 0"
| "mem_word (c # cs) = word_of_nat (byte_of c) OR push_bit 8 (mem_word cs)"

definition htons :: "16 word \<Rightarrow> 16 word" where
  "htons x = push_bit 8 (take_bit 8 x) OR take_bit 8 (drop_bit 8 x)"

definition htonll :: "64 word \<Rightarrow> 64 word" where
  "htonll x = push_bit 32 (ucast (htonl (ucast (x AND 0xFFFFFFFF)))) OR ucast (htonl (ucast (drop_bit 32 x)))"

definition writeU8 :: "'s socket_ops \<Rightarrow> 's stream \<Rightarrow> 8 word \<Rightarrow> bool \<times> 's stream" where
  "writeU8 S t c = writeFull S t (mem_bytes 1 c)"

definition writeU16 :: "'s socket_ops \<Rightarrow> 's stream \<Rightarrow> 16 word \<Rightarrow> bool \<times> 's stream" where
  "writeU16 S t c = writeFull S t (mem_bytes 2 (htons c))"

definition writeU32 :: "'s socket_ops \<Rightarrow> 's stream \<Rightarrow> 32 word \<Rightarrow> bool \<times> 's stream" where
  "writeU32 S t c = writeFull S t (mem_bytes 4 (htonl c))"

definition writeU64 :: "'s socket_ops \<Rightarrow> 's stream \<Rightarrow> 64 word \<Rightarrow> bool \<times> 's stream" where
  "writeU64 S t c = writeFull S t (mem_bytes 8 (htonll c))"

text \<open>A read of an integer fills a zeroed variable with what arrives.\<close>

definition fill :: "nat \<Rightarrow> bytes \<Rightarrow> bytes" where
  "fill n bs = bs @ replicate (n - length bs) (CHR 0x00)"

definition read_ok :: "nat \<Rightarrow> bool \<Rightarrow> nat \<Rightarrow> bool" where
  "read_ok n ok r \<longleftrightarrow> \<not> (\<not> ok \<or> r \<noteq> n)"

definition readU8 :: "'s socket_ops \<Rightarrow> 's stream \<Rightarrow> 8 word \<times> bool \<times> 's stream" where
  "readU8 S t = (case readFull S t 1 of (ok, bs, r, t') \<Rightarrow> (mem_word (fill 1 bs), read_ok 1 ok r, t'))"

definition readU16 :: "'s socket_ops \<Rightarrow> 's stream \<Rightarrow> 16 word \<times> bool \<times> 's stream" where
  "readU16 S t = (case readFull S t 2 of (ok, bs, r, t') \<Rightarrow> (htons (mem_word (fill 2 bs)), read_ok 2 ok r, t'))"

definition readU32 :: "'s socket_ops \<Rightarrow> 's stream \<Rightarrow> 32 word \<times> bool \<times> 's stream" where
  "readU32 S t = (case readFull S t 4 of (ok, bs, r, t') \<Rightarrow> (htonl (mem_word (fill 4 bs)), read_ok 4 ok r, t'))"

definition readU64 :: "'s socket_ops \<Rightarrow> 's stream \<Rightarrow> 64 word \<times> bool \<times> 's stream" where
  "readU64 S t = (case readFull S t 8 of (ok, bs, r, t') \<Rightarrow> (htonll (mem_word (fill 8 bs)), read_ok 8 ok r, t'))"

text \<open>The templates over an unsigned type \<open>T\<close> of one, two, four or eight bytes; a value
  of \<open>T\<close> is a number up to \<open>tmax T\<close>.\<close>

datatype utype = UINT8 | UINT16 | UINT32 | UINT64

fun tmax :: "utype \<Rightarrow> nat" where
  "tmax UINT8 = 255" | "tmax UINT16 = 65535" | "tmax UINT32 = 4294967295" | "tmax UINT64 = 18446744073709551615"

definition to_T :: "utype \<Rightarrow> nat \<Rightarrow> nat" where
  "to_T T n = n mod Suc (tmax T)"

fun write_raw :: "'s socket_ops \<Rightarrow> utype \<Rightarrow> 's stream \<Rightarrow> nat \<Rightarrow> bool \<times> 's stream" where
  "write_raw S UINT8 t c = writeU8 S t (word_of_nat c)"
| "write_raw S UINT16 t c = writeU16 S t (word_of_nat c)"
| "write_raw S UINT32 t c = writeU32 S t (word_of_nat c)"
| "write_raw S UINT64 t c = writeU64 S t (word_of_nat c)"

definition writeU :: "'s socket_ops \<Rightarrow> utype \<Rightarrow> 's stream \<Rightarrow> nat \<Rightarrow> bool \<times> 's stream" where
  "writeU S T t c = (case write_raw S T t c of (r, t') \<Rightarrow> if r then (True, t') else (False, writeDeSync S t'))"

fun read_raw :: "'s socket_ops \<Rightarrow> utype \<Rightarrow> 's stream \<Rightarrow> nat \<times> bool \<times> 's stream" where
  "read_raw S UINT8 t = (case readU8 S t of (v, ok, t') \<Rightarrow> (unat v, ok, t'))"
| "read_raw S UINT16 t = (case readU16 S t of (v, ok, t') \<Rightarrow> (unat v, ok, t'))"
| "read_raw S UINT32 t = (case readU32 S t of (v, ok, t') \<Rightarrow> (unat v, ok, t'))"
| "read_raw S UINT64 t = (case readU64 S t of (v, ok, t') \<Rightarrow> (unat v, ok, t'))"

definition readU :: "'s socket_ops \<Rightarrow> utype \<Rightarrow> 's stream \<Rightarrow> nat \<times> bool \<times> 's stream" where
  "readU S T t = (case read_raw S T t of (v, ok, t') \<Rightarrow> (v, ok, if ok then t' else readDeSync S t'))"

section \<open>Blocks and strings\<close>

definition writeBlockEx :: "'s socket_ops \<Rightarrow> utype \<Rightarrow> 's stream \<Rightarrow> bytes \<Rightarrow> nat \<Rightarrow> bool \<times> 's stream" where
  "writeBlockEx S T t data datalen =
     (case write_raw S T t datalen of
        (wr, t1) \<Rightarrow>
          if \<not> wr then (False, t1)
          else if datalen = 0 then (True, t1)
          else (case writeFull S t1 (take datalen data) of
                  (ok, t2) \<Rightarrow> if ok then (True, t2) else (False, writeDeSync S t2)))"

definition writeStringEx :: "'s socket_ops \<Rightarrow> utype \<Rightarrow> 's stream \<Rightarrow> bytes \<Rightarrow> nat \<Rightarrow> bool \<times> 's stream" where
  "writeStringEx S T t str maxSize =
     (if length str > maxSize then (False, writeDeSync S t) else writeBlockEx S T t str (to_T T (length str)))"

text \<open>\<open>readBlockEx\<close>: the result, the value left in \<open>*datalen\<close>, and the bytes put into the buffer.\<close>

definition readBlockEx ::
  "'s socket_ops \<Rightarrow> utype \<Rightarrow> 's stream \<Rightarrow> nat \<Rightarrow> bool \<Rightarrow> bool \<times> nat \<times> bytes \<times> 's stream" where
  "readBlockEx S T t datalen mustReceiveFullDataLen =
     (if datalen = 0 then (True, 0, [], t)
      else (case readU S T t of
              (len, readOK, t1) \<Rightarrow>
                if readOK then
                  (if len \<noteq> datalen \<and> mustReceiveFullDataLen \<or> len > datalen then (False, datalen, [], readDeSync S t1)
                   else if len = 0 then (True, 0, [], t1)
                   else (case readFull S t1 len of (ok, bs, r, t2) \<Rightarrow> (ok \<and> r = len, len, bs, t2)))
                else (False, datalen, [], t1)))"

text \<open>The size of the array that \<open>readBlockWAllocEx\<close> allocates: the sum \<open>expectedBytesCount + 1\<close> is
  computed in \<open>int\<close> for the types below 32 bits and in the type itself for the others. A block that
  does not fit is a write past the array.\<close>

datatype block_result = Block bytes | No_block | Overrun

definition alloc_size :: "utype \<Rightarrow> nat \<Rightarrow> nat" where
  "alloc_size T n = (case T of UINT32 \<Rightarrow> to_T T (n + 1) | UINT64 \<Rightarrow> to_T T (n + 1) | _ \<Rightarrow> n + 1)"

definition readBlockWAllocEx ::
  "'s socket_ops \<Rightarrow> utype \<Rightarrow> 's stream \<Rightarrow> nat \<Rightarrow> block_result \<times> nat \<times> 's stream" where
  "readBlockWAllocEx S T t datalen =
     (case readU S T t of
        (expectedBytesCount, readOK, t1) \<Rightarrow>
          if readOK then
            (if expectedBytesCount > datalen then (No_block, 0, readDeSync S t1)
             else if expectedBytesCount = 0 then (Block [], 0, t1)
             else if alloc_size T expectedBytesCount \<le> expectedBytesCount then (Overrun, datalen, t1)
             else (case readFull S t1 expectedBytesCount of
                     (ok, bs, r, t2) \<Rightarrow>
                       if \<not> (ok \<and> r = expectedBytesCount) then (No_block, 0, readDeSync S t2)
                       else (Block bs, expectedBytesCount, t2)))
          else (No_block, 0, t1))"

definition readStringEx ::
  "'s socket_ops \<Rightarrow> utype \<Rightarrow> 's stream \<Rightarrow> nat \<Rightarrow> (bytes \<times> bool) option \<times> 's stream" where
  "readStringEx S T t maxLength =
     (case readBlockWAllocEx S T t maxLength of
        (No_block, _, t') \<Rightarrow> (Some ([], False), t')
      | (Overrun, _, t') \<Rightarrow> (None, t')
      | (Block data, receivedBytes, t') \<Rightarrow>
          if receivedBytes = 0 then (Some ([], True), t') else (Some (take receivedBytes data, True), t'))"

section \<open>Reading up to a delimiter in blocks of 64 KB\<close>

text \<open>\<open>block\<close> holds everything read so far, the blocks before this one included, which is what the
  comparison may reach back to; the loop has \<open>left\<close> bytes of this block to go.\<close>

datatype delim_result = Found nat | Not_found | Read_failed

fun read64KBlockDelim_loop ::
  "'s socket_ops \<Rightarrow> bytes \<Rightarrow> nat \<Rightarrow> nat \<Rightarrow> nat \<Rightarrow> bytes \<Rightarrow> 's stream \<Rightarrow> delim_result \<times> bytes \<times> 's stream" where
  "read64KBlockDelim_loop S delim blockNo 0 pos block t = (Not_found, block, t)"
| "read64KBlockDelim_loop S delim blockNo (Suc left) pos block t =
     (case readU8 S t of
        (v, readOK, t') \<Rightarrow>
          (let block' = block @ [char_of (unat v)] in
           if \<not> readOK then (Read_failed, block', t')
           else if (blockNo = 0 \<and> pos \<ge> length delim \<or> blockNo > 0) \<and>
                   drop (length block' - length delim) block' = delim
           then (Found pos, block', t')
           else read64KBlockDelim_loop S delim blockNo left (pos + 1) block' t'))"

definition read64KBlockDelim ::
  "'s socket_ops \<Rightarrow> bytes \<Rightarrow> nat \<Rightarrow> bytes \<Rightarrow> 's stream \<Rightarrow> delim_result \<times> bytes \<times> 's stream" where
  "read64KBlockDelim S delim blockNo block t = read64KBlockDelim_loop S delim blockNo 65536 1 block t"

text \<open>The block grows by 64 KB while \<open>*datalen\<close> allows it. The 32-bit sum \<open>currentBlockSize + 65536\<close>
  may wrap: the array allocated next is then smaller than what is copied into it. The number of
  rounds is bounded by the 65535 blocks below four gigabytes.\<close>

function readBlock32_loop ::
  "'s socket_ops \<Rightarrow> bytes \<Rightarrow> nat \<Rightarrow> nat \<Rightarrow> nat \<Rightarrow> bytes \<Rightarrow> 's stream \<Rightarrow> block_result \<times> nat \<times> 's stream" where
  "readBlock32_loop S delim datalen currentBlockSize blockNo block t =
     (case read64KBlockDelim S delim blockNo block t of
        (Read_failed, block', t') \<Rightarrow> (No_block, datalen, t')
      | (Found bytesRecv, block', t') \<Rightarrow> (Block block', u32 (currentBlockSize - 65536 + bytesRecv), t')
      | (Not_found, block', t') \<Rightarrow>
          if u32 (currentBlockSize + 65536) > datalen then (No_block, datalen, t')
          else if u32 (currentBlockSize + 65536) < currentBlockSize then (Overrun, datalen, t')
          else readBlock32_loop S delim datalen (u32 (currentBlockSize + 65536)) (blockNo + 1) block' t')"
  by pat_completeness auto
termination
proof (relation "measure (\<lambda>(S, delim, datalen, n, blockNo, block, t). if n < 4294967296 then 4294967296 - n else 4294967296)")
  fix S :: "'a socket_ops" and delim datalen n blockNo block and t :: "'a stream" and x :: delim_result and y z b and u :: "'a stream"
  assume "\<not> u32 (n + 65536) < n"
  then show "((S, delim, datalen, u32 (n + 65536), blockNo + 1, b, u), S, delim, datalen, n, blockNo, block, t)
      \<in> measure (\<lambda>(S, delim, datalen, n, blockNo, block, t). if n < 4294967296 then 4294967296 - n else 4294967296)"
  proof -
    have lt: "u32 (n + 65536) < 4294967296" by (simp add: u32_def)
    then have n: "n < 4294967296" using \<open>\<not> u32 (n + 65536) < n\<close> by simp
    have "u32 (n + 65536) \<noteq> n"
    proof
      assume eq: "u32 (n + 65536) = n"
      show False
      proof (cases "n + 65536 < 4294967296")
        case True then show False using eq by (simp add: u32_def)
      next
        case False
        then have "(n + 65536) mod 4294967296 = n + 65536 - 4294967296" using n by (simp add: mod_if)
        then show False using eq False by (simp add: u32_def)
      qed
    qed
    then have "n < u32 (n + 65536)" using \<open>\<not> u32 (n + 65536) < n\<close> by simp
    then show ?thesis using lt n by simp
  qed
qed simp

definition readBlock32WAllocAndDelim ::
  "'s socket_ops \<Rightarrow> 's stream \<Rightarrow> nat \<Rightarrow> bytes \<Rightarrow> block_result \<times> nat \<times> 's stream" where
  "readBlock32WAllocAndDelim S t datalen delim =
     (if datalen \<le> 65535 then (No_block, datalen, t) else readBlock32_loop S delim datalen 65536 0 [] t)"

section \<open>BufferedReader\<close>

datatype read_result = READ_OK | READ_FULL | READ_NOTFOUND | READ_DISCONNECTED | READ_INVALID_ARG

record 's buffered =
  m_buffer :: bytes
  m_stream :: "'s stream"
  m_currentBufferSize :: nat

definition BufferedReader_new :: "'s stream \<Rightarrow> nat \<Rightarrow> 's buffered" where
  "BufferedReader_new t bufferSize = \<lparr>m_buffer = replicate bufferSize (CHR 0x00), m_stream = t, m_currentBufferSize = 0\<rparr>"

definition put :: "bytes \<Rightarrow> nat \<Rightarrow> bytes \<Rightarrow> bytes" where
  "put buf i bs = take i buf @ bs @ drop (i + length bs) buf"

definition refillBuffer :: "'s socket_ops \<Rightarrow> 's buffered \<Rightarrow> read_result \<times> 's buffered" where
  "refillBuffer S b =
     (if m_currentBufferSize b \<ge> length (m_buffer b) then (READ_FULL, b)
      else (let availableSpace = length (m_buffer b) - m_currentBufferSize b in
            case partialRead S (sock (m_stream b)) availableSpace of
              (r, s') \<Rightarrow>
                (let b1 = b\<lparr>m_stream := (m_stream b)\<lparr>sock := s'\<rparr>\<rparr> in
                 case r of
                   None \<Rightarrow> (READ_DISCONNECTED, b1)
                 | Some bs \<Rightarrow>
                     if bs = [] then (READ_DISCONNECTED, b1)
                     else (READ_OK, b1\<lparr>m_buffer := put (m_buffer b) (m_currentBufferSize b) bs,
                                       m_currentBufferSize := m_currentBufferSize b + length bs\<rparr>))))"

text \<open>\<open>memchr\<close> over the first \<open>m_currentBufferSize\<close> bytes.\<close>

definition needle :: "'s buffered \<Rightarrow> char \<Rightarrow> nat option" where
  "needle b delimiter = find_sub [delimiter] (take (m_currentBufferSize b) (m_buffer b))"

definition displace :: "'s buffered \<Rightarrow> nat \<Rightarrow> 's buffered" where
  "displace b dlen =
     (let n = m_currentBufferSize b - dlen;
          b1 = b\<lparr>m_currentBufferSize := n\<rparr> in
      if n > 0 then b1\<lparr>m_buffer := put (m_buffer b) 0 (take n (drop dlen (m_buffer b)))\<rparr> else b1)"

definition displaceAndCopy :: "'s buffered \<Rightarrow> nat \<Rightarrow> bytes \<times> 's buffered" where
  "displaceAndCopy b dlen =
     (let b0 = b\<lparr>m_buffer := (m_buffer b)[dlen - 1 := CHR 0x00]\<rparr> in (take dlen (m_buffer b0), displace b0 dlen))"

definition displaceAndCopy_string :: "'s buffered \<Rightarrow> nat \<Rightarrow> bytes \<times> 's buffered" where
  "displaceAndCopy_string b dlen = (take (dlen - 1) (m_buffer b), displace b dlen)"

lemma refill_progress:
  "refillBuffer S b = (READ_OK, b') \<Longrightarrow>
     length (m_buffer b') - m_currentBufferSize b' < length (m_buffer b) - m_currentBufferSize b"
  by (auto simp: refillBuffer_def put_def Let_def split: if_splits prod.splits option.splits intro!: diff_less_mono2)

text \<open>Both \<open>bufferedReadUntil\<close> have this loop and differ in how they copy the element out.\<close>

function readUntil_loop ::
  "'s socket_ops \<Rightarrow> ('s buffered \<Rightarrow> nat \<Rightarrow> bytes \<times> 's buffered) \<Rightarrow> char \<Rightarrow> 's buffered \<Rightarrow> read_result \<times> bytes \<times> 's buffered" where
  "readUntil_loop S copy delimiter b =
     (case needle b delimiter of
        Some i \<Rightarrow> (case copy b (i + 1) of (data, b') \<Rightarrow> (READ_OK, data, b'))
      | None \<Rightarrow>
          (case refillBuffer S b of
             (result, b') \<Rightarrow> if result \<noteq> READ_OK then (result, [], b') else readUntil_loop S copy delimiter b'))"
  by pat_completeness auto
termination
  by (relation "measure (\<lambda>(S, copy, delimiter, b). length (m_buffer b) - m_currentBufferSize b)")
    (auto dest: refill_progress [OF sym])

definition bufferedReadUntil :: "'s socket_ops \<Rightarrow> char \<Rightarrow> 's buffered \<Rightarrow> read_result \<times> bytes \<times> 's buffered" where
  "bufferedReadUntil S delimiter b = readUntil_loop S displaceAndCopy delimiter b"

definition bufferedReadUntil_string :: "'s socket_ops \<Rightarrow> char \<Rightarrow> 's buffered \<Rightarrow> read_result \<times> bytes \<times> 's buffered" where
  "bufferedReadUntil_string S delimiter b = readUntil_loop S displaceAndCopy_string delimiter b"

definition readLineCR :: "'s socket_ops \<Rightarrow> 's buffered \<Rightarrow> read_result \<times> bytes \<times> 's buffered" where
  "readLineCR S b = bufferedReadUntil_string S CR b"

definition readLineLF :: "'s socket_ops \<Rightarrow> 's buffered \<Rightarrow> read_result \<times> bytes \<times> 's buffered" where
  "readLineLF S b = bufferedReadUntil_string S LF b"

section \<open>CryptoChallenge\<close>

text \<open>One side of the handshake. \<open>H\<close> is \<open>calcSHA256\<close>, \<open>local\<close> the random string it draws; \<open>None\<close> is a
  write past an array, which the one-byte lengths exclude.\<close>

definition mutualChallengeResponseSHA256Auth ::
  "'s socket_ops \<Rightarrow> (bytes \<Rightarrow> bytes) \<Rightarrow> bytes \<Rightarrow> bytes \<Rightarrow> bool \<Rightarrow> 's stream \<Rightarrow> (bool \<times> bool) option \<times> 's stream" where
  "mutualChallengeResponseSHA256Auth S H sharedKey local server t =
     (let bad = Some (False, False) in
      case writeStringEx S UINT8 t local 254 of (ok1, t1) \<Rightarrow>
      if \<not> ok1 then (bad, t1) else
      case readStringEx S UINT8 t1 254 of
        (None, t2) \<Rightarrow> (None, t2)
      | (Some (remote, ok2), t2) \<Rightarrow>
      if \<not> ok2 \<or> length remote \<noteq> 64 then (bad, t2) else
      case (if \<not> server then writeStringEx S UINT8 t2 (H (sharedKey @ remote @ local)) 254 else (True, t2)) of (ok3, t3) \<Rightarrow>
      if \<not> ok3 then (bad, t3) else
      case readStringEx S UINT8 t3 254 of
        (None, t4) \<Rightarrow> (None, t4)
      | (Some (challenge, ok4), t4) \<Rightarrow>
      if \<not> ok4 then (bad, t4) else
      (let remoteOK = (challenge = H (sharedKey @ local @ remote)) in
      case (if server then writeStringEx S UINT8 t4 (H ((if remoteOK then sharedKey else []) @ remote @ local)) 254 else (True, t4)) of (ok5, t5) \<Rightarrow>
      if \<not> ok5 then (bad, t5) else
      case writeU S UINT8 t5 (if remoteOK then 1 else 0) of (_, t6) \<Rightarrow>
      case readU S UINT8 t6 of (v, _, t7) \<Rightarrow> (Some (remoteOK, v = 1), t7)))"

declare readUntil_loop.simps [simp del] readBlock32_loop.simps [simp del]
declare writeFull_loop.simps [simp del] readFull_loop.simps [simp del]

section \<open>Words in memory\<close>

lemma mem_word_bytes: "mem_word (mem_bytes n w) = take_bit (8 * n) (w :: 'a::len word)"
proof (induction n arbitrary: w)
  case (Suc n)
  have b: "word_of_nat (byte_of (char_of (unat (take_bit 8 w)))) = take_bit 8 w"
  proof -
    have "unat (take_bit 8 w) < 256"
      by (simp add: unsigned_take_bit_eq take_bit_nat_def)
    then show ?thesis by simp
  qed
  have "take_bit 8 w OR push_bit 8 (take_bit (8 * n) (drop_bit 8 w)) = take_bit (8 * Suc n) w"
    by (rule bit_word_eqI) (auto simp: bit_or_iff bit_take_bit_iff bit_push_bit_iff bit_drop_bit_eq not_less)
  then show ?case using Suc b by simp
qed simp

lemma length_mem_bytes [simp]: "length (mem_bytes n w) = n"
  by (induction n arbitrary: w) auto

lemma mem_bytes_nth: "i < n \<Longrightarrow> mem_bytes n w ! i = char_of (unat (take_bit 8 (drop_bit (8 * i) w)))"
proof (induction n arbitrary: i w)
  case (Suc n)
  then show ?case by (cases i) (simp_all add: drop_bit_drop_bit add.commute)
qed simp

lemma octets_64:
  fixes n :: nat
  assumes "n < 64"
  obtains a b where "a < 8" "b < 8" "n = 8 * a + b"
  using assms that [of "n div 8" "n mod 8"] by fastforce

lemma bit_htons_octet: "a < 2 \<Longrightarrow> b < 8 \<Longrightarrow> bit (htons w) (8 * a + b) \<longleftrightarrow> bit w (8 * (1 - a) + b)"
proof -
  assume ab: "a < 2" "b < 8"
  then have "a = 0 \<or> a = 1" by auto
  then show ?thesis using ab by (elim disjE) (simp_all add: htons_def bit_simps)
qed

lemma bit_htonll_octet: "a < 8 \<Longrightarrow> b < 8 \<Longrightarrow> bit (htonll w) (8 * a + b) \<longleftrightarrow> bit w (8 * (7 - a) + b)"
proof -
  assume ab: "a < 8" "b < 8"
  have mask: "ucast (w AND 0xFFFFFFFF) = (ucast w :: 32 word)"
  proof (rule bit_word_eqI)
    fix n assume "n < LENGTH(32)"
    then have "bit (0xFFFFFFFF :: 64 word) n" using bit_mask_iff [of 32 n, where ?'a = "64 word"] by (simp add: mask_eq_exp_minus_1)
    then show "bit (ucast (w AND 0xFFFFFFFF) :: 32 word) n = bit (ucast w :: 32 word) n"
      by (simp add: bit_ucast_iff bit_and_iff)
  qed
  show ?thesis
  proof (cases "a < 4")
    case True
    then have "8 * a + b < 32" using ab by simp
    then have "bit (htonll w) (8 * a + b) \<longleftrightarrow> bit (htonl (ucast (drop_bit 32 w))) (8 * a + b)"
      by (simp add: htonll_def bit_or_iff bit_push_bit_iff bit_ucast_iff)
    also have "\<dots> \<longleftrightarrow> bit (ucast (drop_bit 32 w) :: 32 word) (8 * (3 - a) + b)"
      using True ab by (simp add: bit_htonl_octet)
    also have "\<dots> \<longleftrightarrow> bit w (32 + (8 * (3 - a) + b))"
    proof -
      have "8 * (3 - a) + b < 32" using True ab by simp
      then show ?thesis by (simp add: bit_ucast_iff bit_drop_bit_eq)
    qed
    also have "32 + (8 * (3 - a) + b) = 8 * (7 - a) + b" using True by simp
    finally show ?thesis .
  next
    case False
    define a' where "a' = a - 4"
    have a': "a = 4 + a'" "a' < 4" using False ab by (auto simp: a'_def)
    have "\<not> bit (htonl (ucast (drop_bit 32 w))) (32 + 8 * a' + b)" by (auto dest: bit_imp_le_length)
    moreover have "8 * a + b = 32 + (8 * a' + b)" "8 * a' + b < 32" using a' ab by auto
    ultimately have "bit (htonll w) (8 * a + b) \<longleftrightarrow> bit (htonl (ucast w)) (8 * a' + b)"
      by (simp add: htonll_def mask bit_or_iff bit_push_bit_iff bit_ucast_iff)
    also have "\<dots> \<longleftrightarrow> bit w (8 * (7 - a) + b)"
    proof -
      have "8 * (3 - a') + b < 32" using a' ab by simp
      then show ?thesis using a' ab by (simp add: bit_htonl_octet bit_ucast_iff)
    qed
    finally show ?thesis .
  qed
qed

lemma htons_htons [simp]: "htons (htons w) = w"
proof (rule bit_word_eqI)
  fix n assume "n < LENGTH(16)"
  then have "n div 8 < 2" "n mod 8 < 8" "n = 8 * (n div 8) + n mod 8" by auto
  then obtain a b where ab: "a < 2" "b < 8" "n = 8 * a + b" by blast
  then have "1 - a < 2" "1 - (1 - a) = a" by auto
  then show "bit (htons (htons w)) n = bit w n" using ab by (simp add: bit_htons_octet)
qed

lemma htonll_htonll [simp]: "htonll (htonll w) = w"
proof (rule bit_word_eqI)
  fix n assume "n < LENGTH(64)"
  then have "n < 64" by simp
  then show "bit (htonll (htonll w)) n = bit w n"
  proof (rule octets_64)
    fix a b assume ab: "a < 8" "b < 8" "n = 8 * a + b"
    then have "7 - a < 8" "7 - (7 - a) = a" by auto
    then show ?thesis using ab by (simp add: bit_htonll_octet)
  qed
qed

text \<open>Network byte order: the bytes of a number, the most significant first.\<close>

definition be_bytes :: "nat \<Rightarrow> nat \<Rightarrow> bytes" where
  "be_bytes k n = map (\<lambda>i. char_of (n div 256 ^ (k - 1 - i) mod 256)) [0..<k]"

lemma octet_of_nat:
  assumes "8 * i + 8 \<le> LENGTH('a)"
  shows "unat (take_bit 8 (drop_bit (8 * i) (word_of_nat n :: 'a::len word))) = n div 256 ^ i mod 256"
proof -
  have "take_bit 8 (drop_bit (8 * i) (word_of_nat n :: 'a word)) = word_of_nat (take_bit 8 (drop_bit (8 * i) n))"
    using assms by (auto intro!: bit_word_eqI simp: bit_take_bit_iff bit_drop_bit_eq bit_of_nat_iff possible_bit_word)
  moreover have "take_bit 8 (drop_bit (8 * i) n) = n div 256 ^ i mod 256"
    by (simp add: take_bit_eq_mod drop_bit_eq_div power_mult)
  moreover have "n div 256 ^ i mod 256 < 2 ^ LENGTH('a)"
  proof -
    have "n div 256 ^ i mod 256 < 2 ^ 8" by simp
    also have "(2 :: nat) ^ 8 \<le> 2 ^ LENGTH('a)" using assms by (intro power_increasing) auto
    finally show ?thesis .
  qed
  ultimately show ?thesis by (simp add: unat_of_nat)
qed

lemma network_order:
  fixes f :: "'a::len word \<Rightarrow> 'a word"
  assumes "\<And>a b w. a < k \<Longrightarrow> b < 8 \<Longrightarrow> bit (f w) (8 * a + b) \<longleftrightarrow> bit w (8 * (k - 1 - a) + b)" "8 * k = LENGTH('a)"
  shows "mem_bytes k (f (word_of_nat n)) = be_bytes k n"
proof (rule nth_equalityI)
  fix i assume "i < length (mem_bytes k (f (word_of_nat n)))"
  then have i: "i < k" by simp
  have "take_bit 8 (drop_bit (8 * i) (f (word_of_nat n))) = take_bit 8 (drop_bit (8 * (k - 1 - i)) (word_of_nat n :: 'a word))"
    using i by (intro bit_word_eqI) (auto simp: bit_take_bit_iff bit_drop_bit_eq assms(1))
  moreover have "8 * (k - 1 - i) + 8 \<le> LENGTH('a)" using i assms(2) by linarith
  ultimately show "mem_bytes k (f (word_of_nat n)) ! i = be_bytes k n ! i"
    using i octet_of_nat [of "k - 1 - i", where ?'a = 'a] by (simp add: mem_bytes_nth be_bytes_def)
qed (simp add: be_bytes_def)

text \<open>The integer on the wire, and that it is in network byte order.\<close>

fun header :: "utype \<Rightarrow> nat \<Rightarrow> bytes" where
  "header UINT8 n = mem_bytes 1 (word_of_nat n :: 8 word)"
| "header UINT16 n = mem_bytes 2 (htons (word_of_nat n))"
| "header UINT32 n = mem_bytes 4 (htonl (word_of_nat n))"
| "header UINT64 n = mem_bytes 8 (htonll (word_of_nat n))"

fun tsize :: "utype \<Rightarrow> nat" where
  "tsize UINT8 = 1" | "tsize UINT16 = 2" | "tsize UINT32 = 4" | "tsize UINT64 = 8"

lemma length_header [simp]: "length (header T n) = tsize T"
  by (cases T) simp_all

lemma header_network_order: "header T n = be_bytes (tsize T) n"
proof (cases T)
  case UINT8
  then show ?thesis using network_order [of 1 "\<lambda>w :: 8 word. w" n] by simp
next
  case UINT16
  then show ?thesis using network_order [of 2 htons n] bit_htons_octet by simp
next
  case UINT32
  then show ?thesis using network_order [of 4 htonl n] bit_htonl_octet by simp
next
  case UINT64
  then show ?thesis using network_order [of 8 htonll n] bit_htonll_octet by simp
qed

end
