(* ===== verification/Socket_Framing.thy ===== *)
theory Socket_Framing
  imports Socket_Streams
begin

text \<open>
  What the stream sockets do. The contract of a connected socket is the locale \<open>stream_socket\<close>; the
  sockets of the library give it over the system calls (\<open>posix_stream\<close>) and the XOR layer over any
  socket that has it (\<open>xor_layer\<close>). From it follow the framing of integers and strings, the reads up
  to a delimiter and the buffered reader, whatever the pieces in which the bytes arrive, and the
  agreement of the two ends of the challenge.
\<close>

section \<open>The contract of a connected stream socket\<close>

text \<open>What the framing relies on while a connection is up: a read of at least one byte returns the
  next bytes of the peer, at most as many as asked for, and none only at the end of the stream; a
  write of at least one byte takes a non-empty prefix. How the stream is cut is up to the socket.\<close>

locale stream_socket =
  fixes S :: "'s socket_ops"
    and up :: "'s \<Rightarrow> bool"
    and incoming :: "'s \<Rightarrow> bytes"
    and outgoing :: "'s \<Rightarrow> bytes"
  assumes read_next: "up s \<Longrightarrow> 0 < n \<Longrightarrow>
      \<exists>bs s'. partialRead S s n = (Some bs, s') \<and> length bs \<le> n \<and> (bs = [] \<longrightarrow> incoming s = []) \<and>
        up s' \<and> incoming s = bs @ incoming s' \<and> outgoing s' = outgoing s"
    and write_some: "up s \<Longrightarrow> data \<noteq> [] \<Longrightarrow>
      \<exists>k s'. partialWrite S s data = (Some k, s') \<and> 0 < k \<and> k \<le> length data \<and>
        up s' \<and> outgoing s' = outgoing s @ take k data \<and> incoming s' = incoming s"
begin

definition sound :: "'s stream \<Rightarrow> bool" where
  "sound t \<longleftrightarrow> up (sock t) \<and> 0 < mChunkSize t \<and> mChunkSize t < 4294967296"

definition wrote :: "'s stream \<Rightarrow> bytes \<Rightarrow> 's stream \<Rightarrow> bool" where
  "wrote t bs t' \<longleftrightarrow> sound t' \<and> outgoing (sock t') = outgoing (sock t) @ bs \<and>
     incoming (sock t') = incoming (sock t) \<and> writeStatus t' = writeStatus t"

definition got :: "'s stream \<Rightarrow> bytes \<Rightarrow> 's stream \<Rightarrow> bool" where
  "got t bs t' \<longleftrightarrow> sound t' \<and> incoming (sock t) = bs @ incoming (sock t') \<and>
     outgoing (sock t') = outgoing (sock t) \<and> writeStatus t' = writeStatus t"

lemma wrote_trans: "wrote t a t1 \<Longrightarrow> wrote t1 b t2 \<Longrightarrow> wrote t (a @ b) t2"
  by (simp add: wrote_def)

lemma got_trans: "got t a t1 \<Longrightarrow> got t1 b t2 \<Longrightarrow> got t (a @ b) t2"
  by (simp add: got_def)

lemma wrote_sound: "wrote t a t' \<Longrightarrow> sound t'" by (simp add: wrote_def)

lemma got_sound: "got t a t' \<Longrightarrow> sound t'" by (simp add: got_def)

lemma writeFull_loop_ok: "sound t \<Longrightarrow> \<exists>t'. writeFull_loop S t data = (True, t') \<and> wrote t data t'"
proof (induction "length data" arbitrary: data t rule: less_induct)
  case less
  show ?case
  proof (cases "data = []")
    case True
    then show ?thesis using less.prems by (auto simp: writeFull_loop.simps wrote_def)
  next
    case False
    define n where "n = u32 (min (length data) (mChunkSize t))"
    have n: "0 < n" "take n data \<noteq> []" using False less.prems by (auto simp: n_def sound_def u32_def)
    obtain k s' where k: "partialWrite S (sock t) (take n data) = (Some k, s')" "0 < k" "k \<le> length (take n data)"
      and s': "up s'" "outgoing s' = outgoing (sock t) @ take k (take n data)" "incoming s' = incoming (sock t)"
      using write_some [of "sock t", OF _ n(2)] less.prems by (auto simp: sound_def)
    have "sound (t\<lparr>sock := s'\<rparr>)" using less.prems s' by (simp add: sound_def)
    then obtain t' where t': "writeFull_loop S (t\<lparr>sock := s'\<rparr>) (drop k data) = (True, t')" "wrote (t\<lparr>sock := s'\<rparr>) (drop k data) t'"
      using less.hyps [of "drop k data" "t\<lparr>sock := s'\<rparr>"] k(2) False by auto
    have "writeFull_loop S t data = (True, t')"
      using False k t' by (subst writeFull_loop.simps) (simp add: Let_def n_def)
    moreover have "take k (take n data) = take k data" using k(3) by (simp add: min.absorb1)
    ultimately show ?thesis using t'(2) s' by (auto simp: wrote_def)
  qed
qed

lemma writeFull_ok:
  "sound t \<Longrightarrow> length data \<le> 9223372036854775807 \<Longrightarrow> \<exists>t'. writeFull S t data = (True, t') \<and> wrote t data t'"
  using writeFull_loop_ok by (simp add: writeFull_def)

lemma readFull_loop_ok:
  assumes "sound t" "length received \<le> n"
  shows "\<exists>bs t'. readFull_loop S t n received = (True, received @ bs, t') \<and> got t bs t' \<and>
     bs = take (n - length received) (incoming (sock t))"
  using assms
proof (induction "n - length received" arbitrary: received t rule: less_induct)
  case less
  show ?case
  proof (cases "length received < n")
    case False
    then show ?thesis using less.prems by (auto simp: readFull_loop.simps got_def)
  next
    case True
    define m where "m = u32 (min (mChunkSize t) (n - length received))"
    have m: "0 < m" "m \<le> n - length received"
      using True less.prems by (auto simp: m_def sound_def u32_def intro: le_trans [OF mod_less_eq_dividend])
    obtain bs s' where r: "partialRead S (sock t) m = (Some bs, s')" "length bs \<le> m" "bs = [] \<longrightarrow> incoming (sock t) = []"
      and s': "up s'" "incoming (sock t) = bs @ incoming s'" "outgoing s' = outgoing (sock t)"
      using read_next [OF _ m(1), of "sock t"] less.prems by (auto simp: sound_def)
    have so: "sound (t\<lparr>sock := s'\<rparr>)" using less.prems s' by (simp add: sound_def)
    show ?thesis
    proof (cases "bs = []")
      case True
      then show ?thesis using r s' so \<open>length received < n\<close>
        by (subst readFull_loop.simps) (auto simp: Let_def m_def got_def)
    next
      case False
      then have "n - length (received @ bs) < n - length received" "length (received @ bs) \<le> n" using True m r(2) by (auto intro!: diff_less_mono2)
      then obtain bs2 t' where t': "readFull_loop S (t\<lparr>sock := s'\<rparr>) n (received @ bs) = (True, (received @ bs) @ bs2, t')"
        "got (t\<lparr>sock := s'\<rparr>) bs2 t'" "bs2 = take (n - length (received @ bs)) (incoming s')"
        using less.hyps [OF _ so] by fastforce
      have "readFull_loop S t n received = (True, received @ bs @ bs2, t')"
        using True False r t' by (subst readFull_loop.simps) (simp add: Let_def m_def)
      moreover have "got t (bs @ bs2) t'" using t'(2) s' by (simp add: got_def)
      moreover have "bs @ bs2 = take (n - length received) (incoming (sock t))"
        using t'(3) s'(2) r(2) m(2) by simp
      ultimately show ?thesis by blast
    qed
  qed
qed

lemma readFull_ok:
  assumes "sound t" "n \<le> length (incoming (sock t))"
  shows "\<exists>t'. readFull S t n = (True, take n (incoming (sock t)), n, t') \<and> got t (take n (incoming (sock t))) t'"
  using readFull_loop_ok [of t "[]" n] assms by (cases "n = 0") (auto simp: readFull_def got_def)

lemma readFull_short:
  assumes "sound t" "length (incoming (sock t)) < n"
  shows "\<exists>t'. readFull S t n = (False, incoming (sock t), length (incoming (sock t)), t') \<and> got t (incoming (sock t)) t'"
  using readFull_loop_ok [of t "[]" n] assms by (auto simp: readFull_def)

lemma write_raw_ok: "sound t \<Longrightarrow> \<exists>t'. write_raw S T t n = (True, t') \<and> wrote t (header T n) t'"
  using writeFull_ok by (cases T) (simp_all add: writeU8_def writeU16_def writeU32_def writeU64_def)

lemma readFull_header:
  assumes "sound t" "incoming (sock t) = header T n @ rest"
  shows "\<exists>t'. readFull S t (tsize T) = (True, header T n, tsize T, t') \<and> got t (header T n) t'"
  using readFull_ok [OF assms(1), of "tsize T"] assms(2) by simp

lemma read_raw_ok:
  assumes "sound t" "incoming (sock t) = header T n @ rest" "n \<le> tmax T"
  shows "\<exists>t'. read_raw S T t = (n, True, t') \<and> got t (header T n) t'"
proof -
  obtain t' where t': "readFull S t (tsize T) = (True, header T n, tsize T, t')" "got t (header T n) t'"
    using readFull_header [OF assms(1,2)] by blast
  show ?thesis using t' assms(3)
    by (cases T) (auto simp: readU8_def readU16_def readU32_def readU64_def read_ok_def fill_def mem_word_bytes take_bit_word_eq_self unat_of_nat)
qed

lemma readU_ok:
  assumes "sound t" "incoming (sock t) = header T n @ rest" "n \<le> tmax T"
  shows "\<exists>t'. readU S T t = (n, True, t') \<and> got t (header T n) t'"
  using read_raw_ok [OF assms] by (auto simp: readU_def)

end

definition frame :: "utype \<Rightarrow> bytes \<Rightarrow> bytes" where
  "frame T s = header T (length s) @ s"

context stream_socket
begin

lemma writeStringEx_ok:
  assumes "sound t" "length s \<le> maxSize" "length s \<le> tmax T" "length s \<le> 9223372036854775807"
  shows "\<exists>t'. writeStringEx S T t s maxSize = (True, t') \<and> wrote t (frame T s) t'"
proof -
  have len: "to_T T (length s) = length s" using assms(3) by (simp add: to_T_def)
  obtain t1 where t1: "write_raw S T t (length s) = (True, t1)" "wrote t (header T (length s)) t1"
    using write_raw_ok [OF assms(1)] by blast
  obtain t2 where t2: "writeFull S t1 s = (True, t2)" "wrote t1 s t2"
    using writeFull_ok [OF wrote_sound [OF t1(2)] assms(4)] by blast
  show ?thesis using t1 t2 assms(2) wrote_trans [OF t1(2) t2(2)]
    by (auto simp: writeStringEx_def writeBlockEx_def len frame_def)
qed

lemma readBlock_ok:
  assumes "sound t" "incoming (sock t) = frame T s @ rest" "length s \<le> datalen" "length s < tmax T"
  shows "\<exists>t'. readBlockWAllocEx S T t datalen = (Block s, length s, t') \<and> got t (frame T s) t'"
proof -
  obtain t1 where t1: "readU S T t = (length s, True, t1)" "got t (header T (length s)) t1"
    using readU_ok [OF assms(1), of T "length s" "s @ rest"] assms(2,4) by (auto simp: frame_def)
  then have inc: "incoming (sock t1) = s @ rest" using assms(2) by (simp add: got_def frame_def)
  obtain t2 where t2: "readFull S t1 (length s) = (True, s, length s, t2)" "got t1 s t2"
    using readFull_ok [OF got_sound [OF t1(2)], of "length s"] inc by auto
  have "length s < alloc_size T (length s)"
    using assms(4) by (cases T) (auto simp: alloc_size_def to_T_def)
  then show ?thesis using t1 t2 assms(3) got_trans [OF t1(2) t2(2)]
    by (cases "s = []") (auto simp: readBlockWAllocEx_def frame_def)
qed

lemma readStringEx_ok:
  assumes "sound t" "incoming (sock t) = frame T s @ rest" "length s \<le> maxLength" "length s < tmax T"
  shows "\<exists>t'. readStringEx S T t maxLength = (Some (s, True), t') \<and> got t (frame T s) t'"
  using readBlock_ok [OF assms] by (auto simp: readStringEx_def)

text \<open>Sequences of strings.\<close>

lemma writeStrings_ok:
  assumes "sound t" "\<forall>s \<in> set xs. length s < tmax T \<and> length s \<le> 9223372036854775807"
  shows "\<exists>t'. fold (\<lambda>s t. snd (writeStringEx S T t s (tmax T - 1))) xs t = t' \<and> wrote t (concat (map (frame T) xs)) t'"
  using assms
proof (induction xs arbitrary: t)
  case Nil
  then show ?case by (simp add: wrote_def)
next
  case (Cons s xs)
  then obtain t1 where "writeStringEx S T t s (tmax T - 1) = (True, t1)" "wrote t (frame T s) t1"
    using writeStringEx_ok [of t s "tmax T - 1" T] by fastforce
  then show ?case using Cons.IH [of t1] Cons.prems(2) wrote_sound wrote_trans by fastforce
qed

end

fun readStrings :: "'s socket_ops \<Rightarrow> utype \<Rightarrow> nat \<Rightarrow> 's stream \<Rightarrow> (bytes \<times> bool) option list \<times> 's stream" where
  "readStrings S T 0 t = ([], t)"
| "readStrings S T (Suc n) t = (case readStringEx S T t (tmax T - 1) of (r, t1) \<Rightarrow>
     case readStrings S T n t1 of (rs, t2) \<Rightarrow> (r # rs, t2))"

definition writeStrings :: "'s socket_ops \<Rightarrow> utype \<Rightarrow> bytes list \<Rightarrow> 's stream \<Rightarrow> 's stream" where
  "writeStrings S T xs t = fold (\<lambda>s t. snd (writeStringEx S T t s (tmax T - 1))) xs t"

context stream_socket
begin

lemma readStrings_ok:
  assumes "sound t" "incoming (sock t) = concat (map (frame T) xs) @ rest" "\<forall>s \<in> set xs. length s < tmax T"
  shows "\<exists>t'. readStrings S T (length xs) t = (map (\<lambda>s. Some (s, True)) xs, t') \<and> got t (concat (map (frame T) xs)) t'"
  using assms
proof (induction xs arbitrary: t)
  case Nil
  then show ?case by (simp add: got_def)
next
  case (Cons s xs)
  obtain t1 where t1: "readStringEx S T t (tmax T - 1) = (Some (s, True), t1)" "got t (frame T s) t1"
    using readStringEx_ok [of t T s _ "tmax T - 1"] Cons.prems by fastforce
  have "incoming (sock t1) = concat (map (frame T) xs) @ rest" using t1(2) Cons.prems(2) by (simp add: got_def)
  then obtain t2 where "readStrings S T (length xs) t1 = (map (\<lambda>s. Some (s, True)) xs, t2)" "got t1 (concat (map (frame T) xs)) t2"
    using Cons.IH [OF got_sound [OF t1(2)]] Cons.prems(3) by auto
  then show ?case using t1 got_trans by fastforce
qed

lemma readU_short:
  assumes "sound t" "length (incoming (sock t)) < tsize T"
  shows "\<exists>v t'. readU S T t = (v, False, readDeSync S t') \<and> got t (incoming (sock t)) t'"
  using readFull_short [OF assms]
  by (cases T) (auto simp: readU_def readU8_def readU16_def readU32_def readU64_def read_ok_def)

lemma readStringEx_cut:
  assumes "sound t" "incoming (sock t) = take k (frame T s)" "k < length (frame T s)" "length s < tmax T"
  shows "\<exists>t'. readStringEx S T t (tmax T - 1) = (Some ([], False), readDeSync S t') \<and> got t (incoming (sock t)) t'"
proof (cases "k < tsize T")
  case True
  then have "length (incoming (sock t)) < tsize T" using assms(2) by simp
  then obtain v t' where "readU S T t = (v, False, readDeSync S t')" "got t (incoming (sock t)) t'"
    using readU_short [OF assms(1)] by blast
  then show ?thesis by (auto simp: readStringEx_def readBlockWAllocEx_def)
next
  case False
  then have inc: "incoming (sock t) = header T (length s) @ take (k - tsize T) s"
    using assms(2) by (simp add: frame_def)
  obtain t1 where t1: "readU S T t = (length s, True, t1)" "got t (header T (length s)) t1"
    using readU_ok [OF assms(1) inc] assms(4) by auto
  then have inc1: "incoming (sock t1) = take (k - tsize T) s" using inc by (simp add: got_def)
  have short: "length (take (k - tsize T) s) < length s" using assms(3) False by (simp add: frame_def)
  obtain t2 where t2: "readFull S t1 (length s) = (False, take (k - tsize T) s, length (take (k - tsize T) s), t2)"
      "got t1 (take (k - tsize T) s) t2"
    using readFull_short [OF got_sound [OF t1(2)], of "length s"] inc1 short by metis
  have "length s < alloc_size T (length s)" using assms(4) by (cases T) (auto simp: alloc_size_def to_T_def)
  then show ?thesis using t1 t2 short assms(4) got_trans [OF t1(2) t2(2)] inc
    by (auto simp: readStringEx_def readBlockWAllocEx_def)
qed

end

text \<open>The first position of the incoming bytes at which what has been read ends with the delimiter.\<close>

definition ends_with :: "bytes \<Rightarrow> bytes \<Rightarrow> bool" where
  "ends_with d xs \<longleftrightarrow> drop (length xs - length d) xs = d"

lemma ends_with_length: "ends_with d xs \<Longrightarrow> length d \<le> length xs"
  unfolding ends_with_def by (metis diff_le_self length_drop)

primrec first_end :: "bytes \<Rightarrow> bytes \<Rightarrow> bytes \<Rightarrow> nat option" where
  "first_end d block [] = None"
| "first_end d block (c # cs) =
     (if ends_with d (block @ [c]) then Some 1 else map_option Suc (first_end d (block @ [c]) cs))"

lemma first_end_range: "first_end d block inc = Some m \<Longrightarrow> 0 < m \<and> m \<le> length inc"
  by (induction inc arbitrary: block m) (auto split: if_splits)

lemma first_end_drop:
  "first_end d block inc = Some m \<Longrightarrow> n < m \<Longrightarrow> first_end d (block @ take n inc) (drop n inc) = Some (m - n)"
proof (induction inc arbitrary: block m n)
  case (Cons c cs)
  show ?case
  proof (cases n)
    case (Suc k)
    then have ns: "\<not> ends_with d (block @ [c])" using Cons.prems by (auto split: if_splits)
    then obtain m' where "first_end d (block @ [c]) cs = Some m'" "m = Suc m'" using Cons.prems by auto
    then show ?thesis using Cons.IH [of "block @ [c]" m' k] Cons.prems Suc by simp
  qed (use Cons.prems in simp)
qed simp

lemma first_end_drop_None:
  "first_end d block inc = None \<Longrightarrow> first_end d (block @ take n inc) (drop n inc) = None"
proof (induction inc arbitrary: block n)
  case (Cons c cs)
  show ?case
  proof (cases n)
    case (Suc k)
    then show ?thesis using Cons.IH [of "block @ [c]" k] Cons.prems by (simp split: if_splits)
  qed (use Cons.prems in simp)
qed simp

context stream_socket
begin

lemma readU8_next:
  assumes "sound t" "incoming (sock t) = c # cs"
  shows "\<exists>t'. readU8 S t = (word_of_nat (byte_of c), True, t') \<and> got t [c] t'"
  using readFull_ok [OF assms(1), of 1] assms(2) by (auto simp: readU8_def read_ok_def fill_def)

lemma char_readU8: "char_of (unat (word_of_nat (byte_of c) :: 8 word)) = c"
  using byte_of_less [of c] by (simp add: unat_of_nat)

lemma readU8_end: "sound t \<Longrightarrow> incoming (sock t) = [] \<Longrightarrow> \<exists>v t'. readU8 S t = (v, False, t') \<and> got t [] t'"
  using readFull_short [of t 1] by (auto simp: readU8_def read_ok_def)

lemma read64K_loop_ok:
  assumes "sound t" "length delim \<le> 65535" "length block = 65536 * blockNo + (pos - 1)" "0 < pos"
  shows "\<exists>r b t'. read64KBlockDelim_loop S delim blockNo left pos block t = (r, b, t') \<and>
    (case first_end delim block (incoming (sock t)) of
       Some m \<Rightarrow> if m \<le> left then r = Found (pos + m - 1) \<and> b = block @ take m (incoming (sock t)) \<and> got t (take m (incoming (sock t))) t'
                 else r = Not_found \<and> b = block @ take left (incoming (sock t)) \<and> got t (take left (incoming (sock t))) t'
     | None \<Rightarrow> if left \<le> length (incoming (sock t)) then r = Not_found \<and> b = block @ take left (incoming (sock t)) \<and> got t (take left (incoming (sock t))) t'
                 else r = Read_failed \<and> got t (incoming (sock t)) t')"
  using assms
proof (induction left arbitrary: pos block t)
  case 0
  then show ?case using first_end_range by (auto simp: got_def split: option.splits)
next
  case (Suc left)
  show ?case
  proof (cases "incoming (sock t)")
    case Nil
    then show ?thesis using readU8_end [OF Suc.prems(1)] by (auto simp: Let_def)
  next
    case (Cons c cs)
    obtain t1 where t1: "readU8 S t = (word_of_nat (byte_of c), True, t1)" "got t [c] t1"
      using readU8_next [OF Suc.prems(1) Cons] by blast
    have inc: "incoming (sock t1) = cs" using t1(2) Cons by (simp add: got_def)
    have cmp: "(blockNo = 0 \<and> pos \<ge> length delim \<or> blockNo > 0) \<and> drop (Suc (length block) - length delim) (block @ [c]) = delim \<longleftrightarrow>
        ends_with delim (block @ [c])"
      using ends_with_length [of delim "block @ [c]"] Suc.prems(2-4) by (auto simp: ends_with_def)
    show ?thesis
    proof (cases "ends_with delim (block @ [c])")
      case True
      then show ?thesis using t1 cmp Cons by (auto simp: Let_def char_readU8)
    next
      case False
      have "length (block @ [c]) = 65536 * blockNo + (pos + 1 - 1)" using Suc.prems(3,4) by simp
      then obtain r b t' where IH: "read64KBlockDelim_loop S delim blockNo left (pos + 1) (block @ [c]) t1 = (r, b, t')"
        "case first_end delim (block @ [c]) cs of
           Some m \<Rightarrow> if m \<le> left then r = Found (pos + 1 + m - 1) \<and> b = (block @ [c]) @ take m cs \<and> got t1 (take m cs) t'
                 else r = Not_found \<and> b = (block @ [c]) @ take left cs \<and> got t1 (take left cs) t'
         | None \<Rightarrow> if left \<le> length cs then r = Not_found \<and> b = (block @ [c]) @ take left cs \<and> got t1 (take left cs) t'
                 else r = Read_failed \<and> got t1 cs t'"
        using Suc.IH [OF got_sound [OF t1(2)] Suc.prems(2), of "block @ [c]" "pos + 1"] inc by auto
      have "read64KBlockDelim_loop S delim blockNo (Suc left) pos block t = (r, b, t')"
        using t1 cmp False IH(1) by (auto simp: Let_def char_readU8)
      moreover have "got t (c # bs) t'" if "got t1 bs t'" for bs using got_trans [OF t1(2) that] by simp
      ultimately show ?thesis using IH(2) False Cons by (auto split: option.splits if_splits)
    qed
  qed
qed

end

context stream_socket
begin

lemma read64K_ok:
  assumes "sound t" "length delim \<le> 65535" "length block = 65536 * blockNo"
  shows "\<exists>r b t'. read64KBlockDelim S delim blockNo block t = (r, b, t') \<and>
    (case first_end delim block (incoming (sock t)) of
       Some m \<Rightarrow> if m \<le> 65536 then r = Found m \<and> b = block @ take m (incoming (sock t)) \<and> got t (take m (incoming (sock t))) t'
                 else r = Not_found \<and> b = block @ take 65536 (incoming (sock t)) \<and> got t (take 65536 (incoming (sock t))) t'
     | None \<Rightarrow> if 65536 \<le> length (incoming (sock t)) then r = Not_found \<and> b = block @ take 65536 (incoming (sock t)) \<and> got t (take 65536 (incoming (sock t))) t'
                 else r = Read_failed \<and> got t (incoming (sock t)) t')"
  using read64K_loop_ok [OF assms(1,2), of block blockNo 1 65536] assms(3)
  by (auto simp: read64KBlockDelim_def split: option.splits if_splits)

lemma next_size:
  assumes "n < 65535"
  shows "u32 (65536 * Suc n + 65536) = (if n + 2 \<le> 65535 then 65536 * Suc (Suc n) else 0)"
proof (cases "n + 2 \<le> 65535")
  case True
  then have "65536 * Suc n + 65536 < 4294967296" by simp
  then show ?thesis using True by (simp add: u32_def)
next
  case False
  then have "n = 65534" using assms by simp
  then show ?thesis by (simp add: u32_def)
qed

text \<open>The element is the shortest prefix that ends with the delimiter, if it fits in the blocks that
  may be allocated.\<close>

lemma readBlock32_loop_found:
  assumes "sound t" "length delim \<le> 65535" "length block = 65536 * blockNo" "blockNo < 65535"
    "first_end delim block (incoming (sock t)) = Some m" "length block + m \<le> 65536 * min 65535 (datalen div 65536)"
  shows "\<exists>t'. readBlock32_loop S delim datalen (65536 * Suc blockNo) blockNo block t =
      (Block (block @ take m (incoming (sock t))), length block + m, t') \<and> got t (take m (incoming (sock t))) t'"
  using assms
proof (induction "65535 - blockNo" arbitrary: blockNo block t m rule: less_induct)
  case less
  obtain r b t1 where rd: "read64KBlockDelim S delim blockNo block t = (r, b, t1)"
    and res: "if m \<le> 65536 then r = Found m \<and> b = block @ take m (incoming (sock t)) \<and> got t (take m (incoming (sock t))) t1
      else r = Not_found \<and> b = block @ take 65536 (incoming (sock t)) \<and> got t (take 65536 (incoming (sock t))) t1"
    using read64K_ok [OF less.prems(1-3)] less.prems(5) by auto
  show ?case
  proof (cases "m \<le> 65536")
    case True
    have "65536 * blockNo + m < 4294967296" using True less.prems(4) by simp
    then show ?thesis using rd res True less.prems(3) by (subst readBlock32_loop.simps) (auto simp: u32_def)
  next
    case False
    let ?i = "incoming (sock t)"
    have g: "got t (take 65536 ?i) t1" and b: "b = block @ take 65536 ?i" and r: "r = Not_found" using res False by auto
    have m: "m \<le> length ?i" using first_end_range [OF less.prems(5)] by simp
    have inc1: "incoming (sock t1) = drop 65536 ?i"
      using g by (metis append_take_drop_id got_def same_append_eq)
    have lb: "length b = 65536 * Suc blockNo" using b less.prems(3) m False by simp
    have nb: "Suc blockNo < min 65535 (datalen div 65536)"
    proof -
      have "65536 * Suc blockNo < 65536 * min 65535 (datalen div 65536)" using less.prems(3,6) False by simp
      then show ?thesis by (simp only: mult_less_cancel1)
    qed
    have fe: "first_end delim b (incoming (sock t1)) = Some (m - 65536)"
      using first_end_drop [OF less.prems(5), of 65536] False b inc1 by simp
    have bound: "length b + (m - 65536) \<le> 65536 * min 65535 (datalen div 65536)" using less.prems(3,6) lb False by simp
    obtain t2 where t2: "readBlock32_loop S delim datalen (65536 * Suc (Suc blockNo)) (Suc blockNo) b t1 =
        (Block (b @ take (m - 65536) (incoming (sock t1))), length b + (m - 65536), t2)" "got t1 (take (m - 65536) (incoming (sock t1))) t2"
      using less.hyps [OF _ got_sound [OF g] less.prems(2) lb _ fe bound] nb less.prems(4) by fastforce
    have "Suc (Suc blockNo) \<le> datalen div 65536" using nb by simp
    then have "65536 * Suc (Suc blockNo) \<le> 65536 * (datalen div 65536)" by (rule mult_le_mono2)
    also have "\<dots> \<le> datalen" by simp
    finally have "65536 * Suc (Suc blockNo) \<le> datalen" .
    then have "readBlock32_loop S delim datalen (65536 * Suc blockNo) blockNo block t =
        (Block (b @ take (m - 65536) (incoming (sock t1))), length b + (m - 65536), t2)"
      using rd r t2(1) next_size [of blockNo] nb less.prems(4) by (subst readBlock32_loop.simps) auto
    moreover have tk: "take 65536 ?i @ take (m - 65536) (drop 65536 ?i) = take m ?i"
      using False by (metis le_add_diff_inverse nat_le_linear take_add)
    ultimately show ?thesis using b inc1 lb less.prems(3) False got_trans [OF g t2(2)] by auto
  qed
qed

text \<open>With a limit of the last 64 KB below four gigabytes the sizes wrap.\<close>

lemma readBlock32_loop_overrun:
  assumes "sound t" "length delim \<le> 65535" "length block = 65536 * blockNo" "blockNo < 65535"
    "first_end delim block (incoming (sock t)) = None" "length block + length (incoming (sock t)) \<ge> 4294901760" "datalen \<ge> 4294901760"
  shows "\<exists>t'. readBlock32_loop S delim datalen (65536 * Suc blockNo) blockNo block t = (Overrun, datalen, t')"
  using assms
proof (induction "65535 - blockNo" arbitrary: blockNo block t rule: less_induct)
  case less
  let ?i = "incoming (sock t)"
  have len: "65536 \<le> length ?i" using less.prems(3,4,6) by simp
  obtain t1 where rd: "read64KBlockDelim S delim blockNo block t = (Not_found, block @ take 65536 ?i, t1)"
    and g: "got t (take 65536 ?i) t1"
    using read64K_ok [OF less.prems(1-3)] less.prems(5) len by auto
  have inc1: "incoming (sock t1) = drop 65536 ?i"
    using g by (metis append_take_drop_id got_def same_append_eq)
  show ?case
  proof (cases "blockNo + 2 \<le> 65535")
    case False
    then show ?thesis using rd next_size [OF less.prems(4)] by (subst readBlock32_loop.simps) auto
  next
    case True
    define b where "b = block @ take 65536 ?i"
    have lb: "length b = 65536 * Suc blockNo" using less.prems(3) len by (simp add: b_def)
    have fe: "first_end delim b (incoming (sock t1)) = None"
      using first_end_drop_None [OF less.prems(5), of 65536] inc1 by (simp add: b_def)
    have "length b + length (incoming (sock t1)) \<ge> 4294901760" using less.prems(3,6) len lb inc1 by simp
    then obtain t2 where "readBlock32_loop S delim datalen (65536 * Suc (Suc blockNo)) (Suc blockNo) b t1 = (Overrun, datalen, t2)"
      using less.hyps [OF _ got_sound [OF g] less.prems(2) lb _ fe _ less.prems(7)] True by fastforce
    moreover have "65536 * Suc (Suc blockNo) \<le> datalen" using True less.prems(7) by simp
    ultimately show ?thesis
      using rd next_size [OF less.prems(4)] True b_def by (subst readBlock32_loop.simps) auto
  qed
qed

end

section \<open>The buffered reader\<close>

text \<open>What a reader has to give: the bytes in its buffer, then those on the way.\<close>

definition reader_ok :: "'s buffered \<Rightarrow> bool" where
  "reader_ok b \<longleftrightarrow> m_currentBufferSize b \<le> length (m_buffer b)"

definition held :: "'s buffered \<Rightarrow> bytes" where
  "held b = take (m_currentBufferSize b) (m_buffer b)"

lemma put_length: "i + length bs \<le> length buf \<Longrightarrow> length (put buf i bs) = length buf"
  by (simp add: put_def)

lemma held_displace:
  assumes "reader_ok b" "dlen \<le> m_currentBufferSize b"
  shows "held (displace b dlen) = drop dlen (held b)" "reader_ok (displace b dlen)"
    "length (m_buffer (displace b dlen)) = length (m_buffer b)" "m_stream (displace b dlen) = m_stream b"
  using assms by (auto simp: held_def displace_def reader_ok_def put_def Let_def take_drop)

lemma needle_Some: "needle b c = Some i \<Longrightarrow> i < length (held b)"
  using first_at_bound [of "[c]" "held b" i] by (simp add: needle_def held_def find_sub_Some_iff)

lemma copy_string:
  assumes "reader_ok b" "needle b c = Some i" "displaceAndCopy_string b (i + 1) = (data, b')"
  shows "data = take i (held b)" "held b' = drop (i + 1) (held b)" "reader_ok b'"
    "length (m_buffer b') = length (m_buffer b)" "m_stream b' = m_stream b"
proof -
  have i: "i < m_currentBufferSize b" using needle_Some [OF assms(2)] assms(1) by (simp add: held_def)
  then show "data = take i (held b)" using assms(3) by (auto simp: displaceAndCopy_string_def held_def)
  have b': "b' = displace b (i + 1)" using assms(3) by (simp add: displaceAndCopy_string_def)
  show "held b' = drop (i + 1) (held b)" "reader_ok b'"
    "length (m_buffer b') = length (m_buffer b)" "m_stream b' = m_stream b"
    unfolding b' using held_displace [OF assms(1), of "i + 1"] i by auto
qed

text \<open>The other \<open>bufferedReadUntil\<close> puts a null character in the place of the delimiter.\<close>

lemma copy_raw:
  assumes "reader_ok b" "needle b c = Some i" "displaceAndCopy b (i + 1) = (data, b')"
  shows "data = take i (held b) @ [CHR 0x00]" "held b' = drop (i + 1) (held b)" "reader_ok b'"
    "length (m_buffer b') = length (m_buffer b)" "m_stream b' = m_stream b"
proof -
  have i: "i < m_currentBufferSize b" using needle_Some [OF assms(2)] assms(1) by (simp add: held_def)
  let ?b = "b\<lparr>m_buffer := (m_buffer b)[i := CHR 0x00]\<rparr>"
  have ok: "reader_ok ?b" using assms(1) by (simp add: reader_ok_def)
  show "data = take i (held b) @ [CHR 0x00]"
    using assms(1,3) i by (auto simp: displaceAndCopy_def Let_def held_def reader_ok_def take_Suc_conv_app_nth)
  have b': "b' = displace ?b (i + 1)" using assms(3) by (simp add: displaceAndCopy_def Let_def)
  have "drop (i + 1) (held ?b) = drop (i + 1) (held b)" by (simp add: held_def take_update_swap)
  then show "held b' = drop (i + 1) (held b)" "reader_ok b'"
    "length (m_buffer b') = length (m_buffer b)" "m_stream b' = m_stream b"
    unfolding b' using held_displace [OF ok, of "i + 1"] i by auto
qed

lemma find_char_append:
  "find_sub [c] (xs @ ys) = (case find_sub [c] xs of Some i \<Rightarrow> Some i | None \<Rightarrow> map_option (\<lambda>i. i + length xs) (find_sub [c] ys))"
  by (induction xs) (auto simp: option.map_comp comp_def option.map_ident split: option.splits)

lemma find_char_bound: "find_sub [c] xs = Some i \<Longrightarrow> i < length xs"
  using first_at_bound [of "[c]" xs i] by (simp add: find_sub_Some_iff)

definition copy_law :: "('s buffered \<Rightarrow> nat \<Rightarrow> bytes \<times> 's buffered) \<Rightarrow> bytes \<Rightarrow> bool" where
  "copy_law copy z \<longleftrightarrow> (\<forall>b c i data b'. reader_ok b \<longrightarrow> needle b c = Some i \<longrightarrow> copy b (i + 1) = (data, b') \<longrightarrow>
     data = take i (held b) @ z \<and> held b' = drop (i + 1) (held b) \<and> reader_ok b' \<and>
     length (m_buffer b') = length (m_buffer b) \<and> m_stream b' = m_stream b)"

lemma copy_laws: "copy_law displaceAndCopy_string []" "copy_law displaceAndCopy [CHR 0x00]"
  unfolding copy_law_def using copy_string copy_raw by (metis append_Nil2, metis)

text \<open>What reading up to a delimiter gives, from what is pending and the size of the buffer.\<close>

definition read_spec :: "char \<Rightarrow> nat \<Rightarrow> bytes \<Rightarrow> bytes \<Rightarrow> read_result \<times> bytes \<times> bytes" where
  "read_spec c cap z p = (case find_sub [c] p of
     Some i \<Rightarrow> if i < cap then (READ_OK, take i p @ z, drop (i + 1) p) else (READ_FULL, [], p)
   | None \<Rightarrow> if cap \<le> length p then (READ_FULL, [], p) else (READ_DISCONNECTED, [], p))"

context stream_socket
begin

definition pending :: "'s buffered \<Rightarrow> bytes" where
  "pending b = held b @ incoming (sock (m_stream b))"

definition reading :: "'s buffered \<Rightarrow> bool" where
  "reading b \<longleftrightarrow> reader_ok b \<and> up (sock (m_stream b))"

lemma refill_ok:
  assumes "reading b" "m_currentBufferSize b < length (m_buffer b)"
  shows "\<exists>r b'. refillBuffer S b = (r, b') \<and> reading b' \<and> pending b' = pending b \<and> length (m_buffer b') = length (m_buffer b) \<and>
     (r = READ_OK \<or> r = READ_DISCONNECTED \<and> pending b = held b)"
proof -
  let ?n = "length (m_buffer b) - m_currentBufferSize b"
  obtain bs s' where r: "partialRead S (sock (m_stream b)) ?n = (Some bs, s')" "length bs \<le> ?n" "bs = [] \<longrightarrow> incoming (sock (m_stream b)) = []"
    and s': "up s'" "incoming (sock (m_stream b)) = bs @ incoming s'"
    using read_next [of "sock (m_stream b)" ?n] assms by (auto simp: reading_def)
  have fit: "m_currentBufferSize b + length bs \<le> length (m_buffer b)" using r(2) assms(2) by simp
  then have "take (m_currentBufferSize b + length bs) (put (m_buffer b) (m_currentBufferSize b) bs) = held b @ bs"
    by (simp add: put_def held_def)
  then show ?thesis using r s' assms fit
    by (auto simp: refillBuffer_def reading_def reader_ok_def pending_def held_def put_length Let_def)
qed

lemma readUntil_ok:
  assumes "reading b" "copy_law copy z"
  shows "\<exists>r data b'. readUntil_loop S copy c b = (r, data, b') \<and> reading b' \<and> length (m_buffer b') = length (m_buffer b) \<and>
     (r, data, pending b') = read_spec c (length (m_buffer b)) z (pending b)"
  using assms
proof (induction "length (m_buffer b) - m_currentBufferSize b" arbitrary: b rule: less_induct)
  case less
  have ok: "reader_ok b" using less.prems by (simp add: reading_def)
  have hl: "length (held b) = m_currentBufferSize b" using ok by (simp add: reader_ok_def held_def)
  show ?case
  proof (cases "needle b c")
    case (Some i)
    obtain data b' where cp: "copy b (i + 1) = (data, b')" by force
    then have law: "data = take i (held b) @ z" "held b' = drop (i + 1) (held b)" "reader_ok b'"
        "length (m_buffer b') = length (m_buffer b)" "m_stream b' = m_stream b"
      using less.prems(2) ok Some unfolding copy_law_def by blast+
    have i: "i < length (held b)" "find_sub [c] (pending b) = Some i"
      using needle_Some [OF Some] Some by (simp_all add: pending_def needle_def held_def find_char_append)
    moreover have "length (held b) \<le> length (m_buffer b)" by (simp add: held_def)
    ultimately have "read_spec c (length (m_buffer b)) z (pending b) = (READ_OK, data, pending b')"
      using law by (simp add: read_spec_def pending_def)
    then show ?thesis using Some cp law less.prems(1)
      by (subst readUntil_loop.simps) (simp add: reading_def)
  next
    case None
    then have none: "find_sub [c] (held b) = None" by (simp add: needle_def held_def)
    show ?thesis
    proof (cases "m_currentBufferSize b < length (m_buffer b)")
      case False
      then have "length (m_buffer b) = length (held b)" using ok hl by (simp add: reader_ok_def)
      then have "read_spec c (length (m_buffer b)) z (pending b) = (READ_FULL, [], pending b)"
        using none by (auto simp: read_spec_def pending_def find_char_append split: option.splits)
      then show ?thesis using None False less.prems(1)
        by (subst readUntil_loop.simps) (simp add: refillBuffer_def)
    next
      case True
      obtain r b1 where rf: "refillBuffer S b = (r, b1)" "reading b1" "pending b1 = pending b" "length (m_buffer b1) = length (m_buffer b)"
        and r: "r = READ_OK \<or> r = READ_DISCONNECTED \<and> pending b = held b"
        using refill_ok [OF less.prems(1) True] by blast
      show ?thesis
      proof (cases "r = READ_OK")
        case True
        then obtain r' data b' where "readUntil_loop S copy c b1 = (r', data, b')" "reading b'" "length (m_buffer b') = length (m_buffer b1)"
            "(r', data, pending b') = read_spec c (length (m_buffer b1)) z (pending b1)"
          using less.hyps [OF _ rf(2) less.prems(2)] refill_progress [of S b b1] rf(1) by blast
        then show ?thesis using True None rf by (subst readUntil_loop.simps) auto
      next
        case False
        then have "read_spec c (length (m_buffer b)) z (pending b) = (r, [], pending b)"
          using r none hl \<open>m_currentBufferSize b < length (m_buffer b)\<close> by (simp add: read_spec_def)
        then show ?thesis using False None rf by (subst readUntil_loop.simps) auto
      qed
    qed
  qed
qed

end

text \<open>Reading line after line until a read fails.\<close>

fun readLines :: "'s socket_ops \<Rightarrow> nat \<Rightarrow> 's buffered \<Rightarrow> (read_result \<times> bytes) list \<times> 's buffered" where
  "readLines S 0 b = ([], b)"
| "readLines S (Suc n) b = (case readLineLF S b of (r, line, b1) \<Rightarrow> case readLines S n b1 of (rs, b2) \<Rightarrow> ((r, line) # rs, b2))"

lemma find_char_first: "c \<notin> set xs \<Longrightarrow> find_sub [c] (xs @ c # ys) = Some (length xs)"
  by (induction xs) auto

context stream_socket
begin

lemma readLines_ok:
  assumes "reading b" "pending b = concat (map (\<lambda>l. l @ [LF]) ls) @ rest"
    "\<forall>l \<in> set ls. LF \<notin> set l \<and> length l < length (m_buffer b)"
  shows "\<exists>b'. readLines S (length ls) b = (map (\<lambda>l. (READ_OK, l)) ls, b') \<and> reading b' \<and> pending b' = rest"
  using assms
proof (induction ls arbitrary: b)
  case (Cons l ls)
  have "read_spec LF (length (m_buffer b)) [] (pending b) = (READ_OK, l, concat (map (\<lambda>l. l @ [LF]) ls) @ rest)"
    using Cons.prems(2,3) by (simp add: read_spec_def find_char_first)
  then obtain b1 where b1: "readLineLF S b = (READ_OK, l, b1)" "reading b1" "length (m_buffer b1) = length (m_buffer b)"
      "pending b1 = concat (map (\<lambda>l. l @ [LF]) ls) @ rest"
    using readUntil_ok [OF Cons.prems(1) copy_laws(1), of LF] by (auto simp: readLineLF_def bufferedReadUntil_string_def)
  then show ?case using Cons.IH [of b1] Cons.prems(3) by fastforce
qed simp

end

section \<open>Layers\<close>

lemma getXorCopy_simps [simp]:
  "getXorCopy k (getXorCopy k xs) = xs" "length (getXorCopy k xs) = length xs" "getXorCopy k xs = [] \<longleftrightarrow> xs = []"
  "getXorCopy k (xs @ ys) = getXorCopy k xs @ getXorCopy k ys" "take n (getXorCopy k xs) = getXorCopy k (take n xs)"
  by (auto simp: getXorCopy_def comp_def take_map)

locale xor_layer = stream_socket S up incoming outgoing
  for S :: "'s socket_ops" and up incoming outgoing +
  fixes key :: char

sublocale xor_layer \<subseteq> xor: stream_socket "XOR_ops S key" up "\<lambda>s. getXorCopy key (incoming s)" "\<lambda>s. getXorCopy key (outgoing s)"
proof
  fix s n assume "up s" "0 < (n :: nat)"
  then obtain bs s' where "partialRead S s n = (Some bs, s')" "length bs \<le> n" "bs = [] \<longrightarrow> incoming s = []"
      "up s'" "incoming s = bs @ incoming s'" "outgoing s' = outgoing s"
    using read_next by blast
  then show "\<exists>bs s'. partialRead (XOR_ops S key) s n = (Some bs, s') \<and> length bs \<le> n \<and> (bs = [] \<longrightarrow> getXorCopy key (incoming s) = []) \<and>
      up s' \<and> getXorCopy key (incoming s) = bs @ getXorCopy key (incoming s') \<and> getXorCopy key (outgoing s') = getXorCopy key (outgoing s)"
    using \<open>0 < n\<close> by (auto simp: XOR_ops_def XOR_partialRead_def)
next
  fix s and data :: bytes assume "up s" "data \<noteq> []"
  then obtain k s' where "partialWrite S s (getXorCopy key data) = (Some k, s')" "0 < k" "k \<le> length data"
      "up s'" "outgoing s' = outgoing s @ take k (getXorCopy key data)" "incoming s' = incoming s"
    using write_some [of s "getXorCopy key data"] by auto
  then show "\<exists>k s'. partialWrite (XOR_ops S key) s data = (Some k, s') \<and> 0 < k \<and> k \<le> length data \<and>
      up s' \<and> getXorCopy key (outgoing s') = getXorCopy key (outgoing s) @ take k data \<and> getXorCopy key (incoming s') = getXorCopy key (incoming s)"
    using \<open>data \<noteq> []\<close> by (auto simp: XOR_ops_def XOR_partialWrite_def)
qed

text \<open>What POSIX says of \<open>recv\<close> and \<open>send\<close> on a blocking stream socket that is connected.\<close>

locale posix_stream =
  fixes os :: "'k os_ops"
    and connected :: "'k \<Rightarrow> bool"
    and from_peer :: "'k \<Rightarrow> bytes"
    and to_peer :: "'k \<Rightarrow> bytes"
  assumes recv: "connected k \<Longrightarrow> 0 < n \<Longrightarrow>
      \<exists>bs k'. os_recv os k n = (Some bs, k') \<and> length bs \<le> n \<and> (bs = [] \<longrightarrow> from_peer k = []) \<and>
        connected k' \<and> from_peer k = bs @ from_peer k' \<and> to_peer k' = to_peer k"
    and send: "connected k \<Longrightarrow> data \<noteq> [] \<Longrightarrow>
      \<exists>i k'. os_send os k data = (Some i, k') \<and> 0 < i \<and> i \<le> length data \<and>
        connected k' \<and> to_peer k' = to_peer k @ take i data \<and> from_peer k' = from_peer k"

sublocale posix_stream \<subseteq> base: stream_socket "Socket_ops os" "\<lambda>s. isActive s \<and> connected (m_kernel s)"
  "\<lambda>s. from_peer (m_kernel s)" "\<lambda>s. to_peer (m_kernel s)"
proof
  fix s :: "'k socket" and n :: nat assume up: "isActive s \<and> connected (m_kernel s)" and n: "0 < n"
  obtain bs k' where "os_recv os (m_kernel s) n = (Some bs, k')" "length bs \<le> n" "bs = [] \<longrightarrow> from_peer (m_kernel s) = []"
      "connected k'" "from_peer (m_kernel s) = bs @ from_peer k'" "to_peer k' = to_peer (m_kernel s)"
    using recv [of "m_kernel s" n] up n by blast
  then show "\<exists>bs s'. partialRead (Socket_ops os) s n = (Some bs, s') \<and> length bs \<le> n \<and> (bs = [] \<longrightarrow> from_peer (m_kernel s) = []) \<and>
      (isActive s' \<and> connected (m_kernel s')) \<and> from_peer (m_kernel s) = bs @ from_peer (m_kernel s') \<and> to_peer (m_kernel s') = to_peer (m_kernel s)"
    using up n by (simp add: Socket_ops_def Socket_partialRead_def isActive_def)
next
  fix s :: "'k socket" and data :: bytes assume up: "isActive s \<and> connected (m_kernel s)" and ne: "data \<noteq> []"
  obtain i k' where "os_send os (m_kernel s) data = (Some i, k')" "0 < i" "i \<le> length data"
      "connected k'" "to_peer k' = to_peer (m_kernel s) @ take i data" "from_peer k' = from_peer (m_kernel s)"
    using send [of "m_kernel s" data] up ne by blast
  then show "\<exists>k s'. partialWrite (Socket_ops os) s data = (Some k, s') \<and> 0 < k \<and> k \<le> length data \<and>
      (isActive s' \<and> connected (m_kernel s')) \<and> to_peer (m_kernel s') = to_peer (m_kernel s) @ take k data \<and> from_peer (m_kernel s') = from_peer (m_kernel s)"
    using up ne by (simp add: Socket_ops_def Socket_partialWrite_def isActive_def)
qed

section \<open>Both ends of the challenge\<close>

context stream_socket
begin

lemma writeU_ok: "sound t \<Longrightarrow> \<exists>t'. writeU S T t n = (True, t') \<and> wrote t (header T n) t'"
  using write_raw_ok [of t T n] by (auto simp: writeU_def)

text \<open>A read, a write, and what they leave of both directions.\<close>

definition moved :: "'s stream \<Rightarrow> bytes \<Rightarrow> bytes \<Rightarrow> 's stream \<Rightarrow> bool" where
  "moved t read written t' \<longleftrightarrow> sound t' \<and> incoming (sock t) = read @ incoming (sock t') \<and> outgoing (sock t') = outgoing (sock t) @ written"

lemma moved_got: "moved t a b t1 \<Longrightarrow> got t1 c t2 \<Longrightarrow> moved t (a @ c) b t2"
  by (simp add: moved_def got_def)

lemma moved_wrote: "moved t a b t1 \<Longrightarrow> wrote t1 c t2 \<Longrightarrow> moved t a (b @ c) t2"
  by (simp add: moved_def wrote_def)

lemma moved_refl: "sound t \<Longrightarrow> moved t [] [] t"
  by (simp add: moved_def)

lemma moved_sound: "moved t a b t1 \<Longrightarrow> sound t1"
  by (simp add: moved_def)

lemma moved_readString:
  assumes "moved t a b t1" "incoming (sock t) = a @ frame UINT8 s @ rest" "length s \<le> 254"
  shows "\<exists>t2. readStringEx S UINT8 t1 254 = (Some (s, True), t2) \<and> moved t (a @ frame UINT8 s) b t2"
  using readStringEx_ok [OF moved_sound [OF assms(1)], of UINT8 s rest 254] assms moved_got [OF assms(1)]
  by (auto simp: moved_def)

lemma moved_readU:
  assumes "moved t a b t1" "incoming (sock t) = a @ header UINT8 n @ rest" "n \<le> 255"
  shows "\<exists>t2. readU S UINT8 t1 = (n, True, t2) \<and> moved t (a @ header UINT8 n) b t2"
  using readU_ok [OF moved_sound [OF assms(1)], of UINT8 n rest] assms moved_got [OF assms(1)]
  by (auto simp: moved_def)

lemma moved_writeString:
  assumes "moved t a b t1" "length s \<le> 254"
  shows "\<exists>t2. writeStringEx S UINT8 t1 s 254 = (True, t2) \<and> moved t a (b @ frame UINT8 s) t2"
  using writeStringEx_ok [OF moved_sound [OF assms(1)], of s 254 UINT8] assms moved_wrote [OF assms(1)] by auto

lemma moved_writeU:
  assumes "moved t a b t1"
  shows "\<exists>t2. writeU S UINT8 t1 n = (True, t2) \<and> moved t a (b @ header UINT8 n) t2"
  using writeU_ok [OF moved_sound [OF assms]] moved_wrote [OF assms] by blast

lemma server_run:
  fixes H :: "bytes \<Rightarrow> bytes" and key local remote ch :: bytes
  assumes "sound t" "incoming (sock t) = frame UINT8 remote @ frame UINT8 ch @ header UINT8 v @ rest"
    and len: "length remote = 64" "length local = 64" "length ch \<le> 254" "\<And>x. length (H x) \<le> 254" "v \<le> 255"
  defines "ok \<equiv> ch = H (key @ local @ remote)"
  shows "\<exists>t'. mutualChallengeResponseSHA256Auth S H key local True t = (Some (ok, v = 1), t') \<and>
    moved t (frame UINT8 remote @ frame UINT8 ch @ header UINT8 v)
      (frame UINT8 local @ frame UINT8 (H ((if ok then key else []) @ remote @ local)) @ header UINT8 (if ok then 1 else 0)) t'"
proof -
  obtain t1 where t1: "writeStringEx S UINT8 t local 254 = (True, t1)" "moved t [] (frame UINT8 local) t1"
    using moved_writeString [OF moved_refl [OF assms(1)], of local] len by auto
  obtain t2 where t2: "readStringEx S UINT8 t1 254 = (Some (remote, True), t2)" "moved t (frame UINT8 remote) (frame UINT8 local) t2"
    using moved_readString [OF t1(2), of remote] assms(2) len by auto
  obtain t3 where t3: "readStringEx S UINT8 t2 254 = (Some (ch, True), t3)" "moved t (frame UINT8 remote @ frame UINT8 ch) (frame UINT8 local) t3"
    using moved_readString [OF t2(2), of ch] assms(2) len by auto
  let ?h = "H ((if ok then key else []) @ remote @ local)"
  obtain t4 where t4: "writeStringEx S UINT8 t3 ?h 254 = (True, t4)" "moved t (frame UINT8 remote @ frame UINT8 ch) (frame UINT8 local @ frame UINT8 ?h) t4"
    using moved_writeString [OF t3(2) len(4)] by auto
  obtain t5 where t5: "writeU S UINT8 t4 (if ok then 1 else 0) = (True, t5)"
      "moved t (frame UINT8 remote @ frame UINT8 ch) (frame UINT8 local @ frame UINT8 ?h @ header UINT8 (if ok then 1 else 0)) t5"
    using moved_writeU [OF t4(2), of "if ok then 1 else 0"] by auto
  obtain t6 where t6: "readU S UINT8 t5 = (v, True, t6)"
      "moved t (frame UINT8 remote @ frame UINT8 ch @ header UINT8 v) (frame UINT8 local @ frame UINT8 ?h @ header UINT8 (if ok then 1 else 0)) t6"
    using moved_readU [OF t5(2), of v] assms(2) len by auto
  show ?thesis using t1(1) t2(1) t3(1) t4(1) t5(1) t6 len(1)
    unfolding mutualChallengeResponseSHA256Auth_def Let_def ok_def by auto
qed

lemma client_run:
  fixes H :: "bytes \<Rightarrow> bytes" and key local remote ch :: bytes
  assumes "sound t" "incoming (sock t) = frame UINT8 remote @ frame UINT8 ch @ header UINT8 v @ rest"
    and len: "length remote = 64" "length local = 64" "length ch \<le> 254" "\<And>x. length (H x) \<le> 254" "v \<le> 255"
  defines "ok \<equiv> ch = H (key @ local @ remote)"
  shows "\<exists>t'. mutualChallengeResponseSHA256Auth S H key local False t = (Some (ok, v = 1), t') \<and>
    moved t (frame UINT8 remote @ frame UINT8 ch @ header UINT8 v)
      (frame UINT8 local @ frame UINT8 (H (key @ remote @ local)) @ header UINT8 (if ok then 1 else 0)) t'"
proof -
  obtain t1 where t1: "writeStringEx S UINT8 t local 254 = (True, t1)" "moved t [] (frame UINT8 local) t1"
    using moved_writeString [OF moved_refl [OF assms(1)], of local] len by auto
  obtain t2 where t2: "readStringEx S UINT8 t1 254 = (Some (remote, True), t2)" "moved t (frame UINT8 remote) (frame UINT8 local) t2"
    using moved_readString [OF t1(2), of remote] assms(2) len by auto
  let ?h = "H (key @ remote @ local)"
  obtain t3 where t3: "writeStringEx S UINT8 t2 ?h 254 = (True, t3)" "moved t (frame UINT8 remote) (frame UINT8 local @ frame UINT8 ?h) t3"
    using moved_writeString [OF t2(2) len(4)] by auto
  obtain t4 where t4: "readStringEx S UINT8 t3 254 = (Some (ch, True), t4)" "moved t (frame UINT8 remote @ frame UINT8 ch) (frame UINT8 local @ frame UINT8 ?h) t4"
    using moved_readString [OF t3(2), of ch] assms(2) len by auto
  obtain t5 where t5: "writeU S UINT8 t4 (if ok then 1 else 0) = (True, t5)"
      "moved t (frame UINT8 remote @ frame UINT8 ch) (frame UINT8 local @ frame UINT8 ?h @ header UINT8 (if ok then 1 else 0)) t5"
    using moved_writeU [OF t4(2), of "if ok then 1 else 0"] by auto
  obtain t6 where t6: "readU S UINT8 t5 = (v, True, t6)"
      "moved t (frame UINT8 remote @ frame UINT8 ch @ header UINT8 v) (frame UINT8 local @ frame UINT8 ?h @ header UINT8 (if ok then 1 else 0)) t6"
    using moved_readU [OF t5(2), of v] assms(2) len by auto
  show ?thesis using t1(1) t2(1) t3(1) t4(1) t5(1) t6 len(1)
    unfolding mutualChallengeResponseSHA256Auth_def Let_def ok_def by auto
qed

end

section \<open>Streaming a connection into a string\<close>

context stream_socket
begin

lemma streamTo_string:
  assumes "up (sock t)" "string_ready out (length (incoming (sock t)))"
  shows "\<exists>t' out'. Stream_streamTo S string_ops t out = Some (Inr (True, t', out')) \<and>
     ss_value out' = ss_value out @ incoming (sock t) \<and> incoming (sock t') = []"
  using assms
proof (induction "length (incoming (sock t))" arbitrary: t out rule: less_induct)
  case less
  obtain bs s' where r: "partialRead S (sock t) 8192 = (Some bs, s')" "bs = [] \<longrightarrow> incoming (sock t) = []"
    and s': "up s'" "incoming (sock t) = bs @ incoming s'"
    using read_next [OF less.prems(1), of 8192] by auto
  show ?case
  proof (cases "bs = []")
    case True
    then show ?thesis using r s' by (subst Stream_streamTo.simps) auto
  next
    case False
    have "length bs < two64" using less.prems(2) s'(2) by (simp add: string_ready_def)
    from str.writeFullStream_total [OF this less.prems(2)]
    obtain o1 where o1: "writeFullStream string_ops out bs = Some (Inr (True, o1))" "ss_value o1 = ss_value out @ bs"
      "string_ready o1 (length (incoming (sock t)) - length bs)" using s'(2) by auto
    have "\<exists>t' out'. Stream_streamTo S string_ops (t\<lparr>sock := s'\<rparr>) o1 = Some (Inr (True, t', out')) \<and>
        ss_value out' = ss_value o1 @ incoming s' \<and> incoming (sock t') = []"
      using less.hyps [of "t\<lparr>sock := s'\<rparr>" o1] False s' o1(3) by simp
    moreover have "\<not> finished (ss_status o1)" using o1(3) by (simp add: string_ready_def)
    then have "Stream_streamTo S string_ops t out = Stream_streamTo S string_ops (t\<lparr>sock := s'\<rparr>) o1"
      using r False o1(1) by (subst Stream_streamTo.simps) simp
    ultimately show ?thesis using o1(2) s'(2) by simp
  qed
qed

end

section \<open>A concrete connection\<close>

text \<open>A connection whose kernel delivers the incoming bytes in given pieces and takes outgoing bytes
  in given amounts.\<close>

record pipe =
  arrivals :: "bytes list"
  accepted :: bytes
  amounts :: "nat list"

definition pipe_recv :: "pipe \<Rightarrow> nat \<Rightarrow> bytes option \<times> pipe" where
  "pipe_recv p n = (case dropWhile (\<lambda>x. x = []) (arrivals p) of
     [] \<Rightarrow> (Some [], p\<lparr>arrivals := []\<rparr>)
   | piece # rest \<Rightarrow> (Some (take n piece), p\<lparr>arrivals := drop n piece # rest\<rparr>))"

definition pipe_send :: "pipe \<Rightarrow> bytes \<Rightarrow> nat option \<times> pipe" where
  "pipe_send p data = (case amounts p of
     [] \<Rightarrow> (Some (length data), p\<lparr>accepted := accepted p @ data\<rparr>)
   | a # rest \<Rightarrow> (let i = max 1 (min a (length data)) in (Some i, p\<lparr>accepted := accepted p @ take i data, amounts := rest\<rparr>)))"

definition pipe_ops :: "pipe os_ops" where
  "pipe_ops = \<lparr>os_recv = pipe_recv, os_send = pipe_send, os_shutdown = (\<lambda>p m. (0, p))\<rparr>"

lemma concat_dropWhile: "concat (dropWhile (\<lambda>x. x = []) xs) = concat xs"
  by (induction xs) auto

interpretation pipe: posix_stream pipe_ops "\<lambda>p. True" "\<lambda>p. concat (arrivals p)" accepted
proof
  fix k :: pipe and n :: nat assume "0 < n"
  show "\<exists>bs k'. os_recv pipe_ops k n = (Some bs, k') \<and> length bs \<le> n \<and> (bs = [] \<longrightarrow> concat (arrivals k) = []) \<and>
      True \<and> concat (arrivals k) = bs @ concat (arrivals k') \<and> accepted k' = accepted k"
  proof (cases "dropWhile (\<lambda>x. x = []) (arrivals k)")
    case Nil
    then have "os_recv pipe_ops k n = (Some [], k\<lparr>arrivals := []\<rparr>)" by (simp only: pipe_ops_def pipe_recv_def os_ops.simps list.case)
    moreover have "concat (arrivals k) = []" using concat_dropWhile [of "arrivals k"] Nil by (metis concat.simps(1))
    ultimately show ?thesis by simp
  next
    case (Cons piece rest)
    then have "piece \<noteq> []" by (metis (mono_tags) dropWhile_eq_Cons_conv)
    moreover have "concat (arrivals k) = piece @ concat rest" using concat_dropWhile [of "arrivals k"] Cons by simp
    ultimately show ?thesis using Cons \<open>0 < n\<close> by (simp add: pipe_ops_def pipe_recv_def)
  qed
next
  fix k :: pipe and data :: bytes assume "data \<noteq> []"
  then show "\<exists>i k'. os_send pipe_ops k data = (Some i, k') \<and> 0 < i \<and> i \<le> length data \<and>
      True \<and> accepted k' = accepted k @ take i data \<and> concat (arrivals k') = concat (arrivals k)"
    by (cases "amounts k") (auto simp: pipe_ops_def pipe_send_def Let_def Suc_le_eq)
qed

interpretation pipe_xor: xor_layer "Socket_ops pipe_ops" "\<lambda>s. isActive s \<and> True" "\<lambda>s. concat (arrivals (m_kernel s))" "\<lambda>s. accepted (m_kernel s)" "CHR ''w''"
  by unfold_locales

section \<open>Properties\<close>

text \<open>C13: strings written to one end of a connection are what the other end reads, in order and
  whatever the pieces in which the sockets move the bytes: each string travels as its length in
  network byte order, in one, two, four or eight bytes, followed by its bytes.\<close>

theorem strings_cross_connection:
  assumes "stream_socket S up incoming outgoing" "up (sock t)" "up (sock r)"
    "0 < mChunkSize t" "mChunkSize t < 4294967296" "0 < mChunkSize r" "mChunkSize r < 4294967296"
    "\<forall>s \<in> set xs. length s < tmax T \<and> length s \<le> 9223372036854775807"
    "incoming (sock r) = drop (length (outgoing (sock t))) (outgoing (sock (writeStrings S T xs t))) @ rest"
  shows "outgoing (sock (writeStrings S T xs t)) = outgoing (sock t) @ concat (map (\<lambda>s. be_bytes (tsize T) (length s) @ s) xs) \<and>
    fst (readStrings S T (length xs) r) = map (\<lambda>s. Some (s, True)) xs \<and> incoming (sock (snd (readStrings S T (length xs) r))) = rest"
proof -
  note sound = stream_socket.sound_def [OF assms(1)]
  have f: "(\<lambda>s. be_bytes (tsize T) (length s) @ s) = frame T" by (simp add: frame_def header_network_order fun_eq_iff)
  have out: "outgoing (sock (writeStrings S T xs t)) = outgoing (sock t) @ concat (map (frame T) xs)"
    using stream_socket.writeStrings_ok [OF assms(1), of t xs T] assms(2-8) sound
    by (auto simp: writeStrings_def stream_socket.wrote_def [OF assms(1)])
  have "\<exists>t'. readStrings S T (length xs) r = (map (\<lambda>s. Some (s, True)) xs, t') \<and> stream_socket.got up incoming outgoing r (concat (map (frame T) xs)) t'"
    using assms(3,6-9) out sound by (intro stream_socket.readStrings_ok [OF assms(1)]) auto
  then show ?thesis using out assms(9) unfolding f by (auto simp: stream_socket.got_def [OF assms(1)])
qed

definition demo_stream :: "bytes list \<Rightarrow> pipe socket stream" where
  "demo_stream pieces = \<lparr>sock = \<lparr>m_sockFD = 3, m_kernel = \<lparr>arrivals = pieces, accepted = [], amounts = [1, 2, 1]\<rparr>,
     m_shutdownProtocolOnRead = False, m_shutdownProtocolOnWrite = False\<rparr>, mChunkSize = 8192, writeStatus = ws_init\<rparr>"

lemma demo_stream_simps [simp]:
  "isActive (sock (demo_stream p))" "arrivals (m_kernel (sock (demo_stream p))) = p" "accepted (m_kernel (sock (demo_stream p))) = []"
  "mChunkSize (demo_stream p) = 8192"
  by (simp_all add: demo_stream_def isActive_def)

theorem strings_cross_connection_witness:
  "fst (readStrings (Socket_ops pipe_ops) UINT16 2
     (demo_stream [accepted (m_kernel (sock (writeStrings (Socket_ops pipe_ops) UINT16 [''GET'', ''''] (demo_stream []))))])) =
   [Some (''GET'', True), Some ('''', True)]"
  using strings_cross_connection [OF pipe.base.stream_socket_axioms, of "demo_stream []"
    "demo_stream [accepted (m_kernel (sock (writeStrings (Socket_ops pipe_ops) UINT16 [''GET'', ''''] (demo_stream []))))]" "[''GET'', '''']" UINT16 "[]"]
  by (auto simp: numeral_2_eq_2 simp del: readStrings.simps)

text \<open>C24: the buffered reader gives the same elements whatever the pieces in which the bytes arrive.
  With \<open>p\<close> the bytes in its buffer followed by those on the way, a read up to a delimiter gives the
  bytes of \<open>p\<close> before its first delimiter and leaves those after it, if the delimiter is within the
  size of the buffer; otherwise it reports a full buffer when \<open>p\<close> fills it and the end of the
  connection when \<open>p\<close> is shorter, and loses nothing in either case.\<close>

theorem buffered_reader_any_fragmentation:
  assumes "stream_socket S up incoming outgoing" "up (sock (m_stream b))" "m_currentBufferSize b \<le> length (m_buffer b)"
    "bufferedReadUntil_string S c b = (r, line, b')"
  defines "p \<equiv> take (m_currentBufferSize b) (m_buffer b) @ incoming (sock (m_stream b))"
    and "p' \<equiv> take (m_currentBufferSize b') (m_buffer b') @ incoming (sock (m_stream b'))"
  shows "m_currentBufferSize b' \<le> length (m_buffer b') \<and> length (m_buffer b') = length (m_buffer b) \<and>
    (case find_sub [c] p of
       Some i \<Rightarrow> if i < length (m_buffer b) then r = READ_OK \<and> line = take i p \<and> p' = drop (i + 1) p else r = READ_FULL \<and> p' = p
     | None \<Rightarrow> r = (if length (m_buffer b) \<le> length p then READ_FULL else READ_DISCONNECTED) \<and> p' = p)"
proof -
  have "stream_socket.reading up b" using assms(2,3) by (simp add: stream_socket.reading_def [OF assms(1)] reader_ok_def)
  from stream_socket.readUntil_ok [OF assms(1) this copy_laws(1), of c]
  have "stream_socket.reading up b' \<and> length (m_buffer b') = length (m_buffer b) \<and>
      (r, line, p') = read_spec c (length (m_buffer b)) [] p"
    using assms(4) by (auto simp: bufferedReadUntil_string_def stream_socket.pending_def [OF assms(1)] held_def p_def p'_def)
  then show ?thesis
    by (auto simp: stream_socket.reading_def [OF assms(1)] reader_ok_def read_spec_def split: option.splits if_splits)
qed

theorem buffered_reader_any_fragmentation_witness:
  "\<exists>b'. bufferedReadUntil_string (Socket_ops pipe_ops) LF (BufferedReader_new (demo_stream [''US'', ''ER'' @ [LF] @ ''x'']) 16) = (READ_OK, ''USER'', b')"
proof -
  obtain r line b' where b': "bufferedReadUntil_string (Socket_ops pipe_ops) LF (BufferedReader_new (demo_stream [''US'', ''ER'' @ [LF] @ ''x'']) 16) = (r, line, b')"
    by (metis prod_cases3)
  show ?thesis
    using buffered_reader_any_fragmentation [OF pipe.base.stream_socket_axioms _ _ b'] b' by (simp add: BufferedReader_new_def)
qed

text \<open>Reading a block up to a delimiter gives the shortest prefix of the stream that ends with the
  delimiter, across the borders of the 64 KB blocks, if it fits in the whole blocks that the limit
  allows; but when the limit is within the last block below four gigabytes and the delimiter does
  not come, the size of the next array wraps to zero and the copy runs past it.\<close>

theorem delimited_block:
  assumes "stream_socket S up incoming outgoing" "up (sock t)" "0 < mChunkSize t" "mChunkSize t < 4294967296"
    "length delim \<le> 65535" "65536 \<le> datalen"
  shows "(\<forall>m. first_end delim [] (incoming (sock t)) = Some m \<longrightarrow> m \<le> 65536 * min 65535 (datalen div 65536) \<longrightarrow>
      (\<exists>t'. readBlock32WAllocAndDelim S t datalen delim = (Block (take m (incoming (sock t))), m, t') \<and>
        incoming (sock t') = drop m (incoming (sock t)))) \<and>
    (first_end delim [] (incoming (sock t)) = None \<longrightarrow> 4294901760 \<le> length (incoming (sock t)) \<longrightarrow> 4294901760 \<le> datalen \<longrightarrow>
      fst (readBlock32WAllocAndDelim S t datalen delim) = Overrun)"
proof -
  have so: "stream_socket.sound up t" using assms(2-4) by (simp add: stream_socket.sound_def [OF assms(1)])
  have "\<exists>t'. readBlock32WAllocAndDelim S t datalen delim = (Block (take m (incoming (sock t))), m, t') \<and>
      incoming (sock t') = drop m (incoming (sock t))"
    if m: "first_end delim [] (incoming (sock t)) = Some m" "m \<le> 65536 * min 65535 (datalen div 65536)" for m
  proof -
    obtain t' where "readBlock32_loop S delim datalen 65536 0 [] t = (Block (take m (incoming (sock t))), m, t')"
        "stream_socket.got up incoming outgoing t (take m (incoming (sock t))) t'"
      using stream_socket.readBlock32_loop_found [OF assms(1) so assms(5), of "[]" 0 m datalen] m by auto
    moreover from this(2) have "incoming (sock t') = drop m (incoming (sock t))"
      by (metis append_take_drop_id same_append_eq stream_socket.got_def [OF assms(1)])
    ultimately show ?thesis using assms(6) by (simp add: readBlock32WAllocAndDelim_def)
  qed
  moreover have "fst (readBlock32WAllocAndDelim S t datalen delim) = Overrun"
    if "first_end delim [] (incoming (sock t)) = None" "4294901760 \<le> length (incoming (sock t))" "4294901760 \<le> datalen"
    using stream_socket.readBlock32_loop_overrun [OF assms(1) so assms(5), of "[]" 0 datalen] that assms(6)
    by (auto simp: readBlock32WAllocAndDelim_def)
  ultimately show ?thesis by blast
qed

theorem delimited_block_witness:
  "\<exists>t'. readBlock32WAllocAndDelim (Socket_ops pipe_ops) (demo_stream [''ab'', '';'', '';cd'']) 65536 '';;'' = (Block ''ab;;'', 4, t')"
  using delimited_block [OF pipe.base.stream_socket_axioms, of "demo_stream [''ab'', '';'', '';cd'']" "'';;''" 65536]
  by (auto simp: ends_with_def)



end
