(* ===== verification/Json_Value.thy ===== *)
theory Json_Value
  imports Mantids_Prelude
begin

text \<open>
  JSON values as jsoncpp documents them, and the accessors of \<open>Helpers/json.{h,cpp}\<close> over them. An
  object is an association list with the keys in order and each key once; a number that is not an
  integer carries the integer it equals, if any, and its text. An access that jsoncpp answers with
  an exception (\<open>Json::LogicError\<close>) is \<open>None\<close>. Text is parsed and written by jsoncpp: where the
  sources do so, the parser is an argument.
\<close>

section \<open>Values\<close>

datatype json =
    JNull
  | JBool bool
  | JInt int
  | JReal "int option" string
  | JString string
  | JArray "json list"
  | JObject "(string \<times> json) list"

fun isObject :: "json \<Rightarrow> bool" where
  "isObject (JObject _) = True" | "isObject _ = False"

fun isArray :: "json \<Rightarrow> bool" where
  "isArray (JArray _) = True" | "isArray _ = False"

fun isString :: "json \<Rightarrow> bool" where
  "isString (JString _) = True" | "isString _ = False"

fun isBool :: "json \<Rightarrow> bool" where
  "isBool (JBool _) = True" | "isBool _ = False"

text \<open>The integer tests: within the range of the type, for a real number when it is integral.\<close>

definition int_value :: "json \<Rightarrow> int option" where
  "int_value j = (case j of JInt i \<Rightarrow> Some i | JReal i _ \<Rightarrow> i | _ \<Rightarrow> None)"

definition in_int_range :: "int \<Rightarrow> int \<Rightarrow> json \<Rightarrow> int option" where
  "in_int_range lo hi j = (case int_value j of Some i \<Rightarrow> if lo \<le> i \<and> i \<le> hi then Some i else None | None \<Rightarrow> None)"

definition as_int :: "json \<Rightarrow> int option" where
  "as_int = in_int_range (- 2147483648) 2147483647"

definition as_int64 :: "json \<Rightarrow> int option" where
  "as_int64 = in_int_range (- 9223372036854775808) 9223372036854775807"

definition as_uint :: "json \<Rightarrow> int option" where
  "as_uint = in_int_range 0 4294967295"

definition as_uint64 :: "json \<Rightarrow> int option" where
  "as_uint64 = in_int_range 0 18446744073709551615"

text \<open>Members of an object; on a null value there are none, on any other value jsoncpp throws.\<close>

fun isMember :: "json \<Rightarrow> string \<Rightarrow> bool option" where
  "isMember (JObject m) k = Some (map_of m k \<noteq> None)"
| "isMember JNull k = Some False"
| "isMember _ k = None"

fun member :: "json \<Rightarrow> string \<Rightarrow> json" where
  "member (JObject m) k = (case map_of m k of Some v \<Rightarrow> v | None \<Rightarrow> JNull)"
| "member _ k = JNull"

fun elements :: "json \<Rightarrow> json list" where
  "elements (JArray xs) = xs" | "elements _ = []"

section \<open>Accessors by key\<close>

definition has :: "json \<Rightarrow> string \<Rightarrow> bool" where
  "has j x \<longleftrightarrow> isObject j \<and> isMember j x = Some True"

definition ASSTRING :: "json \<Rightarrow> string \<Rightarrow> string \<Rightarrow> string" where
  "ASSTRING j x def = (if has j x then case member j x of JString s \<Rightarrow> s | _ \<Rightarrow> def else def)"

definition ASBOOL :: "json \<Rightarrow> string \<Rightarrow> bool \<Rightarrow> bool" where
  "ASBOOL j x def = (if has j x then case member j x of JBool b \<Rightarrow> b | _ \<Rightarrow> def else def)"

definition ASINT :: "json \<Rightarrow> string \<Rightarrow> int \<Rightarrow> int" where
  "ASINT j x def = (if has j x then case as_int (member j x) of Some i \<Rightarrow> i | None \<Rightarrow> def else def)"

definition ASINT64 :: "json \<Rightarrow> string \<Rightarrow> int \<Rightarrow> int" where
  "ASINT64 j x def = (if has j x then case as_int64 (member j x) of Some i \<Rightarrow> i | None \<Rightarrow> def else def)"

definition ASUINT :: "json \<Rightarrow> string \<Rightarrow> int \<Rightarrow> int" where
  "ASUINT j x def = (if has j x then case as_uint (member j x) of Some i \<Rightarrow> i | None \<Rightarrow> def else def)"

definition ASUINT64 :: "json \<Rightarrow> string \<Rightarrow> int \<Rightarrow> int" where
  "ASUINT64 j x def = (if has j x then case as_uint64 (member j x) of Some i \<Rightarrow> i | None \<Rightarrow> def else def)"

definition ISARRAY :: "json \<Rightarrow> string \<Rightarrow> bool" where
  "ISARRAY j key \<longleftrightarrow> has j key \<and> isArray (member j key)"

section \<open>Accessors of a value and of an array\<close>

definition ASSTRING_D :: "json \<Rightarrow> string \<Rightarrow> string" where
  "ASSTRING_D j def = (case j of JString s \<Rightarrow> s | _ \<Rightarrow> def)"

definition ASBOOL_D :: "json \<Rightarrow> bool \<Rightarrow> bool" where
  "ASBOOL_D j def = (case j of JBool b \<Rightarrow> b | _ \<Rightarrow> def)"

definition ASINT_D :: "json \<Rightarrow> int \<Rightarrow> int" where
  "ASINT_D j def = (case as_int j of Some i \<Rightarrow> i | None \<Rightarrow> def)"

definition ASINT64_D :: "json \<Rightarrow> int \<Rightarrow> int" where
  "ASINT64_D j def = (case as_int64 j of Some i \<Rightarrow> i | None \<Rightarrow> def)"

definition ASUINT_D :: "json \<Rightarrow> int \<Rightarrow> int" where
  "ASUINT_D j def = (case as_uint j of Some i \<Rightarrow> i | None \<Rightarrow> def)"

definition ASUINT64_D :: "json \<Rightarrow> int \<Rightarrow> int" where
  "ASUINT64_D j def = (case as_uint64 j of Some i \<Rightarrow> i | None \<Rightarrow> def)"

text \<open>The index is cut to 32 bits before it is used.\<close>

definition element :: "json \<Rightarrow> nat \<Rightarrow> json option" where
  "element j i = (if isArray j \<and> i < length (elements j) then Some (elements j ! (i mod 4294967296)) else None)"

definition ARRAY_ASSTRING :: "json \<Rightarrow> nat \<Rightarrow> string \<Rightarrow> string" where
  "ARRAY_ASSTRING j i def = (case element j i of Some v \<Rightarrow> ASSTRING_D v def | None \<Rightarrow> def)"

definition ARRAY_ASBOOL :: "json \<Rightarrow> nat \<Rightarrow> bool \<Rightarrow> bool" where
  "ARRAY_ASBOOL j i def = (case element j i of Some v \<Rightarrow> ASBOOL_D v def | None \<Rightarrow> def)"

definition ARRAY_ASINT :: "json \<Rightarrow> nat \<Rightarrow> int \<Rightarrow> int" where
  "ARRAY_ASINT j i def = (case element j i of Some v \<Rightarrow> ASINT_D v def | None \<Rightarrow> def)"

definition ARRAY_ASINT64 :: "json \<Rightarrow> nat \<Rightarrow> int \<Rightarrow> int" where
  "ARRAY_ASINT64 j i def = (case element j i of Some v \<Rightarrow> ASINT64_D v def | None \<Rightarrow> def)"

definition ARRAY_ASUINT :: "json \<Rightarrow> nat \<Rightarrow> int \<Rightarrow> int" where
  "ARRAY_ASUINT j i def = (case element j i of Some v \<Rightarrow> ASUINT_D v def | None \<Rightarrow> def)"

definition ARRAY_ASUINT64 :: "json \<Rightarrow> nat \<Rightarrow> int \<Rightarrow> int" where
  "ARRAY_ASUINT64 j i def = (case element j i of Some v \<Rightarrow> ASUINT64_D v def | None \<Rightarrow> def)"

section \<open>Lists and sets\<close>

definition strings_of :: "json list \<Rightarrow> string list" where
  "strings_of xs = concat (map (\<lambda>v. case v of JString s \<Rightarrow> [s] | _ \<Rightarrow> []) xs)"

definition toStringList :: "json \<Rightarrow> string \<Rightarrow> string list" where
  "toStringList value sub =
     (if sub = [] \<and> isArray value then strings_of (elements value)
      else if sub \<noteq> [] \<and> ISARRAY value sub then strings_of (elements (member value sub)) else [])"

definition toStringSet :: "json \<Rightarrow> string \<Rightarrow> string set" where
  "toStringSet value sub =
     (if sub = [] \<and> isArray value then set (strings_of (elements value))
      else if sub \<noteq> [] \<and> ISARRAY value sub then set (strings_of (elements (member value sub))) else {})"

definition uints_of :: "json list \<Rightarrow> int list" where
  "uints_of xs = concat (map (\<lambda>v. case as_uint v of Some i \<Rightarrow> [i] | None \<Rightarrow> []) xs)"

definition toUInt32Set :: "json \<Rightarrow> string \<Rightarrow> int set" where
  "toUInt32Set value sub =
     (if sub = [] \<and> isArray value then set (uints_of (elements value))
      else if sub \<noteq> [] \<and> ISARRAY value sub then set (uints_of (elements (member value sub))) else {})"

text \<open>\<open>x[v++] = i\<close> turns the null value into an array at the first element: an empty container gives
  the null value. A set is written in its order, given as a list.\<close>

definition fromList :: "string list \<Rightarrow> json" where
  "fromList t = (if t = [] then JNull else JArray (map JString t))"

definition fromSet_uint32 :: "int list \<Rightarrow> json" where
  "fromSet_uint32 t = (if t = [] then JNull else JArray (map JInt t))"

section \<open>Facts\<close>

lemma strings_of_map [simp]: "strings_of (map JString xs) = xs"
  by (induction xs) (auto simp: strings_of_def)

lemma toStringList_fromList: "toStringList (fromList xs) [] = xs"
  by (simp add: toStringList_def fromList_def)

lemma toStringSet_fromList: "toStringSet (fromList xs) [] = set xs"
  by (simp add: toStringSet_def fromList_def)

lemma uints_of_map: "\<forall>i \<in> set xs. 0 \<le> i \<and> i \<le> 4294967295 \<Longrightarrow> uints_of (map JInt xs) = xs"
  by (induction xs) (auto simp: uints_of_def as_uint_def in_int_range_def int_value_def)

lemma toUInt32Set_fromSet: "\<forall>i \<in> set xs. 0 \<le> i \<and> i \<le> 4294967295 \<Longrightarrow> toUInt32Set (fromSet_uint32 xs) [] = set xs"
  by (simp add: toUInt32Set_def fromSet_uint32_def uints_of_map)

text \<open>An accessor never throws: it asks for the kind of the value first.\<close>

lemma has_member: "has j x \<longleftrightarrow> (\<exists>m v. j = JObject m \<and> map_of m x = Some v \<and> member j x = v)"
  by (cases j) (auto simp: has_def)

end
