(* ===== verification/Base64.thy ===== *)
theory Base64
  imports Helpers_Encoders Safe_Int
begin

text \<open>
  The base64 codecs of \<open>Helpers/encoders.cpp\<close>. Encoding and decoding call the base64 filter of
  OpenSSL, the record \<open>bio\<close>: what it makes of the bytes written to it and of the text read through
  it, \<open>None\<close> where a call of OpenSSL fails. The obfuscated decoder is written out in the source; the
  generator it shares with the obfuscated encoder is the sequence of characters it draws.
\<close>

section \<open>Definitions\<close>

record bio =
  bio_write :: "bytes \<Rightarrow> bytes option"
  bio_read :: "bytes \<Rightarrow> bytes option"

text \<open>\<open>safe_cast_or(size, 0)\<close>, from \<open>size_t\<close> to \<open>int\<close>.\<close>

definition bio_size :: "nat \<Rightarrow> nat" where
  "bio_size n = nat (safe_cast_or (sint_t 32) (uint_t 64) (int n) 0)"

definition replace_char :: "char \<Rightarrow> char \<Rightarrow> bytes \<Rightarrow> bytes" where
  "replace_char a b s = map (\<lambda>c. if c = a then b else c) s"

definition encodeToBase64 :: "bio \<Rightarrow> bytes \<Rightarrow> bool \<Rightarrow> bytes" where
  "encodeToBase64 io buf url =
     (let n = bio_size (length buf);
          result = (if n > 0 then case bio_write io (take n buf) of Some r \<Rightarrow> r | None \<Rightarrow> [] else []) in
      if url then filter (\<lambda>c. c \<noteq> CHR ''='') (replace_char (CHR ''+'') (CHR ''-'') (replace_char (CHR ''/'') (CHR ''_'') result))
      else result)"

text \<open>The padding that the URL form leaves out; a length of one modulo four has none.\<close>

definition pad_url :: "bytes \<Rightarrow> bytes option" where
  "pad_url s =
     (if length s mod 4 = 0 then Some s
      else if length s mod 4 = 2 then Some (s @ ''=='')
      else if length s mod 4 = 3 then Some (s @ ''='')
      else None)"

definition decodeFromBase64 :: "bio \<Rightarrow> bytes \<Rightarrow> bool \<Rightarrow> bytes" where
  "decodeFromBase64 io s url =
     (case (if url then map_option (\<lambda>p. replace_char (CHR ''-'') (CHR ''+'') (replace_char (CHR ''_'') (CHR ''/'') p)) (pad_url s)
            else Some s) of
        None \<Rightarrow> []
      | Some inputx \<Rightarrow> (case bio_read io (take (bio_size (length inputx)) inputx) of Some r \<Rightarrow> r | None \<Rightarrow> []))"

definition m_b64Chars :: bytes where
  "m_b64Chars = ''ABCDEFGHIJKLMNOPQRSTUVWXYZabcdefghijklmnopqrstuvwxyz0123456789+/''"

text \<open>\<open>find\<close> cut to an unsigned char: a character that is not in the table gives 255.\<close>

definition b64_find :: "char \<Rightarrow> nat" where
  "b64_find c = (case find_sub [c] m_b64Chars of Some i \<Rightarrow> i | None \<Rightarrow> 255)"

text \<open>The three bytes of four six-bit values; the masks and shifts take the fields of bits.\<close>

definition cont3 :: "nat \<Rightarrow> nat \<Rightarrow> nat \<Rightarrow> nat \<Rightarrow> bytes" where
  "cont3 a b c d =
     [char_of ((a * 4 + b div 16 mod 4) mod 256),
      char_of ((b mod 16 * 16 + c div 4 mod 16) mod 256),
      char_of ((c mod 4 * 64 + d) mod 256)]"

text \<open>Each character that is appended takes the next draw of the generator.\<close>

definition append_xor :: "(nat \<Rightarrow> char) \<Rightarrow> bytes \<Rightarrow> bytes \<Rightarrow> bytes" where
  "append_xor dis = foldl (\<lambda>out c. out @ [xor_char c (dis (length out))])"

definition is_b64 :: "char \<Rightarrow> bool" where
  "is_b64 c \<longleftrightarrow> c \<noteq> CHR ''='' \<and> (isalnum c \<or> c = CHR ''/'' \<or> c = CHR ''+'')"

fun decodeObf_loop :: "(nat \<Rightarrow> char) \<Rightarrow> bytes \<Rightarrow> bytes \<Rightarrow> bytes \<Rightarrow> bytes \<times> bytes" where
  "decodeObf_loop dis [] cont4 out = (cont4, out)"
| "decodeObf_loop dis (c # cs) cont4 out =
     (if \<not> is_b64 c then (cont4, out)
      else (case cont4 @ [c] of
              [a, b, d, e] \<Rightarrow> decodeObf_loop dis cs [] (append_xor dis out (cont3 (b64_find a) (b64_find b) (b64_find d) (b64_find e)))
            | cont4' \<Rightarrow> decodeObf_loop dis cs cont4' out))"

definition decodeObf_rest :: "(nat \<Rightarrow> char) \<Rightarrow> bytes \<times> bytes \<Rightarrow> bytes" where
  "decodeObf_rest dis = (\<lambda>(cont4, out).
     if cont4 = [] then out
     else (let v = (\<lambda>i. b64_find (if i < length cont4 then cont4 ! i else CHR 0x00)) in
           append_xor dis out (take (length cont4 - 1) (cont3 (v 0) (v 1) (v 2) (v 3)))))"

definition decodeFromBase64Obf :: "(nat \<Rightarrow> char) \<Rightarrow> bytes \<Rightarrow> bytes" where
  "decodeFromBase64Obf dis sB64Buf = decodeObf_rest dis (decodeObf_loop dis sB64Buf [] [])"

definition encodeToBase64Obf :: "bio \<Rightarrow> (nat \<Rightarrow> char) \<Rightarrow> bool \<Rightarrow> bytes \<Rightarrow> bytes" where
  "encodeToBase64Obf io dis malloc_ok buf =
     (if \<not> malloc_ok then [] else encodeToBase64 io (map (\<lambda>i. xor_char (buf ! i) (dis i)) [0..<length buf]) False)"

section \<open>The standard encoding\<close>

text \<open>Base64 as RFC 4648 defines it, which OpenSSL documents for its filter.\<close>

definition b64c :: "nat \<Rightarrow> char" where
  "b64c n = m_b64Chars ! n"

fun rfc_encode :: "bytes \<Rightarrow> bytes" where
  "rfc_encode [] = []"
| "rfc_encode [a] = [b64c (byte_of a div 4), b64c (byte_of a mod 4 * 16), CHR ''='', CHR ''='']"
| "rfc_encode [a, b] =
     [b64c (byte_of a div 4), b64c (byte_of a mod 4 * 16 + byte_of b div 16), b64c (byte_of b mod 16 * 4), CHR ''='']"
| "rfc_encode (a # b # c # r) =
     [b64c (byte_of a div 4), b64c (byte_of a mod 4 * 16 + byte_of b div 16),
      b64c (byte_of b mod 16 * 4 + byte_of c div 64), b64c (byte_of c mod 64)] @ rfc_encode r"

definition bio_rfc :: "bio \<Rightarrow> bool" where
  "bio_rfc io \<longleftrightarrow> (\<forall>x. x \<noteq> [] \<longrightarrow> bio_write io x = Some (rfc_encode x)) \<and> (\<forall>x. bio_read io (rfc_encode x) = Some x)"

lemma b64_table:
  "list_all (\<lambda>n. is_b64 (b64c n) \<and> b64_find (b64c n) = n \<and> b64c n \<noteq> CHR ''_'' \<and> b64c n \<noteq> CHR ''-'' \<and> b64c n \<noteq> CHR ''.'') [0..<64]"
  by code_simp

lemma b64c_facts:
  assumes "n < 64"
  shows "is_b64 (b64c n)" "b64_find (b64c n) = n" "b64c n \<noteq> CHR ''_''" "b64c n \<noteq> CHR ''-''" "b64c n \<noteq> CHR ''.''" "b64c n \<noteq> CHR ''=''"
proof -
  have all: "list_all (\<lambda>n. is_b64 (b64c n) \<and> b64_find (b64c n) = n \<and> b64c n \<noteq> CHR ''_'' \<and> b64c n \<noteq> CHR ''-'' \<and> b64c n \<noteq> CHR ''.'') [0..<64]"
    by (rule b64_table)
  have "n \<in> set [0..<64]" using assms by simp
  with all show "is_b64 (b64c n)" "b64_find (b64c n) = n" "b64c n \<noteq> CHR ''_''" "b64c n \<noteq> CHR ''-''" "b64c n \<noteq> CHR ''.''"
    by (auto simp only: list_all_iff)
  then show "b64c n \<noteq> CHR ''=''" by (auto simp: is_b64_def)
qed

lemma six_bits:
  fixes a b c :: char
  shows "byte_of a div 4 < (64 :: nat)" "byte_of a mod 4 * 16 < (64 :: nat)" "byte_of a mod 4 * 16 + byte_of b div 16 < (64 :: nat)"
    "byte_of b mod 16 * 4 < (64 :: nat)" "byte_of b mod 16 * 4 + byte_of c div 64 < (64 :: nat)" "byte_of c mod 64 < (64 :: nat)"
proof -
  have b: "byte_of b < (256 :: nat)" "byte_of a < (256 :: nat)" "byte_of c < (256 :: nat)" by simp_all
  have m: "byte_of a mod 4 \<le> (3 :: nat)" "byte_of b mod 16 \<le> (15 :: nat)"
    using mod_less_divisor [of 4 "byte_of a :: nat"] mod_less_divisor [of 16 "byte_of b :: nat"] by linarith+
  show "byte_of a div 4 < (64 :: nat)" using b by linarith
  show "byte_of a mod 4 * 16 < (64 :: nat)" using m by linarith
  show "byte_of a mod 4 * 16 + byte_of b div 16 < (64 :: nat)" using m b by linarith
  show "byte_of b mod 16 * 4 < (64 :: nat)" using m by linarith
  show "byte_of b mod 16 * 4 + byte_of c div 64 < (64 :: nat)" using m b by linarith
  show "byte_of c mod 64 < (64 :: nat)" by simp
qed

lemma rfc_chars: "c \<in> set (rfc_encode x) \<Longrightarrow> c = CHR ''='' \<or> (\<exists>n<64. c = b64c n)"
  by (induction x rule: rfc_encode.induct) (auto intro: six_bits)

lemma length_rfc: "length (rfc_encode x) = 4 * ((length x + 2) div 3)"
proof (induction x rule: rfc_encode.induct)
  case (4 a b c r)
  have "(length (a # b # c # r) + 2) div 3 = Suc ((length r + 2) div 3)" by simp
  with 4 show ?case by simp
qed auto

section \<open>The URL alphabet\<close>

definition to_url :: "char \<Rightarrow> char" where
  "to_url c = (if c = CHR ''/'' then CHR ''_'' else if c = CHR ''+'' then CHR ''-'' else c)"

definition of_url :: "char \<Rightarrow> char" where
  "of_url c = (if c = CHR ''_'' then CHR ''/'' else if c = CHR ''-'' then CHR ''+'' else c)"

lemma replace_to_url: "replace_char (CHR ''+'') (CHR ''-'') (replace_char (CHR ''/'') (CHR ''_'') s) = map to_url s"
  by (simp add: replace_char_def to_url_def)

lemma replace_of_url: "replace_char (CHR ''-'') (CHR ''+'') (replace_char (CHR ''_'') (CHR ''/'') s) = map of_url s"
  by (simp add: replace_char_def of_url_def)

lemma to_url_eq [simp]: "to_url c = CHR ''='' \<longleftrightarrow> c = CHR ''=''"
  by (simp add: to_url_def)

lemma to_url_pad [simp]: "to_url (CHR ''='') = CHR ''=''"
  by (simp add: to_url_def)

lemma url_of_rfc: "map of_url (map to_url (rfc_encode x)) = rfc_encode x"
proof -
  have "of_url (to_url c) = c" if "c \<in> set (rfc_encode x)" for c
    using rfc_chars [OF that] b64c_facts(3,4) by (auto simp: of_url_def to_url_def)
  then show ?thesis by (simp add: map_idI)
qed

lemma pad_url_four: "pad_url (a # b # c # d # s) = map_option (\<lambda>p. a # b # c # d # p) (pad_url s)"
  by (simp add: pad_url_def)

lemma pad_url_filter:
  "pad_url (filter (\<lambda>c. c \<noteq> CHR ''='') (map to_url (rfc_encode x))) = Some (map to_url (rfc_encode x))"
proof (induction x rule: rfc_encode.induct)
  case (4 a b c r)
  then show ?case using b64c_facts(6) six_bits by (simp add: pad_url_four)
qed (use b64c_facts(6) six_bits in \<open>simp_all add: pad_url_def\<close>)

lemma bio_size_eq: "n < two64 \<Longrightarrow> bio_size n = (if n < 2147483648 then n else 0)"
  using in_range_17_exact [OF wf_sint_t [of 32] wf_uint_t [of 64], of "int n"]
  by (auto simp: bio_size_def safe_cast_or_def cast_to_id wf_sint_t in_type_def sint_t_def uint_t_def)

section \<open>The obfuscated decoder\<close>

fun obf_mask :: "(nat \<Rightarrow> char) \<Rightarrow> nat \<Rightarrow> bytes \<Rightarrow> bytes" where
  "obf_mask dis k [] = []"
| "obf_mask dis k (x # xs) = xor_char x (dis k) # obf_mask dis (Suc k) xs"

lemma length_mask [simp]: "length (obf_mask dis k xs) = length xs"
  by (induction xs arbitrary: k) auto

lemma obf_mask_append: "obf_mask dis k (xs @ ys) = obf_mask dis k xs @ obf_mask dis (k + length xs) ys"
  by (induction xs arbitrary: k) auto

lemma obf_mask_mask [simp]: "obf_mask dis k (obf_mask dis k xs) = xs"
  by (induction xs arbitrary: k) auto

lemma map_xor_obf: "map (\<lambda>i. xor_char (xs ! i) (dis (k + i))) [0..<length xs] = obf_mask dis k xs"
proof (induction xs arbitrary: k)
  case (Cons x xs)
  have "[0..<length (x # xs)] = 0 # map Suc [0..<length xs]" by (simp add: upt_conv_Cons map_Suc_upt del: upt_Suc)
  then show ?case using Cons.IH [of "Suc k"] by (simp add: comp_def)
qed simp

lemma append_xor_mask: "append_xor dis out ys = out @ obf_mask dis (length out) ys"
  by (induction ys arbitrary: out) (simp_all add: append_xor_def)

lemma cont3_first: "x < 16 \<Longrightarrow> hd (cont3 (byte_of a div 4) (byte_of a mod 4 * 16 + x) c d) = a"
proof -
  assume "x < 16"
  then have "(byte_of a div 4 * 4 + (byte_of a mod 4 * 16 + x) div 16 mod 4) mod 256 = byte_of a"
    by simp
  then show ?thesis by (simp add: cont3_def)
qed

lemma cont3_second: "x < 4 \<Longrightarrow> cont3 e (a * 16 + byte_of b div 16) (byte_of b mod 16 * 4 + x) d ! 1 = b"
proof -
  assume "x < 4"
  have "byte_of b div 16 < (16 :: nat)" using byte_of_less [of b] by linarith
  then have "((a * 16 + byte_of b div 16) mod 16 * 16 + (byte_of b mod 16 * 4 + x) div 4 mod 16) mod 256 = byte_of b"
    using \<open>x < 4\<close> by simp
  then show ?thesis by (simp only: cont3_def nth_Cons_Suc One_nat_def nth_Cons_0 char_of_byte_of)
qed

lemma cont3_third: "cont3 e f (a * 4 + byte_of c div 64) (byte_of c mod 64) ! 2 = c"
proof -
  have "byte_of c div 64 < (4 :: nat)" using byte_of_less [of c] by linarith
  then have "(a * 4 + byte_of c div 64) mod 4 * 64 + byte_of c mod 64 = byte_of c" by simp
  then show ?thesis by (simp add: cont3_def)
qed

lemma div16_less: "byte_of b div 16 < (16 :: nat)" "byte_of b div 64 < (4 :: nat)"
  using byte_of_less [of b] by linarith+

lemma cont3_all:
  "cont3 (byte_of a div 4) (byte_of a mod 4 * 16 + byte_of b div 16) (byte_of b mod 16 * 4 + byte_of c div 64) (byte_of c mod 64) = [a, b, c]"
  "take 2 (cont3 (byte_of a div 4) (byte_of a mod 4 * 16 + byte_of b div 16) (byte_of b mod 16 * 4) d) = [a, b]"
  "take 1 (cont3 (byte_of a div 4) (byte_of a mod 4 * 16) e d) = [a]"
  using cont3_first [of "byte_of b div 16" a] cont3_first [of 0 a] cont3_second [of "byte_of c div 64"] cont3_second [of 0]
    cont3_third div16_less by (simp_all add: cont3_def take_Cons')

lemma decodeObf_rfc: "decodeObf_rest dis (decodeObf_loop dis (rfc_encode x) [] out) = out @ obf_mask dis (length out) x"
proof (induction x arbitrary: out rule: rfc_encode.induct)
  case (2 a)
  show ?case using six_bits b64c_facts(1,2) cont3_all(3) [of a]
    by (simp add: is_b64_def [of "CHR ''=''"] decodeObf_rest_def Let_def append_xor_mask)
next
  case (3 a b)
  show ?case using six_bits b64c_facts(1,2) cont3_all(2) [of a b]
    by (simp add: is_b64_def [of "CHR ''=''"] decodeObf_rest_def Let_def append_xor_mask nth_Cons' numeral_2_eq_2)
next
  case (4 a b c r)
  show ?case using six_bits b64c_facts(1,2) 4 by (simp add: cont3_all append_xor_mask)
qed (simp add: decodeObf_rest_def)

lemma decode_rfc: "decodeFromBase64Obf dis (rfc_encode x) = obf_mask dis 0 x"
  using decodeObf_rfc [of dis x "[]"] by (simp add: decodeFromBase64Obf_def)

section \<open>Properties\<close>

lemma encode_rfc:
  assumes "bio_rfc io" "length x < 2147483648"
  shows "encodeToBase64 io x False = rfc_encode x"
    "encodeToBase64 io x True = filter (\<lambda>c. c \<noteq> CHR ''='') (map to_url (rfc_encode x))"
proof -
  have "(if length x > 0 then case bio_write io (take (length x) x) of Some r \<Rightarrow> r | None \<Rightarrow> [] else []) = rfc_encode x"
    using assms(1) by (cases "x = []") (auto simp: bio_rfc_def)
  moreover have "bio_size (length x) = length x" using assms(2) by (simp add: bio_size_eq)
  ultimately show "encodeToBase64 io x False = rfc_encode x"
      "encodeToBase64 io x True = filter (\<lambda>c. c \<noteq> CHR ''='') (map to_url (rfc_encode x))"
    by (simp_all only: encodeToBase64_def Let_def replace_to_url if_True if_False simp_thms)
qed

lemma encode_too_long: "2147483648 \<le> length x \<Longrightarrow> length x < two64 \<Longrightarrow> encodeToBase64 io x url = []"
  by (simp add: encodeToBase64_def bio_size_eq Let_def replace_char_def)

lemma length_rfc_small: "length x \<le> 1610612733 \<Longrightarrow> length (rfc_encode x) < 2147483648"
  by (simp add: length_rfc)

lemma decode_encode:
  assumes "bio_rfc io" "length x \<le> 1610612733"
  shows "decodeFromBase64 io (encodeToBase64 io x url) url = x"
  using assms length_rfc_small [OF assms(2)] url_of_rfc [of x]
  by (cases url) (simp_all add: decodeFromBase64_def encode_rfc pad_url_filter replace_of_url bio_size_eq bio_rfc_def del: map_map)

lemma encode_url_chars:
  assumes "bio_rfc io" "length x \<le> 1610612733" "c \<in> set (encodeToBase64 io x True)"
  shows "isalnum c \<or> c = CHR ''_'' \<or> c = CHR ''-''"
proof -
  have "isalnum (to_url c) \<or> to_url c = CHR ''_'' \<or> to_url c = CHR ''-''" if "c \<in> set (rfc_encode x)" "c \<noteq> CHR ''=''" for c
    using rfc_chars [OF that(1)] that(2) b64c_facts(1) by (auto simp: is_b64_def to_url_def)
  then show ?thesis using assms by (fastforce simp: encode_rfc)
qed

lemma encode_no_point: "bio_rfc io \<Longrightarrow> length x \<le> 1610612733 \<Longrightarrow> CHR ''.'' \<notin> set (encodeToBase64 io x True)"
  using encode_url_chars [of io x "CHR ''.''"] by (auto simp: cctype_defs)

text \<open>C31: the base64 codecs undo each other, in the plain and in the URL form, as long as the text fits
  an \<open>int\<close>; the URL form has neither padding nor a character that URLs or the points of a token
  use; and the hand-written obfuscated decoder, with its own grouping and its own treatment of the
  last group, reads what the obfuscated encoder writes, whatever the generator draws.\<close>

theorem base64_roundtrip:
  assumes "bio_rfc io" "length x \<le> 1610612733"
  shows "decodeFromBase64 io (encodeToBase64 io x url) url = x \<and>
    (\<forall>c \<in> set (encodeToBase64 io x True). isalnum c \<or> c = CHR ''_'' \<or> c = CHR ''-'') \<and>
    decodeFromBase64Obf dis (encodeToBase64Obf io dis True x) = x"
proof -
  have "\<forall>c \<in> set (encodeToBase64 io x True). isalnum c \<or> c = CHR ''_'' \<or> c = CHR ''-''"
    using encode_url_chars assms by auto
  moreover have "encodeToBase64Obf io dis True x = rfc_encode (obf_mask dis 0 x)"
    using assms map_xor_obf [of x dis 0] by (simp add: encodeToBase64Obf_def encode_rfc)
  ultimately show ?thesis using decode_encode [OF assms] by (simp add: decode_rfc)
qed

text \<open>A filter that encodes as the standard says.\<close>

definition rfc_bio :: bio where
  "rfc_bio = \<lparr>bio_write = (\<lambda>x. Some (rfc_encode x)), bio_read = (\<lambda>s. Some (decodeFromBase64Obf (\<lambda>i. CHR 0x00) s))\<rparr>"

lemma bio_rfc_bio: "bio_rfc rfc_bio"
proof -
  have "obf_mask (\<lambda>i. CHR 0x00) k x = x" for k x by (induction x arbitrary: k) (simp_all add: xor_char_def)
  then show ?thesis by (simp add: bio_rfc_def rfc_bio_def decode_rfc)
qed

theorem base64_roundtrip_witness:
  "decodeFromBase64 rfc_bio (encodeToBase64 rfc_bio ''any>?'' True) True = ''any>?'' \<and>
   decodeFromBase64Obf (\<lambda>i. char_of (i * 7)) (encodeToBase64Obf rfc_bio (\<lambda>i. char_of (i * 7)) True ''fo'') = ''fo''"
  using base64_roundtrip [OF bio_rfc_bio, of "''any>?''" True] base64_roundtrip [OF bio_rfc_bio, of "''fo''" True "\<lambda>i. char_of (i * 7)"] by simp

end
