(* ===== verification/Jwt.thy ===== *)
theory Jwt
  imports Json_Value Base64
begin

text \<open>
  \<open>DataFormat_JWT\<close>: JSON web tokens. \<open>JWT::Token\<close> with its claims, the cache of verified payloads
  (\<open>jwt_cache.cpp\<close>), the revocation list (\<open>jwt_revocation.cpp\<close>) and the verification of a signed token
  (\<open>jwt.cpp\<close>). What comes from OpenSSL and jsoncpp is the record \<open>jwt_env\<close>; the clock and whether OpenSSL could allocate its objects are arguments of each call. The hash and
  key functions are arbitrary: nothing is assumed of them.
\<close>

section \<open>What the code calls\<close>

datatype hash = SHA256 | SHA384 | SHA512

record 'k jwt_env =
  base64_bio :: bio
  parse_json :: "string \<Rightarrow> bool \<times> json"
  write_json :: "json \<Rightarrow> string"
  hmac :: "hash \<Rightarrow> string \<Rightarrow> string \<Rightarrow> string"
  read_public :: "string \<Rightarrow> 'k option"
  read_private :: "string \<Rightarrow> 'k option"
  digest_verify :: "hash \<Rightarrow> 'k \<Rightarrow> string \<Rightarrow> string \<Rightarrow> bool"
  digest_sign :: "hash \<Rightarrow> 'k \<Rightarrow> string \<Rightarrow> string option"

abbreviation b64_dec :: "'k jwt_env \<Rightarrow> string \<Rightarrow> string" where
  "b64_dec env s \<equiv> decodeFromBase64 (base64_bio env) s True"

abbreviation b64_enc :: "'k jwt_env \<Rightarrow> string \<Rightarrow> string" where
  "b64_enc env s \<equiv> encodeToBase64 (base64_bio env) s True"

record call =
  now :: int
  bio_ok :: bool
  mdctx_ok :: bool

datatype jwt_exn = Json_logic_error | Front_of_empty_queue

section \<open>Token\<close>

record token =
  m_claims :: json
  m_signatureVerified :: bool
  m_revoked :: bool

definition empty_token :: token where
  "empty_token = \<lparr>m_claims = JNull, m_signatureVerified = False, m_revoked = False\<rparr>"

definition decodePayload :: "'k jwt_env \<Rightarrow> token \<Rightarrow> string \<Rightarrow> bool \<times> token" where
  "decodePayload env t payload = (case parse_json env payload of (ok, root) \<Rightarrow> (ok, t\<lparr>m_claims := root\<rparr>))"

definition getExpirationTime :: "token \<Rightarrow> int" where
  "getExpirationTime t = ASINT64 (m_claims t) ''exp'' 9223372036854775807"

definition getNotBefore :: "token \<Rightarrow> int" where
  "getNotBefore t = ASINT64 (m_claims t) ''nbf'' 0"

definition getSubject :: "token \<Rightarrow> string" where
  "getSubject t = ASSTRING (m_claims t) ''sub'' []"

definition getDomain :: "token \<Rightarrow> string" where
  "getDomain t = ASSTRING (m_claims t) ''domain'' []"

definition getImpersonator :: "token \<Rightarrow> string" where
  "getImpersonator t = ASSTRING (m_claims t) ''impersonator'' []"

text \<open>The roles and the scopes of a token: the strings of the claim, when it is an array.\<close>

definition getAllRoles :: "token \<Rightarrow> string set option" where
  "getAllRoles t = (case isMember (m_claims t) ''roles'' of
     None \<Rightarrow> None
   | Some False \<Rightarrow> Some {}
   | Some True \<Rightarrow> Some (if isArray (member (m_claims t) ''roles'')
                          then (\<lambda>v. ASSTRING_D v []) ` set (elements (member (m_claims t) ''roles'')) else {}))"

definition hasRole :: "token \<Rightarrow> string \<Rightarrow> bool option" where
  "hasRole t roleId = (case isMember (m_claims t) ''roles'' of
     None \<Rightarrow> None
   | Some False \<Rightarrow> Some False
   | Some True \<Rightarrow> Some (isArray (member (m_claims t) ''roles'') \<and>
                          list_ex (\<lambda>v. ASSTRING_D v [] = roleId) (elements (member (m_claims t) ''roles''))))"

definition getAllScopes :: "token \<Rightarrow> string set option" where
  "getAllScopes t = (case isMember (m_claims t) ''scopes'' of
     None \<Rightarrow> None
   | Some False \<Rightarrow> Some {}
   | Some True \<Rightarrow> Some (if isArray (member (m_claims t) ''scopes'')
                          then (\<lambda>v. ASSTRING_D v []) ` set (elements (member (m_claims t) ''scopes'')) else {}))"

definition hasScope :: "token \<Rightarrow> string \<Rightarrow> bool option" where
  "hasScope t scopeId = (case isMember (m_claims t) ''scopes'' of
     None \<Rightarrow> None
   | Some False \<Rightarrow> Some False
   | Some True \<Rightarrow> Some (isArray (member (m_claims t) ''scopes'') \<and>
                          list_ex (\<lambda>v. ASSTRING_D v [] = scopeId) (elements (member (m_claims t) ''scopes''))))"

definition isAdmin :: "token \<Rightarrow> bool option" where
  "isAdmin t = (case isMember (m_claims t) ''isAdmin'' of
     None \<Rightarrow> None
   | Some False \<Rightarrow> Some False
   | Some True \<Rightarrow> Some (ASBOOL_D (member (m_claims t) ''isAdmin'') False))"

definition isValid :: "int \<Rightarrow> token \<Rightarrow> bool option" where
  "isValid currentTime t =
     (case isMember (m_claims t) ''exp'' of
        None \<Rightarrow> None
      | Some e \<Rightarrow>
          if e \<and> currentTime \<ge> getExpirationTime t then Some False
          else (case isMember (m_claims t) ''nbf'' of
                  None \<Rightarrow> None
                | Some n \<Rightarrow>
                    if n \<and> currentTime < getNotBefore t then Some False
                    else Some (m_signatureVerified t \<and> \<not> m_revoked t)))"

section \<open>The cache of verified payloads\<close>

record jwt_cache =
  m_cacheMaxByteCount :: nat
  m_cacheCurrentByteCount :: nat
  m_enabled :: bool
  m_tokenCache :: "string set"
  m_cacheQueue :: "string list"

definition cache_init :: jwt_cache where
  "cache_init = \<lparr>m_cacheMaxByteCount = 0, m_cacheCurrentByteCount = 0, m_enabled = False, m_tokenCache = {}, m_cacheQueue = []\<rparr>"

fun evict_loop :: "nat \<Rightarrow> nat \<Rightarrow> string list \<Rightarrow> string set \<Rightarrow> jwt_exn + (nat \<times> string list \<times> string set)" where
  "evict_loop mx count [] cache = (if count > mx then Inl Front_of_empty_queue else Inr (count, [], cache))"
| "evict_loop mx count (evictedToken # queue) cache =
     (if count > mx then evict_loop mx (sub64 count (length evictedToken)) queue (cache - {evictedToken})
      else Inr (count, evictedToken # queue, cache))"

definition evictCache :: "jwt_cache \<Rightarrow> jwt_exn + jwt_cache" where
  "evictCache c =
     (case evict_loop (m_cacheMaxByteCount c) (m_cacheCurrentByteCount c) (m_cacheQueue c) (m_tokenCache c) of
        Inl e \<Rightarrow> Inl e
      | Inr (count, queue, cache) \<Rightarrow>
          Inr (c\<lparr>m_cacheCurrentByteCount := count, m_cacheQueue := queue, m_tokenCache := cache\<rparr>))"

definition setCacheMaxByteCount :: "jwt_cache \<Rightarrow> nat \<Rightarrow> jwt_exn + jwt_cache" where
  "setCacheMaxByteCount c maxByteCount = evictCache (c\<lparr>m_cacheMaxByteCount := maxByteCount\<rparr>)"

definition cache_clear :: "jwt_cache \<Rightarrow> jwt_cache" where
  "cache_clear c = c\<lparr>m_cacheQueue := [], m_tokenCache := {}\<rparr>"

definition setEnabled :: "jwt_cache \<Rightarrow> bool \<Rightarrow> jwt_cache" where
  "setEnabled c newEnabled =
     (let c1 = (if \<not> newEnabled then c\<lparr>m_cacheQueue := [], m_tokenCache := {}\<rparr> else c) in c1\<lparr>m_enabled := newEnabled\<rparr>)"

definition checkToken :: "jwt_cache \<Rightarrow> string \<Rightarrow> bool" where
  "checkToken c payload = (if \<not> m_enabled c then False else payload \<in> m_tokenCache c)"

definition cache_add :: "jwt_cache \<Rightarrow> string \<Rightarrow> jwt_exn + jwt_cache" where
  "cache_add c payload =
     (if \<not> m_enabled c then Inr c
      else evictCache (c\<lparr>m_cacheQueue := m_cacheQueue c @ [payload], m_tokenCache := insert payload (m_tokenCache c),
                         m_cacheCurrentByteCount := add64 (m_cacheCurrentByteCount c) (length payload)\<rparr>))"

section \<open>The revocation list\<close>

text \<open>The multimap from expiration times to signatures is the list of its pairs.\<close>

record revocation =
  m_expirationSignatures :: "(int \<times> string) list"
  m_revokedTokens :: "string set"

definition addToRevocationList :: "revocation \<Rightarrow> string \<Rightarrow> int \<Rightarrow> revocation" where
  "addToRevocationList r signature expirationTime =
     r\<lparr>m_expirationSignatures := m_expirationSignatures r @ [(expirationTime, signature)],
       m_revokedTokens := insert signature (m_revokedTokens r)\<rparr>"

definition isSignatureRevoked :: "revocation \<Rightarrow> string \<Rightarrow> bool" where
  "isSignatureRevoked r signature \<longleftrightarrow> signature \<in> m_revokedTokens r"

definition removeExpiredTokensFromRevocationList :: "int \<Rightarrow> revocation \<Rightarrow> revocation" where
  "removeExpiredTokensFromRevocationList t r =
     (let expired = filter (\<lambda>(e, s). e \<le> t) (m_expirationSignatures r) in
      r\<lparr>m_revokedTokens := fold (\<lambda>(e, s) rv. rv - {s}) expired (m_revokedTokens r),
        m_expirationSignatures := filter (\<lambda>(e, s). \<not> e \<le> t) (m_expirationSignatures r)\<rparr>)"

section \<open>JWT\<close>

datatype algorithm = HS256 | HS384 | HS512 | RS256 | RS384 | RS512

record jwt =
  m_algorithm :: algorithm
  m_sharedSecret :: string
  m_publicSecret :: string
  m_privateSecret :: string
  m_cache :: jwt_cache
  m_revocation :: revocation
  verificationCallback :: "(string \<Rightarrow> bool) option"

definition jwt_new :: "algorithm \<Rightarrow> jwt" where
  "jwt_new a = \<lparr>m_algorithm = a, m_sharedSecret = [], m_publicSecret = [], m_privateSecret = [], m_cache = cache_init,
     m_revocation = \<lparr>m_expirationSignatures = [], m_revokedTokens = {}\<rparr>, verificationCallback = None\<rparr>"

definition isUsingHMAC :: "algorithm \<Rightarrow> bool" where
  "isUsingHMAC a \<longleftrightarrow> a \<in> {HS256, HS384, HS512}"

definition usingRSA :: "algorithm \<Rightarrow> bool" where
  "usingRSA a \<longleftrightarrow> a \<in> {RS256, RS384, RS512}"

fun getHashTypeNumber :: "algorithm \<Rightarrow> hash" where
  "getHashTypeNumber HS256 = SHA256" | "getHashTypeNumber HS384 = SHA384" | "getHashTypeNumber HS512 = SHA512"
| "getHashTypeNumber RS256 = SHA256" | "getHashTypeNumber RS384 = SHA384" | "getHashTypeNumber RS512 = SHA512"

definition isHMACAlgorithm :: "string \<Rightarrow> bool" where
  "isHMACAlgorithm a \<longleftrightarrow> a \<in> {''HS256'', ''HS384'', ''HS512''}"

definition isRSAAlgorithm :: "string \<Rightarrow> bool" where
  "isRSAAlgorithm a \<longleftrightarrow> a \<in> {''RS256'', ''RS384'', ''RS512''}"

definition isAlgorithmSupported :: "string \<Rightarrow> bool" where
  "isAlgorithmSupported a \<longleftrightarrow> a \<in> {''HS256'', ''RS256'', ''HS384'', ''RS384'', ''HS512'', ''RS512''}"

definition setPublicSecret :: "jwt \<Rightarrow> string \<Rightarrow> jwt" where
  "setPublicSecret j s = j\<lparr>m_publicSecret := s, m_cache := cache_clear (m_cache j)\<rparr>"

definition setSharedSecret :: "jwt \<Rightarrow> string \<Rightarrow> jwt" where
  "setSharedSecret j s = j\<lparr>m_sharedSecret := s, m_cache := cache_clear (m_cache j)\<rparr>"

definition setPrivateSecret :: "jwt \<Rightarrow> string \<Rightarrow> jwt" where
  "setPrivateSecret j s = j\<lparr>m_privateSecret := s\<rparr>"

datatype sig_result = SUCCESS | EMPTY_KEY | ERROR_CREATING_SIGNATURE | ERROR_CREATING_RSA_OBJECT | ERROR_READING_KEY | ERROR_UNKNOWN

definition createHMACSignature :: "'k jwt_env \<Rightarrow> jwt \<Rightarrow> hash \<Rightarrow> string \<Rightarrow> sig_result \<times> string" where
  "createHMACSignature env j h data =
     (if m_sharedSecret j \<noteq> [] then (SUCCESS, hmac env h (m_sharedSecret j) data) else (EMPTY_KEY, []))"

definition createRSASignature :: "'k jwt_env \<Rightarrow> call \<Rightarrow> jwt \<Rightarrow> hash \<Rightarrow> string \<Rightarrow> sig_result \<times> string" where
  "createRSASignature env c j h data =
     (if bio_ok c then
        (case read_private env (m_privateSecret j) of
           Some pkey \<Rightarrow>
             if mdctx_ok c then
               (case digest_sign env h pkey data of
                  Some digest \<Rightarrow> if digest \<noteq> [] then (SUCCESS, digest) else (ERROR_CREATING_SIGNATURE, [])
                | None \<Rightarrow> (ERROR_CREATING_SIGNATURE, []))
             else (ERROR_CREATING_SIGNATURE, [])
         | None \<Rightarrow> (ERROR_READING_KEY, []))
      else (SUCCESS, []))"

definition createSignature :: "'k jwt_env \<Rightarrow> call \<Rightarrow> jwt \<Rightarrow> string \<Rightarrow> sig_result \<times> string" where
  "createSignature env c j data =
     (if isUsingHMAC (m_algorithm j) then createHMACSignature env j (getHashTypeNumber (m_algorithm j)) data
      else createRSASignature env c j (getHashTypeNumber (m_algorithm j)) data)"

definition validateRSASignature :: "'k jwt_env \<Rightarrow> call \<Rightarrow> jwt \<Rightarrow> hash \<Rightarrow> string \<Rightarrow> string \<Rightarrow> int" where
  "validateRSASignature env c j h data signature =
     (if bio_ok c then
        (case read_public env (m_publicSecret j) of
           Some pkey \<Rightarrow> if mdctx_ok c then (if digest_verify env h pkey data signature then 0 else - 1) else 0
         | None \<Rightarrow> - 3)
      else 0)"

text \<open>The token is cut at its first and its last point.\<close>

definition split_token :: "string \<Rightarrow> (string \<times> string \<times> string) option" where
  "split_token s =
     (case find_sub ''.'' s of
        None \<Rightarrow> None
      | Some pos_header \<Rightarrow>
          (case find_sub ''.'' (rev s) of
             None \<Rightarrow> None
           | Some r \<Rightarrow>
               let pos_payload = length s - 1 - r in
               if pos_header \<ge> pos_payload then None
               else Some (take pos_header s, take (pos_payload - pos_header - 1) (drop (pos_header + 1) s), drop (pos_payload + 1) s)))"

text \<open>The signature check of \<open>verify\<close>: \<open>None\<close> where the code returns at once.\<close>

definition check_signature :: "'k jwt_env \<Rightarrow> call \<Rightarrow> jwt \<Rightarrow> string \<Rightarrow> string \<Rightarrow> string \<Rightarrow> bool option" where
  "check_signature env c j header_b64 payload_b64 signature_str =
     (case parse_json env (b64_dec env header_b64) of
        (ok, header_json) \<Rightarrow>
          let incomingAlgorithm = ASSTRING header_json ''alg'' [] in
          if \<not> ok then None
          else if \<not> isAlgorithmSupported incomingAlgorithm then None
          else if isHMACAlgorithm incomingAlgorithm then
            (case createSignature env c j (header_b64 @ ''.'' @ payload_b64) of
               (res, digest) \<Rightarrow>
                 if res \<noteq> SUCCESS then None
                 else Some (length digest > 0 \<and> length digest = length signature_str \<and> digest = signature_str))
          else if isRSAAlgorithm incomingAlgorithm then
            Some (validateRSASignature env c j (getHashTypeNumber (m_algorithm j)) (header_b64 @ ''.'' @ payload_b64) signature_str = 0)
          else Some False)"

definition finish :: "call \<Rightarrow> jwt \<Rightarrow> token \<Rightarrow> jwt_exn + (bool \<times> jwt \<times> token)" where
  "finish c j t = (case isValid (now c) t of None \<Rightarrow> Inl Json_logic_error | Some b \<Rightarrow> Inr (b, j, t))"

definition verify :: "'k jwt_env \<Rightarrow> call \<Rightarrow> jwt \<Rightarrow> string \<Rightarrow> token \<Rightarrow> jwt_exn + (bool \<times> jwt \<times> token)" where
  "verify env c j fullSignedToken t =
     (case split_token fullSignedToken of
        None \<Rightarrow> Inr (False, j, t)
      | Some (header_b64, payload_b64, signature_b64) \<Rightarrow>
          let payload_str = b64_dec env payload_b64;
              signature_str = b64_dec env signature_b64;
              decoded = snd (decodePayload env t payload_str) in
          case verificationCallback j of
            Some callback \<Rightarrow>
              if callback fullSignedToken then finish c j (decoded\<lparr>m_signatureVerified := True\<rparr>) else Inr (False, j, t)
          | None \<Rightarrow>
              if checkToken (m_cache j) payload_str then finish c j (decoded\<lparr>m_signatureVerified := True\<rparr>)
              else (case check_signature env c j header_b64 payload_b64 signature_str of
                      None \<Rightarrow> Inr (False, j, t)
                    | Some ok \<Rightarrow>
                        (let t1 = (if ok then decoded else t);
                             t2 = t1\<lparr>m_signatureVerified := ok, m_revoked := isSignatureRevoked (m_revocation j) signature_str\<rparr> in
                         if ok then (case cache_add (m_cache j) payload_str of
                                       Inl e \<Rightarrow> Inl e
                                     | Inr cache \<Rightarrow> finish c (j\<lparr>m_cache := cache\<rparr>) t2)
                         else finish c j t2)))"

definition verifyAndDecodeTokenPayload :: "'k jwt_env \<Rightarrow> call \<Rightarrow> jwt \<Rightarrow> string \<Rightarrow> jwt_exn + (token \<times> jwt)" where
  "verifyAndDecodeTokenPayload env c j fullSignedToken =
     (case verify env c j fullSignedToken empty_token of
        Inl e \<Rightarrow> Inl e
      | Inr (ok, j', r) \<Rightarrow> Inr (if ok then r else empty_token, j'))"

definition decodeNoVerify :: "'k jwt_env \<Rightarrow> string \<Rightarrow> token \<Rightarrow> bool \<times> token" where
  "decodeNoVerify env fullSignedToken t =
     (case split_token fullSignedToken of
        None \<Rightarrow> (False, t)
      | Some (header_b64, payload_b64, signature_b64) \<Rightarrow> decodePayload env t (b64_dec env payload_b64))"

fun alg_name :: "algorithm \<Rightarrow> string" where
  "alg_name HS256 = ''HS256''" | "alg_name HS384 = ''HS384''" | "alg_name HS512 = ''HS512''"
| "alg_name RS256 = ''RS256''" | "alg_name RS384 = ''RS384''" | "alg_name RS512 = ''RS512''"

definition token_header :: "jwt \<Rightarrow> json" where
  "token_header j = JObject [(''alg'', JString (alg_name (m_algorithm j))), (''typ'', JString ''JWT'')]"

definition createHeader :: "'k jwt_env \<Rightarrow> jwt \<Rightarrow> string" where
  "createHeader env j = b64_enc env (write_json env (token_header j))"

definition sign :: "'k jwt_env \<Rightarrow> call \<Rightarrow> jwt \<Rightarrow> json \<Rightarrow> string" where
  "sign env c j payload =
     (let payload_b64 = b64_enc env (write_json env payload);
          header_str = createHeader env j in
      case createSignature env c j (header_str @ ''.'' @ payload_b64) of
        (res, digest) \<Rightarrow> header_str @ ''.'' @ payload_b64 @ ''.'' @ (if res = SUCCESS then b64_enc env digest else []))"

end
