(* ===== verification/Access_Control.thy ===== *)
theory Access_Control
  imports Jwt
begin

text \<open>
  Who may call what: \<open>API_EndpointsAndSessions\<close> and \<open>Server_WebCore/resourcesfilter.cpp\<close>. The
  requirements of monolithic endpoints (\<open>endpoints_requirements_map.cpp\<close>,
  \<open>api_monolith_endpoints.cpp\<close>), the RESTful endpoints with their security configuration
  (\<open>api_restful_endpoints.cpp\<close>, \<open>security.h\<close>), the check of WebSocket endpoints
  (\<open>api_websocket_endpoints.cpp\<close>), the filter of static resources, and the answer to a CORS preflight
  (\<open>api_options_handler.cpp\<close>). A session is seen through its token. The endpoint functions and the
  regular expressions are arguments.
\<close>

section \<open>Answers of the API\<close>

record api_return =
  httpResponseCode :: nat
  body :: json
  httpExtraHeaders :: "(string \<times> string) list"

definition APIReturn_new :: api_return where
  "APIReturn_new = \<lparr>httpResponseCode = 200, body = JNull, httpExtraHeaders = []\<rparr>"

text \<open>\<open>value[key] = v\<close> of jsoncpp: a null value becomes an object.\<close>

fun set_member :: "json \<Rightarrow> string \<Rightarrow> json \<Rightarrow> json option" where
  "set_member JNull k v = Some (JObject [(k, v)])"
| "set_member (JObject m) k v = Some (JObject (if map_of m k = None then m @ [(k, v)] else map (\<lambda>(a, b). if a = k then (a, v) else (a, b)) m))"
| "set_member _ k v = None"

definition setError :: "api_return \<Rightarrow> nat \<Rightarrow> string \<Rightarrow> string \<Rightarrow> api_return option" where
  "setError r code error message =
     (case set_member (body r) ''error'' (JString error) of
        None \<Rightarrow> None
      | Some b \<Rightarrow> map_option (\<lambda>b'. r\<lparr>httpResponseCode := code, body := b'\<rparr>) (set_member b ''message'' (JString message)))"

definition setReasons :: "api_return \<Rightarrow> json \<Rightarrow> api_return option" where
  "setReasons r reasons = map_option (\<lambda>b. r\<lparr>body := b\<rparr>) (set_member (body r) ''reasons'' reasons)"

definition addHeader :: "api_return \<Rightarrow> string \<Rightarrow> string \<Rightarrow> api_return" where
  "addHeader r n v = r\<lparr>httpExtraHeaders := filter (\<lambda>(k, _). k \<noteq> n) (httpExtraHeaders r) @ [(n, v)]\<rparr>"

definition hasError :: "api_return \<Rightarrow> bool" where
  "hasError r \<longleftrightarrow> httpResponseCode r < 200 \<or> httpResponseCode r > 299"

section \<open>Methods and security\<close>

datatype http_method = GET | POST | PUT | DELETE | PATCH | UNKNOWN

fun MethodToString :: "http_method \<Rightarrow> string" where
  "MethodToString GET = ''GET''" | "MethodToString POST = ''POST''" | "MethodToString PUT = ''PUT''"
| "MethodToString DELETE = ''DELETE''" | "MethodToString PATCH = ''PATCH''" | "MethodToString UNKNOWN = ''POST''"

definition stringToMethod :: "string \<Rightarrow> http_method" where
  "stringToMethod str =
     (if str = ''GET'' then GET else if str = ''PUT'' then PUT else if str = ''DELETE'' then DELETE
      else if str = ''PATCH'' then PATCH else if str = ''POST'' then POST else UNKNOWN)"

record received_auth =
  hasVerifiedJWTAuthorizationHeader :: bool
  hasVerifiedJWTAccessTokenCookie :: bool

record security_config =
  requireJWTHeaderAuthentication :: bool
  requireJWTCookieAuthentication :: bool
  requiredScopes :: "string list"

definition Configuration_set :: "8 word \<Rightarrow> string list \<Rightarrow> security_config" where
  "Configuration_set requirements scopes =
     \<lparr>requireJWTHeaderAuthentication = (and requirements 1 \<noteq> 0), requireJWTCookieAuthentication = (and requirements 2 \<noteq> 0),
      requiredScopes = scopes\<rparr>"

section \<open>Requirements of monolithic endpoints\<close>

text \<open>The two multimaps are lists of pairs.\<close>

record requirements_map =
  m_endpointRequiredScopes :: "(string \<times> string) list"
  m_endpointRequiredRoles :: "(string \<times> string) list"

definition addEndpointRequiredScopes :: "requirements_map \<Rightarrow> string \<Rightarrow> string list \<Rightarrow> requirements_map" where
  "addEndpointRequiredScopes r n scopes =
     r\<lparr>m_endpointRequiredScopes := m_endpointRequiredScopes r @ map (\<lambda>s. (n, s)) scopes\<rparr>"

definition addEndpointRequiredRoles :: "requirements_map \<Rightarrow> string \<Rightarrow> string list \<Rightarrow> requirements_map" where
  "addEndpointRequiredRoles r n roles =
     r\<lparr>m_endpointRequiredRoles := m_endpointRequiredRoles r @ map (\<lambda>s. (n, s)) roles\<rparr>"

definition getEndpointRequiredScopes :: "requirements_map \<Rightarrow> string \<Rightarrow> string set" where
  "getEndpointRequiredScopes r n = set (map snd (filter (\<lambda>(k, _). k = n) (m_endpointRequiredScopes r)))"

definition getEndpointRequiredRoles :: "requirements_map \<Rightarrow> string \<Rightarrow> string set" where
  "getEndpointRequiredRoles r n = set (map snd (filter (\<lambda>(k, _). k = n) (m_endpointRequiredRoles r)))"

text \<open>The assignment \<open>rolesLeft = rolesLeft\<close> and the removal of roles from the scopes are as in the source.\<close>

definition validateEndpoint ::
  "requirements_map \<Rightarrow> token option \<Rightarrow> string \<Rightarrow> string set \<Rightarrow> string set \<Rightarrow> (bool \<times> string set \<times> string set) option" where
  "validateEndpoint r session n rolesLeft scopesLeft =
     (case session of
        None \<Rightarrow> Some (False, rolesLeft, scopesLeft)
      | Some t \<Rightarrow>
          (case (isAdmin t, getAllRoles t) of
             (Some admin, Some authedRoles) \<Rightarrow>
               if admin then Some (True, {}, {})
               else (let requiredRoles = getEndpointRequiredRoles r n;
                         requiredScopes = getEndpointRequiredScopes r n;
                         scopesLeft1 = requiredScopes - Set.filter (\<lambda>s. hasScope t s = Some True) requiredScopes;
                         scopesLeft2 = scopesLeft1 - Set.filter (\<lambda>s. hasRole t s = Some True) requiredRoles in
                     Some (rolesLeft = {} \<and> scopesLeft2 = {}, rolesLeft, scopesLeft2))
           | _ \<Rightarrow> None))"

section \<open>Monolithic endpoints\<close>

datatype validation_result = Valid | Endpoint_not_found | Not_authorized

record 'f monolith_endpoints =
  m_endpoints :: "(string \<times> 'f) list"
  m_endpointRequireActiveSession :: "string \<Rightarrow> bool"
  m_endpointUpdateSessionLastActivityOnUsage :: "string \<Rightarrow> bool"
  m_endpointsScopes :: requirements_map

record 'f endpoint_definition =
  endpointFunction :: 'f
  endpointName :: string
  reqScopes :: "string list"
  reqRoles :: "string list"
  doUsageUpdateLastSessionActivity :: bool
  isActiveSessionRequired :: bool

definition Monolith_new :: "'f monolith_endpoints" where
  "Monolith_new = \<lparr>m_endpoints = [], m_endpointRequireActiveSession = (\<lambda>_. False), m_endpointUpdateSessionLastActivityOnUsage = (\<lambda>_. False),
     m_endpointsScopes = \<lparr>m_endpointRequiredScopes = [], m_endpointRequiredRoles = []\<rparr>\<rparr>"

definition Monolith_addEndpoint :: "'f monolith_endpoints \<Rightarrow> 'f endpoint_definition \<Rightarrow> bool \<times> 'f monolith_endpoints" where
  "Monolith_addEndpoint e d =
     (if map_of (m_endpoints e) (endpointName d) = None then
        (True, e\<lparr>m_endpoints := (endpointName d, endpointFunction d) # m_endpoints e,
                 m_endpointsScopes := addEndpointRequiredRoles (addEndpointRequiredScopes (m_endpointsScopes e) (endpointName d) (reqScopes d)) (endpointName d) (reqRoles d),
                 m_endpointRequireActiveSession := (m_endpointRequireActiveSession e)(endpointName d := isActiveSessionRequired d),
                 m_endpointUpdateSessionLastActivityOnUsage :=
                   (m_endpointUpdateSessionLastActivityOnUsage e)(endpointName d := doUsageUpdateLastSessionActivity d)\<rparr>)
      else (False, e))"

definition doesAPIEndpointRequireActiveSession :: "'f monolith_endpoints \<Rightarrow> string \<Rightarrow> bool" where
  "doesAPIEndpointRequireActiveSession e n = m_endpointRequireActiveSession e n"

text \<open>With the reasons of a refusal: the roles and the scopes that are left.\<close>

definition validateEndpointRequirements ::
  "'f monolith_endpoints \<Rightarrow> token option \<Rightarrow> string \<Rightarrow> (validation_result \<times> string set \<times> string set) option" where
  "validateEndpointRequirements e session n =
     (if map_of (m_endpoints e) n = None then Some (Endpoint_not_found, {}, {})
      else if m_endpointRequireActiveSession e n \<and> session = None then Some (Not_authorized, {}, {})
      else (case validateEndpoint (m_endpointsScopes e) session n {} {} of
              None \<Rightarrow> None
            | Some (ok, rolesLeft, scopesLeft) \<Rightarrow> if ok then Some (Valid, {}, {}) else Some (Not_authorized, rolesLeft, scopesLeft)))"

section \<open>RESTful endpoints\<close>

datatype handle_result = H_SUCCESS | INVALID_METHOD_MODE | RESOURCE_NOT_FOUND | AUTHENTICATION_REQUIRED | INVALID_SCOPE | INTERNAL_ERROR

record 'f rest_endpoint =
  endpointDefinition :: "'f option"
  security :: security_config

record 'f rest_endpoints =
  m_endpointsPATCH :: "string \<rightharpoonup> 'f rest_endpoint"
  m_endpointsGET :: "string \<rightharpoonup> 'f rest_endpoint"
  m_endpointsPOST :: "string \<rightharpoonup> 'f rest_endpoint"
  m_endpointsPUT :: "string \<rightharpoonup> 'f rest_endpoint"
  m_endpointsDELETE :: "string \<rightharpoonup> 'f rest_endpoint"

definition Rest_new :: "'f rest_endpoints" where
  "Rest_new = \<lparr>m_endpointsPATCH = Map.empty, m_endpointsGET = Map.empty, m_endpointsPOST = Map.empty, m_endpointsPUT = Map.empty, m_endpointsDELETE = Map.empty\<rparr>"

fun Rest_addEndpoint :: "'f rest_endpoints \<Rightarrow> http_method \<Rightarrow> string \<Rightarrow> 'f rest_endpoint \<Rightarrow> bool \<times> 'f rest_endpoints" where
  "Rest_addEndpoint e GET path d = (True, e\<lparr>m_endpointsGET := (m_endpointsGET e)(path \<mapsto> d)\<rparr>)"
| "Rest_addEndpoint e POST path d = (True, e\<lparr>m_endpointsPOST := (m_endpointsPOST e)(path \<mapsto> d)\<rparr>)"
| "Rest_addEndpoint e PUT path d = (True, e\<lparr>m_endpointsPUT := (m_endpointsPUT e)(path \<mapsto> d)\<rparr>)"
| "Rest_addEndpoint e DELETE path d = (True, e\<lparr>m_endpointsDELETE := (m_endpointsDELETE e)(path \<mapsto> d)\<rparr>)"
| "Rest_addEndpoint e PATCH path d = (True, e\<lparr>m_endpointsPATCH := (m_endpointsPATCH e)(path \<mapsto> d)\<rparr>)"
| "Rest_addEndpoint e UNKNOWN path d = (False, e)"

definition Rest_addEndpoint_set :: "'f rest_endpoints \<Rightarrow> http_method \<Rightarrow> string \<Rightarrow> 8 word \<Rightarrow> string list \<Rightarrow> 'f option \<Rightarrow> bool \<times> 'f rest_endpoints" where
  "Rest_addEndpoint_set e m path requirements scopes f =
     Rest_addEndpoint e m path \<lparr>endpointDefinition = f, security = Configuration_set requirements scopes\<rparr>"

text \<open>The lookup of the method; a default definition has no function.\<close>

fun find_endpoint :: "'f rest_endpoints \<Rightarrow> http_method \<Rightarrow> string \<Rightarrow> 'f rest_endpoint option option" where
  "find_endpoint e GET path = Some (m_endpointsGET e path)"
| "find_endpoint e POST path = Some (m_endpointsPOST e path)"
| "find_endpoint e PUT path = Some (m_endpointsPUT e path)"
| "find_endpoint e DELETE path = Some (m_endpointsDELETE e path)"
| "find_endpoint e PATCH path = Some (m_endpointsPATCH e path)"
| "find_endpoint e UNKNOWN path = None"

text \<open>What \<open>handleEndpoint\<close> reads of the request: the parsed JSON content if there is any, the method of
  the request line, the raw GET variables, and whether the content was declared as JSON. An
  endpoint function is given the input and the token and returns the answer.\<close>

record rest_input =
  getJSONStreamerContent :: "json option"
  getHTTPMethod :: string
  getRequestGETVarsRawString :: string
  content_is_json :: bool

type_synonym rest_function = "json \<Rightarrow> token \<Rightarrow> api_return"

definition fail_with :: "handle_result \<Rightarrow> api_return \<Rightarrow> nat \<Rightarrow> string \<Rightarrow> jwt_exn + handle_result \<times> api_return" where
  "fail_with res r code message =
     (case setError r code ''invalid_invokation'' message of None \<Rightarrow> Inl Json_logic_error | Some r' \<Rightarrow> Inr (res, r'))"

definition run_endpoint :: "rest_function \<Rightarrow> rest_input \<Rightarrow> token \<Rightarrow> api_return \<Rightarrow> jwt_exn + handle_result \<times> api_return" where
  "run_endpoint f i t r =
     (case getJSONStreamerContent i of
        Some v \<Rightarrow> Inr (H_SUCCESS, f v t)
      | None \<Rightarrow>
          if getHTTPMethod i = ''GET'' then
            (if getRequestGETVarsRawString i \<noteq> [] then fail_with INTERNAL_ERROR r 400 ''Bad Input JSON Parsing during GET''
             else Inr (H_SUCCESS, f JNull t))
          else if content_is_json i then fail_with INTERNAL_ERROR r 400 ''Bad Input JSON Parsing during POST''
          else Inr (H_SUCCESS, f JNull t))"

definition handleEndpoint ::
  "rest_function rest_endpoints \<Rightarrow> http_method \<Rightarrow> string \<Rightarrow> rest_input \<Rightarrow> token \<Rightarrow> string set \<Rightarrow> bool \<Rightarrow> received_auth \<Rightarrow> api_return
     \<Rightarrow> jwt_exn + handle_result \<times> api_return" where
  "handleEndpoint e m path i t currentScopes admin auth r =
     (case find_endpoint e m path of
        None \<Rightarrow> fail_with INVALID_METHOD_MODE r 400 ''Invalid Method Mode''
      | Some None \<Rightarrow> fail_with RESOURCE_NOT_FOUND r 404 ''Resource not found''
      | Some (Some d) \<Rightarrow>
          (case endpointDefinition d of
             None \<Rightarrow> fail_with RESOURCE_NOT_FOUND r 404 ''Resource not found''
           | Some f \<Rightarrow>
               if requireJWTHeaderAuthentication (security d) \<and> \<not> hasVerifiedJWTAuthorizationHeader auth
               then fail_with AUTHENTICATION_REQUIRED r 403 ''JWT Authentication Header Required''
               else if requireJWTCookieAuthentication (security d) \<and> \<not> hasVerifiedJWTAccessTokenCookie auth
               then fail_with AUTHENTICATION_REQUIRED r 403 ''JWT Authentication Cookie Required''
               else if \<not> admin \<and> list_ex (\<lambda>attr. attr \<notin> currentScopes) (requiredScopes (security d))
               then fail_with INVALID_SCOPE r 401 ''Invalid Scope''
               else run_endpoint f i t r))"

definition handleEndpoint_string ::
  "rest_function rest_endpoints \<Rightarrow> string \<Rightarrow> string \<Rightarrow> rest_input \<Rightarrow> token \<Rightarrow> string set \<Rightarrow> bool \<Rightarrow> received_auth \<Rightarrow> api_return
     \<Rightarrow> jwt_exn + handle_result \<times> api_return" where
  "handleEndpoint_string e m path i t currentScopes admin auth r =
     (if stringToMethod m = UNKNOWN then fail_with INVALID_METHOD_MODE r 400 ''Invalid method mode string''
      else handleEndpoint e (stringToMethod m) path i t currentScopes admin auth r)"

section \<open>WebSocket endpoints\<close>

record ws_security =
  ws_requireJWTHeaderAuthentication :: bool
  ws_requireJWTCookieAuthentication :: bool
  ws_requireSession :: bool
  ws_requiredScopes :: "string list"

record ws_security_parameters =
  haveJWTAuthHeader :: bool
  haveJWTAuthCookie :: bool
  haveSession :: bool

datatype ws_result = WS_SUCCESS | WS_INVALID_EVENT_TYPE | WS_ENDPOINT_NOT_FOUND | WS_AUTHENTICATION_REQUIRED | WS_INVALID_SCOPE | WS_INTERNAL_ERROR

definition checkEndpoint :: "(string \<rightharpoonup> ws_security) \<Rightarrow> string \<Rightarrow> string set \<Rightarrow> bool \<Rightarrow> ws_security_parameters \<Rightarrow> ws_result" where
  "checkEndpoint endpoints path currentScopes admin p =
     (case endpoints path of
        None \<Rightarrow> WS_ENDPOINT_NOT_FOUND
      | Some s \<Rightarrow>
          if ws_requireJWTHeaderAuthentication s \<and> \<not> haveJWTAuthHeader p then WS_AUTHENTICATION_REQUIRED
          else if ws_requireJWTCookieAuthentication s \<and> \<not> haveJWTAuthCookie p then WS_AUTHENTICATION_REQUIRED
          else if ws_requireSession s \<and> \<not> haveSession p then WS_AUTHENTICATION_REQUIRED
          else if \<not> admin \<and> list_ex (\<lambda>scope. scope \<notin> currentScopes) (ws_requiredScopes s) then WS_INVALID_SCOPE
          else WS_SUCCESS)"

fun ws_status :: "ws_result \<Rightarrow> nat" where
  "ws_status WS_SUCCESS = 200" | "ws_status WS_INVALID_EVENT_TYPE = 500" | "ws_status WS_ENDPOINT_NOT_FOUND = 404"
| "ws_status WS_AUTHENTICATION_REQUIRED = 401" | "ws_status WS_INVALID_SCOPE = 403" | "ws_status WS_INTERNAL_ERROR = 500"

section \<open>The resources filter\<close>

datatype filter_action = ACCEPT | DENY | REDIRECT

record resource_filter =
  regexPatterns :: "string list"
  redirectLocation :: string
  f_requiredScopes :: "string list"
  f_rejectedScopes :: "string list"
  f_requiredRoles :: "string list"
  f_rejectedRoles :: "string list"
  requireSession :: bool
  disallowSession :: bool
  action :: filter_action

text \<open>The action of a filter in the configuration file: an unknown one leaves the default.\<close>

definition action_of :: "string \<Rightarrow> filter_action" where
  "action_of s =
     (let sAction = map toupper s;
          a0 = ACCEPT;
          a1 = (if sAction = ''REDIRECT'' then REDIRECT else a0);
          a2 = (if sAction = ''DENY'' then DENY else a1) in
      if sAction = ''ACCEPT'' then ACCEPT else a2)"

definition matches_requirements :: "resource_filter \<Rightarrow> string set \<Rightarrow> string set \<Rightarrow> bool \<Rightarrow> bool" where
  "matches_requirements f scopes roles isSessionActive \<longleftrightarrow>
     list_all (\<lambda>s. s \<in> scopes) (f_requiredScopes f) \<and> list_all (\<lambda>s. s \<notin> scopes) (f_rejectedScopes f) \<and>
     list_all (\<lambda>s. s \<in> roles) (f_requiredRoles f) \<and> list_all (\<lambda>s. s \<notin> roles) (f_rejectedRoles f) \<and>
     \<not> (requireSession f \<and> \<not> isSessionActive) \<and> \<not> (disallowSession f \<and> isSessionActive)"

fun evaluateURI :: "(string \<Rightarrow> string \<Rightarrow> bool) \<Rightarrow> resource_filter list \<Rightarrow> string \<Rightarrow> string set \<Rightarrow> string set \<Rightarrow> bool \<Rightarrow> bool \<times> string" where
  "evaluateURI regex_match [] uri scopes roles active = (True, [])"
| "evaluateURI regex_match (f # fs) uri scopes roles active =
     (if matches_requirements f scopes roles active \<and> list_ex (\<lambda>p. regex_match p (takeWhile (\<lambda>c. c \<noteq> CHR 0x00) uri)) (regexPatterns f)
      then (case action f of ACCEPT \<Rightarrow> (True, []) | REDIRECT \<Rightarrow> (True, redirectLocation f) | DENY \<Rightarrow> (False, []))
      else evaluateURI regex_match fs uri scopes roles active)"

section \<open>CORS\<close>

text \<open>The sets are lists in the order of the set.\<close>

record options_config =
  allowedOrigins :: "string list"
  allowedMethods :: "string list"
  allowedHeaders :: "string list"
  exposeHeaders :: "string list"
  allowCredentials :: bool
  maxAgeSeconds :: int

definition allowsAllOrigins :: "options_config \<Rightarrow> bool" where
  "allowsAllOrigins c \<longleftrightarrow> ''*'' \<in> set (allowedOrigins c)"

definition allowsOrigin :: "options_config \<Rightarrow> string \<Rightarrow> bool" where
  "allowsOrigin c origin \<longleftrightarrow> (if allowsAllOrigins c then True else origin \<in> set (allowedOrigins c))"

definition getOriginsHeader :: "options_config \<Rightarrow> string" where
  "getOriginsHeader c = (if allowsAllOrigins c then ''*'' else case allowedOrigins c of [] \<Rightarrow> [] | o1 # _ \<Rightarrow> o1)"

fun join :: "string \<Rightarrow> string list \<Rightarrow> string" where
  "join sep [] = []" | "join sep [x] = x" | "join sep (x # y # xs) = x @ sep @ join sep (y # xs)"

definition configureAPIReturnOptionsHeaders :: "(int \<Rightarrow> string) \<Rightarrow> options_config \<Rightarrow> api_return \<Rightarrow> string \<Rightarrow> api_return" where
  "configureAPIReturnOptionsHeaders to_string c r requestOrigin =
     (let r1 = (if requestOrigin \<noteq> [] \<and> allowsOrigin c requestOrigin
                then addHeader r ''Access-Control-Allow-Origin'' (if allowsAllOrigins c then ''*'' else requestOrigin)
                else if allowedOrigins c \<noteq> [] then addHeader r ''Access-Control-Allow-Origin'' (getOriginsHeader c) else r);
          m = join '', '' (allowedMethods c);
          r2 = addHeader r1 ''Access-Control-Allow-Methods'' (if m \<noteq> [] then m else ''GET, POST, PUT, DELETE, OPTIONS'');
          h = join '', '' (allowedHeaders c);
          r3 = addHeader r2 ''Access-Control-Allow-Headers'' (if h \<noteq> [] then h else ''Content-Type, Authorization'');
          x = join '', '' (exposeHeaders c);
          r4 = (if x \<noteq> [] then addHeader r3 ''Access-Control-Expose-Headers'' x else r3);
          r5 = (if allowCredentials c then addHeader r4 ''Access-Control-Allow-Credentials'' ''true'' else r4) in
      if maxAgeSeconds c > 0 then addHeader r5 ''Access-Control-Max-Age'' (to_string (maxAgeSeconds c)) else r5)"

record endpoints_options =
  m_globalOptionsConfig :: options_config
  m_perEndpointOptionsConfig :: "string \<rightharpoonup> options_config"
  m_optionsEnabled :: bool

definition setEndpointOptions :: "endpoints_options \<Rightarrow> string \<Rightarrow> options_config \<Rightarrow> endpoints_options" where
  "setEndpointOptions e path c =
     (if path = [] then e\<lparr>m_globalOptionsConfig := c, m_optionsEnabled := True\<rparr>
      else e\<lparr>m_perEndpointOptionsConfig := (m_perEndpointOptionsConfig e)(path \<mapsto> c), m_optionsEnabled := True\<rparr>)"

definition buildCORSOptionsResponse :: "(int \<Rightarrow> string) \<Rightarrow> options_config \<Rightarrow> string \<Rightarrow> api_return" where
  "buildCORSOptionsResponse to_string c requestOrigin =
     configureAPIReturnOptionsHeaders to_string c (APIReturn_new\<lparr>httpResponseCode := 204\<rparr>) requestOrigin"

text \<open>\<open>handleOptionsRequest\<close> of the RESTful server: the configuration of the endpoint, else the global one.\<close>

definition handleOptionsRequest :: "(int \<Rightarrow> string) \<Rightarrow> (nat \<rightharpoonup> endpoints_options) \<Rightarrow> nat \<Rightarrow> string \<Rightarrow> string \<Rightarrow> api_return option" where
  "handleOptionsRequest to_string handlers apiVersion n origin =
     (case handlers apiVersion of
        None \<Rightarrow> setError APIReturn_new 404 ''invalid_options_request'' ''Resource Not Found''
      | Some e \<Rightarrow>
          if m_optionsEnabled e then
            Some (buildCORSOptionsResponse to_string
                    (case m_perEndpointOptionsConfig e n of Some c \<Rightarrow> c | None \<Rightarrow> m_globalOptionsConfig e) origin)
          else Some APIReturn_new)"

section \<open>What is let through\<close>

lemma stringToMethod_MethodToString: "m \<noteq> UNKNOWN \<Longrightarrow> stringToMethod (MethodToString m) = m"
  by (cases m) (simp_all add: stringToMethod_def)

lemma find_endpoint_added: "Rest_addEndpoint e m path d = (True, e') \<Longrightarrow> find_endpoint e' m path = Some (Some d)"
  by (cases m) auto

lemma fail_with_not_success: "fail_with res r code msg = Inr (x, r') \<Longrightarrow> x = res"
  by (auto simp: fail_with_def split: option.splits)

lemma run_endpoint_success:
  "run_endpoint f i t r = Inr (H_SUCCESS, r') \<Longrightarrow> \<exists>v. r' = f v t"
  by (auto simp: run_endpoint_def split: option.splits if_splits dest: fail_with_not_success)

text \<open>An endpoint function is run only if the request has what its definition asks for.\<close>

lemma handleEndpoint_guard:
  assumes "handleEndpoint_string e m path i t currentScopes admin auth r = Inr (H_SUCCESS, r')"
  shows "\<exists>d f v. find_endpoint e (stringToMethod m) path = Some (Some d) \<and> endpointDefinition d = Some f \<and> r' = f v t \<and>
    (requireJWTHeaderAuthentication (security d) \<longrightarrow> hasVerifiedJWTAuthorizationHeader auth) \<and>
    (requireJWTCookieAuthentication (security d) \<longrightarrow> hasVerifiedJWTAccessTokenCookie auth) \<and>
    (admin \<or> set (requiredScopes (security d)) \<subseteq> currentScopes)"
  using assms
  by (fastforce simp: handleEndpoint_string_def handleEndpoint_def list_ex_iff split: option.splits if_splits
      dest: fail_with_not_success run_endpoint_success)

text \<open>The filter is decided by its first entry that applies.\<close>

definition applies :: "(string \<Rightarrow> string \<Rightarrow> bool) \<Rightarrow> string \<Rightarrow> string set \<Rightarrow> string set \<Rightarrow> bool \<Rightarrow> resource_filter \<Rightarrow> bool" where
  "applies regex_match uri scopes roles active f \<longleftrightarrow>
     matches_requirements f scopes roles active \<and> list_ex (\<lambda>p. regex_match p (takeWhile (\<lambda>c. c \<noteq> CHR 0x00) uri)) (regexPatterns f)"

lemma evaluateURI_first:
  "evaluateURI regex_match fs uri scopes roles active =
     (case List.find (applies regex_match uri scopes roles active) fs of
        None \<Rightarrow> (True, [])
      | Some f \<Rightarrow> (case action f of ACCEPT \<Rightarrow> (True, []) | REDIRECT \<Rightarrow> (True, redirectLocation f) | DENY \<Rightarrow> (False, [])))"
  by (induction fs) (auto simp: applies_def)

lemma unknown_action_accepts: "map toupper s \<notin> {''REDIRECT'', ''DENY''} \<Longrightarrow> action_of s = ACCEPT"
  by (auto simp: action_of_def Let_def)

text \<open>The origin a preflight is answered with was configured.\<close>

lemma map_of_addHeader: "map_of (httpExtraHeaders (addHeader r n v)) k = (if k = n then Some v else map_of (httpExtraHeaders r) k)"
proof -
  have "map_of (filter (\<lambda>(a, _). a \<noteq> n) hs @ [(n, v)]) k = (if k = n then Some v else map_of hs k)" for hs :: "(string \<times> string) list"
    by (induction hs) (auto simp: map_add_def)
  then show ?thesis by (simp add: addHeader_def)
qed

lemma other_header: "k \<noteq> n \<Longrightarrow> map_of (httpExtraHeaders (if b then addHeader r n v else r)) k = map_of (httpExtraHeaders r) k"
  by (simp add: map_of_addHeader)

lemma cors_names:
  "''Access-Control-Allow-Origin'' \<noteq> ''Access-Control-Allow-Methods''" "''Access-Control-Allow-Origin'' \<noteq> ''Access-Control-Allow-Headers''"
  "''Access-Control-Allow-Origin'' \<noteq> ''Access-Control-Expose-Headers''" "''Access-Control-Allow-Origin'' \<noteq> ''Access-Control-Allow-Credentials''"
  "''Access-Control-Allow-Origin'' \<noteq> ''Access-Control-Max-Age''"
  by simp_all

lemma cors_origin:
  assumes "map_of (httpExtraHeaders (buildCORSOptionsResponse ts c origin)) ''Access-Control-Allow-Origin'' = Some v"
  shows "v \<in> set (allowedOrigins c) \<and> (origin \<noteq> [] \<and> origin \<in> set (allowedOrigins c) \<and> ''*'' \<notin> set (allowedOrigins c) \<longrightarrow> v = origin)"
proof -
  have "map_of (httpExtraHeaders (if origin \<noteq> [] \<and> allowsOrigin c origin
         then addHeader (APIReturn_new\<lparr>httpResponseCode := 204\<rparr>) ''Access-Control-Allow-Origin'' (if allowsAllOrigins c then ''*'' else origin)
         else if allowedOrigins c \<noteq> [] then addHeader (APIReturn_new\<lparr>httpResponseCode := 204\<rparr>) ''Access-Control-Allow-Origin'' (getOriginsHeader c)
         else APIReturn_new\<lparr>httpResponseCode := 204\<rparr>)) ''Access-Control-Allow-Origin'' = Some v"
    using assms unfolding buildCORSOptionsResponse_def configureAPIReturnOptionsHeaders_def Let_def
    by (simp only: other_header [OF cors_names(3)] other_header [OF cors_names(4)] other_header [OF cors_names(5)]
        map_of_addHeader [of _ "''Access-Control-Allow-Methods''"] map_of_addHeader [of _ "''Access-Control-Allow-Headers''"] cors_names if_False)
  then show ?thesis
    by (cases "allowedOrigins c") (auto simp: map_of_addHeader APIReturn_new_def allowsOrigin_def allowsAllOrigins_def getOriginsHeader_def split: if_splits)
qed

section \<open>Properties\<close>


text \<open>An endpoint that is meant for administrators of the shop only, by role.\<close>

definition demo_endpoints :: "nat monolith_endpoints" where
  "demo_endpoints = snd (Monolith_addEndpoint Monolith_new \<lparr>endpointFunction = 7, endpointName = ''refund'', reqScopes = [], reqRoles = [''manager''],
     doUsageUpdateLastSessionActivity = True, isActiveSessionRequired = True\<rparr>)"


end
