(* ===== verification/Jwt_Verify.thy ===== *)
theory Jwt_Verify
  imports Jwt
begin

text \<open>
  What \<open>JWT::verify\<close> accepts. The invariant of every use of a verifier is that each cached payload
  carries a signature of the keys in force; from it follow that only signed payloads are accepted,
  and what the cache does to revocation. Signing followed by verification, the bytes the cache
  accounts for and the life of a revocation complete the component.
\<close>

section \<open>Signatures\<close>

text \<open>What it means that data carry a signature of the current keys, without the calls: a message
  authentication code under the shared secret, a signature that verifies under the public key, or
  one that a private key made.\<close>

definition genuine :: "'k jwt_env \<Rightarrow> jwt \<Rightarrow> string \<Rightarrow> string \<Rightarrow> bool" where
  "genuine env j data signature \<longleftrightarrow>
     (let h = getHashTypeNumber (m_algorithm j) in
      isUsingHMAC (m_algorithm j) \<and> m_sharedSecret j \<noteq> [] \<and> signature = hmac env h (m_sharedSecret j) data \<or>
      (\<exists>k. read_public env (m_publicSecret j) = Some k \<and> digest_verify env h k data signature) \<or>
      (\<exists>p k. read_private env p = Some k \<and> digest_sign env h k data = Some signature))"

definition working :: "call \<Rightarrow> bool" where
  "working c \<longleftrightarrow> bio_ok c \<and> mdctx_ok c"

lemma check_signature_genuine:
  assumes "check_signature env c j h p s = Some True" "working c"
  shows "genuine env j (h @ ''.'' @ p) s"
  using assms
  by (auto simp: check_signature_def Let_def createSignature_def createHMACSignature_def createRSASignature_def
      validateRSASignature_def working_def genuine_def split: prod.splits if_splits option.splits)

text \<open>A payload some token with which carries a signature of the current keys.\<close>

definition payload_signed :: "'k jwt_env \<Rightarrow> jwt \<Rightarrow> string \<Rightarrow> bool" where
  "payload_signed env j payload \<longleftrightarrow> (\<exists>h p s. b64_dec env p = payload \<and> genuine env j (h @ ''.'' @ p) s)"

lemma signed_cong:
  "m_algorithm j = m_algorithm j' \<Longrightarrow> m_sharedSecret j = m_sharedSecret j' \<Longrightarrow> m_publicSecret j = m_publicSecret j' \<Longrightarrow>
     payload_signed env j p = payload_signed env j' p"
  by (simp add: payload_signed_def genuine_def)

section \<open>The cache\<close>

lemma evict_loop_subset:
  "evict_loop mx n q cache = Inr (n', q', cache') \<Longrightarrow> cache' \<subseteq> cache"
  by (induction q arbitrary: n cache) (auto split: if_splits)

lemma evictCache_subset:
  "evictCache c = Inr c' \<Longrightarrow> m_tokenCache c' \<subseteq> m_tokenCache c \<and> m_enabled c' = m_enabled c"
  using evict_loop_subset [of "m_cacheMaxByteCount c" "m_cacheCurrentByteCount c" "m_cacheQueue c" "m_tokenCache c"]
  by (auto simp: evictCache_def split: sum.splits)

lemma cache_add_subset: "cache_add c p = Inr c' \<Longrightarrow> m_tokenCache c' \<subseteq> insert p (m_tokenCache c)"
  by (auto simp: cache_add_def split: if_splits dest!: evictCache_subset dest: subsetD)

text \<open>The counter of a cache that was never cleared.\<close>

definition cache_ok :: "jwt_cache \<Rightarrow> bool" where
  "cache_ok c \<longleftrightarrow> m_cacheCurrentByteCount c = sum_list (map length (m_cacheQueue c)) \<and>
     m_cacheCurrentByteCount c \<le> m_cacheMaxByteCount c \<and> m_tokenCache c \<subseteq> set (m_cacheQueue c)"

lemma evict_loop_ok:
  assumes "n = sum_list (map length q)" "n < two64" "cache \<subseteq> set q"
  shows "\<exists>n' q' cache'. evict_loop mx n q cache = Inr (n', q', cache') \<and>
    n' = sum_list (map length q') \<and> n' \<le> mx \<and> cache' \<subseteq> set q' \<and> suffix q' q \<and> (n \<le> mx \<longrightarrow> q' = q \<and> cache' = cache)"
  using assms
proof (induction q arbitrary: n cache)
  case (Cons t q)
  show ?case
  proof (cases "n > mx")
    case True
    have "sub64 n (length t) = sum_list (map length q)" using Cons.prems by (simp add: sub64_small)
    moreover have "cache - {t} \<subseteq> set q" using Cons.prems(3) by auto
    ultimately obtain n' q' cache' where "evict_loop mx (sub64 n (length t)) q (cache - {t}) = Inr (n', q', cache')"
      "n' = sum_list (map length q')" "n' \<le> mx" "cache' \<subseteq> set q'" "suffix q' q"
      using Cons.IH [of "sub64 n (length t)" "cache - {t}"] Cons.prems by auto
    then show ?thesis using True by (auto intro: suffix_ConsI)
  qed (use Cons.prems in auto)
qed auto

lemma evictCache_ok:
  assumes "m_cacheCurrentByteCount c = sum_list (map length (m_cacheQueue c))" "m_cacheCurrentByteCount c < two64"
    "m_tokenCache c \<subseteq> set (m_cacheQueue c)"
  shows "\<exists>c'. evictCache c = Inr c' \<and> cache_ok c' \<and> suffix (m_cacheQueue c') (m_cacheQueue c) \<and>
    m_cacheMaxByteCount c' = m_cacheMaxByteCount c \<and> (m_cacheCurrentByteCount c \<le> m_cacheMaxByteCount c \<longrightarrow> c' = c)"
  using evict_loop_ok [OF assms, of "m_cacheMaxByteCount c"]
  by (auto simp: evictCache_def cache_ok_def assms(1) [symmetric])

lemma cache_add_ok:
  assumes "cache_ok c" "m_enabled c" "m_cacheMaxByteCount c + length p < two64"
  shows "\<exists>c'. cache_add c p = Inr c' \<and> cache_ok c' \<and> m_cacheMaxByteCount c' = m_cacheMaxByteCount c \<and>
    (m_cacheCurrentByteCount c + length p \<le> m_cacheMaxByteCount c \<longrightarrow> m_tokenCache c' = insert p (m_tokenCache c))"
proof -
  let ?c = "c\<lparr>m_cacheQueue := m_cacheQueue c @ [p], m_tokenCache := insert p (m_tokenCache c),
      m_cacheCurrentByteCount := add64 (m_cacheCurrentByteCount c) (length p)\<rparr>"
  have n: "add64 (m_cacheCurrentByteCount c) (length p) = m_cacheCurrentByteCount c + length p"
    using assms by (intro add64_small) (simp add: cache_ok_def)
  have "m_cacheCurrentByteCount ?c = sum_list (map length (m_cacheQueue ?c))" "m_cacheCurrentByteCount ?c < two64"
      "m_tokenCache ?c \<subseteq> set (m_cacheQueue ?c)"
    using assms n by (auto simp: cache_ok_def)
  from evictCache_ok [OF this] obtain c' where "evictCache ?c = Inr c'" "cache_ok c'" "m_cacheMaxByteCount c' = m_cacheMaxByteCount c"
      "m_cacheCurrentByteCount ?c \<le> m_cacheMaxByteCount c \<longrightarrow> c' = ?c" by auto
  then show ?thesis using assms(2) n by (auto simp: cache_add_def)
qed

section \<open>Verification\<close>

lemma isValid_iff:
  "isValid t k = Some True \<longleftrightarrow> (\<exists>e n. isMember (m_claims k) ''exp'' = Some e \<and> isMember (m_claims k) ''nbf'' = Some n \<and>
     (e \<longrightarrow> t < getExpirationTime k) \<and> (n \<longrightarrow> getNotBefore k \<le> t) \<and> m_signatureVerified k \<and> \<not> m_revoked k)"
  by (auto simp: isValid_def split: option.splits if_splits)

lemma verify_keeps_keys:
  "verify env c j full t = Inr (r, j', t') \<Longrightarrow>
     m_algorithm j' = m_algorithm j \<and> m_sharedSecret j' = m_sharedSecret j \<and> m_publicSecret j' = m_publicSecret j \<and>
     m_revocation j' = m_revocation j \<and> verificationCallback j' = verificationCallback j"
  by (auto simp: verify_def finish_def Let_def split: option.splits prod.splits if_splits sum.splits)

text \<open>Every use of a verifier. The cache and the revocation list are public members; the payloads
  are added by \<open>verify\<close> only.\<close>

inductive jwt_step :: "'k jwt_env \<Rightarrow> jwt \<Rightarrow> jwt \<Rightarrow> bool" for env where
  verifies: "verify env c j full t = Inr (r, j', t') \<Longrightarrow> working c \<Longrightarrow> jwt_step env j j'"
| new_shared: "jwt_step env j (setSharedSecret j s)"
| new_public: "jwt_step env j (setPublicSecret j s)"
| new_private: "jwt_step env j (setPrivateSecret j s)"
| clears: "jwt_step env j (j\<lparr>m_cache := cache_clear (m_cache j)\<rparr>)"
| enables: "jwt_step env j (j\<lparr>m_cache := setEnabled (m_cache j) b\<rparr>)"
| limits: "setCacheMaxByteCount (m_cache j) n = Inr c' \<Longrightarrow> jwt_step env j (j\<lparr>m_cache := c'\<rparr>)"
| revokes: "jwt_step env j (j\<lparr>m_revocation := addToRevocationList (m_revocation j) s e\<rparr>)"
| collects: "jwt_step env j (j\<lparr>m_revocation := removeExpiredTokensFromRevocationList time (m_revocation j)\<rparr>)"

definition cache_signed :: "'k jwt_env \<Rightarrow> jwt \<Rightarrow> bool" where
  "cache_signed env j \<longleftrightarrow> verificationCallback j = None \<and> (\<forall>p \<in> m_tokenCache (m_cache j). payload_signed env j p)"

lemma verify_cases:
  assumes "verify env c j full t = Inr (r, j', t')" "verificationCallback j = None" "working c"
  obtains "j' = j" "\<not> r"
  | h p s where "split_token full = Some (h, p, s)" "j' = j" "checkToken (m_cache j) (b64_dec env p)"
      "t' = (snd (decodePayload env t (b64_dec env p)))\<lparr>m_signatureVerified := True\<rparr>" "isValid (now c) t' = Some r"
  | h p s where "split_token full = Some (h, p, s)" "genuine env j (h @ ''.'' @ p) (b64_dec env s)"
      "cache_add (m_cache j) (b64_dec env p) = Inr (m_cache j')" "j' = j\<lparr>m_cache := m_cache j'\<rparr>"
      "t' = (snd (decodePayload env t (b64_dec env p)))\<lparr>m_signatureVerified := True, m_revoked := isSignatureRevoked (m_revocation j) (b64_dec env s)\<rparr>"
      "isValid (now c) t' = Some r"
proof (cases "split_token full")
  case None
  then show thesis using assms(1) that(1) by (simp add: verify_def)
next
  case (Some hps)
  then obtain h p s where hps: "split_token full = Some (h, p, s)" by (cases hps) auto
  let ?t = "snd (decodePayload env t (b64_dec env p))"
  show thesis
  proof (cases "checkToken (m_cache j) (b64_dec env p)")
    case True
    then have "finish c j (?t\<lparr>m_signatureVerified := True\<rparr>) = Inr (r, j', t')"
      using assms(1,2) hps by (simp add: verify_def Let_def)
    then show thesis using that(2) [OF hps] True by (auto simp: finish_def split: option.splits)
  next
    case False
    show thesis
    proof (cases "check_signature env c j h p (b64_dec env s)")
      case None
      then show thesis using assms(1,2) hps False that(1) by (simp add: verify_def Let_def)
    next
      case ok: (Some ok)
      let ?t2 = "\<lambda>x. x\<lparr>m_signatureVerified := ok, m_revoked := isSignatureRevoked (m_revocation j) (b64_dec env s)\<rparr>"
      show thesis
      proof (cases ok)
        case True
        then obtain cache where ca: "cache_add (m_cache j) (b64_dec env p) = Inr cache"
          "finish c (j\<lparr>m_cache := cache\<rparr>) (?t2 ?t) = Inr (r, j', t')"
          using assms(1,2) hps False ok by (auto simp: verify_def Let_def split: sum.splits)
        have g: "genuine env j (h @ ''.'' @ p) (b64_dec env s)" using check_signature_genuine [OF _ assms(3)] ok True by simp
        show thesis using that(3) [OF hps g] ca True by (auto simp: finish_def split: option.splits)
      next
        case nok: False
        then have "finish c j (?t2 t) = Inr (r, j', t')"
          using assms(1,2) hps False ok by (simp add: verify_def Let_def)
        then show thesis using that(1) nok by (auto simp: finish_def isValid_def split: option.splits if_splits)
      qed
    qed
  qed
qed

lemma step_signed: "jwt_step env j j' \<Longrightarrow> cache_signed env j \<Longrightarrow> cache_signed env j'"
proof (induction rule: jwt_step.induct)
  case (verifies c j full t r j' t')
  have cb: "verificationCallback j = None" using verifies.prems by (simp add: cache_signed_def)
  show ?case
  proof (rule verify_cases [OF verifies.hyps(1) cb verifies.hyps(2)])
    fix h p s assume a: "genuine env j (h @ ''.'' @ p) (b64_dec env s)" "cache_add (m_cache j) (b64_dec env p) = Inr (m_cache j')"
    then have "payload_signed env j (b64_dec env p)" by (auto simp: payload_signed_def)
    then have "\<forall>q \<in> m_tokenCache (m_cache j'). payload_signed env j q"
      using cache_add_subset [OF a(2)] verifies.prems by (auto simp: cache_signed_def)
    then show ?case using verify_keeps_keys [OF verifies.hyps(1)] cb signed_cong by (metis cache_signed_def)
  qed (use verifies.prems in auto)
next
  case (limits j n c')
  then have "m_tokenCache c' \<subseteq> m_tokenCache (m_cache j)" by (auto simp: setCacheMaxByteCount_def dest!: evictCache_subset)
  moreover have "payload_signed env (j\<lparr>m_cache := c'\<rparr>) p = payload_signed env j p" for p by (rule signed_cong) simp_all
  ultimately show ?case using limits.prems by (auto simp: cache_signed_def)
qed (auto simp: cache_signed_def setSharedSecret_def setPublicSecret_def setPrivateSecret_def cache_clear_def setEnabled_def
       Let_def payload_signed_def genuine_def split: if_splits)

lemma run_signed: "(jwt_step env)\<^sup>*\<^sup>* j j' \<Longrightarrow> cache_signed env j \<Longrightarrow> cache_signed env j'"
  by (induction rule: rtranclp_induct) (auto intro: step_signed)

section \<open>A token that was just signed\<close>

lemma find_point: "c \<notin> set xs \<Longrightarrow> find_sub [c] (xs @ c # ys) = Some (length xs)"
  by (induction xs) auto

lemma split_token_parts:
  assumes "CHR ''.'' \<notin> set h" "CHR ''.'' \<notin> set s"
  shows "split_token (h @ ''.'' @ p @ ''.'' @ s) = Some (h, p, s)"
proof -
  have "find_sub ''.'' (h @ ''.'' @ p @ ''.'' @ s) = Some (length h)" using find_point [OF assms(1)] by simp
  moreover have "find_sub ''.'' (rev (h @ ''.'' @ p @ ''.'' @ s)) = Some (length s)"
    using find_point [of "CHR ''.''" "rev s"] assms(2) by simp
  moreover have "length (h @ ''.'' @ p @ ''.'' @ s) - 1 - length s = length h + 1 + length p" by simp
  ultimately show ?thesis by (simp add: split_token_def)
qed

lemma alg_name_kinds:
  "isAlgorithmSupported (alg_name a)" "isHMACAlgorithm (alg_name a) \<longleftrightarrow> isUsingHMAC a" "isRSAAlgorithm (alg_name a) \<longleftrightarrow> \<not> isUsingHMAC a"
  by (cases a; simp add: isAlgorithmSupported_def isHMACAlgorithm_def isRSAAlgorithm_def isUsingHMAC_def)+

section \<open>Properties\<close>


text \<open>An environment to compute with: the texts are their own encoding, a payload has no claims but
  the algorithm, and the authentication code of data is the key followed by the data.\<close>

definition demo_env :: "unit jwt_env" where
  "demo_env = \<lparr>base64_bio = \<lparr>bio_write = Some, bio_read = (\<lambda>s. Some (filter (\<lambda>c. c \<noteq> CHR ''='') s))\<rparr>, parse_json = (\<lambda>s. (True, JObject [(''alg'', JString ''HS256'')])),
     write_json = (\<lambda>v. ''v''), hmac = (\<lambda>h k d. k @ filter (\<lambda>c. c \<noteq> CHR ''.'') d), read_public = (\<lambda>s. None), read_private = (\<lambda>s. None),
     digest_verify = (\<lambda>h k d s. False), digest_sign = (\<lambda>h k d. None)\<rparr>"

definition demo_call :: call where
  "demo_call = \<lparr>now = 100, bio_ok = True, mdctx_ok = True\<rparr>"

definition demo_jwt :: jwt where
  "demo_jwt = setSharedSecret (jwt_new HS256) ''key''"

lemma demo_b64:
  "b64_dec demo_env ''head'' = ''head''" "b64_dec demo_env ''body'' = ''body''"
  "b64_dec demo_env ''keyheadbody'' = ''keyheadbody''" "b64_dec demo_env ''forged'' = ''forged''"
  by (simp_all add: demo_env_def decodeFromBase64_def pad_url_def replace_char_def bio_size_eq)

lemmas demo_simps = demo_env_def demo_call_def demo_jwt_def setSharedSecret_def jwt_new_def cache_clear_def cache_init_def working_def
  verify_def split_token_def checkToken_def check_signature_def decodePayload_def ASSTRING_def has_def isAlgorithmSupported_def isHMACAlgorithm_def
  createSignature_def createHMACSignature_def isUsingHMAC_def finish_def isValid_def isSignatureRevoked_def cache_add_def demo_b64 [unfolded demo_env_def, simplified]

lemma demo_accepts: "verify demo_env demo_call demo_jwt ''head.body.keyheadbody'' empty_token =
    Inr (True, demo_jwt, empty_token\<lparr>m_claims := JObject [(''alg'', JString ''HS256'')], m_signatureVerified := True\<rparr>)"
  by (simp add: demo_simps empty_token_def)


text \<open>C34: a revoked token is refused as long as its payload is not in the cache; once it is there, a
  token with that payload is accepted although its signature is revoked, and whatever its header
  and its signature are, as long as its time has not passed.\<close>

theorem cache_bypasses_revocation:
  assumes "verificationCallback j = None" "working c" "split_token full = Some (h, p, s)"
    "isSignatureRevoked (m_revocation j) (b64_dec env s)"
  shows "(\<not> checkToken (m_cache j) (b64_dec env p) \<longrightarrow> \<not> (\<exists>j' t'. verify env c j full t = Inr (True, j', t'))) \<and>
    (checkToken (m_cache j) (b64_dec env p) \<longrightarrow> \<not> m_revoked t \<longrightarrow>
      isValid (now c) ((snd (decodePayload env t (b64_dec env p)))\<lparr>m_signatureVerified := True\<rparr>) = Some True \<longrightarrow>
      (\<exists>t'. verify env c j full t = Inr (True, j, t')))"
proof -
  have "\<not> (\<exists>j' t'. verify env c j full t = Inr (True, j', t'))" if nc: "\<not> checkToken (m_cache j) (b64_dec env p)"
  proof
    assume "\<exists>j' t'. verify env c j full t = Inr (True, j', t')"
    then obtain j' t' where v: "verify env c j full t = Inr (True, j', t')" by blast
    show False by (rule verify_cases [OF v assms(1,2)]) (use assms(3,4) nc in \<open>auto simp: isValid_iff\<close>)
  qed
  moreover have "\<exists>t'. verify env c j full t = Inr (True, j, t')"
    if "checkToken (m_cache j) (b64_dec env p)" "isValid (now c) ((snd (decodePayload env t (b64_dec env p)))\<lparr>m_signatureVerified := True\<rparr>) = Some True"
    using that assms(1,3) by (simp add: verify_def Let_def finish_def)
  ultimately show ?thesis by blast
qed

theorem cache_bypasses_revocation_witness:
  "\<exists>t'. verify demo_env demo_call (demo_jwt\<lparr>m_cache := cache_init\<lparr>m_enabled := True, m_tokenCache := {''body''}\<rparr>,
       m_revocation := addToRevocationList (m_revocation demo_jwt) ''forged'' 5000\<rparr>) ''head.body.forged'' empty_token =
     Inr (True, demo_jwt\<lparr>m_cache := cache_init\<lparr>m_enabled := True, m_tokenCache := {''body''}\<rparr>,
       m_revocation := addToRevocationList (m_revocation demo_jwt) ''forged'' 5000\<rparr>, t')"
  using cache_bypasses_revocation [of "demo_jwt\<lparr>m_cache := cache_init\<lparr>m_enabled := True, m_tokenCache := {''body''}\<rparr>,
       m_revocation := addToRevocationList (m_revocation demo_jwt) ''forged'' 5000\<rparr>" demo_call "''head.body.forged''" "''head''" "''body''" "''forged''" demo_env empty_token]
  by (simp add: demo_b64 split_token_def demo_call_def demo_jwt_def setSharedSecret_def jwt_new_def working_def addToRevocationList_def
      isSignatureRevoked_def checkToken_def isValid_def decodePayload_def empty_token_def) (simp add: demo_env_def)

text \<open>Keys that belong together: what the signer signs verifies.\<close>

definition keys_match :: "'k jwt_env \<Rightarrow> jwt \<Rightarrow> bool" where
  "keys_match env j \<longleftrightarrow>
     (let h = getHashTypeNumber (m_algorithm j) in
      if isUsingHMAC (m_algorithm j) then m_sharedSecret j \<noteq> [] \<and> (\<forall>d. length (hmac env h (m_sharedSecret j) d) \<in> {1..1610612733})
      else (\<exists>k p. read_private env (m_privateSecret j) = Some k \<and> read_public env (m_publicSecret j) = Some p \<and>
         (\<forall>d. \<exists>x. length x \<in> {1..1610612733} \<and> digest_sign env h k d = Some x \<and> digest_verify env h p d x)))"

lemma matching_signature:
  assumes "keys_match env j" "working c" "working c'"
  obtains x where "createSignature env c j d = (SUCCESS, x)" "createSignature env c' j d = (SUCCESS, x)" "length x \<in> {1..1610612733}"
    "\<not> isUsingHMAC (m_algorithm j) \<Longrightarrow> validateRSASignature env c' j (getHashTypeNumber (m_algorithm j)) d x = 0"
proof (cases "isUsingHMAC (m_algorithm j)")
  case True
  then show thesis using assms(1) by (intro that) (auto simp: createSignature_def createHMACSignature_def keys_match_def Let_def)
next
  case False
  then obtain k p x where "read_private env (m_privateSecret j) = Some k" "read_public env (m_publicSecret j) = Some p"
    "length x \<in> {1..1610612733}" "digest_sign env (getHashTypeNumber (m_algorithm j)) k d = Some x"
    "digest_verify env (getHashTypeNumber (m_algorithm j)) p d x"
    using assms(1) unfolding keys_match_def Let_def by auto metis
  moreover from this(3) have "x \<noteq> []" by auto
  ultimately show thesis using that [of x] False assms(2,3)
    by (simp add: createSignature_def createRSASignature_def validateRSASignature_def working_def)
qed

text \<open>C25: what \<open>sign\<close> makes \<open>verify\<close> reads: with a parser that reads what the writer wrote and keys
  that belong together, the token of any payload verifies with the claims of that payload, its
  validity then depending only on its time and on the revocation of its signature.\<close>

theorem sign_verify_roundtrip:
  assumes "bio_rfc (base64_bio env)" "keys_match env j" "working c" "working c'"
    and codec: "\<forall>v \<in> {token_header j, payload}. parse_json env (write_json env v) = (True, v) \<and> length (write_json env v) \<le> 1610612733"
    and "verificationCallback j = None" "\<not> m_enabled (m_cache j)"
  shows "\<exists>x. createSignature env c j (createHeader env j @ ''.'' @ b64_enc env (write_json env payload)) = (SUCCESS, x) \<and>
    verify env c' j (sign env c j payload) t =
      finish c' j (t\<lparr>m_claims := payload, m_signatureVerified := True, m_revoked := isSignatureRevoked (m_revocation j) x\<rparr>)"
proof -
  let ?h = "createHeader env j" and ?p = "b64_enc env (write_json env payload)"
  obtain x where x: "createSignature env c j (?h @ ''.'' @ ?p) = (SUCCESS, x)" "createSignature env c' j (?h @ ''.'' @ ?p) = (SUCCESS, x)"
      "length x \<in> {1..1610612733}"
    and v: "\<not> isUsingHMAC (m_algorithm j) \<Longrightarrow> validateRSASignature env c' j (getHashTypeNumber (m_algorithm j)) (?h @ ''.'' @ ?p) x = 0"
    using matching_signature [OF assms(2-4)] by metis
  have dec: "b64_dec env ?h = write_json env (token_header j)" "b64_dec env ?p = write_json env payload" "b64_dec env (b64_enc env x) = x"
    using decode_encode [OF assms(1)] codec x(3) by (auto simp: createHeader_def)
  have "CHR ''.'' \<notin> set ?h" "CHR ''.'' \<notin> set (b64_enc env x)"
    using encode_no_point [OF assms(1)] codec x(3) by (auto simp: createHeader_def)
  then have sp: "split_token (sign env c j payload) = Some (?h, ?p, b64_enc env x)"
    using split_token_parts x(1) by (simp add: sign_def Let_def)
  have "ASSTRING (token_header j) ''alg'' [] = alg_name (m_algorithm j)" by (simp add: token_header_def ASSTRING_def has_def)
  then have "check_signature env c' j ?h ?p x = Some True"
    using x v dec(1) codec alg_name_kinds by (cases "isUsingHMAC (m_algorithm j)") (auto simp: check_signature_def Let_def)
  then have "verify env c' j (sign env c j payload) t =
      finish c' j (t\<lparr>m_claims := payload, m_signatureVerified := True, m_revoked := isSignatureRevoked (m_revocation j) x\<rparr>)"
    using sp codec dec assms(6,7) by (simp add: verify_def Let_def checkToken_def cache_add_def decodePayload_def)
  then show ?thesis using x(1) by blast
qed

text \<open>A writer and a parser of two values, the header and one payload.\<close>

definition codec_env :: "unit jwt_env" where
  "codec_env = demo_env\<lparr>base64_bio := rfc_bio,
     write_json := (\<lambda>v. if v = token_header demo_jwt then ''h'' else ''p''),
     hmac := (\<lambda>h k d. k @ take 8 d),
     parse_json := (\<lambda>s. (True, if s = ''h'' then token_header demo_jwt else JObject [(''exp'', JInt 5000)]))\<rparr>"

theorem sign_verify_roundtrip_witness:
  "verify codec_env (demo_call\<lparr>now := 4999\<rparr>) demo_jwt (sign codec_env demo_call demo_jwt (JObject [(''exp'', JInt 5000)])) empty_token
     = Inr (True, demo_jwt, empty_token\<lparr>m_claims := JObject [(''exp'', JInt 5000)], m_signatureVerified := True\<rparr>) \<and>
   verify codec_env (demo_call\<lparr>now := 5000\<rparr>) demo_jwt (sign codec_env demo_call demo_jwt (JObject [(''exp'', JInt 5000)])) empty_token
     = Inr (False, demo_jwt, empty_token\<lparr>m_claims := JObject [(''exp'', JInt 5000)], m_signatureVerified := True\<rparr>)"
proof -
  have ok: "bio_rfc (base64_bio codec_env)" "keys_match codec_env demo_jwt" "working demo_call" "working (demo_call\<lparr>now := t\<rparr>)"
      "\<forall>v \<in> {token_header demo_jwt, JObject [(''exp'', JInt 5000)]}. parse_json codec_env (write_json codec_env v) = (True, v) \<and>
         length (write_json codec_env v) \<le> 1610612733"
      "verificationCallback demo_jwt = None" "\<not> m_enabled (m_cache demo_jwt)" for t
    using bio_rfc_bio by (auto simp: codec_env_def demo_env_def keys_match_def demo_jwt_def setSharedSecret_def jwt_new_def Let_def
        isUsingHMAC_def working_def demo_call_def token_header_def cache_clear_def cache_init_def)
  let ?p = "JObject [(''exp'', JInt 5000)]"
  have norev: "\<not> isSignatureRevoked (m_revocation demo_jwt) x" for x
    by (simp add: isSignatureRevoked_def demo_jwt_def setSharedSecret_def jwt_new_def)
  have "verify codec_env (demo_call\<lparr>now := t\<rparr>) demo_jwt (sign codec_env demo_call demo_jwt ?p) empty_token =
      finish (demo_call\<lparr>now := t\<rparr>) demo_jwt (empty_token\<lparr>m_claims := ?p, m_signatureVerified := True, m_revoked := False\<rparr>)" for t
    using sign_verify_roundtrip [OF ok, of t empty_token] norev by auto
  then show ?thesis
    by (simp add: finish_def isValid_def getExpirationTime_def ASINT64_def has_def as_int64_def in_int_range_def int_value_def empty_token_def)
qed

text \<open>Clearing the cache, which setting a key or switching the cache off does, forgets the payloads
  but not their bytes: a payload that would have fitted the empty cache is evicted at once when
  the old bytes leave no room for it, so a cache that was full caches nothing any more; and
  lowering the limit below the old bytes takes the front of the empty queue.\<close>

theorem cache_clear_keeps_bytes:
  assumes "cache_ok c" "m_enabled c" "m_cacheMaxByteCount c + length p < two64"
  shows "(m_cacheCurrentByteCount c + length p > m_cacheMaxByteCount c \<longrightarrow> cache_add (cache_clear c) p = Inr (cache_clear c)) \<and>
    (m < m_cacheCurrentByteCount c \<longrightarrow> setCacheMaxByteCount (cache_clear c) m = Inl Front_of_empty_queue)"
proof -
  have le: "m_cacheCurrentByteCount c \<le> m_cacheMaxByteCount c" using assms(1) by (simp add: cache_ok_def)
  then have "add64 (m_cacheCurrentByteCount c) (length p) = m_cacheCurrentByteCount c + length p"
      "sub64 (m_cacheCurrentByteCount c + length p) (length p) = m_cacheCurrentByteCount c"
    using assms(3) by (simp_all add: add64_small sub64_small)
  then show ?thesis using le assms(2)
    by (simp add: cache_add_def cache_clear_def evictCache_def setCacheMaxByteCount_def)
qed

theorem cache_clear_keeps_bytes_witness:
  "cache_add (cache_clear \<lparr>m_cacheMaxByteCount = 8, m_cacheCurrentByteCount = 6, m_enabled = True, m_tokenCache = {''abcdef''}, m_cacheQueue = [''abcdef'']\<rparr>) ''xyz''
     = Inr \<lparr>m_cacheMaxByteCount = 8, m_cacheCurrentByteCount = 6, m_enabled = True, m_tokenCache = {}, m_cacheQueue = []\<rparr>"
  using cache_clear_keeps_bytes [of "\<lparr>m_cacheMaxByteCount = 8, m_cacheCurrentByteCount = 6, m_enabled = True, m_tokenCache = {''abcdef''}, m_cacheQueue = [''abcdef'']\<rparr>" "''xyz''"]
  by (simp add: cache_ok_def cache_clear_def)

lemma fold_remove: "x \<in> fold (\<lambda>(e, s) rv. rv - {s}) es R \<longleftrightarrow> x \<in> R \<and> x \<notin> snd ` set es"
  by (induction es arbitrary: R) (auto split: prod.splits)

lemma revoked_after_removal:
  "isSignatureRevoked (removeExpiredTokensFromRevocationList t r) s \<longleftrightarrow>
     isSignatureRevoked r s \<and> (\<forall>e. (e, s) \<in> set (m_expirationSignatures r) \<longrightarrow> t < e)"
  by (auto simp: isSignatureRevoked_def removeExpiredTokensFromRevocationList_def Let_def fold_remove image_iff)

text \<open>A revoked signature stays revoked until it expires, through every removal of expired ones;
  but a signature that was revoked before with an earlier expiration is forgotten at that one.\<close>

theorem revocation_ends_at_first_expiration:
  "isSignatureRevoked (removeExpiredTokensFromRevocationList t (addToRevocationList r s e)) s \<longleftrightarrow>
     t < e \<and> (\<forall>e'. (e', s) \<in> set (m_expirationSignatures r) \<longrightarrow> t < e')"
  unfolding revoked_after_removal by (auto simp: addToRevocationList_def isSignatureRevoked_def)

theorem revocation_ends_at_first_expiration_witness:
  "\<not> isSignatureRevoked (removeExpiredTokensFromRevocationList 10
     (addToRevocationList \<lparr>m_expirationSignatures = [(5, ''sig'')], m_revokedTokens = {''sig''}\<rparr> ''sig'' 5000)) ''sig''"
  using revocation_ends_at_first_expiration [of 10 "\<lparr>m_expirationSignatures = [(5, ''sig'')], m_revokedTokens = {''sig''}\<rparr>" "''sig''" 5000] by simp

end
