(* ===== verification/Rest_Api.thy ===== *)
theory Rest_Api
  imports Access_Control Jwt_Verify
begin

text \<open>
  The RESTful server behind a connection: \<open>Server_RESTfulWebAPI/clienthandler.cpp\<close> and
  \<open>clienthandler_session.cpp\<close>, with \<open>verifyToken\<close> of \<open>Server_WebCore/apiserver_clienthandler.cpp\<close>. One
  handler object serves all the requests of a connection, and \<open>HTTPv1_Server::reset\<close> between two of
  them renews the request and the answer only, so the token and the flags of the handler are state
  that the requests share.
\<close>

section \<open>The client handler\<close>

record rest_config =
  appName :: string
  dynamicTokenValidator :: "(string \<Rightarrow> string \<Rightarrow> token \<Rightarrow> bool \<times> token) option"

record rest_handler =
  jwtToken :: token
  m_isAuthorizationHeaderJWTVerified :: bool
  m_isAccessTokenCookieJWTVerified :: bool

definition RestHandler_new :: rest_handler where
  "RestHandler_new = \<lparr>jwtToken = empty_token, m_isAuthorizationHeaderJWTVerified = False, m_isAccessTokenCookieJWTVerified = False\<rparr>"

record rest_request =
  authorizationBearer :: string
  accessTokenCookie :: string
  x_api_key :: string
  req_apiVersion :: nat
  httpMethodMode :: string
  req_endpointName :: string
  req_input :: rest_input

text \<open>A validator may be missing; a null claim reads as the default.\<close>

definition verifyToken ::
  "'k jwt_env \<Rightarrow> call \<Rightarrow> rest_config \<Rightarrow> jwt option \<Rightarrow> rest_handler \<Rightarrow> string \<Rightarrow> jwt_exn + bool \<times> jwt option \<times> rest_handler" where
  "verifyToken env c cfg validator h strToken =
     (case validator of
        None \<Rightarrow> Inr (False, None, h)
      | Some j \<Rightarrow>
          (case verify env c j strToken (jwtToken h) of
             Inl e \<Rightarrow> Inl e
           | Inr (x, j', t) \<Rightarrow>
               Inr (x \<and> ASSTRING_D (member (m_claims t) ''app'') [] = appName cfg \<and> ASSTRING_D (member (m_claims t) ''type'') [] = ''access'',
                    Some j', h\<lparr>jwtToken := t\<rparr>)))"

definition check_token ::
  "'k jwt_env \<Rightarrow> call \<Rightarrow> rest_config \<Rightarrow> jwt option \<Rightarrow> rest_handler \<Rightarrow> string \<Rightarrow> string \<Rightarrow> jwt_exn + bool \<times> jwt option \<times> rest_handler" where
  "check_token env c cfg validator h apikey strToken =
     (case dynamicTokenValidator cfg of
        Some f \<Rightarrow> (case f strToken apikey (jwtToken h) of (ok, t) \<Rightarrow> Inr (ok, validator, h\<lparr>jwtToken := t\<rparr>))
      | None \<Rightarrow> verifyToken env c cfg validator h strToken)"

definition sessionStart ::
  "'k jwt_env \<Rightarrow> call \<Rightarrow> rest_config \<Rightarrow> jwt option \<Rightarrow> rest_handler \<Rightarrow> rest_request \<Rightarrow> jwt_exn + jwt option \<times> rest_handler" where
  "sessionStart env c cfg validator h q =
     (if authorizationBearer q \<noteq> [] then
        (case check_token env c cfg validator h (x_api_key q) (authorizationBearer q) of
           Inl e \<Rightarrow> Inl e | Inr (ok, v, h') \<Rightarrow> Inr (v, h'\<lparr>m_isAuthorizationHeaderJWTVerified := ok\<rparr>))
      else if accessTokenCookie q \<noteq> [] then
        (case check_token env c cfg validator h (x_api_key q) (accessTokenCookie q) of
           Inl e \<Rightarrow> Inl e | Inr (ok, v, h') \<Rightarrow> Inr (v, h'\<lparr>m_isAccessTokenCookieJWTVerified := ok\<rparr>))
      else Inr (validator, h))"

definition isSessionActive :: "rest_handler \<Rightarrow> bool" where
  "isSessionActive h \<longleftrightarrow> m_isAuthorizationHeaderJWTVerified h \<or> m_isAccessTokenCookieJWTVerified h"

definition getSessionScopes :: "rest_handler \<Rightarrow> string set option" where
  "getSessionScopes h = (if isSessionActive h then getAllScopes (jwtToken h) else Some {})"

definition getSessionRoles :: "rest_handler \<Rightarrow> string set option" where
  "getSessionRoles h = (if isSessionActive h then getAllRoles (jwtToken h) else Some {})"

definition handleAPIRequest ::
  "(nat \<rightharpoonup> rest_function rest_endpoints) \<Rightarrow> rest_handler \<Rightarrow> rest_request \<Rightarrow> jwt_exn + handle_result \<times> api_return" where
  "handleAPIRequest endpoints h q =
     (case (if isSessionActive h then (isAdmin (jwtToken h), getAllScopes (jwtToken h)) else (Some False, Some {})) of
        (Some admin, Some currentScopes) \<Rightarrow>
          (case endpoints (req_apiVersion q) of
             None \<Rightarrow> (case setError APIReturn_new 404 ''invalid_api_request'' ''Resource Not Found'' of
                        None \<Rightarrow> Inl Json_logic_error | Some r \<Rightarrow> Inr (RESOURCE_NOT_FOUND, r))
           | Some e \<Rightarrow>
               handleEndpoint_string e (httpMethodMode q) (req_endpointName q) (req_input q)
                 (if isSessionActive h then jwtToken h else empty_token) currentScopes admin
                 \<lparr>hasVerifiedJWTAuthorizationHeader = m_isAuthorizationHeaderJWTVerified h,
                  hasVerifiedJWTAccessTokenCookie = m_isAccessTokenCookieJWTVerified h\<rparr> APIReturn_new)
      | _ \<Rightarrow> Inl Json_logic_error)"

text \<open>The check of a WebSocket upgrade.\<close>

definition checkWebSocketRequestURI :: "(string \<rightharpoonup> ws_security) \<Rightarrow> rest_handler \<Rightarrow> string \<Rightarrow> nat option" where
  "checkWebSocketRequestURI endpoints h path =
     (case (if isSessionActive h then (isAdmin (jwtToken h), getAllScopes (jwtToken h)) else (Some False, Some {})) of
        (Some admin, Some currentScopes) \<Rightarrow>
          Some (ws_status (checkEndpoint endpoints path currentScopes admin
            \<lparr>haveJWTAuthHeader = m_isAuthorizationHeaderJWTVerified h, haveJWTAuthCookie = m_isAccessTokenCookieJWTVerified h, haveSession = False\<rparr>))
      | _ \<Rightarrow> None)"

section \<open>Requests on a connection\<close>

text \<open>A request is answered by starting the session and calling the API; between two requests the
  validator, which all connections share, may be used in any other way.\<close>

definition serve ::
  "'k jwt_env \<Rightarrow> call \<Rightarrow> rest_config \<Rightarrow> (nat \<rightharpoonup> rest_function rest_endpoints) \<Rightarrow> jwt option \<Rightarrow> rest_handler \<Rightarrow> rest_request
     \<Rightarrow> jwt_exn + (handle_result \<times> api_return) \<times> jwt option \<times> rest_handler" where
  "serve env c cfg endpoints validator h q =
     (case sessionStart env c cfg validator h q of
        Inl e \<Rightarrow> Inl e
      | Inr (v, h') \<Rightarrow> (case handleAPIRequest endpoints h' q of Inl e \<Rightarrow> Inl e | Inr r \<Rightarrow> Inr (r, v, h')))"

inductive connection :: "'k jwt_env \<Rightarrow> rest_config \<Rightarrow> (nat \<rightharpoonup> rest_function rest_endpoints) \<Rightarrow> jwt \<times> rest_handler \<Rightarrow> jwt \<times> rest_handler \<Rightarrow> bool"
  for env cfg endpoints where
  opened: "connection env cfg endpoints s s"
| request: "connection env cfg endpoints s (j, h) \<Longrightarrow> serve env c cfg endpoints (Some j) h q = Inr (r, Some j', h') \<Longrightarrow> working c \<Longrightarrow>
    connection env cfg endpoints s (j', h')"
| others: "connection env cfg endpoints s (j, h) \<Longrightarrow> jwt_step env j j' \<Longrightarrow> connection env cfg endpoints s (j', h)"

section \<open>Where the claims come from\<close>

text \<open>Claims that are what a payload parses to that some verifier of the application had signed for.\<close>

definition authentic :: "'k jwt_env \<Rightarrow> algorithm \<Rightarrow> token \<Rightarrow> bool" where
  "authentic env a t \<longleftrightarrow>
     (\<exists>j p. (jwt_step env)\<^sup>*\<^sup>* (jwt_new a) j \<and> payload_signed env j p \<and> m_claims t = snd (parse_json env p))"

lemma reachable_signed: "(jwt_step env)\<^sup>*\<^sup>* (jwt_new a) j \<Longrightarrow> cache_signed env j"
proof -
  have "cache_signed env (jwt_new a)" by (simp add: cache_signed_def jwt_new_def cache_init_def)
  then show "(jwt_step env)\<^sup>*\<^sup>* (jwt_new a) j \<Longrightarrow> cache_signed env j" by (rule run_signed [rotated])
qed

lemma verify_claims:
  assumes "verify env c j full t = Inr (r, j', t')" "(jwt_step env)\<^sup>*\<^sup>* (jwt_new a) j" "working c"
  shows "(m_claims t' = m_claims t \<and> \<not> r) \<or> authentic env a t'"
proof (cases "split_token full")
  case None
  then show ?thesis using assms(1) by (simp add: verify_def)
next
  case (Some x)
  then obtain h p s where sp: "split_token full = Some (h, p, s)" by (cases x) auto
  have cs: "cache_signed env j" using reachable_signed [OF assms(2)] .
  then have cb: "verificationCallback j = None" by (simp add: cache_signed_def)
  have au: "authentic env a t'" if "payload_signed env j (b64_dec env p)" "m_claims t' = snd (parse_json env (b64_dec env p))"
    using that assms(2) unfolding authentic_def by blast
  show ?thesis
  proof (cases "checkToken (m_cache j) (b64_dec env p)")
    case True
    then have "payload_signed env j (b64_dec env p)" using cs by (auto simp: cache_signed_def checkToken_def split: if_splits)
    then show ?thesis using True assms(1) sp cb
      by (intro disjI2 au) (auto simp: verify_def Let_def finish_def decodePayload_def split: option.splits prod.splits)
  next
    case False
    show ?thesis
    proof (cases "check_signature env c j h p (b64_dec env s) = Some True")
      case True
      then have "payload_signed env j (b64_dec env p)"
        using check_signature_genuine [OF _ assms(3)] unfolding payload_signed_def by blast
      then show ?thesis using True False assms(1) sp cb
        by (intro disjI2 au) (auto simp: verify_def Let_def finish_def decodePayload_def split: option.splits prod.splits sum.splits)
    next
      case nt: False
      then show ?thesis using False assms(1) sp cb
        by (auto simp: verify_def Let_def finish_def isValid_def split: option.splits if_splits)
    qed
  qed
qed

lemma authentic_claims: "m_claims t = m_claims t' \<Longrightarrow> authentic env a t = authentic env a t'"
  by (simp add: authentic_def)

definition conn_inv :: "'k jwt_env \<Rightarrow> algorithm \<Rightarrow> jwt \<Rightarrow> rest_handler \<Rightarrow> bool" where
  "conn_inv env a j h \<longleftrightarrow> (jwt_step env)\<^sup>*\<^sup>* (jwt_new a) j \<and> (isSessionActive h \<longrightarrow> authentic env a (jwtToken h))"

lemma verifyToken_inv:
  assumes "verifyToken env c cfg (Some j) h tok = Inr (ok, v, h')" "conn_inv env a j h" "working c"
  obtains j' where "v = Some j'" "(jwt_step env)\<^sup>*\<^sup>* (jwt_new a) j'" "h' = h\<lparr>jwtToken := jwtToken h'\<rparr>"
    "(m_claims (jwtToken h') = m_claims (jwtToken h) \<and> \<not> ok) \<or> authentic env a (jwtToken h')"
proof -
  obtain x j' t where ver: "verify env c j tok (jwtToken h) = Inr (x, j', t)"
    and eq: "v = Some j'" "h' = h\<lparr>jwtToken := t\<rparr>" and ok: "ok \<longrightarrow> x"
    using assms(1) by (auto simp: verifyToken_def split: sum.splits prod.splits)
  have r: "(jwt_step env)\<^sup>*\<^sup>* (jwt_new a) j" using assms(2) by (simp add: conn_inv_def)
  have "(jwt_step env)\<^sup>*\<^sup>* (jwt_new a) j'" using r verifies [OF ver assms(3)] by (rule rtranclp.rtrancl_into_rtrancl)
  then show thesis using that [OF eq(1)] eq(2) verify_claims [OF ver r assms(3)] ok by auto
qed

lemma conn_inv_flags:
  assumes "conn_inv env a j h" "(jwt_step env)\<^sup>*\<^sup>* (jwt_new a) j'" "(m_claims t = m_claims (jwtToken h) \<and> \<not> ok) \<or> authentic env a t"
  shows "conn_inv env a j' (h\<lparr>jwtToken := t, m_isAuthorizationHeaderJWTVerified := ok\<rparr>)"
    "conn_inv env a j' (h\<lparr>jwtToken := t, m_isAccessTokenCookieJWTVerified := ok\<rparr>)"
  using assms authentic_claims [of t "jwtToken h" env a] by (auto simp: conn_inv_def isSessionActive_def)

lemma sessionStart_inv:
  assumes "sessionStart env c cfg (Some j) h q = Inr (v, h')" "conn_inv env a j h" "working c" "dynamicTokenValidator cfg = None"
  shows "\<exists>j'. v = Some j' \<and> conn_inv env a j' h'"
proof -
  have "\<exists>j'. v = Some j' \<and> conn_inv env a j' (k\<lparr>m_isAuthorizationHeaderJWTVerified := ok\<rparr>) \<and> conn_inv env a j' (k\<lparr>m_isAccessTokenCookieJWTVerified := ok\<rparr>)"
    if ver: "verifyToken env c cfg (Some j) h tok = Inr (ok, v, k)" for tok ok k
  proof (rule verifyToken_inv [OF ver assms(2,3)])
    fix j' assume a: "v = Some j'" "(jwt_step env)\<^sup>*\<^sup>* (jwt_new a) j'" "k = h\<lparr>jwtToken := jwtToken k\<rparr>"
      "(m_claims (jwtToken k) = m_claims (jwtToken h) \<and> \<not> ok) \<or> authentic env a (jwtToken k)"
    show ?thesis using conn_inv_flags [OF assms(2) a(2,4)] a(1) by (subst (1 2) a(3)) blast
  qed
  then show ?thesis using assms(1,2,4)
    by (auto simp: sessionStart_def check_token_def split: if_splits sum.splits prod.splits) blast+
qed

lemma serve_inv:
  assumes "serve env c cfg endpoints (Some j) h q = Inr (r, v, h')" "conn_inv env a j h" "working c" "dynamicTokenValidator cfg = None"
  shows "\<exists>j'. v = Some j' \<and> conn_inv env a j' h'"
  using assms sessionStart_inv [OF _ assms(2-4)] by (fastforce simp: serve_def split: sum.splits prod.splits)

lemma connection_inv:
  "connection env cfg endpoints s s' \<Longrightarrow> dynamicTokenValidator cfg = None \<Longrightarrow> (case s of (j, h) \<Rightarrow> conn_inv env a j h) \<Longrightarrow>
     (case s' of (j, h) \<Rightarrow> conn_inv env a j h)"
proof (induction rule: connection.induct)
  case (request s j h c q r j' h')
  then have "conn_inv env a j h" by auto
  then show ?case using serve_inv [OF request.hyps(2) _ request.hyps(3) request.prems(1)] by fastforce
next
  case (others s j h j')
  then show ?case by (auto simp: conn_inv_def intro: rtranclp.rtrancl_into_rtrancl)
qed

section \<open>Properties\<close>


text \<open>A shop with one endpoint, which asks for a token in the header and for the scope to read. The
  payload of every token names the shop and grants the scope.\<close>

definition shop_env :: "unit jwt_env" where
  "shop_env = demo_env\<lparr>parse_json := (\<lambda>s. (True, JObject [(''alg'', JString ''HS256''), (''app'', JString ''shop''),
     (''scopes'', JArray [JString ''read'']), (''type'', JString ''access'')]))\<rparr>"

definition shop_config :: rest_config where
  "shop_config = \<lparr>appName = ''shop'', dynamicTokenValidator = None\<rparr>"

definition shop_endpoints :: "nat \<rightharpoonup> rest_function rest_endpoints" where
  "shop_endpoints = [1 \<mapsto> snd (Rest_addEndpoint_set Rest_new GET ''stock'' 1 [''read''] (Some (\<lambda>v t. APIReturn_new\<lparr>body := JInt 42\<rparr>)))]"

definition shop_request :: rest_request where
  "shop_request = \<lparr>authorizationBearer = ''head.body.keyheadbody'', accessTokenCookie = [], x_api_key = [], req_apiVersion = 1,
     httpMethodMode = ''GET'', req_endpointName = ''stock'',
     req_input = \<lparr>getJSONStreamerContent = None, getHTTPMethod = ''GET'', getRequestGETVarsRawString = [], content_is_json = False\<rparr>\<rparr>"

definition shop_token :: token where
  "shop_token = \<lparr>m_claims = snd (parse_json shop_env []), m_signatureVerified = True, m_revoked = False\<rparr>"

lemma shop_verify: "verify shop_env demo_call demo_jwt ''head.body.keyheadbody'' empty_token = Inr (True, demo_jwt, shop_token)"
  by (simp add: demo_simps shop_env_def shop_token_def empty_token_def)

lemma shop_answer: "handleAPIRequest shop_endpoints \<lparr>jwtToken = shop_token, m_isAuthorizationHeaderJWTVerified = True, m_isAccessTokenCookieJWTVerified = False\<rparr>
    shop_request = Inr (H_SUCCESS, APIReturn_new\<lparr>body := JInt 42\<rparr>)"
  by (simp add: handleAPIRequest_def isSessionActive_def shop_token_def shop_env_def isAdmin_def getAllScopes_def shop_endpoints_def shop_request_def
      Rest_addEndpoint_set_def Rest_new_def Configuration_set_def handleEndpoint_string_def stringToMethod_def handleEndpoint_def run_endpoint_def ASSTRING_D_def)

lemma shop_serve: "serve shop_env demo_call shop_config shop_endpoints (Some demo_jwt) RestHandler_new shop_request =
    Inr ((H_SUCCESS, APIReturn_new\<lparr>body := JInt 42\<rparr>), Some demo_jwt,
      \<lparr>jwtToken = shop_token, m_isAuthorizationHeaderJWTVerified = True, m_isAccessTokenCookieJWTVerified = False\<rparr>)"
proof -
  have "sessionStart shop_env demo_call shop_config (Some demo_jwt) RestHandler_new shop_request =
      Inr (Some demo_jwt, \<lparr>jwtToken = shop_token, m_isAuthorizationHeaderJWTVerified = True, m_isAccessTokenCookieJWTVerified = False\<rparr>)"
    by (simp add: sessionStart_def shop_request_def check_token_def shop_config_def verifyToken_def RestHandler_new_def shop_verify)
      (simp add: shop_token_def shop_env_def ASSTRING_D_def)
  then show ?thesis by (simp add: serve_def shop_answer)
qed




text \<open>A token that was refused still replaces the claims. When the header of an earlier request was
  accepted, a request whose cookie holds a signed token that fails the check, because it has
  expired, is revoked, is meant for another application or is not an access token, is served with
  the claims of that token.\<close>

theorem refused_token_replaces_claims:
  assumes "m_isAuthorizationHeaderJWTVerified h" "dynamicTokenValidator cfg = None"
    and "authorizationBearer q = []" "accessTokenCookie q \<noteq> []"
    and "verify env c j (accessTokenCookie q) (jwtToken h) = Inr (False, j', t)"
  shows "serve env c cfg endpoints (Some j) h q =
    (case handleAPIRequest endpoints (h\<lparr>jwtToken := t, m_isAccessTokenCookieJWTVerified := False\<rparr>) q of
       Inl e \<Rightarrow> Inl e
     | Inr r \<Rightarrow> Inr (r, Some j', h\<lparr>jwtToken := t, m_isAccessTokenCookieJWTVerified := False\<rparr>)) \<and>
    isSessionActive (h\<lparr>jwtToken := t, m_isAccessTokenCookieJWTVerified := False\<rparr>)"
  using assms by (simp add: serve_def sessionStart_def check_token_def verifyToken_def isSessionActive_def)

text \<open>The claims of the expired token make the caller an administrator.\<close>

definition expired_env :: "unit jwt_env" where
  "expired_env = demo_env\<lparr>parse_json := (\<lambda>s. (True, JObject [(''alg'', JString ''HS256''), (''exp'', JInt 50), (''isAdmin'', JBool True)]))\<rparr>"

theorem refused_token_replaces_claims_witness:
  "\<exists>h'. serve expired_env demo_call shop_config shop_endpoints (Some demo_jwt)
     \<lparr>jwtToken = empty_token, m_isAuthorizationHeaderJWTVerified = True, m_isAccessTokenCookieJWTVerified = False\<rparr>
     (shop_request\<lparr>authorizationBearer := [], accessTokenCookie := ''head.body.keyheadbody''\<rparr>) =
   Inr ((H_SUCCESS, APIReturn_new\<lparr>body := JInt 42\<rparr>), Some demo_jwt, h') \<and> isAdmin (jwtToken h') = Some True"
proof -
  let ?t = "\<lparr>m_claims = snd (parse_json expired_env []), m_signatureVerified = True, m_revoked = False\<rparr>"
  let ?h = "\<lparr>jwtToken = empty_token, m_isAuthorizationHeaderJWTVerified = True, m_isAccessTokenCookieJWTVerified = False\<rparr>"
  let ?q = "shop_request\<lparr>authorizationBearer := [], accessTokenCookie := ''head.body.keyheadbody''\<rparr>"
  have v: "verify expired_env demo_call demo_jwt ''head.body.keyheadbody'' empty_token = Inr (False, demo_jwt, ?t)"
    by (simp add: demo_simps expired_env_def empty_token_def getExpirationTime_def ASINT64_def as_int64_def in_int_range_def int_value_def)
  have a: "handleAPIRequest shop_endpoints (?h\<lparr>jwtToken := ?t, m_isAccessTokenCookieJWTVerified := False\<rparr>) ?q = Inr (H_SUCCESS, APIReturn_new\<lparr>body := JInt 42\<rparr>)"
    by (simp add: handleAPIRequest_def isSessionActive_def expired_env_def isAdmin_def getAllScopes_def shop_endpoints_def shop_request_def ASBOOL_D_def
        Rest_addEndpoint_set_def Rest_new_def Configuration_set_def handleEndpoint_string_def stringToMethod_def handleEndpoint_def run_endpoint_def)
  show ?thesis
    using refused_token_replaces_claims [of ?h shop_config ?q expired_env demo_call demo_jwt demo_jwt ?t shop_endpoints] v a
    by (simp add: shop_config_def isAdmin_def expired_env_def ASBOOL_D_def)
qed

end
