(* ===== verification/Boost_Strings.thy ===== *)
theory Boost_Strings
  imports IPv4_Address
begin

text \<open>
  What the source uses of the string algorithms of boost (\<open>trim\<close>, \<open>split\<close> with compressed
  tokens, \<open>replace_all\<close>, the changes and comparisons of case, in the classic locale), and the random
  strings of \<open>Helpers/random.cpp\<close>, with the bytes of \<open>RAND_bytes\<close> as an argument.
\<close>

definition trim :: "string \<Rightarrow> string" where
  "trim s = rev (dropWhile is_space (rev (dropWhile is_space s)))"

abbreviation to_upper_copy :: "string \<Rightarrow> string" where
  "to_upper_copy s \<equiv> map toupper s"

definition iequals :: "string \<Rightarrow> string \<Rightarrow> bool" where
  "iequals s t \<longleftrightarrow> map tolower s = map tolower t"

definition icontains :: "string \<Rightarrow> string \<Rightarrow> bool" where
  "icontains s t \<longleftrightarrow> find_sub (map tolower t) (map tolower s) \<noteq> None"

text \<open>\<open>boost::split\<close> with \<open>token_compress_on\<close>: a run of separators is one separator, also at the
  ends of the text, where it leaves an empty token.\<close>

function split_any :: "(char \<Rightarrow> bool) \<Rightarrow> string \<Rightarrow> string list" where
  "split_any sep s =
     (case dropWhile (\<lambda>c. \<not> sep c) s of
        [] \<Rightarrow> [s]
      | _ # r \<Rightarrow> takeWhile (\<lambda>c. \<not> sep c) s # split_any sep (dropWhile sep r))"
  by pat_completeness auto
termination
proof (relation "measure (\<lambda>(sep, s). length s)")
  fix sep :: "char \<Rightarrow> bool" and s c r
  assume "dropWhile (\<lambda>c. \<not> sep c) s = c # r"
  then have "length (c # r) \<le> length s" by (metis length_dropWhile_le)
  moreover have "length (dropWhile sep r) \<le> length r" by (rule length_dropWhile_le)
  ultimately show "((sep, dropWhile sep r), (sep, s)) \<in> measure (\<lambda>(sep, s). length s)" by simp
qed simp

declare split_any.simps [simp del]

text \<open>\<open>boost::replace_all\<close>: the occurrences from the left, without overlap.\<close>

function replace_all :: "string \<Rightarrow> string \<Rightarrow> string \<Rightarrow> string" where
  "replace_all n r s =
     (case s of
        [] \<Rightarrow> []
      | c # cs \<Rightarrow> if n \<noteq> [] \<and> take (length n) s = n then r @ replace_all n r (drop (length n) s) else c # replace_all n r cs)"
  by pat_completeness auto
termination
  by (relation "measure (\<lambda>(n, r, s). length s)") auto

declare replace_all.simps [simp del]

definition charset :: string where
  "charset = ''abcdefghijklmnopqrstuvwxyzABCDEFGHIJKLMNOPQRSTUVWXYZ0123456789''"

definition createRandomString :: "bytes \<Rightarrow> string" where
  "createRandomString buffer = map (\<lambda>b. charset ! (of_char b mod 62)) buffer"

section \<open>Facts\<close>

lemma trim_id: "s = [] \<or> (\<not> is_space (hd s) \<and> \<not> is_space (last s)) \<Longrightarrow> trim s = s"
  by (cases "s = []") (auto simp: trim_def dropWhile_eq_self_iff [THEN iffD2] hd_rev)

lemma trim_blank [simp]: "is_space c \<Longrightarrow> trim (c # s) = trim s"
  by (simp add: trim_def)

lemma split_any_none: "\<forall>c \<in> set s. \<not> sep c \<Longrightarrow> split_any sep s = [s]"
  by (subst split_any.simps) (simp add: dropWhile_eq_Nil_conv [THEN iffD2])

lemma split_any_token:
  assumes "\<forall>c \<in> set t. \<not> sep c" "sep d" "r = [] \<or> \<not> sep (hd r)"
  shows "split_any sep (t @ d # r) = t # split_any sep r"
proof -
  have "dropWhile sep r = r" using assms(3) by (auto simp: dropWhile_eq_self_iff)
  then show ?thesis using assms(1,2) by (subst split_any.simps) (simp add: dropWhile_append2 takeWhile_append2)
qed

lemma replace_all_Nil [simp]: "replace_all n r [] = []"
  by (simp add: replace_all.simps)

lemma replace_all_at: "n \<noteq> [] \<Longrightarrow> replace_all n r (n @ s) = r @ replace_all n r s"
  by (subst replace_all.simps) (cases n, auto)

lemma replace_all_skip: "take (length n) (c # cs) \<noteq> n \<Longrightarrow> replace_all n r (c # cs) = c # replace_all n r cs"
  by (subst replace_all.simps) auto

lemma replace_all_none: "find_sub n s = None \<Longrightarrow> replace_all n r s = s"
proof (induction s)
  case (Cons c cs)
  then show ?case by (auto simp: replace_all_skip split: if_splits)
qed simp

lemma replace_all_char: "replace_all [c] r s = concat (map (\<lambda>d. if d = c then r else [d]) s)"
  by (induction s) (auto simp: replace_all.simps [of _ _ "[]"] replace_all.simps [of _ _ "_ # _"])

text \<open>Replacing a text by one without a given character does not add that character, and removes it
  where the text has it.\<close>

lemma replace_all_count: "x \<notin> set r \<Longrightarrow> count_list (replace_all n r s) x \<le> count_list s x"
proof (induction n r s rule: replace_all.induct [case_names step])
  case (step n r s)
  show ?case
  proof (cases s)
    case (Cons c cs)
    show ?thesis
    proof (cases "n \<noteq> [] \<and> take (length n) s = n")
      case True
      have "s = n @ drop (length n) s" using True by (metis append_take_drop_id)
      then have "count_list s x = count_list n x + count_list (drop (length n) s) x" by (metis count_list_append)
      moreover have "replace_all n r s = r @ replace_all n r (drop (length n) s)" using True Cons by (subst replace_all.simps) simp
      ultimately show ?thesis using step.IH(1) [OF Cons True step.prems] step.prems by simp
    next
      case False
      then have "replace_all n r s = c # replace_all n r cs" using Cons by (subst replace_all.simps) auto
      then show ?thesis using step.IH(2) [OF Cons False step.prems] Cons by simp
    qed
  qed simp
qed

lemma replace_all_append:
  assumes "n \<noteq> []" "first_at n s (length t)" "s = t @ n @ u"
  shows "replace_all n r s = t @ r @ replace_all n r u"
  using assms(2,3)
proof (induction t arbitrary: s)
  case Nil
  then show ?case using assms(1) by (simp add: replace_all_at)
next
  case (Cons c t)
  have "\<not> occurs_at n s 0" using Cons.prems(1) by (auto simp: first_at_def)
  then have "replace_all n r s = c # replace_all n r (t @ n @ u)"
    using Cons.prems(2) by (simp add: occurs_at_0 replace_all_skip)
  moreover have "first_at n (t @ n @ u) (length t)"
    using Cons.prems by (fastforce simp: first_at_def occurs_at_Cons_Suc)
  ultimately show ?case using Cons.IH by simp
qed

lemma replace_all_fewer:
  assumes "x \<notin> set r" "x \<in> set n" "find_sub n s \<noteq> None"
  shows "count_list (replace_all n r s) x < count_list s x"
proof -
  obtain i where i: "first_at n s i" using assms(3) by (auto simp: find_sub_Some_iff)
  then obtain t u where s: "s = t @ n @ u" "length t = i" by (auto simp: first_at_def occurs_at_split)
  have "replace_all n r s = t @ r @ replace_all n r u" using i s assms(2) by (intro replace_all_append) auto
  moreover have "0 < count_list n x" using assms(2) count_list_0_iff [of n x] by simp
  ultimately show ?thesis using s(1) assms(1) replace_all_count [OF assms(1), of n u] by simp
qed

end
