(* ===== verification/Web_Sessions.thy ===== *)
theory Web_Sessions
  imports Access_Control Boost_Strings Safe_Map "HOL-Library.AList"
begin

text \<open>
  The sessions of the monolithic web server: \<open>Session\<close> (\<open>session.cpp\<close>), \<open>WebSessionsManager\<close>
  (\<open>sessionsmanager.cpp\<close>) over the thread-safe map, and the part of the client handler that starts,
  releases and ends a session (\<open>clienthandler_session.cpp\<close>, \<open>clienthandler_authfunctions.cpp\<close>,
  \<open>clienthandler.cpp\<close>). Session objects are shared by pointer: they live in a store and are named by
  numbers. Every operation is a sequence of critical sections of the map; where \<open>destroyElement\<close>
  waits for readers the outcome is \<open>Waits_for_readers\<close>. The clock, the random session identifiers and
  the verification of the login token are arguments.
\<close>

section \<open>Sessions\<close>

record session =
  m_jwtAuthenticatedInfo :: token
  m_user :: string
  m_domain :: string
  m_impersonator :: string
  m_firstActivityTimestamp :: int
  m_lastActivityTimestamp :: int

definition Session_new :: "int \<Rightarrow> token \<Rightarrow> session" where
  "Session_new time jwt = \<lparr>m_jwtAuthenticatedInfo = jwt, m_user = getSubject jwt, m_domain = getDomain jwt,
     m_impersonator = getImpersonator jwt, m_firstActivityTimestamp = time, m_lastActivityTimestamp = time\<rparr>"

definition updateLastActivity :: "int \<Rightarrow> session \<Rightarrow> session" where
  "updateLastActivity time s = s\<lparr>m_lastActivityTimestamp := time\<rparr>"

definition isLastActivityExpired :: "int \<Rightarrow> session \<Rightarrow> nat \<Rightarrow> bool" where
  "isLastActivityExpired curTime s expSeconds =
     (if m_lastActivityTimestamp s > curTime then True else curTime - m_lastActivityTimestamp s > int expSeconds)"

definition isSessionRevoked :: "session \<Rightarrow> bool" where
  "isSessionRevoked s = False"

type_synonym store = "nat \<Rightarrow> session"

section \<open>The sessions manager\<close>

record web_session =
  authSession :: nat
  networkClientInfo :: json

definition compareUserAgent :: "web_session \<Rightarrow> string \<Rightarrow> bool" where
  "compareUserAgent w userAgent \<longleftrightarrow> ASSTRING (networkClientInfo w) ''userAgent'' [] = userAgent"

definition compareRemoteAddress :: "web_session \<Rightarrow> string \<Rightarrow> bool" where
  "compareRemoteAddress w remoteAddress \<longleftrightarrow> ASSTRING (networkClientInfo w) ''remoteAddress'' [] = remoteAddress"

record manager =
  m_sessions :: "(string, web_session) safe_map"
  m_sessionClientInfo :: "string \<rightharpoonup> (string \<times> json) list"
  m_MaxInactiveSeconds :: nat
  m_maxSessionsPerUser :: nat

definition Manager_new :: manager where
  "Manager_new = \<lparr>m_sessions = Map.empty, m_sessionClientInfo = Map.empty, m_MaxInactiveSeconds = 900, m_maxSessionsPerUser = 100\<rparr>"

datatype stop = Invalid_close_on_map | Unregistered_session | Waits_for_readers

definition createSession :: "manager \<Rightarrow> store \<Rightarrow> nat \<Rightarrow> json \<Rightarrow> bytes \<times> bytes \<Rightarrow> string \<times> nat \<times> manager" where
  "createSession m st p info rnd =
     (let sessionId = createRandomString (fst rnd) @ '':'' @ createRandomString (snd rnd);
          effectiveUser = m_user (st p);
          registered = m_sessionClientInfo m effectiveUser in
      if registered \<noteq> None \<and> length (the registered) \<ge> m_maxSessionsPerUser m then ([], 0, m)
      else (let m1 = m\<lparr>m_sessionClientInfo := (m_sessionClientInfo m)
                   (effectiveUser \<mapsto> AList.update sessionId info (case registered of None \<Rightarrow> [] | Some l \<Rightarrow> l))\<rparr> in
            case addElement (m_sessions m1) sessionId (Some \<lparr>authSession = p, networkClientInfo = info\<rparr>) of
              (ok, ss) \<Rightarrow> (if ok then sessionId else [], m_MaxInactiveSeconds m, m1\<lparr>m_sessions := ss\<rparr>)))"

definition openSession :: "int \<Rightarrow> manager \<Rightarrow> store \<Rightarrow> string \<Rightarrow> (web_session \<times> int) option \<times> manager" where
  "openSession time m st sessionID =
     (case openElement (m_sessions m) sessionID of
        (None, ss) \<Rightarrow> (None, m\<lparr>m_sessions := ss\<rparr>)
      | (Some xs, ss) \<Rightarrow>
          (let s = st (authSession xs);
               expirationTime = m_lastActivityTimestamp s + int (m_MaxInactiveSeconds m);
               maxAge = (if isLastActivityExpired time s (m_MaxInactiveSeconds m) then 0
                         else if expirationTime \<ge> m_lastActivityTimestamp s then (if expirationTime > time then expirationTime - time else 0)
                         else 0) in
           (Some (xs, maxAge), m\<lparr>m_sessions := ss\<rparr>)))"

definition releaseSession :: "manager \<Rightarrow> string \<Rightarrow> stop + bool \<times> manager" where
  "releaseSession m sessionID =
     (case releaseElement (m_sessions m) sessionID of
        Inl e \<Rightarrow> Inl Invalid_close_on_map
      | Inr (r, notified, ss) \<Rightarrow> Inr (r, m\<lparr>m_sessions := ss\<rparr>))"

definition destroy_element :: "manager \<Rightarrow> string \<Rightarrow> stop + bool \<times> manager" where
  "destroy_element m sessionID =
     (case destroyElement sessionID (m_sessions m) of
        (M_Ret r, ss, deleted, told) \<Rightarrow> Inr (r, m\<lparr>m_sessions := ss\<rparr>)
      | _ \<Rightarrow> Inl Waits_for_readers)"

definition destroySession :: "manager \<Rightarrow> store \<Rightarrow> string \<Rightarrow> stop + bool \<times> manager" where
  "destroySession m st sessionID =
     (case openElement (m_sessions m) sessionID of
        (None, ss) \<Rightarrow> Inr (False, m\<lparr>m_sessions := ss\<rparr>)
      | (Some sess, ss) \<Rightarrow>
          (let effectiveUser = m_user (st (authSession sess)) in
           case releaseSession (m\<lparr>m_sessions := ss\<rparr>) sessionID of
             Inl e \<Rightarrow> Inl e
           | Inr (_, m1) \<Rightarrow>
               (case destroy_element m1 sessionID of
                  Inl e \<Rightarrow> Inl e
                | Inr (False, m2) \<Rightarrow> Inr (False, m2)
                | Inr (True, m2) \<Rightarrow>
                    (case m_sessionClientInfo m2 effectiveUser of
                       None \<Rightarrow> Inl Unregistered_session
                     | Some l \<Rightarrow>
                         if map_of l sessionID = None then Inl Unregistered_session
                         else (let l' = AList.delete sessionID l in
                               Inr (True, m2\<lparr>m_sessionClientInfo := (m_sessionClientInfo m2)
                                 (effectiveUser := if l' = [] then None else Some l')\<rparr>))))))"

text \<open>The collector goes through the keys, in the order of the set.\<close>

fun gc_loop :: "int \<Rightarrow> manager \<Rightarrow> store \<Rightarrow> string list \<Rightarrow> stop + manager" where
  "gc_loop time m st [] = Inr m"
| "gc_loop time m st (key # keys) =
     (case openElement (m_sessions m) key of
        (None, ss) \<Rightarrow> gc_loop time (m\<lparr>m_sessions := ss\<rparr>) st keys
      | (Some s, ss) \<Rightarrow>
          (case releaseSession (m\<lparr>m_sessions := ss\<rparr>) key of
             Inl e \<Rightarrow> Inl e
           | Inr (_, m1) \<Rightarrow>
               if isLastActivityExpired time (st (authSession s)) (m_MaxInactiveSeconds m) then
                 (case destroy_element m1 key of Inl e \<Rightarrow> Inl e | Inr (_, m2) \<Rightarrow> gc_loop time m2 st keys)
               else gc_loop time m1 st keys))"

definition alnum12 :: "string \<Rightarrow> bool" where
  "alnum12 s \<longleftrightarrow> length s = 12 \<and> list_all isalnum s"

definition validateSessionIDFormat :: "string \<Rightarrow> bool" where
  "validateSessionIDFormat s \<longleftrightarrow> s = [] \<or> alnum12 (take 12 s) \<and> drop 12 s \<noteq> [] \<and> s ! 12 = CHR '':'' \<and> alnum12 (drop 13 s)"

section \<open>The client handler\<close>

definition truncateSessionId :: "string \<Rightarrow> string" where
  "truncateSessionId s = take 12 s"

record http_request =
  session_cookie :: string
  impersonator_cookie :: string
  half_session_header :: string
  origin :: string
  remote_addr :: string
  user_agent :: string

text \<open>A cookie of the answer: its value and its age, or that it is cleared.\<close>

record handler =
  m_sessionID :: string
  m_impersonatorSessionID :: string
  m_currentWebSession :: "web_session option"
  cur_authSession :: "nat option"
  m_sessionMaxAge :: int
  m_destroySession :: bool
  cookies :: "(string \<times> (string \<times> int) option) list"

definition Handler_new :: handler where
  "Handler_new = \<lparr>m_sessionID = [], m_impersonatorSessionID = [], m_currentWebSession = None, cur_authSession = None, m_sessionMaxAge = 0,
     m_destroySession = False, cookies = []\<rparr>"

definition set_cookie :: "string \<Rightarrow> string \<Rightarrow> int \<Rightarrow> handler \<Rightarrow> handler" where
  "set_cookie n v age h = h\<lparr>cookies := cookies h @ [(n, Some (v, age))]\<rparr>"

definition clear_cookie :: "string \<Rightarrow> handler \<Rightarrow> handler" where
  "clear_cookie n h = h\<lparr>cookies := cookies h @ [(n, None)]\<rparr>"

definition monolith_isSessionActive :: "handler \<Rightarrow> store \<Rightarrow> bool" where
  "monolith_isSessionActive h st = (case cur_authSession h of None \<Rightarrow> False | Some p \<Rightarrow> \<not> isSessionRevoked (st p))"

definition validateSessionAntiCSRFMechanism :: "http_request \<Rightarrow> bool" where
  "validateSessionAntiCSRFMechanism q \<longleftrightarrow> half_session_header q = truncateSessionId (session_cookie q)"

definition updateActivityOnImpersonatorSession :: "int \<Rightarrow> manager \<Rightarrow> store \<Rightarrow> handler \<Rightarrow> stop + manager \<times> store" where
  "updateActivityOnImpersonatorSession time m st h =
     (if m_impersonatorSessionID h = [] then Inr (m, st)
      else (case openSession time m st (m_impersonatorSessionID h) of
              (r, m1) \<Rightarrow>
                (let st1 = (case r of None \<Rightarrow> st | Some (w, _) \<Rightarrow> st(authSession w := updateLastActivity time (st (authSession w)))) in
                 case releaseSession m1 (m_impersonatorSessionID h) of Inl e \<Rightarrow> Inl e | Inr (_, m2) \<Rightarrow> Inr (m2, st1))))"

text \<open>The status code of \<open>sessionStart\<close>; any code but 200 ends the request at once, without the clean-up.\<close>

definition monolith_sessionStart ::
  "int \<Rightarrow> bool \<Rightarrow> manager \<Rightarrow> store \<Rightarrow> handler \<Rightarrow> http_request \<Rightarrow> stop + nat \<times> manager \<times> store \<times> handler" where
  "monolith_sessionStart time allowFloatingClients m st h q =
     (let h1 = h\<lparr>m_sessionID := session_cookie q, m_impersonatorSessionID := impersonator_cookie q\<rparr>;
          dropped = (\<lambda>h. h\<lparr>m_sessionID := [], m_impersonatorSessionID := []\<rparr>) in
      if \<not> validateSessionIDFormat (m_sessionID h1) \<or> \<not> validateSessionIDFormat (m_impersonatorSessionID h1) then Inr (403, m, st, dropped h1)
      else if m_sessionID h1 \<noteq> [] \<and> \<not> validateSessionAntiCSRFMechanism q then Inr (403, m, st, h1)
      else (case updateActivityOnImpersonatorSession time m st h1 of
              Inl e \<Rightarrow> Inl e
            | Inr (m1, st1) \<Rightarrow>
                (case openSession time m1 st1 (m_sessionID h1) of
                   (Some (w, maxAge), m2) \<Rightarrow>
                     (let h2 = h1\<lparr>m_currentWebSession := Some w, m_sessionMaxAge := maxAge, cur_authSession := Some (authSession w)\<rparr> in
                      if \<not> allowFloatingClients \<and> \<not> compareRemoteAddress w (remote_addr q) then Inr (403, m2, st1, dropped h2)
                      else if \<not> compareUserAgent w (user_agent q) then Inr (403, m2, st1, dropped h2)
                      else Inr (200, m2, st1, h2))
                 | (None, m2) \<Rightarrow> Inr (200, m2, st1, h1\<lparr>m_currentWebSession := None, m_destroySession := True, m_sessionID := []\<rparr>))))"

text \<open>Login with a token that was verified: the checks on impersonation, the new session and its
  cookies.\<close>

record login_config =
  permittedLoginOrigins :: "string set"
  allowImpersonation :: bool
  allowImpersonationBetweenDifferentDomains :: bool

definition handleAuthLoginFunction ::
  "login_config \<Rightarrow> int \<Rightarrow> token option \<Rightarrow> json \<Rightarrow> bytes \<times> bytes \<Rightarrow> nat \<Rightarrow> manager \<Rightarrow> store \<Rightarrow> handler \<Rightarrow> http_request \<Rightarrow> nat \<times> manager \<times> store \<times> handler" where
  "handleAuthLoginFunction cfg time verified info rnd p m st h q =
     (if origin q \<notin> permittedLoginOrigins cfg then (401, m, st, h)
      else (case verified of
              None \<Rightarrow> (307, m, st, h)
            | Some t \<Rightarrow>
                (let isImpersonation = (Json_Value.isMember (m_claims t) ''impersonator'' = Some True);
                     current = map_option st (cur_authSession h) in
                 if isImpersonation \<and> \<not> allowImpersonation cfg then (405, m, st, h)
                 else if \<not> isImpersonation \<and> m_currentWebSession h \<noteq> None then (403, m, st, h)
                 else if m_currentWebSession h \<noteq> None \<and> isImpersonation \<and> current \<noteq> None \<and> m_user (the current) \<noteq> getImpersonator t then (403, m, st, h)
                 else if m_currentWebSession h \<noteq> None \<and> isImpersonation \<and> current \<noteq> None \<and> getDomain t \<noteq> m_domain (the current) \<and>
                   allowImpersonationBetweenDifferentDomains cfg then (403, m, st, h)
                 else (let st1 = st(p := Session_new time t);
                           impersonatorSessionID = (if m_currentWebSession h \<noteq> None \<and> isImpersonation then m_sessionID h else []) in
                       case createSession m st1 p info rnd of
                         (sessionID, maxAge, m1) \<Rightarrow>
                           (let h1 = h\<lparr>m_sessionID := sessionID, m_sessionMaxAge := int maxAge\<rparr> in
                            if sessionID = [] then (503, m1, st1, h1)
                            else (let h2 = set_cookie ''sessionId'' sessionID (int maxAge) (h1\<lparr>cur_authSession := Some p\<rparr>);
                                      h3 = (if isImpersonation then set_cookie ''impersonatorSessionId'' impersonatorSessionID (int maxAge) h2 else h2) in
                                  (200, m1, st1, h3)))))))"

definition handleAuthLogoutFunction :: "handler \<Rightarrow> http_request \<Rightarrow> nat \<times> handler" where
  "handleAuthLogoutFunction h q =
     (if origin q \<noteq> [] \<or> \<not> validateSessionAntiCSRFMechanism q then (405, h) else (202, h\<lparr>m_destroySession := True\<rparr>))"

definition handleAuthUpdateLastActivityFunction :: "int \<Rightarrow> store \<Rightarrow> handler \<Rightarrow> http_request \<Rightarrow> nat \<times> store" where
  "handleAuthUpdateLastActivityFunction time st h q =
     (if origin q \<noteq> [] \<or> \<not> validateSessionAntiCSRFMechanism q then (405, st)
      else (202, case m_currentWebSession h of None \<Rightarrow> st | Some w \<Rightarrow> st(authSession w := updateLastActivity time (st (authSession w)))))"

definition setJSSessionHalfIDCookie :: "store \<Rightarrow> string \<Rightarrow> handler \<Rightarrow> handler" where
  "setJSSessionHalfIDCookie st sessionID h =
     (if monolith_isSessionActive h st then set_cookie ''jsSessionHalfID'' (truncateSessionId sessionID) (m_sessionMaxAge h) h else h)"

definition sessionLogout :: "int \<Rightarrow> manager \<Rightarrow> store \<Rightarrow> handler \<Rightarrow> http_request \<Rightarrow> stop + manager \<times> handler" where
  "sessionLogout time m st h q =
     (if \<not> validateSessionIDFormat (session_cookie q) then Inr (m, h)
      else (case openSession time m st (m_impersonatorSessionID h) of
              (parent, m1) \<Rightarrow>
                (case (if parent \<noteq> None then releaseSession m1 (m_impersonatorSessionID h) else Inr (True, m1)) of
                   Inl e \<Rightarrow> Inl e
                 | Inr (_, m2) \<Rightarrow>
                     (let h1 = (if \<not> m_destroySession h then h
                                else (case parent of
                                        None \<Rightarrow> clear_cookie ''sessionId'' (clear_cookie ''jsSessionHalfID'' (clear_cookie ''jsSessionTimeout'' h))
                                      | Some (_, age) \<Rightarrow>
                                          set_cookie ''sessionId'' (m_impersonatorSessionID h) (m_sessionMaxAge h)
                                            (clear_cookie ''impersonatorSessionId''
                                              (setJSSessionHalfIDCookie st (m_impersonatorSessionID h) (set_cookie ''jsSessionTimeout'' ''1'' age h))))) in
                      if m_sessionID h1 \<noteq> [] then
                        (case destroySession m2 st (m_sessionID h1) of Inl e \<Rightarrow> Inl e | Inr (_, m3) \<Rightarrow> Inr (m3, h1))
                      else Inr (m2, h1)))))"

definition sessionCleanup :: "int \<Rightarrow> manager \<Rightarrow> store \<Rightarrow> handler \<Rightarrow> http_request \<Rightarrow> stop + manager \<times> handler" where
  "sessionCleanup time m st h q =
     (if monolith_isSessionActive h st then
        (let h1 = set_cookie ''sessionId'' (m_sessionID h) (m_sessionMaxAge h)
                    (setJSSessionHalfIDCookie st (m_sessionID h) (set_cookie ''jsSessionTimeout'' ''1'' (m_sessionMaxAge h) h)) in
         case releaseSession m (m_sessionID h) of
           Inl e \<Rightarrow> Inl e
         | Inr (_, m1) \<Rightarrow> sessionLogout time m1 st h1 q)
      else sessionLogout time m st h q)"

end
