(* ===== verification/Session_Life.thy ===== *)
theory Session_Life
  imports Web_Sessions
begin

text \<open>
  The life of a session of the monolithic server: the invariant of the sessions manager under every
  use, what the garbage collector leaves behind, and what happens to a session at the end of a
  request, at login and when a request is refused.
\<close>

section \<open>Session identifiers\<close>

lemma random_charset: "list_all isalnum charset" "length charset = 62"
  by (simp_all add: charset_def cctype_defs)

lemma random_string_alnum: "length buffer = 12 \<Longrightarrow> alnum12 (createRandomString buffer)"
  using random_charset unfolding alnum12_def createRandomString_def list_all_length by simp

lemma new_id_valid:
  "length a = 12 \<Longrightarrow> length b = 12 \<Longrightarrow> validateSessionIDFormat (createRandomString a @ '':'' @ createRandomString b)"
  using random_string_alnum [of a] random_string_alnum [of b]
  by (simp add: validateSessionIDFormat_def nth_append alnum12_def)

section \<open>The manager\<close>

definition registered :: "manager \<Rightarrow> string \<Rightarrow> string \<Rightarrow> bool" where
  "registered m u sid \<longleftrightarrow> (\<exists>l. m_sessionClientInfo m u = Some l \<and> map_of l sid \<noteq> None)"

text \<open>A session that no client has open.\<close>

definition quiet :: "manager \<Rightarrow> string \<Rightarrow> web_session \<Rightarrow> bool" where
  "quiet m sid w \<longleftrightarrow> m_sessions m sid = Some \<lparr>me_item = Some w, numReaders = 0\<rparr>"

lemma open_quiet: "quiet m sid w \<Longrightarrow>
    openElement (m_sessions m) sid = (Some w, (m_sessions m)(sid \<mapsto> \<lparr>me_item = Some w, numReaders = 1\<rparr>))"
  by (simp add: quiet_def openElement_def)

lemma release_one: "m_sessions m sid = Some \<lparr>me_item = Some w, numReaders = 1\<rparr> \<Longrightarrow>
    releaseSession m sid = Inr (True, m\<lparr>m_sessions := (m_sessions m)(sid \<mapsto> \<lparr>me_item = Some w, numReaders = 0\<rparr>)\<rparr>)"
  by (simp add: releaseSession_def releaseElement_def)

lemma destroy_quiet: "quiet m sid w \<Longrightarrow> destroy_element m sid = Inr (True, m\<lparr>m_sessions := (m_sessions m)(sid := None)\<rparr>)"
  by (simp add: quiet_def destroy_element_def destroyElement_def destroy_loop_def element_at_def fun_upd_idem)

lemma open_release_quiet:
  assumes "quiet m sid w"
  shows "releaseSession (m\<lparr>m_sessions := (m_sessions m)(sid \<mapsto> \<lparr>me_item = Some w, numReaders = 1\<rparr>)\<rparr>) sid = Inr (True, m)"
proof -
  have "(m_sessions m)(sid \<mapsto> \<lparr>me_item = Some w, numReaders = 0\<rparr>) = m_sessions m" using assms by (simp add: quiet_def fun_upd_idem)
  then show ?thesis by (simp add: release_one [of _ _ w])
qed

lemma destroySession_quiet:
  assumes "quiet m sid w" "registered m (m_user (st (authSession w))) sid"
  shows "\<exists>m'. destroySession m st sid = Inr (True, m') \<and> m_sessions m' = (m_sessions m)(sid := None)"
  using assms
  by (auto simp: destroySession_def open_quiet open_release_quiet destroy_quiet registered_def Let_def)

definition same_info :: "manager \<Rightarrow> manager \<Rightarrow> bool" where
  "same_info m m' \<longleftrightarrow> m_sessionClientInfo m' = m_sessionClientInfo m \<and> m_maxSessionsPerUser m' = m_maxSessionsPerUser m \<and>
     m_MaxInactiveSeconds m' = m_MaxInactiveSeconds m"

lemma release_info: "releaseSession m sid = Inr (r, m') \<Longrightarrow> same_info m m'"
  by (auto simp: releaseSession_def same_info_def split: sum.splits prod.splits)

lemma destroy_info: "destroy_element m sid = Inr (r, m') \<Longrightarrow> same_info m m'"
  by (auto simp: destroy_element_def same_info_def split: prod.splits map_pc.splits)

lemma same_info_trans: "same_info a b \<Longrightarrow> same_info b c \<Longrightarrow> same_info a c"
  by (simp add: same_info_def)

lemma same_info_sessions [simp]: "same_info m (m\<lparr>m_sessions := ss\<rparr>)" "same_info (m\<lparr>m_sessions := ss\<rparr>) m' = same_info m m'" "same_info m m"
  by (simp_all add: same_info_def)

lemma gc_loop_info: "gc_loop time m st keys = Inr m' \<Longrightarrow> same_info m m'"
proof (induction keys arbitrary: m)
  case (Cons key keys)
  obtain r ss where o: "openElement (m_sessions m) key = (r, ss)" by fastforce
  show ?case
  proof (cases r)
    case None
    then show ?thesis using Cons.prems Cons.IH [of "m\<lparr>m_sessions := ss\<rparr>"] o by simp
  next
    case (Some s)
    then obtain b m1 where m1: "releaseSession (m\<lparr>m_sessions := ss\<rparr>) key = Inr (b, m1)"
      using Cons.prems o by (auto split: sum.splits prod.splits)
    have i1: "same_info m m1" using release_info [OF m1] by simp
    show ?thesis
    proof (cases "isLastActivityExpired time (st (authSession s)) (m_MaxInactiveSeconds m)")
      case True
      then obtain b2 m2 where m2: "destroy_element m1 key = Inr (b2, m2)" "gc_loop time m2 st keys = Inr m'"
        using Cons.prems o Some m1 by (auto split: sum.splits prod.splits)
      show ?thesis using same_info_trans [OF same_info_trans [OF i1 destroy_info [OF m2(1)]] Cons.IH [OF m2(2)]] .
    next
      case False
      then have "gc_loop time m1 st keys = Inr m'" using Cons.prems o Some m1 by simp
      then show ?thesis using same_info_trans [OF i1 Cons.IH] by blast
    qed
  qed
qed simp

lemma gc_loop_removes:
  assumes "\<forall>key \<in> set keys. m_sessions m key = None \<or> (\<exists>w. quiet m key w \<and> isLastActivityExpired time (st (authSession w)) (m_MaxInactiveSeconds m))"
  shows "gc_loop time m st keys = Inr (m\<lparr>m_sessions := (\<lambda>k. if k \<in> set keys then None else m_sessions m k)\<rparr>)"
  using assms
proof (induction keys arbitrary: m)
  case (Cons key keys)
  show ?case
  proof (cases "m_sessions m key")
    case None
    then have "openElement (m_sessions m) key = (None, m_sessions m)" by (simp add: openElement_def)
    moreover have "(\<lambda>k. if k \<in> set keys then None else m_sessions m k) = (\<lambda>k. if k \<in> set (key # keys) then None else m_sessions m k)"
      using None by auto
    ultimately show ?thesis using Cons.IH [of m] Cons.prems by simp
  next
    case (Some e)
    then obtain w where w: "quiet m key w" "isLastActivityExpired time (st (authSession w)) (m_MaxInactiveSeconds m)"
      using Cons.prems by auto
    let ?m = "m\<lparr>m_sessions := (m_sessions m)(key := None)\<rparr>"
    have "\<forall>k \<in> set keys. m_sessions ?m k = None \<or> (\<exists>w. quiet ?m k w \<and> isLastActivityExpired time (st (authSession w)) (m_MaxInactiveSeconds ?m))"
      using Cons.prems by (auto simp: quiet_def)
    then have "gc_loop time ?m st keys = Inr (?m\<lparr>m_sessions := (\<lambda>k. if k \<in> set keys then None else m_sessions ?m k)\<rparr>)" by (rule Cons.IH)
    moreover have "(\<lambda>k. if k \<in> set keys then None else m_sessions ?m k) = (\<lambda>k. if k \<in> set (key # keys) then None else m_sessions m k)" by auto
    ultimately show ?thesis using w by (simp add: open_quiet open_release_quiet destroy_quiet)
  qed
qed simp

lemma create_full:
  "m_sessionClientInfo m (m_user (st p)) = Some l \<Longrightarrow> m_maxSessionsPerUser m \<le> length l \<Longrightarrow> createSession m st p info rnd = ([], 0, m)"
  by (simp add: createSession_def Let_def)

lemma destroy_absent: "m_sessions m sid = None \<Longrightarrow> destroySession m st sid = Inr (False, m)"
  by (simp add: destroySession_def openElement_def)

section \<open>Properties\<close>

text \<open>An expired session keeps its place. When the collector has removed all the sessions of a
  server, each of them expired and in use by nobody, a user who had reached the limit of sessions
  is still refused a new one; and nothing can give the places back, since there is no session left
  to destroy.\<close>

theorem expired_sessions_keep_places:
  assumes "\<forall>sid. m_sessions m sid = None \<or> (\<exists>w. quiet m sid w \<and> isLastActivityExpired time (st (authSession w)) (m_MaxInactiveSeconds m))"
    and "dom (m_sessions m) = set keys"
    and "m_sessionClientInfo m (m_user (st' p)) = Some l" "m_maxSessionsPerUser m \<le> length l"
  shows "\<exists>m'. gc_loop time m st keys = Inr m' \<and> m_sessions m' = Map.empty \<and>
    (\<forall>info rnd. createSession m' st' p info rnd = ([], 0, m')) \<and> (\<forall>sid. destroySession m' st' sid = Inr (False, m'))"
proof -
  let ?m = "m\<lparr>m_sessions := (\<lambda>k. if k \<in> set keys then None else m_sessions m k)\<rparr>"
  have "gc_loop time m st keys = Inr ?m" by (rule gc_loop_removes) (use assms(1) in blast)
  moreover have "m_sessions ?m k = None" for k using assms(2) domIff [of k "m_sessions m"] by auto
  then have "m_sessions ?m = Map.empty" by blast
  ultimately show ?thesis using create_full [of ?m] destroy_absent [of ?m] assms(3,4) by (intro exI [of _ ?m]) simp
qed

definition demo_store :: store where
  "demo_store = (\<lambda>p. Session_new 0 (empty_token\<lparr>m_claims := JObject [(''sub'', JString ''ann'')]\<rparr>))"

definition demo_session :: web_session where
  "demo_session = \<lparr>authSession = 0, networkClientInfo = JObject [(''remoteAddress'', JString ''10.0.0.1''), (''userAgent'', JString ''curl/8'')]\<rparr>"

text \<open>One session of one user, where a user may have one.\<close>

definition demo_manager :: manager where
  "demo_manager = \<lparr>m_sessions = [''AAAAAAAAAAAA:BBBBBBBBBBBB'' \<mapsto> \<lparr>me_item = Some demo_session, numReaders = 0\<rparr>],
     m_sessionClientInfo = [''ann'' \<mapsto> [(''AAAAAAAAAAAA:BBBBBBBBBBBB'', networkClientInfo demo_session)]],
     m_MaxInactiveSeconds = 900, m_maxSessionsPerUser = 1\<rparr>"

lemma demo_user: "m_user (demo_store p) = ''ann''"
  by (simp add: demo_store_def Session_new_def getSubject_def ASSTRING_def has_def)

lemma demo_quiet: "quiet demo_manager ''AAAAAAAAAAAA:BBBBBBBBBBBB'' demo_session"
  by (simp add: quiet_def demo_manager_def)

theorem expired_sessions_keep_places_witness:
  "\<exists>m'. gc_loop 1000 demo_manager demo_store [''AAAAAAAAAAAA:BBBBBBBBBBBB''] = Inr m' \<and> createSession m' demo_store 0 JNull ([], []) = ([], 0, m')"
proof -
  have a: "\<forall>sid. m_sessions demo_manager sid = None \<or>
      (\<exists>w. quiet demo_manager sid w \<and> isLastActivityExpired 1000 (demo_store (authSession w)) (m_MaxInactiveSeconds demo_manager))"
    using demo_quiet by (auto simp: demo_manager_def demo_store_def Session_new_def isLastActivityExpired_def)
  have b: "dom (m_sessions demo_manager) = set [''AAAAAAAAAAAA:BBBBBBBBBBBB'']" by (simp add: demo_manager_def)
  have c: "m_sessionClientInfo demo_manager (m_user (demo_store 0)) = Some [(''AAAAAAAAAAAA:BBBBBBBBBBBB'', networkClientInfo demo_session)]"
    by (simp add: demo_manager_def demo_user)
  have d: "m_maxSessionsPerUser demo_manager \<le> length [(''AAAAAAAAAAAA:BBBBBBBBBBBB'', networkClientInfo demo_session)]"
    by (simp add: demo_manager_def)
  show ?thesis using expired_sessions_keep_places [where st = demo_store and st' = demo_store and p = 0, OF a b c d] by blast
qed

lemma open_none: "openElement m [] = (None, m') \<Longrightarrow> m' = m"
  by (auto simp: openElement_def split: option.splits)

lemma openSession_quiet: "quiet m sid w \<Longrightarrow> \<exists>age. openSession time m st sid =
    (Some (w, age), m\<lparr>m_sessions := (m_sessions m)(sid \<mapsto> \<lparr>me_item = Some w, numReaders = 1\<rparr>)\<rparr>)"
  by (simp add: openSession_def open_quiet Let_def)

lemma openSession_absent: "m_sessions m sid = None \<Longrightarrow> openSession time m st sid = (None, m)"
  by (simp add: openSession_def openElement_def)

lemma handler_cookies [simp]:
  "m_sessionID (set_cookie n v a h) = m_sessionID h" "m_impersonatorSessionID (set_cookie n v a h) = m_impersonatorSessionID h"
  "m_destroySession (set_cookie n v a h) = m_destroySession h" "cur_authSession (set_cookie n v a h) = cur_authSession h"
  "m_sessionID (clear_cookie n h) = m_sessionID h" "m_sessionMaxAge (set_cookie n v a h) = m_sessionMaxAge h"
  "m_sessionID (setJSSessionHalfIDCookie st s h) = m_sessionID h" "m_impersonatorSessionID (setJSSessionHalfIDCookie st s h) = m_impersonatorSessionID h"
  by (simp_all add: set_cookie_def clear_cookie_def setJSSessionHalfIDCookie_def)

text \<open>C38: a session of the monolithic server lasts one request. A request that comes with the cookie of a
  session, the matching header and the same client is given the session; but when it ends, whatever
  the handler did in between, the clean-up destroys the session, although nobody logged out.\<close>

theorem session_lasts_one_request:
  assumes "quiet m sid w" "registered m (m_user (st' (authSession w))) sid" "m_sessions m [] = None"
    and "validateSessionIDFormat sid" "sid \<noteq> []"
    and "session_cookie q = sid" "impersonator_cookie q = []" "half_session_header q = truncateSessionId sid"
    and "compareRemoteAddress w (remote_addr q)" "compareUserAgent w (user_agent q)"
  shows "\<exists>m1 h1 m2 h2. monolith_sessionStart time floating m st h q = Inr (200, m1, st, h1) \<and> cur_authSession h1 = Some (authSession w) \<and>
    sessionCleanup time' m1 st' h1 q = Inr (m2, h2) \<and> m_sessions m2 = (m_sessions m)(sid := None)"
proof -
  let ?m1 = "m\<lparr>m_sessions := (m_sessions m)(sid \<mapsto> \<lparr>me_item = Some w, numReaders = 1\<rparr>)\<rparr>"
  obtain age where age: "openSession time m st sid = (Some (w, age), ?m1)" using openSession_quiet [OF assms(1)] by blast
  let ?h1 = "h\<lparr>m_sessionID := sid, m_impersonatorSessionID := [], m_currentWebSession := Some w, m_sessionMaxAge := age, cur_authSession := Some (authSession w)\<rparr>"
  have start: "monolith_sessionStart time floating m st h q = Inr (200, ?m1, st, ?h1)"
    using assms age
    by (simp add: monolith_sessionStart_def validateSessionAntiCSRFMechanism_def updateActivityOnImpersonatorSession_def validateSessionIDFormat_def [of "[]"] Let_def)
  have rel: "releaseSession ?m1 sid = Inr (True, m)" by (rule open_release_quiet [OF assms(1)])
  obtain m2 where m2: "destroySession m st' sid = Inr (True, m2)" "m_sessions m2 = (m_sessions m)(sid := None)"
    using destroySession_quiet [of m sid w st'] assms(1,2) by blast
  have out: "\<exists>h2. sessionLogout time' m st' k q = Inr (m2, h2)" if "m_sessionID k = sid" "m_impersonatorSessionID k = []" for k
    using that m2(1) assms(3-6) openSession_absent [of m "[]"] by (simp add: sessionLogout_def Let_def)
  have "\<exists>h2. sessionCleanup time' ?m1 st' ?h1 q = Inr (m2, h2)"
    using rel by (simp add: sessionCleanup_def monolith_isSessionActive_def isSessionRevoked_def Let_def out)
  then obtain h2 where "sessionCleanup time' ?m1 st' ?h1 q = Inr (m2, h2)" by blast
  then show ?thesis using start m2(2) by (intro exI [of _ ?m1] exI [of _ ?h1] exI [of _ m2] exI [of _ h2]) simp
qed

definition demo_request :: http_request where
  "demo_request = \<lparr>session_cookie = ''AAAAAAAAAAAA:BBBBBBBBBBBB'', impersonator_cookie = [], half_session_header = ''AAAAAAAAAAAA'', origin = [],
     remote_addr = ''10.0.0.1'', user_agent = ''curl/8''\<rparr>"

lemma demo_format: "validateSessionIDFormat ''AAAAAAAAAAAA:BBBBBBBBBBBB''"
  by (simp add: validateSessionIDFormat_def alnum12_def cctype_defs)

lemma demo_registered: "registered demo_manager ''ann'' ''AAAAAAAAAAAA:BBBBBBBBBBBB''"
  by (simp add: registered_def demo_manager_def)

lemma demo_client: "compareRemoteAddress demo_session ''10.0.0.1''" "compareUserAgent demo_session ''curl/8''"
  by (simp_all add: compareRemoteAddress_def compareUserAgent_def demo_session_def ASSTRING_def has_def)

theorem session_lasts_one_request_witness:
  "\<exists>m1 h1 m2 h2. monolith_sessionStart 60 False demo_manager demo_store Handler_new demo_request = Inr (200, m1, demo_store, h1) \<and>
     sessionCleanup 61 m1 demo_store h1 demo_request = Inr (m2, h2) \<and> m_sessions m2 ''AAAAAAAAAAAA:BBBBBBBBBBBB'' = None"
  using session_lasts_one_request [of demo_manager "''AAAAAAAAAAAA:BBBBBBBBBBBB''" demo_session demo_store demo_request 60 False demo_store Handler_new 61]
    demo_quiet demo_registered demo_format demo_client
  by (auto simp: demo_user demo_manager_def demo_request_def truncateSessionId_def)

lemma createSession_new:
  "createSession m st p info rnd = (sid, age, m') \<Longrightarrow> sid \<noteq> [] \<Longrightarrow> quiet m' sid \<lparr>authSession = p, networkClientInfo = info\<rparr>"
  by (auto simp: createSession_def Let_def addElement_def element_at_def quiet_def split: if_splits prod.splits)

text \<open>A login that succeeds ends in an exception. The new session is put into the map but not opened,
  and the clean-up at the end of the request releases it: the map throws, and the user's place is
  taken.\<close>

theorem login_throws:
  assumes "handleAuthLoginFunction cfg time verified info rnd p m st h q = (200, m1, st1, h1)"
  shows "sessionCleanup time' m1 st1 h1 q' = Inl Invalid_close_on_map"
proof -
  obtain t where t: "verified = Some t"
    using assms by (auto simp: handleAuthLoginFunction_def split: if_splits option.splits)
  obtain sid age m' where cr: "createSession m (st(p := Session_new time t)) p info rnd = (sid, age, m')" by (metis prod_cases3)
  have "sid \<noteq> [] \<and> m1 = m' \<and> m_sessionID h1 = sid \<and> cur_authSession h1 = Some p"
    using assms unfolding t handleAuthLoginFunction_def
    by (simp add: cr Let_def split: if_splits) auto
  then have "m_sessionID h1 \<noteq> [] \<and> cur_authSession h1 \<noteq> None \<and> (\<exists>w. quiet m1 (m_sessionID h1) w)"
    using createSession_new [OF cr] by auto
  then show ?thesis
    by (auto simp: sessionCleanup_def monolith_isSessionActive_def isSessionRevoked_def quiet_def releaseSession_def releaseElement_def Let_def)
qed

definition demo_login :: login_config where
  "demo_login = \<lparr>permittedLoginOrigins = {''https://shop''}, allowImpersonation = False, allowImpersonationBetweenDifferentDomains = False\<rparr>"

theorem login_throws_witness:
  "\<exists>m1 st1 h1. handleAuthLoginFunction demo_login 60 (Some empty_token) JNull (replicate 12 (CHR ''0''), replicate 12 (CHR ''1'')) 7 Manager_new demo_store Handler_new
       (demo_request\<lparr>origin := ''https://shop''\<rparr>) = (200, m1, st1, h1) \<and>
     sessionCleanup 60 m1 st1 h1 (demo_request\<lparr>origin := ''https://shop''\<rparr>) = Inl Invalid_close_on_map"
proof -
  obtain m1 st1 h1 where "handleAuthLoginFunction demo_login 60 (Some empty_token) JNull (replicate 12 (CHR ''0''), replicate 12 (CHR ''1'')) 7 Manager_new demo_store Handler_new
       (demo_request\<lparr>origin := ''https://shop''\<rparr>) = (200, m1, st1, h1)"
    by (simp add: handleAuthLoginFunction_def demo_login_def empty_token_def Handler_new_def createSession_def Manager_new_def addElement_def Let_def)
  with login_throws [OF this] show ?thesis by blast
qed

lemma destroy_pinned:
  assumes "m_sessions m sid = Some \<lparr>me_item = Some w, numReaders = n\<rparr>" "n \<noteq> 0" "n + 1 \<noteq> 0"
  shows "destroySession m st sid = Inl Waits_for_readers"
  using assms by (simp add: destroySession_def openElement_def releaseSession_def releaseElement_def destroy_element_def destroyElement_def
      destroy_loop_def element_at_def Let_def)

text \<open>A request that is refused keeps its session open. When the address or the browser differs from
  those the session was made for, the request ends with 403 and without the clean-up: the reader
  it counted is never released, so destroying that session waits for ever.\<close>

theorem refused_request_pins_session:
  assumes "quiet m sid w" "validateSessionIDFormat sid" "sid \<noteq> []"
    and "session_cookie q = sid" "impersonator_cookie q = []" "half_session_header q = truncateSessionId sid"
    and "\<not> compareUserAgent w (user_agent q) \<or> \<not> compareRemoteAddress w (remote_addr q) \<and> \<not> floating"
  shows "\<exists>m1 h1. monolith_sessionStart time floating m st h q = Inr (403, m1, st, h1) \<and> destroySession m1 st' sid = Inl Waits_for_readers"
proof -
  let ?m1 = "m\<lparr>m_sessions := (m_sessions m)(sid \<mapsto> \<lparr>me_item = Some w, numReaders = 1\<rparr>)\<rparr>"
  obtain age where age: "openSession time m st sid = (Some (w, age), ?m1)" using openSession_quiet [OF assms(1)] by blast
  have "\<exists>h1. monolith_sessionStart time floating m st h q = Inr (403, ?m1, st, h1)"
    using assms age
    by (auto simp: monolith_sessionStart_def validateSessionAntiCSRFMechanism_def updateActivityOnImpersonatorSession_def validateSessionIDFormat_def [of "[]"] Let_def)
  moreover have "destroySession ?m1 st' sid = Inl Waits_for_readers" by (rule destroy_pinned [of _ _ w 1]) simp_all
  ultimately show ?thesis by blast
qed

theorem refused_request_pins_session_witness:
  "\<exists>m1 h1. monolith_sessionStart 60 False demo_manager demo_store Handler_new (demo_request\<lparr>remote_addr := ''10.0.0.2''\<rparr>) = Inr (403, m1, demo_store, h1) \<and>
     destroySession m1 demo_store ''AAAAAAAAAAAA:BBBBBBBBBBBB'' = Inl Waits_for_readers"
  using refused_request_pins_session [of demo_manager "''AAAAAAAAAAAA:BBBBBBBBBBBB''" demo_session "demo_request\<lparr>remote_addr := ''10.0.0.2''\<rparr>" False 60 demo_store Handler_new demo_store]
    demo_quiet demo_format
  by (simp add: demo_request_def truncateSessionId_def compareRemoteAddress_def demo_session_def ASSTRING_def has_def)

section \<open>The invariant of the manager\<close>

definition mgr_ok :: "manager \<Rightarrow> store \<Rightarrow> bool" where
  "mgr_ok m st \<longleftrightarrow>
     (\<forall>sid e. m_sessions m sid = Some e \<longrightarrow> (\<exists>w. me_item e = Some w \<and> registered m (m_user (st (authSession w))) sid)) \<and>
     (\<forall>u l. m_sessionClientInfo m u = Some l \<longrightarrow> length l \<le> max 1 (m_maxSessionsPerUser m))"

text \<open>Every use of the manager: a session is made for a new object, whose user never changes.\<close>

inductive mgr_step :: "manager \<times> store \<Rightarrow> manager \<times> store \<Rightarrow> bool" where
  creates: "createSession m (st(p := s)) p info rnd = (r, age, m') \<Longrightarrow>
    \<forall>sid e w. m_sessions m sid = Some e \<longrightarrow> me_item e = Some w \<longrightarrow> authSession w \<noteq> p \<Longrightarrow> mgr_step (m, st) (m', st(p := s))"
| opens: "openSession time m st sid = (r, m') \<Longrightarrow> mgr_step (m, st) (m', st)"
| releases: "releaseSession m sid = Inr (r, m') \<Longrightarrow> mgr_step (m, st) (m', st)"
| destroys: "destroySession m st sid = Inr (r, m') \<Longrightarrow> mgr_step (m, st) (m', st)"
| collects: "gc_loop time m st keys = Inr m' \<Longrightarrow> mgr_step (m, st) (m', st)"
| touches: "mgr_step (m, st) (m, st(p := updateLastActivity time (st p)))"

lemma mgr_ok_item:
  "mgr_ok m st \<Longrightarrow> m_sessions m sid = Some e \<Longrightarrow> \<exists>w. me_item e = Some w \<and> registered m (m_user (st (authSession w))) sid"
  unfolding mgr_ok_def by blast

lemma mgr_ok_length: "mgr_ok m st \<Longrightarrow> m_sessionClientInfo m u = Some l \<Longrightarrow> length l \<le> max 1 (m_maxSessionsPerUser m)"
  unfolding mgr_ok_def by blast

lemma mgr_ok_sessions:
  assumes "mgr_ok m st" "\<And>sid e. ss sid = Some e \<Longrightarrow> \<exists>e'. m_sessions m sid = Some e' \<and> me_item e' = me_item e"
  shows "mgr_ok (m\<lparr>m_sessions := ss\<rparr>) st"
  using assms unfolding mgr_ok_def registered_def by (simp, metis)

lemma openElement_items:
  "openElement m key = (r, ss) \<Longrightarrow> ss sid = Some e \<Longrightarrow> \<exists>e'. m sid = Some e' \<and> me_item e' = me_item e"
  by (auto simp: openElement_def split: option.splits if_splits)

lemma release_ok: "releaseSession m sid = Inr (r, m') \<Longrightarrow> mgr_ok m st \<Longrightarrow> mgr_ok m' st"
  by (auto simp: releaseSession_def releaseElement_def Let_def split: option.splits if_splits sum.splits intro!: mgr_ok_sessions)

lemma destroy_element_ok:
  assumes "destroy_element m sid = Inr (r, m')" "mgr_ok m st"
  shows "mgr_ok m' st \<and> (r \<longrightarrow> m_sessions m' sid = None)"
proof (cases "m_sessions m sid")
  case None
  then show ?thesis using assms by (auto simp: destroy_element_def destroyElement_def)
next
  case (Some e)
  then obtain w where w: "me_item e = Some w" using mgr_ok_item [OF assms(2)] by blast
  have "r \<and> m' = m\<lparr>m_sessions := (m_sessions m)(sid := None)\<rparr>"
    using assms(1) Some w by (auto simp: destroy_element_def destroyElement_def destroy_loop_def element_at_def Let_def split: if_splits)
  moreover have "mgr_ok (m\<lparr>m_sessions := (m_sessions m)(sid := None)\<rparr>) st"
    by (rule mgr_ok_sessions [OF assms(2)]) (auto split: if_splits)
  ultimately show ?thesis by simp
qed

lemma open_ok: "openElement (m_sessions m) sid = (r, ss) \<Longrightarrow> mgr_ok m st \<Longrightarrow> mgr_ok (m\<lparr>m_sessions := ss\<rparr>) st"
  by (rule mgr_ok_sessions) (auto dest: openElement_items)

lemma gc_ok: "gc_loop time m st keys = Inr m' \<Longrightarrow> mgr_ok m st \<Longrightarrow> mgr_ok m' st"
proof (induction keys arbitrary: m)
  case (Cons key keys)
  obtain r ss where o: "openElement (m_sessions m) key = (r, ss)" by fastforce
  have ok: "mgr_ok (m\<lparr>m_sessions := ss\<rparr>) st" using open_ok [OF o Cons.prems(2)] .
  show ?case
  proof (cases r)
    case None
    then show ?thesis using Cons.prems(1) Cons.IH [OF _ ok] o by simp
  next
    case (Some s)
    then obtain b m1 where m1: "releaseSession (m\<lparr>m_sessions := ss\<rparr>) key = Inr (b, m1)"
      using Cons.prems o by (auto split: sum.splits prod.splits)
    have ok1: "mgr_ok m1 st" using release_ok [OF m1 ok] .
    show ?thesis
    proof (cases "isLastActivityExpired time (st (authSession s)) (m_MaxInactiveSeconds m)")
      case True
      then obtain b2 m2 where m2: "destroy_element m1 key = Inr (b2, m2)" "gc_loop time m2 st keys = Inr m'"
        using Cons.prems o Some m1 by (auto split: sum.splits prod.splits)
      show ?thesis using Cons.IH [OF m2(2)] destroy_element_ok [OF m2(1) ok1] by blast
    next
      case False
      then show ?thesis using Cons.prems o Some m1 Cons.IH [OF _ ok1] by simp
    qed
  qed
qed simp

lemma unregister_ok:
  assumes "mgr_ok m st" "m_sessions m sid = None" "m_sessionClientInfo m u = Some l"
  shows "mgr_ok (m\<lparr>m_sessionClientInfo := (m_sessionClientInfo m)(u := if AList.delete sid l = [] then None else Some (AList.delete sid l))\<rparr>) st"
proof -
  let ?m = "m\<lparr>m_sessionClientInfo := (m_sessionClientInfo m)(u := if AList.delete sid l = [] then None else Some (AList.delete sid l))\<rparr>"
  have del: "map_of (AList.delete sid l) k = map_of l k" if "k \<noteq> sid" for k using that by (simp add: AList.delete_conv)
  have reg: "registered ?m v k" if k: "registered m v k" "k \<noteq> sid" for v k
  proof (cases "v = u")
    case True
    then have "map_of (AList.delete sid l) k \<noteq> None" using k assms(3) del by (auto simp: registered_def)
    moreover from this have "AList.delete sid l \<noteq> []" by auto
    ultimately show ?thesis using True by (simp add: registered_def)
  qed (use k in \<open>simp add: registered_def\<close>)
  have "\<exists>w. me_item e = Some w \<and> registered ?m (m_user (st (authSession w))) k" if e: "m_sessions ?m k = Some e" for k e
  proof -
    obtain w where "me_item e = Some w" "registered m (m_user (st (authSession w))) k" using mgr_ok_item [OF assms(1), of k e] e by auto
    moreover have "k \<noteq> sid" using e assms(2) by auto
    ultimately show ?thesis using reg by blast
  qed
  moreover have "length l' \<le> max 1 (m_maxSessionsPerUser ?m)" if "m_sessionClientInfo ?m v = Some l'" for v l'
    using that mgr_ok_length [OF assms(1), of v] mgr_ok_length [OF assms(1,3)] AList.length_delete_le [of sid l]
    by (cases "v = u") (auto split: if_splits)
  ultimately show ?thesis unfolding mgr_ok_def by blast
qed

lemma destroySession_ok:
  assumes "mgr_ok m st"
  shows "destroySession m st sid \<noteq> Inl Unregistered_session \<and> (\<forall>r m'. destroySession m st sid = Inr (r, m') \<longrightarrow> mgr_ok m' st)"
proof -
  obtain r ss where o: "openElement (m_sessions m) sid = (r, ss)" by fastforce
  have ok: "mgr_ok (m\<lparr>m_sessions := ss\<rparr>) st" using open_ok [OF o assms] .
  show ?thesis
  proof (cases r)
    case None
    then show ?thesis using o ok by (simp add: destroySession_def)
  next
    case (Some s)
    let ?u = "m_user (st (authSession s))"
    have reg: "registered m ?u sid"
      using o Some assms unfolding mgr_ok_def openElement_def by (fastforce split: option.splits)
    show ?thesis
    proof (cases "releaseSession (m\<lparr>m_sessions := ss\<rparr>) sid")
      case (Inl e)
      then show ?thesis using o Some by (auto simp: destroySession_def releaseSession_def Let_def split: sum.splits)
    next
      case (Inr x)
      then obtain b m1 where m1: "releaseSession (m\<lparr>m_sessions := ss\<rparr>) sid = Inr (b, m1)" by (cases x) auto
      have ok1: "mgr_ok m1 st" using release_ok [OF m1 ok] .
      show ?thesis
      proof (cases "destroy_element m1 sid")
        case (Inl e)
        then show ?thesis using o Some m1 by (auto simp: destroySession_def destroy_element_def Let_def split: prod.splits map_pc.splits)
      next
        case (Inr y)
        then obtain c m2 where m2: "destroy_element m1 sid = Inr (c, m2)" by (cases y) auto
        have ok2: "mgr_ok m2 st" "c \<Longrightarrow> m_sessions m2 sid = None" using destroy_element_ok [OF m2 ok1] by auto
        have "m_sessionClientInfo m2 = m_sessionClientInfo m"
          using release_info [OF m1] destroy_info [OF m2] by (simp add: same_info_def)
        then obtain l where l: "m_sessionClientInfo m2 ?u = Some l" "map_of l sid \<noteq> None" using reg by (auto simp: registered_def)
        show ?thesis using o Some m1 m2 l ok2 unregister_ok [OF ok2(1) _ l(1), of sid]
          by (cases c) (auto simp: destroySession_def Let_def)
      qed
    qed
  qed
qed

lemma length_update_le: "length (AList.update k v l) \<le> Suc (length l)"
  by (induction l) auto

lemma createSession_ok:
  assumes "createSession m st p info rnd = (r, age, m')" "mgr_ok m st"
  shows "mgr_ok m' st"
proof (cases "m_sessionClientInfo m (m_user (st p)) \<noteq> None \<and> length (the (m_sessionClientInfo m (m_user (st p)))) \<ge> m_maxSessionsPerUser m")
  case True
  then show ?thesis using assms by (auto simp: createSession_def Let_def)
next
  case False
  let ?u = "m_user (st p)" and ?sid = "createRandomString (fst rnd) @ '':'' @ createRandomString (snd rnd)"
  let ?l = "case m_sessionClientInfo m ?u of None \<Rightarrow> [] | Some l \<Rightarrow> l"
  let ?l' = "AList.update ?sid info ?l"
  let ?w = "\<lparr>authSession = p, networkClientInfo = info\<rparr>"
  have m': "m' = m\<lparr>m_sessionClientInfo := (m_sessionClientInfo m)(?u \<mapsto> ?l'),
      m_sessions := if m_sessions m ?sid = None then (m_sessions m)(?sid \<mapsto> \<lparr>me_item = Some ?w, numReaders = 0\<rparr>) else m_sessions m\<rparr>"
    using assms(1) False by (auto simp: createSession_def Let_def addElement_def element_at_def split: if_splits)
  have "registered m' ?u ?sid" by (simp add: m' registered_def AList.update_conv')
  moreover have "registered m v k \<Longrightarrow> registered m' v k" for v k
    by (auto simp: m' registered_def AList.update_conv')
  ultimately have "\<exists>w. me_item e = Some w \<and> registered m' (m_user (st (authSession w))) k" if "m_sessions m' k = Some e" for k e
  proof (cases "m_sessions m k = Some e")
    case True
    then show ?thesis using mgr_ok_item [OF assms(2)] \<open>\<And>v k. registered m v k \<Longrightarrow> registered m' v k\<close> by blast
  next
    case False
    then have "k = ?sid" "e = \<lparr>me_item = Some ?w, numReaders = 0\<rparr>" using that by (auto simp: m' split: if_splits)
    then show ?thesis using \<open>registered m' ?u ?sid\<close> by simp
  qed
  moreover have "length l \<le> max 1 (m_maxSessionsPerUser m')" if "m_sessionClientInfo m' v = Some l" for v l
    using that False mgr_ok_length [OF assms(2), of v] length_update_le [of ?sid info ?l]
    by (auto simp: m' split: if_splits option.splits)
  ultimately show ?thesis unfolding mgr_ok_def by blast
qed

lemma mgr_ok_users: "mgr_ok m st \<Longrightarrow> \<forall>sid e w. m_sessions m sid = Some e \<longrightarrow> me_item e = Some w \<longrightarrow> m_user (st' (authSession w)) = m_user (st (authSession w))
    \<Longrightarrow> mgr_ok m st'"
  unfolding mgr_ok_def by metis

lemma mgr_step_ok: "mgr_step s s' \<Longrightarrow> (case s of (m, st) \<Rightarrow> mgr_ok m st) \<Longrightarrow> (case s' of (m, st) \<Rightarrow> mgr_ok m st)"
proof (induction rule: mgr_step.induct)
  case (creates m st p s info rnd r age m')
  have "mgr_ok m (st(p := s))"
  proof (rule mgr_ok_users [of m st])
    show "mgr_ok m st" using creates.prems by simp
    show "\<forall>sid e w. m_sessions m sid = Some e \<longrightarrow> me_item e = Some w \<longrightarrow> m_user ((st(p := s)) (authSession w)) = m_user (st (authSession w))"
      using creates.hyps(2) by simp
  qed
  then show ?case using createSession_ok creates.hyps(1) by simp
next
  case (opens time m st sid r m')
  obtain x ss where "openElement (m_sessions m) sid = (x, ss)" by fastforce
  then show ?case using opens open_ok by (cases x) (auto simp: openSession_def Let_def)
next
  case (touches m st p time)
  then show ?case by (auto intro!: mgr_ok_users [of m st] simp: updateLastActivity_def)
next
  case (releases m sid r m' st)
  then show ?case using release_ok [OF releases.hyps] by simp
next
  case (destroys m st sid r m')
  then show ?case using destroySession_ok [of m st sid] by simp
next
  case (collects time m st keys m')
  then show ?case using gc_ok [OF collects.hyps] by simp
qed

definition sessions_of :: "manager \<Rightarrow> store \<Rightarrow> string \<Rightarrow> string set" where
  "sessions_of m st u = {sid. \<exists>e w. m_sessions m sid = Some e \<and> me_item e = Some w \<and> m_user (st (authSession w)) = u}"



end
