(* ===== verification/Html_Engine.thy ===== *)
theory Html_Engine
  imports Access_Control Helpers_Encoders Boost_Strings
begin

text \<open>
  The template engine of the web servers, \<open>Server_WebCore/htmliengine.cpp\<close>: the inclusion of files and
  the tags that are replaced by variables of the server, the session, the request, or by the result
  of an API function. The tags of the standard regular expressions are recognised by the definitions
  below; the inclusion tags are found by boost, so their search is a parameter, as are the files, the
  JSON writer and reader of jsoncpp and the API functions. Positions are naturals: the source keeps
  them in an \<open>int\<close>, so that the model describes pages below two gigabytes.
\<close>

section \<open>Strings\<close>

definition istarts_with :: "string \<Rightarrow> string \<Rightarrow> bool" where
  "istarts_with s p \<longleftrightarrow> map tolower (take (length p) s) = map tolower p"

text \<open>\<open>std::regex_search\<close>: the leftmost position where the pattern matches.\<close>

fun search :: "(string \<Rightarrow> 'm option) \<Rightarrow> string \<Rightarrow> (nat \<times> 'm) option" where
  "search m [] = map_option (Pair 0) (m [])"
| "search m (c # cs) =
     (case m (c # cs) of Some x \<Rightarrow> Some (0, x) | None \<Rightarrow> map_option (\<lambda>(i, x). (Suc i, x)) (search m cs))"

section \<open>The patterns\<close>

text \<open>A variable tag: the length of the match, the command and the value. In the value \<open>%\<close> does not
  occur, so the pattern has one way to match.\<close>

definition tag_char :: "char \<Rightarrow> bool" where
  "tag_char c \<longleftrightarrow> isalnum c \<or> c = CHR ''_'' \<or> c = CHR ''/''"

definition tag_open :: "bool \<Rightarrow> string" where
  "tag_open html = (if html then ''<!--<%'' else ''//<%'')"

definition tag_close :: "bool \<Rightarrow> string" where
  "tag_close html = (if html then ''%>-->'' else ''%>//'')"

definition j_tag :: "bool \<Rightarrow> string \<Rightarrow> (nat \<times> string \<times> string) option" where
  "j_tag html s =
     (let r = drop (length (tag_open html)) s;
          command = takeWhile tag_char (tl r);
          r1 = dropWhile tag_char (tl r);
          r2 = dropWhile (\<lambda>c. c = CHR '' '') (tl r1);
          r3 = dropWhile (\<lambda>c. c \<noteq> CHR ''%'') r2 in
      if take (length (tag_open html)) s = tag_open html \<and> r \<noteq> [] \<and> hd r \<in> {CHR ''j'', CHR ''J''} \<and>
         command \<noteq> [] \<and> r1 \<noteq> [] \<and> hd r1 = CHR '':'' \<and> take (length (tag_close html)) r3 = tag_close html
      then Some (length s - length r3 + length (tag_close html), command, takeWhile (\<lambda>c. c \<noteq> CHR ''%'') r2)
      else None)"

text \<open>\<open>name(input)\<close> in the definition of a function tag.\<close>

definition call_at :: "string \<Rightarrow> (string \<times> string) option" where
  "call_at s =
     (let name = takeWhile (\<lambda>c. c \<noteq> CHR ''('') s;
          r = dropWhile (\<lambda>c. c \<noteq> CHR ''('') s;
          input = takeWhile (\<lambda>c. c \<noteq> CHR '')'') (tl r);
          r1 = dropWhile (\<lambda>c. c \<noteq> CHR '')'') (tl r) in
      if name \<noteq> [] \<and> r \<noteq> [] \<and> r1 \<noteq> [] then Some (name, input) else None)"

text \<open>\<open>METHOD/vN/name\<close>, the whole text; the last part is on one line.\<close>

definition split_function_name :: "string \<Rightarrow> (string \<times> string \<times> string) option" where
  "split_function_name s =
     (let m = takeWhile (\<lambda>c. c \<noteq> CHR ''/'') s;
          r = dropWhile (\<lambda>c. c \<noteq> CHR ''/'') s;
          v = takeWhile (\<lambda>c. c \<noteq> CHR ''/'') (drop 2 r);
          r1 = dropWhile (\<lambda>c. c \<noteq> CHR ''/'') (drop 2 r);
          n = tl r1 in
      if m \<noteq> [] \<and> take 2 r = ''/v'' \<and> v \<noteq> [] \<and> r1 \<noteq> [] \<and> n \<noteq> [] \<and> list_all (\<lambda>c. c \<noteq> CHR 0x0A \<and> c \<noteq> CHR 0x0D) n
      then Some (m, v, n) else None)"

section \<open>The environment of a page\<close>

record page_env =
  include_search :: "bool \<Rightarrow> string \<Rightarrow> (string \<times> string \<times> string) option"
  open_file :: "string \<Rightarrow> string option"
  fast_write :: "json \<Rightarrow> string"
  read_json :: "string \<Rightarrow> json"
  api_request :: "nat \<Rightarrow> string \<Rightarrow> string \<Rightarrow> json \<Rightarrow> json"
  documentRootPath :: string
  softwareVersion :: string

text \<open>What the client handler knows of the session and the request.\<close>

record session_view =
  sv_isImpersonation :: bool
  sv_impersonator :: string
  sv_halfSessionId :: string
  sv_user :: string
  sv_domain :: string

record page_request =
  pg_session :: "session_view option"
  pg_extra :: "(string \<times> json) list"
  pg_session_vars :: "string \<rightharpoonup> json"
  pg_tlsCommonName :: string
  pg_remote_addr :: string
  pg_userAgent :: string
  pg_get_vars :: "string \<rightharpoonup> string"
  pg_post_vars :: "string \<rightharpoonup> string"

definition fillSessionInfo :: "page_request \<Rightarrow> (string \<times> json) list \<Rightarrow> (string \<times> json) list" where
  "fillSessionInfo q jVars =
     [(''userAgent'', JString (pg_userAgent q)), (''userIP'', JString (pg_remote_addr q)), (''userTLSCommonName'', JString (pg_tlsCommonName q))] @
     (case pg_session q of
        None \<Rightarrow> [(''loggedIn'', JBool False)]
      | Some v \<Rightarrow> [(''loggedIn'', JBool True), (''domain'', JString (sv_domain v)), (''user'', JString (sv_user v)),
           (''halfSessionID'', JString (sv_halfSessionId v)), (''impersonator'', JString (sv_impersonator v)),
           (''isImpersonation'', JBool (sv_isImpersonation v))]) @ jVars"

section \<open>Variables\<close>

definition replaceByJVar :: "page_env \<Rightarrow> json \<Rightarrow> string \<Rightarrow> bool \<Rightarrow> string" where
  "replaceByJVar env v scriptVarName useHTMLFrame =
     (let str = replace_all ''>'' [CHR 0x5C, CHR ''>''] (replace_all ''<'' [CHR 0x5C, CHR ''<''] (filter (\<lambda>c. c \<noteq> CHR 0x0A) (fast_write env v))) in
      if scriptVarName = [] then str
      else if useHTMLFrame
      then ''<script>'' @ [CHR 0x0A] @ ''const '' @ scriptVarName @ '' = '' @ str @ '';'' @ [CHR 0x0A] @ ''</script>''
      else ''const '' @ scriptVarName @ '' = '' @ str @ '';'' @ [CHR 0x0A])"

definition procResource_HTMLIEngineJSESSVAR :: "page_env \<Rightarrow> page_request \<Rightarrow> string \<Rightarrow> string \<Rightarrow> bool \<Rightarrow> string" where
  "procResource_HTMLIEngineJSESSVAR env q scriptVarName varName frame =
     (case pg_session_vars q varName of None \<Rightarrow> replaceByJVar env JNull scriptVarName frame | Some v \<Rightarrow> replaceByJVar env v scriptVarName frame)"

definition procResource_HTMLIEngineJVAR :: "page_env \<Rightarrow> page_request \<Rightarrow> string \<Rightarrow> string \<Rightarrow> bool \<Rightarrow> string" where
  "procResource_HTMLIEngineJVAR env q scriptVarName varName frame =
     (let jVars = pg_extra q @ fillSessionInfo q [(''softwareVersion'', JString (softwareVersion env))] in
      case map_of jVars varName of
        Some v \<Rightarrow> replaceByJVar env v scriptVarName frame
      | None \<Rightarrow> (case pg_session_vars q varName of
                   Some v \<Rightarrow> replaceByJVar env v scriptVarName frame
                 | None \<Rightarrow> replaceByJVar env JNull scriptVarName frame))"

definition procResource_HTMLIEngineJGETVAR :: "page_env \<Rightarrow> page_request \<Rightarrow> string \<Rightarrow> string \<Rightarrow> bool \<Rightarrow> string" where
  "procResource_HTMLIEngineJGETVAR env q scriptVarName varName frame =
     (case pg_get_vars q varName of Some v \<Rightarrow> replaceByJVar env (JString v) scriptVarName frame | None \<Rightarrow> replaceByJVar env JNull scriptVarName frame)"

definition procResource_HTMLIEngineJPOSTVAR :: "page_env \<Rightarrow> page_request \<Rightarrow> string \<Rightarrow> string \<Rightarrow> bool \<Rightarrow> string" where
  "procResource_HTMLIEngineJPOSTVAR env q scriptVarName varName frame =
     (case pg_post_vars q varName of Some v \<Rightarrow> replaceByJVar env (JString v) scriptVarName frame | None \<Rightarrow> replaceByJVar env JNull scriptVarName frame)"

definition procJAPI_Exec :: "page_env \<Rightarrow> string \<Rightarrow> string \<Rightarrow> json" where
  "procJAPI_Exec env functionName functionInput =
     (let vars = read_json env functionInput in
      case split_function_name functionName of
        Some (m, v, n) \<Rightarrow> api_request env (unat (ucast (strtoul (c_str v)) :: 32 word)) m n vars
      | None \<Rightarrow> api_request env 1 ''POST'' functionName vars)"

definition procResource_HTMLIEngineJFUNC :: "page_env \<Rightarrow> string \<Rightarrow> string \<Rightarrow> bool \<Rightarrow> string" where
  "procResource_HTMLIEngineJFUNC env scriptVarName functionDef frame =
     (case search call_at functionDef of
        Some (_, name, input) \<Rightarrow> replaceByJVar env (procJAPI_Exec env name (replaceHexCodes input)) scriptVarName frame
      | None \<Rightarrow> replaceByJVar env JNull scriptVarName frame)"

text \<open>The commands of a tag, tried in the order of the source; a later one overrides an earlier one.\<close>

definition j_command :: "page_env \<Rightarrow> page_request \<Rightarrow> bool \<Rightarrow> string \<Rightarrow> string \<Rightarrow> string" where
  "j_command env q frame command val =
     (let r0 = ''null'';
          r1 = (if istarts_with command ''VAR/'' then procResource_HTMLIEngineJVAR env q (drop 4 command) val frame else r0);
          r2 = (if istarts_with command ''GETVAR/'' then procResource_HTMLIEngineJGETVAR env q (drop 7 command) val frame else r1);
          r3 = (if istarts_with command ''POSTVAR/'' then procResource_HTMLIEngineJPOSTVAR env q (drop 8 command) val frame else r2);
          r4 = (if istarts_with command ''FUNC/'' then procResource_HTMLIEngineJFUNC env (drop 5 command) val frame else r3) in
      if istarts_with command ''SESS/'' then procResource_HTMLIEngineJSESSVAR env q (drop 5 command) val frame else r4)"


lemma j_tag_bounds: "j_tag html s = Some (len, c, v) \<Longrightarrow> 0 < len \<and> len \<le> length s"
proof -
  assume m: "j_tag html s = Some (len, c, v)"
  define r3 where "r3 = dropWhile (\<lambda>c. c \<noteq> CHR ''%'') (dropWhile (\<lambda>c. c = CHR '' '') (tl (dropWhile tag_char (tl (drop (length (tag_open html)) s)))))"
  have len: "len = length s - length r3 + length (tag_close html)" and cl: "take (length (tag_close html)) r3 = tag_close html"
    and ne: "s \<noteq> []" using m by (auto simp: j_tag_def Let_def r3_def tag_close_def tag_open_def split: if_splits)
  have "length r3 \<le> length (dropWhile tag_char (tl (drop (length (tag_open html)) s)))"
    unfolding r3_def by (intro order_trans [OF length_dropWhile_le] order_trans [OF length_dropWhile_le]) simp
  then have "length r3 \<le> length s" using length_dropWhile_le [of tag_char "tl (drop (length (tag_open html)) s)"] by simp
  moreover have "length (tag_close html) \<le> length r3" using cl by (metis length_take min.cobounded1)
  moreover have "0 < length (tag_close html)" by (simp add: tag_close_def)
  ultimately show ?thesis using len by linarith
qed

lemma search_bounds: "search m s = Some (i, x) \<Longrightarrow> i \<le> length s \<and> m (drop i s) = Some x"
  by (induction m s arbitrary: i rule: search.induct) (auto split: option.splits)

lemma search_tag: "search (j_tag html) s = Some (i, len, c, v) \<Longrightarrow> 0 < len \<and> i + len \<le> length s"
  using search_bounds [of "j_tag html" s i "(len, c, v)"] j_tag_bounds [of html "drop i s" len c v] by auto

section \<open>The passes over a page\<close>

text \<open>One pass over the variable tags: the search goes on behind what was put in.\<close>

function j_loop :: "(string \<Rightarrow> string \<Rightarrow> string) \<Rightarrow> bool \<Rightarrow> string \<Rightarrow> nat \<Rightarrow> string" where
  "j_loop rep html inp pos =
     (case search (j_tag html) (drop pos inp) of
        None \<Rightarrow> inp
      | Some (i, len, command, val) \<Rightarrow>
          (let absolute_pos = pos + i; replacedBy = rep command val in
           j_loop rep html (take absolute_pos inp @ replacedBy @ drop (absolute_pos + len) inp) (absolute_pos + length replacedBy)))"
  by pat_completeness auto
termination
  by (relation "measure (\<lambda>(rep, html, inp, pos). length inp - pos)") (auto dest!: search_tag)

declare j_loop.simps [simp del]

definition procResource_JProcessor :: "page_env \<Rightarrow> page_request \<Rightarrow> string \<Rightarrow> string" where
  "procResource_JProcessor env q inp = j_loop (j_command env q True) True (j_loop (j_command env q False) False inp 0) 0"

text \<open>Inclusion: after each one the page is searched from its start again, so the loop may not end.\<close>

definition included :: "page_env \<Rightarrow> string \<Rightarrow> string \<Rightarrow> string" where
  "included env tag includePath =
     (case open_file env (documentRootPath env @ includePath) of
        Some content \<Rightarrow>
          if length tag > 1 \<and> hd tag = CHR ''/''
          then ''<'' @ tl tag @ ''>'' @ content @ ''</'' @ tl tag @ ''>'' else content
      | None \<Rightarrow> ''<!-- HTMLI ENGINE ERROR (FILE NOT FOUND): '' @ includePath @ '' -->'')"

partial_function (option) include_loop :: "page_env \<Rightarrow> bool \<Rightarrow> string \<Rightarrow> string option" where
  "include_loop env js content =
     (case include_search env js content of
        None \<Rightarrow> Some content
      | Some (fulltag, tag, includePath) \<Rightarrow> include_loop env js (replace_all fulltag (included env tag includePath) content))"

definition procResource_HTMLIEngineInclude :: "page_env \<Rightarrow> string \<Rightarrow> string \<Rightarrow> string option" where
  "procResource_HTMLIEngineInclude env ctype content = include_loop env (ctype = ''application/javacript'') content"


section \<open>The response\<close>

text \<open>The part of \<open>HTTPv1_Base::Response\<close> that serving a file touches. A data streamer is seen through
  the bytes it gives; the default streamer is an empty container.\<close>

record response =
  contentType :: string
  resp_content :: string
  cacheImmutable :: bool
  lastModified :: "int option"
  location :: "string option"

definition setContentType :: "string \<Rightarrow> response \<Rightarrow> response" where
  "setContentType t r = r\<lparr>contentType := t\<rparr>"

definition setDataStreamer :: "string option \<Rightarrow> response \<Rightarrow> response" where
  "setDataStreamer d r =
     (case d of
        None \<Rightarrow> (setContentType [] (r\<lparr>lastModified := None, cacheImmutable := False\<rparr>))\<lparr>resp_content := []\<rparr>
      | Some bs \<Rightarrow> r\<lparr>resp_content := bs\<rparr>)"

definition setRedirectLocation :: "string \<Rightarrow> response \<Rightarrow> nat \<times> response" where
  "setRedirectLocation l r = (307, setDataStreamer None (r\<lparr>location := Some l\<rparr>))"

definition processResourceFile :: "page_env \<Rightarrow> page_request \<Rightarrow> string \<Rightarrow> response \<Rightarrow> (nat \<times> response) option" where
  "processResourceFile env q sRealFullPath r =
     (let r1 = setDataStreamer None r in
      case (if take 4 sRealFullPath = ''MEM:'' then Some (resp_content r) else open_file env sRealFullPath) of
        None \<Rightarrow> Some (404, r1)
      | Some fileContent \<Rightarrow>
          (case procResource_HTMLIEngineInclude env (contentType r1) fileContent of
             None \<Rightarrow> None
           | Some c \<Rightarrow> Some (200, r1\<lparr>resp_content := resp_content r1 @ procResource_JProcessor env q c\<rparr>)))"

section \<open>A reference for one pass\<close>

text \<open>Each tag of the page is replaced where it stands, and the rest after it is treated alike.\<close>

function render :: "(string \<Rightarrow> string \<Rightarrow> string) \<Rightarrow> bool \<Rightarrow> string \<Rightarrow> string" where
  "render rep html s =
     (case search (j_tag html) s of None \<Rightarrow> s | Some (i, len, c, v) \<Rightarrow> take i s @ rep c v @ render rep html (drop (i + len) s))"
  by pat_completeness auto
termination
  by (relation "measure (\<lambda>(rep, html, s). length s)") (auto dest!: search_tag)

declare render.simps [simp del]

lemma j_loop_render: "pos \<le> length s \<Longrightarrow> j_loop rep html s pos = take pos s @ render rep html (drop pos s)"
proof (induction rep html s pos rule: j_loop.induct)
  case (1 rep html s pos)
  show ?case
  proof (cases "search (j_tag html) (drop pos s)")
    case None
    then show ?thesis by (subst j_loop.simps, subst render.simps) simp
  next
    case (Some x)
    obtain i len c v where x: "x = (i, len, c, v)" by (metis prod_cases4)
    have b: "i + len \<le> length s - pos" using search_tag [OF Some [unfolded x]] by simp
    have A: "length (take (pos + i) s) = pos + i" using b "1.prems" by simp
    have "j_loop rep html s pos = take (pos + i) s @ rep c v @ render rep html (drop (pos + i + len) s)"
      using "1.IH" [OF Some x [symmetric] refl refl refl refl] A by (subst j_loop.simps) (simp add: Some x Let_def)
    also have "\<dots> = take pos s @ take i (drop pos s) @ rep c v @ render rep html (drop (i + len) (drop pos s))"
      unfolding take_add [of pos i s] by (simp add: add.commute add.left_commute)
    also have "\<dots> = take pos s @ render rep html (drop pos s)"
      by (simp add: render.simps [of rep html "drop pos s"] Some x)
    finally show ?thesis .
  qed
qed


section \<open>Pages of text and tags\<close>

lemma search_None: "(\<forall>i \<le> length s. m (drop i s) = None) \<Longrightarrow> search m s = None"
proof (induction s)
  case (Cons c cs)
  have "m (c # cs) = None" using Cons.prems by (metis drop_0 zero_le)
  moreover have "search m cs = None" by (rule Cons.IH) (use Cons.prems in \<open>metis drop_Suc_Cons length_Cons Suc_le_mono\<close>)
  ultimately show ?case by simp
qed simp

lemma search_first: "m (drop i s) = Some x \<Longrightarrow> i \<le> length s \<Longrightarrow> (\<forall>j < i. m (drop j s) = None) \<Longrightarrow> search m s = Some (i, x)"
proof (induction i arbitrary: s)
  case 0
  then show ?case by (cases s) auto
next
  case (Suc i)
  then obtain c cs where s: "s = c # cs" by (cases s) auto
  have "search m cs = Some (i, x)" by (rule Suc.IH) (use Suc.prems s in force)+
  moreover have "m s = None" using Suc.prems(3) by (metis drop_0 zero_less_Suc)
  ultimately show ?case by (simp add: s)
qed

lemma j_tag_open: "j_tag html s = Some x \<Longrightarrow> occurs_at (tag_open html) s 0"
  by (auto simp: j_tag_def occurs_at_0 Let_def split: if_splits)

text \<open>A text without the opening marker, followed by the marker, has it there first: no part of the
  marker is also its beginning.\<close>

definition unbordered :: "'a list \<Rightarrow> bool" where
  "unbordered n \<longleftrightarrow> list_all (\<lambda>k. drop k n \<noteq> take (length n - k) n) [1..<length n]"

lemma tag_open_unbordered: "unbordered (tag_open html)"
  by (cases html) (simp_all add: unbordered_def tag_open_def upt_rec)

lemma occurs_before:
  assumes "unbordered n" "find_sub n t = None" "i < length t"
  shows "\<not> occurs_at n (t @ n @ u) i"
proof
  assume o: "occurs_at n (t @ n @ u) i"
  show False
  proof (cases "i + length n \<le> length t")
    case True
    then have "occurs_at n t i" using o by (simp add: occurs_at_def)
    then show False using assms(2) by (simp add: find_sub_None_iff)
  next
    case False
    define k where "k = length t - i"
    have k: "0 < k" "k < length n" using False assms(3) by (auto simp: k_def)
    have n: "take (length n) (drop i t @ n @ u) = n" using o assms(3) by (simp add: occurs_at_def)
    have "drop k n = drop k (take (length n) (drop i t @ n @ u))" by (simp only: n)
    also have "\<dots> = take (length n - k) n" using k by (simp add: drop_take k_def)
    finally show False using assms(1) k by (auto simp: unbordered_def list_all_iff)
  qed
qed


definition make_tag :: "bool \<Rightarrow> string \<Rightarrow> string \<Rightarrow> string" where
  "make_tag html c v = tag_open html @ ''j'' @ c @ '':'' @ v @ tag_close html"

definition tag_ok :: "string \<Rightarrow> string \<Rightarrow> bool" where
  "tag_ok c v \<longleftrightarrow> c \<noteq> [] \<and> list_all tag_char c \<and> CHR ''%'' \<notin> set v \<and> (v = [] \<or> hd v \<noteq> CHR '' '')"

lemma until_char: "x \<notin> set v \<Longrightarrow> takeWhile (\<lambda>c. c \<noteq> x) (v @ x # r) = v" "x \<notin> set v \<Longrightarrow> dropWhile (\<lambda>c. c \<noteq> x) (v @ x # r) = x # r"
  by (induction v) auto

lemma j_tag_make: "tag_ok c v \<Longrightarrow> j_tag html (make_tag html c v @ u) = Some (length (make_tag html c v), c, v)"
proof -
  assume ok: "tag_ok c v"
  have colon: "\<not> tag_char (CHR '':'')" by (simp add: tag_char_def cctype_defs)
  let ?cl = "tag_close html @ u"
  have cl: "\<exists>r. ?cl = CHR ''%'' # r" by (simp add: tag_close_def)
  have c: "takeWhile tag_char (c @ '':'' @ v @ ?cl) = c" "dropWhile tag_char (c @ '':'' @ v @ ?cl) = '':'' @ v @ ?cl"
    using ok colon by (auto simp: tag_ok_def list_all_iff takeWhile_append2 dropWhile_append2)
  have v1: "dropWhile (\<lambda>c. c = CHR '' '') (v @ ?cl) = v @ ?cl" using ok cl by (cases v) (auto simp: tag_ok_def)
  have v2: "takeWhile (\<lambda>c. c \<noteq> CHR ''%'') (v @ ?cl) = v" "dropWhile (\<lambda>c. c \<noteq> CHR ''%'') (v @ ?cl) = ?cl"
    using ok cl by (auto simp: tag_ok_def until_char)
  show ?thesis using ok c v1 v2 colon
    by (simp add: j_tag_def make_tag_def Let_def tag_ok_def)
qed

lemma render_text: "find_sub (tag_open html) t = None \<Longrightarrow> render rep html t = t"
proof -
  assume t: "find_sub (tag_open html) t = None"
  have "search (j_tag html) t = None"
  proof (rule search_None, intro allI impI)
    fix i assume i: "i \<le> length t"
    have "\<not> occurs_at (tag_open html) (drop i t) 0" using t i by (auto simp: find_sub_None_iff occurs_at_def)
    then show "j_tag html (drop i t) = None" using j_tag_open by (metis not_None_eq)
  qed
  then show ?thesis by (simp add: render.simps)
qed

lemma render_tag:
  assumes "find_sub (tag_open html) t = None" "tag_ok c v"
  shows "render rep html (t @ make_tag html c v @ u) = t @ rep c v @ render rep html u"
proof -
  let ?s = "t @ make_tag html c v @ u"
  have before: "j_tag html (drop j ?s) = None" if "j < length t" for j
  proof -
    have "\<not> occurs_at (tag_open html) ?s j"
      using occurs_before [OF tag_open_unbordered assms(1) that] by (simp add: make_tag_def)
    then have "\<not> occurs_at (tag_open html) (drop j ?s) 0" using that by (auto simp: occurs_at_def)
    then show ?thesis using j_tag_open by (metis not_None_eq)
  qed
  have "search (j_tag html) ?s = Some (length t, length (make_tag html c v), c, v)"
    by (rule search_first) (use before in \<open>simp_all add: j_tag_make [OF assms(2)]\<close>)
  then show ?thesis by (simp add: render.simps [of _ _ ?s])
qed

definition page :: "string \<Rightarrow> (string \<times> string \<times> string) list \<Rightarrow> string" where
  "page t0 ps = t0 @ concat (map (\<lambda>(c, v, t). make_tag True c v @ t) ps)"

lemma render_page:
  "find_sub (tag_open True) t0 = None \<Longrightarrow> \<forall>(c, v, t) \<in> set ps. tag_ok c v \<and> find_sub (tag_open True) t = None \<Longrightarrow>
   render rep True (page t0 ps) = t0 @ concat (map (\<lambda>(c, v, t). rep c v @ t) ps)"
proof (induction ps arbitrary: t0)
  case Nil
  then show ?case by (simp add: page_def render_text)
next
  case (Cons p ps)
  obtain c v t where p: "p = (c, v, t)" by (metis prod_cases3)
  have "page t0 (p # ps) = t0 @ make_tag True c v @ page t ps" by (simp add: page_def p)
  then show ?case using Cons p by (simp add: render_tag)
qed


section \<open>Inclusion\<close>

definition has :: "string \<Rightarrow> string \<Rightarrow> bool" where
  "has n s \<longleftrightarrow> find_sub n s \<noteq> None"

lemma has_iff: "has n s \<longleftrightarrow> (\<exists>as bs. s = as @ n @ bs)"
  by (auto simp: has_def find_sub_None_iff occurs_at_split)

lemma replace_all_has: "has n s \<Longrightarrow> n \<noteq> [] \<Longrightarrow> has m r \<Longrightarrow> has m (replace_all n r s)"
proof (induction s)
  case Nil
  then show ?case by (simp add: has_def)
next
  case (Cons c cs)
  show ?case
  proof (cases "take (length n) (c # cs) = n")
    case True
    then have "replace_all n r (c # cs) = r @ replace_all n r (drop (length n) (c # cs))"
      using Cons.prems(2) by (simp add: replace_all.simps [of _ _ "c # cs"])
    then show ?thesis using Cons.prems(3) by (metis append.assoc has_iff)
  next
    case False
    then have "has n cs" using Cons.prems(1) by (auto simp: has_def)
    then have "has m (replace_all n r cs)" using Cons.IH Cons.prems by blast
    moreover have "replace_all n r (c # cs) = c # replace_all n r cs" using False by (simp add: replace_all.simps [of _ _ "c # cs"])
    ultimately show ?thesis by (metis append_Cons has_iff)
  qed
qed

lemma included_has: "open_file env (documentRootPath env @ path) = Some f \<Longrightarrow> has n f \<Longrightarrow> has n (included env tag path)"
  by (auto simp: included_def has_iff) (metis append.assoc append_Cons)+

lemma include_loop_never_ends:
  assumes step: "\<And>s. P s \<Longrightarrow> \<exists>T tag path. include_search env js s = Some (T, tag, path) \<and> P (replace_all T (included env tag path) s)"
    and "P s"
  shows "include_loop env js s = None"
proof -
  have "env' = env \<longrightarrow> js' = js \<longrightarrow> \<not> P s'" if "include_loop env' js' s' = Some y" for env' js' s' y
    using _ that
  proof (rule include_loop.raw_induct)
    fix f env' js' s' y
    assume ih: "\<And>env' js' s' y. f env' js' s' = Some y \<Longrightarrow> env' = env \<longrightarrow> js' = js \<longrightarrow> \<not> P s'"
      and run: "(case include_search env' js' s' of None \<Rightarrow> Some s'
        | Some (fulltag, tag, includePath) \<Rightarrow> f env' js' (replace_all fulltag (included env' tag includePath) s')) = Some y"
    show "env' = env \<longrightarrow> js' = js \<longrightarrow> \<not> P s'"
    proof (intro impI notI)
      assume e: "env' = env" "js' = js" and p: "P s'"
      obtain T tag path where "include_search env js s' = Some (T, tag, path)" "P (replace_all T (included env tag path) s')"
        using step [OF p] by blast
      then show False using ih [of env js "replace_all T (included env tag path) s'" y] run e by simp
    qed
  qed
  then show ?thesis using assms(2) by (metis not_None_eq)
qed


section \<open>Properties\<close>

text \<open>C27: a page comes out with every tag replaced. A page that is made of texts and HTML tags between
  them, where no text holds the opening of a tag and nothing looks like a tag of scripts, is
  answered with the same texts and, in place of each tag, the value of its command, in order and
  each put in once: what a value contains is not searched for tags again.\<close>

theorem page_tags_replaced:
  assumes "find_sub (tag_open True) t0 = None" "\<forall>(c, v, t) \<in> set ps. tag_ok c v \<and> find_sub (tag_open True) t = None"
    and "find_sub (tag_open False) (page t0 ps) = None"
  shows "procResource_JProcessor env q (page t0 ps) = t0 @ concat (map (\<lambda>(c, v, t). j_command env q True c v @ t) ps)"
  using assms by (simp add: procResource_JProcessor_def j_loop_render render_text render_page)

definition demo_page_env :: page_env where
  "demo_page_env = \<lparr>include_search = (\<lambda>_ _. None), open_file = (\<lambda>_. None),
     fast_write = (\<lambda>j. case j of JString s \<Rightarrow> ''\"'' @ s @ ''\"'' @ [CHR 0x0A] | _ \<Rightarrow> ''null'' @ [CHR 0x0A]),
     read_json = (\<lambda>_. JNull), api_request = (\<lambda>_ _ _ _. JNull), documentRootPath = ''/srv'', softwareVersion = ''3''\<rparr>"

definition demo_page_request :: page_request where
  "demo_page_request = \<lparr>pg_session = None, pg_extra = [], pg_session_vars = Map.empty, pg_tlsCommonName = [], pg_remote_addr = ''10.0.0.1'',
     pg_userAgent = ''b'', pg_get_vars = [''q'' \<mapsto> ''<!--<%jVAR/x:userIP%>-->''], pg_post_vars = Map.empty\<rparr>"

theorem page_tags_replaced_witness:
  "procResource_JProcessor demo_page_env demo_page_request (page ''<p>'' [(''GETVAR/'', ''q'', ''</p>'')]) =
   ''<p>'' @ j_command demo_page_env demo_page_request True ''GETVAR/'' ''q'' @ ''</p>''"
  using page_tags_replaced [of "''<p>''" "[(''GETVAR/'', ''q'', ''</p>'')]" demo_page_env demo_page_request]
  by (simp add: page_def make_tag_def tag_open_def tag_close_def tag_ok_def tag_char_def cctype_defs)

text \<open>A value of the request can end the script it stands in. The values are put between script tags
  with a backslash before each angle bracket, but \<open></script\<close> followed by a blank still ends the
  script: when a request has it in a variable that the page shows, the answer holds it before its
  own end of the script, and what follows in the value is read as HTML.\<close>

theorem get_variable_ends_script:
  assumes "pg_get_vars q n = Some v" "fast_write env (JString v) = a @ ''</script '' @ b" "scriptVarName \<noteq> []"
  shows "\<exists>x y. procResource_HTMLIEngineJGETVAR env q scriptVarName n True = ''<script>'' @ x @ ''</script '' @ y @ ''</script>''"
proof -
  define esc where "esc s = replace_all ''>'' [CHR 0x5C, CHR ''>''] (replace_all ''<'' [CHR 0x5C, CHR ''<''] (filter (\<lambda>c. c \<noteq> CHR 0x0A) s))" for s
  let ?pre = "[CHR 0x0A] @ ''const '' @ scriptVarName @ '' = '' @ esc a @ [CHR 0x5C]" and ?post = "esc b @ '';'' @ [CHR 0x0A]"
  have "esc (a @ ''</script '' @ b) = esc a @ [CHR 0x5C] @ ''</script '' @ esc b" by (simp add: esc_def replace_all_char)
  then have "procResource_HTMLIEngineJGETVAR env q scriptVarName n True = ''<script>'' @ ?pre @ ''</script '' @ ?post @ ''</script>''"
    using assms by (simp add: procResource_HTMLIEngineJGETVAR_def replaceByJVar_def Let_def esc_def)
  then show ?thesis by blast
qed

definition attack_request :: page_request where
  "attack_request = demo_page_request\<lparr>pg_get_vars := [''q'' \<mapsto> ''</script ><img src=x onerror=alert(1) >'']\<rparr>"

theorem get_variable_ends_script_witness:
  "\<exists>x y. procResource_HTMLIEngineJGETVAR demo_page_env attack_request ''query'' ''q'' True = ''<script>'' @ x @ ''</script '' @ y @ ''</script>''"
  by (rule get_variable_ends_script [where v = "''</script ><img src=x onerror=alert(1) >''" and a = "''\"''" and b = "''><img src=x onerror=alert(1) >\"'' @ [CHR 0x0A]"])
    (simp_all add: attack_request_def demo_page_env_def)

text \<open>C39: inclusion may never end. When every inclusion tag of a site names a file that holds an inclusion
  tag itself, for example a page that includes itself, then a page with such a tag is never
  completed and its request hangs.\<close>

theorem include_cycle_hangs:
  assumes "\<forall>s. (\<exists>T \<in> tags. has T s) \<longrightarrow>
      (\<exists>T tag path f. T \<in> tags \<and> has T s \<and> include_search env (ctype = ''application/javacript'') s = Some (T, tag, path) \<and>
         open_file env (documentRootPath env @ path) = Some f \<and> (\<exists>T' \<in> tags. has T' f))"
    and "[] \<notin> tags" "T \<in> tags" "has T content"
  shows "procResource_HTMLIEngineInclude env ctype content = None"
  unfolding procResource_HTMLIEngineInclude_def
proof (rule include_loop_never_ends [where P = "\<lambda>s. \<exists>T \<in> tags. has T s"])
  fix s assume "\<exists>T \<in> tags. has T s"
  then obtain T tag path f T' where "T \<in> tags" "has T s" "include_search env (ctype = ''application/javacript'') s = Some (T, tag, path)"
    "open_file env (documentRootPath env @ path) = Some f" "T' \<in> tags" "has T' f"
    using assms(1) by blast
  moreover from this have "has T' (replace_all T (included env tag path) s)"
    using assms(2) by (intro replace_all_has included_has) auto
  ultimately show "\<exists>T tag path. include_search env (ctype = ''application/javacript'') s = Some (T, tag, path) \<and>
      (\<exists>T' \<in> tags. has T' (replace_all T (included env tag path) s))" by blast
qed (use assms in blast)


definition loop_env :: page_env where
  "loop_env = demo_page_env\<lparr>include_search := (\<lambda>_ s. if has ''<!--<%include: /p.html%>-->'' s then Some (''<!--<%include: /p.html%>-->'', [], ''/p.html'') else None),
     open_file := [''/srv/p.html'' \<mapsto> ''<p><!--<%include: /p.html%>--></p>'']\<rparr>"

theorem include_cycle_hangs_witness: "procResource_HTMLIEngineInclude loop_env ''text/html'' ''<p><!--<%include: /p.html%>--></p>'' = None"
proof -
  let ?T = "''<!--<%include: /p.html%>-->''"
  have p: "has ?T ''<p><!--<%include: /p.html%>--></p>''" by (simp add: has_def)
  have o: "open_file loop_env (documentRootPath loop_env @ ''/p.html'') = Some ''<p><!--<%include: /p.html%>--></p>''"
    by (simp add: loop_env_def demo_page_env_def)
  have s: "has ?T s \<Longrightarrow> include_search loop_env b s = Some (?T, [], ''/p.html'')" for b s by (simp add: loop_env_def)
  show ?thesis
    by (rule include_cycle_hangs [of "{?T}" _ _ ?T]) (use p o s in blast, simp, simp, rule p)
qed

end
