(* ===== verification/Web_Files.thy ===== *)
theory Web_Files
  imports Html_Engine
begin

text \<open>
  Files served from disk: the resolution of a request to a file below the document root or an
  overlapped directory (\<open>Protocol_HTTP/httpv1_server_filepaths.cpp\<close>), the content type of a file
  (\<open>httpv1_server_mimetypes.cpp\<close>), the static elements (\<open>httpv1_server_staticcontent.cpp\<close>), and the
  request for a regular file with the resource filter and the template engine
  (\<open>Server_WebCore/apiserver_clienthandler.cpp\<close>). The calls of the operating system are the record
  \<open>fs\<close>; a file that is mapped is seen through its bytes.
\<close>

section \<open>The file system\<close>

datatype file_kind = Directory | Regular | Special

record fs =
  realpath :: "string \<Rightarrow> string option"
  stat_kind :: "string \<Rightarrow> file_kind"
  stat_mtime :: "string \<Rightarrow> int"
  access_read :: "string \<Rightarrow> bool"
  access_exec :: "string \<Rightarrow> bool"
  referenceFile :: "string \<Rightarrow> string option"

definition with_slash :: "string \<Rightarrow> string" where
  "with_slash p = (if p \<noteq> [] \<and> last p = CHR ''/'' then p else p @ ''/'')"

section \<open>Content types and static elements\<close>

record file_server =
  m_mimeTypes :: "string \<rightharpoonup> string"
  m_currentFileExtension :: string
  m_staticContentElements :: "string \<rightharpoonup> string option"
  includeDate :: bool

definition setMimeTypeForFileExtension :: "string \<Rightarrow> string \<Rightarrow> file_server \<Rightarrow> file_server" where
  "setMimeTypeForFileExtension ext type s = s\<lparr>m_mimeTypes := (m_mimeTypes s)(ext \<mapsto> type)\<rparr>"

text \<open>From the last point of the path on; a path without one, or that ends with it, has none.\<close>

definition file_extension :: "string \<Rightarrow> string option" where
  "file_extension path =
     (let s = c_str path; e = takeWhile (\<lambda>c. c \<noteq> CHR ''.'') (rev s) in
      if CHR ''.'' \<notin> set s \<or> e = [] then None else Some (CHR ''.'' # rev e))"

definition detectContentTypeFromFilePath :: "string \<Rightarrow> file_server \<Rightarrow> response \<Rightarrow> bool \<times> file_server \<times> response" where
  "detectContentTypeFromFilePath path s r =
     (case file_extension path of
        None \<Rightarrow> (False, s, r)
      | Some ext \<Rightarrow>
          (let e = map tolower ext; s1 = s\<lparr>m_currentFileExtension := e\<rparr> in
           case m_mimeTypes s e of
             Some t \<Rightarrow> (True, s1, setContentType t r)
           | None \<Rightarrow> (False, s1, setContentType [] r)))"

definition verifyStaticContentExistence :: "file_server \<Rightarrow> string \<Rightarrow> bool" where
  "verifyStaticContentExistence s path \<longleftrightarrow> m_staticContentElements s path \<noteq> None"

definition addStaticContent :: "string \<Rightarrow> string option \<Rightarrow> file_server \<Rightarrow> file_server" where
  "addStaticContent path el s = s\<lparr>m_staticContentElements := (m_staticContentElements s)(path \<mapsto> el)\<rparr>"

text \<open>The subscript operator of the map: a path that is absent is entered with a null pointer.\<close>

definition static_at :: "file_server \<Rightarrow> string \<Rightarrow> string option \<times> file_server" where
  "static_at s path = (case m_staticContentElements s path of Some e \<Rightarrow> (e, s) | None \<Rightarrow> (None, addStaticContent path None s))"

section \<open>Resolution of a path\<close>

record file_info =
  relativePath :: string
  fullPath :: string
  isDirectory :: bool
  isExecutable :: bool
  isTransversal :: bool
  info_exists :: bool

definition no_info :: file_info where
  "no_info = \<lparr>relativePath = [], fullPath = [], isDirectory = False, isExecutable = False, isTransversal = False, info_exists = False\<rparr>"

definition resolveDirPathWithSlashAtEnd :: "fs \<Rightarrow> string \<Rightarrow> string" where
  "resolveDirPathWithSlashAtEnd F p =
     (case realpath F p of None \<Rightarrow> [] | Some r \<Rightarrow> if r \<noteq> [] \<and> last r \<noteq> CHR ''/'' then r @ ''/'' else r)"

record overlap_info =
  fileSystemRealPath :: string
  serverWebRootWithEndingSlash :: string
  urlPathPrefix :: string

definition detectPathTraversal :: "overlap_info \<Rightarrow> bool" where
  "detectPathTraversal i \<longleftrightarrow>
     length (fileSystemRealPath i) < length (serverWebRootWithEndingSlash i) \<or>
     take (length (serverWebRootWithEndingSlash i)) (fileSystemRealPath i) \<noteq> serverWebRootWithEndingSlash i"

definition getRelativePath :: "overlap_info \<Rightarrow> string" where
  "getRelativePath i = urlPathPrefix i @ drop (length (serverWebRootWithEndingSlash i)) (fileSystemRealPath i)"

text \<open>The document root and the overlapped directories whose prefix the request has.\<close>

definition overlaps :: "fs \<Rightarrow> string \<Rightarrow> (string \<times> string) list \<Rightarrow> string \<Rightarrow> string \<Rightarrow> overlap_info list" where
  "overlaps F root overlappedDirectories requestedURI requestURIWithDefaultFile =
     \<lparr>fileSystemRealPath = root @ requestURIWithDefaultFile, serverWebRootWithEndingSlash = root, urlPathPrefix = ''/''\<rparr> #
     List.map_filter (\<lambda>(prefix, dir).
       if prefix = [] \<or> dir = [] \<or> take (length prefix) requestedURI \<noteq> prefix then None
       else (let r = resolveDirPathWithSlashAtEnd F dir in
             if r = [] then None
             else Some \<lparr>fileSystemRealPath = r @ drop (length prefix - 1) requestURIWithDefaultFile, serverWebRootWithEndingSlash = r, urlPathPrefix = prefix\<rparr>))
       overlappedDirectories"

datatype selection = Not_found | Traversal bool | Selected overlap_info bool

fun select_overlap :: "fs \<Rightarrow> overlap_info list \<Rightarrow> selection" where
  "select_overlap F [] = Not_found"
| "select_overlap F (i # is) =
     (case realpath F (fileSystemRealPath i) of
        None \<Rightarrow> select_overlap F is
      | Some p \<Rightarrow>
          (let dir = (stat_kind F p = Directory);
               sel = i\<lparr>fileSystemRealPath := (if dir then with_slash p else p)\<rparr> in
           if detectPathTraversal sel then Traversal dir else Selected sel dir))"

definition cacheable :: "response \<Rightarrow> response" where
  "cacheable r = r\<lparr>cacheImmutable := True\<rparr>"

definition resolveLocalFilePathFromURI2 ::
  "fs \<Rightarrow> string \<Rightarrow> (string \<times> string) list \<Rightarrow> string \<Rightarrow> string \<Rightarrow> bool \<Rightarrow> file_server \<Rightarrow> response \<Rightarrow> bool \<times> file_info \<times> file_server \<times> response" where
  "resolveLocalFilePathFromURI2 F docRoot overlappedDirectories requestedURI defaultFileToAppend preventMappingExecutables s r =
     (let root = resolveDirPathWithSlashAtEnd F docRoot;
          name = (if length requestedURI \<le> 1 then ''/'' else tl requestedURI) @ defaultFileToAppend in
      if root = [] then (False, no_info, s, r)
      else if verifyStaticContentExistence s name then
        (let info = no_info\<lparr>relativePath := requestedURI @ defaultFileToAppend, fullPath := ''MEM:'' @ requestedURI @ defaultFileToAppend\<rparr> in
         case detectContentTypeFromFilePath (relativePath info) s (cacheable r) of
           (_, s1, r1) \<Rightarrow> (case static_at s1 (relativePath info) of (e, s2) \<Rightarrow> (True, info, s2, setDataStreamer e r1)))
      else (case select_overlap F (overlaps F root overlappedDirectories requestedURI name) of
              Not_found \<Rightarrow> (False, no_info, s, r)
            | Traversal dir \<Rightarrow> (False, no_info\<lparr>isDirectory := dir, isTransversal := True\<rparr>, s, r)
            | Selected sel dir \<Rightarrow>
                (let p = fileSystemRealPath sel;
                     named = no_info\<lparr>isDirectory := dir, info_exists := True, fullPath := p, relativePath := getRelativePath sel\<rparr> in
                 if dir then
                   (if defaultFileToAppend \<noteq> [] then (False, no_info\<lparr>isDirectory := True, info_exists := True\<rparr>, s, r)
                    else (access_read F p, named, s, r))
                 else (case stat_kind F p of
                         Regular \<Rightarrow>
                           if preventMappingExecutables \<and> access_exec F p then (True, named\<lparr>isExecutable := True\<rparr>, s, r)
                           else (case referenceFile F p of
                                   None \<Rightarrow> (False, no_info\<lparr>info_exists := True\<rparr>, s, r)
                                 | Some bytes \<Rightarrow>
                                     (case detectContentTypeFromFilePath (relativePath named) s (setDataStreamer (Some bytes) r) of
                                        (_, s1, r1) \<Rightarrow> (True, named, s1, cacheable (if includeDate s then r1\<lparr>lastModified := Some (stat_mtime F p)\<rparr> else r1))))
                       | _ \<Rightarrow> (False, no_info, s, r)))))"

text \<open>The two forms that only compute a path.\<close>

definition resolveLocalFilePathFromURI0NE :: "fs \<Rightarrow> string \<Rightarrow> string \<Rightarrow> bool \<times> file_info" where
  "resolveLocalFilePathFromURI0NE F uri sServerDir =
     (case realpath F sServerDir of
        None \<Rightarrow> (False, no_info)
      | Some d \<Rightarrow>
          (let dir = with_slash d in
           case realpath F (dir @ tl uri) of
             None \<Rightarrow> (False, no_info)
           | Some p \<Rightarrow>
               if length p < length dir \<or> take (length dir) p \<noteq> dir then (False, no_info\<lparr>isTransversal := True\<rparr>)
               else (True, no_info\<lparr>fullPath := p, relativePath := drop (length dir - 1) p\<rparr>)))"

definition resolveLocalFilePathFromURI0E :: "fs \<Rightarrow> string \<Rightarrow> string \<Rightarrow> bool \<times> file_info" where
  "resolveLocalFilePathFromURI0E F uri sServerDir =
     (case realpath F sServerDir of
        None \<Rightarrow> (False, no_info)
      | Some d \<Rightarrow>
          (let dir = with_slash d in
           case realpath F (dir @ tl uri) of
             None \<Rightarrow> (False, no_info)
           | Some q \<Rightarrow>
               (let isdir = (stat_kind F q = Directory); p = (if isdir then with_slash q else q); info = no_info\<lparr>isDirectory := isdir\<rparr> in
                if length p < length dir \<or> take (length dir) p \<noteq> dir then (False, info\<lparr>isTransversal := True\<rparr>)
                else (True, info\<lparr>fullPath := p, relativePath := drop (length dir - 1) p\<rparr>))))"


section \<open>The request for a file\<close>

record files_config =
  cfg_documentRootPath :: string
  cfg_overlappedDirectories :: "(string \<times> string) list"
  resourceFilter :: "resource_filter list option"
  useHTMLIEngine :: bool
  redirectPathOn404 :: string

text \<open>The names that are tried for a request, until one resolves.\<close>

fun resolve_any :: "fs \<Rightarrow> files_config \<Rightarrow> string \<Rightarrow> string list \<Rightarrow> file_info \<Rightarrow> file_server \<Rightarrow> response \<Rightarrow> bool \<times> file_info \<times> file_server \<times> response" where
  "resolve_any F cfg uri [] info s r = (False, info, s, r)"
| "resolve_any F cfg uri (d # ds) info s r =
     (case resolveLocalFilePathFromURI2 F (cfg_documentRootPath cfg) (cfg_overlappedDirectories cfg) uri d False s r of
        (ok, info1, s1, r1) \<Rightarrow> if ok then (True, info1, s1, r1) else resolve_any F cfg uri ds info1 s1 r1)"

text \<open>The verdict of the filter on a file that was found, or 404, and the response after it.\<close>

definition file_status ::
  "(string \<Rightarrow> string \<Rightarrow> bool) \<Rightarrow> files_config \<Rightarrow> string set \<Rightarrow> string set \<Rightarrow> bool \<Rightarrow> bool \<Rightarrow> file_info \<Rightarrow> response \<Rightarrow> nat \<times> response" where
  "file_status rx cfg scopes roles active ok info r =
     (if ok \<and> \<not> isDirectory info then
        (case (case resourceFilter cfg of None \<Rightarrow> (True, []) | Some fs \<Rightarrow> evaluateURI rx fs (relativePath info) scopes roles active) of
           (accept, redirect) \<Rightarrow>
             if accept then (if redirect = [] then (200, r) else setRedirectLocation redirect r) else (403, r))
      else (404, r))"

definition handleRegularFileRequest ::
  "fs \<Rightarrow> (string \<Rightarrow> string \<Rightarrow> bool) \<Rightarrow> page_env \<Rightarrow> page_request \<Rightarrow> files_config \<Rightarrow> string set \<Rightarrow> string set \<Rightarrow> bool \<Rightarrow> string \<Rightarrow> file_server \<Rightarrow> response
     \<Rightarrow> (nat \<times> file_server \<times> response) option" where
  "handleRegularFileRequest F rx env q cfg scopes roles active uri s r =
     (if cfg_documentRootPath cfg = [] then Some (404, s, r)
      else (case resolve_any F cfg uri [''.html'', ''index.html'', []] no_info s r of
              (ok, info, s1, r1) \<Rightarrow>
                (case file_status rx cfg scopes roles active ok info r1 of
                   (ret, r2) \<Rightarrow>
                     (let r3 = (if ret \<noteq> 200 then setDataStreamer None r2 else r2) in
                      case (if useHTMLIEngine cfg \<and> contentType r3 \<in> {''text/html'', ''application/javascript''}
                            then processResourceFile env q (fullPath info) r3 else Some (ret, r3)) of
                        None \<Rightarrow> None
                      | Some (ret1, r4) \<Rightarrow>
                          if ret1 = 404 \<and> redirectPathOn404 cfg \<noteq> []
                          then (case setRedirectLocation (redirectPathOn404 cfg) r4 of (ret2, r5) \<Rightarrow> Some (ret2, s1, r5))
                          else Some (ret1, s1, r4)))))"

definition file_roots :: "fs \<Rightarrow> files_config \<Rightarrow> (string \<times> string) set" where
  "file_roots F cfg = insert (''/'', resolveDirPathWithSlashAtEnd F (cfg_documentRootPath cfg))
     {(prefix, resolveDirPathWithSlashAtEnd F dir) |prefix dir. (prefix, dir) \<in> set (cfg_overlappedDirectories cfg)}"

lemma overlaps_roots:
  "i \<in> set (overlaps F (resolveDirPathWithSlashAtEnd F (cfg_documentRootPath cfg)) (cfg_overlappedDirectories cfg) uri name) \<Longrightarrow>
   (urlPathPrefix i, serverWebRootWithEndingSlash i) \<in> file_roots F cfg"
  by (auto simp: overlaps_def file_roots_def map_filter_def Let_def split: if_splits)

lemma select_overlap_sound:
  "select_overlap F is = Selected sel dir \<Longrightarrow> \<exists>i \<in> set is. \<exists>p. realpath F (fileSystemRealPath i) = Some p \<and>
     urlPathPrefix sel = urlPathPrefix i \<and> serverWebRootWithEndingSlash sel = serverWebRootWithEndingSlash i \<and>
     (\<not> dir \<longrightarrow> fileSystemRealPath sel = p) \<and> \<not> detectPathTraversal sel"
  by (induction F "is" rule: select_overlap.induct) (auto simp: Let_def split: option.splits if_splits)

lemma not_traversal: "\<not> detectPathTraversal i \<Longrightarrow> fileSystemRealPath i = serverWebRootWithEndingSlash i @ drop (length (serverWebRootWithEndingSlash i)) (fileSystemRealPath i)"
  by (metis append_take_drop_id detectPathTraversal_def)

lemma detect_content [simp]: "detectContentTypeFromFilePath p s r = (b, s', r') \<Longrightarrow> resp_content r' = resp_content r \<and> m_staticContentElements s' = m_staticContentElements s"
  by (auto simp: detectContentTypeFromFilePath_def setContentType_def Let_def split: option.splits)

definition found :: "fs \<Rightarrow> files_config \<Rightarrow> file_info \<Rightarrow> response \<Rightarrow> bool" where
  "found F cfg info r \<longleftrightarrow> (\<exists>prefix root rel. (prefix, root) \<in> file_roots F cfg \<and> fullPath info = root @ rel \<and> relativePath info = prefix @ rel \<and>
     (\<exists>x. realpath F x = Some (root @ rel)) \<and> stat_kind F (root @ rel) = Regular \<and> referenceFile F (root @ rel) = Some (resp_content r))"

lemma resolve_sound:
  assumes "resolveLocalFilePathFromURI2 F (cfg_documentRootPath cfg) (cfg_overlappedDirectories cfg) uri d False s r = (ok, info, s', r')"
    and "m_staticContentElements s = Map.empty"
  shows "m_staticContentElements s' = Map.empty \<and> (ok \<longrightarrow> isDirectory info \<or> found F cfg info r')"
proof -
  let ?root = "resolveDirPathWithSlashAtEnd F (cfg_documentRootPath cfg)"
    and ?name = "(if length uri \<le> 1 then ''/'' else tl uri) @ d"
  have ns: "\<not> verifyStaticContentExistence s n" for n using assms(2) by (simp add: verifyStaticContentExistence_def)
  show ?thesis
  proof (cases "select_overlap F (overlaps F ?root (cfg_overlappedDirectories cfg) uri ?name)")
    case Not_found
    then show ?thesis using assms ns by (auto simp: resolveLocalFilePathFromURI2_def Let_def split: if_splits)
  next
    case (Traversal x)
    then show ?thesis using assms ns by (auto simp: resolveLocalFilePathFromURI2_def Let_def split: if_splits)
  next
    case (Selected sel dir)
    obtain i p where i: "i \<in> set (overlaps F ?root (cfg_overlappedDirectories cfg) uri ?name)" "realpath F (fileSystemRealPath i) = Some p"
      "urlPathPrefix sel = urlPathPrefix i" "serverWebRootWithEndingSlash sel = serverWebRootWithEndingSlash i"
      "\<not> dir \<longrightarrow> fileSystemRealPath sel = p" "\<not> detectPathTraversal sel"
      using select_overlap_sound [OF Selected] by blast
    let ?rel = "drop (length (serverWebRootWithEndingSlash sel)) (fileSystemRealPath sel)"
    have root: "(urlPathPrefix sel, serverWebRootWithEndingSlash sel) \<in> file_roots F cfg" using overlaps_roots [OF i(1)] i by simp
    have path: "fileSystemRealPath sel = serverWebRootWithEndingSlash sel @ ?rel" by (rule not_traversal [OF i(6)])
    have "found F cfg info' r''" if "\<not> dir" "fullPath info' = fileSystemRealPath sel" "relativePath info' = getRelativePath sel"
      "stat_kind F (fileSystemRealPath sel) = Regular" "referenceFile F (fileSystemRealPath sel) = Some (resp_content r'')" for info' r''
      unfolding found_def using that root path i
      by (intro exI [of _ "urlPathPrefix sel"] exI [of _ "serverWebRootWithEndingSlash sel"] exI [of _ ?rel]) (auto simp: getRelativePath_def simp flip: path)
    then show ?thesis using assms ns Selected
      by (auto simp: resolveLocalFilePathFromURI2_def Let_def cacheable_def setDataStreamer_def split: if_splits file_kind.splits option.splits prod.splits)
  qed
qed

declare resolve_any.simps [simp del]

lemma resolve_any_sound:
  "resolve_any F cfg uri ds info0 s r = (ok, info, s', r') \<Longrightarrow> m_staticContentElements s = Map.empty \<Longrightarrow> ok \<Longrightarrow> isDirectory info \<or> found F cfg info r'"
proof (induction ds arbitrary: info0 s r)
  case (Cons d ds)
  obtain ok1 info1 s1 r1 where d: "resolveLocalFilePathFromURI2 F (cfg_documentRootPath cfg) (cfg_overlappedDirectories cfg) uri d False s r = (ok1, info1, s1, r1)"
    by (metis prod_cases4)
  show ?case using Cons d resolve_sound [OF d] by (auto simp: resolve_any.simps split: if_splits)
qed (simp add: resolve_any.simps)


text \<open>A name that does not exist, and one that does, in a site with its document root only.\<close>

lemma resolve_missing:
  assumes "resolveDirPathWithSlashAtEnd F docRoot = root" "root \<noteq> []" "name \<noteq> []" "m_staticContentElements s = Map.empty" "realpath F (root @ name @ d) = None"
  shows "resolveLocalFilePathFromURI2 F docRoot [] (CHR ''/'' # name) d False s r = (False, no_info, s, r)"
  using assms by (simp add: resolveLocalFilePathFromURI2_def verifyStaticContentExistence_def overlaps_def map_filter_def Let_def)

lemma resolve_present:
  assumes "resolveDirPathWithSlashAtEnd F docRoot = root" "root \<noteq> []" "name \<noteq> []" "m_staticContentElements s = Map.empty"
    and "realpath F (root @ name @ d) = Some (root @ name @ d)" "stat_kind F (root @ name @ d) = Regular" "referenceFile F (root @ name @ d) = Some bytes"
    and "detectContentTypeFromFilePath (CHR ''/'' # name @ d) s (setDataStreamer (Some bytes) r) = (b, s1, r1)"
  shows "resolveLocalFilePathFromURI2 F docRoot [] (CHR ''/'' # name) d False s r =
    (True, no_info\<lparr>info_exists := True, fullPath := root @ name @ d, relativePath := CHR ''/'' # name @ d\<rparr>, s1,
     cacheable (if includeDate s then r1\<lparr>lastModified := Some (stat_mtime F (root @ name @ d))\<rparr> else r1))"
  using assms
  by (simp add: resolveLocalFilePathFromURI2_def verifyStaticContentExistence_def overlaps_def map_filter_def Let_def detectPathTraversal_def
      getRelativePath_def no_info_def)

section \<open>Properties\<close>

definition absolute_paths :: "fs \<Rightarrow> bool" where
  "absolute_paths F \<longleftrightarrow> (\<forall>x p. realpath F x = Some p \<longrightarrow> take 1 p = ''/'')"

definition filter_accepts :: "(string \<Rightarrow> string \<Rightarrow> bool) \<Rightarrow> files_config \<Rightarrow> string set \<Rightarrow> string set \<Rightarrow> bool \<Rightarrow> string \<Rightarrow> bool" where
  "filter_accepts rx cfg scopes roles active path \<longleftrightarrow>
     (case resourceFilter cfg of None \<Rightarrow> True | Some fs \<Rightarrow> evaluateURI rx fs path scopes roles active = (True, []))"

lemma file_status_200:
  "file_status rx cfg scopes roles active ok info r = (200, r') \<Longrightarrow>
   r' = r \<and> ok \<and> \<not> isDirectory info \<and> filter_accepts rx cfg scopes roles active (relativePath info)"
  by (auto simp: file_status_def filter_accepts_def setRedirectLocation_def split: if_splits option.splits prod.splits)


text \<open>A small site: a text, a page, and a filter that denies another text.\<close>

definition demo_fs :: fs where
  "demo_fs = \<lparr>realpath = (\<lambda>p. if p \<in> {''/srv'', ''/srv/a.txt'', ''/srv/p.html''} then Some p else None),
     stat_kind = (\<lambda>p. if p = ''/srv'' then Directory else Regular), stat_mtime = (\<lambda>_. 7), access_read = (\<lambda>_. True), access_exec = (\<lambda>_. False),
     referenceFile = [''/srv/a.txt'' \<mapsto> ''hello'', ''/srv/p.html'' \<mapsto> ''page'']\<rparr>"

definition demo_server :: file_server where
  "demo_server = \<lparr>m_mimeTypes = [''.html'' \<mapsto> ''text/html''], m_currentFileExtension = [], m_staticContentElements = Map.empty, includeDate = True\<rparr>"

definition demo_files :: files_config where
  "demo_files = \<lparr>cfg_documentRootPath = ''/srv'', cfg_overlappedDirectories = [],
     resourceFilter = Some [\<lparr>regexPatterns = [''/secret.txt''], redirectLocation = [], f_requiredScopes = [], f_rejectedScopes = [], f_requiredRoles = [],
       f_rejectedRoles = [], requireSession = False, disallowSession = False, action = DENY\<rparr>],
     useHTMLIEngine = True, redirectPathOn404 = []\<rparr>"

definition empty_response :: response where
  "empty_response = \<lparr>contentType = [], resp_content = [], cacheImmutable = False, lastModified = None, location = None\<rparr>"

definition site_env :: page_env where
  "site_env = demo_page_env\<lparr>open_file := referenceFile demo_fs\<rparr>"

lemmas site_defs = demo_fs_def demo_server_def demo_files_def empty_response_def site_env_def demo_page_env_def
  detectContentTypeFromFilePath_def file_extension_def c_str_def setDataStreamer_def setContentType_def tolower_def isupper_def

lemma site_root: "resolveDirPathWithSlashAtEnd demo_fs ''/srv'' = ''/srv/''"
  by (simp add: resolveDirPathWithSlashAtEnd_def demo_fs_def)

lemma site_config: "cfg_documentRootPath demo_files = ''/srv''" "cfg_overlappedDirectories demo_files = []" "useHTMLIEngine demo_files"
    "redirectPathOn404 demo_files = []" "m_staticContentElements demo_server = Map.empty"
  by (simp_all add: demo_files_def demo_server_def)

lemma site_files: "realpath demo_fs ''/srv/a.txt.html'' = None" "realpath demo_fs ''/srv/a.txtindex.html'' = None"
    "realpath demo_fs ''/srv/a.txt'' = Some ''/srv/a.txt''" "realpath demo_fs ''/srv/p.html'' = Some ''/srv/p.html''"
    "stat_kind demo_fs ''/srv/a.txt'' = Regular" "stat_kind demo_fs ''/srv/p.html'' = Regular" "stat_mtime demo_fs p = 7" "includeDate demo_server"
    "referenceFile demo_fs ''/srv/a.txt'' = Some ''hello''" "referenceFile demo_fs ''/srv/p.html'' = Some ''page''"
  by (simp_all add: demo_fs_def demo_server_def)

lemma site_text:
  "\<exists>s' r'. handleRegularFileRequest demo_fs (=) site_env demo_page_request demo_files {} {} False ''/a.txt'' demo_server empty_response = Some (200, s', r')"
proof -
  obtain b s1 r1 where det: "detectContentTypeFromFilePath ''/a.txt'' demo_server (setDataStreamer (Some ''hello'') empty_response) = (b, s1, r1)"
    by (metis prod_cases3)
  then have ct: "contentType r1 = []" by (simp add: site_defs Let_def) (auto simp: split: option.splits)
  have "resolve_any demo_fs demo_files ''/a.txt'' [''.html'', ''index.html'', []] no_info demo_server empty_response =
      (True, no_info\<lparr>info_exists := True, fullPath := ''/srv/a.txt'', relativePath := ''/a.txt''\<rparr>, s1, cacheable (r1\<lparr>lastModified := Some 7\<rparr>))"
    using resolve_missing [OF site_root, of "''a.txt''" demo_server "''.html''" empty_response]
      resolve_missing [OF site_root, of "''a.txt''" demo_server "''index.html''" empty_response]
      resolve_present [OF site_root, of "''a.txt''" demo_server "[]" "''hello''" empty_response b s1 r1] det
    by (simp add: resolve_any.simps site_config site_files)
  then show ?thesis
    using ct by (simp add: handleRegularFileRequest_def site_config file_status_def no_info_def cacheable_def Let_def) (simp add: demo_files_def matches_requirements_def)
qed

lemma site_absolute: "absolute_paths demo_fs"
  by (auto simp: absolute_paths_def demo_fs_def split: if_splits)


text \<open>With the template engine no page keeps its type. A file whose type is HTML or JavaScript goes
  through the engine, which clears the type together with the old content: no answer to a file
  request ever carries the type \<open>text/html\<close> or \<open>application/javascript\<close>.\<close>

theorem engine_pages_lose_type:
  assumes "handleRegularFileRequest F rx env q cfg scopes roles active uri s r = Some (ret, s', r')"
    and "useHTMLIEngine cfg" "contentType r = []"
  shows "contentType r' \<notin> {''text/html'', ''application/javascript''}"
  using assms
  by (auto simp: handleRegularFileRequest_def processResourceFile_def setDataStreamer_def setRedirectLocation_def setContentType_def Let_def
      split: if_splits option.splits prod.splits)


lemma site_page:
  "\<exists>s' r'. handleRegularFileRequest demo_fs (=) site_env demo_page_request demo_files {} {} False ''/p'' demo_server empty_response = Some (200, s', r')"
proof -
  obtain b s1 r1 where det: "detectContentTypeFromFilePath ''/p.html'' demo_server (setDataStreamer (Some ''page'') empty_response) = (b, s1, r1)"
    by (metis prod_cases3)
  then have ct: "contentType r1 = ''text/html''" by (simp add: site_defs Let_def) auto
  have "resolve_any demo_fs demo_files ''/p'' [''.html'', ''index.html'', []] no_info demo_server empty_response =
      (True, no_info\<lparr>info_exists := True, fullPath := ''/srv/p.html'', relativePath := ''/p.html''\<rparr>, s1, cacheable (r1\<lparr>lastModified := Some 7\<rparr>))"
    using resolve_present [OF site_root, of "''p''" demo_server "''.html''" "''page''" empty_response b s1 r1] det
    by (simp add: resolve_any.simps site_config site_files)
  moreover have "file_status (=) demo_files {} {} False True (no_info\<lparr>info_exists := True, fullPath := ''/srv/p.html'', relativePath := ''/p.html''\<rparr>) r = (200, r)" for r
    by (simp add: file_status_def no_info_def demo_files_def matches_requirements_def)
  moreover obtain r' where "processResourceFile site_env demo_page_request ''/srv/p.html'' (cacheable (r1\<lparr>lastModified := Some 7\<rparr>)) = Some (200, r')"
    by (simp add: processResourceFile_def procResource_HTMLIEngineInclude_def include_loop.simps site_env_def demo_page_env_def demo_fs_def Let_def)
  ultimately show ?thesis
    using ct by (auto simp: handleRegularFileRequest_def site_config cacheable_def Let_def split: option.splits)
qed

theorem engine_pages_lose_type_witness:
  "\<exists>s' r'. handleRegularFileRequest demo_fs (=) site_env demo_page_request demo_files {} {} False ''/p'' demo_server empty_response = Some (200, s', r') \<and>
     contentType r' \<noteq> ''text/html''"
proof -
  obtain s' r' where run: "handleRegularFileRequest demo_fs (=) site_env demo_page_request demo_files {} {} False ''/p'' demo_server empty_response = Some (200, s', r')"
    using site_page by blast
  from engine_pages_lose_type [OF this] have "contentType r' \<noteq> ''text/html''" by (simp add: demo_files_def empty_response_def)
  with run show ?thesis by blast
qed

text \<open>A file below the document root is found. A request for a readable regular file by its path, in a
  server without overlapped directories, filter or static elements, is answered with its content
  when the two other names tried before it do not exist and its type is not that of a page.\<close>

theorem existing_file_served:
  assumes "realpath F docRoot = Some root" "root \<noteq> []" "name \<noteq> []" "docRoot \<noteq> []"
    and "realpath F (with_slash root @ name @ ''.html'') = None" "realpath F (with_slash root @ name @ ''index.html'') = None"
    and "realpath F (with_slash root @ name) = Some (with_slash root @ name)" "stat_kind F (with_slash root @ name) = Regular"
    and "referenceFile F (with_slash root @ name) = Some bytes"
    and "\<forall>ext. file_extension (CHR ''/'' # name) = Some ext \<longrightarrow> m_mimeTypes s (map tolower ext) \<notin> {Some ''text/html'', Some ''application/javascript''}"
    and "m_staticContentElements s = Map.empty" "contentType r = []"
  shows "\<exists>s' r'. handleRegularFileRequest F rx env q
      \<lparr>cfg_documentRootPath = docRoot, cfg_overlappedDirectories = [], resourceFilter = None, useHTMLIEngine = e, redirectPathOn404 = l\<rparr>
      scopes roles active (CHR ''/'' # name) s r = Some (200, s', r') \<and> resp_content r' = bytes \<and> cacheImmutable r'"
proof -
  let ?cfg = "\<lparr>cfg_documentRootPath = docRoot, cfg_overlappedDirectories = [], resourceFilter = None, useHTMLIEngine = e, redirectPathOn404 = l\<rparr>"
    and ?root = "with_slash root" and ?uri = "CHR ''/'' # name"
  have root: "resolveDirPathWithSlashAtEnd F docRoot = ?root" "?root \<noteq> []"
    using assms(1,2) by (auto simp: resolveDirPathWithSlashAtEnd_def with_slash_def)
  obtain b s1 r1 where det: "detectContentTypeFromFilePath ?uri s (setDataStreamer (Some bytes) r) = (b, s1, r1)" by (metis prod_cases3)
  have ct: "contentType r1 \<notin> {''text/html'', ''application/javascript''}"
    using det assms(10,12) by (auto simp: detectContentTypeFromFilePath_def setDataStreamer_def setContentType_def Let_def split: option.splits)
  have bytes: "resp_content r1 = bytes" using detect_content [OF det] by (simp add: setDataStreamer_def)
  let ?r = "cacheable (if includeDate s then r1\<lparr>lastModified := Some (stat_mtime F (?root @ name))\<rparr> else r1)"
  have "resolve_any F ?cfg ?uri [''.html'', ''index.html'', []] no_info s r =
      (True, no_info\<lparr>info_exists := True, fullPath := ?root @ name, relativePath := ?uri\<rparr>, s1, ?r)"
    using resolve_missing [OF root assms(3,11,5)] resolve_missing [OF root assms(3,11,6)] resolve_present [OF root assms(3,11), of "[]" bytes r b s1 r1] assms(7-9) det
    by (simp add: resolve_any.simps)
  then have "handleRegularFileRequest F rx env q ?cfg scopes roles active ?uri s r = Some (200, s1, ?r)"
    using assms(4) ct by (simp add: handleRegularFileRequest_def file_status_def no_info_def cacheable_def Let_def)
  then show ?thesis using bytes by (auto simp: cacheable_def)
qed


theorem existing_file_served_witness:
  "\<exists>s' r'. handleRegularFileRequest demo_fs (=) site_env demo_page_request
     \<lparr>cfg_documentRootPath = ''/srv'', cfg_overlappedDirectories = [], resourceFilter = None, useHTMLIEngine = True, redirectPathOn404 = []\<rparr>
     {} {} False ''/a.txt'' demo_server empty_response = Some (200, s', r') \<and> resp_content r' = ''hello'' \<and> cacheImmutable r'"
  by (rule existing_file_served [where root = "''/srv''"])
    (simp_all add: demo_fs_def demo_server_def empty_response_def with_slash_def file_extension_def c_str_def Let_def tolower_def isupper_def)

end
