(* ===== verification/Http_Headers.thy ===== *)
theory Http_Headers
  imports Stream_Parser Boost_Strings "HOL-Library.Char_ord" "HOL-Library.List_Lexorder"
begin

text \<open>
  \<open>Protocol_MIME/mime_sub_header.{h,cpp}\<close>: the header block of a HTTP or MIME message, a sub-parser
  that takes one line at a time and keeps the options of the block in a multimap by their upper-case
  names. The options are shared objects: the multimap holds handles into the store \<open>sh_store\<close>
  of the options made so far, and a folded line changes the option of the handle \<open>m_lastOpt\<close>.
  A \<open>std::multimap\<close> is its list of elements in order; \<open>find\<close> gives the first of the elements
  of a key. The bytes of \<open>RAND_bytes\<close>, sixteen for each option, are the argument \<open>rnd\<close>; its
  failure, an exception, is left out.
\<close>

section \<open>Multimaps\<close>

fun mm_insert :: "string \<Rightarrow> 'v \<Rightarrow> (string \<times> 'v) list \<Rightarrow> (string \<times> 'v) list" where
  "mm_insert k v [] = [(k, v)]"
| "mm_insert k v ((k', v') # m) = (if k < k' then (k, v) # (k', v') # m else (k', v') # mm_insert k v m)"

definition mm_erase :: "string \<Rightarrow> (string \<times> 'v) list \<Rightarrow> (string \<times> 'v) list" where
  "mm_erase k m = filter (\<lambda>(k', v). k' \<noteq> k) m"

definition mm_range :: "string \<Rightarrow> (string \<times> 'v) list \<Rightarrow> 'v list" where
  "mm_range k m = map snd (filter (\<lambda>(k', v). k' = k) m)"

section \<open>An option\<close>

record header_option =
  m_maxSubOptionsCount :: nat
  m_maxHeaderOptSize :: nat
  m_curHeaderOptSize :: nat
  m_origName :: string
  m_origValue :: string
  ho_value :: string
  m_subVar :: "(string \<times> string) list"

definition HeaderOption_new :: header_option where
  "HeaderOption_new = \<lparr>m_maxSubOptionsCount = 16, m_maxHeaderOptSize = 8 * 1024, m_curHeaderOptSize = 0,
     m_origName = [], m_origValue = [], ho_value = [], m_subVar = []\<rparr>"

definition getSubVar :: "header_option \<Rightarrow> string \<Rightarrow> string" where
  "getSubVar opt n = (case mm_range n (m_subVar opt) of [] \<Rightarrow> [] | v # _ \<Rightarrow> v)"

definition getSubVars :: "header_option \<Rightarrow> string \<Rightarrow> string list" where
  "getSubVars opt n = mm_range n (m_subVar opt)"

definition option_toString :: "header_option \<Rightarrow> string" where
  "option_toString opt = m_origName opt @ '': '' @ m_origValue opt"

definition isPermited7bitCharset :: "string \<Rightarrow> bool" where
  "isPermited7bitCharset s \<longleftrightarrow> list_all (\<lambda>c. 32 \<le> (of_char c :: nat) \<and> (of_char c :: nat) \<le> 126) s"

definition addSubVar :: "string \<Rightarrow> string \<Rightarrow> header_option \<Rightarrow> header_option" where
  "addSubVar varName varValue opt =
     (if varName = [] \<and> varValue = [] then opt
      else if length (m_subVar opt) \<ge> m_maxSubOptionsCount opt then opt
      else if add64 (add64 (length varName) (length varValue)) (m_curHeaderOptSize opt) > m_maxHeaderOptSize opt then opt
      else if \<not> isPermited7bitCharset varName then opt
      else if \<not> isPermited7bitCharset varValue then opt
      else opt\<lparr>m_curHeaderOptSize := add64 (m_curHeaderOptSize opt) (add64 (length varName) (length varValue)),
               m_subVar := mm_insert varName varValue (m_subVar opt)\<rparr>)"

definition getUpperName :: "header_option \<Rightarrow> string" where
  "getUpperName opt = to_upper_copy (m_origName opt)"

definition setValue :: "string \<Rightarrow> header_option \<Rightarrow> header_option" where
  "setValue v opt = opt\<lparr>ho_value := trim v\<rparr>"

section \<open>The values of an option\<close>

text \<open>The texts between quotation marks are taken out before the value is split, each replaced by a
  random name. The expression of the source matches from a quotation mark to the next one.\<close>

abbreviation QUOTE :: char where
  "QUOTE \<equiv> CHR 0x22"

definition quoted :: "string \<Rightarrow> string option" where
  "quoted s = (case dropWhile (\<lambda>c. c \<noteq> QUOTE) s of
     [] \<Rightarrow> None
   | _ # r \<Rightarrow> if QUOTE \<in> set r then Some (takeWhile (\<lambda>c. c \<noteq> QUOTE) r) else None)"

definition static_name :: "bytes \<Rightarrow> nat \<Rightarrow> string" where
  "static_name rnd i = ''_STATIC_'' @ createRandomString rnd @ ''_'' @ nat_string i"

lemma charset_nth: "charset ! (n mod 62) \<in> set charset"
  by (rule nth_mem) (simp add: charset_def)

lemma charset_alnum: "c \<in> set charset \<Longrightarrow> isalnum c"
proof -
  have "list_all isalnum charset" by code_simp
  then show "c \<in> set charset \<Longrightarrow> isalnum c" by (simp add: list_all_iff)
qed

lemma static_name_chars: "c \<in> set (static_name rnd i) \<Longrightarrow> isalnum c \<or> c = CHR ''_''"
  using nat_string_facts(2) [of i] charset_alnum charset_nth
  by (auto simp: static_name_def createRandomString_def isalnum_def isalpha_def isdigit_def isupper_def islower_def is_digit_def)

lemma static_name_no_quote: "QUOTE \<notin> set (static_name rnd i)"
  using static_name_chars [of QUOTE rnd i] by (auto simp: isalnum_def isalpha_def isdigit_def isupper_def islower_def)

lemma quoted_split:
  assumes "quoted s = Some t"
  shows "\<exists>a b. s = a @ QUOTE # t @ QUOTE # b \<and> QUOTE \<notin> set a \<and> QUOTE \<notin> set t"
proof -
  obtain c r where d: "dropWhile (\<lambda>c. c \<noteq> QUOTE) s = c # r" and r: "QUOTE \<in> set r" and t: "t = takeWhile (\<lambda>c. c \<noteq> QUOTE) r"
    using assms by (auto simp: quoted_def split: list.splits if_splits)
  have c: "c = QUOTE" using d by (simp add: dropWhile_eq_Cons_conv)
  obtain t' b where t': "r = t' @ QUOTE # b" "QUOTE \<notin> set t'" using split_list_first [OF r] by blast
  have "takeWhile (\<lambda>c. c \<noteq> QUOTE) (t' @ QUOTE # b) = t'" using t'(2) by (induction t') auto
  then have "t' = t" using t t'(1) by simp
  with t' have b: "r = t @ QUOTE # b" by simp
  have "s = takeWhile (\<lambda>c. c \<noteq> QUOTE) s @ QUOTE # t @ QUOTE # b" using d c b by (metis takeWhile_dropWhile_id)
  moreover have "QUOTE \<notin> set (takeWhile (\<lambda>c. c \<noteq> QUOTE) s)" "QUOTE \<notin> set t" using t by (auto dest: set_takeWhileD)
  ultimately show ?thesis by blast
qed

function static_loop :: "bytes \<Rightarrow> string \<Rightarrow> string list \<Rightarrow> string \<times> string list" where
  "static_loop rnd s texts =
     (case quoted s of
        None \<Rightarrow> (s, texts)
      | Some t \<Rightarrow> static_loop rnd (replace_all (QUOTE # t @ [QUOTE]) (static_name rnd (length texts)) s) (texts @ [t]))"
  by pat_completeness auto
termination
proof (relation "measure (\<lambda>(rnd, s, texts). count_list s QUOTE)")
  fix rnd s texts t
  assume "quoted s = Some t"
  then obtain a b where "s = a @ (QUOTE # t @ [QUOTE]) @ b" by (auto dest!: quoted_split)
  then have "find_sub (QUOTE # t @ [QUOTE]) s \<noteq> None" unfolding find_sub_None_iff occurs_at_split by blast
  then show "((rnd, replace_all (QUOTE # t @ [QUOTE]) (static_name rnd (length texts)) s, texts @ [t]), (rnd, s, texts))
      \<in> measure (\<lambda>(rnd, s, texts). count_list s QUOTE)"
    using replace_all_fewer [OF static_name_no_quote] by simp
qed simp

declare static_loop.simps [simp del]

definition put_back :: "bytes \<Rightarrow> string list \<Rightarrow> string \<Rightarrow> string" where
  "put_back rnd texts s = fold (\<lambda>i. replace_all (static_name rnd i) (texts ! i)) [0..<length texts] s"

definition sub_value :: "bytes \<Rightarrow> string list \<Rightarrow> string \<Rightarrow> header_option \<Rightarrow> header_option" where
  "sub_value rnd texts value opt =
     (if CHR ''='' \<in> set value then
        (let sVarName = trim (takeWhile (\<lambda>c. c \<noteq> CHR ''='') value);
             sVarValue = trim (tl (dropWhile (\<lambda>c. c \<noteq> CHR ''='') value)) in
         addSubVar (put_back rnd texts sVarName) (put_back rnd texts sVarValue) opt)
      else addSubVar (put_back rnd texts (trim value)) [] opt)"

definition parseSubValues :: "bytes \<Rightarrow> string \<Rightarrow> header_option \<Rightarrow> header_option" where
  "parseSubValues rnd s opt =
     (case static_loop rnd (trim s) [] of (sVarValues, vStaticTexts) \<Rightarrow>
        (let vValues = split_any (\<lambda>c. c = CHR '';'') sVarValues;
             opt1 = sub_value rnd vStaticTexts (hd vValues) (opt\<lparr>m_origValue := s\<rparr>);
             opt2 = setValue (put_back rnd vStaticTexts (trim (hd vValues))) opt1 in
         fold (sub_value rnd vStaticTexts) (tl vValues) opt2))"

section \<open>The header block\<close>

record sub_header = subparser +
  m_headers :: "(string \<times> nat) list"
  sh_store :: "header_option list"
  m_lastOpt :: "nat option"
  m_maxOptions :: nat
  m_maxSubOptionCount :: nat
  m_maxSubOptionSize :: nat
  sh_draws :: nat

definition setMaxOptionSize :: "sub_header \<Rightarrow> nat \<Rightarrow> sub_header" where
  "setMaxOptionSize h v = setParseDataTargetSize h v"

definition setMaxOptions :: "sub_header \<Rightarrow> nat \<Rightarrow> sub_header" where
  "setMaxOptions h v = h\<lparr>m_maxOptions := v\<rparr>"

text \<open>The members of the class proper; the assignment of a header block copies them and leaves the
  sub-parser as it is.\<close>

definition sub_header_init :: "subparser \<Rightarrow> sub_header" where
  "sub_header_init sp = subparser.extend sp
     \<lparr>m_headers = [], sh_store = [], m_lastOpt = None, m_maxOptions = 32, m_maxSubOptionCount = 100,
      m_maxSubOptionSize = 2 * 1024, sh_draws = 0\<rparr>"

definition MIME_Sub_Header_new :: sub_header where
  "MIME_Sub_Header_new =
     (setMaxOptionSize (setParseDelimiter (setParseStrategy (sub_header_init SubParser_new) DELIMITER) [CR, LF]) (16 * 1024))
     \<lparr>m_subParserName := ''MIME_Sub_Header''\<rparr>"

definition getOptionsByName :: "sub_header \<Rightarrow> string \<Rightarrow> header_option list" where
  "getOptionsByName h n = map ((!) (sh_store h)) (mm_range (to_upper_copy n) (m_headers h))"

definition getOptionByName :: "sub_header \<Rightarrow> string \<Rightarrow> header_option option" where
  "getOptionByName h n = (case mm_range (to_upper_copy n) (m_headers h) of [] \<Rightarrow> None | i # _ \<Rightarrow> Some (sh_store h ! i))"

definition header_exist :: "sub_header \<Rightarrow> string \<Rightarrow> bool" where
  "header_exist h n \<longleftrightarrow> getOptionByName h n \<noteq> None"

definition getOptionRawStringByName :: "sub_header \<Rightarrow> string \<Rightarrow> string" where
  "getOptionRawStringByName h n = (case getOptionByName h n of Some opt \<Rightarrow> m_origValue opt | None \<Rightarrow> [])"

definition getOptionValueStringByName :: "sub_header \<Rightarrow> string \<Rightarrow> string" where
  "getOptionValueStringByName h n = (case getOptionByName h n of Some opt \<Rightarrow> ho_value opt | None \<Rightarrow> [])"

text \<open>In base ten, the default, which every caller uses.\<close>

definition getOptionAsUINT64 :: "sub_header \<Rightarrow> string \<Rightarrow> 64 word \<times> bool" where
  "getOptionAsUINT64 h n = (case getOptionByName h n of
     Some opt \<Rightarrow> (strtoul (c_str (ho_value opt)), True) | None \<Rightarrow> (0, False))"

definition headers_clear :: "sub_header \<Rightarrow> sub_header" where
  "headers_clear h = h\<lparr>m_headers := []\<rparr>"

definition headers_remove :: "string \<Rightarrow> sub_header \<Rightarrow> sub_header" where
  "headers_remove n h = h\<lparr>m_headers := mm_erase (to_upper_copy n) (m_headers h)\<rparr>"

definition addHeaderOption :: "header_option \<Rightarrow> sub_header \<Rightarrow> bool \<times> sub_header" where
  "addHeaderOption opt h =
     (if length (m_headers h) = m_maxOptions h then (False, h)
      else (True, h\<lparr>m_headers := mm_insert (getUpperName opt) (length (sh_store h)) (m_headers h),
                    sh_store := sh_store h @ [opt]\<rparr>))"

definition headers_add :: "(nat \<Rightarrow> bytes) \<Rightarrow> string \<Rightarrow> string \<Rightarrow> nat \<Rightarrow> sub_header \<Rightarrow> bool \<times> sub_header" where
  "headers_add rnd optionName optionValue state h =
     (if state = 0 then
        (if length (m_headers h) = m_maxOptions h then (False, h)
         else
           (let opt = parseSubValues (rnd (sh_draws h)) optionValue (HeaderOption_new\<lparr>m_origName := optionName\<rparr>);
                h1 = h\<lparr>sh_draws := sh_draws h + 1\<rparr> in
            case addHeaderOption opt h1 of (ok, h2) \<Rightarrow>
              if \<not> ok then (False, h2) else (True, h2\<lparr>m_lastOpt := Some (length (sh_store h))\<rparr>)))
      else if state = 1 then
        (case m_lastOpt h of
           None \<Rightarrow> (True, h)
         | Some i \<Rightarrow> (True, h\<lparr>sh_store := (sh_store h)[i := parseSubValues (rnd (sh_draws h)) optionValue (sh_store h ! i)],
                             sh_draws := sh_draws h + 1\<rparr>))
      else (True, h))"

definition headers_replace :: "(nat \<Rightarrow> bytes) \<Rightarrow> string \<Rightarrow> string \<Rightarrow> sub_header \<Rightarrow> sub_header" where
  "headers_replace rnd n v h = snd (headers_add rnd n v 0 (headers_remove n h))"

definition parseOptionValue :: "(nat \<Rightarrow> bytes) \<Rightarrow> string \<Rightarrow> sub_header \<Rightarrow> sub_header" where
  "parseOptionValue rnd line h =
     (if line \<noteq> [] \<and> (hd line = CHR '' '' \<or> hd line = CHR 0x09) then snd (headers_add rnd [] line 1 h)
      else case find_sub '': '' line of
        Some found \<Rightarrow> snd (headers_add rnd (take found line) (c_str (drop (found + 2) line)) 0 h)
      | None \<Rightarrow> h)"

definition MIME_Sub_Header_parse :: "(nat \<Rightarrow> bytes) \<Rightarrow> sub_header \<Rightarrow> ParseResult \<times> sub_header" where
  "MIME_Sub_Header_parse rnd h =
     (if B_Ref_size CO (getParsedBuffer h) = 0 then (GOTO_NEXT_SUBPARSER, h)
      else (GET_MORE_DATA, parseOptionValue rnd (parsed_text h) h))"

definition headers_streamToUpstream :: "'o streamable \<Rightarrow> sub_header \<Rightarrow> 'o \<Rightarrow> (stream_exn + (bool \<times> 'o)) option" where
  "headers_streamToUpstream S h up0 =
     andThen (foldl (\<lambda>w (k, i). andThen w (write_checked S (option_toString (sh_store h ! i) @ [CR, LF])))
               (Some (Inr (True, up0))) (m_headers h))
       (write_checked S [CR, LF])"

section \<open>A line through the delimiter strategy\<close>

definition line_stage :: "'z subparser_scheme \<Rightarrow> nat \<Rightarrow> bool" where
  "line_stage sp N \<longleftrightarrow> m_parseMode sp = DELIMITER \<and> \<not> m_streamEnded sp \<and> m_parseDelimiter sp = [CR, LF] \<and>
     sp_ok sp \<and> m_maxSize (m_unparsedBuffer sp) = N \<and> N \<le> m_maxChunks (m_unparsedBuffer sp) \<and> N + 2 < two64"

definition one_line :: "bytes \<Rightarrow> bool" where
  "one_line l \<longleftrightarrow> find_sub [CR, LF] (l @ [CR]) = None"

lemma one_line_end:
  assumes "one_line l"
  shows "find_sub [CR, LF] (l @ [CR, LF] @ r) = Some (length l)"
proof -
  have "\<not> occurs_at [CR, LF] (l @ [CR, LF] @ r) j" if j: "j < length l" for j
  proof
    assume "occurs_at [CR, LF] (l @ [CR, LF] @ r) j"
    then have "occurs_at [CR, LF] ((l @ [CR]) @ LF # r) j" by simp
    then have "occurs_at [CR, LF] (l @ [CR]) j" using j unfolding occurs_at_def by (simp only: drop_append take_append) simp
    then show False using assms by (simp add: one_line_def find_sub_None_iff)
  qed
  moreover have "occurs_at [CR, LF] (l @ [CR, LF] @ r) (length l)" by (simp add: occurs_at_def)
  ultimately show ?thesis by (simp only: find_sub_Some_iff first_at_def) blast
qed

lemma line_incomplete:
  assumes "t @ e = l @ CR # LF # rest" "length t < length l + 2" "one_line l"
  shows "find_sub [CR, LF] t = None"
proof -
  have "t = take (length t) ((l @ [CR]) @ LF # rest)" using assms(1) by (simp add: append_eq_conv_conj)
  also have "\<dots> = take (length t) (l @ [CR])" using assms(2) by (subst take_append) simp
  finally have "l @ [CR] = t @ drop (length t) (l @ [CR])" by (metis append_take_drop_id)
  then show ?thesis using assms(3) find_sub_prefix unfolding one_line_def by metis
qed

text \<open>A write that completes a line, of which a part has been received: \<open>parse\<close> gets the line, and the
  bytes after its end are left to the next element.\<close>

lemma line_step:
  assumes "line_stage sp N" "one_line l" "length l + 2 \<le> N"
    and d: "sp_text sp @ d = l @ CR # LF # rest" "length (sp_text sp) < length l + 2"
    and keep: "\<And>b. m_parseDelimiter (snd (parse (ref_unparsed (sp\<lparr>m_unparsedBuffer := b\<rparr>) 0 (length l)))) = [CR, LF]"
  shows "\<exists>b. let sp2 = ref_unparsed (sp\<lparr>m_unparsedBuffer := b\<rparr>) 0 (length l) in
     chunks_ok b \<and> has_room b 0 \<and> same_limits (m_unparsedBuffer sp) b \<and> parsed_text sp2 = l \<and>
     B_Ref_size CO (getParsedBuffer sp2) = length l \<and>
     writeIntoSubParser parse u sp d = Inr (Some (length l + 2 - length (sp_text sp)), clear_unparsed (run_parse parse sp2))"
proof -
  let ?t = "sp_text sp"
  define n where "n = min (length d) (N - length ?t)"
  have st: "m_parseMode sp = DELIMITER" "\<not> m_streamEnded sp" "m_parseDelimiter sp = [CR, LF]" "sp_ok sp"
    "m_maxSize (m_unparsedBuffer sp) = N" "N \<le> m_maxChunks (m_unparsedBuffer sp)" "N + 2 < two64" using assms(1) by (auto simp: line_stage_def)
  have ld: "length ?t + length d = length l + 2 + length rest" using arg_cong [OF d(1), of length] by simp
  then have d0: "d \<noteq> []" "length l + 2 \<le> length ?t + n" "length ?t + n \<le> N" using d(2) assms(3) by (auto simp: n_def)
  then have "n \<noteq> 0" using d(2) by simp
  then obtain b where b: "appendToUnparsedBuffer sp d = (Some n, sp\<lparr>m_unparsedBuffer := b\<rparr>)" "chunks_ok b"
    "chunks_content b = ?t @ take n d" "same_limits (m_unparsedBuffer sp) b" "has_room b 0"
    using append_unparsed [OF st(4), of n d] st(5,6) d0(3) unfolding n_def [symmetric]
    by (metis n_def order_trans)
  obtain m where m: "length ?t + n = length l + 2 + m" using d0(2) by (auto simp: le_iff_add)
  have "?t @ take n d = take (length ?t + n) (l @ [CR, LF] @ rest)" unfolding append_Cons append_Nil d(1) [symmetric] by simp
  then have cb: "chunks_content b = l @ [CR, LF] @ take m rest" using b(3) by (simp add: m)
  have len: "length (chunks_content b) \<le> N" using b(3) d0(3) by simp
  have f: "B_find CO b [CR, LF] True 0 0 = Some (length l)"
    using find_unparsed [OF b(2), of "[CR, LF]"] one_line_end [OF assms(2)] cb len st(7) by simp
  let ?sp2 = "ref_unparsed (sp\<lparr>m_unparsedBuffer := b\<rparr>) 0 (length l)"
  have t: "parsed_text ?sp2 = l" using parsed_text_ref [of "sp\<lparr>m_unparsedBuffer := b\<rparr>" "length l"] b(2) cb by (simp add: sp_text_def)
  have sz: "B_Ref_size CO (getParsedBuffer ?sp2) = length l"
    using ra.ref_size [of "getParsedBuffer ?sp2" no_mmap] b(2) cb
    by (simp add: getParsedBuffer_def ref_unparsed_def B_Ref_reference_def ref_ok_def ref_content_def)
  have none: "find_sub [CR, LF] ?t = None" by (rule line_incomplete [OF d assms(2)])
  have fs: "find_sub [CR, LF] (?t @ take n d) = Some (length l)"
    using one_line_end [OF assms(2), of "take m rest"] cb b(3) by simp
  have cnt: "add64 (sub64 (length l) (length ?t)) (Suc (Suc 0)) = Suc (Suc (length l)) - length ?t"
    using count_exact(1) [OF fs none] d0(3) st(7) min.cobounded2 [of "length d" n] by simp
  show ?thesis
    by (rule exI [of _ b])
      (use b d0(1) st(1,2,3) keep in \<open>simp add: Let_def t sz writeIntoSubParser_def parseByDelimiter_def sp_size [OF st(4)] f cnt\<close>)
qed


lemma line_stage_cleared:
  assumes "line_stage sp N" "chunks_ok (m_unparsedBuffer s)" "same_limits (m_unparsedBuffer sp) (m_unparsedBuffer s)"
    "m_parseMode s = DELIMITER" "\<not> m_streamEnded s" "m_parseDelimiter s = [CR, LF]"
  shows "line_stage (clear_unparsed s) N \<and> sp_text (clear_unparsed s) = []"
  using assms cleared_buffer [OF assms(2)]
  by (simp add: line_stage_def clear_unparsed_def sp_ok_def sp_text_def has_room_def same_limits_def)

text \<open>An incomplete line is kept.\<close>

lemma line_absorbs:
  assumes "line_stage sp N" "d \<noteq> []" "sp_text sp @ d @ e = l @ CR # LF # rest" "length (sp_text sp @ d) < length l + 2"
    "one_line l" "length l + 2 \<le> N"
  shows "\<exists>s'. writeIntoSubParser parse u sp d = Inr (Some (length d), s') \<and> collecting sp (sp_text sp @ d) s'"
proof -
  have st: "m_parseMode sp = DELIMITER" "\<not> m_streamEnded sp" "m_parseDelimiter sp = [CR, LF]" "sp_ok sp"
    "m_maxSize (m_unparsedBuffer sp) = N" "N \<le> m_maxChunks (m_unparsedBuffer sp)" "N + 2 < two64" using assms(1) by (auto simp: line_stage_def)
  let ?t = "sp_text sp @ d"
  have none: "find_sub [CR, LF] ?t = None" using line_incomplete [of ?t e, OF _ assms(4,5)] assms(3) by simp
  have "has_room (m_unparsedBuffer sp) (length d)"
    using st(4,5,6) assms(4,6) by (simp add: sp_ok_def has_room_def sp_text_def)
  then show ?thesis
    using delimiter_absorbs [OF st(1,2) _ _ _ collecting_refl [OF st(4)] assms(2), of "length d" parse u] st(3,7) none assms(4,6) by simp
qed

section \<open>The lines of a header block\<close>

lemma headers_add_base [simp]:
  "headers_add rnd n v st (h\<lparr>m_unparsedBuffer := b, m_parsedBuffer := r\<rparr>) =
     (fst (headers_add rnd n v st h), (snd (headers_add rnd n v st h))\<lparr>m_unparsedBuffer := b, m_parsedBuffer := r\<rparr>)"
  by (auto simp: headers_add_def addHeaderOption_def Let_def split: option.splits)

lemma parseOptionValue_base:
  "parseOptionValue rnd l (h\<lparr>m_unparsedBuffer := b, m_parsedBuffer := r\<rparr>) =
     (parseOptionValue rnd l h)\<lparr>m_unparsedBuffer := b, m_parsedBuffer := r\<rparr>"
  by (simp add: parseOptionValue_def split: option.splits)

lemma headers_add_keeps:
  "m_unparsedBuffer (snd (headers_add rnd n v st h)) = m_unparsedBuffer h"
  "m_parsedBuffer (snd (headers_add rnd n v st h)) = m_parsedBuffer h"
  "m_parseDelimiter (snd (headers_add rnd n v st h)) = m_parseDelimiter h"
  "m_parseMode (snd (headers_add rnd n v st h)) = m_parseMode h"
  "m_streamEnded (snd (headers_add rnd n v st h)) = m_streamEnded h"
  "m_maxOptions (snd (headers_add rnd n v st h)) = m_maxOptions h"
  by (auto simp: headers_add_def addHeaderOption_def Let_def split: option.splits)

lemma parseOptionValue_keeps:
  "m_unparsedBuffer (parseOptionValue rnd l h) = m_unparsedBuffer h"
  "m_parsedBuffer (parseOptionValue rnd l h) = m_parsedBuffer h"
  "m_parseDelimiter (parseOptionValue rnd l h) = m_parseDelimiter h"
  "m_parseMode (parseOptionValue rnd l h) = m_parseMode h"
  "m_streamEnded (parseOptionValue rnd l h) = m_streamEnded h"
  "m_maxOptions (parseOptionValue rnd l h) = m_maxOptions h"
  by (auto simp: parseOptionValue_def headers_add_keeps split: option.splits)

text \<open>Two header blocks with the same options: only the sub-parsers may differ.\<close>

definition same_options :: "sub_header \<Rightarrow> sub_header \<Rightarrow> bool" where
  "same_options h h' \<longleftrightarrow> subparser.more h' = subparser.more h"

lemma same_options_iff:
  "same_options h h' \<longleftrightarrow> m_headers h' = m_headers h \<and> sh_store h' = sh_store h \<and> m_lastOpt h' = m_lastOpt h \<and>
     m_maxOptions h' = m_maxOptions h \<and> m_maxSubOptionCount h' = m_maxSubOptionCount h \<and>
     m_maxSubOptionSize h' = m_maxSubOptionSize h \<and> sh_draws h' = sh_draws h"
  by (cases h; cases h') (auto simp: same_options_def)

lemma headers_add_same:
  "same_options h h' \<Longrightarrow> same_options (snd (headers_add rnd n v st h)) (snd (headers_add rnd n v st h'))"
  by (auto simp: same_options_iff headers_add_def addHeaderOption_def Let_def split: option.splits)

lemma parseOptionValue_same:
  "same_options h h' \<Longrightarrow> same_options (parseOptionValue rnd l h) (parseOptionValue rnd l h')"
  by (auto simp: parseOptionValue_def headers_add_same split: option.splits)

lemma same_options_trans: "same_options h h' \<Longrightarrow> same_options h' h'' \<Longrightarrow> same_options h h''"
  by (simp add: same_options_def)

lemma run_parse_keeps [simp]: "m_streamEnded (run_parse parse sp) = m_streamEnded (snd (parse sp))"
  by (simp add: run_parse_def setParseResult_def split: prod.split)

text \<open>A complete line of the block: the empty line ends it.\<close>

lemma header_line:
  assumes "line_stage h N" "one_line l" "length l + 2 \<le> N" "sp_text h @ d = l @ CR # LF # rest" "length (sp_text h) < length l + 2"
  shows "\<exists>h'. writeIntoSubParser (MIME_Sub_Header_parse rnd) u h d = Inr (Some (length l + 2 - length (sp_text h)), h') \<and>
    line_stage h' N \<and> sp_text h' = [] \<and> m_parseStatus h' = (if l = [] then GOTO_NEXT_SUBPARSER else GET_MORE_DATA) \<and>
    same_options (if l = [] then h else parseOptionValue rnd l h) h'"
proof -
  let ?P = "MIME_Sub_Header_parse rnd"
  have keep: "m_parseDelimiter (snd (?P s)) = m_parseDelimiter s" "m_parseMode (snd (?P s)) = m_parseMode s"
    "m_streamEnded (snd (?P s)) = m_streamEnded s" "m_unparsedBuffer (snd (?P s)) = m_unparsedBuffer s" for s
    by (simp_all add: MIME_Sub_Header_parse_def parseOptionValue_keeps)
  have dl: "m_parseDelimiter (snd (?P (ref_unparsed (h\<lparr>m_unparsedBuffer := b\<rparr>) 0 (length l)))) = [CR, LF]" for b
    using keep(1) assms(1) by (simp add: line_stage_def)
  obtain b where b: "chunks_ok b" "same_limits (m_unparsedBuffer h) b"
    and t: "parsed_text (ref_unparsed (h\<lparr>m_unparsedBuffer := b\<rparr>) 0 (length l)) = l"
      "B_Ref_size CO (getParsedBuffer (ref_unparsed (h\<lparr>m_unparsedBuffer := b\<rparr>) 0 (length l))) = length l"
    and w: "writeIntoSubParser ?P u h d = Inr (Some (length l + 2 - length (sp_text h)),
      clear_unparsed (run_parse ?P (ref_unparsed (h\<lparr>m_unparsedBuffer := b\<rparr>) 0 (length l))))"
    using line_step [where parse = ?P and u = u, OF assms dl] by (auto simp: Let_def)
  let ?s = "ref_unparsed (h\<lparr>m_unparsedBuffer := b\<rparr>) 0 (length l)"
  have st: "line_stage (clear_unparsed (run_parse ?P ?s)) N \<and> sp_text (clear_unparsed (run_parse ?P ?s)) = []"
    using assms(1) b keep by (intro line_stage_cleared [OF assms(1)]) (simp_all add: line_stage_def)
  have so: "same_options h ?s" by (simp add: same_options_def ref_unparsed_def)
  have "same_options (snd (?P ?s)) (clear_unparsed (run_parse ?P ?s))"
    by (simp add: same_options_def clear_unparsed_def run_parse_def setParseResult_def split: prod.split)
  moreover have "?P ?s = (if l = [] then (GOTO_NEXT_SUBPARSER, ?s) else (GET_MORE_DATA, parseOptionValue rnd l ?s))"
    by (simp add: MIME_Sub_Header_parse_def t)
  ultimately show ?thesis using w st so parseOptionValue_same [OF so, of rnd l]
    by (auto intro: same_options_trans)
qed

section \<open>Multimaps\<close>

lemma mm_insert_set [simp]: "set (mm_insert k v m) = insert (k, v) (set m)"
  by (induction m) (auto split: if_splits)

lemma mm_insert_length [simp]: "length (mm_insert k v m) = Suc (length m)"
  by (induction m) auto

lemma mm_insert_distinct: "distinct (map snd (mm_insert k v m)) \<longleftrightarrow> v \<notin> snd ` set m \<and> distinct (map snd m)"
  by (induction m) (auto split: if_splits, (metis image_eqI snd_conv)+)

lemma mm_insert_sorted: "sorted (map fst m) \<Longrightarrow> sorted (map fst (mm_insert k v m))"
proof (induction m)
  case (Cons x m)
  obtain k1 v1 where x: "x = (k1, v1)" by fastforce
  show ?case
  proof (cases "k < k1")
    case True
    then have "k \<le> y" if "y \<in> set (map fst (x # m))" for y using that Cons.prems by (fastforce simp: x)
    then show ?thesis using True Cons.prems by (simp add: x)
  next
    case False
    then show ?thesis using Cons by (auto simp: x)
  qed
qed simp

lemma mm_range_insert:
  "sorted (map fst m) \<Longrightarrow> mm_range k' (mm_insert k v m) = (if k' = k then mm_range k m @ [v] else mm_range k' m)"
proof (induction m)
  case (Cons x m)
  obtain k1 v1 where x: "x = (k1, v1)" by fastforce
  have "mm_range k m = []" if "k < k1"
    using Cons.prems that by (auto simp: x mm_range_def filter_empty_conv)
  then show ?case using Cons by (auto simp: x mm_range_def)
qed (simp add: mm_range_def)

lemma mm_range_erase: "mm_range k' (mm_erase k m) = (if k' = k then [] else mm_range k' m)"
  by (induction m) (auto simp: mm_range_def mm_erase_def)

lemma mm_insert_last: "sorted (map fst (m @ [(k, v)])) \<Longrightarrow> mm_insert k v m = m @ [(k, v)]"
  by (induction m) (auto simp: sorted_append)

lemma mm_map: "map (\<lambda>(k, x). (k, f x)) (mm_insert k v m) = mm_insert k (f v) (map (\<lambda>(k, x). (k, f x)) m)"
  "map (\<lambda>(k, x). (k, f x)) (mm_erase k m) = mm_erase k (map (\<lambda>(k, x). (k, f x)) m)"
  "mm_range k (map (\<lambda>(k, x). (k, f x)) m) = map f (mm_range k m)"
  by (induction m) (auto simp: mm_erase_def mm_range_def)

section \<open>The options of a block\<close>

text \<open>What an option keeps whatever text it is made from: its name, the limits on its sub-variables, and
  that they are printable and in order.\<close>

definition option_ok :: "header_option \<Rightarrow> bool" where
  "option_ok opt \<longleftrightarrow> m_maxSubOptionsCount opt = 16 \<and> m_maxHeaderOptSize opt = 8192 \<and> length (m_subVar opt) \<le> 16 \<and>
     m_curHeaderOptSize opt \<le> 8192 \<and> sorted (map fst (m_subVar opt)) \<and>
     list_all (\<lambda>(n, v). isPermited7bitCharset n \<and> isPermited7bitCharset v \<and> \<not> (n = [] \<and> v = [])) (m_subVar opt)"

lemma addSubVar_keeps:
  "m_origName (addSubVar n v opt) = m_origName opt" "m_origValue (addSubVar n v opt) = m_origValue opt"
  "ho_value (addSubVar n v opt) = ho_value opt" "option_ok opt \<Longrightarrow> option_ok (addSubVar n v opt)"
  by (auto simp: addSubVar_def option_ok_def mm_insert_sorted list_all_iff add64_def add.commute add.left_commute)

lemma sub_value_keeps:
  "m_origName (sub_value rnd ts x opt) = m_origName opt" "m_origValue (sub_value rnd ts x opt) = m_origValue opt"
  "ho_value (sub_value rnd ts x opt) = ho_value opt" "option_ok opt \<Longrightarrow> option_ok (sub_value rnd ts x opt)"
  by (simp_all add: sub_value_def Let_def addSubVar_keeps)

lemma sub_values_keep:
  "m_origName (fold (sub_value rnd ts) xs opt) = m_origName opt" "m_origValue (fold (sub_value rnd ts) xs opt) = m_origValue opt"
  "ho_value (fold (sub_value rnd ts) xs opt) = ho_value opt" "option_ok opt \<Longrightarrow> option_ok (fold (sub_value rnd ts) xs opt)"
  by (induction xs arbitrary: opt) (simp_all add: sub_value_keeps)

lemma parseSubValues_keeps [simp]:
  "m_origName (parseSubValues rnd s opt) = m_origName opt" "m_origValue (parseSubValues rnd s opt) = s"
  by (simp_all add: parseSubValues_def Let_def sub_values_keep sub_value_keeps setValue_def split: prod.split)

lemma parseSubValues_ok: "option_ok opt \<Longrightarrow> option_ok (parseSubValues rnd s opt)"
proof -
  have "option_ok (opt\<lparr>m_origValue := x\<rparr>) = option_ok opt" "option_ok (setValue x opt) = option_ok opt" for opt x
    by (simp_all add: option_ok_def setValue_def)
  then show "option_ok opt \<Longrightarrow> option_ok (parseSubValues rnd s opt)"
    by (simp add: parseSubValues_def Let_def sub_values_keep sub_value_keeps split: prod.split)
qed

lemma HeaderOption_new_ok: "option_ok (HeaderOption_new\<lparr>m_origName := n\<rparr>)"
  by (simp add: option_ok_def HeaderOption_new_def)

text \<open>The well-formed blocks: every handle of the multimap is one of the store, none twice, its key is the
  upper-case name of its option, and there are no more options than allowed.\<close>

definition headers_ok :: "sub_header \<Rightarrow> bool" where
  "headers_ok h \<longleftrightarrow> sorted (map fst (m_headers h)) \<and> distinct (map snd (m_headers h)) \<and>
     (\<forall>(k, i) \<in> set (m_headers h). i < length (sh_store h) \<and> k = getUpperName (sh_store h ! i)) \<and>
     length (m_headers h) \<le> m_maxOptions h \<and> list_all option_ok (sh_store h) \<and>
     (\<forall>i. m_lastOpt h = Some i \<longrightarrow> i < length (sh_store h))"

lemma new_option:
  assumes "opt = parseSubValues r v (HeaderOption_new\<lparr>m_origName := n\<rparr>)"
  shows "getUpperName opt = to_upper_copy n" "option_ok opt" "m_origName opt = n" "m_origValue opt = v"
  using assms by (simp_all add: getUpperName_def parseSubValues_ok HeaderOption_new_ok)

lemma headers_add_ok:
  assumes "headers_ok h"
  shows "headers_ok (snd (headers_add rnd n v st h))"
proof -
  define opt where "opt = parseSubValues (rnd (sh_draws h)) v (HeaderOption_new\<lparr>m_origName := n\<rparr>)"
  note o = new_option [OF opt_def]
  have old: "i < length (sh_store h)" if "(k, i) \<in> set (m_headers h)" for k i using assms that by (auto simp: headers_ok_def)
  then have new: "length (sh_store h) \<notin> snd ` set (m_headers h)" by force
  have "headers_ok (h\<lparr>sh_draws := d, m_headers := mm_insert (to_upper_copy n) (length (sh_store h)) (m_headers h),
      sh_store := sh_store h @ [opt], m_lastOpt := Some (length (sh_store h))\<rparr>)" if "length (m_headers h) \<noteq> m_maxOptions h" for d
    using assms that o new
    by (fastforce simp: headers_ok_def mm_insert_sorted nth_append mm_insert_distinct)
  moreover have "headers_ok (h\<lparr>sh_store := (sh_store h)[i := parseSubValues r v (sh_store h ! i)], sh_draws := d\<rparr>)"
    if "m_lastOpt h = Some i" for i r d
  proof -
    have "i < length (sh_store h)" "option_ok (sh_store h ! i)" using assms that by (auto simp: headers_ok_def list_all_length)
    then show ?thesis using assms that
      by (auto simp: headers_ok_def getUpperName_def nth_list_update list_all_length parseSubValues_ok)
  qed
  ultimately show ?thesis using assms o(1)
    by (auto simp: headers_add_def addHeaderOption_def Let_def opt_def split: option.splits)
qed

lemma headers_ops_ok:
  "headers_ok h \<Longrightarrow> headers_ok (headers_remove n h)" "headers_ok h \<Longrightarrow> headers_ok (headers_clear h)"
  "headers_ok h \<Longrightarrow> headers_ok (headers_replace rnd n v h)" "headers_ok h \<Longrightarrow> headers_ok (parseOptionValue rnd l h)"
proof -
  have f: "sorted (map fst (filter P m))" "distinct (map snd (filter P m))"
    if "sorted (map fst m)" "distinct (map snd m)" for P and m :: "(string \<times> nat) list"
    using that by (auto intro: sorted_filter simp: distinct_map inj_on_def)
  have le: "length (filter P (m_headers h)) \<le> m_maxOptions h" if "headers_ok h" for h P
    using that le_trans [OF length_filter_le] unfolding headers_ok_def by blast
  show rm: "headers_ok h \<Longrightarrow> headers_ok (headers_remove n h)" for h n
    using f le by (auto simp: headers_ok_def headers_remove_def mm_erase_def)
  show "headers_ok h \<Longrightarrow> headers_ok (headers_clear h)" by (simp add: headers_ok_def headers_clear_def)
  show "headers_ok h \<Longrightarrow> headers_ok (headers_replace rnd n v h)" by (simp add: headers_replace_def headers_add_ok rm)
  show "headers_ok h \<Longrightarrow> headers_ok (parseOptionValue rnd l h)"
    by (auto simp: parseOptionValue_def headers_add_ok split: option.split)
qed

text \<open>The abstract block: a multimap from upper-case names to options.\<close>

definition header_view :: "sub_header \<Rightarrow> (string \<times> header_option) list" where
  "header_view h = map (\<lambda>(k, i). (k, sh_store h ! i)) (m_headers h)"

lemma header_view_facts:
  assumes "headers_ok h"
  shows "sorted (map fst (header_view h))" "\<And>k opt. (k, opt) \<in> set (header_view h) \<Longrightarrow> k = getUpperName opt \<and> option_ok opt"
    "length (header_view h) = length (m_headers h)"
proof -
  have "map fst (header_view h) = map fst (m_headers h)" by (simp add: header_view_def comp_def case_prod_beta)
  then show "sorted (map fst (header_view h))" using assms by (simp add: headers_ok_def)
  show "k = getUpperName opt \<and> option_ok opt" if "(k, opt) \<in> set (header_view h)" for k opt
    using assms that by (auto simp: headers_ok_def header_view_def list_all_length)
qed (simp add: header_view_def)

lemma lookups_view:
  "getOptionsByName h n = mm_range (to_upper_copy n) (header_view h)"
  "getOptionByName h n = (case mm_range (to_upper_copy n) (header_view h) of [] \<Rightarrow> None | opt # _ \<Rightarrow> Some opt)"
  by (simp_all add: getOptionsByName_def getOptionByName_def header_view_def mm_map(3) split: list.split)

lemma remove_view: "header_view (headers_remove n h) = mm_erase (to_upper_copy n) (header_view h)"
  by (simp add: header_view_def headers_remove_def mm_map(2))

lemma add_view:
  assumes "headers_ok h"
  shows "headers_add rnd n v 0 h = (True, h') \<Longrightarrow>
      header_view h' = mm_insert (to_upper_copy n) (parseSubValues (rnd (sh_draws h)) v (HeaderOption_new\<lparr>m_origName := n\<rparr>)) (header_view h)"
    "fst (headers_add rnd n v 0 h) \<longleftrightarrow> length (header_view h) < m_maxOptions h"
proof -
  have le: "length (m_headers h) \<le> m_maxOptions h" using assms by (simp add: headers_ok_def)
  define opt where "opt = parseSubValues (rnd (sh_draws h)) v (HeaderOption_new\<lparr>m_origName := n\<rparr>)"
  note o = new_option [OF opt_def]
  have old: "map (\<lambda>(k, i). (k, (sh_store h @ [opt]) ! i)) (m_headers h) = header_view h"
    using assms by (auto simp: header_view_def headers_ok_def nth_append)
  show "fst (headers_add rnd n v 0 h) \<longleftrightarrow> length (header_view h) < m_maxOptions h"
    using le by (auto simp: headers_add_def addHeaderOption_def Let_def header_view_def)
  assume "headers_add rnd n v 0 h = (True, h')"
  then have "m_headers h' = mm_insert (to_upper_copy n) (length (sh_store h)) (m_headers h)" "sh_store h' = sh_store h @ [opt]"
    using o(1) by (auto simp: headers_add_def addHeaderOption_def Let_def opt_def split: if_splits)
  then show "header_view h' = mm_insert (to_upper_copy n) (parseSubValues (rnd (sh_draws h)) v (HeaderOption_new\<lparr>m_origName := n\<rparr>)) (header_view h)"
    unfolding opt_def [symmetric] by (simp add: header_view_def mm_map(1)) (simp add: old [unfolded header_view_def])
qed

text \<open>The raw values of a name, in the order of their arrival.\<close>

definition header_values :: "sub_header \<Rightarrow> string \<Rightarrow> string list" where
  "header_values h n = map m_origValue (getOptionsByName h n)"

lemma raw_string_values: "getOptionRawStringByName h n = (case header_values h n of [] \<Rightarrow> [] | v # _ \<Rightarrow> v)"
  by (simp add: getOptionRawStringByName_def header_values_def lookups_view split: list.split)

lemma header_values_view: "header_values h n = map m_origValue (mm_range (to_upper_copy n) (header_view h))"
  by (simp add: header_values_def lookups_view)

section \<open>The contract of a header block\<close>

text \<open>What the writers of messages rely on: a block gives back the values of a name in the order in
  which they were added, without regard to case, and takes a value while there is room.\<close>

locale header_block =
  fixes ok :: "'h \<Rightarrow> bool"
    and room :: "'h \<Rightarrow> nat"
    and vals :: "'h \<Rightarrow> string \<Rightarrow> string list"
    and add :: "string \<Rightarrow> string \<Rightarrow> 'h \<Rightarrow> 'h"
    and remove :: "string \<Rightarrow> 'h \<Rightarrow> 'h"
  assumes ok_add: "ok h \<Longrightarrow> ok (add n v h)"
    and ok_remove: "ok h \<Longrightarrow> ok (remove n h)"
    and values_key: "to_upper_copy n = to_upper_copy m \<Longrightarrow> vals h n = vals h m"
    and values_add: "ok h \<Longrightarrow> 0 < room h \<Longrightarrow>
      vals (add n v h) m = (if to_upper_copy m = to_upper_copy n then vals h m @ [v] else vals h m)"
    and values_remove: "vals (remove n h) m = (if to_upper_copy m = to_upper_copy n then [] else vals h m)"
    and room_add: "ok h \<Longrightarrow> 0 < room h \<Longrightarrow> room (add n v h) = room h - 1"
    and room_remove: "ok h \<Longrightarrow> room (remove n h) = room h + length (vals h n)"
begin

definition replace :: "string \<Rightarrow> string \<Rightarrow> 'h \<Rightarrow> 'h" where
  "replace n v h = add n v (remove n h)"

lemma ok_replace: "ok h \<Longrightarrow> ok (replace n v h)"
  by (simp add: replace_def ok_add ok_remove)

lemma values_replace:
  assumes "ok h" "0 < room h \<or> vals h n \<noteq> []"
  shows "vals (replace n v h) m = (if to_upper_copy m = to_upper_copy n then [v] else vals h m)"
  using assms by (simp add: replace_def values_add values_remove ok_remove room_remove)

lemma room_replace:
  assumes "ok h" "0 < room h \<or> vals h n \<noteq> []"
  shows "room (replace n v h) = room h + length (vals h n) - 1"
  using assms by (simp add: replace_def room_add ok_remove room_remove)

text \<open>A sequence of replacements, as a message is prepared with: every name ends with its last value.\<close>

definition replaces :: "(string \<times> string) list \<Rightarrow> 'h \<Rightarrow> 'h" where
  "replaces ps h = fold (\<lambda>(n, v). replace n v) ps h"

lemma replaces_values:
  assumes "ok h" "length ps \<le> room h"
  shows "ok (replaces ps h) \<and> room h - length ps \<le> room (replaces ps h) \<and>
    vals (replaces ps h) m =
      (case find (\<lambda>(n, v). to_upper_copy m = to_upper_copy n) (rev ps) of Some (n, v) \<Rightarrow> [v] | None \<Rightarrow> vals h m)"
  using assms
proof (induction ps rule: rev_induct)
  case (snoc p ps)
  obtain n v where p: "p = (n, v)" by fastforce
  let ?h = "replaces ps h"
  have IH: "ok ?h" "room h - length ps \<le> room ?h"
    "vals ?h m = (case find (\<lambda>(n, v). to_upper_copy m = to_upper_copy n) (rev ps) of Some (n, v) \<Rightarrow> [v] | None \<Rightarrow> vals h m)"
    using snoc by auto
  have r: "0 < room ?h" using IH(2) snoc.prems(2) by simp
  have "replaces (ps @ [p]) h = replace n v ?h" by (simp add: replaces_def p)
  then show ?case using IH r values_replace [OF IH(1), of n v m] room_replace [OF IH(1), of n v] ok_replace [OF IH(1)]
    by (simp add: p)
qed (simp add: replaces_def)

end

definition header_room :: "sub_header \<Rightarrow> nat" where
  "header_room h = m_maxOptions h - length (m_headers h)"

lemma mm_erase_length: "length (mm_erase k m) + length (mm_range k m) = length m"
  by (induction m) (auto simp: mm_erase_def mm_range_def)

interpretation hb: header_block headers_ok header_room header_values "\<lambda>n v h. snd (headers_add rnd n v 0 h)" headers_remove
  for rnd :: "nat \<Rightarrow> bytes"
proof
  fix h :: sub_header and n m v :: string
  show "headers_ok h \<Longrightarrow> headers_ok (snd (headers_add rnd n v 0 h))" by (rule headers_add_ok)
  show "headers_ok h \<Longrightarrow> headers_ok (headers_remove n h)" by (rule headers_ops_ok(1))
  show "to_upper_copy n = to_upper_copy m \<Longrightarrow> header_values h n = header_values h m" by (simp add: header_values_view)
  show "header_values (headers_remove n h) m = (if to_upper_copy m = to_upper_copy n then [] else header_values h m)"
    by (simp add: header_values_view remove_view mm_range_erase)
  show "headers_ok h \<Longrightarrow> header_room (headers_remove n h) = header_room h + length (header_values h n)"
    using mm_erase_length [of "to_upper_copy n" "m_headers h"]
    by (auto simp: header_room_def headers_remove_def header_values_def getOptionsByName_def headers_ok_def)
  assume ok: "headers_ok h" and r: "0 < header_room h"
  then obtain h' where a: "headers_add rnd n v 0 h = (True, h')"
    using add_view(2) [OF ok, of rnd n v] by (cases "headers_add rnd n v 0 h") (auto simp: header_room_def header_view_facts(3))
  show "header_values (snd (headers_add rnd n v 0 h)) m =
      (if to_upper_copy m = to_upper_copy n then header_values h m @ [v] else header_values h m)"
    using add_view(1) [OF ok a] header_view_facts(1) [OF ok] by (simp add: a header_values_view mm_range_insert)
  have "length (m_headers h') = Suc (length (m_headers h))" "m_maxOptions h' = m_maxOptions h"
    using a r by (auto simp: headers_add_def addHeaderOption_def Let_def split: if_splits)
  then show "header_room (snd (headers_add rnd n v 0 h)) = header_room h - 1" by (simp add: a header_room_def)
qed

lemma headers_replace_hb: "headers_replace rnd n v h = hb.replace rnd n v h"
  by (simp add: headers_replace_def hb.replace_def)

section \<open>Printing and parsing\<close>

text \<open>An option that can be sent: its name has no \<open>": "\<close> and does not start with a blank, the value ends at no
  null character, and the line has no end of line.\<close>

definition wire_option :: "string \<Rightarrow> string \<Rightarrow> bool" where
  "wire_option n v \<longleftrightarrow> find_sub '': '' n = None \<and> (n = [] \<or> hd n \<notin> {CHR '' '', CHR 0x09}) \<and> CHR 0x00 \<notin> set v \<and>
     one_line (n @ '': '' @ v)"

lemma colon_found:
  assumes "find_sub '': '' n = None"
  shows "find_sub '': '' (n @ '': '' @ v) = Some (length n)"
proof -
  have "\<not> occurs_at '': '' (n @ '': '' @ v) j" if j: "j < length n" for j
  proof
    assume o: "occurs_at '': '' (n @ '': '' @ v) j"
    show False
    proof (cases "Suc j < length n")
      case True
      then have "occurs_at '': '' n j" using o by (simp add: occurs_at_def)
      then show False using assms by (simp add: find_sub_None_iff)
    next
      case False
      then have "Suc j = length n" using j by simp
      then show False using o by (simp add: occurs_at_def take_Cons' numeral_2_eq_2)
    qed
  qed
  moreover have "occurs_at '': '' (n @ '': '' @ v) (length n)" by (simp add: occurs_at_def)
  ultimately show ?thesis by (simp only: find_sub_Some_iff first_at_def) blast
qed

lemma parse_printed:
  assumes "wire_option n v"
  shows "parseOptionValue rnd (n @ '': '' @ v) h = snd (headers_add rnd n v 0 h)"
proof -
  have "c_str v = v" using assms by (auto simp: wire_option_def c_str_def takeWhile_eq_all_conv)
  moreover have "\<not> (hd (n @ '': '' @ v) = CHR '' '' \<or> hd (n @ '': '' @ v) = CHR 0x09)"
    using assms by (cases n) (auto simp: wire_option_def)
  ultimately show ?thesis using assms colon_found [of n v] by (simp add: parseOptionValue_def wire_option_def)
qed

definition header_lines :: "sub_header \<Rightarrow> string list" where
  "header_lines h = map (\<lambda>(k, opt). option_toString opt) (header_view h)"

definition block_text :: "string list \<Rightarrow> bytes" where
  "block_text ls = concat (map (\<lambda>l. l @ [CR, LF]) ls) @ [CR, LF]"

definition named_values :: "sub_header \<Rightarrow> (string \<times> string) list" where
  "named_values h = map (\<lambda>(k, opt). (m_origName opt, m_origValue opt)) (header_view h)"

context sink
begin

lemma write_lines:
  assumes "ready up n" "length (concat xs) \<le> n" "n < two64"
  shows "\<exists>up'. foldl (\<lambda>w x. andThen w (write_checked S x)) (Some (Inr (True, up))) xs = Some (Inr (True, up')) \<and>
    content up' = content up @ concat xs \<and> ready up' (n - length (concat xs))"
  using assms
proof (induction xs arbitrary: up n)
  case (Cons x xs)
  then obtain up1 where up1: "write_checked S x up = Some (Inr (True, up1))" "content up1 = content up @ x" "ready up1 (n - length x)"
    using write_checked_total [of up n x] by auto
  have "\<exists>up'. foldl (\<lambda>w x. andThen w (write_checked S x)) (Some (Inr (True, up1))) xs = Some (Inr (True, up')) \<and>
    content up' = content up1 @ concat xs \<and> ready up' (n - length x - length (concat xs))"
    using Cons.prems by (intro Cons.IH up1) auto
  then show ?case using up1 by (auto simp: andThen_def add.commute)
qed simp

lemma headers_streamed:
  assumes "ready up n" "length (block_text (header_lines h)) \<le> n" "n < two64"
  shows "\<exists>up'. headers_streamToUpstream S h up = Some (Inr (True, up')) \<and>
    content up' = content up @ block_text (header_lines h) \<and> ready up' (n - length (block_text (header_lines h)))"
proof -
  let ?xs = "map (\<lambda>l. l @ [CR, LF]) (header_lines h)"
  have "foldl (\<lambda>w (k, i). andThen w (write_checked S (option_toString (sh_store h ! i) @ [CR, LF]))) w (m_headers h) =
      foldl (\<lambda>w x. andThen w (write_checked S x)) w ?xs" for w
    by (simp add: header_lines_def header_view_def foldl_map case_prod_unfold)
  moreover obtain up1 where "foldl (\<lambda>w x. andThen w (write_checked S x)) (Some (Inr (True, up))) ?xs = Some (Inr (True, up1))"
    and up1: "content up1 = content up @ concat ?xs" "ready up1 (n - length (concat ?xs))"
    using write_lines [of up n ?xs] assms by (auto simp: block_text_def)
  moreover have le: "length [CR, LF] \<le> n - length (concat ?xs)" using assms(2) unfolding block_text_def by simp
  moreover obtain up2 where "write_checked S [CR, LF] up1 = Some (Inr (True, up2))" "content up2 = content up1 @ [CR, LF]"
    "ready up2 (n - length (concat ?xs) - 2)"
    using write_checked_total [OF up1(2), of "[CR, LF]"] le by (auto simp: numeral_2_eq_2)
  ultimately show ?thesis using up1 by (auto simp: headers_streamToUpstream_def andThen_def block_text_def)
qed

end

text \<open>Parsing the printed lines of a block adds its options in their order.\<close>

lemma parsed_lines:
  assumes "headers_ok h0" "list_all (\<lambda>(n, v). wire_option n v) ps"
    "sorted (map (\<lambda>(n, v). to_upper_copy n) (named_values h0 @ ps))" "length (m_headers h0) + length ps \<le> m_maxOptions h0"
  shows "let h = fold (parseOptionValue rnd) (map (\<lambda>(n, v). n @ '': '' @ v) ps) h0 in
    headers_ok h \<and> named_values h = named_values h0 @ ps"
  using assms
proof (induction ps arbitrary: h0)
  case (Cons p ps)
  obtain n v where p: "p = (n, v)" by fastforce
  obtain h1 where h1: "headers_add rnd n v 0 h0 = (True, h1)"
    using add_view(2) [OF Cons.prems(1), of rnd n v] Cons.prems(4)
    by (cases "headers_add rnd n v 0 h0") (auto simp: header_view_facts(3) [OF Cons.prems(1)])
  define opt where "opt = parseSubValues (rnd (sh_draws h0)) v (HeaderOption_new\<lparr>m_origName := n\<rparr>)"
  note o = new_option [OF opt_def]
  have keys: "map fst (header_view h0) = map (\<lambda>(n, v). to_upper_copy n) (named_values h0)"
    using header_view_facts(2) [OF Cons.prems(1)] by (auto simp: named_values_def getUpperName_def)
  have "header_view h1 = mm_insert (to_upper_copy n) opt (header_view h0)"
    using add_view(1) [OF Cons.prems(1) h1] by (simp add: opt_def)
  also have "\<dots> = header_view h0 @ [(to_upper_copy n, opt)]"
    using Cons.prems(3) by (intro mm_insert_last) (simp add: keys p sorted_append)
  finally have nv: "named_values h1 = named_values h0 @ [(n, v)]" using o by (simp add: named_values_def)
  have line: "parseOptionValue rnd (n @ '': '' @ v) h0 = h1"
    using parse_printed [of n v rnd h0] Cons.prems(2) h1 by (simp add: p)
  have ok1: "headers_ok h1" using headers_add_ok [OF Cons.prems(1), of rnd n v 0] h1 by simp
  have "length (m_headers h1) = Suc (length (m_headers h0))" "m_maxOptions h1 = m_maxOptions h0"
    using h1 by (auto simp: headers_add_def addHeaderOption_def Let_def split: if_splits)
  then have "let h = fold (parseOptionValue rnd) (map (\<lambda>(n, v). n @ '': '' @ v) ps) h1 in
      headers_ok h \<and> named_values h = named_values h1 @ ps"
    using Cons.prems by (intro Cons.IH ok1) (simp_all add: nv p)
  then show ?case using line by (simp add: p nv Let_def)
qed simp


lemma named_values_sorted:
  assumes "headers_ok h"
  shows "sorted (map (\<lambda>(n, v). to_upper_copy n) (named_values h))" "length (named_values h) = length (m_headers h)"
proof -
  have "map fst (header_view h) = map (\<lambda>(n, v). to_upper_copy n) (named_values h)"
    using header_view_facts(2) [OF assms] by (auto simp: named_values_def getUpperName_def)
  then show "sorted (map (\<lambda>(n, v). to_upper_copy n) (named_values h))" using header_view_facts(1) [OF assms] by simp
qed (simp add: named_values_def header_view_def)

lemma header_lines_values: "header_lines h = map (\<lambda>(n, v). n @ '': '' @ v) (named_values h)"
  by (auto simp: header_lines_def named_values_def option_toString_def)

lemma MIME_Sub_Header_new_ok:
  "headers_ok MIME_Sub_Header_new" "named_values MIME_Sub_Header_new = []" "m_headers MIME_Sub_Header_new = []"
  "m_maxOptions MIME_Sub_Header_new = 32" "line_stage MIME_Sub_Header_new (16 * 1024)" "sp_text MIME_Sub_Header_new = []"
  by (simp_all add: MIME_Sub_Header_new_def setMaxOptionSize_def setParseDataTargetSize_def setParseDelimiter_def setParseStrategy_def
      sub_header_init_def subparser.defs headers_ok_def named_values_def header_view_def line_stage_def SubParser_new_def sp_ok_def
      sp_text_def B_setMaxSize_def B_Chunks_new_def has_room_def chunks_ok_def chunks_wf_def chunks_content_def)

text \<open>C19: a header block that is written to a stream and whose lines are parsed again has the same names and
  values, in the same order; the block must hold no more options than a new block takes, and names
  and values that can be told apart on the wire.\<close>

theorem header_block_roundtrip:
  assumes "headers_ok h" "list_all (\<lambda>(n, v). wire_option n v) (named_values h)" "length (m_headers h) \<le> 32"
    "string_ready up (length (block_text (header_lines h)))"
  shows "\<exists>up'. headers_streamToUpstream string_ops h up = Some (Inr (True, up')) \<and>
      ss_value up' = ss_value up @ block_text (header_lines h) \<and>
      named_values (fold (parseOptionValue rnd) (header_lines h) MIME_Sub_Header_new) = named_values h"
proof -
  from assms(2) have "named_values (fold (parseOptionValue rnd) (header_lines h) MIME_Sub_Header_new) = named_values h"
    using parsed_lines [OF MIME_Sub_Header_new_ok(1), of "named_values h" rnd] named_values_sorted [OF assms(1)] assms(3)
    by (simp add: MIME_Sub_Header_new_ok header_lines_values Let_def)
  moreover have "length (block_text (header_lines h)) < two64" using assms(4) by (simp add: string_ready_def)
  ultimately show ?thesis using str.headers_streamed [OF assms(4) order_refl] by blast
qed

section \<open>Quoted values\<close>

lemma takeWhile_until: "c \<notin> set a \<Longrightarrow> takeWhile (\<lambda>x. x \<noteq> c) (a @ c # r) = a"
  "c \<notin> set a \<Longrightarrow> dropWhile (\<lambda>x. x \<noteq> c) (a @ c # r) = c # r"
  by (induction a) auto

lemma find_sub_needs: "c \<in> set n \<Longrightarrow> c \<notin> set s \<Longrightarrow> find_sub n s = None"
  by (auto simp: find_sub_None_iff occurs_at_split)

lemma static_name_underscore: "CHR ''_'' \<in> set (static_name rnd i)"
  by (simp add: static_name_def)

text \<open>A text without underscores has no name of a quoted text in it.\<close>

lemma put_back_plain: "CHR ''_'' \<notin> set s \<Longrightarrow> put_back rnd [t] s = s"
  by (simp add: put_back_def replace_all_none find_sub_needs [OF static_name_underscore])

lemma put_back_name: "put_back rnd [t] (static_name rnd 0) = t"
  using replace_all_at [of "static_name rnd 0" t "[]"] by (simp add: put_back_def static_name_def)

lemma static_loop_one:
  assumes "QUOTE \<notin> set a" "QUOTE \<notin> set t"
  shows "static_loop rnd (a @ QUOTE # t @ [QUOTE]) [] = (a @ static_name rnd 0, [t])"
proof -
  let ?s = "a @ QUOTE # t @ [QUOTE]" and ?n = "QUOTE # t @ [QUOTE]"
  have tw: "takeWhile (\<lambda>c. c \<noteq> QUOTE) (t @ [QUOTE]) = t" "dropWhile (\<lambda>c. c \<noteq> QUOTE) ?s = QUOTE # t @ [QUOTE]"
    using assms by (simp_all add: takeWhile_until)
  have q: "quoted ?s = Some t" by (simp add: quoted_def tw)
  have "first_at ?n ?s (length a)"
  proof -
    have "\<not> occurs_at ?n ?s j" if "j < length a" for j
      using that assms(1) by (auto simp: occurs_at_def nth_append Cons_nth_drop_Suc [symmetric] dest!: nth_mem)
    then show ?thesis by (simp add: first_at_def occurs_at_def)
  qed
  from replace_all_append [OF _ this, of "[]" "static_name rnd 0"]
  have "replace_all ?n (static_name rnd 0) ?s = a @ static_name rnd 0 @ replace_all ?n (static_name rnd 0) []" by blast
  then have "replace_all ?n (static_name rnd 0) ?s = a @ static_name rnd 0" by (simp only: replace_all_Nil append_Nil2)
  moreover have "quoted (a @ static_name rnd 0) = None"
  proof -
    have "dropWhile (\<lambda>c. c \<noteq> QUOTE) (a @ static_name rnd 0) = []"
      unfolding dropWhile_eq_Nil_conv using assms(1) static_name_no_quote [of rnd 0] by auto
    then show ?thesis unfolding quoted_def by (simp only: list.case)
  qed
  ultimately show ?thesis using q by (simp add: static_loop.simps [of rnd ?s] static_loop.simps [of rnd "a @ static_name rnd 0"])
qed

text \<open>A plain word: what the values and the names of the sub-variables of a header are made of.\<close>

definition word_ok :: "string \<Rightarrow> bool" where
  "word_ok s \<longleftrightarrow> s \<noteq> [] \<and> list_all (\<lambda>c. 32 < (of_char c :: nat) \<and> (of_char c :: nat) \<le> 126 \<and>
     c \<noteq> QUOTE \<and> c \<noteq> CHR '';'' \<and> c \<noteq> CHR ''='' \<and> c \<noteq> CHR ''_'') s"

lemma space_small: "is_space c \<Longrightarrow> (of_char c :: nat) \<le> 32"
  by (auto simp: is_space_def)

lemma static_name_word: "c \<in> set (static_name rnd i) \<Longrightarrow> c \<noteq> CHR '';'' \<and> \<not> is_space c"
  using static_name_chars [of c rnd i] space_small [of c]
  by (auto simp: isalnum_def isalpha_def isdigit_def isupper_def islower_def)

lemma word_ok_facts:
  assumes "word_ok s"
  shows "trim s = s" "QUOTE \<notin> set s" "\<forall>c \<in> set s. c \<noteq> CHR '';''" "CHR ''='' \<notin> set s" "CHR ''_'' \<notin> set s"
    "isPermited7bitCharset s" "s \<noteq> []" "s \<noteq> [] \<and> \<not> is_space (hd s)"
proof -
  note w = assms [unfolded word_ok_def list_all_iff]
  have big: "32 < (of_char c :: nat)" if "c \<in> set s" for c using w that by blast
  have sp: "\<not> is_space c" if "c \<in> set s" for c using big [OF that] space_small [of c] by linarith
  show ne: "s \<noteq> []" using w by blast
  show "trim s = s" using sp ne by (intro trim_id) auto
  show "s \<noteq> [] \<and> \<not> is_space (hd s)" using sp ne by auto
  show "QUOTE \<notin> set s" using w by blast
  show "\<forall>c \<in> set s. c \<noteq> CHR '';''" using w by blast
  show "CHR ''='' \<notin> set s" using w by blast
  show "CHR ''_'' \<notin> set s" using w by blast
  show "isPermited7bitCharset s" unfolding isPermited7bitCharset_def list_all_iff using w 
    by (meson less_imp_le)
qed

theorem quoted_text_kept:
  assumes "word_ok a" "word_ok k" "a \<noteq> k" "QUOTE \<notin> set t" "isPermited7bitCharset t" "length a + length k + length t \<le> 8192"
    "opt = parseSubValues rnd (a @ ''; '' @ k @ ''='' @ QUOTE # t @ [QUOTE]) (HeaderOption_new\<lparr>m_origName := n\<rparr>)"
  shows "ho_value opt = a \<and> getSubVar opt k = t"
proof -
  note A = word_ok_facts [OF assms(1)] and K = word_ok_facts [OF assms(2)]
  let ?N = "static_name rnd 0" and ?s = "a @ ''; '' @ k @ ''='' @ QUOTE # t @ [QUOTE]"
  have "trim ?s = ?s" using A(8) by (intro trim_id) (simp add: is_space_def)
  have loop: "static_loop rnd ?s [] = (a @ CHR '';'' # '' '' @ k @ ''='' @ ?N, [t])"
    using static_loop_one [of "a @ ''; '' @ k @ ''=''" t rnd] A(2) K(2) assms(4) by simp
  have N: "\<forall>c \<in> set ?N. c \<noteq> CHR '';'' \<and> \<not> is_space c" "?N \<noteq> []"
    using static_name_word [of _ rnd 0] by blast (simp add: static_name_def)
  let ?r = "'' '' @ k @ ''='' @ ?N"
  have "\<forall>c \<in> set ?r. c \<noteq> CHR '';''" using K(3) N(1) by auto
  then have "split_any (\<lambda>c. c = CHR '';'') ?r = [?r]" by (rule split_any_none)
  then have split: "split_any (\<lambda>c. c = CHR '';'') (a @ CHR '';'' # ?r) = [a, ?r]"
    using split_any_token [of a "\<lambda>c. c = CHR '';''" "CHR '';''" ?r] A(3) by simp
  have trimN: "trim ?N = ?N" using N by (intro trim_id) auto
  have tw: "takeWhile (\<lambda>c. c \<noteq> CHR ''='') ('' '' @ k @ ''='' @ ?N) = '' '' @ k" "dropWhile (\<lambda>c. c \<noteq> CHR ''='') ('' '' @ k @ ''='' @ ?N) = ''='' @ ?N"
    using takeWhile_until [of "CHR ''=''" "'' '' @ k" ?N] K(4) by simp_all
  have v1: "sub_value rnd [t] a o1 = addSubVar a [] o1" for o1
    using A(4) by (simp add: sub_value_def A(1) put_back_plain [OF A(5)])
  have v2: "sub_value rnd [t] ('' '' @ k @ ''='' @ ?N) o1 = addSubVar k t o1" for o1
    using tw K(1) trimN put_back_plain [OF K(5)] put_back_name [of rnd t] by (simp add: sub_value_def is_space_def)
  have "opt = addSubVar k t (setValue a (addSubVar a [] (HeaderOption_new\<lparr>m_origName := n, m_origValue := ?s\<rparr>)))"
    using assms(7) \<open>trim ?s = ?s\<close> loop split v1 v2 A(1) put_back_plain [OF A(5)] by (simp add: parseSubValues_def)
  then show ?thesis
    using A K assms(3,5,6)
    by (simp add: addSubVar_def setValue_def HeaderOption_new_def add64_def isPermited7bitCharset_def getSubVar_def mm_range_def)
qed

section \<open>Instances\<close>

definition demo_headers :: sub_header where
  "demo_headers = snd (headers_add (\<lambda>_. []) ''Host'' ''example.org'' 0
     (snd (headers_add (\<lambda>_. []) ''content-type'' ''text/html'' 0 MIME_Sub_Header_new)))"

lemma demo_headers_lines:
  "demo_headers = fold (parseOptionValue (\<lambda>_. [])) [''content-type: text/html'', ''Host: example.org''] MIME_Sub_Header_new"
  using parse_printed [of "''content-type''" "''text/html''"] parse_printed [of "''Host''" "''example.org''"]
  by (simp add: demo_headers_def wire_option_def one_line_def)

lemma demo_headers_named: "named_values demo_headers = [(''content-type'', ''text/html''), (''Host'', ''example.org'')]"
  and demo_headers_ok: "headers_ok demo_headers"
proof -
  let ?ps = "[(''content-type'', ''text/html''), (''Host'', ''example.org'')]"
  have "sorted (map (\<lambda>(n, v). to_upper_copy n) ?ps)" by code_simp
  then show "named_values demo_headers = ?ps" "headers_ok demo_headers"
    using parsed_lines [OF MIME_Sub_Header_new_ok(1), of ?ps "\<lambda>_. []"]
    by (simp_all add: MIME_Sub_Header_new_ok demo_headers_lines Let_def wire_option_def one_line_def)
qed

theorem header_block_roundtrip_witness:
  "\<exists>up'. headers_streamToUpstream string_ops demo_headers (string_init []) = Some (Inr (True, up')) \<and>
      ss_value up' = block_text [''content-type: text/html'', ''Host: example.org''] \<and>
      named_values (fold (parseOptionValue (\<lambda>_. [])) (header_lines demo_headers) MIME_Sub_Header_new) =
        [(''content-type'', ''text/html''), (''Host'', ''example.org'')]"
proof -
  have l: "header_lines demo_headers = [''content-type: text/html'', ''Host: example.org'']"
    by (simp add: header_lines_values demo_headers_named)
  have "list_all (\<lambda>(n, v). wire_option n v) (named_values demo_headers)"
    by (simp add: demo_headers_named wire_option_def one_line_def)
  moreover have "length (m_headers demo_headers) \<le> 32"
    using named_values_sorted(2) [OF demo_headers_ok] by (simp add: demo_headers_named)
  moreover have "string_ready (string_init []) (length (block_text (header_lines demo_headers)))"
    by (simp add: l block_text_def string_ready_def string_init_def ws_init_def)
  ultimately show ?thesis
    using header_block_roundtrip [OF demo_headers_ok, of "string_init []" "\<lambda>_. []"] l demo_headers_named
    by (simp add: string_init_def)
qed



theorem quoted_text_kept_witness:
  "getSubVar (parseSubValues (replicate 16 CHR ''a'') (''form-data; name='' @ QUOTE # ''x;y'' @ [QUOTE])
     (HeaderOption_new\<lparr>m_origName := ''Content-Disposition''\<rparr>)) ''name'' = ''x;y''"
  using quoted_text_kept [of "''form-data''" "''name''" "''x;y''" _ "replicate 16 CHR ''a''" "''Content-Disposition''", OF _ _ _ _ _ _ refl]
  by (simp add: word_ok_def isPermited7bitCharset_def)

end
