(* ===== verification/Url_Vars.thy ===== *)
theory Url_Vars
  imports Url_Codec Line_Recv WebSocket_Content Http_Headers
begin

text \<open>
  \<open>Protocol_HTTP/common_urlvars.{h,cpp}\<close>, \<open>common_urlvar_subparser.{h,cpp}\<close> and the limits of
  \<open>Memory/vars.h\<close>: the variables of a query string or of a form, a parser that is itself a stream. Its one
  sub-parser takes names and values in turn and decodes them. What the decoder throws is kept in
  \<open>uv_thrown\<close>, which the write of the parser reports.
\<close>

section \<open>A name or a value\<close>

record url_var_sub = subparser +
  m_pData :: sp_buf
  uv_thrown :: "parser_exn option"

definition uv_setMaxObjectSize :: "url_var_sub \<Rightarrow> nat \<Rightarrow> url_var_sub" where
  "uv_setMaxObjectSize sp n = setParseDataTargetSize sp n"

definition URLVarContent_new :: url_var_sub where
  "URLVarContent_new =
     (uv_setMaxObjectSize (setParseMultiDelimiter (setParseStrategy
        (subparser.extend SubParser_new \<lparr>m_pData = B_Chunks_new, uv_thrown = None\<rparr>) MULTIDELIMITER) [''='', ''&'']) 4096)
     \<lparr>m_subParserName := ''URLVarContent''\<rparr>"

definition setVarType :: "url_var_sub \<Rightarrow> bool \<Rightarrow> url_var_sub" where
  "setVarType sp varName = setParseMultiDelimiter sp (if varName then [''='', ''&''] else [''&''])"

definition getContentAndFlush :: "url_var_sub \<Rightarrow> sp_buf \<times> url_var_sub" where
  "getContentAndFlush sp = (m_pData sp, sp\<lparr>m_pData := B_Chunks_new\<rparr>)"

definition getContentAsStringAndFlush :: "url_var_sub \<Rightarrow> bytes \<times> url_var_sub" where
  "getContentAsStringAndFlush sp =
     ((case B_toString CO (m_pData sp) size_max 0 of Some r \<Rightarrow> r | None \<Rightarrow> []), sp\<lparr>m_pData := B_Chunks_new\<rparr>)"

abbreviation decT :: "(url_decoder, sp_buf) trans_obj streamable" where
  "decT \<equiv> transformer_ops (url_decoder CS) CS"

text \<open>The parsed buffer streamed through the decoder into \<open>m_pData\<close>.\<close>

definition uv_decode :: "url_var_sub \<Rightarrow> (stream_exn + (url_decoder \<times> sp_buf)) option" where
  "uv_decode sp =
     transform (url_decoder CS) CS
       (B_streamTo (B_Ref_copyToStreamableObject2 (B_Chunks_copyToStreamableObject2 no_mmap no_mmap_copy decT) CO decT)
          (ref_ops CO) decT (getParsedBuffer sp)) URL_Decoder_new (m_pData sp)"

definition URLVarContent_parse :: "url_var_sub \<Rightarrow> ParseResult \<times> url_var_sub" where
  "URLVarContent_parse sp0 =
     (let sp = sp0\<lparr>m_pData := snd (B_clear CO (m_pData sp0))\<rparr> in
      if B_Ref_size CO (getParsedBuffer sp) = 0 then (GET_MORE_DATA, sp)
      else case uv_decode sp of
        None \<Rightarrow> (PR_ERROR, sp\<lparr>uv_thrown := Some Upstream_hangs\<rparr>)
      | Some (Inl e) \<Rightarrow> (PR_ERROR, sp\<lparr>uv_thrown := Some (Upstream_exn e)\<rparr>)
      | Some (Inr (_, out)) \<Rightarrow>
          (if \<not> succeed (m_writeStatus out) then (PR_ERROR, sp\<lparr>m_pData := snd (B_clear CO out)\<rparr>)
           else (GOTO_NEXT_SUBPARSER, sp\<lparr>m_pData := out\<rparr>)))"

section \<open>The variables\<close>

datatype uv_status = WAITING_FOR_NAME | WAITING_FOR_CONTENT

record url_vars = parser_base +
  m_currentStat :: uv_status
  m_currentVarName :: bytes
  m_vars :: "(bytes \<times> sp_buf) list"
  m_urlVarParser :: url_var_sub
  m_maxVarNameSize :: nat
  m_maxVarContentSize :: nat
  m_maxVarsCount :: nat

definition URLVars_create :: url_vars where
  "URLVars_create = parser_base.extend (parser_base_init\<lparr>m_initialized := True\<rparr>)
     \<lparr>m_currentStat = WAITING_FOR_NAME, m_currentVarName = [], m_vars = [],
      m_urlVarParser = uv_setMaxObjectSize (setVarType URLVarContent_new True) 1024,
      m_maxVarNameSize = 1024, m_maxVarContentSize = 16 * 1024 * 1024, m_maxVarsCount = 512\<rparr>"

definition addVar :: "bytes \<Rightarrow> sp_buf \<Rightarrow> url_vars \<Rightarrow> bool \<times> url_vars" where
  "addVar varName data p =
     (if varName \<noteq> [] \<and> length (m_vars p) < m_maxVarsCount p
      then (True, p\<lparr>m_vars := m_vars p @ [(varName, data)]\<rparr>) else (False, p))"

definition varCount :: "url_vars \<Rightarrow> bytes \<Rightarrow> 32 word" where
  "varCount p varName = word_of_nat (length (filter (\<lambda>(n, d). n = varName) (m_vars p)))"

definition url_getValue :: "url_vars \<Rightarrow> bytes \<Rightarrow> sp_buf option" where
  "url_getValue p varName = map_option snd (find (\<lambda>(n, d). n = varName) (m_vars p))"

definition url_getValues :: "url_vars \<Rightarrow> bytes \<Rightarrow> sp_buf list" where
  "url_getValues p varName = map snd (filter (\<lambda>(n, d). n = varName) (m_vars p))"

definition url_getKeysList :: "url_vars \<Rightarrow> bytes set" where
  "url_getKeysList p = fst ` set (m_vars p)"

definition setMaxVarContentSize :: "nat \<Rightarrow> url_vars \<Rightarrow> url_vars" where
  "setMaxVarContentSize n p =
     (let p1 = p\<lparr>m_maxVarContentSize := n\<rparr> in
      if m_currentStat p1 = WAITING_FOR_CONTENT then p1\<lparr>m_urlVarParser := uv_setMaxObjectSize (m_urlVarParser p1) n\<rparr> else p1)"

definition setMaxVarNameSize :: "nat \<Rightarrow> url_vars \<Rightarrow> url_vars" where
  "setMaxVarNameSize n p =
     (let p1 = p\<lparr>m_maxVarNameSize := n\<rparr> in
      if m_currentStat p1 = WAITING_FOR_NAME then p1\<lparr>m_urlVarParser := uv_setMaxObjectSize (m_urlVarParser p1) n\<rparr> else p1)"

definition URLVars_changeToNextParser :: "url_vars \<Rightarrow> parser_exn + (bool \<times> url_vars)" where
  "URLVars_changeToNextParser p =
     (case m_currentStat p of
        WAITING_FOR_NAME \<Rightarrow>
          (case getContentAsStringAndFlush (m_urlVarParser p) of (name, sp1) \<Rightarrow>
             (let p1 = p\<lparr>m_currentVarName := name\<rparr> in
              if m_delimiterFound sp1 = ''&'' \<or> m_streamEnded sp1 then
                (case getContentAndFlush sp1 of (d, sp2) \<Rightarrow> Inr (addVar (m_currentVarName p1) d (p1\<lparr>m_urlVarParser := sp2\<rparr>)))
              else Inr (True, p1\<lparr>m_currentStat := WAITING_FOR_CONTENT,
                     m_urlVarParser := uv_setMaxObjectSize (setVarType sp1 False) (m_maxVarContentSize p)\<rparr>)))
      | WAITING_FOR_CONTENT \<Rightarrow>
          (case getContentAndFlush (m_urlVarParser p) of (d, sp1) \<Rightarrow>
             (case addVar (m_currentVarName p) d (p\<lparr>m_urlVarParser := sp1\<rparr>) of (r, p1) \<Rightarrow>
                Inr (r, p1\<lparr>m_currentStat := WAITING_FOR_NAME,
                       m_urlVarParser := uv_setMaxObjectSize (setVarType (m_urlVarParser p1) True) (m_maxVarNameSize p1)\<rparr>))))"

definition url_vars_ops :: "(nat \<Rightarrow> bytes) \<Rightarrow> url_vars parser_ops" where
  "url_vars_ops u = \<lparr>pp_current = (\<lambda>_. True),
     pp_write = (\<lambda>p buf.
       case writeIntoSubParser URLVarContent_parse u (setParseResult (m_urlVarParser p) GET_MORE_DATA) buf of
         Inl e \<Rightarrow> Inl (Sub_exn e)
       | Inr (n, sp) \<Rightarrow> (case uv_thrown sp of Some e \<Rightarrow> Inl e | None \<Rightarrow> Inr (n, p\<lparr>m_urlVarParser := sp\<rparr>))),
     pp_status = (\<lambda>p. m_parseStatus (m_urlVarParser p)),
     pp_next = URLVars_changeToNextParser\<rparr>"

text \<open>The parser as a stream. Of the exceptions of the driver only those of the decoder occur here; the
  others would end in a crash and have no value.\<close>

definition url_vars_stream :: "(nat \<Rightarrow> bytes) \<Rightarrow> url_vars streamable" where
  "url_vars_stream u = \<lparr>
     so_write = (\<lambda>p buf. case Parser_write (url_vars_ops u) p buf of
        Inr r \<Rightarrow> Some (Inr r) | Inl (Upstream_exn e) \<Rightarrow> Some (Inl e) | Inl _ \<Rightarrow> None),
     so_status = p_writeStatus,
     so_set_status = (\<lambda>p w. p\<lparr>p_writeStatus := w\<rparr>)\<rparr>"

section \<open>Printing\<close>

text \<open>The encoder, whose failure is read from the status of the destination.\<close>

definition encode_to :: "'o streamable \<Rightarrow> sp_buf \<Rightarrow> 'o \<Rightarrow> (stream_exn + (bool \<times> 'o)) option" where
  "encode_to S b out =
     (let T = transformer_ops (url_encoder S) S in
      case transform (url_encoder S) S (B_streamTo (B_Chunks_copyToStreamableObject2 no_mmap no_mmap_copy T) CO T b) () out of
        None \<Rightarrow> None
      | Some (Inl e) \<Rightarrow> Some (Inl e)
      | Some (Inr (_, out')) \<Rightarrow> Some (Inr (succeed (so_status S out'), out')))"

definition stream_var :: "'o streamable \<Rightarrow> bytes \<times> sp_buf \<Rightarrow> 'o \<Rightarrow> (stream_exn + (bool \<times> 'o)) option" where
  "stream_var S x out =
     (case x of (name, value) \<Rightarrow>
        andThen (encode_to S (snd (B_append CO B_Chunks_new name)) out)
          (\<lambda>out1. if B_Chunks_size no_mmap value \<noteq> 0
             then andThen (write_checked S ''='' out1) (encode_to S value) else Some (Inr (True, out1))))"

fun stream_vars :: "'o streamable \<Rightarrow> bool \<Rightarrow> (bytes \<times> sp_buf) list \<Rightarrow> 'o \<Rightarrow> (stream_exn + (bool \<times> 'o)) option" where
  "stream_vars S firstVar [] out = Some (Inr (True, out))"
| "stream_vars S firstVar (x # xs) out =
     andThen (if firstVar then Some (Inr (True, out)) else write_checked S ''&'' out)
       (\<lambda>out1. andThen (stream_var S x out1) (stream_vars S False xs))"

definition URLVars_streamTo :: "'o streamable \<Rightarrow> url_vars \<Rightarrow> 'o \<Rightarrow> (stream_exn + (bool \<times> 'o)) option" where
  "URLVars_streamTo S p out = stream_vars S True (m_vars p) out"

section \<open>An element is decoded\<close>

lemma ref_stream_blocks:
  assumes "chunks_wf c" "referencedBC r = Some c" "referencedOffset r = 0" "0 < i" "i \<le> length (chunks_content c)"
    "B_Ref_size CO r = i" "i \<le> 262144"
    "copyToStreamableObjectUsingCleanVector O' x (slice_chunks (m_chunksVector c) 0 i) 0 = Some (Inr (n, x'))"
  shows "\<exists>b. B_streamTo (B_Ref_copyToStreamableObject2 (B_Chunks_copyToStreamableObject2 no_mmap mmA O') CO O') (ref_ops CO) O' r x =
    Some (Inr (b, x'))"
proof -
  have sz: "B_Chunks_size no_mmap c = length (chunks_content c)" "length (chunks_content c) < two64"
    "m_mmapContainer c = None" using assms(1) chunks_size by (auto simp: chunks_wf_def)
  then have i: "i < two64" using assms(5) by simp
  have vs: "v_size (ref_ops CO) r = i" using assms(6) by (simp add: ref_ops_def)
  have "B_Chunks_copyToStreamableObject2 no_mmap mmA O' c x i 0 = Some (Inr (n, x'))"
    using assms sz i by (simp add: B_Chunks_copyToStreamableObject2_def overflow_sum_iff)
  then have "B_appendTo (B_Chunks_copyToStreamableObject2 no_mmap mmA O') CO O' c x i 0 = Some (Inr (n, x'))"
    using assms(4,5,7) sz i by (auto simp: B_appendTo_def Let_def overflow_sum_iff size_max_def)
  then have "B_appendTo (B_Ref_copyToStreamableObject2 (B_Chunks_copyToStreamableObject2 no_mmap mmA O') CO O') (ref_ops CO) O' r x size_max 0 =
      Some (Inr (n, x'))"
    using assms(2,3,4,6) vs i by (simp add: B_appendTo_def Let_def overflow_sum_iff B_Ref_copyToStreamableObject2_def add64_def)
  then show ?thesis by (simp add: B_streamTo_def)
qed

lemma clear_new: "snd (B_clear CO (B_Chunks_new :: sp_buf)) = B_Chunks_new"
  by (simp add: B_clear_def B_clear0_def B_Chunks_clear2_def chunks_clearChunks_def B_Chunks_new_def)

lemma uv_decode_element:
  assumes "chunks_ok (m_unparsedBuffer sp)" "m_pData sp = B_Chunks_new" "i = min n (length (sp_text sp))" "0 < i" "i \<le> 262144"
  shows "\<exists>d out. uv_decode (ref_unparsed sp 0 n) = Some (Inr (d, out)) \<and> chunks_content out = url_decode (take i (sp_text sp)) \<and>
    chunks_ok out \<and> succeed (m_writeStatus out)" "B_Ref_size CO (getParsedBuffer (ref_unparsed sp 0 n)) = i"
proof -
  let ?c = "m_unparsedBuffer sp" and ?r = "getParsedBuffer (ref_unparsed sp 0 n)"
  let ?cks = "slice_chunks (m_chunksVector (m_unparsedBuffer sp)) 0 i"
  have r: "referencedBC ?r = Some ?c" "referencedOffset ?r = 0" "referencedMaxBytes ?r = n"
    by (simp_all add: getParsedBuffer_def ref_unparsed_def B_Ref_reference_def)
  show sz: "B_Ref_size CO ?r = i" using ra.ref_size [of ?r no_mmap] r assms(1,3) by (simp add: ref_ok_def ref_content_def sp_text_def min.commute)
  have i: "i \<le> length (sp_text sp)" using assms(3) by simp
  have cc: "concat ?cks = take i (sp_text sp)"
    using slice_chunks_concat [of 0 i "m_chunksVector ?c"] i by (simp add: chunks_content_def sp_text_def)
  have len: "length (concat ?cks) \<le> 262144" "length (concat ?cks) < two64" using cc i assms(5) by simp_all
  have in_ok: "\<forall>x m x'. copyToStreamableObjectUsingCleanVector decT x ?cks 0 = Some (Inr (m, x')) \<longrightarrow>
      (\<exists>b. B_streamTo (B_Ref_copyToStreamableObject2 (B_Chunks_copyToStreamableObject2 no_mmap no_mmap_copy decT) CO decT)
          (ref_ops CO) decT ?r x = Some (Inr (b, x')))"
    using ref_stream_blocks [OF chunks_ok_wf [OF assms(1)] r(1,2) assms(4) _ sz assms(5)] i by (auto simp: sp_text_def)
  have "m_pData (ref_unparsed sp 0 n) = B_Chunks_new" using assms(2) by (simp add: ref_unparsed_def)
  then show "\<exists>d out. uv_decode (ref_unparsed sp 0 n) = Some (Inr (d, out)) \<and> chunks_content out = url_decode (take i (sp_text sp)) \<and>
    chunks_ok out \<and> succeed (m_writeStatus out)"
    using osink.decoder_transform [where M = no_mmap and cks = ?cks and streamIn = "B_streamTo (B_Ref_copyToStreamableObject2
          (B_Chunks_copyToStreamableObject2 no_mmap no_mmap_copy decT) CO decT) (ref_ops CO) decT ?r",
        OF new_ready [OF order_refl] len in_ok] cc
    by (auto simp: uv_decode_def chunks_ready_def)
qed

text \<open>The sub-parser before an element, with its delimiters and its size limit.\<close>

definition uv_stage :: "url_var_sub \<Rightarrow> bytes list \<Rightarrow> nat \<Rightarrow> bool" where
  "uv_stage sp D N \<longleftrightarrow> sp_ok sp \<and> m_parseMode sp = MULTIDELIMITER \<and> m_parseMultiDelimiter sp = D \<and>
     m_maxSize (m_unparsedBuffer sp) = N \<and> m_maxChunks (m_unparsedBuffer sp) = 262144 \<and> m_pData sp = B_Chunks_new \<and>
     uv_thrown sp = None"

lemma uv_parse_element:
  assumes "chunks_ok (m_unparsedBuffer sp)" "m_pData sp = B_Chunks_new" "i = min n (length (sp_text sp))" "0 < i" "i \<le> 262144"
  shows "\<exists>out. URLVarContent_parse (ref_unparsed sp 0 n) = (GOTO_NEXT_SUBPARSER, (ref_unparsed sp 0 n)\<lparr>m_pData := out\<rparr>) \<and>
    chunks_content out = url_decode (take i (sp_text sp)) \<and> chunks_ok out"
proof -
  let ?r = "ref_unparsed sp 0 n"
  obtain d out where d: "uv_decode ?r = Some (Inr (d, out))" "chunks_content out = url_decode (take i (sp_text sp))"
    "chunks_ok out" "succeed (m_writeStatus out)" using uv_decode_element(1) [OF assms] by blast
  have pd: "?r\<lparr>m_pData := snd (B_clear CO (m_pData ?r))\<rparr> = ?r"
    using assms(2) by (simp add: clear_new ref_unparsed_def)
  show ?thesis using d assms(4) uv_decode_element(2) [OF assms]
    by (intro exI [of _ out]) (simp add: URLVarContent_parse_def pd Let_def)
qed

lemma uv_stage_cleared:
  assumes "uv_stage sp D N" "chunks_ok b" "same_limits (m_unparsedBuffer sp) b" "m_unparsedBuffer s = b"
    "m_parseMode s = MULTIDELIMITER" "m_parseMultiDelimiter s = D" "uv_thrown s = None" "m_pData s = B_Chunks_new"
  shows "uv_stage (clear_unparsed s) D N" "sp_text (clear_unparsed s) = []"
  using assms cleared_buffer [OF assms(2)]
  by (simp_all add: uv_stage_def clear_unparsed_def sp_ok_def sp_text_def has_room_def same_limits_def)

lemma clear_pData: "(clear_unparsed s)\<lparr>m_pData := x\<rparr> = clear_unparsed (s\<lparr>m_pData := x\<rparr>)"
  "sp_text (clear_unparsed (s\<lparr>m_pData := x\<rparr>)) = sp_text (clear_unparsed s)" "m_pData (clear_unparsed s) = m_pData s"
  "uv_thrown (clear_unparsed s) = uv_thrown s"
  by (cases s, simp add: clear_unparsed_def) (simp_all add: clear_unparsed_def sp_text_def)

lemma ref_unparsed_more [simp]: "uv_thrown (ref_unparsed s a n) = uv_thrown s" "m_pData (ref_unparsed s a n) = m_pData s"
  "m_streamEnded (ref_unparsed s a n) = m_streamEnded s"
  by (simp_all add: ref_unparsed_def)

text \<open>A delimiter that is the first of the list ends the element.\<close>

lemma uv_element:
  assumes st: "uv_stage sp ([c] # D) N" and t: "sp_text sp = []" and c: "c \<notin> set e" "e \<noteq> []" "length e + 1 \<le> N"
    "length (e @ c # rest) \<le> 262144" "\<forall>\<delta> \<in> set D. length \<delta> = 1" "\<not> m_streamEnded sp"
  shows "\<exists>sp'. writeIntoSubParser URLVarContent_parse u sp (e @ c # rest) = Inr (Some (length e + 1), sp') \<and>
    m_parseStatus sp' = GOTO_NEXT_SUBPARSER \<and> chunks_content (m_pData sp') = url_decode e \<and> chunks_ok (m_pData sp') \<and>
    m_delimiterFound sp' = [c] \<and> sp_text sp' = [] \<and> \<not> m_streamEnded sp' \<and> uv_thrown sp' = None \<and> uv_stage (sp'\<lparr>m_pData := B_Chunks_new\<rparr>) ([c] # D) N"
proof -
  let ?left = "B_getSizeLeft CO (m_unparsedBuffer sp)" and ?P = URLVarContent_parse
  have s: "sp_ok sp" "m_parseMode sp = MULTIDELIMITER" "m_parseMultiDelimiter sp = [c] # D" "m_maxSize (m_unparsedBuffer sp) = N"
    "m_maxChunks (m_unparsedBuffer sp) = 262144" "m_pData sp = B_Chunks_new" "uv_thrown sp = None" using st by (auto simp: uv_stage_def)
  have left: "?left = N" using sp_size_left [OF s(1)] t s(4) by simp
  define d where "d = take N (e @ c # rest)"
  obtain m where m: "N = length e + 1 + m" using c(3) by (auto simp: le_iff_add)
  have d: "d = e @ c # take m rest" by (simp add: d_def m)
  have eq: "parseByMultiDelimiter ?P sp (e @ c # rest) = parseByMultiDelimiter ?P sp d"
    using append_cut [of sp "e @ c # rest"] c(3) by (simp add: parseByMultiDelimiter_def left d_def)
  have ld: "length d \<le> N" "length d \<le> 262144" using c(4) by (auto simp: d_def)
  have N: "N < two64" using s(1,4) by (simp add: sp_ok_def has_room_def)
  have room: "has_room (m_unparsedBuffer sp) (length d)"
    using s(1,4,5) t ld by (auto simp: sp_ok_def has_room_def sp_text_def)
  have f: "find_listed ([c] # D) d = Some (length e, [c])"
    using c(1) by (simp add: find_sub_single d takeWhile_until)
  have del: "\<forall>\<delta> \<in> set ([c] # D). \<delta> \<noteq> [] \<and> length \<delta> + length ([] :: bytes) + length d < two64" using c(5) ld(2) by auto
  obtain b where b: "chunks_ok b" "has_room b 0" "chunks_content b = d" "same_limits (m_unparsedBuffer sp) b"
    and w: "parseByMultiDelimiter ?P sp d = (let sp3 = clear_unparsed (run_parse ?P (ref_unparsed
        (sp\<lparr>m_unparsedBuffer := b, m_delimiterFound := [c]\<rparr>) 0 (length e))) in
      (Some (sub64 (add64 (length e) (length (m_delimiterFound sp3))) 0), sp3))"
    using multi_step [OF s(1) room, of ?P, unfolded s(3) t append_Nil f option.case prod.case, OF del] by auto
  let ?s1 = "sp\<lparr>m_unparsedBuffer := b, m_delimiterFound := [c]\<rparr>"
  obtain out where out: "?P (ref_unparsed ?s1 0 (length e)) = (GOTO_NEXT_SUBPARSER, (ref_unparsed ?s1 0 (length e))\<lparr>m_pData := out\<rparr>)"
    "chunks_content out = url_decode e" "chunks_ok out"
    using uv_parse_element [of ?s1 "length e" "length e"] b s(6) c(2,4) d by (auto simp: sp_text_def)
  let ?s2 = "run_parse ?P (ref_unparsed ?s1 0 (length e))"
  have s2: "?s2 = (ref_unparsed ?s1 0 (length e))\<lparr>m_pData := out, m_parseStatus := GOTO_NEXT_SUBPARSER\<rparr>"
    by (simp add: run_parse_def setParseResult_def out(1))
  have "uv_stage (clear_unparsed (?s2\<lparr>m_pData := B_Chunks_new\<rparr>)) ([c] # D) N" "sp_text (clear_unparsed (?s2\<lparr>m_pData := B_Chunks_new\<rparr>)) = []"
    using uv_stage_cleared [OF st b(1,4), of "?s2\<lparr>m_pData := B_Chunks_new\<rparr>"] s by (simp_all add: s2)
  moreover have "sub64 (add64 (length e) (Suc 0)) 0 = length e + 1" using c(3) N by (simp add: add64_small sub64_small)
  then have "writeIntoSubParser ?P u sp (e @ c # rest) = Inr (Some (length e + 1), clear_unparsed ?s2)"
    using w eq s(2) c(2) by (simp add: writeIntoSubParser_def Let_def s2)
  moreover have "m_pData (clear_unparsed ?s2) = out" "uv_thrown (clear_unparsed ?s2) = None" "m_parseStatus (clear_unparsed ?s2) = GOTO_NEXT_SUBPARSER"
    "m_delimiterFound (clear_unparsed ?s2) = [c]" "\<not> m_streamEnded (clear_unparsed ?s2)"
    using s c(6) by (simp_all add: clear_pData s2)
  ultimately show ?thesis using out by (intro exI [of _ "clear_unparsed ?s2"]) (simp only: clear_pData simp_thms)
qed

lemma find_listed_None: "find_listed D t = None \<longleftrightarrow> (\<forall>\<delta> \<in> set D. find_sub \<delta> t = None)"
  by (induction D) (auto split: option.split)

text \<open>A text without a delimiter is kept.\<close>

lemma uv_absorb:
  assumes st: "uv_stage sp D N" and t: "sp_text sp = []" and d: "d \<noteq> []" "find_listed D d = None" "length d \<le> N" "length d \<le> 262144"
    "\<forall>\<delta> \<in> set D. length \<delta> = 1" "\<not> m_streamEnded sp"
  shows "\<exists>sp'. writeIntoSubParser URLVarContent_parse u sp d = Inr (Some (length d), sp') \<and> sp_text sp' = d \<and> uv_stage sp' D N \<and>
    m_parseStatus sp' = m_parseStatus sp \<and> \<not> m_streamEnded sp'"
proof -
  have s: "sp_ok sp" "m_parseMode sp = MULTIDELIMITER" "m_parseMultiDelimiter sp = D" "m_maxSize (m_unparsedBuffer sp) = N"
    "m_maxChunks (m_unparsedBuffer sp) = 262144" using st by (auto simp: uv_stage_def)
  have room: "has_room (m_unparsedBuffer sp) (length d)" using s(1,4,5) t d(3,4) by (auto simp: sp_ok_def has_room_def sp_text_def)
  have del: "\<forall>\<delta> \<in> set D. \<delta> \<noteq> [] \<and> length \<delta> + length ([] :: bytes) + length d < two64" using d(4,5) by auto
  obtain b where b: "chunks_ok b" "has_room b 0" "chunks_content b = d" "same_limits (m_unparsedBuffer sp) b"
    and w: "parseByMultiDelimiter URLVarContent_parse sp d = (Some (length d), ref_unparsed (sp\<lparr>m_unparsedBuffer := b\<rparr>) 0 size_max)"
    using multi_step [OF s(1) room, of URLVarContent_parse, unfolded s(3) t append_Nil d(2) option.case, OF del] d(6) by auto
  let ?s' = "ref_unparsed (sp\<lparr>m_unparsedBuffer := b\<rparr>) 0 size_max"
  have "uv_stage ?s' D N" using st b by (auto simp: uv_stage_def sp_ok_def same_limits_def)
  moreover have "m_parseStatus ?s' = m_parseStatus sp" by (simp add: ref_unparsed_def)
  ultimately show ?thesis using w s(2) d(1,6) b(3) by (simp add: writeIntoSubParser_def Let_def sp_text_def)
qed

text \<open>The end of the stream completes the last element, if there is one.\<close>

lemma uv_end:
  assumes st: "uv_stage sp D N" and d: "find_listed D (sp_text sp) = None" "length (sp_text sp) \<le> 262144" "\<forall>\<delta> \<in> set D. length \<delta> = 1"
  shows "\<exists>sp'. writeIntoSubParser URLVarContent_parse u sp [] = Inr (Some 0, sp') \<and> sp_text sp' = [] \<and> uv_stage (sp'\<lparr>m_pData := B_Chunks_new\<rparr>) D N \<and>
    m_streamEnded sp' \<and> uv_thrown sp' = None \<and>
    (if sp_text sp = [] then m_parseStatus sp' = GET_MORE_DATA
     else m_parseStatus sp' = GOTO_NEXT_SUBPARSER \<and> chunks_content (m_pData sp') = url_decode (sp_text sp) \<and> chunks_ok (m_pData sp'))"
proof -
  define q where "q = sp\<lparr>m_streamEnded := True\<rparr>"
  have s: "sp_ok q" "m_parseMode q = MULTIDELIMITER" "m_parseMultiDelimiter q = D" "m_maxSize (m_unparsedBuffer q) = N"
    "m_maxChunks (m_unparsedBuffer q) = 262144" "m_pData q = B_Chunks_new" "uv_thrown q = None" and t: "sp_text q = sp_text sp"
    and se: "m_streamEnded q" and stq: "uv_stage q D N"
    using st by (auto simp: uv_stage_def q_def sp_ok_def sp_text_def)
  have room: "has_room (m_unparsedBuffer q) (length ([] :: bytes))" using s(1) by (simp add: sp_ok_def)
  have del: "\<forall>\<delta> \<in> set D. \<delta> \<noteq> [] \<and> length \<delta> + length (sp_text sp) + length ([] :: bytes) < two64" using d(2,3) by auto
  obtain b where b: "chunks_ok b" "has_room b 0" "chunks_content b = sp_text sp" "same_limits (m_unparsedBuffer q) b"
    and w: "parseByMultiDelimiter URLVarContent_parse q [] =
      (Some 0, clear_unparsed (run_parse URLVarContent_parse (ref_unparsed (q\<lparr>m_unparsedBuffer := b\<rparr>) 0 size_max)))"
    using multi_step [OF s(1) room, of URLVarContent_parse, unfolded s(3) t append_Nil2 d(1) option.case, OF del] se by auto
  let ?s1 = "q\<lparr>m_unparsedBuffer := b\<rparr>" and ?l = "length (sp_text sp)"
  let ?r = "ref_unparsed ?s1 0 size_max"
  have sz: "B_Ref_size CO (getParsedBuffer ?r) = ?l"
    using ra.ref_size [of "getParsedBuffer ?r" no_mmap] b d(2)
    by (simp add: getParsedBuffer_def ref_unparsed_def B_Ref_reference_def ref_ok_def ref_content_def size_max_def)
  have pd: "?r\<lparr>m_pData := snd (B_clear CO (m_pData q))\<rparr> = ?r" using s(6) by (simp add: clear_new ref_unparsed_def)
  obtain st' out where P: "URLVarContent_parse ?r = (st', ?r\<lparr>m_pData := out\<rparr>)"
    and o: "if sp_text sp = [] then st' = GET_MORE_DATA
      else st' = GOTO_NEXT_SUBPARSER \<and> chunks_content out = url_decode (sp_text sp) \<and> chunks_ok out"
  proof (cases "sp_text sp = []")
    case True
    then have "URLVarContent_parse ?r = (GET_MORE_DATA, ?r)" using sz by (simp add: URLVarContent_parse_def pd Let_def)
    then show thesis using that [of GET_MORE_DATA "m_pData ?r"] True by simp
  next
    case False
    have "?l = min size_max (length (sp_text ?s1))" using b(3) d(2) by (simp add: sp_text_def size_max_def)
    from uv_parse_element [OF _ _ this] show thesis using that b s(6) d(2) False by (auto simp: sp_text_def)
  qed
  let ?s2 = "run_parse URLVarContent_parse ?r"
  have s2: "?s2 = ?r\<lparr>m_pData := out, m_parseStatus := st'\<rparr>" by (simp add: run_parse_def setParseResult_def P)
  have "uv_stage (clear_unparsed (?s2\<lparr>m_pData := B_Chunks_new\<rparr>)) D N" "sp_text (clear_unparsed (?s2\<lparr>m_pData := B_Chunks_new\<rparr>)) = []"
    using uv_stage_cleared [OF stq b(1,4), of "?s2\<lparr>m_pData := B_Chunks_new\<rparr>"] s by (simp_all add: s2)
  moreover have "writeIntoSubParser URLVarContent_parse u sp [] = Inr (Some 0, clear_unparsed ?s2)"
    using w s(2) by (simp add: writeIntoSubParser_def Let_def q_def [symmetric])
  moreover have "m_pData (clear_unparsed ?s2) = out" "uv_thrown (clear_unparsed ?s2) = None" "m_parseStatus (clear_unparsed ?s2) = st'"
    "m_streamEnded (clear_unparsed ?s2)"
    using s se by (simp_all add: clear_pData s2)
  ultimately show ?thesis using o by (intro exI [of _ "clear_unparsed ?s2"]) (simp add: clear_pData)
qed

section \<open>The variables of a text\<close>

definition var_values :: "url_vars \<Rightarrow> (bytes \<times> bytes) list" where
  "var_values p = map (\<lambda>(n, b). (n, chunks_content b)) (m_vars p)"

text \<open>The parser between two variables, and after a name.\<close>

definition uv_limits :: "url_vars \<Rightarrow> bool" where
  "uv_limits p \<longleftrightarrow> m_maxVarNameSize p = 1024 \<and> m_maxVarContentSize p = 16777216 \<and> m_maxVarsCount p = 512 \<and>
     sp_text (m_urlVarParser p) = [] \<and> \<not> m_streamEnded (m_urlVarParser p)"

definition at_name :: "url_vars \<Rightarrow> bool" where
  "at_name p \<longleftrightarrow> uv_limits p \<and> m_currentStat p = WAITING_FOR_NAME \<and> uv_stage (m_urlVarParser p) [''='', ''&''] 1024"

definition at_value :: "url_vars \<Rightarrow> bytes \<Rightarrow> bool" where
  "at_value p n \<longleftrightarrow> uv_limits p \<and> m_currentStat p = WAITING_FOR_CONTENT \<and> m_currentVarName p = n \<and>
     uv_stage (m_urlVarParser p) [''&''] 16777216"

lemma uv_ops_sel [simp]:
  "pp_current (url_vars_ops u) p" "pp_status (url_vars_ops u) p = m_parseStatus (m_urlVarParser p)"
  "pp_next (url_vars_ops u) = URLVars_changeToNextParser"
  by (simp_all add: url_vars_ops_def)

lemma uv_status [simp]:
  "uv_stage (setParseResult sp r) D N = uv_stage sp D N" "sp_text (setParseResult sp r) = sp_text sp"
  "m_streamEnded (setParseResult sp r) = m_streamEnded sp"
  by (simp_all add: uv_stage_def setParseResult_def sp_ok_def sp_text_def)

lemma uv_retarget:
  assumes "uv_stage sp D N" "sp_text sp = []" "N' < two64"
  shows "uv_stage (uv_setMaxObjectSize (setVarType sp nm) N') (if nm then [''='', ''&''] else [''&'']) N'"
    "sp_text (uv_setMaxObjectSize (setVarType sp nm) N') = []"
    "m_streamEnded (uv_setMaxObjectSize (setVarType sp nm) N') = m_streamEnded sp"
  using assms
  by (simp_all add: uv_stage_def uv_setMaxObjectSize_def setVarType_def setParseMultiDelimiter_def setParseDataTargetSize_def
      B_setMaxSize_def sp_ok_def sp_text_def has_room_def)

lemma at_name_write:
  assumes "at_name p" "CHR ''='' \<notin> set e" "e \<noteq> []" "length e < 1024" "length (e @ CHR ''='' # rest) \<le> 262144"
  shows "\<exists>p1 p2. pp_write (url_vars_ops u) p (e @ CHR ''='' # rest) = Inr (Some (length e + 1), p1) \<and>
    m_parseStatus (m_urlVarParser p1) = GOTO_NEXT_SUBPARSER \<and> URLVars_changeToNextParser p1 = Inr (True, p2) \<and>
    at_value p2 (url_decode e) \<and> m_vars p2 = m_vars p \<and> m_maxTTL p2 = m_maxTTL p \<and> p_writeStatus p2 = p_writeStatus p"
proof -
  have a: "uv_limits p" "m_currentStat p = WAITING_FOR_NAME" "uv_stage (setParseResult (m_urlVarParser p) GET_MORE_DATA) [''='', ''&''] 1024"
    "sp_text (setParseResult (m_urlVarParser p) GET_MORE_DATA) = []" "\<not> m_streamEnded (setParseResult (m_urlVarParser p) GET_MORE_DATA)"
    using assms(1) by (auto simp: at_name_def uv_limits_def)
  obtain sp where sp: "writeIntoSubParser URLVarContent_parse u (setParseResult (m_urlVarParser p) GET_MORE_DATA) (e @ CHR ''='' # rest) =
      Inr (Some (length e + 1), sp)" "m_parseStatus sp = GOTO_NEXT_SUBPARSER" "chunks_content (m_pData sp) = url_decode e" "chunks_ok (m_pData sp)"
    "m_delimiterFound sp = ''=''" "sp_text sp = []" "\<not> m_streamEnded sp" "uv_thrown sp = None" "uv_stage (sp\<lparr>m_pData := B_Chunks_new\<rparr>) [''='', ''&''] 1024"
    using uv_element [OF a(3,4) assms(2,3) _ assms(5) _ a(5), where u = u] assms(4) by auto
  define sp1 where "sp1 = sp\<lparr>m_pData := B_Chunks_new\<rparr>"
  have name: "B_toStringEx CO (m_pData sp) = url_decode e" using ra.toStringEx_content [OF sp(4), of no_mmap] sp(3) by simp
  have t1: "sp_text sp1 = []" "\<not> m_streamEnded sp1" "m_delimiterFound sp1 = ''=''" using sp by (simp_all add: sp1_def sp_text_def)
  let ?p1 = "p\<lparr>m_urlVarParser := sp\<rparr>"
  let ?p2 = "?p1\<lparr>m_currentVarName := url_decode e, m_currentStat := WAITING_FOR_CONTENT,
     m_urlVarParser := uv_setMaxObjectSize (setVarType sp1 False) (m_maxVarContentSize p)\<rparr>"
  have "URLVars_changeToNextParser ?p1 = Inr (True, ?p2)"
    using a(2) t1 name by (simp add: URLVars_changeToNextParser_def getContentAsStringAndFlush_def B_toStringEx_def sp1_def [symmetric] Let_def)
  moreover have "at_value ?p2 (url_decode e)"
    using a(1) uv_retarget [OF sp(9) [folded sp1_def] t1(1), of 16777216 False] t1(2) by (simp add: at_value_def uv_limits_def)
  moreover have "pp_write (url_vars_ops u) p (e @ CHR ''='' # rest) = Inr (Some (length e + 1), ?p1)"
    using sp(1,8) by (simp add: url_vars_ops_def)
  ultimately show ?thesis using sp(2) by (intro exI [of _ ?p1] exI [of _ ?p2]) simp
qed

text \<open>Adding the variable whose value is complete.\<close>

lemma value_next:
  assumes "uv_limits p" "m_currentStat p = WAITING_FOR_CONTENT" "m_currentVarName p = n" "n \<noteq> []" "length (m_vars p) < 512"
    "chunks_content (m_pData sp) = v" "uv_stage (sp\<lparr>m_pData := B_Chunks_new\<rparr>) D N" "sp_text sp = []"
  shows "\<exists>p2. URLVars_changeToNextParser (p\<lparr>m_urlVarParser := sp\<rparr>) = Inr (True, p2) \<and> var_values p2 = var_values p @ [(n, v)] \<and>
    (\<not> m_streamEnded sp \<longrightarrow> at_name p2) \<and> m_maxTTL p2 = m_maxTTL p \<and> p_writeStatus p2 = p_writeStatus p"
proof -
  define sp1 where "sp1 = sp\<lparr>m_pData := B_Chunks_new\<rparr>"
  let ?p2 = "p\<lparr>m_vars := m_vars p @ [(n, m_pData sp)], m_currentStat := WAITING_FOR_NAME,
     m_urlVarParser := uv_setMaxObjectSize (setVarType sp1 True) (m_maxVarNameSize p)\<rparr>"
  have t1: "sp_text sp1 = []" "m_streamEnded sp1 = m_streamEnded sp" using assms(8) by (simp_all add: sp1_def sp_text_def)
  have "URLVars_changeToNextParser (p\<lparr>m_urlVarParser := sp\<rparr>) = Inr (True, ?p2)"
    using assms(1-5) by (simp add: URLVars_changeToNextParser_def getContentAndFlush_def addVar_def uv_limits_def sp1_def [symmetric])
  moreover have "at_name ?p2" if "\<not> m_streamEnded sp"
    using assms(1) that uv_retarget [OF assms(7) [folded sp1_def] t1(1), of 1024 True] t1(2) by (simp add: at_name_def uv_limits_def)
  moreover have "var_values ?p2 = var_values p @ [(n, v)]" using assms(6) by (simp add: var_values_def)
  ultimately show ?thesis by (intro exI [of _ ?p2]) simp
qed

lemma at_value_write:
  assumes "at_value p n" "n \<noteq> []" "length (m_vars p) < 512" "CHR ''&'' \<notin> set e" "e \<noteq> []" "length (e @ CHR ''&'' # rest) \<le> 262144"
  shows "\<exists>p1 p2. pp_write (url_vars_ops u) p (e @ CHR ''&'' # rest) = Inr (Some (length e + 1), p1) \<and>
    m_parseStatus (m_urlVarParser p1) = GOTO_NEXT_SUBPARSER \<and> URLVars_changeToNextParser p1 = Inr (True, p2) \<and>
    at_name p2 \<and> var_values p2 = var_values p @ [(n, url_decode e)] \<and> m_maxTTL p2 = m_maxTTL p \<and> p_writeStatus p2 = p_writeStatus p"
proof -
  have a: "uv_limits p" "m_currentStat p = WAITING_FOR_CONTENT" "m_currentVarName p = n"
    "uv_stage (setParseResult (m_urlVarParser p) GET_MORE_DATA) [''&''] 16777216"
    "sp_text (setParseResult (m_urlVarParser p) GET_MORE_DATA) = []" "\<not> m_streamEnded (setParseResult (m_urlVarParser p) GET_MORE_DATA)"
    using assms(1) by (auto simp: at_value_def uv_limits_def)
  obtain sp where sp: "writeIntoSubParser URLVarContent_parse u (setParseResult (m_urlVarParser p) GET_MORE_DATA) (e @ CHR ''&'' # rest) =
      Inr (Some (length e + 1), sp)" "m_parseStatus sp = GOTO_NEXT_SUBPARSER" "chunks_content (m_pData sp) = url_decode e"
    "sp_text sp = []" "\<not> m_streamEnded sp" "uv_thrown sp = None" "uv_stage (sp\<lparr>m_pData := B_Chunks_new\<rparr>) [''&''] 16777216"
    using uv_element [OF a(4,5) assms(4,5) _ assms(6) _ a(6), where u = u] assms(6) by auto
  from value_next [OF a(1,2,3) assms(2,3) sp(3,7,4)] sp(5)
  obtain p2 where p2: "URLVars_changeToNextParser (p\<lparr>m_urlVarParser := sp\<rparr>) = Inr (True, p2)" "at_name p2"
    "var_values p2 = var_values p @ [(n, url_decode e)]" "m_maxTTL p2 = m_maxTTL p" "p_writeStatus p2 = p_writeStatus p" by blast
  have "pp_write (url_vars_ops u) p (e @ CHR ''&'' # rest) = Inr (Some (length e + 1), p\<lparr>m_urlVarParser := sp\<rparr>)"
    using sp(1,6) by (simp add: url_vars_ops_def)
  then show ?thesis using sp(2) p2 by (intro exI [of _ "p\<lparr>m_urlVarParser := sp\<rparr>"] exI [of _ p2]) simp
qed

lemma at_value_last:
  assumes "at_value p n" "n \<noteq> []" "length (m_vars p) < 512" "CHR ''&'' \<notin> set e" "e \<noteq> []" "length e \<le> 262144"
  shows "\<exists>p1 p2. pp_write (url_vars_ops u) p e = Inr (Some (length e), p1) \<and> m_parseStatus (m_urlVarParser p1) = GET_MORE_DATA \<and>
    m_maxTTL p1 = m_maxTTL p \<and> p_writeStatus p1 = p_writeStatus p \<and>
    Parser_write (url_vars_ops u) p1 [] = Inr (Some 0, p2) \<and> var_values p2 = var_values p @ [(n, url_decode e)] \<and> p_writeStatus p2 = p_writeStatus p"
proof -
  have a: "uv_limits p" "m_currentStat p = WAITING_FOR_CONTENT" "m_currentVarName p = n"
    "uv_stage (setParseResult (m_urlVarParser p) GET_MORE_DATA) [''&''] 16777216"
    "sp_text (setParseResult (m_urlVarParser p) GET_MORE_DATA) = []" "\<not> m_streamEnded (setParseResult (m_urlVarParser p) GET_MORE_DATA)"
    using assms(1) by (auto simp: at_value_def uv_limits_def)
  have nd: "find_listed [''&''] e = None" using assms(4) by (simp add: find_sub_single)
  obtain sp where sp: "writeIntoSubParser URLVarContent_parse u (setParseResult (m_urlVarParser p) GET_MORE_DATA) e = Inr (Some (length e), sp)"
    "sp_text sp = e" "uv_stage sp [''&''] 16777216" "m_parseStatus sp = GET_MORE_DATA"
    using uv_absorb [OF a(4,5) assms(5) nd _ assms(6) _ a(6), where u = u] assms(6) by (auto simp: setParseResult_def)
  let ?p1 = "p\<lparr>m_urlVarParser := sp\<rparr>"
  have w1: "pp_write (url_vars_ops u) p e = Inr (Some (length e), ?p1)"
    using sp(1,3) by (simp add: url_vars_ops_def uv_stage_def)
  obtain sq where sq: "writeIntoSubParser URLVarContent_parse u (setParseResult sp GET_MORE_DATA) [] = Inr (Some 0, sq)"
    "sp_text sq = []" "uv_stage (sq\<lparr>m_pData := B_Chunks_new\<rparr>) [''&''] 16777216" "m_parseStatus sq = GOTO_NEXT_SUBPARSER"
    "chunks_content (m_pData sq) = url_decode e" "uv_thrown sq = None"
    using uv_end [of "setParseResult sp GET_MORE_DATA" "[''&'']" 16777216 u] sp(2,3) nd assms(5,6) by auto
  obtain p2 where p2: "URLVars_changeToNextParser (p\<lparr>m_urlVarParser := sq\<rparr>) = Inr (True, p2)"
    "var_values p2 = var_values p @ [(n, url_decode e)]" "p_writeStatus p2 = p_writeStatus p"
    using value_next [OF a(1,2,3) assms(2,3) sq(5,3,2)] by blast
  have "pp_write (url_vars_ops u) ?p1 [] = Inr (Some 0, p\<lparr>m_urlVarParser := sq\<rparr>)"
    using sq(1,6) by (simp add: url_vars_ops_def)
  then have "Parser_write (url_vars_ops u) ?p1 [] = Inr (Some 0, p2)"
    using p2(1) sq(4) by (simp add: Parser_write_def parseData.simps [of _ _ ?p1])
  then show ?thesis using w1 sp(4) p2 by (intro exI [of _ ?p1] exI [of _ p2]) simp
qed

section \<open>Query strings\<close>

definition var_text :: "bytes \<times> bytes \<Rightarrow> bytes" where
  "var_text = (\<lambda>(n, v). url_encode n @ ''='' @ url_encode v)"

fun query_text :: "(bytes \<times> bytes) list \<Rightarrow> bytes" where
  "query_text [] = []"
| "query_text [x] = var_text x"
| "query_text (x # xs) = var_text x @ ''&'' @ query_text xs"

definition var_ok :: "bytes \<times> bytes \<Rightarrow> bool" where
  "var_ok x \<longleftrightarrow> fst x \<noteq> [] \<and> snd x \<noteq> [] \<and> length (url_encode (fst x)) < 1024"

lemma url_encode_plain: "CHR ''='' \<notin> set (url_encode s)" "CHR ''&'' \<notin> set (url_encode s)" "s \<noteq> [] \<Longrightarrow> url_encode s \<noteq> []"
proof -
  show "CHR ''='' \<notin> set (url_encode s)" "CHR ''&'' \<notin> set (url_encode s)" 
    using url_encode_alphabet [of "CHR ''=''" s] url_encode_alphabet [of "CHR ''&''" s] by (auto simp: cctype_defs)
  show "s \<noteq> [] \<Longrightarrow> url_encode s \<noteq> []" using url_decode_encode [of s] by (metis url_decode_def url_run.simps(1) append_Nil prod.case)
qed

lemma name_step:
  assumes "at_name p" "CHR ''='' \<notin> set e" "e \<noteq> []" "length e < 1024" "rest \<noteq> []" "length (e @ CHR ''='' # rest) \<le> 262144" "ttl \<le> maxTTL"
  shows "\<exists>p2. parseData (url_vars_ops u) maxTTL p (e @ CHR ''='' # rest) ttl =
      after_bytes (length e + 1) (parseData (url_vars_ops u) maxTTL p2 rest (ttl + 1)) \<and>
    at_value p2 (url_decode e) \<and> m_vars p2 = m_vars p \<and> m_maxTTL p2 = m_maxTTL p \<and> p_writeStatus p2 = p_writeStatus p"
proof -
  let ?P = "url_vars_ops u"
  obtain p1 p2 where p: "pp_write ?P p (e @ CHR ''='' # rest) = Inr (Some (length e + 1), p1)" "m_parseStatus (m_urlVarParser p1) = GOTO_NEXT_SUBPARSER"
    "URLVars_changeToNextParser p1 = Inr (True, p2)" "at_value p2 (url_decode e)" "m_vars p2 = m_vars p" "m_maxTTL p2 = m_maxTTL p" "p_writeStatus p2 = p_writeStatus p"
    using at_name_write [OF assms(1-4,6), of u] by auto
  have "length e + 1 < length (e @ CHR ''='' # rest)" using assms(5) by simp
  then have "parseData ?P maxTTL p (e @ CHR ''='' # rest) ttl =
      after_bytes (length e + 1) (parseData ?P maxTTL p2 (drop (length e + 1) (e @ CHR ''='' # rest)) (ttl + 1))"
    using parseData_next_stage(3) [of ttl maxTTL ?P p "e @ CHR ''='' # rest" "length e + 1" p1 p2] assms(7) p by simp
  then show ?thesis using p by (intro exI [of _ p2]) simp
qed

lemma last_value_step:
  assumes "at_value p n" "n \<noteq> []" "length (m_vars p) < 512" "CHR ''&'' \<notin> set e" "e \<noteq> []" "length e \<le> 262144" "ttl \<le> maxTTL"
  shows "\<exists>p1 p2. parseData (url_vars_ops u) maxTTL p e ttl = Inr (Some (length e), p1) \<and> p_writeStatus p1 = p_writeStatus p \<and>
    Parser_write (url_vars_ops u) p1 [] = Inr (Some 0, p2) \<and> var_values p2 = var_values p @ [(n, url_decode e)] \<and> p_writeStatus p2 = p_writeStatus p"
proof -
  obtain p1 p2 where p: "pp_write (url_vars_ops u) p e = Inr (Some (length e), p1)" "m_parseStatus (m_urlVarParser p1) = GET_MORE_DATA"
    "Parser_write (url_vars_ops u) p1 [] = Inr (Some 0, p2)" "var_values p2 = var_values p @ [(n, url_decode e)]"
    "p_writeStatus p1 = p_writeStatus p" "p_writeStatus p2 = p_writeStatus p"
    using at_value_last [OF assms(1-6), of u] by auto
  then show ?thesis using assms(7) by (intro exI [of _ p1] exI [of _ p2]) (simp add: parseData.simps [of _ _ p])
qed

lemma query_parsed:
  assumes "at_name p" "ps \<noteq> []" "list_all var_ok ps" "length (m_vars p) + length ps \<le> 512" "length (query_text ps) \<le> 262144"
    "ttl + 2 * length ps \<le> maxTTL"
  shows "\<exists>p1 p2. parseData (url_vars_ops u) maxTTL p (query_text ps) ttl = Inr (Some (length (query_text ps)), p1) \<and>
    p_writeStatus p1 = p_writeStatus p \<and> Parser_write (url_vars_ops u) p1 [] = Inr (Some 0, p2) \<and>
    var_values p2 = var_values p @ ps \<and> p_writeStatus p2 = p_writeStatus p"
  using assms
proof (induction ps arbitrary: p ttl)
  case (Cons x xs)
  let ?P = "url_vars_ops u" and ?n = "url_encode (fst x)" and ?v = "url_encode (snd x)"
  have x: "fst x \<noteq> []" "snd x \<noteq> []" "length ?n < 1024" using Cons.prems(3) by (auto simp: var_ok_def)
  note pv = url_encode_plain(3) [OF x(2)]
  have lv: "length (m_vars p) < 512" "ttl \<le> maxTTL" "ttl + 1 \<le> maxTTL" using Cons.prems(4,6) by auto
  show ?case
  proof (cases xs)
    case Nil
    then have q: "query_text (x # xs) = ?n @ CHR ''='' # ?v" by (simp add: var_text_def case_prod_beta)
    obtain q1 where q1: "parseData ?P maxTTL p (?n @ CHR ''='' # ?v) ttl = after_bytes (length ?n + 1) (parseData ?P maxTTL q1 ?v (ttl + 1))"
      "at_value q1 (fst x)" "m_vars q1 = m_vars p" "p_writeStatus q1 = p_writeStatus p"
      using name_step [OF Cons.prems(1) url_encode_plain(1) url_encode_plain(3) [OF x(1)] x(3) pv _ lv(2), of u] Cons.prems(5) q
      by (auto simp: url_decode_encode)
    have "length (m_vars q1) < 512" "length ?v \<le> 262144" using q1(3) lv(1) Cons.prems(5) q by auto
    from last_value_step [OF q1(2) x(1) this(1) url_encode_plain(2) pv this(2) lv(3), of u]
    obtain p1 p2 where p: "parseData ?P maxTTL q1 ?v (ttl + 1) = Inr (Some (length ?v), p1)"
      "Parser_write ?P p1 [] = Inr (Some 0, p2)" "var_values p2 = var_values q1 @ [(fst x, snd x)]" "p_writeStatus p1 = p_writeStatus q1" "p_writeStatus p2 = p_writeStatus q1"
      by (auto simp: url_decode_encode)
    moreover have "var_values q1 = var_values p" by (simp add: var_values_def q1(3))
    moreover have "add64 (length ?v) (length ?n + 1) = length (query_text (x # xs))" using Cons.prems(5) q by (simp add: add64_small)
    ultimately show ?thesis using q1 p q Nil by auto
  next
    case (Cons y ys)
    let ?rest = "query_text xs"
    have q: "query_text (x # xs) = ?n @ CHR ''='' # ?v @ CHR ''&'' # ?rest" using Cons by (simp add: var_text_def case_prod_beta)
    have ne: "?rest \<noteq> []" using Cons by (cases ys) (simp_all add: var_text_def case_prod_beta)
    obtain q1 where q1: "parseData ?P maxTTL p (?n @ CHR ''='' # ?v @ CHR ''&'' # ?rest) ttl =
        after_bytes (length ?n + 1) (parseData ?P maxTTL q1 (?v @ CHR ''&'' # ?rest) (ttl + 1))"
      "at_value q1 (fst x)" "m_vars q1 = m_vars p" "p_writeStatus q1 = p_writeStatus p"
      using name_step [OF Cons.prems(1) url_encode_plain(1) url_encode_plain(3) [OF x(1)] x(3) _ _ lv(2), of "?v @ CHR ''&'' # ?rest" u] Cons.prems(5) q
      by (auto simp: url_decode_encode)
    have "length (m_vars q1) < 512" "length (?v @ CHR ''&'' # ?rest) \<le> 262144" using q1(3) lv(1) Cons.prems(5) q by auto
    from at_value_write [OF q1(2) x(1) this(1) url_encode_plain(2) pv this(2), of u]
    obtain r1 r2 where r: "pp_write ?P q1 (?v @ CHR ''&'' # ?rest) = Inr (Some (length ?v + 1), r1)" "m_parseStatus (m_urlVarParser r1) = GOTO_NEXT_SUBPARSER"
      "URLVars_changeToNextParser r1 = Inr (True, r2)" "at_name r2" "var_values r2 = var_values q1 @ [(fst x, snd x)]" "p_writeStatus r2 = p_writeStatus q1"
      by (auto simp: url_decode_encode)
    have step: "parseData ?P maxTTL q1 (?v @ CHR ''&'' # ?rest) (ttl + 1) = after_bytes (length ?v + 1) (parseData ?P maxTTL r2 ?rest (ttl + 2))"
      using parseData_next_stage(3) [of "ttl + 1" maxTTL ?P q1 "?v @ CHR ''&'' # ?rest" "length ?v + 1" r1 r2] lv(3) r ne by simp
    have vv: "var_values r2 = var_values p @ [x]" using r(5) q1(3) by (simp add: var_values_def)
    have lr: "length (m_vars r2) = length (m_vars p) + 1" using arg_cong [OF vv, of length] by (simp add: var_values_def)
    have "\<exists>p1 p2. parseData ?P maxTTL r2 ?rest (ttl + 2) = Inr (Some (length ?rest), p1) \<and>
      p_writeStatus p1 = p_writeStatus r2 \<and> Parser_write ?P p1 [] = Inr (Some 0, p2) \<and> var_values p2 = var_values r2 @ xs \<and> p_writeStatus p2 = p_writeStatus r2"
      using Cons.prems lr q \<open>xs = y # ys\<close> by (intro Cons.IH r(4)) auto
    moreover have "add64 (add64 (length ?rest) (length ?v + 1)) (length ?n + 1) = length (query_text (x # xs))"
      using Cons.prems(5) q by (simp add: add64_small)
    ultimately show ?thesis using q1 step q r(6) vv by auto
  qed
qed simp

context sink
begin

lemma encode_to_total:
  assumes "chunks_ok b" "chunks_content b \<noteq> []" "ready out n" "length (url_encode (chunks_content b)) \<le> n" "length (chunks_content b) \<le> size_max div 3 - 3"
  shows "\<exists>out'. encode_to S b out = Some (Inr (True, out')) \<and> content out' = content out @ url_encode (chunks_content b) \<and>
    ready out' (n - length (url_encode (chunks_content b)))"
proof -
  let ?T = "transformer_ops (url_encoder S) S"
  let ?cks = "slice_chunks (m_chunksVector b) 0 (length (chunks_content b))"
  have cc: "concat ?cks = chunks_content b"
    using slice_chunks_concat [of 0 "length (chunks_content b)" "m_chunksVector b"] by (simp add: chunks_content_def)
  have in_ok: "\<forall>x r x'. copyToStreamableObjectUsingCleanVector ?T x ?cks 0 = Some (Inr (r, x')) \<longrightarrow>
      (\<exists>y. B_streamTo (B_Chunks_copyToStreamableObject2 no_mmap no_mmap_copy ?T) CO ?T b x = Some (Inr (y, x')))"
    by (intro allI impI) (rule chunks_stream_blocks [OF chunks_ok_wf [OF assms(1)] _ assms(2)])
  obtain out' where out': "transform (url_encoder S) S (B_streamTo (B_Chunks_copyToStreamableObject2 no_mmap no_mmap_copy ?T) CO ?T b) () out =
      Some (Inr ((), out'))" "content out' = content out @ url_encode (chunks_content b)" "ready out' (n - length (url_encode (chunks_content b)))"
    using encoder_transform [where cks = ?cks and streamIn = "B_streamTo (B_Chunks_copyToStreamableObject2 no_mmap no_mmap_copy ?T) CO ?T b",
        OF assms(3) _ _ in_ok] assms(4,5) cc by auto
  then show ?thesis using ready_succeed [OF out'(3)] by (simp add: encode_to_def)
qed

lemma stream_var_total:
  assumes "name \<noteq> []" "chunks_ok val" "chunks_content val \<noteq> []" "ready out n" "x = (name, chunks_content val)"
    "length (var_text x) \<le> n" "length (var_text x) \<le> 262144"
  shows "\<exists>out'. stream_var S (name, val) out = Some (Inr (True, out')) \<and> content out' = content out @ var_text x \<and>
    ready out' (n - length (var_text x))"
proof -
  have t: "var_text x = url_encode name @ ''='' @ url_encode (chunks_content val)" by (simp add: var_text_def assms(5))
  have enc: "length s \<le> length (url_encode s)" for s by (induction s) (auto simp: url_encode_def encodedByte_def)
  have ln: "length name \<le> 262144" "length (chunks_content val) \<le> 262144"
    using assms(7) enc [of name] enc [of "chunks_content val"] by (auto simp: t)
  obtain b where b: "snd (B_append CO B_Chunks_new name) = b" "chunks_content b = name" "chunks_ok b"
  proof -
    have "has_room (B_Chunks_new :: sp_buf) (length name)" "chunks_ok (B_Chunks_new :: sp_buf)" "chunks_content (B_Chunks_new :: sp_buf) = []"
      using new_ready [OF ln(1)] by (auto simp: chunks_ready_def chunks_content_def B_Chunks_new_def)
    with B_append_room [of "B_Chunks_new :: sp_buf" name no_mmap] assms(1) chunks_ok_wf that show thesis by fastforce
  qed
  have bound: "262144 \<le> size_max div 3 - 3" by (simp add: size_max_def)
  let ?n = "length (url_encode name)"
  obtain o1 where o1: "encode_to S b out = Some (Inr (True, o1))" "content o1 = content out @ url_encode name" "ready o1 (n - ?n)"
    using encode_to_total [of b out n] b assms(1,4,6) ln bound by (auto simp: t)
  have le1: "length ''='' \<le> n - ?n" using assms(6) unfolding t by simp
  obtain o2 where o2: "write_checked S ''='' o1 = Some (Inr (True, o2))" "content o2 = content o1 @ ''=''" "ready o2 (n - ?n - 1)"
    using write_checked_total [OF o1(3), of "''=''"] le1 by auto
  have le2: "length (url_encode (chunks_content val)) \<le> n - ?n - 1" using assms(6) unfolding t by simp
  obtain o3 where o3: "encode_to S val o2 = Some (Inr (True, o3))" "content o3 = content o2 @ url_encode (chunks_content val)"
    "ready o3 (n - ?n - 1 - length (url_encode (chunks_content val)))"
    using encode_to_total [OF assms(2,3) o2(3) le2 le_trans [OF ln(2) bound]] by blast
  have "B_Chunks_size no_mmap val \<noteq> 0" using chunks_size [OF chunks_ok_wf [OF assms(2)], of no_mmap] assms(3) by simp
  then show ?thesis using o1 o2 o3 b(1) by (simp add: stream_var_def andThen_def t diff_diff_add add.assoc)
qed

lemma stream_vars_total:
  assumes "list_all (\<lambda>(n, b). n \<noteq> [] \<and> chunks_ok b \<and> chunks_content b \<noteq> []) vs" "ready out n" "vs \<noteq> []"
    "xs = map (\<lambda>(n, b). (n, chunks_content b)) vs" "length (query_text xs) + (if first then 0 else 1) \<le> n" "length (query_text xs) \<le> 262144"
  shows "\<exists>out'. stream_vars S first vs out = Some (Inr (True, out')) \<and>
    content out' = content out @ (if first then [] else ''&'') @ query_text xs"
  using assms
proof (induction vs arbitrary: out n first xs)
  case (Cons v vs)
  obtain name val where v: "v = (name, val)" by fastforce
  let ?x = "(name, chunks_content val)" and ?k = "if first then 0 else 1 :: nat"
  have pv: "name \<noteq> []" "chunks_ok val" "chunks_content val \<noteq> []" using Cons.prems(1) by (auto simp: v)
  have xs: "xs = ?x # map (\<lambda>(n, b). (n, chunks_content b)) vs" using Cons.prems(4) by (simp add: v)
  have lx: "length (var_text ?x) \<le> length (query_text xs)" by (cases vs) (auto simp: xs)
  obtain o1 where o1: "(if first then Some (Inr (True, out)) else write_checked S ''&'' out) = Some (Inr (True, o1))"
    "content o1 = content out @ (if first then [] else ''&'')" "ready o1 (n - ?k)"
    using write_checked_total [OF Cons.prems(2), of "''&''"] Cons.prems(2,5) by (cases first) auto
  have le1: "length (var_text ?x) \<le> n - ?k" using Cons.prems(5) lx by linarith
  obtain o2 where o2: "stream_var S v o1 = Some (Inr (True, o2))" "content o2 = content o1 @ var_text ?x" "ready o2 (n - ?k - length (var_text ?x))"
    using stream_var_total [OF pv o1(3) refl le1 order_trans [OF lx Cons.prems(6)]] unfolding v by blast
  show ?case
  proof (cases vs)
    case Nil
    then show ?thesis using o1 o2 xs by (simp add: andThen_def)
  next
    case (Cons w ws)
    let ?ys = "map (\<lambda>(n, b). (n, chunks_content b)) vs"
    have q: "query_text xs = var_text ?x @ ''&'' @ query_text ?ys" using Cons by (simp add: xs case_prod_beta)
    have "\<exists>out'. stream_vars S False vs o2 = Some (Inr (True, out')) \<and> content out' = content o2 @ (if False then [] else ''&'') @ query_text ?ys"
      using Cons.prems Cons q by (intro Cons.IH [OF _ o2(3)]) auto
    then show ?thesis using o1 o2 q by (auto simp: andThen_def)
  qed
qed simp

end

lemma fresh_at_name: "at_name URLVars_create" "var_values URLVars_create = []" "m_vars URLVars_create = []" "p_writeStatus URLVars_create = ws_init"
  "m_maxTTL URLVars_create = 4096"
  by (simp_all add: at_name_def uv_limits_def URLVars_create_def parser_base.defs uv_stage_def uv_setMaxObjectSize_def setVarType_def
      setParseMultiDelimiter_def setParseDataTargetSize_def URLVarContent_new_def setParseStrategy_def subparser.defs SubParser_new_def B_setMaxSize_def
      sp_ok_def sp_text_def has_room_def chunks_ok_def chunks_wf_def chunks_content_def B_Chunks_new_def var_values_def parser_base_init_def)

text \<open>A text written to a new parser, with the end of the stream.\<close>

lemma text_received:
  assumes "parseData (url_vars_ops u) 4096 URLVars_create t 0 = Inr (Some (length t), p1)" "p_writeStatus p1 = ws_init"
    "Parser_write (url_vars_ops u) p1 [] = Inr (Some 0, p2)" "t \<noteq> []" "length t \<le> 262144"
  shows "writeFullStreamWithEOF (url_vars_stream u) URLVars_create t = Some (Inr (True, p2))"
proof -
  let ?S = "url_vars_stream u"
  have "so_write ?S URLVars_create t = Some (Inr (Some (length t), p1))"
    using assms(1,4) by (simp add: url_vars_stream_def Parser_write_def fresh_at_name)
  then have "writeFullLoop ?S URLVars_create t 0 = writeFullLoop ?S p1 t (add64 0 (length t))"
    using assms(2,4) by (intro writeFullLoop_step) (simp_all add: url_vars_stream_def ws_init_def)
  then have "writeFullStream ?S URLVars_create t = Some (Inr (True, p1))"
    using assms(5) by (simp add: writeFullStream_def add64_small writeFullLoop_done)
  moreover have "writeEOF ?S p1 = Some (Inr (True, p2))" using assms(3) by (simp add: writeEOF_def url_vars_stream_def)
  ultimately show ?thesis by (simp add: writeFullStreamWithEOF_def)
qed

lemma query_received:
  assumes "ps \<noteq> []" "list_all var_ok ps" "length ps \<le> 512" "length (query_text ps) \<le> 262144"
  shows "\<exists>p. writeFullStreamWithEOF (url_vars_stream u) URLVars_create (query_text ps) = Some (Inr (True, p)) \<and> var_values p = ps"
proof -
  let ?t = "query_text ps"
  obtain p1 p2 where p: "parseData (url_vars_ops u) 4096 URLVars_create ?t 0 = Inr (Some (length ?t), p1)" "p_writeStatus p1 = ws_init"
    "Parser_write (url_vars_ops u) p1 [] = Inr (Some 0, p2)" "var_values p2 = ps"
    using query_parsed [OF fresh_at_name(1) assms(1,2), where u = u and ttl = 0 and maxTTL = 4096] assms(3,4) by (auto simp: fresh_at_name)
  have "?t \<noteq> []" using assms(1) by (cases ps rule: query_text.cases) (auto simp: var_text_def)
  from text_received [OF p(1,2,3) this assms(4)] show ?thesis using p(4) by blast
qed

text \<open>C20: variables with names and values that are not empty survive being written as a query string and
  parsed again, whatever bytes they hold, with their order and duplicates; the limits are those of
  the parser (names of less than 1024 encoded bytes, at most 512 variables, a text within one
  container).\<close>

theorem url_vars_roundtrip:
  assumes "m_vars p \<noteq> []" "list_all (\<lambda>(n, b). chunks_ok b) (m_vars p)" "list_all var_ok (var_values p)" "length (m_vars p) \<le> 512"
    "length (query_text (var_values p)) \<le> 262144"
  shows "\<exists>out p'. URLVars_streamTo string_ops p (string_init []) = Some (Inr (True, out)) \<and> ss_value out = query_text (var_values p) \<and>
    writeFullStreamWithEOF (url_vars_stream u) URLVars_create (ss_value out) = Some (Inr (True, p')) \<and> var_values p' = var_values p"
proof -
  have v: "list_all (\<lambda>(n, b). n \<noteq> [] \<and> chunks_ok b \<and> chunks_content b \<noteq> []) (m_vars p)"
    using assms(2,3) by (fastforce simp: list_all_iff var_values_def var_ok_def)
  have "string_ready (string_init []) 262144" by (simp add: string_ready_def string_init_def ws_init_def)
  from str.stream_vars_total [OF v this assms(1) refl, of True] assms(5)
  obtain out where "URLVars_streamTo string_ops p (string_init []) = Some (Inr (True, out))" "ss_value out = query_text (var_values p)"
    by (auto simp: URLVars_streamTo_def var_values_def string_init_def)
  moreover have "var_values p \<noteq> []" "length (var_values p) \<le> 512" using assms(1,4) by (simp_all add: var_values_def)
  ultimately show ?thesis using query_received [of "var_values p" u] assms(3,5) by auto
qed

section \<open>Texts that are misread\<close>

text \<open>An empty element is no element: the parser stays where it is.\<close>

lemma uv_empty_element:
  assumes st: "uv_stage sp [[c]] N" and t: "sp_text sp = []" and c: "1 \<le> N" "length rest < 262144" "\<not> m_streamEnded sp" "length rest + 1 \<le> N"
  shows "\<exists>sp'. writeIntoSubParser URLVarContent_parse u sp (c # rest) = Inr (Some 1, sp') \<and>
    m_parseStatus sp' = GET_MORE_DATA \<and> sp_text sp' = [] \<and> \<not> m_streamEnded sp' \<and> uv_stage sp' [[c]] N"
proof -
  let ?P = URLVarContent_parse and ?d = "c # rest"
  have s: "sp_ok sp" "m_parseMode sp = MULTIDELIMITER" "m_parseMultiDelimiter sp = [[c]]" "m_maxSize (m_unparsedBuffer sp) = N"
    "m_maxChunks (m_unparsedBuffer sp) = 262144" "m_pData sp = B_Chunks_new" "uv_thrown sp = None" using st by (auto simp: uv_stage_def)
  have room: "has_room (m_unparsedBuffer sp) (length ?d)" using s(1,4,5) t c by (auto simp: sp_ok_def has_room_def sp_text_def)
  have f: "find_listed [[c]] ?d = Some (0, [c])" by simp
  have del: "\<forall>\<delta> \<in> set [[c]]. \<delta> \<noteq> [] \<and> length \<delta> + length ([] :: bytes) + length ?d < two64" using c(2) by auto
  obtain b where b: "chunks_ok b" "chunks_content b = ?d" "same_limits (m_unparsedBuffer sp) b"
    and w: "parseByMultiDelimiter ?P sp ?d = (let sp3 = clear_unparsed (run_parse ?P (ref_unparsed
        (sp\<lparr>m_unparsedBuffer := b, m_delimiterFound := [c]\<rparr>) 0 0)) in
      (Some (sub64 (add64 0 (length (m_delimiterFound sp3))) 0), sp3))"
    using multi_step [OF s(1) room, of ?P, unfolded s(3) t append_Nil f option.case prod.case, OF del] by auto
  let ?s1 = "sp\<lparr>m_unparsedBuffer := b, m_delimiterFound := [c]\<rparr>"
  let ?r = "ref_unparsed ?s1 0 0"
  have pd: "?r\<lparr>m_pData := snd (B_clear CO (m_pData ?s1))\<rparr> = ?r" using s(6) by (simp add: clear_new ref_unparsed_def)
  have "B_Ref_size CO (getParsedBuffer ?r) = 0"
    using ra.ref_size [of "getParsedBuffer ?r" no_mmap] b(1)
    by (simp add: getParsedBuffer_def ref_unparsed_def B_Ref_reference_def ref_ok_def ref_content_def)
  then have P: "?P ?r = (GET_MORE_DATA, ?r)" using pd by (simp add: URLVarContent_parse_def Let_def)
  let ?s2 = "run_parse ?P ?r"
  have s2: "?s2 = ?r\<lparr>m_parseStatus := GET_MORE_DATA\<rparr>" by (simp add: run_parse_def setParseResult_def P)
  have "uv_stage (clear_unparsed ?s2) [[c]] N" "sp_text (clear_unparsed ?s2) = []"
    using uv_stage_cleared [OF st b(1,3), of ?s2] s by (simp_all add: s2)
  moreover have "sub64 (add64 0 (Suc 0)) 0 = 1" by (simp add: add64_def sub64_def)
  then have "writeIntoSubParser ?P u sp ?d = Inr (Some 1, clear_unparsed ?s2)"
    using w s(2) by (simp add: writeIntoSubParser_def Let_def s2)
  moreover have "m_parseStatus (clear_unparsed ?s2) = GET_MORE_DATA" "\<not> m_streamEnded (clear_unparsed ?s2)"
    using c(3) by (simp_all add: s2)
  ultimately show ?thesis by blast
qed

lemma empty_value_step:
  assumes "at_value p n" "rest \<noteq> []" "length rest < 262144" "ttl \<le> maxTTL"
  shows "\<exists>p1. parseData (url_vars_ops u) maxTTL p (CHR ''&'' # rest) ttl = after_bytes 1 (parseData (url_vars_ops u) maxTTL p1 rest (ttl + 1)) \<and>
    at_value p1 n \<and> m_vars p1 = m_vars p \<and> p_writeStatus p1 = p_writeStatus p"
proof -
  let ?sp = "setParseResult (m_urlVarParser p) GET_MORE_DATA"
  have a: "uv_stage ?sp [''&''] 16777216" "sp_text ?sp = []" "\<not> m_streamEnded ?sp" using assms(1) by (auto simp: at_value_def uv_limits_def)
  obtain sp where sp: "writeIntoSubParser URLVarContent_parse u ?sp (CHR ''&'' # rest) = Inr (Some 1, sp)" "m_parseStatus sp = GET_MORE_DATA"
    "sp_text sp = []" "\<not> m_streamEnded sp" "uv_stage sp [''&''] 16777216"
    using uv_empty_element [OF a(1,2) _ assms(3) a(3), of u] assms(3) by auto
  let ?p1 = "p\<lparr>m_urlVarParser := sp\<rparr>"
  have "pp_write (url_vars_ops u) p (CHR ''&'' # rest) = Inr (Some 1, ?p1)"
    using sp(1,5) by (simp add: url_vars_ops_def uv_stage_def)
  from parseData_more_data [OF assms(4) _ this] sp(2) assms(2)
  have "parseData (url_vars_ops u) maxTTL p (CHR ''&'' # rest) ttl = after_bytes 1 (parseData (url_vars_ops u) maxTTL ?p1 rest (ttl + 1))" by simp
  moreover have "at_value ?p1 n" using assms(1) sp by (simp add: at_value_def uv_limits_def)
  ultimately show ?thesis by (intro exI [of _ ?p1]) simp
qed

lemma pair_received:
  assumes "e \<noteq> []" "url_decode e \<noteq> []" "CHR ''='' \<notin> set e" "length e < 1024" "f \<noteq> []" "CHR ''&'' \<notin> set f" "length f < 261000" "z = [] \<or> z = ''&''"
  shows "\<exists>p. writeFullStreamWithEOF (url_vars_stream u) URLVars_create (e @ ''='' @ z @ f) = Some (Inr (True, p)) \<and>
      var_values p = [(url_decode e, url_decode f)]"
proof -
  let ?P = "url_vars_ops u" and ?c = URLVars_create
  have len: "length (e @ CHR ''='' # z @ f) \<le> 262144" using assms(4,7,8) by auto
  obtain q1 where q1: "parseData ?P 4096 ?c (e @ CHR ''='' # z @ f) 0 = after_bytes (length e + 1) (parseData ?P 4096 q1 (z @ f) 1)"
    "at_value q1 (url_decode e)" "m_vars q1 = []" "p_writeStatus q1 = ws_init"
    using name_step [OF fresh_at_name(1) assms(3,1,4) _ len, of 0 4096 u] assms(5) by (auto simp: fresh_at_name)
  have rest: "\<exists>p1 p2. parseData ?P 4096 q f k = Inr (Some (length f), p1) \<and> p_writeStatus p1 = ws_init \<and>
      Parser_write ?P p1 [] = Inr (Some 0, p2) \<and> var_values p2 = [(url_decode e, url_decode f)]"
    if "at_value q (url_decode e)" "m_vars q = []" "p_writeStatus q = ws_init" "k \<le> 4096" for q k
    using last_value_step [OF that(1) assms(2) _ assms(6,5) _ that(4), of u] assms(7) that by (auto simp: var_values_def)
  have "\<exists>p1 p2. parseData ?P 4096 q1 (z @ f) 1 = Inr (Some (length (z @ f)), p1) \<and> p_writeStatus p1 = ws_init \<and>
      Parser_write ?P p1 [] = Inr (Some 0, p2) \<and> var_values p2 = [(url_decode e, url_decode f)]"
  proof (cases "z = []")
    case True
    then show ?thesis using rest [OF q1(2,3,4), of 1] by simp
  next
    case False
    then have z: "z = ''&''" using assms(8) by simp
    obtain q2 where q2: "parseData ?P 4096 q1 (CHR ''&'' # f) 1 = after_bytes 1 (parseData ?P 4096 q2 f 2)"
      "at_value q2 (url_decode e)" "m_vars q2 = []" "p_writeStatus q2 = ws_init"
      using empty_value_step [OF q1(2) assms(5), of 1 4096 u] assms(7) q1 by (auto simp: numeral_2_eq_2)
    moreover have "add64 (length f) 1 = length (z @ f)" using len z by (simp add: add64_small)
    ultimately show ?thesis using rest [OF q2(2,3,4), of 2] z by auto
  qed
  then obtain p1 p2 where p: "parseData ?P 4096 q1 (z @ f) 1 = Inr (Some (length (z @ f)), p1)" "p_writeStatus p1 = ws_init"
    "Parser_write ?P p1 [] = Inr (Some 0, p2)" "var_values p2 = [(url_decode e, url_decode f)]" by blast
  have "add64 (length (z @ f)) (length e + 1) = length (e @ ''='' @ z @ f)" using len by (simp add: add64_small)
  then have "writeFullStreamWithEOF (url_vars_stream u) ?c (e @ ''='' @ z @ f) = Some (Inr (True, p2))"
    using text_received [of u "e @ ''='' @ z @ f" p1 p2] q1(1) p len by simp
  then show ?thesis using p(4) by blast
qed

text \<open>C40: two kinds of query strings are not read as they are meant. A variable with an empty value takes the
  text of the variable after it as its value, and a name without a value is joined with the name
  after it: \<open>a=&b=1\<close> gives \<open>a\<close> the value \<open>b=1\<close>, and \<open>a&b=1\<close> is one variable of the name
  \<open>a&b\<close>.\<close>

theorem query_strings_misread:
  assumes "e \<noteq> []" "url_decode e \<noteq> []" "CHR ''='' \<notin> set e" "CHR ''='' \<notin> set a" "length (a @ e) < 1023" "url_decode (a @ ''&'' @ e) \<noteq> []"
    "f \<noteq> []" "CHR ''&'' \<notin> set f" "length f < 261000"
  shows "(\<exists>p. writeFullStreamWithEOF (url_vars_stream u) URLVars_create (e @ ''=&'' @ f) = Some (Inr (True, p)) \<and>
      var_values p = [(url_decode e, url_decode f)]) \<and>
    (\<exists>p. writeFullStreamWithEOF (url_vars_stream u) URLVars_create (a @ ''&'' @ e @ ''='' @ f) = Some (Inr (True, p)) \<and>
      var_values p = [(url_decode (a @ ''&'' @ e), url_decode f)])"
  using pair_received [OF assms(1-3) _ assms(7-9), of "''&''" u] pair_received [of "a @ ''&'' @ e" f "[]" u] assms by simp

theorem query_strings_misread_witness:
  "(\<exists>p. writeFullStreamWithEOF (url_vars_stream (\<lambda>_. [])) URLVars_create ''b=&c=1'' = Some (Inr (True, p)) \<and> var_values p = [(''b'', ''c=1'')]) \<and>
   (\<exists>p. writeFullStreamWithEOF (url_vars_stream (\<lambda>_. [])) URLVars_create ''a&b=c=1'' = Some (Inr (True, p)) \<and> var_values p = [(''a&b'', ''c=1'')])"
proof -
  have "url_decode ''b'' = ''b''" "url_decode ''c=1'' = ''c=1''" "url_decode ''a&b'' = ''a&b''" by code_simp+
  then show ?thesis using query_strings_misread [of "''b''" "''a''" "''c=1''" "\<lambda>_. []"] by simp
qed

text \<open>The variables of the witness of the round trip.\<close>

definition demo_vars :: url_vars where
  "demo_vars = snd (addVar ''k&'' (snd (B_append CO B_Chunks_new ''=2'')) (snd (addVar ''k'' (snd (B_append CO B_Chunks_new ''1'')) URLVars_create)))"

theorem url_vars_roundtrip_witness:
  "\<exists>out p'. URLVars_streamTo string_ops demo_vars (string_init []) = Some (Inr (True, out)) \<and>
    writeFullStreamWithEOF (url_vars_stream (\<lambda>_. [])) URLVars_create (ss_value out) = Some (Inr (True, p')) \<and>
    var_values p' = [(''k'', ''1''), (''k&'', ''=2'')]"
proof -
  have room: "has_room (B_Chunks_new :: sp_buf) n" "chunks_ok (B_Chunks_new :: sp_buf)" "chunks_content (B_Chunks_new :: sp_buf) = []" if "n \<le> 262144" for n
    using new_ready [OF that] by (auto simp: chunks_ready_def chunks_content_def B_Chunks_new_def)
  have b: "chunks_content (snd (B_append CO B_Chunks_new d)) = d \<and> chunks_ok (snd (B_append CO (B_Chunks_new :: sp_buf) d))"
    if "d \<noteq> []" "length d \<le> 262144" for d
    using B_append_room [of "B_Chunks_new :: sp_buf" d no_mmap] room [OF that(2)] that chunks_ok_wf by fastforce
  have v: "m_vars demo_vars = [(''k'', snd (B_append CO B_Chunks_new ''1'')), (''k&'', snd (B_append CO B_Chunks_new ''=2''))]"
    by (simp add: demo_vars_def addVar_def URLVars_create_def parser_base.defs)
  have vals: "var_values demo_vars = [(''k'', ''1''), (''k&'', ''=2'')]" using b [of "''1''"] b [of "''=2''"] by (simp add: var_values_def v)
  have "url_encode ''k'' = ''k''" "url_encode ''k&'' = ''k%26''" "url_encode ''1'' = ''1''" "url_encode ''=2'' = ''%3D2''" by code_simp+
  then show ?thesis
    using url_vars_roundtrip [of demo_vars "\<lambda>_. []"] b [of "''1''"] b [of "''=2''"] by (simp add: v vals var_ok_def var_text_def) blast
qed

end
