(* ===== verification/Http_Request.thy ===== *)
theory Http_Request
  imports Http_Headers Url_Vars
begin

text \<open>
  The first lines of HTTP messages: \<open>Protocol_HTTP/common_version.{h,cpp}\<close>, the request line
  \<open>req_requestline.{h,cpp}\<close> with its URI and query variables, and the status line
  \<open>rsp_status.{h,cpp}\<close>. What the decoding of the URI or of the variables throws is kept in
  \<open>rl_thrown\<close>. The conversions to and from JSON are left out.
\<close>

section \<open>Versions\<close>

record http_version =
  m_minorVersion :: "16 word"
  m_majorVersion :: "16 word"

definition Version_new :: http_version where
  "Version_new = \<lparr>m_minorVersion = 1, m_majorVersion = 1\<rparr>"

definition Version_parse :: "string \<Rightarrow> http_version" where
  "Version_parse s =
     (let versionParts = split_any (\<lambda>c. c = CHR ''/'') s in
      if length versionParts \<noteq> 2 then Version_new\<lparr>m_minorVersion := 0, m_majorVersion := 1\<rparr>
      else (let versionMinorMajor = split_any (\<lambda>c. c = CHR ''.'') (versionParts ! 1) in
            if length versionMinorMajor \<noteq> 2 then Version_new\<lparr>m_majorVersion := 1, m_minorVersion := 0\<rparr>
            else Version_new\<lparr>m_majorVersion := ucast (strtoul (c_str (versionMinorMajor ! 0))),
                             m_minorVersion := ucast (strtoul (c_str (versionMinorMajor ! 1)))\<rparr>))"

definition Version_toString :: "http_version \<Rightarrow> string" where
  "Version_toString v = ''HTTP/'' @ nat_string (unat (m_majorVersion v)) @ ''.'' @ nat_string (unat (m_minorVersion v))"

definition upgradeMinor :: "16 word \<Rightarrow> http_version \<Rightarrow> http_version" where
  "upgradeMinor w v = (if w > m_minorVersion v then v\<lparr>m_minorVersion := w\<rparr> else v)"

section \<open>The request line\<close>

record request_line = subparser +
  m_requestMethod :: string
  m_requestURI :: string
  m_requestGETVarsRawString :: string
  rl_version :: http_version
  m_getVars :: url_vars
  rl_thrown :: "parser_exn option"

definition setSecurityMaxURLSize :: "request_line \<Rightarrow> nat \<Rightarrow> request_line" where
  "setSecurityMaxURLSize r n = setParseDataTargetSize r n"

text \<open>The members of the class proper, which an assignment copies.\<close>

definition request_line_init :: "subparser \<Rightarrow> request_line" where
  "request_line_init sp = subparser.extend sp
     \<lparr>m_requestMethod = ''GET'', m_requestURI = [], m_requestGETVarsRawString = [], rl_version = Version_new,
      m_getVars = URLVars_create, rl_thrown = None\<rparr>"

definition RequestLine_new :: request_line where
  "RequestLine_new =
     (setSecurityMaxURLSize (setParseDelimiter (setParseStrategy (request_line_init SubParser_new) DELIMITER) [CR, LF]) (128 * 1024))
     \<lparr>m_subParserName := ''RequestLine''\<rparr>"

definition parseGETVars :: "(nat \<Rightarrow> bytes) \<Rightarrow> request_line \<Rightarrow> request_line" where
  "parseGETVars u r =
     (case writeFullStreamWithEOF (url_vars_stream u) (m_getVars r) (m_requestGETVarsRawString r) of
        None \<Rightarrow> r\<lparr>rl_thrown := Some Upstream_hangs\<rparr>
      | Some (Inl e) \<Rightarrow> r\<lparr>rl_thrown := Some (Upstream_exn e)\<rparr>
      | Some (Inr (_, g)) \<Rightarrow> r\<lparr>m_getVars := g\<rparr>)"

definition parseURI :: "(nat \<Rightarrow> bytes) \<Rightarrow> request_line \<Rightarrow> request_line" where
  "parseURI u r0 =
     (let r = (case find_sub ''?'' (m_requestURI r0) of
                 Some found \<Rightarrow>
                   parseGETVars u (r0\<lparr>m_requestGETVarsRawString := c_str (drop (found + 1) (m_requestURI r0)),
                                      m_requestURI := take found (m_requestURI r0)\<rparr>)
               | None \<Rightarrow> r0) in
      if rl_thrown r \<noteq> None then r
      else case decodeURLStr (m_requestURI r) of
        None \<Rightarrow> r\<lparr>rl_thrown := Some Upstream_hangs\<rparr>
      | Some (Inl e) \<Rightarrow> r\<lparr>rl_thrown := Some (Upstream_exn e)\<rparr>
      | Some (Inr uri) \<Rightarrow> r\<lparr>m_requestURI := uri\<rparr>)"

definition blank :: "char \<Rightarrow> bool" where
  "blank c \<longleftrightarrow> c = CHR 0x09 \<or> c = CHR '' ''"

definition RequestLine_parse :: "(nat \<Rightarrow> bytes) \<Rightarrow> request_line \<Rightarrow> ParseResult \<times> request_line" where
  "RequestLine_parse u r =
     (let requestParts = split_any blank (parsed_text r) in
      if length requestParts < 2 then (PR_ERROR, r)
      else (GOTO_NEXT_SUBPARSER,
        parseURI u (r\<lparr>m_requestMethod := to_upper_copy (requestParts ! 0), m_requestURI := requestParts ! 1,
          rl_version := Version_parse (if length requestParts > 2 then requestParts ! 2 else ''HTTP/1.0'')\<rparr>)))"

definition RequestLine_toString :: "request_line \<Rightarrow> string" where
  "RequestLine_toString r =
     (if m_requestGETVarsRawString r = [] then m_requestMethod r @ '' '' @ m_requestURI r @ '' '' @ Version_toString (rl_version r)
      else m_requestMethod r @ '' '' @ m_requestURI r @ ''?'' @ m_requestGETVarsRawString r @ '' '' @ Version_toString (rl_version r))"

definition RequestLine_streamToUpstream :: "'o streamable \<Rightarrow> request_line \<Rightarrow> 'o \<Rightarrow> (stream_exn + (bool \<times> 'o)) option" where
  "RequestLine_streamToUpstream S r up =
     (let put = (\<lambda>vars. write_checked S (m_requestMethod r @ '' '' @ m_requestURI r @ vars @ '' '' @ Version_toString (rl_version r) @ [CR, LF]) up) in
      if m_vars (m_getVars r) = [] then put []
      else case URLVars_streamTo string_ops (m_getVars r) (string_init []) of
        None \<Rightarrow> None
      | Some (Inl e) \<Rightarrow> Some (Inl e)
      | Some (Inr (_, out)) \<Rightarrow> put (''?'' @ ss_value out))"

section \<open>The status line\<close>

definition status_table :: "(nat \<times> string) list" where
  "status_table =
     [(100, ''Continue''), (101, ''Switching Protocol''), (200, ''OK''), (201, ''Created''), (202, ''Accepted''),
      (203, ''Non-Authoritative Information''), (204, ''No Content''), (205, ''Reset Content''), (206, ''Partial Content''),
      (300, ''Multiple Choices''), (301, ''Moved Permanently''), (302, ''Found''), (303, ''See Other''), (304, ''Not Modified''),
      (307, ''Temporary Redirect''), (308, ''Permanent Redirect''), (400, ''Bad Request''), (401, ''Unauthorized''), (403, ''Forbidden''),
      (404, ''Not Found''), (405, ''Method Not Allowed''), (406, ''Not Acceptable''), (407, ''Proxy Authentication Required''),
      (408, ''Request Timeout''), (409, ''Conflict''), (410, ''Gone''), (411, ''Length Required''), (412, ''Precondition Failed''),
      (413, ''Payload Too Large''), (414, ''URI Too Long''), (415, ''Unsupported Media Type''), (416, ''Range Not Satisfiable''),
      (417, ''Expectation Failed''), (426, ''Upgrade Required''), (428, ''Precondition Required''), (429, ''Too Many Requests''),
      (431, ''Request Header Fields Too Large''), (451, ''Unavailable For Legal Reasons''), (500, ''Internal Server Error''),
      (501, ''Not Implemented''), (502, ''Bad Gateway''), (503, ''Service Unavailable''), (504, ''Gateway Timeout''),
      (505, ''HTTP Version Not Supported''), (511, ''Network Authentication Required'')]"

definition getStringTranslation :: "16 word \<Rightarrow> string" where
  "getStringTranslation code = (case map_of status_table (unat code) of Some s \<Rightarrow> s | None \<Rightarrow> [])"

abbreviation S_999_NOT_SET :: "16 word" where
  "S_999_NOT_SET \<equiv> 1000"

record http_status = subparser +
  st_version :: http_version
  m_statusCode :: "16 word"
  m_statusMessage :: string

definition status_init :: "subparser \<Rightarrow> http_status" where
  "status_init sp = subparser.extend sp \<lparr>st_version = Version_new, m_statusCode = S_999_NOT_SET, m_statusMessage = []\<rparr>"

definition Status_new :: http_status where
  "Status_new =
     (setParseDataTargetSize (setParseDelimiter (setParseStrategy (status_init SubParser_new) DELIMITER) [CR, LF]) 128)
     \<lparr>m_subParserName := ''Status''\<rparr>"

definition setCode :: "16 word \<Rightarrow> http_status \<Rightarrow> http_status" where
  "setCode code s = (if code \<noteq> S_999_NOT_SET then s\<lparr>m_statusCode := code, m_statusMessage := getStringTranslation code\<rparr> else s)"

fun join_words :: "string list \<Rightarrow> string" where
  "join_words [] = []"
| "join_words [w] = w"
| "join_words (w # ws) = w @ '' '' @ join_words ws"

definition Status_parse :: "http_status \<Rightarrow> ParseResult \<times> http_status" where
  "Status_parse s =
     (let requestParts = split_any blank (parsed_text s) in
      if length requestParts < 2 then (PR_ERROR, s)
      else (GOTO_NEXT_SUBPARSER, s\<lparr>st_version := Version_parse (requestParts ! 0),
        m_statusCode := ucast (strtoul (c_str (requestParts ! 1))), m_statusMessage := join_words (drop 2 requestParts)\<rparr>))"

definition status_line :: "http_status \<Rightarrow> string" where
  "status_line s = Version_toString (st_version s) @ '' '' @ nat_string (unat (m_statusCode s)) @ '' '' @ m_statusMessage s"

definition Status_streamToUpstream :: "'o streamable \<Rightarrow> http_status \<Rightarrow> 'o \<Rightarrow> (stream_exn + (bool \<times> 'o)) option" where
  "Status_streamToUpstream S s up = writeString S up (status_line s @ [CR, LF])"

section \<open>Numbers and versions\<close>

lemma digits_plain:
  assumes "c \<in> set (nat_string n)"
  shows "is_digit c" "c \<noteq> CHR ''/''" "c \<noteq> CHR ''.''" "\<not> blank c" "c \<noteq> CHR 0x00"
proof -
  show d: "is_digit c" using nat_string_facts(2) assms by blast
  show "c \<noteq> CHR ''/''" "c \<noteq> CHR ''.''" "\<not> blank c" "c \<noteq> CHR 0x00" using d by (auto simp: is_digit_def blank_def)
qed

lemma version_number_back: "n < 2 ^ 64 \<Longrightarrow> strtoul (c_str (nat_string n)) = word_of_nat n"
proof -
  assume n: "n < 2 ^ 64"
  have c: "c_str (nat_string n) = nat_string n" using digits_plain(5) by (auto simp: c_str_def takeWhile_eq_all_conv)
  obtain d ds where ds: "nat_string n = d # ds" using nat_string_facts(1) by (cases "nat_string n") auto
  have d: "is_digit d" using digits_plain(1) [of d n] by (simp add: ds)
  then have "\<not> is_space d" "d \<noteq> CHR ''-''" "d \<noteq> CHR ''+''" by (auto simp: is_digit_def is_space_def)
  moreover have "takeWhile is_digit (nat_string n) = nat_string n" using digits_plain(1) by (simp add: takeWhile_eq_all_conv)
  moreover have "dec_value (nat_string n) = n" by (rule nat_string_facts(3))
  ultimately show ?thesis using n unfolding c unfolding ds by (simp add: strtoul_def Let_def)
qed

lemma split_two:
  assumes "\<forall>c \<in> set a. \<not> sep c" "\<forall>c \<in> set b. \<not> sep c" "sep d"
  shows "split_any sep (a @ d # b) = [a, b]"
  using split_any_token [OF assms(1,3)] split_any_none [OF assms(2)] assms(2) by (cases b) auto

lemma version_unsplit: "split_any (\<lambda>c. c = CHR ''/'') (Version_toString v) = [''HTTP'', nat_string (unat (m_majorVersion v)) @ CHR ''.'' # nat_string (unat (m_minorVersion v))]"
  "split_any (\<lambda>c. c = CHR ''.'') (nat_string a @ CHR ''.'' # nat_string b) = [nat_string a, nat_string b]"
  using split_two [of "''HTTP''" "\<lambda>c. c = CHR ''/''" "nat_string (unat (m_majorVersion v)) @ CHR ''.'' # nat_string (unat (m_minorVersion v))" "CHR ''/''"]
    split_two [of "nat_string a" "\<lambda>c. c = CHR ''.''" "nat_string b" "CHR ''.''"] digits_plain(2,3)
  by (auto simp: Version_toString_def)

lemma ucast_back: "ucast (ucast w :: 64 word) = (w :: 16 word)"
  by transfer simp

text \<open>Every version, with any two sixteen-bit numbers, is read back from its text.\<close>

lemma version_roundtrip: "Version_parse (Version_toString v) = v"
proof -
  have "unat w < 2 ^ 64" for w :: "16 word"
  proof -
    have "unat w < 2 ^ LENGTH(16)" by (rule unsigned_less)
    then show ?thesis by simp
  qed
  then have "ucast (strtoul (c_str (nat_string (unat w)))) = w" for w :: "16 word"
    by (simp add: version_number_back ucast_back)
  then show ?thesis by (simp add: Version_parse_def version_unsplit Let_def)
qed

section \<open>The status line\<close>

lemma version_words: "\<forall>c \<in> set (Version_toString v). \<not> blank c" "Version_toString v \<noteq> []"
  using digits_plain(4) by (auto simp: Version_toString_def blank_def)

text \<open>A text of words, between single blanks, is split into its words.\<close>

definition words_ok :: "string list \<Rightarrow> bool" where
  "words_ok ws \<longleftrightarrow> ws \<noteq> [] \<and> list_all (\<lambda>w. w \<noteq> [] \<and> list_all (\<lambda>c. \<not> blank c) w) ws"

lemma split_words: "words_ok ws \<Longrightarrow> split_any blank (join_words ws) = ws"
proof (induction ws rule: join_words.induct)
  case (2 w)
  then show ?case by (simp add: words_ok_def split_any_none list_all_iff)
next
  case (3 w v ws)
  have ok: "words_ok (v # ws)" "\<forall>c \<in> set w. \<not> blank c" using "3.prems" by (auto simp: words_ok_def list_all_iff)
  have "join_words (v # ws) \<noteq> []" "hd (join_words (v # ws)) \<in> set v"
    using ok(1) by (cases ws; cases v; simp add: words_ok_def)+
  then have "\<not> blank (hd (join_words (v # ws)))" using ok(1) by (auto simp: words_ok_def list_all_iff)
  then have "split_any blank (w @ CHR '' '' # join_words (v # ws)) = w # split_any blank (join_words (v # ws))"
    by (intro split_any_token) (use ok(2) in \<open>auto simp: blank_def\<close>)
  then show ?case using "3.IH" [OF ok(1)] by simp
qed (simp add: words_ok_def)

text \<open>A status line is read back with the version, the code and the message it was written with, for every
  sixteen-bit code and every message of words with single blanks, as the messages of the table are.\<close>

theorem status_line_roundtrip:
  assumes "parsed_text s = status_line t" "m_statusMessage t = join_words ws" "words_ok ws"
  shows "\<exists>s'. Status_parse s = (GOTO_NEXT_SUBPARSER, s') \<and> st_version s' = st_version t \<and> m_statusCode s' = m_statusCode t \<and>
    m_statusMessage s' = m_statusMessage t"
proof -
  let ?n = "nat_string (unat (m_statusCode t))"
  have "words_ok (Version_toString (st_version t) # ?n # ws)"
    using assms(3) version_words [of "st_version t"] digits_plain(4) [of _ "unat (m_statusCode t)"] nat_string_facts(1)
    by (auto simp: words_ok_def list_all_iff)
  from split_words [OF this]
  have parts: "split_any blank (parsed_text s) = Version_toString (st_version t) # ?n # ws"
    using assms(3) by (cases ws) (simp_all add: assms(1,2) status_line_def words_ok_def)
  have "unat (m_statusCode t) < 2 ^ LENGTH(16)" by (rule unsigned_less)
  then have "ucast (strtoul (c_str ?n)) = m_statusCode t" by (simp add: version_number_back ucast_back)
  then show ?thesis using version_roundtrip [of "st_version t"] by (simp add: Status_parse_def parts Let_def assms(2))
qed

section \<open>The request line\<close>

lemma query_chars: "c \<in> set (query_text ps) \<Longrightarrow> c = CHR ''%'' \<or> isalnum c \<or> c = CHR ''='' \<or> c = CHR ''&''"
  by (induction ps rule: query_text.induct) (auto simp: var_text_def dest: url_encode_alphabet)

lemma query_plain: "c \<in> set (query_text ps) \<Longrightarrow> \<not> blank c \<and> c \<noteq> CHR 0x00"
  using query_chars [of c ps] by (auto simp: blank_def cctype_defs)

text \<open>The target of a request: an encoded path and, after a question mark, variables.\<close>

definition target_ok :: "string \<Rightarrow> (bytes \<times> bytes) list \<Rightarrow> bool" where
  "target_ok e ps \<longleftrightarrow> e \<noteq> [] \<and> list_all (\<lambda>c. \<not> blank c \<and> c \<noteq> CHR ''?'') e \<and> length e \<le> 262144 \<and>
     list_all var_ok ps \<and> length ps \<le> 512 \<and> length (query_text ps) \<le> 262144"

definition target_text :: "string \<Rightarrow> (bytes \<times> bytes) list \<Rightarrow> string" where
  "target_text e ps = e @ (if ps = [] then [] else ''?'' @ query_text ps)"

lemma parseURI_target:
  assumes "m_requestURI r = target_text e ps" "target_ok e ps" "m_getVars r = URLVars_create" "rl_thrown r = None" "m_requestGETVarsRawString r = []"
  shows "\<exists>g. parseURI u r = r\<lparr>m_requestURI := url_decode e, m_requestGETVarsRawString := query_text ps, m_getVars := g\<rparr> \<and> var_values g = ps"
proof -
  have e: "CHR ''?'' \<notin> set e" "length e \<le> 262144" using assms(2) by (auto simp: target_ok_def list_all_iff)
  note dec = decodeURLStr_eq [OF e(2)]
  show ?thesis
  proof (cases "ps = []")
    case True
    have "parseURI u r = r\<lparr>m_requestURI := url_decode e\<rparr>"
      using True e(1) assms(1,4) dec by (simp add: parseURI_def target_text_def find_sub_single)
    moreover have "r\<lparr>m_requestURI := url_decode e\<rparr> = r\<lparr>m_requestURI := url_decode e, m_requestGETVarsRawString := [], m_getVars := URLVars_create\<rparr>"
      using assms(3,5) by (cases r) simp
    ultimately show ?thesis using True fresh_at_name(2) by auto
  next
    case False
    let ?q = "query_text ps"
    have found: "find_sub ''?'' (m_requestURI r) = Some (length e)"
      using False e(1) by (simp add: assms(1) target_text_def find_sub_single takeWhile_until)
    have nz: "\<forall>c \<in> set ?q. c \<noteq> CHR 0x00" using query_plain by blast
    have raw: "c_str (drop (length e + 1) (m_requestURI r)) = ?q" "take (length e) (m_requestURI r) = e"
      using False nz by (simp_all add: assms(1) target_text_def c_str_def takeWhile_eq_all_conv)
    obtain g where g: "writeFullStreamWithEOF (url_vars_stream u) URLVars_create ?q = Some (Inr (True, g))" "var_values g = ps"
      using query_received [OF False, of u] assms(2) by (auto simp: target_ok_def)
    have "parseURI u r = r\<lparr>m_requestGETVarsRawString := ?q, m_requestURI := url_decode e, m_getVars := g\<rparr>"
      using found raw g(1) dec assms(3,4) by (simp add: parseURI_def parseGETVars_def)
    also have "r\<lparr>m_requestGETVarsRawString := ?q, m_requestURI := url_decode e, m_getVars := g\<rparr> =
        r\<lparr>m_requestURI := url_decode e, m_requestGETVarsRawString := ?q, m_getVars := g\<rparr>" by (cases r) simp
    finally show ?thesis using g(2) by blast
  qed
qed

definition word_free :: "string \<Rightarrow> bool" where
  "word_free w \<longleftrightarrow> w \<noteq> [] \<and> list_all (\<lambda>c. \<not> blank c) w"

lemma request_parsed:
  assumes "parsed_text r = m @ '' '' @ target_text e ps @ '' '' @ Version_toString v" "word_free m" "target_ok e ps"
    "m_getVars r = URLVars_create" "rl_thrown r = None" "m_requestGETVarsRawString r = []"
  shows "\<exists>g. RequestLine_parse u r = (GOTO_NEXT_SUBPARSER, r\<lparr>m_requestMethod := to_upper_copy m, m_requestURI := url_decode e,
      rl_version := v, m_requestGETVarsRawString := query_text ps, m_getVars := g\<rparr>) \<and> var_values g = ps"
proof -
  let ?t = "target_text e ps"
  have q: "\<forall>c \<in> set (query_text ps). \<not> blank c" using query_plain by blast
  have qm: "\<not> blank (CHR ''?'')" by (simp add: blank_def)
  have t: "?t \<noteq> [] \<and> (\<forall>c \<in> set ?t. \<not> blank c)"
    using assms(3) q qm unfolding target_text_def target_ok_def list_all_iff by auto
  then have "words_ok [m, ?t, Version_toString v]"
    using assms(2) version_words [of v] by (auto simp: words_ok_def word_free_def list_all_iff)
  from split_words [OF this] have parts: "split_any blank (parsed_text r) = [m, ?t, Version_toString v]" by (simp add: assms(1))
  define r1 where "r1 = r\<lparr>m_requestMethod := to_upper_copy m, m_requestURI := ?t, rl_version := v\<rparr>"
  obtain g where g: "parseURI u r1 = r1\<lparr>m_requestURI := url_decode e, m_requestGETVarsRawString := query_text ps, m_getVars := g\<rparr>" "var_values g = ps"
    using parseURI_target [of r1 e ps u] assms(3-6) by (auto simp: r1_def)
  have "RequestLine_parse u r = (GOTO_NEXT_SUBPARSER, parseURI u r1)"
    by (simp add: RequestLine_parse_def parts version_roundtrip Let_def r1_def)
  moreover have "r1\<lparr>m_requestURI := url_decode e, m_requestGETVarsRawString := query_text ps, m_getVars := g\<rparr> =
      r\<lparr>m_requestMethod := to_upper_copy m, m_requestURI := url_decode e, rl_version := v, m_requestGETVarsRawString := query_text ps, m_getVars := g\<rparr>"
    unfolding r1_def by (cases r) simp
  ultimately show ?thesis using g by metis
qed

lemma RequestLine_new_stage:
  "line_stage RequestLine_new 131072" "sp_text RequestLine_new = []" "m_getVars RequestLine_new = URLVars_create" "rl_thrown RequestLine_new = None"
  "m_requestGETVarsRawString RequestLine_new = []"
  by (simp_all add: RequestLine_new_def setSecurityMaxURLSize_def setParseDataTargetSize_def setParseDelimiter_def setParseStrategy_def
      request_line_init_def subparser.defs line_stage_def SubParser_new_def sp_ok_def sp_text_def B_setMaxSize_def B_Chunks_new_def has_room_def
      chunks_ok_def chunks_wf_def chunks_content_def)

lemma parseGETVars_keeps:
  "m_parseDelimiter (parseGETVars u r) = m_parseDelimiter r" "m_unparsedBuffer (parseGETVars u r) = m_unparsedBuffer r"
  "m_parseMode (parseGETVars u r) = m_parseMode r" "m_streamEnded (parseGETVars u r) = m_streamEnded r"
  by (auto simp: parseGETVars_def split: option.split sum.split)

lemma parseURI_keeps:
  "m_parseDelimiter (parseURI u r) = m_parseDelimiter r" "m_unparsedBuffer (parseURI u r) = m_unparsedBuffer r"
  "m_parseMode (parseURI u r) = m_parseMode r" "m_streamEnded (parseURI u r) = m_streamEnded r"
  by (auto simp: parseURI_def Let_def parseGETVars_keeps split: option.split sum.split)

lemma RequestLine_parse_keeps:
  "m_parseDelimiter (snd (RequestLine_parse u r)) = m_parseDelimiter r" "m_unparsedBuffer (snd (RequestLine_parse u r)) = m_unparsedBuffer r"
  "m_parseMode (snd (RequestLine_parse u r)) = m_parseMode r" "m_streamEnded (snd (RequestLine_parse u r)) = m_streamEnded r"
  by (simp_all add: RequestLine_parse_def Let_def parseURI_keeps)

text \<open>A request line that a write completes, with the bytes after it left to the headers.\<close>

definition request_text :: "string \<Rightarrow> string \<Rightarrow> (bytes \<times> bytes) list \<Rightarrow> http_version \<Rightarrow> string" where
  "request_text m e ps v = m @ '' '' @ target_text e ps @ '' '' @ Version_toString v"

lemma request_line_stage:
  assumes "line_stage r N" "m_getVars r = URLVars_create" "rl_thrown r = None" "m_requestGETVarsRawString r = []"
    "word_free m" "target_ok e ps" "one_line (request_text m e ps v)" "length (request_text m e ps v) + 2 \<le> N"
    "sp_text r @ d = request_text m e ps v @ CR # LF # rest" "length (sp_text r) < length (request_text m e ps v) + 2"
  shows "\<exists>r'. writeIntoSubParser (RequestLine_parse u) u' r d = Inr (Some (length (request_text m e ps v) + 2 - length (sp_text r)), r') \<and>
    m_parseStatus r' = GOTO_NEXT_SUBPARSER \<and> line_stage r' N \<and> sp_text r' = [] \<and> m_requestMethod r' = to_upper_copy m \<and>
    m_requestURI r' = url_decode e \<and> var_values (m_getVars r') = ps \<and> m_requestGETVarsRawString r' = query_text ps \<and> rl_version r' = v \<and> rl_thrown r' = None"
proof -
  let ?P = "RequestLine_parse u" and ?l = "request_text m e ps v"
  have dl: "m_parseDelimiter (snd (?P (ref_unparsed (r\<lparr>m_unparsedBuffer := b\<rparr>) 0 (length ?l)))) = [CR, LF]" for b
    using assms(1) by (simp add: RequestLine_parse_keeps line_stage_def)
  obtain b where b: "chunks_ok b" "same_limits (m_unparsedBuffer r) b" "parsed_text (ref_unparsed (r\<lparr>m_unparsedBuffer := b\<rparr>) 0 (length ?l)) = ?l"
    and w: "writeIntoSubParser ?P u' r d = Inr (Some (length ?l + 2 - length (sp_text r)),
      clear_unparsed (run_parse ?P (ref_unparsed (r\<lparr>m_unparsedBuffer := b\<rparr>) 0 (length ?l))))"
    using line_step [where parse = ?P and u = u', OF assms(1,7,8,9,10) dl] by (auto simp: Let_def)
  let ?s = "ref_unparsed (r\<lparr>m_unparsedBuffer := b\<rparr>) 0 (length ?l)"
  have st: "line_stage (clear_unparsed (run_parse ?P ?s)) N \<and> sp_text (clear_unparsed (run_parse ?P ?s)) = []"
    using assms(1) b by (intro line_stage_cleared [OF assms(1)]) (simp_all add: line_stage_def RequestLine_parse_keeps)
  have s: "m_getVars ?s = URLVars_create" "rl_thrown ?s = None" "m_requestGETVarsRawString ?s = []"
    using assms(2-4) by (simp_all add: ref_unparsed_def)
  obtain g where "?P ?s = (GOTO_NEXT_SUBPARSER, ?s\<lparr>m_requestMethod := to_upper_copy m, m_requestURI := url_decode e,
      rl_version := v, m_requestGETVarsRawString := query_text ps, m_getVars := g\<rparr>)" "var_values g = ps"
    using request_parsed [OF trans [OF b(3) request_text_def] assms(5,6) s, of u] by blast
  then show ?thesis using w st s(2)
    by (intro exI [of _ "clear_unparsed (run_parse ?P ?s)"]) (simp add: clear_unparsed_def run_parse_def setParseResult_def)
qed



end
