(* ===== verification/Http_Fields.thy ===== *)
theory Http_Fields
  imports Http_Request
begin

text \<open>
  The header fields with a class of their own in \<open>Protocol_HTTP\<close>: \<open>Cache-Control\<close>
  (\<open>hdr_cachecontrol.cpp\<close>), \<open>Strict-Transport-Security\<close> (\<open>hdr_sec_hsts.cpp\<close>), \<open>X-Frame-Options\<close>
  (\<open>hdr_sec_xframeopts.cpp\<close>), \<open>X-XSS-Protection\<close> (\<open>hdr_sec_xssprotection.cpp\<close>), and the cookies of
  responses and requests (\<open>hdr_cookie.cpp\<close>, \<open>rsp_cookies.cpp\<close>, \<open>req_cookies.cpp\<close>). The text of a date and
  its reading belong to the C library and are the arguments \<open>date_text\<close> and \<open>date_read\<close>; the clock is the
  argument \<open>now\<close>. A \<open>std::map\<close> is the list of its entries in the order of the keys.
\<close>

section \<open>Joining and maps\<close>

fun join_sep :: "string \<Rightarrow> string list \<Rightarrow> string" where
  "join_sep s [] = []"
| "join_sep s [w] = w"
| "join_sep s (w # v # ws) = w @ s @ join_sep s (v # ws)"

fun sm_put :: "string \<Rightarrow> 'v \<Rightarrow> (string \<times> 'v) list \<Rightarrow> (string \<times> 'v) list" where
  "sm_put k v [] = [(k, v)]"
| "sm_put k v ((k1, v1) # m) =
     (if k < k1 then (k, v) # (k1, v1) # m else if k = k1 then (k, v) # m else (k1, v1) # sm_put k v m)"

definition istarts_with :: "string \<Rightarrow> string \<Rightarrow> bool" where
  "istarts_with s t \<longleftrightarrow> iequals (take (length t) s) t"

section \<open>Cache-Control\<close>

record cache_control =
  optionNoStore :: bool
  optionNoCache :: bool
  optionMustRevalidate :: bool
  optionPrivate :: bool
  optionPublic :: bool
  optionImmutable :: bool
  optionNoTransform :: bool
  optionProxyRevalidate :: bool
  cc_maxAge :: "32 word"
  cc_sMaxAge :: "32 word"

definition CacheControl_new :: cache_control where
  "CacheControl_new = \<lparr>optionNoStore = True, optionNoCache = False, optionMustRevalidate = False, optionPrivate = False,
     optionPublic = False, optionImmutable = False, optionNoTransform = False, optionProxyRevalidate = False,
     cc_maxAge = 0, cc_sMaxAge = 0\<rparr>"

definition with_comma :: "bool \<Rightarrow> string \<Rightarrow> string \<Rightarrow> string" where
  "with_comma b s r = (if b then r @ (if r = [] then [] else '','') @ s else r)"

definition CacheControl_toString :: "cache_control \<Rightarrow> string" where
  "CacheControl_toString c =
     (let r1 = (if optionMustRevalidate c then ''must-revalidate'' else []);
          r2 = with_comma (optionProxyRevalidate c) ''proxy-revalidate'' r1;
          r3 = with_comma (optionNoTransform c) ''no-transform'' r2;
          r4 = with_comma (optionImmutable c) ''immutable'' r3;
          r5 = with_comma (optionNoStore c) ''no-store'' r4;
          r6 = with_comma (optionNoCache c) ''no-cache'' r5;
          r7 = with_comma (optionPrivate c) ''private'' r6;
          r8 = with_comma (optionPublic c) ''public'' r7;
          r9 = with_comma (cc_maxAge c \<noteq> 0) (''max-age='' @ nat_string (unat (cc_maxAge c))) r8 in
      with_comma (cc_sMaxAge c \<noteq> 0) (''s-maxage='' @ nat_string (unat (cc_sMaxAge c))) r9)"

definition cache_option :: "string \<Rightarrow> cache_control \<Rightarrow> cache_control" where
  "cache_option param c =
     (let p = map tolower param in
      if p = ''no-store'' then c\<lparr>optionNoStore := True\<rparr>
      else if p = ''no-cache'' then c\<lparr>optionNoCache := True\<rparr>
      else if p = ''private'' then c\<lparr>optionPrivate := True\<rparr>
      else if p = ''public'' then c\<lparr>optionPublic := True\<rparr>
      else if p = ''immutable'' then c\<lparr>optionImmutable := True\<rparr>
      else if p = ''proxy-revalidate'' then c\<lparr>optionProxyRevalidate := True\<rparr>
      else if p = ''no-transform'' then c\<lparr>optionNoTransform := True\<rparr>
      else if take 8 p = ''max-age='' then c\<lparr>cc_maxAge := ucast (strtoul (c_str (drop 8 p)))\<rparr>
      else if take 9 p = ''s-maxage='' then c\<lparr>cc_sMaxAge := ucast (strtoul (c_str (drop 9 p)))\<rparr>
      else c)"

definition CacheControl_fromString :: "string \<Rightarrow> cache_control" where
  "CacheControl_fromString str = fold cache_option (split_any (\<lambda>c. c = CHR '','' \<or> c = CHR '' '') str) CacheControl_new"

section \<open>Strict-Transport-Security\<close>

record hsts =
  hsts_isActivated :: bool
  isPreloadEnabled :: bool
  isSubdomainIncluded :: bool
  hsts_maxAge :: "32 word"

definition HSTS_new :: hsts where
  "HSTS_new = \<lparr>hsts_isActivated = False, isPreloadEnabled = False, isSubdomainIncluded = False, hsts_maxAge = 0\<rparr>"

definition HSTS_of :: "32 word \<Rightarrow> bool \<Rightarrow> bool \<Rightarrow> hsts" where
  "HSTS_of age sub pre = \<lparr>hsts_isActivated = True, isPreloadEnabled = pre, isSubdomainIncluded = sub, hsts_maxAge = age\<rparr>"

definition HSTS_toString :: "hsts \<Rightarrow> string" where
  "HSTS_toString h =
     (if hsts_isActivated h then
        (let r = (if hsts_maxAge h \<noteq> 0 then ''; max-age='' @ nat_string (unat (hsts_maxAge h)) else []) @
               (if isSubdomainIncluded h then ''; includeSubDomains'' else []) @
               (if isPreloadEnabled h then ''; preload'' else []) in
         if length r > 2 then drop 2 r else [])
      else [])"

definition hsts_part :: "string \<Rightarrow> hsts \<Rightarrow> hsts" where
  "hsts_part part h =
     (if iequals part ''preload'' then h\<lparr>isPreloadEnabled := True\<rparr>
      else if iequals part ''includeSubDomains'' then h\<lparr>isSubdomainIncluded := True\<rparr>
      else if istarts_with part ''max-age='' then h\<lparr>hsts_maxAge := ucast (strtoul (c_str part))\<rparr>
      else h)"

definition HSTS_fromString :: "string \<Rightarrow> hsts" where
  "HSTS_fromString sValue =
     (if sValue = [] then HSTS_new
      else fold hsts_part (split_any (\<lambda>c. c = CHR '';'' \<or> c = CHR '' '') sValue) (HSTS_new\<lparr>hsts_isActivated := True\<rparr>))"

section \<open>X-Frame-Options and X-XSS-Protection\<close>

datatype frame_option = Frame_NONE | Frame_DENY | Frame_SAMEORIGIN | Frame_ALLOWFROM

record xframe_options =
  allowFromURL :: string
  xf_value :: frame_option

definition XFrameOptions_new :: xframe_options where
  "XFrameOptions_new = \<lparr>allowFromURL = [], xf_value = Frame_DENY\<rparr>"

definition XFrameOptions_of :: "frame_option \<Rightarrow> string \<Rightarrow> xframe_options option" where
  "XFrameOptions_of v url = (if url \<noteq> [] \<and> v \<noteq> Frame_ALLOWFROM then None else Some \<lparr>allowFromURL = url, xf_value = v\<rparr>)"

definition isNotActivated :: "xframe_options \<Rightarrow> bool" where
  "isNotActivated x \<longleftrightarrow> xf_value x = Frame_NONE"

definition XFrameOptions_toString :: "xframe_options \<Rightarrow> string" where
  "XFrameOptions_toString x = (case xf_value x of
     Frame_DENY \<Rightarrow> ''DENY'' | Frame_ALLOWFROM \<Rightarrow> ''ALLOW-FROM '' @ allowFromURL x | Frame_SAMEORIGIN \<Rightarrow> ''SAMEORIGIN'' | Frame_NONE \<Rightarrow> [])"

definition XFrameOptions_fromString :: "string \<Rightarrow> bool \<times> xframe_options" where
  "XFrameOptions_fromString sValue =
     (let x = XFrameOptions_new; parts = split_any (\<lambda>c. c = CHR '' '') sValue in
      if sValue = [] then (False, x)
      else if iequals (parts ! 0) ''DENY'' then (True, x\<lparr>xf_value := Frame_DENY\<rparr>)
      else if iequals (parts ! 0) ''SAMEORIGIN'' then (True, x\<lparr>xf_value := Frame_SAMEORIGIN\<rparr>)
      else if iequals (parts ! 0) ''ALLOW-FROM'' then
        (if length parts < 2 then (False, x) else (True, x\<lparr>xf_value := Frame_ALLOWFROM, allowFromURL := parts ! 1\<rparr>))
      else (False, x))"

record xss_protection =
  xss_isActivated :: bool
  enableBlockingMode :: bool
  reportURL :: string

definition XSSProtection_new :: xss_protection where
  "XSSProtection_new = \<lparr>xss_isActivated = True, enableBlockingMode = True, reportURL = []\<rparr>"

definition XSSProtection_toString :: "xss_protection \<Rightarrow> string" where
  "XSSProtection_toString x =
     (if \<not> xss_isActivated x then ''0''
      else ''1'' @ (if enableBlockingMode x then ''; mode=block'' else []) @
        (if reportURL x \<noteq> [] then ''; report='' @ reportURL x else []))"

definition xss_part :: "string \<Rightarrow> xss_protection \<Rightarrow> xss_protection" where
  "xss_part part x =
     (if iequals part ''mode=block'' then x\<lparr>enableBlockingMode := True\<rparr>
      else if istarts_with part ''report='' then x\<lparr>reportURL := drop 7 part\<rparr> else x)"

definition XSSProtection_fromString :: "string \<Rightarrow> xss_protection" where
  "XSSProtection_fromString sValue =
     (case split_any (\<lambda>c. c = CHR '';'' \<or> c = CHR '' '') sValue of
        [] \<Rightarrow> XSSProtection_new\<lparr>xss_isActivated := False\<rparr>
      | [p] \<Rightarrow> XSSProtection_new\<lparr>xss_isActivated := (p = ''1'')\<rparr>
      | p # ps \<Rightarrow>
          (if p = ''1'' then fold xss_part ps (XSSProtection_new\<lparr>enableBlockingMode := False\<rparr>)
           else XSSProtection_new\<lparr>xss_isActivated := False\<rparr>))"

section \<open>Cookies\<close>

datatype same_site = SameSite_NONE | SameSite_LAX | SameSite_STRICT

record cookie =
  ck_value :: string
  expires :: "int option"
  ck_maxAge :: "32 word option"
  ck_domain :: string
  ck_path :: string
  ck_secure :: bool
  httpOnly :: bool
  sameSitePolicy :: same_site

definition Cookie_new :: cookie where
  "Cookie_new = \<lparr>ck_value = [], expires = None, ck_maxAge = None, ck_domain = [], ck_path = [], ck_secure = True,
     httpOnly = True, sameSitePolicy = SameSite_STRICT\<rparr>"

definition same_site_text :: "same_site \<Rightarrow> string" where
  "same_site_text s = (case s of SameSite_NONE \<Rightarrow> ''SameSite=None; '' | SameSite_STRICT \<Rightarrow> ''SameSite=Strict; '' | SameSite_LAX \<Rightarrow> ''SameSite=Lax; '')"

definition toSetCookieString :: "(int \<Rightarrow> string) \<Rightarrow> string \<Rightarrow> cookie \<Rightarrow> string" where
  "toSetCookieString date_text cookieName c =
     cookieName @ ''='' @ ck_value c @ ''; '' @
     (case expires c of None \<Rightarrow> [] | Some t \<Rightarrow> ''Expires='' @ date_text t @ ''; '') @
     (case ck_maxAge c of None \<Rightarrow> [] | Some a \<Rightarrow> ''Max-Age='' @ nat_string (unat a) @ ''; '') @
     (if ck_secure c then ''Secure; '' else []) @
     (if httpOnly c then ''HttpOnly; '' else []) @
     (if ck_domain c \<noteq> [] then ''Domain='' @ ck_domain c @ ''; '' else []) @
     (if ck_path c \<noteq> [] then ''Path='' @ ck_path c @ ''; '' else []) @
     same_site_text (sameSitePolicy c)"

definition getVarNameAndValue :: "string \<Rightarrow> string \<times> string" where
  "getVarNameAndValue var =
     (if CHR ''='' \<in> set var
      then (trim (takeWhile (\<lambda>c. c \<noteq> CHR ''='') var), trim (c_str (tl (dropWhile (\<lambda>c. c \<noteq> CHR ''='') var))))
      else (trim var, []))"

definition cookie_param :: "(string \<Rightarrow> int) \<Rightarrow> string \<Rightarrow> cookie \<Rightarrow> cookie" where
  "cookie_param date_read param c =
     (case getVarNameAndValue param of (n, v) \<Rightarrow>
        let n = to_upper_copy n in
        if n = ''EXPIRES'' then c\<lparr>expires := Some (date_read v)\<rparr>
        else if n = ''MAX-AGE'' then c\<lparr>ck_maxAge := Some (ucast (strtoul (c_str v)))\<rparr>
        else if n = ''SECURE'' then c\<lparr>ck_secure := True\<rparr>
        else if n = ''HTTPONLY'' then c\<lparr>httpOnly := True\<rparr>
        else if n = ''DOMAIN'' then c\<lparr>ck_domain := v\<rparr>
        else if n = ''PATH'' then c\<lparr>ck_path := v\<rparr>
        else if n = ''SAMESITE'' then
          c\<lparr>sameSitePolicy := (if iequals v ''LAX'' then SameSite_LAX else if iequals v ''STRICT'' then SameSite_STRICT else SameSite_NONE)\<rparr>
        else c)"

definition fromSetCookieString :: "(string \<Rightarrow> int) \<Rightarrow> string \<Rightarrow> string \<times> cookie" where
  "fromSetCookieString date_read s =
     (case split_any (\<lambda>c. c = CHR '';'') s of
        [] \<Rightarrow> ([], Cookie_new)
      | p # ps \<Rightarrow> (case getVarNameAndValue p of (n, v) \<Rightarrow> (n, fold (cookie_param date_read) ps (Cookie_new\<lparr>ck_value := v\<rparr>))))"

definition setAsSessionCookie :: "cookie \<Rightarrow> cookie" where
  "setAsSessionCookie c = c\<lparr>expires := None, ck_maxAge := None\<rparr>"

definition setExpiration :: "int \<Rightarrow> cookie \<Rightarrow> cookie" where
  "setExpiration t c = c\<lparr>expires := Some t\<rparr>"

definition setExpirationFromNow :: "int \<Rightarrow> 32 word \<Rightarrow> cookie \<Rightarrow> cookie" where
  "setExpirationFromNow now seconds c = c\<lparr>expires := Some (now + uint seconds)\<rparr>"

definition deleteCookie :: "cookie \<Rightarrow> cookie" where
  "deleteCookie c = c\<lparr>ck_value := [], sameSitePolicy := SameSite_NONE, expires := None, ck_maxAge := Some 0\<rparr>"

section \<open>The cookies of a response\<close>

type_synonym server_cookies = "(string \<times> cookie) list"

definition getCookieByName :: "string \<Rightarrow> server_cookies \<Rightarrow> cookie option" where
  "getCookieByName n m = map_of m n"

definition getCookieValueByName :: "string \<Rightarrow> server_cookies \<Rightarrow> string" where
  "getCookieValueByName n m = (case getCookieByName n m of None \<Rightarrow> [] | Some c \<Rightarrow> ck_value c)"

definition server_parseCookie :: "(string \<Rightarrow> int) \<Rightarrow> string \<Rightarrow> server_cookies \<Rightarrow> bool \<times> server_cookies" where
  "server_parseCookie date_read s m =
     (case fromSetCookieString date_read s of (n, c) \<Rightarrow>
        if n = [] \<or> getCookieByName n m \<noteq> None then (False, m) else (True, sm_put n c m))"

definition addCookieVal :: "string \<Rightarrow> cookie \<Rightarrow> server_cookies \<Rightarrow> bool \<times> server_cookies" where
  "addCookieVal n c m = (if getCookieByName n m \<noteq> None then (False, m) else (True, sm_put n c m))"

definition removeCookie :: "string \<Rightarrow> server_cookies \<Rightarrow> bool \<times> server_cookies" where
  "removeCookie n m = (if getCookieByName n m = None then (False, m) else (True, filter (\<lambda>(k, _). k \<noteq> n) m))"

definition addClearSecureCookie :: "string \<Rightarrow> string \<Rightarrow> server_cookies \<Rightarrow> server_cookies" where
  "addClearSecureCookie n path m =
     (let c = (deleteCookie (Cookie_new\<lparr>ck_path := path\<rparr>))\<lparr>sameSitePolicy := SameSite_STRICT\<rparr> in
      snd (addCookieVal n c (snd (removeCookie n m))))"

definition prepended_path :: "string \<Rightarrow> string \<Rightarrow> string" where
  "prepended_path pre path =
     (if path = [] \<or> path = ''/'' then pre
      else (let clean = (if last pre = CHR ''/'' then butlast pre else pre) in
            if hd path = CHR ''/'' then clean @ path else clean @ ''/'' @ path))"

definition prependPathToAllCookies :: "string \<Rightarrow> server_cookies \<Rightarrow> server_cookies" where
  "prependPathToAllCookies pre m =
     (if pre = [] then m else map (\<lambda>(n, c). (n, c\<lparr>ck_path := prepended_path pre (ck_path c)\<rparr>)) m)"

definition cookies_putOnHeaders :: "(nat \<Rightarrow> bytes) \<Rightarrow> (int \<Rightarrow> string) \<Rightarrow> server_cookies \<Rightarrow> sub_header \<Rightarrow> sub_header" where
  "cookies_putOnHeaders rnd date_text m h = fold (\<lambda>(n, c) h. snd (headers_add rnd ''Set-Cookie'' (toSetCookieString date_text n c) 0 h)) m h"

section \<open>The cookies of a request\<close>

type_synonym client_cookies = "(string \<times> string) list"

definition client_toString :: "client_cookies \<Rightarrow> string" where
  "client_toString m = join_sep ''; '' (map (\<lambda>(n, v). n @ ''='' @ v) m)"

definition client_putOnHeaders :: "(nat \<Rightarrow> bytes) \<Rightarrow> client_cookies \<Rightarrow> sub_header \<Rightarrow> sub_header" where
  "client_putOnHeaders rnd m h = (if m \<noteq> [] then snd (headers_add rnd ''Cookie'' (client_toString m) 0 h) else h)"

definition client_parseCookie :: "string \<Rightarrow> client_cookies \<Rightarrow> client_cookies" where
  "client_parseCookie cookie m =
     (if CHR ''='' \<in> set cookie
      then sm_put (trim (takeWhile (\<lambda>c. c \<noteq> CHR ''='') cookie)) (trim (c_str (tl (dropWhile (\<lambda>c. c \<noteq> CHR ''='') cookie)))) m
      else m)"

definition parseFromHeaders :: "string \<Rightarrow> client_cookies \<Rightarrow> client_cookies" where
  "parseFromHeaders s m = fold client_parseCookie (split_any (\<lambda>c. c = CHR '';'') s) m"

definition client_getCookieByName :: "string \<Rightarrow> client_cookies \<Rightarrow> string" where
  "client_getCookieByName n m = (case map_of m n of None \<Rightarrow> [] | Some v \<Rightarrow> v)"

section \<open>What is read back\<close>

lemma split_join:
  assumes "sep d" "\<forall>c \<in> set x. \<not> sep c" "list_all (\<lambda>v. \<forall>c \<in> set v. \<not> sep c) (w # ws)" "x \<noteq> [] \<or> list_all (\<lambda>v. v \<noteq> []) ws"
  shows "split_any sep (join_sep (d # x) (w # ws)) = w # map ((@) x) ws"
proof -
  have gen: "split_any sep (y @ join_sep (d # x) (w # ws)) = (y @ w) # map ((@) x) ws"
    if "\<forall>c \<in> set y. \<not> sep c" "list_all (\<lambda>v. \<forall>c \<in> set v. \<not> sep c) (w # ws)" "x \<noteq> [] \<or> list_all (\<lambda>v. v \<noteq> []) ws" for y w ws
    using that
  proof (induction ws arbitrary: y w)
    case Nil
    then show ?case by (auto intro!: split_any_none)
  next
    case (Cons v ws)
    have r: "x @ join_sep (d # x) (v # ws) \<noteq> [] \<and> \<not> sep (hd (x @ join_sep (d # x) (v # ws)))"
    proof (cases x)
      case Nil
      then obtain c v' where "v = c # v'" using Cons.prems(3) by (cases v) auto
      then show ?thesis using Nil Cons.prems(2) by (cases ws) auto
    qed (use assms(2) in simp)
    have "split_any sep ((y @ w) @ d # (x @ join_sep (d # x) (v # ws))) = (y @ w) # split_any sep (x @ join_sep (d # x) (v # ws))"
      by (rule split_any_token) (use Cons.prems assms(1) r in auto)
    then show ?case using Cons.IH [of x v] Cons.prems assms(2) by simp
  qed
  show ?thesis using gen [of "[]" w ws] assms(3,4) by simp
qed

lemma join_sep_empty: "list_all (\<lambda>v. v \<noteq> []) ws \<Longrightarrow> join_sep s ws = [] \<longleftrightarrow> ws = []"
  by (induction s ws rule: join_sep.induct) auto

lemma join_sep_snoc: "join_sep s (ws @ [w]) = join_sep s ws @ (if ws = [] then [] else s) @ w"
  by (induction s ws rule: join_sep.induct) auto

lemma with_comma_join:
  assumes "list_all (\<lambda>(b, w). w \<noteq> []) os" "list_all (\<lambda>v. v \<noteq> []) ws"
  shows "fold (\<lambda>(b, w). with_comma b w) os (join_sep '','' ws) = join_sep '','' (ws @ concat (map (\<lambda>(b, w). if b then [w] else []) os))"
  using assms
proof (induction os arbitrary: ws)
  case (Cons o1 os)
  obtain b w where o1: "o1 = (b, w)" by fastforce
  have "with_comma b w (join_sep '','' ws) = join_sep '','' (ws @ (if b then [w] else []))"
    using Cons.prems by (simp add: with_comma_def join_sep_snoc join_sep_empty)
  then show ?case using Cons.IH [of "ws @ (if b then [w] else [])"] Cons.prems by (simp add: o1)
qed simp

definition cache_options :: "cache_control \<Rightarrow> (bool \<times> string) list" where
  "cache_options c = [(optionMustRevalidate c, ''must-revalidate''), (optionProxyRevalidate c, ''proxy-revalidate''),
     (optionNoTransform c, ''no-transform''), (optionImmutable c, ''immutable''), (optionNoStore c, ''no-store''),
     (optionNoCache c, ''no-cache''), (optionPrivate c, ''private''), (optionPublic c, ''public''),
     (cc_maxAge c \<noteq> 0, ''max-age='' @ nat_string (unat (cc_maxAge c))),
     (cc_sMaxAge c \<noteq> 0, ''s-maxage='' @ nat_string (unat (cc_sMaxAge c)))]"

definition cache_parts :: "cache_control \<Rightarrow> string list" where
  "cache_parts c = concat (map (\<lambda>(b, w). if b then [w] else []) (cache_options c))"

lemma cache_text: "CacheControl_toString c = join_sep '','' (cache_parts c)"
proof -
  have "CacheControl_toString c = fold (\<lambda>(b, w). with_comma b w) (cache_options c) (join_sep '','' [])"
    by (simp add: CacheControl_toString_def cache_options_def Let_def with_comma_def [of _ "''must-revalidate''"])
  then show ?thesis using with_comma_join [of "cache_options c" "[]"] by (simp add: cache_parts_def cache_options_def)
qed

lemma digits_lower: "map tolower (nat_string n) = nat_string n"
proof -
  have "tolower c = c" if "c \<in> set (nat_string n)" for c
    using digits_plain(1) [OF that] by (auto simp: is_digit_def tolower_def isupper_def)
  then show ?thesis by (simp add: map_idI)
qed

lemma number_back: "ucast (strtoul (c_str (nat_string (unat (a :: 32 word))))) = a"
proof -
  have "unat a < 2 ^ 64" using unsigned_less [of a] by (rule less_trans) simp
  then have "strtoul (c_str (nat_string (unat a))) = word_of_nat (unat a)" by (rule version_number_back)
  moreover have "ucast (word_of_nat (unat a) :: 64 word) = a" by transfer simp
  ultimately show ?thesis by simp
qed

lemma cache_part_plain:
  assumes "v \<in> set (cache_parts c)"
  shows "v \<noteq> []" "\<forall>x \<in> set v. x \<noteq> CHR '','' \<and> x \<noteq> CHR '' ''"
proof -
  have d: "CHR '','' \<notin> set (nat_string n)" "CHR '' '' \<notin> set (nat_string n)" for n
    using digits_plain(1) [of "CHR '',''" n] digits_plain(1) [of "CHR '' ''" n] by (auto simp: is_digit_def)
  show "v \<noteq> []" "\<forall>x \<in> set v. x \<noteq> CHR '','' \<and> x \<noteq> CHR '' ''"
    using assms d by (auto simp: cache_parts_def cache_options_def split: if_splits)
qed

text \<open>A cache policy is read back without \<open>must-revalidate\<close>, which the reader does not know, and always
  with \<open>no-store\<close>, which is on in a new object and is never turned off.\<close>

lemma cache_control_reread:
  "CacheControl_fromString (CacheControl_toString c) = c\<lparr>optionNoStore := True, optionMustRevalidate := False\<rparr>"
proof -
  let ?sep = "\<lambda>x. x = CHR '','' \<or> x = CHR '' ''"
  have parts: "fold cache_option (cache_parts c) CacheControl_new = c\<lparr>optionNoStore := True, optionMustRevalidate := False\<rparr>"
  proof -
    have low: "map tolower ''must-revalidate'' = ''must-revalidate''" "map tolower ''proxy-revalidate'' = ''proxy-revalidate''"
      "map tolower ''no-transform'' = ''no-transform''" "map tolower ''immutable'' = ''immutable''" "map tolower ''no-store'' = ''no-store''"
      "map tolower ''no-cache'' = ''no-cache''" "map tolower ''private'' = ''private''" "map tolower ''public'' = ''public''"
      "map tolower ''max-age='' = ''max-age=''" "map tolower ''s-maxage='' = ''s-maxage=''" by code_simp+
    have opt: "cache_option ''must-revalidate'' d = d" "cache_option ''proxy-revalidate'' d = d\<lparr>optionProxyRevalidate := True\<rparr>"
      "cache_option ''no-transform'' d = d\<lparr>optionNoTransform := True\<rparr>" "cache_option ''immutable'' d = d\<lparr>optionImmutable := True\<rparr>"
      "cache_option ''no-store'' d = d\<lparr>optionNoStore := True\<rparr>" "cache_option ''no-cache'' d = d\<lparr>optionNoCache := True\<rparr>"
      "cache_option ''private'' d = d\<lparr>optionPrivate := True\<rparr>" "cache_option ''public'' d = d\<lparr>optionPublic := True\<rparr>"
      "cache_option (''max-age='' @ nat_string (unat a)) d = d\<lparr>cc_maxAge := a\<rparr>"
      "cache_option (''s-maxage='' @ nat_string (unat a)) d = d\<lparr>cc_sMaxAge := a\<rparr>" for d a
      by (simp_all only: cache_option_def low map_append digits_lower Let_def) (simp_all add: number_back)
    show ?thesis unfolding cache_parts_def cache_options_def by (cases c) (simp add: opt CacheControl_new_def del: append.simps)
  qed
  show ?thesis
  proof (cases "cache_parts c")
    case Nil
    have "split_any ?sep [] = [[]]" by (rule split_any_none) simp
    moreover have "cache_option [] d = d" for d by (simp add: cache_option_def)
    ultimately show ?thesis using parts Nil by (simp add: CacheControl_fromString_def cache_text)
  next
    case (Cons w ws)
    have "split_any ?sep (join_sep [CHR '',''] (w # ws)) = w # map ((@) []) ws"
      by (rule split_join) (use cache_part_plain [of _ c] Cons in \<open>auto simp: list_all_iff\<close>)
    moreover have "map ((@) []) ws = ws" by (simp add: map_idI)
    ultimately show ?thesis using parts Cons by (simp add: CacheControl_fromString_def cache_text)
  qed
qed

lemma split_join2:
  assumes "sep d" "sep e" "list_all (\<lambda>v. v \<noteq> [] \<and> (\<forall>c \<in> set v. \<not> sep c)) ws" "ws \<noteq> []"
  shows "split_any sep (join_sep [d, e] ws) = ws"
  using assms(3,4)
proof (induction "[d, e]" ws rule: join_sep.induct)
  case (2 w)
  then show ?case by (auto intro: split_any_none)
next
  case (3 w v ws)
  have "\<not> sep (hd (join_sep [d, e] (v # ws)))" using "3.prems" by (cases ws; cases v) auto
  then have "dropWhile sep (join_sep [d, e] (v # ws)) = join_sep [d, e] (v # ws)" by (auto simp: dropWhile_eq_self_iff)
  then show ?case using 3 assms(1,2) by (subst split_any.simps) (simp add: dropWhile_append2 takeWhile_append2)
qed simp

text \<open>The policy of strict transport security loses its maximum age: the number is looked for at the start
  of the text \<open>max-age=\<close>.\<close>

lemma strtoul_letter: "c \<noteq> CHR ''-'' \<Longrightarrow> c \<noteq> CHR ''+'' \<Longrightarrow> \<not> is_space c \<Longrightarrow> \<not> is_digit c \<Longrightarrow> strtoul (c # s) = 0"
  by (simp add: strtoul_def Let_def)

lemma hsts_reread:
  assumes "HSTS_toString h \<noteq> []"
  shows "HSTS_fromString (HSTS_toString h) = h\<lparr>hsts_maxAge := 0\<rparr>"
proof -
  let ?sep = "\<lambda>x. x = CHR '';'' \<or> x = CHR '' ''" and ?m = "''max-age='' @ nat_string (unat (hsts_maxAge h))"
  have act: "hsts_isActivated h" using assms by (auto simp: HSTS_toString_def split: if_splits)
  have m: "\<forall>c \<in> set ?m. \<not> ?sep c"
    using digits_plain(1) [of "CHR '';''" "unat (hsts_maxAge h)"] digits_plain(1) [of "CHR '' ''" "unat (hsts_maxAge h)"] by (auto simp: is_digit_def)
  have parts: "hsts_part ''preload'' d = d\<lparr>isPreloadEnabled := True\<rparr>" "hsts_part ''includeSubDomains'' d = d\<lparr>isSubdomainIncluded := True\<rparr>"
    "hsts_part (''max-age='' @ nat_string n) d = d\<lparr>hsts_maxAge := 0\<rparr>" for d n
  proof -
    have "map tolower ''max-age='' = ''max-age=''" "map tolower ''preload'' = ''preload''"
      "map tolower ''includeSubDomains'' = ''includesubdomains''" by code_simp+
    moreover have "strtoul (c_str (''max-age='' @ nat_string n)) = 0" by (simp add: c_str_def strtoul_letter is_space_def is_digit_def)
    ultimately show "hsts_part ''preload'' d = d\<lparr>isPreloadEnabled := True\<rparr>" "hsts_part ''includeSubDomains'' d = d\<lparr>isSubdomainIncluded := True\<rparr>"
      "hsts_part (''max-age='' @ nat_string n) d = d\<lparr>hsts_maxAge := 0\<rparr>"
      by (simp_all only: hsts_part_def iequals_def istarts_with_def map_append digits_lower) (simp_all)
  qed
  define q1 q2 q3 where "q1 = (hsts_maxAge h \<noteq> 0)" and "q2 = isSubdomainIncluded h" and "q3 = isPreloadEnabled h"
  let ?ws = "(if q1 then [?m] else []) @ (if q2 then [''includeSubDomains''] else []) @ (if q3 then [''preload''] else [])"
  have tx: "HSTS_toString h = join_sep ''; '' ?ws"
    using act by (simp add: HSTS_toString_def Let_def q1_def q2_def q3_def)
  have "?ws \<noteq> []" using assms tx by (auto split: if_splits)
  then have ws: "split_any ?sep (HSTS_toString h) = ?ws"
    unfolding tx by (intro split_join2) (use m in simp_all)
  have "fold hsts_part (split_any ?sep (HSTS_toString h)) (HSTS_new\<lparr>hsts_isActivated := True\<rparr>) = h\<lparr>hsts_maxAge := 0\<rparr>"
    unfolding ws using act by (cases h) (simp add: parts q1_def q2_def q3_def HSTS_new_def del: append.simps)
  then show ?thesis using assms by (simp add: HSTS_fromString_def)
qed

section \<open>Cookies on the wire\<close>

text \<open>A text that can stand in a cookie: it has no semicolon and no null byte, and no blanks at its ends.\<close>

definition cookie_text :: "string \<Rightarrow> bool" where
  "cookie_text s \<longleftrightarrow> CHR '';'' \<notin> set s \<and> CHR 0x00 \<notin> set s \<and> (s = [] \<or> \<not> is_space (hd s) \<and> \<not> is_space (last s))"

lemma cookie_text_facts:
  assumes "cookie_text s"
  shows "trim s = s" "trim (CHR '' '' # s) = s" "c_str s = s" "\<forall>c \<in> set s. c \<noteq> CHR '';''"
proof -
  show t: "trim s = s" using assms by (intro trim_id) (auto simp: cookie_text_def)
  then show "trim (CHR '' '' # s) = s" by (simp add: is_space_def)
  show "c_str s = s" using assms by (auto simp: cookie_text_def c_str_def takeWhile_eq_all_conv)
  show "\<forall>c \<in> set s. c \<noteq> CHR '';''" using assms by (auto simp: cookie_text_def)
qed

lemma named_value:
  assumes "cookie_text n" "CHR ''='' \<notin> set n" "cookie_text v"
  shows "getVarNameAndValue (n @ CHR ''='' # v) = (n, v)" "getVarNameAndValue (CHR '' '' # n @ CHR ''='' # v) = (n, v)"
  using takeWhile_until [of "CHR ''=''" n v] takeWhile_until [of "CHR ''=''" "CHR '' '' # n" v] assms cookie_text_facts [OF assms(1)] cookie_text_facts [OF assms(3)]
  by (simp_all add: getVarNameAndValue_def)

lemma flag_value:
  assumes "cookie_text n" "CHR ''='' \<notin> set n"
  shows "getVarNameAndValue (CHR '' '' # n) = (n, [])"
  using assms cookie_text_facts [OF assms(1)] by (simp add: getVarNameAndValue_def)

definition cookie_params :: "(int \<Rightarrow> string) \<Rightarrow> cookie \<Rightarrow> string list" where
  "cookie_params date_text c =
     (case expires c of None \<Rightarrow> [] | Some t \<Rightarrow> [''Expires='' @ date_text t]) @
     (case ck_maxAge c of None \<Rightarrow> [] | Some a \<Rightarrow> [''Max-Age='' @ nat_string (unat a)]) @
     (if ck_secure c then [''Secure''] else []) @ (if httpOnly c then [''HttpOnly''] else []) @
     (if ck_domain c \<noteq> [] then [''Domain='' @ ck_domain c] else []) @ (if ck_path c \<noteq> [] then [''Path='' @ ck_path c] else []) @
     [''SameSite='' @ (case sameSitePolicy c of SameSite_NONE \<Rightarrow> ''None'' | SameSite_STRICT \<Rightarrow> ''Strict'' | SameSite_LAX \<Rightarrow> ''Lax'')]"

lemma join_terminated: "join_sep s (ws @ [[]]) = concat (map (\<lambda>w. w @ s) ws)"
  by (induction s ws rule: join_sep.induct) auto

lemma set_cookie_text: "toSetCookieString date_text n c = join_sep ''; '' (((n @ ''='' @ ck_value c) # cookie_params date_text c) @ [[]])"
  unfolding join_terminated toSetCookieString_def cookie_params_def same_site_text_def
  by (simp split: option.split same_site.split)

text \<open>What can be sent: the name and the texts of the cookie, and a date that is read back.\<close>

definition cookie_ok :: "(int \<Rightarrow> string) \<Rightarrow> (string \<Rightarrow> int) \<Rightarrow> string \<Rightarrow> cookie \<Rightarrow> bool" where
  "cookie_ok date_text date_read n c \<longleftrightarrow> cookie_text n \<and> CHR ''='' \<notin> set n \<and> cookie_text (ck_value c) \<and> cookie_text (ck_domain c) \<and>
     cookie_text (ck_path c) \<and> (\<forall>t. expires c = Some t \<longrightarrow> cookie_text (date_text t) \<and> date_read (date_text t) = t)"

lemma digits_cookie_text: "cookie_text (nat_string n)"
proof -
  have "is_digit c" if "c \<in> set (nat_string n)" for c using digits_plain(1) [OF that] .
  moreover have "\<not> is_space c \<and> c \<noteq> CHR '';'' \<and> c \<noteq> CHR 0x00" if "is_digit c" for c using that by (auto simp: is_digit_def is_space_def)
  ultimately show ?thesis using nat_string_facts(1) [of n] by (auto simp: cookie_text_def)
qed

lemma named_param:
  assumes "cookie_text v" "cookie_text n" "CHR ''='' \<notin> set n"
  shows "cookie_param date_read (CHR '' '' # n @ CHR ''='' # v) c =
     (let n = to_upper_copy n in
        if n = ''EXPIRES'' then c\<lparr>expires := Some (date_read v)\<rparr>
        else if n = ''MAX-AGE'' then c\<lparr>ck_maxAge := Some (ucast (strtoul (c_str v)))\<rparr>
        else if n = ''SECURE'' then c\<lparr>ck_secure := True\<rparr>
        else if n = ''HTTPONLY'' then c\<lparr>httpOnly := True\<rparr>
        else if n = ''DOMAIN'' then c\<lparr>ck_domain := v\<rparr>
        else if n = ''PATH'' then c\<lparr>ck_path := v\<rparr>
        else if n = ''SAMESITE'' then
          c\<lparr>sameSitePolicy := (if iequals v ''LAX'' then SameSite_LAX else if iequals v ''STRICT'' then SameSite_STRICT else SameSite_NONE)\<rparr>
        else c)"
  using named_value(2) [OF assms(2,3,1)] by (simp add: cookie_param_def)

lemma cookie_names: "cookie_text ''Expires''" "cookie_text ''Max-Age''" "cookie_text ''Domain''" "cookie_text ''Path''" "cookie_text ''SameSite''"
  "cookie_text ''Secure''" "cookie_text ''HttpOnly''" "cookie_text ''None''" "cookie_text ''Strict''" "cookie_text ''Lax''" "cookie_text []"
  by (simp_all add: cookie_text_def is_space_def)

lemma cookie_names_upper: "to_upper_copy ''Expires'' = ''EXPIRES''" "to_upper_copy ''Max-Age'' = ''MAX-AGE''" "to_upper_copy ''Domain'' = ''DOMAIN''"
  "to_upper_copy ''Path'' = ''PATH''" "to_upper_copy ''SameSite'' = ''SAMESITE''" "to_upper_copy ''Secure'' = ''SECURE''" "to_upper_copy ''HttpOnly'' = ''HTTPONLY''"
  "iequals ''None'' ''LAX'' = False" "iequals ''None'' ''STRICT'' = False" "iequals ''Strict'' ''LAX'' = False" "iequals ''Strict'' ''STRICT'' = True" "iequals ''Lax'' ''LAX'' = True"
  by code_simp+

lemma cookie_param_values:
  "cookie_text v \<Longrightarrow> cookie_param dr ('' Expires='' @ v) c = c\<lparr>expires := Some (dr v)\<rparr>"
  "cookie_param dr ('' Max-Age='' @ nat_string (unat a)) c = c\<lparr>ck_maxAge := Some a\<rparr>"
  "cookie_text v \<Longrightarrow> cookie_param dr ('' Domain='' @ v) c = c\<lparr>ck_domain := v\<rparr>"
  "cookie_text v \<Longrightarrow> cookie_param dr ('' Path='' @ v) c = c\<lparr>ck_path := v\<rparr>"
  "cookie_param dr '' Secure'' c = c\<lparr>ck_secure := True\<rparr>"
  "cookie_param dr '' HttpOnly'' c = c\<lparr>httpOnly := True\<rparr>"
  "cookie_param dr '' SameSite=None'' c = c\<lparr>sameSitePolicy := SameSite_NONE\<rparr>"
  "cookie_param dr '' SameSite=Strict'' c = c\<lparr>sameSitePolicy := SameSite_STRICT\<rparr>"
  "cookie_param dr '' SameSite=Lax'' c = c\<lparr>sameSitePolicy := SameSite_LAX\<rparr>"
  "cookie_param dr '' '' c = c"
proof -
  have ne: "CHR ''='' \<notin> set ''Expires''" "CHR ''='' \<notin> set ''Max-Age''" "CHR ''='' \<notin> set ''Domain''" "CHR ''='' \<notin> set ''Path''" "CHR ''='' \<notin> set ''SameSite''"
    by simp_all
  note nm = named_param [OF _ cookie_names(1) ne(1)] named_param [OF _ cookie_names(2) ne(2)] named_param [OF _ cookie_names(3) ne(3)]
    named_param [OF _ cookie_names(4) ne(4)] named_param [OF _ cookie_names(5) ne(5)]
  have eq: "'' Expires='' @ v = CHR '' '' # ''Expires'' @ CHR ''='' # v" "'' Max-Age='' @ v = CHR '' '' # ''Max-Age'' @ CHR ''='' # v"
    "'' Domain='' @ v = CHR '' '' # ''Domain'' @ CHR ''='' # v" "'' Path='' @ v = CHR '' '' # ''Path'' @ CHR ''='' # v"
    "'' SameSite=None'' = CHR '' '' # ''SameSite'' @ CHR ''='' # ''None''" "'' SameSite=Strict'' = CHR '' '' # ''SameSite'' @ CHR ''='' # ''Strict''"
    "'' SameSite=Lax'' = CHR '' '' # ''SameSite'' @ CHR ''='' # ''Lax''" for v by simp_all
  show "cookie_text v \<Longrightarrow> cookie_param dr ('' Expires='' @ v) c = c\<lparr>expires := Some (dr v)\<rparr>"
    "cookie_param dr ('' Max-Age='' @ nat_string (unat a)) c = c\<lparr>ck_maxAge := Some a\<rparr>"
    "cookie_text v \<Longrightarrow> cookie_param dr ('' Domain='' @ v) c = c\<lparr>ck_domain := v\<rparr>"
    "cookie_text v \<Longrightarrow> cookie_param dr ('' Path='' @ v) c = c\<lparr>ck_path := v\<rparr>"
    "cookie_param dr '' SameSite=None'' c = c\<lparr>sameSitePolicy := SameSite_NONE\<rparr>"
    "cookie_param dr '' SameSite=Strict'' c = c\<lparr>sameSitePolicy := SameSite_STRICT\<rparr>"
    "cookie_param dr '' SameSite=Lax'' c = c\<lparr>sameSitePolicy := SameSite_LAX\<rparr>"
    unfolding eq by (simp_all only: nm cookie_names cookie_names_upper digits_cookie_text Let_def) (simp_all add: number_back)
  show "cookie_param dr '' Secure'' c = c\<lparr>ck_secure := True\<rparr>" "cookie_param dr '' HttpOnly'' c = c\<lparr>httpOnly := True\<rparr>" "cookie_param dr '' '' c = c"
    using flag_value [OF cookie_names(6)] flag_value [OF cookie_names(7)] flag_value [OF cookie_names(11)] cookie_names_upper(6,7)
    by (simp_all add: cookie_param_def)
qed

lemma cookie_params_plain:
  assumes "cookie_ok date_text date_read n c"
  shows "list_all (\<lambda>w. CHR '';'' \<notin> set w) (cookie_params date_text c)"
proof -
  have "CHR '';'' \<notin> set (nat_string m)" for m using digits_cookie_text by (simp add: cookie_text_def)
  then show ?thesis using assms unfolding cookie_params_def cookie_ok_def cookie_text_def list_all_append
    by (intro conjI) (simp_all split: option.split same_site.split)
qed


lemma sm_put_last: "\<forall>x \<in> fst ` set m. x < k \<Longrightarrow> sm_put k v m = m @ [(k, v)]"
  by (induction m) (auto split: if_splits)

definition client_ok :: "client_cookies \<Rightarrow> bool" where
  "client_ok m \<longleftrightarrow> sorted_wrt (<) (map fst m) \<and> list_all (\<lambda>(n, v). cookie_text n \<and> CHR ''='' \<notin> set n \<and> cookie_text v) m"

lemma client_pair:
  assumes "cookie_text n" "CHR ''='' \<notin> set n" "cookie_text v"
  shows "client_parseCookie (n @ CHR ''='' # v) m = sm_put n v m" "client_parseCookie ('' '' @ n @ CHR ''='' # v) m = sm_put n v m"
  using named_value [OF assms] by (simp_all add: client_parseCookie_def getVarNameAndValue_def)

text \<open>The cookies a client sends in one header are the cookies the other side reads from it.\<close>

theorem client_cookies_roundtrip:
  assumes "client_ok m"
  shows "parseFromHeaders (client_toString m) [] = m"
proof (cases m)
  case Nil
  have "split_any (\<lambda>c. c = CHR '';'') [] = [[]]" by (rule split_any_none) simp
  then show ?thesis by (simp add: Nil client_toString_def parseFromHeaders_def client_parseCookie_def)
next
  case (Cons p m')
  define w where "w = (\<lambda>(n, v). n @ ''='' @ v :: string)"
  have plain: "\<forall>c \<in> set (w q). c \<noteq> CHR '';''" if "q \<in> set m" for q
    using assms that by (auto simp: client_ok_def list_all_iff cookie_text_def w_def)
  have "list_all (\<lambda>v. \<forall>c \<in> set v. c \<noteq> CHR '';'') (w p # map w m')" using plain Cons by (simp add: list_all_iff) blast
  then have "split_any (\<lambda>c. c = CHR '';'') (join_sep (CHR '';'' # '' '') (w p # map w m')) = w p # map ((@) '' '') (map w m')"
    by (intro split_join) simp_all
  then have "split_any (\<lambda>c. c = CHR '';'') (client_toString m) = w p # map ((@) '' '') (map w m')"
    by (simp add: client_toString_def Cons w_def)
  then have "parseFromHeaders (client_toString m) [] = fold client_parseCookie (map (\<lambda>q. '' '' @ w q) m') (client_parseCookie (w p) [])"
    by (simp add: parseFromHeaders_def o_def)
  also have "client_parseCookie (w p) [] = [p]"
    using assms client_pair(1) [of "fst p" "snd p" "[]"] by (cases p) (simp add: Cons client_ok_def w_def)
  also have "fold client_parseCookie (map (\<lambda>q. '' '' @ w q) ps) acc = acc @ ps" if "client_ok (acc @ ps)" for ps acc
    using that
  proof (induction ps arbitrary: acc)
    case (Cons q ps)
    have q: "cookie_text (fst q)" "CHR ''='' \<notin> set (fst q)" "cookie_text (snd q)" "\<forall>x \<in> fst ` set acc. x < fst q"
      using Cons.prems by (auto simp: client_ok_def list_all_iff sorted_wrt_append)
    have "client_parseCookie ('' '' @ w q) acc = acc @ [q]"
      using client_pair(2) [OF q(1-3), of acc] sm_put_last [OF q(4), of "snd q"] by (cases q) (simp add: w_def)
    then show ?case using Cons.IH [of "acc @ [q]"] Cons.prems by simp
  qed simp
  from this [of "[p]" m'] have "fold client_parseCookie (map (\<lambda>q. '' '' @ w q) m') [p] = m" using assms Cons by simp
  finally show ?thesis .
qed

section \<open>Instances\<close>


theorem client_cookies_roundtrip_witness:
  "parseFromHeaders (client_toString [(''a'', ''1''), (''b'', ''x=y'')]) [] = [(''a'', ''1''), (''b'', ''x=y'')]"
  using client_cookies_roundtrip [of "[(''a'', ''1''), (''b'', ''x=y'')]"]
  by (simp add: client_ok_def cookie_text_def is_space_def less_char_def)

end
