(* ===== verification/Http_Content.thy ===== *)
theory Http_Content
  imports Http_Request
begin

text \<open>
  The body of a message: \<open>Protocol_HTTP/common_content.{h,cpp}\<close>, which receives a body of a known
  length, in chunks or up to the end of the connection, and
  \<open>common_content_chunked_subparser.cpp\<close>, which sends a body in chunks. The object that holds the body
  (a container, URL variables, a JSON reader, a MIME message, or an object of the application) is an
  argument: \<open>content_ops\<close> has its virtual methods and its constructor for each container type. An
  exception of the object leaves \<open>parse\<close>; it is kept in \<open>c_thrown\<close> for the parser that called it.
\<close>

section \<open>Numbers in base sixteen\<close>

definition xdigit_value :: "char \<Rightarrow> nat option" where
  "xdigit_value c =
     (let n = (of_char c :: nat) in
      if 48 \<le> n \<and> n \<le> 57 then Some (n - 48)
      else if 65 \<le> n \<and> n \<le> 70 then Some (n - 55)
      else if 97 \<le> n \<and> n \<le> 102 then Some (n - 87) else None)"

definition hex_value :: "string \<Rightarrow> nat" where
  "hex_value s = foldl (\<lambda>v c. 16 * v + the (xdigit_value c)) 0 s"

text \<open>\<open>strtoul(s, &end, 16)\<close>: the value and the text from \<open>end\<close> on; without digits the whole text is left.\<close>

definition strtoul16 :: "string \<Rightarrow> 64 word \<times> string" where
  "strtoul16 s =
     (let t = dropWhile is_space s;
          neg = (t \<noteq> [] \<and> hd t = CHR ''-'');
          u = (if t \<noteq> [] \<and> (hd t = CHR ''-'' \<or> hd t = CHR ''+'') then tl t else t);
          prefixed = (length u > 2 \<and> hd u = CHR ''0'' \<and> (u ! 1 = CHR ''x'' \<or> u ! 1 = CHR ''X'') \<and> xdigit_value (u ! 2) \<noteq> None);
          w = (if prefixed then drop 2 u else u);
          ds = takeWhile (\<lambda>c. xdigit_value c \<noteq> None) w;
          v = hex_value ds in
      if ds = [] then (0, s)
      else (if v \<ge> 2 ^ 64 then - 1 else if neg then - word_of_nat v else word_of_nat v, drop (length ds) w))"

definition text_toUInt32 :: "string \<Rightarrow> 32 word option" where
  "text_toUInt32 s =
     (case strtoul16 (c_str s) of (v, rest) \<Rightarrow>
        if rest \<noteq> [] \<or> rest = c_str s then None else Some (ucast v))"

section \<open>Sending in chunks\<close>

record 'o chunked =
  ct_pos :: nat
  ct_out :: 'o
  ct_status :: write_status

definition ContentChunkedTransformer_new :: "'o \<Rightarrow> 'o chunked" where
  "ContentChunkedTransformer_new up = \<lparr>ct_pos = 0, ct_out = up, ct_status = ws_init\<rparr>"

definition xdigit :: "nat \<Rightarrow> char" where
  "xdigit n = (if n < 10 then char_of (48 + n) else char_of (55 + n))"

fun hex_string :: "nat \<Rightarrow> string" where
  "hex_string n = (if n < 16 then [xdigit n] else hex_string (n div 16) @ [xdigit (n mod 16)])"

declare hex_string.simps [simp del]

definition chunk_fail :: "'o chunked \<Rightarrow> stream_exn + (nat option \<times> 'o chunked)" where
  "chunk_fail t = (case ws_add (ct_status t) (- 1) of Inl e \<Rightarrow> Inl e | Inr w \<Rightarrow> Inr (None, t\<lparr>ct_status := w\<rparr>))"

definition ContentChunkedTransformer_write ::
  "'o streamable \<Rightarrow> 'o chunked \<Rightarrow> bytes \<Rightarrow> (stream_exn + (nat option \<times> 'o chunked)) option" where
  "ContentChunkedTransformer_write S t buf =
     (let first = (if ct_pos t = 0 then [] else [CR, LF]) in
      if buf = [] then
        (case writeString S (ct_out t) (first @ ''0'' @ [CR, LF, CR, LF]) of
           None \<Rightarrow> None
         | Some (Inl e) \<Rightarrow> Some (Inl e)
         | Some (Inr (ok, up)) \<Rightarrow>
             (if \<not> ok then Some (chunk_fail (t\<lparr>ct_out := up\<rparr>)) else Some (Inr (Some 0, t\<lparr>ct_out := up\<rparr>))))
      else if add64 (length buf) 64 < length buf then
        (case chunk_fail t of
           Inl e \<Rightarrow> Some (Inl e)
         | Inr (r, t') \<Rightarrow>
             (case ws_add (so_status S (ct_out t')) (- 1) of
                Inl e \<Rightarrow> Some (Inl e) | Inr w \<Rightarrow> Some (Inr (r, t'\<lparr>ct_out := so_set_status S (ct_out t') w\<rparr>))))
      else
        (case writeString S (ct_out t) (first @ hex_string (length buf mod 2 ^ 32) @ [CR, LF]) of
           None \<Rightarrow> None
         | Some (Inl e) \<Rightarrow> Some (Inl e)
         | Some (Inr (_, up)) \<Rightarrow>
             (if \<not> succeed (so_status S up) then Some (chunk_fail (t\<lparr>ct_out := up\<rparr>))
              else
                (case writeFullStream S up buf of
                   None \<Rightarrow> None
                 | Some (Inl e) \<Rightarrow> Some (Inl e)
                 | Some (Inr (ok, up')) \<Rightarrow>
                     (if \<not> ok then Some (Inr (None, t\<lparr>ct_out := up'\<rparr>))
                      else Some (Inr (Some (length buf), t\<lparr>ct_out := up', ct_pos := add64 (ct_pos t) (length buf)\<rparr>)))))))"

definition chunked_ops :: "'o streamable \<Rightarrow> 'o chunked streamable" where
  "chunked_ops S = \<lparr>so_write = ContentChunkedTransformer_write S, so_status = ct_status, so_set_status = (\<lambda>t w. t\<lparr>ct_status := w\<rparr>)\<rparr>"

section \<open>The content\<close>

datatype container_type = Container_BIN | Container_MIME | Container_URL | Container_JSON

datatype processing_mode = CHUNK_SIZE | CHUNK_DATA | CHUNK_CRLF | CHUNK_CLOSE | MODE_CONTENT_LENGTH | MODE_CONNECTION_CLOSE

datatype transmission_mode = TM_CHUNKS | TM_CONTENT_LENGTH | TM_CONNECTION_CLOSE

record ('c, 'o) content_ops =
  co_sink :: "'c streamable"
  co_new :: "container_type \<Rightarrow> 'c"
  co_size :: "'c \<Rightarrow> nat"
  co_streamTo :: "'c \<Rightarrow> 'o \<Rightarrow> (stream_exn + (bool \<times> 'o)) option"
  co_streamChunked :: "'c \<Rightarrow> 'o chunked \<Rightarrow> (stream_exn + (bool \<times> 'o chunked)) option"

record 'c http_content = subparser +
  c_object :: 'c
  m_usingInternalOutStream :: bool
  m_transmitionMode :: transmission_mode
  m_currentMode :: processing_mode
  m_containerType :: container_type
  m_securityMaxPostDataSize :: nat
  m_currentContentLengthSize :: nat
  m_securityMaxHttpChunkSize :: nat
  c_thrown :: "parser_exn option"

definition content_init :: "('c, 'o) content_ops \<Rightarrow> subparser \<Rightarrow> 'c http_content" where
  "content_init K sp = subparser.extend sp
     \<lparr>c_object = co_new K Container_BIN, m_usingInternalOutStream = True, m_transmitionMode = TM_CONNECTION_CLOSE,
      m_currentMode = MODE_CONTENT_LENGTH, m_containerType = Container_BIN, m_securityMaxPostDataSize = 17 * 1048576,
      m_currentContentLengthSize = 0, m_securityMaxHttpChunkSize = 16 * 1048576, c_thrown = None\<rparr>"

definition Content_new :: "('c, 'o) content_ops \<Rightarrow> 'c http_content" where
  "Content_new K = content_init K (SubParser_new\<lparr>m_subParserName := []\<rparr>)"

definition setSecurityMaxPostDataSize :: "nat \<Rightarrow> 'c http_content \<Rightarrow> 'c http_content" where
  "setSecurityMaxPostDataSize v c = c\<lparr>m_securityMaxPostDataSize := v\<rparr>"

definition setSecurityMaxHttpChunkSize :: "nat \<Rightarrow> 'c http_content \<Rightarrow> 'c http_content" where
  "setSecurityMaxHttpChunkSize v c = c\<lparr>m_securityMaxHttpChunkSize := v\<rparr>"

text \<open>The parsed buffer appended to the object, and the end of the data told to it; what these return is
  not looked at.\<close>

definition append_parsed :: "('c, 'o) content_ops \<Rightarrow> 'c http_content \<Rightarrow> 'c http_content" where
  "append_parsed K c =
     (case B_appendTo (B_Ref_copyToStreamableObject2 (B_Chunks_copyToStreamableObject2 no_mmap no_mmap_copy (co_sink K)) CO (co_sink K))
         (ref_ops CO) (co_sink K) (getParsedBuffer c) (c_object c) size_max 0 of
        None \<Rightarrow> c\<lparr>c_thrown := Some Upstream_hangs\<rparr>
      | Some (Inl e) \<Rightarrow> c\<lparr>c_thrown := Some (Upstream_exn e)\<rparr>
      | Some (Inr (_, obj)) \<Rightarrow> c\<lparr>c_object := obj\<rparr>)"

definition end_content :: "('c, 'o) content_ops \<Rightarrow> 'c http_content \<Rightarrow> 'c http_content" where
  "end_content K c =
     (case writeEOF (co_sink K) (c_object c) of
        None \<Rightarrow> c\<lparr>c_thrown := Some Upstream_hangs\<rparr>
      | Some (Inl e) \<Rightarrow> c\<lparr>c_thrown := Some (Upstream_exn e)\<rparr>
      | Some (Inr (_, obj)) \<Rightarrow> c\<lparr>c_object := obj\<rparr>)"

definition parseHttpChunkSize :: "'c http_content \<Rightarrow> nat option \<times> 'c http_content" where
  "parseHttpChunkSize c =
     (case B_toString (ref_ops CO) (getParsedBuffer c) size_max 0 of
        None \<Rightarrow> (None, c)
      | Some s \<Rightarrow>
          (case text_toUInt32 s of
             None \<Rightarrow> (None, c)
           | Some parsed \<Rightarrow>
               (let chunkSize = unat parsed in
                if chunkSize > m_securityMaxHttpChunkSize c then (None, c)
                else if m_currentContentLengthSize c > m_securityMaxPostDataSize c then (None, c)
                else if chunkSize > m_securityMaxPostDataSize c - m_currentContentLengthSize c then (None, c)
                else (Some chunkSize, c\<lparr>m_currentContentLengthSize := m_currentContentLengthSize c + chunkSize\<rparr>))))"

definition Content_parse :: "('c, 'o) content_ops \<Rightarrow> 'c http_content \<Rightarrow> ParseResult \<times> 'c http_content" where
  "Content_parse K c =
     (case m_currentMode c of
        CHUNK_CLOSE \<Rightarrow> (GOTO_NEXT_SUBPARSER, end_content K c)
      | CHUNK_SIZE \<Rightarrow>
          (case parseHttpChunkSize c of
             (None, c1) \<Rightarrow> (PR_ERROR, c1)
           | (Some targetChunkSize, c1) \<Rightarrow>
               (if targetChunkSize > 0
                then (GET_MORE_DATA, (setParseDataTargetSize (setParseStrategy c1 SIZE) targetChunkSize)\<lparr>m_currentMode := CHUNK_DATA\<rparr>)
                else (GET_MORE_DATA, (setParseDataTargetSize (setParseDelimiter (setParseStrategy c1 DELIMITER) [CR, LF]) 65536)
                   \<lparr>m_currentMode := CHUNK_CLOSE\<rparr>)))
      | CHUNK_DATA \<Rightarrow>
          (GET_MORE_DATA, append_parsed K ((setParseDataTargetSize (setParseStrategy c SIZE) 2)\<lparr>m_currentMode := CHUNK_CRLF\<rparr>))
      | CHUNK_CRLF \<Rightarrow>
          (GET_MORE_DATA, (setParseDataTargetSize (setParseDelimiter (setParseStrategy c DELIMITER) [CR, LF]) 1024)\<lparr>m_currentMode := CHUNK_SIZE\<rparr>)
      | MODE_CONTENT_LENGTH \<Rightarrow>
          (let c1 = append_parsed K c in
           if getUnparsedDataSize c1 > 0 then (GET_MORE_DATA, c1) else (GOTO_NEXT_SUBPARSER, end_content K c1))
      | MODE_CONNECTION_CLOSE \<Rightarrow>
          (if B_Ref_size CO (getParsedBuffer c) \<noteq> 0 then (GET_MORE_DATA, append_parsed K c)
           else (GOTO_NEXT_SUBPARSER, end_content K c)))"

definition setContainerType :: "('c, 'o) content_ops \<Rightarrow> container_type \<Rightarrow> 'c http_content \<Rightarrow> 'c http_content" where
  "setContainerType K v c =
     (let c1 = c\<lparr>m_containerType := v\<rparr> in if m_usingInternalOutStream c1 then c1\<lparr>c_object := co_new K v\<rparr> else c1)"

definition setStreamableObj :: "('c, 'o) content_ops \<Rightarrow> 'c option \<Rightarrow> 'c http_content \<Rightarrow> 'c http_content" where
  "setStreamableObj K obj c =
     (case obj of
        Some x \<Rightarrow> c\<lparr>m_usingInternalOutStream := False, c_object := x\<rparr>
      | None \<Rightarrow> setContainerType K (m_containerType c) (c\<lparr>m_usingInternalOutStream := True\<rparr>))"

definition setTransmissionMode :: "transmission_mode \<Rightarrow> 'c http_content \<Rightarrow> 'c http_content" where
  "setTransmissionMode v c0 =
     (let c = c0\<lparr>m_transmitionMode := v\<rparr> in
      case v of
        TM_CONNECTION_CLOSE \<Rightarrow>
          (setParseDataTargetSize (setParseStrategy c DIRECT) (m_securityMaxPostDataSize c))\<lparr>m_currentMode := MODE_CONNECTION_CLOSE\<rparr>
      | TM_CHUNKS \<Rightarrow>
          (setParseDataTargetSize (setParseDelimiter (setParseStrategy c DELIMITER) [CR, LF]) 64)\<lparr>m_currentMode := CHUNK_SIZE\<rparr>
      | TM_CONTENT_LENGTH \<Rightarrow> (setParseStrategy c DIRECT)\<lparr>m_currentMode := MODE_CONTENT_LENGTH\<rparr>)"

definition setCurrentSize :: "nat \<Rightarrow> 'c http_content \<Rightarrow> bool \<times> 'c http_content" where
  "setCurrentSize n c =
     (if n > m_securityMaxPostDataSize c
      then (False, setParseDataTargetSize (c\<lparr>m_currentContentLengthSize := 0\<rparr>) 0)
      else (True, setParseDataTargetSize (c\<lparr>m_currentContentLengthSize := n\<rparr>) n))"

definition getStreamSize :: "('c, 'o) content_ops \<Rightarrow> 'c http_content \<Rightarrow> nat" where
  "getStreamSize K c = co_size K (c_object c)"

text \<open>The transformer writes the last chunk when it is destroyed. The result is the status of the object
  that is sent, not that of the stream it is sent to.\<close>

definition Content_streamToUpstream ::
  "'o streamable \<Rightarrow> ('c, 'o) content_ops \<Rightarrow> 'c http_content \<Rightarrow> 'o \<Rightarrow> (stream_exn + (bool \<times> 'o)) option" where
  "Content_streamToUpstream S K c up =
     (let ok = succeed (so_status (co_sink K) (c_object c)) in
      case m_transmitionMode c of
        TM_CHUNKS \<Rightarrow>
          (case co_streamChunked K (c_object c) (ContentChunkedTransformer_new up) of
             None \<Rightarrow> None
           | Some (Inl e) \<Rightarrow> Some (Inl e)
           | Some (Inr (_, t)) \<Rightarrow>
               (case writeEOF (chunked_ops S) t of
                  None \<Rightarrow> None
                | Some (Inl e) \<Rightarrow> Some (Inl e)
                | Some (Inr (_, t')) \<Rightarrow> Some (Inr (ok, ct_out t'))))
      | _ \<Rightarrow>
          (case co_streamTo K (c_object c) up of
             None \<Rightarrow> None | Some (Inl e) \<Rightarrow> Some (Inl e) | Some (Inr (_, up')) \<Rightarrow> Some (Inr (ok, up'))))"

section \<open>Chunk sizes\<close>

lemma xdigit_back: "n < 16 \<Longrightarrow> xdigit_value (xdigit n) = Some n"
  by (auto simp: xdigit_def xdigit_value_def Let_def)

lemma xdigit_plain: "n < 16 \<Longrightarrow> \<not> is_space (xdigit n) \<and> xdigit n \<noteq> CHR ''-'' \<and> xdigit n \<noteq> CHR ''+'' \<and> xdigit n \<noteq> CR \<and> xdigit n \<noteq> CHR 0x00 \<and>
    xdigit n \<noteq> CHR ''x'' \<and> xdigit n \<noteq> CHR ''X''"
proof -
  assume "n < 16"
  then have v: "xdigit_value (xdigit n) = Some n" by (rule xdigit_back)
  have "xdigit_value c = None" if "is_space c \<or> c = CHR ''-'' \<or> c = CHR ''+'' \<or> c = CR \<or> c = CHR 0x00 \<or> c = CHR ''x'' \<or> c = CHR ''X''" for c
    using that by (auto simp: xdigit_value_def is_space_def Let_def)
  then show ?thesis using v by force
qed

lemma hex_string_digits: "c \<in> set (hex_string n) \<Longrightarrow> \<exists>d < 16. c = xdigit d"
proof (induction n rule: hex_string.induct)
  case (1 n)
  have "n mod 16 < 16" by simp
  show ?case
  proof (cases "n < 16")
    case True
    then show ?thesis using "1.prems" by (subst (asm) hex_string.simps) auto
  next
    case False
    then have "c \<in> set (hex_string (n div 16)) \<or> c = xdigit (n mod 16)" using "1.prems" by (subst (asm) hex_string.simps) auto
    then show ?thesis using "1.IH" [OF False] \<open>n mod 16 < 16\<close> by blast
  qed
qed

lemma hex_string_nonempty: "hex_string n \<noteq> []"
  by (subst hex_string.simps) simp

lemma hex_value_string: "hex_value (hex_string n) = n"
proof (induction n rule: hex_string.induct)
  case (1 n)
  show ?case
  proof (cases "n < 16")
    case True
    then show ?thesis by (subst hex_string.simps) (simp add: hex_value_def xdigit_back)
  next
    case False
    have "hex_string n = hex_string (n div 16) @ [xdigit (n mod 16)]" using False by (subst hex_string.simps) simp
    then show ?thesis using "1.IH" [OF False] by (simp add: hex_value_def xdigit_back)
  qed
qed

lemma hex_string_length: "0 < k \<Longrightarrow> n < 16 ^ k \<Longrightarrow> length (hex_string n) \<le> k"
proof (induction k arbitrary: n)
  case (Suc k)
  show ?case
  proof (cases "n < 16")
    case True
    then show ?thesis by (subst hex_string.simps) simp
  next
    case False
    then have "0 < k" using Suc.prems(2) by (cases k) auto
    moreover have "n div 16 < 16 ^ k" using Suc.prems(2) by (simp add: less_mult_imp_div_less mult.commute)
    ultimately have "length (hex_string (n div 16)) \<le> k" by (rule Suc.IH)
    then show ?thesis using False by (subst hex_string.simps) simp
  qed
qed simp

text \<open>A size of up to sixteen digits is read, but cut to 32 bits: \<open>100000005\<close> is read as 5.\<close>

lemma chunk_size_back:
  assumes n64: "n < 2 ^ 64"
  shows "text_toUInt32 (hex_string n) = Some (word_of_nat n)"
proof -
  let ?s = "hex_string n"
  note d = hex_string_digits [of _ n] and p = xdigit_plain
  have c: "c_str ?s = ?s" using d p unfolding c_str_def takeWhile_eq_all_conv by metis
  have dig: "takeWhile (\<lambda>c. xdigit_value c \<noteq> None) ?s = ?s" using d xdigit_back unfolding takeWhile_eq_all_conv by (metis option.distinct(1))
  obtain a r where s: "?s = a # r" using hex_string_nonempty by (cases ?s) auto
  have a: "\<not> is_space a" "a \<noteq> CHR ''-''" "a \<noteq> CHR ''+''" using d [of a] p s by (metis list.set_intros(1))+
  have x: "\<not> (length ?s > 2 \<and> hd ?s = CHR ''0'' \<and> (?s ! 1 = CHR ''x'' \<or> ?s ! 1 = CHR ''X'') \<and> xdigit_value (?s ! 2) \<noteq> None)"
    using d [of "?s ! 1"] p by (metis One_nat_def Suc_lessD nth_mem numeral_2_eq_2)
  have dw: "dropWhile is_space ?s = ?s" "hd ?s \<noteq> CHR ''-''" "hd ?s \<noteq> CHR ''+''" using a by (simp_all add: s)
  have "strtoul16 ?s = (word_of_nat n, [])"
    unfolding strtoul16_def Let_def dw(1) using x dw(2,3) n64 hex_string_nonempty [of n]
    by (simp only: if_False dig hex_value_string simp_thms) simp
  then show ?thesis using hex_string_nonempty [of n] by (simp add: text_toUInt32_def c unsigned_of_nat take_bit_nat_eq_self [OF n64])
qed

lemma chunk_size_cut: "text_toUInt32 (hex_string (2 ^ 32 + 5)) = Some 5"
  using chunk_size_back [of "2 ^ 32 + 5"] by simp

lemma one_line_plain:
  assumes "CR \<notin> set l"
  shows "one_line l"
proof -
  have "l @ [CR] \<noteq> as @ CR # LF # bs" for as bs
  proof (cases bs rule: rev_cases)
    case (snoc bs' x)
    have "l = as @ CR # LF # bs'" if "l @ [CR] = as @ CR # LF # bs"
      using that butlast_append [of l "[CR]"] by (simp add: snoc butlast_append)
    then show ?thesis using assms by auto
  next
    case Nil
    have "CR = LF" if eq: "l @ [CR] = as @ CR # LF # bs" using arg_cong [OF eq, of last] Nil by simp
    then show ?thesis by auto
  qed
  then show ?thesis unfolding one_line_def find_sub_None_iff occurs_at_split by simp
qed

lemma hex_no_CR: "CR \<notin> set (hex_string n)"
proof
  assume "CR \<in> set (hex_string n)"
  then obtain d where "d < 16" "CR = xdigit d" using hex_string_digits by blast
  then show False using xdigit_plain [of d] by simp
qed

section \<open>The object that holds a body\<close>

text \<open>What the content relies on: a sink that keeps what it holds when it is told the end of the data. It need
  not accept the end: a binary container refuses the empty write, and the refusal toggles its status
  back to success.\<close>

locale content_object = sink +
  assumes eof: "ready s n \<Longrightarrow> \<exists>b s'. writeEOF S s = Some (Inr (b, s')) \<and> content s' = content s"
begin

text \<open>A window on the unparsed buffer is appended to the object.\<close>

lemma window_appended:
  assumes "chunks_ok (m_unparsedBuffer c)" "referencedBC (m_parsedBuffer c) \<noteq> None" "referencedOffset (m_parsedBuffer c) = 0"
    "i = min (referencedMaxBytes (m_parsedBuffer c)) (length (sp_text c))" "i < size_max" "ready obj m" "i \<le> m"
  shows "\<exists>obj' r. B_appendTo (B_Ref_copyToStreamableObject2 (B_Chunks_copyToStreamableObject2 no_mmap no_mmap_copy S) CO S) (ref_ops CO) S
      (getParsedBuffer c) obj size_max 0 = Some (Inr (r, obj')) \<and> content obj' = content obj @ take i (sp_text c) \<and> ready obj' (m - i)"
proof -
  let ?r = "getParsedBuffer c" and ?b = "m_unparsedBuffer c"
  let ?C = "B_Chunks_copyToStreamableObject2 no_mmap no_mmap_copy S"
  have r: "referencedBC ?r = Some ?b" "referencedOffset ?r = 0" "referencedMaxBytes ?r = referencedMaxBytes (m_parsedBuffer c)"
    using assms(2,3) by (auto simp: getParsedBuffer_def)
  have sz: "B_Ref_size CO ?r = i" using ra.ref_size [of ?r no_mmap] r assms(1,4) by (simp add: ref_ok_def ref_content_def sp_text_def min.commute)
  have vs: "v_size (ref_ops CO) ?r = i" using sz by (simp add: ref_ops_def)
  show ?thesis
  proof (cases "i = 0")
    case True
    then show ?thesis using assms(6) vs by (simp add: B_appendTo_def overflow_sum_iff size_max_def)
  next
    case False
    have i: "0 + i \<le> length (chunks_content ?b)" using assms(4) by (simp add: sp_text_def)
    obtain obj' where o': "B_appendTo ?C CO S ?b obj i 0 = Some (Inr (Some i, obj'))"
      "content obj' = content obj @ take i (drop 0 (chunks_content ?b))" "ready obj' (m - i)"
      using chunks_appendTo [OF chunks_ok_wf [OF assms(1)] i assms(6) _ assms(7,5), of no_mmap no_mmap_copy] False by blast
    have "B_appendTo (B_Ref_copyToStreamableObject2 ?C CO S) (ref_ops CO) S ?r obj size_max 0 = Some (Inr (Some i, obj'))"
      using False o'(1) r sz vs assms(5) by (simp add: B_appendTo_def [of "B_Ref_copyToStreamableObject2 ?C CO S"] Let_def overflow_sum_iff B_Ref_copyToStreamableObject2_def add64_def size_max_def)
    then show ?thesis using o'(2,3) by (simp add: sp_text_def)
  qed
qed

end

interpretation chunks_obj: content_object "B_sink CO" chunks_content "\<lambda>c n. chunks_ready c n \<and> chunks_ok c"
proof
  fix c :: sp_buf and n
  assume r: "chunks_ready c n \<and> chunks_ok c"
  have "B_append CO c [] = (None, c)" by (simp add: B_append_def Let_def)
  moreover have "ws_add (m_writeStatus c) (- 1) = Inr ((m_writeStatus c)\<lparr>succeed := False, finished := True, writeError := - 1\<rparr>)"
    by (simp add: ws_add_def)
  ultimately show "\<exists>b s'. writeEOF (B_sink CO) c = Some (Inr (b, s')) \<and> chunks_content s' = chunks_content c"
    by (auto simp: writeEOF_def B_sink_def B_write_def fail_flag_def)
qed

section \<open>A body of a known length\<close>

definition length_stage :: "'c http_content \<Rightarrow> nat \<Rightarrow> bool" where
  "length_stage c n \<longleftrightarrow> sp_ok c \<and> sp_text c = [] \<and> m_parseMode c = DIRECT \<and> m_currentMode c = MODE_CONTENT_LENGTH \<and>
     m_maxSize (m_unparsedBuffer c) = n \<and> 262144 \<le> m_maxChunks (m_unparsedBuffer c) \<and> c_thrown c = None"

lemma append_parsed_keeps [simp]:
  "m_unparsedBuffer (append_parsed K c) = m_unparsedBuffer c" "m_parseMode (append_parsed K c) = m_parseMode c"
  "m_currentMode (append_parsed K c) = m_currentMode c" "m_parseDelimiter (append_parsed K c) = m_parseDelimiter c"
  "m_streamEnded (append_parsed K c) = m_streamEnded c" "m_currentContentLengthSize (append_parsed K c) = m_currentContentLengthSize c"
  "m_securityMaxHttpChunkSize (append_parsed K c) = m_securityMaxHttpChunkSize c" "m_securityMaxPostDataSize (append_parsed K c) = m_securityMaxPostDataSize c"
  "m_transmitionMode (append_parsed K c) = m_transmitionMode c" "m_containerType (append_parsed K c) = m_containerType c"
  "m_usingInternalOutStream (append_parsed K c) = m_usingInternalOutStream c"
  by (auto simp: append_parsed_def split: option.split sum.split)

lemma end_content_keeps [simp]:
  "m_unparsedBuffer (end_content K c) = m_unparsedBuffer c" "m_parseMode (end_content K c) = m_parseMode c"
  "m_currentMode (end_content K c) = m_currentMode c" "m_parseDelimiter (end_content K c) = m_parseDelimiter c"
  "m_streamEnded (end_content K c) = m_streamEnded c" "m_containerType (end_content K c) = m_containerType c"
  by (auto simp: end_content_def split: option.split sum.split)

lemma left_after_clear:
  assumes "chunks_ok c" "has_room c 0"
  shows "sp_ok (s\<lparr>m_unparsedBuffer := (snd (B_clear CO c))\<lparr>m_maxSize := m_maxSize c - k\<rparr>\<rparr>)"
    "sp_text (s\<lparr>m_unparsedBuffer := (snd (B_clear CO c))\<lparr>m_maxSize := m_maxSize c - k\<rparr>\<rparr>) = []"
proof -
  note cl = cleared_buffer [OF assms(1)]
  have "chunks_ok ((snd (B_clear CO c))\<lparr>m_maxSize := m\<rparr>)" "chunks_content ((snd (B_clear CO c))\<lparr>m_maxSize := m\<rparr>) = []" for m
    using cl(1,2) by (auto simp: chunks_ok_def chunks_wf_def chunks_content_def)
  moreover have "has_room ((snd (B_clear CO c))\<lparr>m_maxSize := m_maxSize c - k\<rparr>) 0"
    unfolding has_room_def calculation(2) using assms(2) cl(3) by (auto simp: has_room_def same_limits_def)
  ultimately show "sp_ok (s\<lparr>m_unparsedBuffer := (snd (B_clear CO c))\<lparr>m_maxSize := m_maxSize c - k\<rparr>\<rparr>)"
    "sp_text (s\<lparr>m_unparsedBuffer := (snd (B_clear CO c))\<lparr>m_maxSize := m_maxSize c - k\<rparr>\<rparr>) = []"
    by (simp_all add: sp_ok_def sp_text_def)
qed

context content_object
begin

lemma append_parsed_whole:
  assumes "co_sink K = S" "chunks_ok (m_unparsedBuffer s)" "referencedBC (m_parsedBuffer s) \<noteq> None" "referencedOffset (m_parsedBuffer s) = 0"
    "referencedMaxBytes (m_parsedBuffer s) = size_max" "length (sp_text s) < size_max" "ready (c_object s) m" "length (sp_text s) \<le> m"
  shows "\<exists>obj'. append_parsed K s = s\<lparr>c_object := obj'\<rparr> \<and> content obj' = content (c_object s) @ sp_text s \<and> ready obj' (m - length (sp_text s))"
proof -
  have "min (referencedMaxBytes (m_parsedBuffer s)) (length (sp_text s)) = length (sp_text s)" using assms(5,6) by simp
  from window_appended [OF assms(2,3,4) this [symmetric] assms(6,7,8)]
  obtain obj' r where "B_appendTo (B_Ref_copyToStreamableObject2 (B_Chunks_copyToStreamableObject2 no_mmap no_mmap_copy S) CO S) (ref_ops CO) S
      (getParsedBuffer s) (c_object s) size_max 0 = Some (Inr (r, obj'))" "content obj' = content (c_object s) @ sp_text s"
    "ready obj' (m - length (sp_text s))" by auto
  then show ?thesis using assms(1) by (intro exI [of _ obj']) (simp add: append_parsed_def)
qed

lemma length_step:
  assumes "co_sink K = S" "length_stage c n" "data \<noteq> []" "k = min (length data) n" "0 < n" "k \<le> 262144" "ready (c_object c) m" "k \<le> m"
  shows "\<exists>c'. writeIntoSubParser (Content_parse K) u c data = Inr (Some k, c') \<and> content (c_object c') = content (c_object c) @ take k data \<and>
    m_containerType c' = m_containerType c \<and>
    (if k < n then m_parseStatus c' = GET_MORE_DATA \<and> length_stage c' (n - k) \<and> ready (c_object c') (m - k)
     else m_parseStatus c' = GOTO_NEXT_SUBPARSER \<and> c_thrown c' = None)"
proof -
  let ?P = "Content_parse K"
  have st: "sp_ok c" "sp_text c = []" "m_parseMode c = DIRECT" "m_currentMode c = MODE_CONTENT_LENGTH" "m_maxSize (m_unparsedBuffer c) = n"
    "262144 \<le> m_maxChunks (m_unparsedBuffer c)" "c_thrown c = None" using assms(2) by (auto simp: length_stage_def)
  have k0: "0 < k" using assms(3-5) by simp
  have keep: "m_unparsedBuffer (snd (?P (ref_unparsed (c\<lparr>m_unparsedBuffer := b\<rparr>) 0 size_max))) = b" for b
    using st(4) by (simp add: Content_parse_def Let_def ref_unparsed_def)
  obtain b where b: "chunks_ok b" "chunks_content b = take k data" "same_limits (m_unparsedBuffer c) b" "has_room b 0"
    and w: "writeIntoSubParser ?P u c data = Inr (Some k, (run_parse ?P (ref_unparsed (c\<lparr>m_unparsedBuffer := b\<rparr>) 0 size_max))
      \<lparr>m_unparsedBuffer := (snd (B_clear CO b))\<lparr>m_maxSize := m_maxSize b - k\<rparr>\<rparr>)"
    using direct_write [where parse = ?P and u = u, OF st(1-3) assms(3) _ k0 _ keep] assms(4,6) st(5,6) by auto
  let ?s = "ref_unparsed (c\<lparr>m_unparsedBuffer := b\<rparr>) 0 size_max"
  have lb: "length (chunks_content b) = k" using b(2) assms(4) by simp
  obtain obj where o1: "append_parsed K ?s = ?s\<lparr>c_object := obj\<rparr>" "content obj = content (c_object c) @ take k data" "ready obj (m - k)"
    using append_parsed_whole [OF assms(1), of ?s m] assms(6,7,8) lb b(1,2)
    by (auto simp: ref_unparsed_def B_Ref_reference_def sp_text_def size_max_def)
  have mb: "m_maxSize b = n" "m_maxChunks b = m_maxChunks (m_unparsedBuffer c)" using b(3) st(5) by (auto simp: same_limits_def)
  have left: "getUnparsedDataSize (?s\<lparr>c_object := obj\<rparr>) = n - k"
    using sp_size_left [of "?s\<lparr>c_object := obj\<rparr>"] b(1,4) mb lb by (simp add: getUnparsedDataSize_def sp_ok_def sp_text_def)
  show ?thesis
  proof (cases "k < n")
    case True
    have "?P ?s = (GET_MORE_DATA, ?s\<lparr>c_object := obj\<rparr>)"
      using st(4) o1(1) left True by (simp add: Content_parse_def Let_def ref_unparsed_def)
    then show ?thesis using w o1(2,3) True st mb left_after_clear [OF b(1,4), where k = k and s = "setParseResult (?s\<lparr>c_object := obj\<rparr>) GET_MORE_DATA"] cleared_buffer(3) [OF b(1)]
      by (simp add: run_parse_def length_stage_def setParseResult_def same_limits_def ref_unparsed_def)
  next
    case False
    obtain fl obj' where e: "writeEOF S obj = Some (Inr (fl, obj'))" "content obj' = content obj" using eof [OF o1(3)] by blast
    have "?P ?s = (GOTO_NEXT_SUBPARSER, ?s\<lparr>c_object := obj'\<rparr>)"
      using st(4) o1(1) left False e(1) assms(1) by (simp add: Content_parse_def Let_def end_content_def ref_unparsed_def)
    then show ?thesis using w o1(2) False st(7) e(2) by (simp add: run_parse_def setParseResult_def ref_unparsed_def)
  qed
qed

end

section \<open>A body in chunks\<close>

definition body_write :: "('c, 'o) content_ops \<Rightarrow> (nat \<Rightarrow> bytes) \<Rightarrow> 'c http_content \<Rightarrow> bytes \<Rightarrow> parser_exn + (nat option \<times> 'c http_content)" where
  "body_write K u c d =
     (case writeIntoSubParser (Content_parse K) u (setParseResult c GET_MORE_DATA) d of
        Inl e \<Rightarrow> Inl (Sub_exn e)
      | Inr (n, c') \<Rightarrow> (case c_thrown c' of Some e \<Rightarrow> Inl e | None \<Rightarrow> Inr (n, c')))"

lemma cleared_with_limit:
  assumes "chunks_ok b" "has_room b 0" "N < two64" "m_unparsedBuffer s = b\<lparr>m_maxSize := N\<rparr>"
  shows "sp_ok (clear_unparsed s)" "sp_text (clear_unparsed s) = []" "m_maxSize (m_unparsedBuffer (clear_unparsed s)) = N"
    "m_maxChunks (m_unparsedBuffer (clear_unparsed s)) = m_maxChunks b"
proof -
  have "chunks_ok (b\<lparr>m_maxSize := N\<rparr>)" using assms(1) by (auto simp: chunks_ok_def chunks_wf_def chunks_content_def)
  note cl = cleared_buffer [OF this]
  then show "m_maxSize (m_unparsedBuffer (clear_unparsed s)) = N" "m_maxChunks (m_unparsedBuffer (clear_unparsed s)) = m_maxChunks b"
    "sp_text (clear_unparsed s) = []"
    by (simp_all add: clear_unparsed_def assms(4) same_limits_def sp_text_def)
  then show "sp_ok (clear_unparsed s)" using cl assms(2,3)
    by (auto simp: clear_unparsed_def assms(4) same_limits_def sp_ok_def has_room_def)
qed

definition chunk_at :: "'c http_content \<Rightarrow> processing_mode \<Rightarrow> nat \<Rightarrow> bool" where
  "chunk_at c mode N \<longleftrightarrow> sp_ok c \<and> sp_text c = [] \<and> \<not> m_streamEnded c \<and> m_parseDelimiter c = [CR, LF] \<and> m_currentMode c = mode \<and>
     m_parseMode c = (if mode = CHUNK_SIZE \<or> mode = CHUNK_CLOSE then DELIMITER else SIZE) \<and> m_maxSize (m_unparsedBuffer c) = N \<and>
     m_maxChunks (m_unparsedBuffer c) = 262144 \<and> c_thrown c = None"

lemma chunk_at_status [simp]: "chunk_at (setParseResult c r) mode N = chunk_at c mode N"
  by (simp add: chunk_at_def setParseResult_def sp_ok_def sp_text_def)

text \<open>Whether a chunk of a size fits into the limits.\<close>

definition chunk_fits :: "'c http_content \<Rightarrow> nat \<Rightarrow> bool" where
  "chunk_fits c n \<longleftrightarrow> n \<le> m_securityMaxHttpChunkSize c \<and> m_currentContentLengthSize c + n \<le> m_securityMaxPostDataSize c"

lemma parse_delimiter [simp]: "m_parseDelimiter s = [CR, LF] \<Longrightarrow> m_parseDelimiter (snd (Content_parse K s)) = [CR, LF]"
  by (auto simp: Content_parse_def parseHttpChunkSize_def setParseStrategy_def setParseDelimiter_def setParseDataTargetSize_def Let_def
      split: processing_mode.split option.split)

text \<open>A line of a chunked body: the buffer that is left after it, for each way the limits are set anew.\<close>

lemma chunk_line_write:
  assumes "chunk_at c mode N" "mode = CHUNK_SIZE \<or> mode = CHUNK_CLOSE" "N \<le> 65536" "CR \<notin> set l" "length l + 2 \<le> N"
    and parse: "\<And>s. parsed_text s = l \<Longrightarrow> subparser.more s = subparser.more c \<Longrightarrow> Content_parse K s = (r, G s)"
  shows "\<exists>b. chunks_ok b \<and> has_room b 0 \<and> m_maxChunks b = 262144 \<and>
     writeIntoSubParser (Content_parse K) u (setParseResult c GET_MORE_DATA) (l @ CR # LF # rest) =
       Inr (Some (length l + 2), clear_unparsed (setParseResult (G (ref_unparsed (setParseResult c GET_MORE_DATA\<lparr>m_unparsedBuffer := b\<rparr>) 0 (length l))) r))"
proof -
  let ?c = "setParseResult c GET_MORE_DATA" and ?P = "Content_parse K"
  have at: "sp_text ?c = []" "m_parseDelimiter ?c = [CR, LF]" "m_maxChunks (m_unparsedBuffer ?c) = 262144" "line_stage ?c N"
    using assms(1,2,3) by (auto simp: chunk_at_def line_stage_def setParseResult_def sp_ok_def sp_text_def)
  have keep: "m_parseDelimiter (snd (?P (ref_unparsed (?c\<lparr>m_unparsedBuffer := b\<rparr>) 0 (length l)))) = [CR, LF]" for b
    using at(2) by simp
  from line_step [where parse = "Content_parse K" and d = "l @ CR # LF # rest" and rest = rest and u = u, OF at(4) one_line_plain [OF assms(4)] assms(5) _ _ keep]
  obtain b where b: "chunks_ok b" "has_room b 0" "same_limits (m_unparsedBuffer ?c) b"
    "parsed_text (ref_unparsed (?c\<lparr>m_unparsedBuffer := b\<rparr>) 0 (length l)) = l"
    and w: "writeIntoSubParser ?P u ?c (l @ CR # LF # rest) = Inr (Some (length l + 2),
      clear_unparsed (run_parse ?P (ref_unparsed (?c\<lparr>m_unparsedBuffer := b\<rparr>) 0 (length l))))"
    using at(1) by (auto simp: Let_def)
  have "subparser.more (ref_unparsed (?c\<lparr>m_unparsedBuffer := b\<rparr>) 0 (length l)) = subparser.more c" by (simp add: setParseResult_def)
  note parse [OF b(4) this]
  then show ?thesis using b(1,2,3) w at(3) by (intro exI [of _ b]) (simp add: run_parse_def Let_def same_limits_def)
qed

lemma chunk_line:
  assumes "chunk_at c CHUNK_SIZE N" "N \<le> 65536" "n \<le> 262144" "chunk_fits c n" "64 \<le> N"
  shows "\<exists>c'. body_write K u c (hex_string n @ CR # LF # rest) = Inr (Some (length (hex_string n) + 2), c') \<and>
    m_parseStatus c' = GET_MORE_DATA \<and> c_object c' = c_object c \<and> m_securityMaxHttpChunkSize c' = m_securityMaxHttpChunkSize c \<and>
    m_securityMaxPostDataSize c' = m_securityMaxPostDataSize c \<and> m_currentContentLengthSize c' = m_currentContentLengthSize c + n \<and>
    (if n > 0 then chunk_at c' CHUNK_DATA n else chunk_at c' CHUNK_CLOSE 65536)"
proof -
  let ?l = "hex_string n"
  define G where "G = (\<lambda>s :: 'a http_content. let s1 = s\<lparr>m_currentContentLengthSize := m_currentContentLengthSize s + n\<rparr> in
    if n > 0 then (setParseDataTargetSize (setParseStrategy s1 SIZE) n)\<lparr>m_currentMode := CHUNK_DATA\<rparr>
    else (setParseDataTargetSize (setParseDelimiter (setParseStrategy s1 DELIMITER) [CR, LF]) 65536)\<lparr>m_currentMode := CHUNK_CLOSE\<rparr>)"
  have len: "length ?l + 2 \<le> N" using hex_string_length [of 8 n] assms(3,5) by simp
  have un: "unat (word_of_nat n :: 32 word) = n" using assms(3) by (simp add: unsigned_of_nat take_bit_nat_def)
  have parse: "Content_parse K s = (GET_MORE_DATA, G s)" if s: "parsed_text s = ?l" "subparser.more s = subparser.more c" for s
  proof -
    have "B_toString (ref_ops CO) (getParsedBuffer s) size_max 0 = Some ?l"
      using s(1) hex_string_nonempty [of n] by (auto simp: parsed_text_def B_toStringEx_def split: option.splits)
    moreover have "m_currentMode s = CHUNK_SIZE" "chunk_fits s n"
      using s(2) assms(1,4) by (cases s; cases c; simp add: chunk_at_def chunk_fits_def)+
    moreover have "\<not> m_securityMaxPostDataSize s - m_currentContentLengthSize s < n" using calculation(3) unfolding chunk_fits_def by linarith
    ultimately show ?thesis using chunk_size_back [of n] assms(3) un
      by (simp add: Content_parse_def parseHttpChunkSize_def chunk_fits_def G_def Let_def)
  qed
  obtain b where b: "chunks_ok b" "has_room b 0" "m_maxChunks b = 262144"
    and w: "writeIntoSubParser (Content_parse K) u (setParseResult c GET_MORE_DATA) (?l @ CR # LF # rest) =
      Inr (Some (length ?l + 2), clear_unparsed (setParseResult (G (ref_unparsed (setParseResult c GET_MORE_DATA\<lparr>m_unparsedBuffer := b\<rparr>) 0 (length ?l))) GET_MORE_DATA))"
    using chunk_line_write [OF assms(1) _ assms(2) hex_no_CR len parse, of u rest] by blast
  let ?s = "setParseResult (G (ref_unparsed (setParseResult c GET_MORE_DATA\<lparr>m_unparsedBuffer := b\<rparr>) 0 (length ?l))) GET_MORE_DATA"
  let ?M = "if n > 0 then n else 65536"
  have buf: "m_unparsedBuffer ?s = b\<lparr>m_maxSize := ?M\<rparr>"
    by (simp add: G_def Let_def setParseDataTargetSize_def setParseStrategy_def setParseDelimiter_def setParseResult_def ref_unparsed_def B_setMaxSize_def)
  note cl = cleared_with_limit [OF b(1,2) _ buf]
  define c' where "c' = clear_unparsed ?s"
  have f: "c_thrown c' = None" "m_parseStatus c' = GET_MORE_DATA" "c_object c' = c_object c" "m_securityMaxHttpChunkSize c' = m_securityMaxHttpChunkSize c"
    "m_securityMaxPostDataSize c' = m_securityMaxPostDataSize c" "m_currentContentLengthSize c' = m_currentContentLengthSize c + n"
    "\<not> m_streamEnded c'" "m_parseDelimiter c' = [CR, LF]" "m_currentMode c' = (if n > 0 then CHUNK_DATA else CHUNK_CLOSE)"
    "m_parseMode c' = (if n > 0 then SIZE else DELIMITER)"
    using assms(1) by (simp_all add: c'_def G_def Let_def clear_unparsed_def setParseDataTargetSize_def setParseStrategy_def setParseDelimiter_def
        setParseResult_def ref_unparsed_def chunk_at_def)
  have "if n > 0 then chunk_at c' CHUNK_DATA n else chunk_at c' CHUNK_CLOSE 65536"
    using cl assms(3) b(3) f unfolding c'_def [symmetric] by (simp add: chunk_at_def)
  then show ?thesis using w f unfolding c'_def [symmetric] by (intro exI [of _ c']) (simp add: body_write_def)
qed

text \<open>A write that fills the unparsed buffer up to the size asked for.\<close>

lemma size_write:
  assumes "chunk_at c mode N" "mode = CHUNK_DATA \<or> mode = CHUNK_CRLF" "length d = N" "d \<noteq> []" "N \<le> 262144"
  shows "\<exists>b. chunks_ok b \<and> has_room b 0 \<and> m_maxChunks b = 262144 \<and> chunks_content b = d \<and>
     writeIntoSubParser (Content_parse K) u (setParseResult c GET_MORE_DATA) (d @ rest) =
       Inr (Some N, clear_unparsed (run_parse (Content_parse K) (ref_unparsed (setParseResult c GET_MORE_DATA\<lparr>m_unparsedBuffer := b\<rparr>) 0 size_max)))"
proof -
  let ?c = "setParseResult c GET_MORE_DATA"
  have at: "sp_ok ?c" "sp_text ?c = []" "m_parseMode ?c = SIZE" "m_maxSize (m_unparsedBuffer ?c) = N" "m_maxChunks (m_unparsedBuffer ?c) = 262144" "\<not> m_streamEnded ?c"
    using assms(1,2) by (auto simp: chunk_at_def setParseResult_def sp_ok_def sp_text_def)
  have "\<exists>b. chunks_ok b \<and> has_room b 0 \<and> chunks_content b = take N (sp_text ?c @ d @ rest) \<and> same_limits (m_unparsedBuffer ?c) b \<and>
      parseBySize (Content_parse K) ?c (d @ rest) = (Some (min (length (d @ rest)) (N - length (sp_text ?c))),
      if N \<le> length (sp_text ?c) + length (d @ rest)
      then clear_unparsed (run_parse (Content_parse K) (ref_unparsed (?c\<lparr>m_unparsedBuffer := b\<rparr>) 0 size_max))
      else ?c\<lparr>m_unparsedBuffer := b\<rparr>)"
    using at assms(3,5) assms(4) length_greater_0_conv [of d] by (intro size_step) auto
  then show ?thesis using at assms(3,4) by (auto simp: same_limits_def writeIntoSubParser_def)
qed

lemma chunk_crlf:
  assumes "chunk_at c CHUNK_CRLF 2"
  shows "\<exists>c'. body_write K u c (CR # LF # rest) = Inr (Some 2, c') \<and> m_parseStatus c' = GET_MORE_DATA \<and> c_object c' = c_object c \<and>
    m_securityMaxHttpChunkSize c' = m_securityMaxHttpChunkSize c \<and> m_securityMaxPostDataSize c' = m_securityMaxPostDataSize c \<and>
    m_currentContentLengthSize c' = m_currentContentLengthSize c \<and> chunk_at c' CHUNK_SIZE 1024"
proof -
  obtain b where b: "chunks_ok b" "has_room b 0" "m_maxChunks b = 262144"
    and w: "writeIntoSubParser (Content_parse K) u (setParseResult c GET_MORE_DATA) ([CR, LF] @ rest) =
       Inr (Some 2, clear_unparsed (run_parse (Content_parse K) (ref_unparsed (setParseResult c GET_MORE_DATA\<lparr>m_unparsedBuffer := b\<rparr>) 0 size_max)))"
    using size_write [OF assms, of "[CR, LF]" K u rest] by auto
  let ?r = "ref_unparsed (setParseResult c GET_MORE_DATA\<lparr>m_unparsedBuffer := b\<rparr>) 0 size_max"
  let ?s = "setParseResult ((setParseDataTargetSize (setParseDelimiter (setParseStrategy ?r DELIMITER) [CR, LF]) 1024)\<lparr>m_currentMode := CHUNK_SIZE\<rparr>) GET_MORE_DATA"
  have "run_parse (Content_parse K) ?r = ?s"
    using assms by (simp add: run_parse_def Content_parse_def chunk_at_def setParseResult_def ref_unparsed_def)
  moreover have buf: "m_unparsedBuffer ?s = b\<lparr>m_maxSize := 1024\<rparr>"
    by (simp add: setParseDataTargetSize_def setParseStrategy_def setParseDelimiter_def setParseResult_def ref_unparsed_def B_setMaxSize_def)
  note cl = cleared_with_limit [OF b(1,2) _ buf]
  have "chunk_at (clear_unparsed ?s) CHUNK_SIZE 1024"
    using cl assms b(3)
    by (auto simp: chunk_at_def clear_unparsed_def setParseDataTargetSize_def setParseStrategy_def setParseDelimiter_def setParseResult_def ref_unparsed_def)
  ultimately show ?thesis using w assms
    by (intro exI [of _ "clear_unparsed ?s"]) (simp add: body_write_def clear_unparsed_def setParseDataTargetSize_def
        setParseStrategy_def setParseDelimiter_def setParseResult_def ref_unparsed_def chunk_at_def)
qed

context content_object
begin

lemma chunk_data:
  assumes "co_sink K = S" "chunk_at c CHUNK_DATA (length d)" "d \<noteq> []" "length d \<le> 262144" "ready (c_object c) m" "length d \<le> m"
  shows "\<exists>c'. body_write K u c (d @ rest) = Inr (Some (length d), c') \<and> m_parseStatus c' = GET_MORE_DATA \<and>
    content (c_object c') = content (c_object c) @ d \<and> ready (c_object c') (m - length d) \<and>
    m_securityMaxHttpChunkSize c' = m_securityMaxHttpChunkSize c \<and> m_securityMaxPostDataSize c' = m_securityMaxPostDataSize c \<and>
    m_currentContentLengthSize c' = m_currentContentLengthSize c \<and> chunk_at c' CHUNK_CRLF 2"
proof -
  obtain b where b: "chunks_ok b" "has_room b 0" "m_maxChunks b = 262144" "chunks_content b = d"
    and w: "writeIntoSubParser (Content_parse K) u (setParseResult c GET_MORE_DATA) (d @ rest) =
       Inr (Some (length d), clear_unparsed (run_parse (Content_parse K) (ref_unparsed (setParseResult c GET_MORE_DATA\<lparr>m_unparsedBuffer := b\<rparr>) 0 size_max)))"
    using size_write [OF assms(2) _ refl assms(3,4), of K u rest] by auto
  let ?r = "ref_unparsed (setParseResult c GET_MORE_DATA\<lparr>m_unparsedBuffer := b\<rparr>) 0 size_max"
  let ?q = "(setParseDataTargetSize (setParseStrategy ?r SIZE) 2)\<lparr>m_currentMode := CHUNK_CRLF\<rparr>"
  have buf: "m_unparsedBuffer ?q = b\<lparr>m_maxSize := 2\<rparr>" "c_object ?q = c_object c"
    by (simp_all add: setParseDataTargetSize_def setParseStrategy_def setParseResult_def ref_unparsed_def B_setMaxSize_def)
  have cb: "chunks_ok (m_unparsedBuffer ?q)" "sp_text ?q = d"
    unfolding buf using b(1,4) by (auto simp: chunks_ok_def chunks_wf_def chunks_content_def sp_text_def buf)
  obtain obj where o1: "append_parsed K ?q = ?q\<lparr>c_object := obj\<rparr>" "content obj = content (c_object c) @ d" "ready obj (m - length d)"
    using append_parsed_whole [OF assms(1) cb(1), of m] assms(4,5,6) cb(2) buf(2)
    by (auto simp: setParseDataTargetSize_def setParseStrategy_def setParseResult_def ref_unparsed_def B_Ref_reference_def size_max_def)
  let ?s = "setParseResult (?q\<lparr>c_object := obj\<rparr>) GET_MORE_DATA"
  have "run_parse (Content_parse K) ?r = ?s"
    using assms(2) o1(1) by (simp add: run_parse_def Content_parse_def chunk_at_def setParseResult_def ref_unparsed_def)
  moreover have bs: "m_unparsedBuffer ?s = b\<lparr>m_maxSize := 2\<rparr>" using buf by (simp add: setParseResult_def)
  note cl = cleared_with_limit [OF b(1,2) _ bs]
  have "chunk_at (clear_unparsed ?s) CHUNK_CRLF 2"
    using cl assms(2) b(3)
    by (auto simp: chunk_at_def clear_unparsed_def setParseDataTargetSize_def setParseStrategy_def setParseResult_def ref_unparsed_def)
  ultimately show ?thesis using w assms(2) o1(2,3)
    by (intro exI [of _ "clear_unparsed ?s"]) (simp add: body_write_def clear_unparsed_def setParseDataTargetSize_def
        setParseStrategy_def setParseResult_def ref_unparsed_def chunk_at_def)
qed

lemma chunk_close:
  assumes "co_sink K = S" "chunk_at c CHUNK_CLOSE 65536" "ready (c_object c) m"
  shows "\<exists>c'. body_write K u c (CR # LF # rest) = Inr (Some 2, c') \<and> m_parseStatus c' = GOTO_NEXT_SUBPARSER \<and>
    content (c_object c') = content (c_object c)"
proof -
  obtain fl obj where e: "writeEOF S (c_object c) = Some (Inr (fl, obj))" "content obj = content (c_object c)" using eof [OF assms(3)] by blast
  have parse: "Content_parse K s = (GOTO_NEXT_SUBPARSER, s\<lparr>c_object := obj\<rparr>)" if "subparser.more s = subparser.more c" for s
  proof -
    have "m_currentMode s = CHUNK_CLOSE" "c_object s = c_object c" using that assms(2) by (cases s; cases c; simp add: chunk_at_def)+
    then show ?thesis using e(1) assms(1) by (simp add: Content_parse_def end_content_def)
  qed
  from chunk_line_write [where l = "[]" and G = "\<lambda>s. s\<lparr>c_object := obj\<rparr>" and r = GOTO_NEXT_SUBPARSER and K = K and u = u and rest = rest, OF assms(2)]
  show ?thesis using parse e(2) assms(2)
    by (auto simp: Let_def body_write_def clear_unparsed_def setParseResult_def ref_unparsed_def chunk_at_def)
qed

end

section \<open>A whole body in chunks\<close>

definition chunk_text :: "bytes \<Rightarrow> bytes" where
  "chunk_text p = hex_string (length p) @ [CR, LF] @ p @ [CR, LF]"

definition chunked_text :: "bytes list \<Rightarrow> bytes" where
  "chunked_text ps = concat (map chunk_text ps) @ ''0'' @ [CR, LF, CR, LF]"

lemma chunked_text_simps:
  "chunked_text [] @ rest = hex_string 0 @ CR # LF # CR # LF # rest"
  "chunked_text (p # ps) @ rest = hex_string (length p) @ CR # LF # p @ CR # LF # chunked_text ps @ rest"
  by (simp_all add: chunked_text_def chunk_text_def hex_string.simps [of 0] xdigit_def char_of_def bit_0 bit_Suc)

text \<open>One write of the driver, whose rest is written next.\<close>

lemma stage_step:
  assumes "W s (d @ r) = Inr (Some (length d), s')" "st s' = GET_MORE_DATA" "r \<noteq> []" "stage_run W st n s' r q s''"
  shows "stage_run W st (Suc n) s (d @ r) q s''"
  using stage_more [of W s "d @ r" "length d" s' st n q s''] assms by simp

context content_object
begin

lemma chunks_received:
  assumes "co_sink K = S" "chunk_at c CHUNK_SIZE N" "64 \<le> N" "N \<le> 65536" "\<forall>p \<in> set ps. p \<noteq> [] \<and> length p \<le> 262144 \<and> length p \<le> m_securityMaxHttpChunkSize c"
    "m_currentContentLengthSize c + length (concat ps) \<le> m_securityMaxPostDataSize c" "ready (c_object c) m" "length (concat ps) \<le> m"
  shows "\<exists>c'. stage_run (body_write K u) m_parseStatus (3 * length ps + 1) c (chunked_text ps @ rest) rest c' \<and>
    content (c_object c') = content (c_object c) @ concat ps"
  using assms(2-8)
proof (induction ps arbitrary: c N m)
  case Nil
  have fits: "chunk_fits c 0" using Nil.prems(5) by (simp add: chunk_fits_def)
  obtain c1 where c1: "body_write K u c (hex_string 0 @ CR # LF # CR # LF # rest) = Inr (Some (length (hex_string 0) + 2), c1)"
    "m_parseStatus c1 = GET_MORE_DATA" "c_object c1 = c_object c" "chunk_at c1 CHUNK_CLOSE 65536"
    using chunk_line [OF Nil.prems(1,3) _ fits Nil.prems(2), of K u "CR # LF # rest"] by auto
  obtain c2 where c2: "body_write K u c1 ([CR, LF] @ rest) = Inr (Some 2, c2)" "m_parseStatus c2 = GOTO_NEXT_SUBPARSER"
    "content (c_object c2) = content (c_object c)"
    using chunk_close [OF assms(1) c1(4), of m u rest] Nil.prems(6) c1(3) by auto
  have "stage_run (body_write K u) m_parseStatus 0 c1 ([CR, LF] @ rest) rest c2" 
    using stage_ends [where W = "body_write K u" and st = m_parseStatus, OF c2(1,2)] by simp
  from stage_step [OF _ c1(2) _ this, where s = c and d = "hex_string 0 @ [CR, LF]"] show ?case
    using c1(1) c2(3) unfolding chunked_text_simps by auto
next
  case (Cons p ps)
  let ?r3 = "chunked_text ps @ rest"
  let ?r2 = "CR # LF # ?r3"
  let ?n = "length p"
  have p: "p \<noteq> []" "?n \<le> 262144" "0 < ?n" "?n \<le> m" using Cons.prems(4,7) by auto
  have fits: "chunk_fits c ?n" using Cons.prems(4,5) by (simp add: chunk_fits_def)
  obtain c1 where c1: "body_write K u c (hex_string ?n @ CR # LF # p @ ?r2) = Inr (Some (length (hex_string ?n) + 2), c1)"
    "m_parseStatus c1 = GET_MORE_DATA" "c_object c1 = c_object c" "m_securityMaxHttpChunkSize c1 = m_securityMaxHttpChunkSize c"
    "m_securityMaxPostDataSize c1 = m_securityMaxPostDataSize c" "m_currentContentLengthSize c1 = m_currentContentLengthSize c + ?n"
    "chunk_at c1 CHUNK_DATA ?n"
    using chunk_line [OF Cons.prems(1,3) p(2) fits Cons.prems(2), of K u "p @ ?r2"] p(3) by auto
  obtain c2 where c2: "body_write K u c1 (p @ ?r2) = Inr (Some ?n, c2)" "m_parseStatus c2 = GET_MORE_DATA"
    "content (c_object c2) = content (c_object c) @ p" "ready (c_object c2) (m - ?n)" "m_securityMaxHttpChunkSize c2 = m_securityMaxHttpChunkSize c1"
    "m_securityMaxPostDataSize c2 = m_securityMaxPostDataSize c1" "m_currentContentLengthSize c2 = m_currentContentLengthSize c1" "chunk_at c2 CHUNK_CRLF 2"
    using chunk_data [OF assms(1) c1(7) p(1,2) _ p(4), of u ?r2] Cons.prems(6) c1(3) by auto
  obtain c3 where c3: "body_write K u c2 ?r2 = Inr (Some 2, c3)" "m_parseStatus c3 = GET_MORE_DATA" "c_object c3 = c_object c2"
    "m_securityMaxHttpChunkSize c3 = m_securityMaxHttpChunkSize c2" "m_securityMaxPostDataSize c3 = m_securityMaxPostDataSize c2"
    "m_currentContentLengthSize c3 = m_currentContentLengthSize c2" "chunk_at c3 CHUNK_SIZE 1024"
    using chunk_crlf [OF c2(8), of K u ?r3] by auto
  have rest_fits: "length (concat ps) \<le> m - ?n" using Cons.prems(7) by simp
  obtain c' where c': "stage_run (body_write K u) m_parseStatus (3 * length ps + 1) c3 ?r3 rest c'" "content (c_object c') = content (c_object c3) @ concat ps"
    using Cons.IH [OF c3(7), of "m - ?n"] Cons.prems(4,5) c1(4-6) c2(4-7) c3(3-6) rest_fits by auto
  have ne: "?r3 \<noteq> []" by (simp add: chunked_text_def)
  have "stage_run (body_write K u) m_parseStatus (Suc (3 * length ps + 1)) c2 ([CR, LF] @ ?r3) rest c'"
    using c3(1,2) c'(1) ne by (intro stage_step) auto
  then have "stage_run (body_write K u) m_parseStatus (Suc (Suc (3 * length ps + 1))) c1 (p @ ?r2) rest c'"
    using c2(1,2) by (intro stage_step) auto
  then have "stage_run (body_write K u) m_parseStatus (Suc (Suc (Suc (3 * length ps + 1)))) c ((hex_string ?n @ [CR, LF]) @ p @ ?r2) rest c'"
    using c1(1,2) p(1) stage_step [where s = c and d = "hex_string ?n @ [CR, LF]" and W = "body_write K u"] by fastforce
  then show ?case using c'(2) c2(3) c3(3) unfolding chunked_text_simps by (intro exI [of _ c']) (simp add: eval_nat_numeral)
qed

end

text \<open>What the transformer has sent lacks the line end after the last chunk, which goes before what
  follows.\<close>

definition chunk_sep :: "'o chunked \<Rightarrow> bytes" where
  "chunk_sep t = (if ct_pos t = 0 then [] else [CR, LF])"

context sink
begin

lemma chunk_sent:
  assumes "ready (ct_out t) n" "p \<noteq> []" "length p < 2 ^ 32" "ct_pos t + length p < two64" "length (chunk_text p) \<le> n"
  shows "\<exists>t' n'. so_write (chunked_ops S) t p = Some (Inr (Some (length p), t')) \<and> ct_status t' = ct_status t \<and> ct_pos t' = ct_pos t + length p \<and>
    content (ct_out t') @ chunk_sep t' = content (ct_out t) @ chunk_sep t @ chunk_text p \<and> ready (ct_out t') n' \<and> n - length (chunk_text p) \<le> n'"
proof -
  let ?h = "chunk_sep t @ hex_string (length p) @ [CR, LF]"
  have hx: "length (hex_string (length p)) \<le> 8" using hex_string_length [of 8 "length p"] assms(3) by simp
  have l: "length ?h + length p \<le> n" "length ?h < two64" "length p < two64"
    using assms(3,5) hx by (auto simp: chunk_text_def chunk_sep_def)
  obtain o1 where o1: "writeFullStream S (ct_out t) ?h = Some (Inr (True, o1))" "content o1 = content (ct_out t) @ ?h" "ready o1 (n - length ?h)"
    using writeFullStream_total [OF l(2) assms(1)] l(1) by auto
  obtain o2 where o2: "writeFullStream S o1 p = Some (Inr (True, o2))" "content o2 = content o1 @ p" "ready o2 (n - length ?h - length p)"
    using writeFullStream_total [OF l(3) o1(3)] l(1) le_diff_conv2 [of "length ?h" n "length p"] by (metis add.commute add_leD1)
  have w: "writeString S (ct_out t) ((if ct_pos t = 0 then [] else [CR, LF]) @ hex_string (length p) @ [CR, LF]) = Some (Inr (True, o1))"
    using o1(1) by (simp add: writeString_def chunk_sep_def split: if_splits)
  have nw: "\<not> add64 (length p) 64 < length p" "length p mod 2 ^ 32 = length p" using assms(3) by (simp_all add: add64_def)
  have "so_write (chunked_ops S) t p = Some (Inr (Some (length p), t\<lparr>ct_out := o2, ct_pos := ct_pos t + length p\<rparr>))"
    using assms(2,4) w o2(1) nw ready_succeed [OF o1(3)] by (simp add: chunked_ops_def ContentChunkedTransformer_write_def Let_def add64_small)
  moreover have "length ?h + length p \<le> length (chunk_text p)" by (simp add: chunk_text_def chunk_sep_def)
  then have "n - length (chunk_text p) \<le> n - length ?h - length p" by simp
  ultimately show ?thesis using o1(2) o2(2,3) assms(2)
    by (intro exI [of _ "t\<lparr>ct_out := o2, ct_pos := ct_pos t + length p\<rparr>"] exI [of _ "n - length ?h - length p"] conjI)
      (simp_all add: chunk_sep_def chunk_text_def)
qed

lemma chunks_sent:
  assumes "ready (ct_out t) n" "succeed (ct_status t)" "m + length (concat cks) < 2 ^ 32" "ct_pos t = m" "length (concat (map chunk_text (filter (\<lambda>p. p \<noteq> []) cks))) \<le> n"
  shows "\<exists>t' n'. copyToStreamableObjectUsingCleanVector (chunked_ops S) t cks m = Some (Inr (Some (m + length (concat cks)), t')) \<and>
    content (ct_out t') @ chunk_sep t' = content (ct_out t) @ chunk_sep t @ concat (map chunk_text (filter (\<lambda>p. p \<noteq> []) cks)) \<and>
    ready (ct_out t') n' \<and> n - length (concat (map chunk_text (filter (\<lambda>p. p \<noteq> []) cks))) \<le> n'"
  using assms
proof (induction cks arbitrary: t n m)
  case Nil
  then show ?case by auto
next
  case (Cons p cks)
  let ?L = "\<lambda>cks. length (concat (map chunk_text (filter (\<lambda>p. p \<noteq> []) cks)))"
  have lim: "length p + m < two64" using Cons.prems(3) by simp
  have add: "safe_add64 (length p) m = Inr (length p + m)" using lim by (simp add: safe_add64_eq)
  obtain t1 n1 where t1: "writeFullStream (chunked_ops S) t p = Some (Inr (True, t1))" "succeed (ct_status t1)" "ct_pos t1 = length p + m"
    "content (ct_out t1) @ chunk_sep t1 = content (ct_out t) @ chunk_sep t @ concat (map chunk_text (filter (\<lambda>p. p \<noteq> []) [p]))"
    "ready (ct_out t1) n1" "n - ?L [p] \<le> n1"
  proof (cases "p = []")
    case True
    then show thesis using that [of t n] Cons.prems by (simp add: writeFullStream_def writeFullLoop_done)
  next
    case False
    have "length p < 2 ^ 32" "ct_pos t + length p < two64" "length (chunk_text p) \<le> n" using Cons.prems(3-5) False by auto
    from chunk_sent [OF Cons.prems(1) False this] obtain t1 n1 where
      t1: "so_write (chunked_ops S) t p = Some (Inr (Some (length p), t1))" "ct_status t1 = ct_status t" "ct_pos t1 = ct_pos t + length p"
      "content (ct_out t1) @ chunk_sep t1 = content (ct_out t) @ chunk_sep t @ chunk_text p" "ready (ct_out t1) n1" "n - length (chunk_text p) \<le> n1"
      by blast
    have "writeFullStream (chunked_ops S) t p = Some (Inr (True, t1))"
      using writeFullLoop_step [of 0 p "chunked_ops S" t "length p" t1] t1(1,2) False Cons.prems(2) lim
      by (simp add: writeFullStream_def chunked_ops_def add64_small writeFullLoop_done)
    then show thesis using that [of t1 n1] t1 False Cons.prems(2,4) by simp
  qed
  have "?L (p # cks) = ?L [p] + ?L cks" by simp
  then have "?L cks \<le> n1" using Cons.prems(5) t1(6) by linarith
  then obtain t' n' where t': "copyToStreamableObjectUsingCleanVector (chunked_ops S) t1 cks (length p + m) = Some (Inr (Some (length p + m + length (concat cks)), t'))"
    "content (ct_out t') @ chunk_sep t' = content (ct_out t1) @ chunk_sep t1 @ concat (map chunk_text (filter (\<lambda>p. p \<noteq> []) cks))"
    "ready (ct_out t') n'" "n1 - ?L cks \<le> n'"
    using Cons.IH [OF t1(5,2) _ t1(3)] Cons.prems(3) by auto
  have "n - ?L (p # cks) \<le> n'" using t'(4) t1(6) \<open>?L (p # cks) = ?L [p] + ?L cks\<close> by linarith
  moreover have "content (ct_out t') @ chunk_sep t' = content (ct_out t) @ chunk_sep t @ concat (map chunk_text (filter (\<lambda>p. p \<noteq> []) (p # cks)))"
    using t'(2) t1(4) by (metis append.assoc append_Nil2 concat.simps concat_append filter_append append_Cons append_Nil map_append)
  ultimately show ?case using t'(1,3) t1(1) add by (auto simp: add.commute add.left_commute)
qed

lemma last_chunk_sent:
  assumes "ready (ct_out t) n" "7 \<le> n"
  shows "\<exists>t'. writeEOF (chunked_ops S) t = Some (Inr (True, t')) \<and> content (ct_out t') = content (ct_out t) @ chunk_sep t @ ''0'' @ [CR, LF, CR, LF]"
proof -
  let ?e = "chunk_sep t @ ''0'' @ [CR, LF, CR, LF]"
  have l: "length ?e \<le> n" "length ?e < two64" using assms(2) by (auto simp: chunk_sep_def)
  obtain o1 where o1: "writeFullStream S (ct_out t) ?e = Some (Inr (True, o1))" "content o1 = content (ct_out t) @ ?e"
    using writeFullStream_total [OF l(2) assms(1) l(1)] by blast
  have "writeString S (ct_out t) ((if ct_pos t = 0 then [] else [CR, LF]) @ ''0'' @ [CR, LF, CR, LF]) = Some (Inr (True, o1))"
    using o1(1) by (simp add: writeString_def chunk_sep_def split: if_splits)
  then have "so_write (chunked_ops S) t [] = Some (Inr (Some 0, t\<lparr>ct_out := o1\<rparr>))"
    by (simp add: chunked_ops_def ContentChunkedTransformer_write_def Let_def)
  then show ?thesis using o1(2) by (simp add: writeEOF_def)
qed

end

section \<open>From one side to the other\<close>

text \<open>A content whose object is a binary container, as \<open>Container_BIN\<close> makes it.\<close>

definition binary_body :: "'o streamable \<Rightarrow> (sp_buf, 'o) content_ops \<Rightarrow> bool" where
  "binary_body S K \<longleftrightarrow> co_sink K = B_sink CO \<and> co_new K Container_BIN = B_Chunks_new \<and>
     co_streamChunked K = B_streamTo (B_Chunks_copyToStreamableObject2 no_mmap no_mmap_copy (chunked_ops S)) CO (chunked_ops S)"

lemma concat_nonempty: "concat (filter (\<lambda>p. p \<noteq> []) ps) = concat ps"
  by (induction ps) auto

lemma chunks_overhead:
  assumes "\<forall>p \<in> set ps. p \<noteq> []" "length (concat ps) < 2 ^ 32"
  shows "length (concat (map chunk_text ps)) \<le> 13 * length (concat ps)"
  using assms
proof (induction ps)
  case (Cons p ps)
  have "length (hex_string (length p)) \<le> 8" using hex_string_length [of 8 "length p"] Cons.prems(2) by simp
  moreover have "1 \<le> length p" using Cons.prems(1) by (cases p) auto
  moreover have "length (chunk_text p) = length (hex_string (length p)) + 4 + length p" by (simp add: chunk_text_def)
  ultimately have "length (chunk_text p) \<le> 13 * length p" by linarith
  moreover have "length (concat (map chunk_text ps)) \<le> 13 * length (concat ps)" using Cons by simp
  ultimately show ?case by simp
qed simp

lemma pieces_length: "\<forall>p \<in> set ps. p \<noteq> [] \<Longrightarrow> length ps \<le> length (concat ps)"
proof (induction ps)
  case (Cons p ps)
  then show ?case by (cases p) auto
qed simp

context sink
begin

lemma body_sent:
  assumes "binary_body S K" "m_transmitionMode c = TM_CHUNKS" "chunks_ok (c_object c)" "length (chunks_content (c_object c)) < 2 ^ 32"
    and room: "ready up n" "13 * length (chunks_content (c_object c)) + 7 \<le> n"
  shows "\<exists>ok up' ps. Content_streamToUpstream S K c up = Some (Inr (ok, up')) \<and> content up' = content up @ chunked_text ps \<and>
    concat ps = chunks_content (c_object c) \<and> (\<forall>p \<in> set ps. p \<noteq> [])"
proof -
  let ?b = "c_object c" and ?T = "chunked_ops S" and ?t = "ContentChunkedTransformer_new up"
  let ?cks = "slice_chunks (m_chunksVector ?b) 0 (length (chunks_content ?b))"
  define ps where "ps = filter (\<lambda>p. p \<noteq> []) ?cks"
  have cc: "concat ?cks = chunks_content ?b"
    using slice_chunks_concat [of 0 "length (chunks_content ?b)" "m_chunksVector ?b"] by (simp add: chunks_content_def)
  have st: "ready (ct_out ?t) n" "succeed (ct_status ?t)" "ct_pos ?t = 0" "chunk_sep ?t = []"
    using room(1) by (simp_all add: ContentChunkedTransformer_new_def ws_init_def chunk_sep_def)
  have pp: "concat ps = chunks_content ?b" "\<forall>p \<in> set ps. p \<noteq> []" using cc concat_nonempty [of ?cks] by (auto simp: ps_def)
  have n: "length (concat (map chunk_text ps)) + 7 \<le> n" using chunks_overhead [of ps] pp assms(4) room(2) by auto
  obtain b t1 n1 where b: "co_streamChunked K ?b ?t = Some (Inr (b, t1))"
    and t1: "content (ct_out t1) @ chunk_sep t1 = content up @ concat (map chunk_text ps)" "ready (ct_out t1) n1" "7 \<le> n1"
  proof (cases "chunks_content ?b = []")
    case True
    then have "ps = []" "v_size CO ?b = 0" using cc chunks_size [OF chunks_ok_wf [OF assms(3)], of no_mmap]
      by (auto simp: ps_def filter_empty_conv)
    then have "co_streamChunked K ?b ?t = Some (Inr (True, ?t))"
      using assms(1) st(2) by (simp add: binary_body_def B_streamTo_def B_appendTo_def overflow_sum_iff size_max_def chunked_ops_def)
    then show thesis using that [of True ?t n] n st(1,4) \<open>ps = []\<close> by (simp add: ContentChunkedTransformer_new_def)
  next
    case False
    obtain t1 n1 where t1: "copyToStreamableObjectUsingCleanVector ?T ?t ?cks 0 = Some (Inr (Some (length (chunks_content ?b)), t1))"
      "content (ct_out t1) @ chunk_sep t1 = content up @ concat (map chunk_text ps)" "ready (ct_out t1) n1" "7 \<le> n1"
      using chunks_sent [where cks = ?cks and m = 0 and t = ?t and n = n] st n assms(4) cc
      by (auto simp: ps_def ContentChunkedTransformer_new_def)
    from chunks_stream_blocks [OF chunks_ok_wf [OF assms(3)] t1(1) False, of no_mmap no_mmap_copy] obtain b where
      "co_streamChunked K ?b ?t = Some (Inr (b, t1))" using assms(1) by (auto simp: binary_body_def)
    then show thesis using that t1(2-4) by blast
  qed
  obtain t2 where t2: "writeEOF ?T t1 = Some (Inr (True, t2))" "content (ct_out t2) = content (ct_out t1) @ chunk_sep t1 @ ''0'' @ [CR, LF, CR, LF]"
    using last_chunk_sent [OF t1(2,3)] by blast
  have "content (ct_out t2) = content up @ chunked_text ps" using t1(1) t2(2) by (simp add: chunked_text_def)
  moreover have "Content_streamToUpstream S K c up = Some (Inr (succeed (so_status (co_sink K) ?b), ct_out t2))"
    using b t2(1) assms(2) by (simp add: Content_streamToUpstream_def Let_def)
  ultimately show ?thesis using pp by blast
qed

end

lemma new_body: "c_object (Content_new K) = co_new K Container_BIN" "m_transmitionMode (setTransmissionMode v c) = v"
  "c_object (setTransmissionMode v c) = c_object c"
  by (simp_all add: Let_def Content_new_def content_init_def subparser.defs setTransmissionMode_def setParseDataTargetSize_def setParseStrategy_def
      setParseDelimiter_def split: transmission_mode.split)

lemma new_buffer: "sp_ok s \<longleftrightarrow> chunks_ok (m_unparsedBuffer s) \<and> has_room (m_unparsedBuffer s) 0" "N < two64 \<Longrightarrow> chunks_ok ((B_Chunks_new :: sp_buf)\<lparr>m_maxSize := N\<rparr>)"
  "N < two64 \<Longrightarrow> has_room ((B_Chunks_new :: sp_buf)\<lparr>m_maxSize := N\<rparr>) 0" "chunks_content ((B_Chunks_new :: sp_buf)\<lparr>m_maxSize := N\<rparr>) = []"
  using chunks_ok_new
  by (auto simp: sp_ok_def chunks_ok_def chunks_wf_def chunks_content_def has_room_def B_Chunks_new_def)

lemma new_chunk_stage: "chunk_at (setTransmissionMode TM_CHUNKS (Content_new K)) CHUNK_SIZE 64"
  using new_buffer(2,3,4) [of 64]
  by (simp add: chunk_at_def new_buffer(1) sp_text_def setTransmissionMode_def Let_def Content_new_def content_init_def SubParser_new_def subparser.defs
      setParseDataTargetSize_def setParseStrategy_def setParseDelimiter_def B_setMaxSize_def) (simp add: B_Chunks_new_def)

lemma new_chunk_limits:
  "m_securityMaxHttpChunkSize (setTransmissionMode TM_CHUNKS (Content_new K)) = 16777216"
  "m_securityMaxPostDataSize (setTransmissionMode TM_CHUNKS (Content_new K)) = 17825792"
  "m_currentContentLengthSize (setTransmissionMode TM_CHUNKS (Content_new K)) = 0"
  by (simp_all add: setTransmissionMode_def Let_def Content_new_def content_init_def subparser.defs setParseDataTargetSize_def setParseStrategy_def setParseDelimiter_def)

lemma new_length_stage:
  assumes "n \<le> 17825792"
  shows "\<exists>c. setCurrentSize n (setTransmissionMode TM_CONTENT_LENGTH (Content_new K)) = (True, c) \<and> length_stage c n \<and> c_object c = co_new K Container_BIN"
  using assms new_buffer(2,3,4) [of n]
  by (simp add: length_stage_def new_buffer(1) sp_text_def setCurrentSize_def setTransmissionMode_def Let_def Content_new_def content_init_def SubParser_new_def
      subparser.defs setParseDataTargetSize_def setParseStrategy_def B_setMaxSize_def) (simp add: B_Chunks_new_def)

context content_object
begin

lemma length_feed:
  assumes "co_sink K = S" "length_stage c n" "\<forall>d \<in> set ds. d \<noteq> []" "length (concat ds) < n" "n \<le> 262144" "ready (c_object c) m" "n \<le> m"
  shows "\<exists>c'. feed (Content_parse K) u c ds = Some (map (\<lambda>d. Some (length d)) ds, c') \<and> content (c_object c') = content (c_object c) @ concat ds \<and>
    length_stage c' (n - length (concat ds)) \<and> ready (c_object c') (m - length (concat ds))"
  using assms(2-7)
proof (induction ds arbitrary: c n m)
  case (Cons d ds)
  have k: "length d = min (length d) n" "0 < n" "length d \<le> 262144" "length d \<le> m" "length d < n" "d \<noteq> []" using Cons.prems by auto
  obtain c1 where c1: "writeIntoSubParser (Content_parse K) u c d = Inr (Some (length d), c1)" "content (c_object c1) = content (c_object c) @ d"
    "length_stage c1 (n - length d)" "ready (c_object c1) (m - length d)"
    using length_step [OF assms(1) Cons.prems(1) k(6,1,2,3) Cons.prems(5) k(4), of u] k(5) by auto
  have "length (concat ds) < n - length d" "n - length d \<le> m - length d" using Cons.prems(3,6) by simp_all
  then obtain c2 where "feed (Content_parse K) u c1 ds = Some (map (\<lambda>d. Some (length d)) ds, c2)" "content (c_object c2) = content (c_object c1) @ concat ds"
    "length_stage c2 (n - length d - length (concat ds))" "ready (c_object c2) (m - length d - length (concat ds))"
    using Cons.IH [OF c1(3) _ _ _ c1(4)] Cons.prems(2,4) by force
  then show ?case using c1(1,2) by simp
qed simp

end

section \<open>Properties\<close>

text \<open>C11: a body that is sent in chunks, in the pieces in which its container holds it, and received by
  a content in chunked mode, with anything after it, arrives whole and unchanged: the receiver asks for more
  until the last chunk, then moves on, and what follows the body is left to the next stage.\<close>

theorem chunked_roundtrip:
  fixes K :: "(sp_buf, str_obj) content_ops" and K' :: "(sp_buf, 'o) content_ops"
  assumes "binary_body string_ops K" "m_transmitionMode c = TM_CHUNKS" "chunks_ok (c_object c)" "length (chunks_content (c_object c)) \<le> 262144"
    "co_sink K' = B_sink CO" "co_new K' Container_BIN = B_Chunks_new"
  shows "\<exists>ok up c' n. Content_streamToUpstream string_ops K c (string_init []) = Some (Inr (ok, up)) \<and>
    stage_run (body_write K' u) m_parseStatus n (setTransmissionMode TM_CHUNKS (Content_new K')) (ss_value up @ rest) rest c' \<and>
    n \<le> 3 * length (chunks_content (c_object c)) + 1 \<and> chunks_content (c_object c') = chunks_content (c_object c)"
proof -
  let ?body = "chunks_content (c_object c)" and ?r = "setTransmissionMode TM_CHUNKS (Content_new K')"
  have rd: "string_ready (string_init []) (13 * length ?body + 7)" "length ?body < 2 ^ 32"
    using assms(4) by (simp_all add: string_ready_def string_init_def ws_init_def)
  obtain ok up ps where up: "Content_streamToUpstream string_ops K c (string_init []) = Some (Inr (ok, up))" "ss_value up = chunked_text ps"
    and ps: "concat ps = ?body" "\<forall>p \<in> set ps. p \<noteq> []"
    using str.body_sent [OF assms(1,2,3) rd(2,1) order_refl] by (auto simp: string_init_def)
  have each: "length p \<le> 262144" if "p \<in> set ps" for p
  proof -
    have "length p \<le> length (concat ps)" using that by (induction ps) auto
    then show ?thesis using ps(1) assms(4) by simp
  qed
  have lim: "\<forall>p \<in> set ps. p \<noteq> [] \<and> length p \<le> 262144 \<and> length p \<le> m_securityMaxHttpChunkSize ?r"
    "m_currentContentLengthSize ?r + length (concat ps) \<le> m_securityMaxPostDataSize ?r" "length (concat ps) \<le> 262144"
    using each ps assms(4) by (fastforce simp: new_chunk_limits)+
  have "chunks_ready (c_object ?r) 262144 \<and> chunks_ok (c_object ?r)" using new_ready [OF order_refl] assms(6) by (simp add: new_body)
  then obtain c' where "stage_run (body_write K' u) m_parseStatus (3 * length ps + 1) ?r (chunked_text ps @ rest) rest c'"
    "chunks_content (c_object c') = chunks_content (c_object ?r) @ concat ps"
    using chunks_obj.chunks_received [OF assms(5) new_chunk_stage _ _ lim(1,2) _ lim(3), of u rest] by auto
  moreover have "chunks_content (c_object ?r) = []" using assms(6) by (simp add: new_body chunks_content_def B_Chunks_new_def)
  moreover have "3 * length ps + 1 \<le> 3 * length ?body + 1" using pieces_length [OF ps(2)] ps(1) by simp
  ultimately show ?thesis using up ps(1)
    by (intro exI [of _ ok] exI [of _ up] exI [of _ c'] exI [of _ "3 * length ps + 1"]) (simp del: string_ops_simps)
qed

definition demo_body_ops :: "(sp_buf, str_obj) content_ops" where
  "demo_body_ops =
     (let T = chunked_ops string_ops in
      \<lparr>co_sink = B_sink CO, co_new = (\<lambda>_. B_Chunks_new), co_size = B_Chunks_size no_mmap,
       co_streamTo = B_streamTo (B_Chunks_copyToStreamableObject2 no_mmap no_mmap_copy string_ops) CO string_ops,
       co_streamChunked = B_streamTo (B_Chunks_copyToStreamableObject2 no_mmap no_mmap_copy T) CO T\<rparr>)"

lemma demo_body_facts: "binary_body string_ops demo_body_ops" "co_sink demo_body_ops = B_sink CO" "co_new demo_body_ops Container_BIN = B_Chunks_new"
  unfolding binary_body_def demo_body_ops_def Let_def content_ops.simps by (rule conjI refl)+

theorem chunked_roundtrip_witness:
  "\<exists>ok up c' n. Content_streamToUpstream string_ops demo_body_ops
      (setTransmissionMode TM_CHUNKS (setStreamableObj demo_body_ops (Some demo_chunks) (Content_new demo_body_ops))) (string_init []) = Some (Inr (ok, up)) \<and>
    stage_run (body_write demo_body_ops (\<lambda>n. replicate n CR)) m_parseStatus n (setTransmissionMode TM_CHUNKS (Content_new demo_body_ops))
      (ss_value up @ ''next'') ''next'' c' \<and> n \<le> 19 \<and> chunks_content (c_object c') = ''abcdef''"
  using chunked_roundtrip [where K = demo_body_ops and K' = demo_body_ops and u = "\<lambda>n. replicate n CR" and rest = "''next''"
      and c = "setTransmissionMode TM_CHUNKS (setStreamableObj demo_body_ops (Some demo_chunks) (Content_new demo_body_ops))"]
  using demo_body_facts by (simp add: new_body setStreamableObj_def del: string_ops_simps)

text \<open>C12: a body of an announced length arrives whole in the object of the content, however it is cut into
  fragments; each fragment is consumed, of the one that completes the body only the part that belongs to it,
  and then the content moves on.\<close>

theorem content_length_body:
  fixes K :: "(sp_buf, 'o) content_ops"
  assumes "co_sink K = B_sink CO" "co_new K Container_BIN = B_Chunks_new" "n \<le> 262144" "\<forall>x \<in> set ds. x \<noteq> []"
    "length (concat ds) < n" "n \<le> length (concat ds @ d)"
  shows "\<exists>c0 c1 c2. setCurrentSize n (setTransmissionMode TM_CONTENT_LENGTH (Content_new K)) = (True, c0) \<and>
    feed (Content_parse K) u c0 ds = Some (map (\<lambda>x. Some (length x)) ds, c1) \<and>
    writeIntoSubParser (Content_parse K) u c1 d = Inr (Some (n - length (concat ds)), c2) \<and>
    m_parseStatus c2 = GOTO_NEXT_SUBPARSER \<and> chunks_content (c_object c2) = take n (concat ds @ d)"
proof -
  obtain c0 where c0: "setCurrentSize n (setTransmissionMode TM_CONTENT_LENGTH (Content_new K)) = (True, c0)" "length_stage c0 n"
    "c_object c0 = B_Chunks_new" using new_length_stage [of n K] assms(2,3) by auto
  have rd: "chunks_ready (c_object c0) 262144 \<and> chunks_ok (c_object c0)" using new_ready [OF order_refl] c0(3) by simp
  obtain c1 where c1: "feed (Content_parse K) u c0 ds = Some (map (\<lambda>d. Some (length d)) ds, c1)" "chunks_content (c_object c1) = concat ds"
    "length_stage c1 (n - length (concat ds))"
    "chunks_ready (c_object c1) (262144 - length (concat ds)) \<and> chunks_ok (c_object c1)"
    using chunks_obj.length_feed [OF assms(1) c0(2) assms(4,5,3) rd assms(3), of u] c0(3) by (auto simp: chunks_content_def B_Chunks_new_def)
  let ?k = "n - length (concat ds)"
  have k: "d \<noteq> []" "?k = min (length d) ?k" "0 < ?k" "?k \<le> 262144" "?k \<le> 262144 - length (concat ds)" using assms(3,5,6) by auto
  obtain c2 where c2: "writeIntoSubParser (Content_parse K) u c1 d = Inr (Some ?k, c2)" "chunks_content (c_object c2) = concat ds @ take ?k d"
    "m_parseStatus c2 = GOTO_NEXT_SUBPARSER"
    using chunks_obj.length_step [OF assms(1) c1(3) k(1,2,3,4) c1(4) k(5), of u] c1(2) by auto
  have "take n (concat ds @ d) = concat ds @ take ?k d" using assms(5) by simp
  then show ?thesis using c0(1) c1(1) c2 by auto
qed

theorem content_length_body_witness:
  "\<exists>c0 c1 c2. setCurrentSize 5 (setTransmissionMode TM_CONTENT_LENGTH (Content_new demo_body_ops)) = (True, c0) \<and>
    feed (Content_parse demo_body_ops) (\<lambda>n. replicate n CR) c0 [''ab'', ''c''] = Some ([Some 2, Some 1], c1) \<and>
    writeIntoSubParser (Content_parse demo_body_ops) (\<lambda>n. replicate n CR) c1 ''defg'' = Inr (Some 2, c2) \<and>
    m_parseStatus c2 = GOTO_NEXT_SUBPARSER \<and> chunks_content (c_object c2) = ''abcde''"
  using content_length_body [where K = demo_body_ops and n = 5 and ds = "[''ab'', ''c'']" and d = "''defg''" and u = "\<lambda>n. replicate n CR"]
  using demo_body_facts by (simp add: numeral_2_eq_2 del: string_ops_simps feed.simps)

end
