(* ===== verification/Spec2Isabelle.thy ===== *)
theory Spec2Isabelle
  imports WebSocket_Server Url_Codec Safe_Int Safe_Queue Safe_Map Thread_Pool IPv4_Address Socket_Framing Rest_Api
    Session_Life Web_Files Http_Fields Http_Content
begin

text \<open>
  \<^bold>\<open>libMantids30: a verification library\<close>

  libMantids30 is a C++ framework for network services. Its core is a family of binary containers
  and streams (\<open>src/Mantids30/Memory\<close>), on which protocol parsers are built
  (\<open>Memory/subparser.cpp\<close>, \<open>Memory/parser.cpp\<close>) that cut a byte stream into elements and hand them to
  protocol classes (lines, HTTP, WebSocket frames), and a set of thread utilities
  (\<open>src/Mantids30/Threads\<close>). This library models that core from the source, with its machine
  integers, its error paths and its defects, and proves what it does.

  \<^bold>\<open>The parts and the theories\<close>

  \<^item> Prelude. \<open>Mantids_Prelude\<close>: bytes, \<open>size_t\<close> arithmetic (naturals with the wrap-around written
    out, \<open>add64\<close>, \<open>sub64\<close>), the overflow macro of \<open>Helpers/mem.h\<close>, lists and searches shared by
    all theories. \<open>Safe_Int\<close>: the overflow-checked integers of \<open>Helpers/safeint.h\<close> over any integral
    type. \<open>Helpers_Mem\<close>: \<open>Helpers/mem.cpp\<close>. \<open>Helpers_Encoders\<close> and \<open>Base64\<close>: the codecs of
    \<open>Helpers/encoders.cpp\<close>. \<open>Json_Value\<close>: JSON values and the typed accessors of \<open>Helpers/json.h\<close>.
  \<^item> Streams and containers. \<open>Stream_Objects\<close>: the write status, its operators and the full-write
    loop of \<open>Memory/streamable_object.cpp\<close>, the string and null sinks; a sink is a record of
    operations and its contract a locale. \<open>Binary_Base\<close>: the public operations of \<open>B_Base\<close> over a
    record of its virtual operations. \<open>Binary_Chunks\<close>, \<open>Binary_Ref\<close>, \<open>Binary_Mem\<close>: the three
    containers that fill that record. \<open>Chunks_Container\<close>: what the operations of a chunked container
    do to its content.
  \<^item> Parsing. \<open>Sub_Parser\<close>: the parse strategies of \<open>SubParser\<close> over the unparsed buffer and the
    parsed window. \<open>Stream_Parser\<close>: the driver \<open>Parser::parseData\<close>; the interface of a protocol
    (current subparser, write, change to the next) is the locale \<open>parser_stage\<close>. \<open>Line_Recv\<close>: the
    line protocol, an interpretation of it. \<open>Parsing_Correct\<close>: the properties of the parsing stack.
  \<^item> Percent coding of streams. \<open>Url_Codec\<close>: \<open>Memory/streamable_transformer.cpp\<close> and the percent
    encoder and decoder of \<open>Protocol_HTTP\<close>.
  \<^item> WebSocket. \<open>WebSocket_Header\<close> and \<open>WebSocket_Content\<close>: frame headers and payloads over words of
    their width (\<open>websocket_frameheader.cpp\<close>, \<open>websocket_framecontent.cpp\<close>). \<open>WebSocket_Server\<close>: the
    connection after the upgrade and the sending of messages (\<open>httpv1_server_websockets.cpp\<close>),
    another interpretation of \<open>parser_stage\<close>.
  \<^item> Threads. \<open>Concurrency\<close>: executions of labelled step relations, notification, counting of
    threads; the locales \<open>history_invariant\<close> and \<open>settles\<close>. \<open>Safe_Queue\<close>: \<open>safe_queue.h\<close> and
    \<open>safe_sharedqueue.h\<close>. \<open>Safe_Map\<close>: \<open>safe_map.h\<close>. \<open>Thread_Pool\<close>: \<open>threadpool.cpp\<close> and the shuffle
    of \<open>Helpers/random.h\<close>.
  \<^item> Addresses. \<open>IPv4_Address\<close>: \<open>Memory/a_ipv4.cpp\<close>, addresses with a prefix length, over 32-bit words.
  \<^item> Stream sockets. \<open>Socket_Streams\<close>: partial and full reads and writes over the calls of the system,
    the XOR layer of \<open>Net_Chains\<close>, length-prefixed and delimited framing, the buffered reader and the
    mutual challenge (\<open>Net_Sockets/socket_stream_reader.cpp\<close>, \<open>socket_stream_writer.cpp\<close>,
    \<open>streams_bufferedreader.cpp\<close>, \<open>streams_cryptochallenge.cpp\<close>). \<open>Socket_Framing\<close>: their properties,
    over the locale of a stream that delivers bytes in fragments.
  \<^item> Tokens. \<open>Jwt\<close>: claims, signing, verification, the payload cache and the revocation list of
    \<open>DataFormat_JWT\<close>. \<open>Jwt_Verify\<close>: the uses of a verifier as a step relation, and what a token that
    is accepted has been through.
  \<^item> Web servers. \<open>Access_Control\<close>: the endpoint tables of \<open>API_EndpointsAndSessions\<close>, the checks
    before an endpoint runs, the resource filter and the CORS answers. \<open>Rest_Api\<close>: the requests of a
    connection of \<open>Server_RESTfulWebAPI\<close>, from the tokens of a request to the call of an endpoint,
    over \<open>Jwt\<close>. \<open>Web_Sessions\<close>: the session manager of \<open>Server_MonolithWebAPI\<close> on top of \<open>Safe_Map\<close>,
    and the session of a request, login, logout and clean-up. \<open>Session_Life\<close>: their properties.
    \<open>Html_Engine\<close>: the template engine of \<open>Server_WebCore/htmliengine.cpp\<close>. \<open>Web_Files\<close>: the files
    of a server (\<open>Protocol_HTTP/httpv1_server_filepaths.cpp\<close>) behind the filter and the engine.
  \<^item> HTTP messages. \<open>Boost_Strings\<close>: the string algorithms the parsers use. \<open>Http_Headers\<close>: header blocks
    and their sub-variables (\<open>Protocol_MIME/mime_sub_header.cpp\<close>); a block as a client sees it is the
    locale \<open>header_block\<close>. \<open>Url_Vars\<close>: query variables (\<open>common_urlvars.cpp\<close>), a parser of its own over
    \<open>Stream_Parser\<close> and \<open>Url_Codec\<close>. \<open>Http_Request\<close>: request lines, status lines and versions
    (\<open>req_requestline.cpp\<close>, \<open>rsp_status.cpp\<close>, \<open>common_version.cpp\<close>). \<open>Http_Content\<close>: the body of a message
    (\<open>common_content.cpp\<close>, \<open>common_content_chunked_subparser.cpp\<close>), by length, in chunks or up to the end of
    the connection; the object that holds it is the locale \<open>content_object\<close>. \<open>Http_Fields\<close>: cache policy, transport
    security, frame and script options, and the cookies of both sides (\<open>hdr_*.cpp\<close>, \<open>rsp_cookies.cpp\<close>,
    \<open>req_cookies.cpp\<close>).

  \<^bold>\<open>How the code is modelled\<close>

  A class is a record with the names of its members, a derived class an extension of it; virtual
  operations are records of functions. Methods take the object and return it updated; exceptions
  are the left summand of a sum, a missing \<open>std::optional\<close> is \<open>None\<close>. Reads of uninitialised or
  out-of-range memory are arguments of the model (\<open>u\<close>, \<open>stack\<close>), so a theorem about them holds for
  every content of that memory. Loops are recursive functions with a termination proof, except the
  loops that can fail to end, which are \<open>partial_function (option)\<close>: a theorem then says whether
  the result is \<open>Some\<close>. The time-to-live of \<open>Parser::parseData\<close> is the bound the source has. Threads
  are program counters; a critical section is one step, and notification, time-out and spurious
  wake-up are steps of their own. Code outside the repository's sources is an argument: the
  memory-mapped container behind a chunked one, the handlers of lines and messages, the clock, the
  random draws, the digests and keys of OpenSSL, the text form of JSON, regular expressions and the
  endpoint functions of a server.

  \<^bold>\<open>What the theorems show\<close>

  \<^item> The containers keep their invariant and behave like byte strings: append, prepend, displace,
    truncate, find, copy and streaming are characterised on the content, including where they
    differ from what they should do (offsets after a displacement, order of a long prepend).
  \<^item> Each strategy of the subparser delivers the same elements however the stream is cut; the line
    protocol delivers exactly the lines; a write into the driver always returns.
  \<^item> The percent codecs are inverse to each other, the streaming decoder equals a byte-wise
    reference, and the encoder never returns when its destination refuses.
  \<^item> WebSocket: what the header writer writes the parser reads; short messages reach the handler
    once and in order; no bytes of a peer make a running connection throw; a message of any length
    is sent as a proper sequence of frames. Frames with extended lengths and the first message of a
    connection are mishandled, as the theorems state.
  \<^item> Threads: the queue refines a bounded list under every interleaving and loses no wake-up; the
    map never leaves a client with a deleted object and its destruction waits only for readers; the
    pool's queues are first in, first out and no worker sleeps while a task is queued, but stopping
    the pool strands a worker that is busy.
  \<^item> Addresses: text and back is the identity, the range test and the mask conversion are right for
    whole octets and wrong for every other prefix length, and a text that fails to parse leaves a
    network that matches everything.
  \<^item> Sockets: a string written with its length is read back whole however the connection cuts it and
    through any stack of layers; the buffered reader returns the bytes up to the delimiter; the
    challenge accepts only a peer that knows the key.
  \<^item> Tokens: through every sequence of uses an accepted token carries a signed payload, what \<open>sign\<close>
    produces \<open>verify\<close> accepts, and a cached payload escapes the revocation list.
  \<^item> Web servers: an endpoint that asks for a token runs only for signed claims and the scopes it
    requires; the session manager keeps each session registered and each user within the limit.
    Required roles are not asked for, the credentials of a request stay with its connection, and a
    monolithic session does not outlive a request, as the theorems state. A file is served only from
    below the configured directories and with the leave of the filter; the tags of a page are
    replaced once each, but an inclusion cycle never ends.
  \<^item> HTTP messages: a request line is read with its method, decoded path, variables and version; header
    blocks stay well formed under every operation and survive being written and read, as do query
    variables and cookies. A body arrives whole, by its length however it is cut, and in chunks from the
    sender of the library to its receiver, up to the 262144 pieces a container may have. Empty query values, the flags of a cookie, the age of a transport policy
    and the cache policy are misread, as the theorems state.

  \<^bold>\<open>Not modelled\<close>

  The memory-mapped container itself, the HTTP client, the loop of the HTTP server and its upgrade
  response, MIME messages beyond their headers, TLS and datagram sockets, databases, RPC, the engines of the web servers, the
  configuration builders, logs and program services: input and output,
  third-party libraries, or later work.
\<close>

end
